(* ===== verification/Epic_Prelude.thy ===== *)
theory Epic_Prelude
  imports Main "HOL-Library.Word" "HOL-Library.AList" "HOL-Library.Sublist"
    "HOL-Library.List_Lexorder"
begin

text \<open>
  The vocabulary shared by every component theory: bytes and byte strings, the fixed-width
  unsigned integers the Go sources use, Go's \<^verbatim>\<open>encoding/binary\<close> little- and big-endian
  conversions, the comparison of byte strings (\<^verbatim>\<open>bytes.Compare\<close>, \<^verbatim>\<open>bytes.HasPrefix\<close>),
  Go maps as association lists with distinct keys, and the generic facts about them that
  the component proofs use through the collections \<open>bytes_simps\<close> and \<open>gomap_simps\<close>.
\<close>

unbundle bit_operations_syntax

section \<open>Collections\<close>

named_theorems bytes_simps
named_theorems gomap_simps

section \<open>Bytes and machine integers\<close>

type_synonym byte = "8 word"
type_synonym bytes = "byte list"
type_synonym uint16 = "16 word"
type_synonym uint32 = "32 word"
type_synonym uint64 = "64 word"

text \<open>
  \<^verbatim>\<open>util.Uint160\<close> and \<^verbatim>\<open>util.Uint256\<close> are the arrays \<^verbatim>\<open>[20]uint8\<close> and \<^verbatim>\<open>[32]uint8\<close>; here they
  are the words whose big-endian bytes are the array.
\<close>

type_synonym uint160 = "160 word"
type_synonym uint256 = "256 word"

subsection \<open>Little- and big-endian byte strings\<close>

fun le_bytes :: "nat \<Rightarrow> nat \<Rightarrow> bytes" where
  "le_bytes 0 v = []"
| "le_bytes (Suc n) v = word_of_nat v # le_bytes n (v div 256)"

fun le_nat :: "bytes \<Rightarrow> nat" where
  "le_nat [] = 0"
| "le_nat (b # bs) = unat b + 256 * le_nat bs"

definition be_bytes :: "nat \<Rightarrow> nat \<Rightarrow> bytes" where
  "be_bytes n v = rev (le_bytes n v)"

definition be_nat :: "bytes \<Rightarrow> nat" where
  "be_nat bs = le_nat (rev bs)"

lemma length_le_bytes [simp, bytes_simps]: "length (le_bytes n v) = n"
  by (induction n arbitrary: v) auto

lemma length_be_bytes [simp, bytes_simps]: "length (be_bytes n v) = n"
  by (simp add: be_bytes_def)

lemma le_bytes_eq_Nil [simp]: "le_bytes n v = [] \<longleftrightarrow> n = 0"
  by (cases n) auto

lemma unat_less_2p: "unat (w :: 'a::len word) < 2 ^ LENGTH('a)"
  by (rule unsigned_less)

lemma unat_byte_less [simp]: "unat (b :: byte) < 256"
  using unat_less_2p [of b] by simp

lemma le_nat_less: "le_nat bs < 256 ^ length bs"
proof (induction bs)
  case (Cons b bs)
  then have "256 * le_nat bs + 256 \<le> 256 * 256 ^ length bs" by simp
  moreover have "unat b < 256" by simp
  ultimately have "unat b + 256 * le_nat bs < 256 * 256 ^ length bs" by linarith
  then show ?case by simp
qed simp

lemma be_nat_less: "be_nat bs < 256 ^ length bs"
  using le_nat_less [of "rev bs"] by (simp add: be_nat_def)

lemma unat_byte_of_nat: "unat (word_of_nat v :: byte) = v mod 256"
  by (simp add: unat_of_nat)

lemma le_nat_le_bytes [bytes_simps]: "le_nat (le_bytes n v) = v mod 256 ^ n"
proof (induction n arbitrary: v)
  case (Suc n)
  have "v mod (256 * 256 ^ n) = 256 * (v div 256 mod 256 ^ n) + v mod 256"
    by (rule mod_mult2_eq)
  with Suc show ?case by (simp add: unat_byte_of_nat)
qed simp

lemma be_nat_be_bytes [bytes_simps]: "be_nat (be_bytes n v) = v mod 256 ^ n"
  by (simp add: be_nat_def be_bytes_def le_nat_le_bytes)

lemma le_bytes_le_nat: "length bs = n \<Longrightarrow> le_bytes n (le_nat bs) = bs"
proof (induction bs arbitrary: n)
  case (Cons b bs)
  have "(unat b + 256 * le_nat bs) div 256 = le_nat bs"
    using unat_byte_less [of b] by simp
  moreover have "(word_of_nat (unat b + 256 * le_nat bs) :: byte) = b"
  proof -
    have "unat (word_of_nat (unat b + 256 * le_nat bs) :: byte) = unat b mod 256"
      by (simp only: unat_byte_of_nat) simp
    then show ?thesis by (simp add: word_unat_eq_iff)
  qed
  ultimately show ?case using Cons by (cases n) auto
qed simp

lemma be_bytes_be_nat: "length bs = n \<Longrightarrow> be_bytes n (be_nat bs) = bs"
  using le_bytes_le_nat [of "rev bs" n] by (simp add: be_nat_def be_bytes_def)

lemma le_bytes_inject:
  "v < 256 ^ n \<Longrightarrow> w < 256 ^ n \<Longrightarrow> le_bytes n v = le_bytes n w \<longleftrightarrow> v = w"
  by (metis le_nat_le_bytes mod_less)

lemma be_bytes_inject:
  "v < 256 ^ n \<Longrightarrow> w < 256 ^ n \<Longrightarrow> be_bytes n v = be_bytes n w \<longleftrightarrow> v = w"
  by (simp add: be_bytes_def le_bytes_inject)

subsection \<open>Words as their little-endian bytes\<close>

text \<open>\<^verbatim>\<open>binary.LittleEndian.PutUintN\<close> and \<^verbatim>\<open>binary.LittleEndian.UintN\<close>, for any width.\<close>

definition put_le :: "nat \<Rightarrow> 'a::len word \<Rightarrow> bytes" where
  "put_le n w = le_bytes n (unat w)"

definition get_le :: "bytes \<Rightarrow> 'a::len word" where
  "get_le bs = word_of_nat (le_nat bs)"

lemma length_put_le [simp, bytes_simps]: "length (put_le n w) = n"
  by (simp add: put_le_def)

lemma get_le_put_le [simp, bytes_simps]:
  fixes w :: "'a::len word"
  assumes "LENGTH('a) \<le> 8 * n"
  shows "get_le (put_le n w) = w"
proof -
  have "unat w < 2 ^ LENGTH('a)" by (rule unat_less_2p)
  also have "(2::nat) ^ LENGTH('a) \<le> 2 ^ (8 * n)" using assms by (rule power_increasing) simp
  also have "(2::nat) ^ (8 * n) = 256 ^ n" by (simp add: power_mult)
  finally show ?thesis by (simp add: get_le_def put_le_def le_nat_le_bytes)
qed

lemma put_le_get_le:
  assumes "length bs = n" and "8 * n \<le> LENGTH('a::len)"
  shows "put_le n (get_le bs :: 'a word) = bs"
proof -
  have "le_nat bs < 256 ^ n" using le_nat_less [of bs] assms(1) by simp
  also have "(256::nat) ^ n = 2 ^ (8 * n)" by (simp add: power_mult)
  also have "\<dots> \<le> 2 ^ LENGTH('a)" using assms(2) by (rule power_increasing) simp
  finally have "unat (word_of_nat (le_nat bs) :: 'a word) = le_nat bs"
    by (simp add: unat_of_nat)
  then show ?thesis using assms(1) by (simp add: put_le_def get_le_def le_bytes_le_nat)
qed

lemma ucast_ucast_small:
  fixes v :: "'a::len word"
  assumes "unat v < 2 ^ LENGTH('b::len)"
  shows "ucast (ucast v :: 'b word) = v"
proof -
  have "unat (ucast (ucast v :: 'b word) :: 'a word) = unat v"
    using assms unat_less_2p [of v]
    by (simp add: unsigned_ucast_eq unsigned_take_bit_eq take_bit_nat_eq_self)
  then show ?thesis by (simp add: word_unat_eq_iff)
qed

section \<open>Byte-string comparison\<close>

text \<open>
  \<^verbatim>\<open>bytes.HasPrefix(s, p)\<close> and \<^verbatim>\<open>bytes.Compare(a, b)\<close>: the latter is the lexicographic order
  of unsigned bytes, a proper prefix being smaller, which is the order \<open>List_Lexorder\<close> puts
  on lists.
\<close>

definition has_prefix :: "'a list \<Rightarrow> 'a list \<Rightarrow> bool" where
  "has_prefix s p \<longleftrightarrow> take (length p) s = p"

lemma has_prefix_iff: "has_prefix s p \<longleftrightarrow> (\<exists>t. s = p @ t)"
  unfolding has_prefix_def by (metis append_eq_conv_conj append_take_drop_id)

lemma has_prefix_append [simp]: "has_prefix (p @ t) p"
  by (simp add: has_prefix_def)

lemma has_prefix_Nil [simp]: "has_prefix s []"
  by (simp add: has_prefix_def)

lemma has_prefix_drop: "has_prefix s p \<Longrightarrow> p @ drop (length p) s = s"
  by (metis has_prefix_def append_take_drop_id)

lemma has_prefix_length: "has_prefix s p \<Longrightarrow> length p \<le> length s"
  by (auto simp: has_prefix_iff)

definition bytes_compare :: "bytes \<Rightarrow> bytes \<Rightarrow> int" where
  "bytes_compare a b = (if a < b then -1 else if a = b then 0 else 1)"

section \<open>Go maps\<close>

text \<open>
  A Go map is an association list with distinct keys: \<open>AList.update\<close> is assignment,
  \<open>AList.delete\<close> is \<^verbatim>\<open>delete\<close> and \<open>map_of\<close> is the lookup \<^verbatim>\<open>v, ok := m[k]\<close>. Where the code ranges
  over a map, the list order stands for the unspecified iteration order.
\<close>

type_synonym ('k, 'v) gomap = "('k \<times> 'v) list"

definition wf_gomap :: "('k, 'v) gomap \<Rightarrow> bool" where
  "wf_gomap m \<longleftrightarrow> distinct (map fst m)"

lemma wf_gomap_Nil [simp]: "wf_gomap []"
  by (simp add: wf_gomap_def)

lemma wf_gomap_update [simp, intro]: "wf_gomap m \<Longrightarrow> wf_gomap (AList.update k v m)"
  by (simp add: wf_gomap_def distinct_update)

lemma wf_gomap_delete [simp, intro]: "wf_gomap m \<Longrightarrow> wf_gomap (AList.delete k m)"
  by (simp add: wf_gomap_def distinct_delete)

lemma wf_gomap_mem: "wf_gomap m \<Longrightarrow> (k, v) \<in> set m \<longleftrightarrow> map_of m k = Some v"
  by (simp add: wf_gomap_def)

lemmas gomap_updates [simp, gomap_simps] = update_conv' delete_conv'

end
