(* ===== verification/Bin_IO.thy ===== *)
theory Bin_IO
  imports Epic_Prelude
begin

text \<open>
  Package \<^verbatim>\<open>pkg/io\<close>: the binary reader and writer every serializable structure of the node
  goes through, and the size estimator. A \<^verbatim>\<open>BinReader\<close> over a byte buffer is the unread bytes
  and the sticky error; a \<^verbatim>\<open>BinWriter\<close> over a buffer is the written bytes and the sticky error.
  The scratch arrays \<^verbatim>\<open>uv\<close> are never observed (every use overwrites them first, or an error
  makes the result zero), so they are not part of the state.
\<close>

section \<open>Errors\<close>

datatype io_error =
    EOF
  | ErrUnexpectedEOF
  | ErrArrayTooBig nat
  | ErrBytesTooBig nat
  | ErrDrained
  | ErrFormat string

section \<open>The reader\<close>

record bin_reader =
  r_buf :: bytes
  r_err :: "io_error option"

definition NewBinReaderFromBuf :: "bytes \<Rightarrow> bin_reader" where
  "NewBinReaderFromBuf b = \<lparr>r_buf = b, r_err = None\<rparr>"

definition MaxArraySize :: nat where
  "MaxArraySize = 0x1000000"

definition Reader_Len :: "bin_reader \<Rightarrow> nat" where
  "Reader_Len r = length (r_buf r)"

text \<open>
  \<^verbatim>\<open>ReadBytes(buf)\<close> fills \<^verbatim>\<open>buf\<close> with \<^verbatim>\<open>io.ReadFull\<close>: \<^verbatim>\<open>io.EOF\<close> when nothing at all could be
  read, \<^verbatim>\<open>io.ErrUnexpectedEOF\<close> after a partial fill, which consumes what there was.
\<close>

definition ReadBytes :: "bytes \<Rightarrow> bin_reader \<Rightarrow> bytes \<times> bin_reader" where
  "ReadBytes buf r =
     (case r_err r of
        Some e \<Rightarrow> (buf, r)
      | None \<Rightarrow>
          (let n = length buf; avail = length (r_buf r) in
           if n \<le> avail then (take n (r_buf r), r\<lparr>r_buf := drop n (r_buf r)\<rparr>)
           else (r_buf r @ drop avail buf,
                 r\<lparr>r_buf := [], r_err := Some (if avail = 0 then EOF else ErrUnexpectedEOF)\<rparr>)))"

definition ReadU64LE :: "bin_reader \<Rightarrow> uint64 \<times> bin_reader" where
  "ReadU64LE r = (let (b, r) = ReadBytes (replicate 8 0) r in
     if r_err r \<noteq> None then (0, r) else (get_le b, r))"

definition ReadU32LE :: "bin_reader \<Rightarrow> uint32 \<times> bin_reader" where
  "ReadU32LE r = (let (b, r) = ReadBytes (replicate 4 0) r in
     if r_err r \<noteq> None then (0, r) else (get_le b, r))"

definition ReadU16LE :: "bin_reader \<Rightarrow> uint16 \<times> bin_reader" where
  "ReadU16LE r = (let (b, r) = ReadBytes (replicate 2 0) r in
     if r_err r \<noteq> None then (0, r) else (get_le b, r))"

definition ReadU16BE :: "bin_reader \<Rightarrow> uint16 \<times> bin_reader" where
  "ReadU16BE r = (let (b, r) = ReadBytes (replicate 2 0) r in
     if r_err r \<noteq> None then (0, r) else (get_le (rev b), r))"

definition ReadB :: "bin_reader \<Rightarrow> byte \<times> bin_reader" where
  "ReadB r = (let (b, r) = ReadBytes (replicate 1 0) r in
     if r_err r \<noteq> None then (0, r) else (hd b, r))"

definition ReadBool :: "bin_reader \<Rightarrow> bool \<times> bin_reader" where
  "ReadBool r = (let (b, r) = ReadB r in (b \<noteq> 0, r))"

definition ReadVarUint :: "bin_reader \<Rightarrow> uint64 \<times> bin_reader" where
  "ReadVarUint r =
     (if r_err r \<noteq> None then (0, r)
      else
        let (b, r) = ReadB r in
        if b = 0xfd then let (v, r) = ReadU16LE r in (ucast v, r)
        else if b = 0xfe then let (v, r) = ReadU32LE r in (ucast v, r)
        else if b = 0xff then ReadU64LE r
        else (ucast b, r))"

text \<open>
  \<^verbatim>\<open>ReadVarBytes(maxSize...)\<close> with the limit passed explicitly (\<^verbatim>\<open>MaxArraySize\<close> when the
  caller gives none); the \<^verbatim>\<open>nil\<close> of the too-big case is the empty list, with the error set.
\<close>

definition ReadVarBytes :: "nat \<Rightarrow> bin_reader \<Rightarrow> bytes \<times> bin_reader" where
  "ReadVarBytes ms r =
     (let (n, r) = ReadVarUint r in
      if unat n > ms then ([], r\<lparr>r_err := Some (ErrBytesTooBig (unat n))\<rparr>)
      else ReadBytes (replicate (unat n) 0) r)"

definition ReadString :: "nat \<Rightarrow> bin_reader \<Rightarrow> bytes \<times> bin_reader" where
  "ReadString ms r = ReadVarBytes ms r"

text \<open>
  \<^verbatim>\<open>ReadArray(t, maxSize...)\<close>: \<open>dec\<close> is the element type's \<^verbatim>\<open>DecodeBinary\<close> and \<open>t\<close> the slice's
  current value, which the early returns leave alone. The loop runs to the announced length
  even after an error, the reads of a failed reader being no-ops.
\<close>

fun read_elems :: "(bin_reader \<Rightarrow> 'a \<times> bin_reader) \<Rightarrow> nat \<Rightarrow> bin_reader \<Rightarrow> 'a list \<times> bin_reader" where
  "read_elems dec 0 r = ([], r)"
| "read_elems dec (Suc l) r =
     (let (x, r) = dec r; (xs, r) = read_elems dec l r in (x # xs, r))"

definition ReadArray ::
  "(bin_reader \<Rightarrow> 'a \<times> bin_reader) \<Rightarrow> nat \<Rightarrow> 'a list \<Rightarrow> bin_reader \<Rightarrow> 'a list \<times> bin_reader" where
  "ReadArray dec ms t r =
     (if r_err r \<noteq> None then (t, r)
      else
        let (lu, r) = ReadVarUint r in
        if unat lu > ms then (t, r\<lparr>r_err := Some (ErrArrayTooBig (unat lu))\<rparr>)
        else read_elems dec (unat lu) r)"

section \<open>The writer\<close>

record bin_writer =
  w_buf :: bytes
  w_err :: "io_error option"

definition NewBufBinWriter :: bin_writer where
  "NewBufBinWriter = \<lparr>w_buf = [], w_err = None\<rparr>"

definition WriteBytes :: "bytes \<Rightarrow> bin_writer \<Rightarrow> bin_writer" where
  "WriteBytes b w = (if w_err w \<noteq> None then w else w\<lparr>w_buf := w_buf w @ b\<rparr>)"

definition WriteU64LE :: "uint64 \<Rightarrow> bin_writer \<Rightarrow> bin_writer" where
  "WriteU64LE u w = WriteBytes (put_le 8 u) w"

definition WriteU32LE :: "uint32 \<Rightarrow> bin_writer \<Rightarrow> bin_writer" where
  "WriteU32LE u w = WriteBytes (put_le 4 u) w"

definition WriteU16LE :: "uint16 \<Rightarrow> bin_writer \<Rightarrow> bin_writer" where
  "WriteU16LE u w = WriteBytes (put_le 2 u) w"

definition WriteU16BE :: "uint16 \<Rightarrow> bin_writer \<Rightarrow> bin_writer" where
  "WriteU16BE u w = WriteBytes (rev (put_le 2 u)) w"

definition WriteB :: "byte \<Rightarrow> bin_writer \<Rightarrow> bin_writer" where
  "WriteB u w = WriteBytes [u] w"

definition WriteBool :: "bool \<Rightarrow> bin_writer \<Rightarrow> bin_writer" where
  "WriteBool b w = WriteB (if b then 1 else 0) w"

text \<open>The bytes \<^verbatim>\<open>PutVarUint\<close> puts at the front of its buffer: as many as the count it returns.\<close>

definition PutVarUint :: "uint64 \<Rightarrow> bytes" where
  "PutVarUint val =
     (if val < 0xfd then [ucast val]
      else if val < 0xFFFF then 0xfd # put_le 2 (ucast val :: uint16)
      else if val < 0xFFFFFFFF then 0xfe # put_le 4 (ucast val :: uint32)
      else 0xff # put_le 8 val)"

definition WriteVarUint :: "uint64 \<Rightarrow> bin_writer \<Rightarrow> bin_writer" where
  "WriteVarUint val w = (if w_err w \<noteq> None then w else WriteBytes (PutVarUint val) w)"

definition WriteVarBytes :: "bytes \<Rightarrow> bin_writer \<Rightarrow> bin_writer" where
  "WriteVarBytes b w = WriteBytes b (WriteVarUint (word_of_nat (length b)) w)"

definition WriteString :: "bytes \<Rightarrow> bin_writer \<Rightarrow> bin_writer" where
  "WriteString s w =
     (let w = WriteVarUint (word_of_nat (length s)) w in
      if w_err w \<noteq> None then w else w\<lparr>w_buf := w_buf w @ s\<rparr>)"

fun write_elems :: "('a \<Rightarrow> bin_writer \<Rightarrow> bin_writer) \<Rightarrow> 'a list \<Rightarrow> bin_writer \<Rightarrow> bin_writer" where
  "write_elems enc [] w = w"
| "write_elems enc (x # xs) w = write_elems enc xs (enc x w)"

definition WriteArray :: "('a \<Rightarrow> bin_writer \<Rightarrow> bin_writer) \<Rightarrow> 'a list \<Rightarrow> bin_writer \<Rightarrow> bin_writer" where
  "WriteArray enc arr w =
     (if w_err w \<noteq> None then w
      else write_elems enc arr (WriteVarUint (word_of_nat (length arr)) w))"

text \<open>\<^verbatim>\<open>BufBinWriter.Bytes\<close> drains the buffer: a second call, and every later write, fails.\<close>

definition Writer_Bytes :: "bin_writer \<Rightarrow> bytes option \<times> bin_writer" where
  "Writer_Bytes w =
     (if w_err w \<noteq> None then (None, w) else (Some (w_buf w), w\<lparr>w_err := Some ErrDrained\<rparr>))"

definition Writer_Reset :: "bin_writer \<Rightarrow> bin_writer" where
  "Writer_Reset w = w\<lparr>w_err := None, w_buf := []\<rparr>"

section \<open>Size estimation\<close>

definition getVarIntSize :: "int \<Rightarrow> nat" where
  "getVarIntSize value = (if value < 0xFD then 1 else if value \<le> 0xFFFF then 3 else 5)"

text \<open>
  The kinds of value \<^verbatim>\<open>GetVarSize\<close> dispatches on by reflection: a string, a signed or an
  unsigned integer, a pointer to a serializable structure (its \<^verbatim>\<open>EncodeBinary\<close>, run against a
  counting writer), a slice of serializable values, a slice of integers of a given width
  (width 0 for the element types its inner switch does not list).
  The result is \<open>None\<close> where the code panics.
\<close>

datatype go_value =
    GString bytes
  | GInt int
  | GUint uint64
  | GPtr "bin_writer \<Rightarrow> bin_writer"
  | GSerSlice "go_value list"
  | GNumSlice nat nat

fun GetVarSize :: "go_value \<Rightarrow> nat option" where
  "GetVarSize (GString s) = Some (getVarIntSize (int (length s)) + length s)"
| "GetVarSize (GInt i) = Some (getVarIntSize i)"
| "GetVarSize (GUint u) = Some (getVarIntSize (sint u))"
| "GetVarSize (GPtr enc) =
     (let w = enc NewBufBinWriter in if w_err w \<noteq> None then None else Some (length (w_buf w)))"
| "GetVarSize (GSerSlice vs) =
     (let sizes = map GetVarSize vs in
      if None \<in> set sizes then None
      else Some (getVarIntSize (int (length vs)) + sum_list (map the sizes)))"
| "GetVarSize (GNumSlice width len) = Some (getVarIntSize (int len) + len * width)"

section \<open>Reader and writer laws\<close>

lemmas read_defs = ReadU64LE_def ReadU32LE_def ReadU16LE_def ReadU16BE_def ReadB_def
lemmas write_defs = WriteU64LE_def WriteU32LE_def WriteU16LE_def WriteU16BE_def WriteB_def
  WriteBool_def WriteVarUint_def WriteVarBytes_def

abbreviation reader_of :: "bytes \<Rightarrow> bin_reader" where
  "reader_of b \<equiv> \<lparr>r_buf = b, r_err = None\<rparr>"

abbreviation writer_of :: "bytes \<Rightarrow> bin_writer" where
  "writer_of b \<equiv> \<lparr>w_buf = b, w_err = None\<rparr>"

lemma ReadBytes_append [simp]:
  "length buf = length b \<Longrightarrow> ReadBytes buf (reader_of (b @ rest)) = (b, reader_of rest)"
  by (simp add: ReadBytes_def Let_def)

lemma ReadBytes_failed [simp]: "r_err r = Some e \<Longrightarrow> ReadBytes buf r = (buf, r)"
  by (simp add: ReadBytes_def)

lemma ReadB_Cons [simp]: "ReadB (reader_of (b # rest)) = (b, reader_of rest)"
  by (simp add: ReadB_def ReadBytes_def)

lemma ReadU16LE_put [simp]: "ReadU16LE (reader_of (put_le 2 v @ rest)) = (v, reader_of rest)"
  and ReadU32LE_put [simp]: "ReadU32LE (reader_of (put_le 4 v' @ rest)) = (v', reader_of rest)"
  and ReadU64LE_put [simp]: "ReadU64LE (reader_of (put_le 8 v'' @ rest)) = (v'', reader_of rest)"
  by (simp_all add: read_defs)

lemma WriteBytes_writer_of [simp]: "WriteBytes b (writer_of a) = writer_of (a @ b)"
  by (simp add: WriteBytes_def)

lemma WriteBytes_failed [simp]: "w_err w = Some e \<Longrightarrow> WriteBytes b w = w"
  by (simp add: WriteBytes_def)

lemma WriteVarUint_writer_of [simp]: "WriteVarUint v (writer_of a) = writer_of (a @ PutVarUint v)"
  by (simp add: WriteVarUint_def)

lemma WriteVarBytes_writer_of [simp]:
  "WriteVarBytes b (writer_of a) = writer_of (a @ PutVarUint (word_of_nat (length b)) @ b)"
  by (simp add: WriteVarBytes_def)

lemma WriteB_writer_of [simp]: "WriteB b (writer_of a) = writer_of (a @ [b])"
  by (simp add: WriteB_def)

subsection \<open>Variable-length integers\<close>

lemma length_PutVarUint:
  "length (PutVarUint v) =
     (if unat v < 0xfd then 1 else if unat v < 0xFFFF then 3 else if unat v < 0xFFFFFFFF then 5 else 9)"
  by (simp add: PutVarUint_def word_less_nat_alt)

lemma ReadVarUint_PutVarUint [simp]:
  "ReadVarUint (reader_of (PutVarUint v @ rest)) = (v, reader_of rest)"
proof -
  consider "v < 0xfd" | "\<not> v < 0xfd" "v < 0xFFFF" | "\<not> v < 0xFFFF" "v < 0xFFFFFFFF"
    | "\<not> v < 0xFFFFFFFF" by blast
  then show ?thesis
  proof cases
    case 1
    then have small: "unat v < 0xfd" by (simp add: word_less_nat_alt)
    then have "ucast (ucast v :: byte) = v" by (intro ucast_ucast_small) simp
    moreover have "unat (ucast v :: byte) = unat v"
      using small by (simp add: unsigned_ucast_eq take_bit_eq_mod)
    then have "(ucast v :: byte) \<noteq> 0xfd" "(ucast v :: byte) \<noteq> 0xfe" "(ucast v :: byte) \<noteq> 0xff"
      using small by (auto simp: word_unat_eq_iff)
    ultimately show ?thesis using 1 by (simp add: ReadVarUint_def PutVarUint_def)
  next
    case 2
    then have "ucast (ucast v :: uint16) = v"
      by (intro ucast_ucast_small) (simp add: word_less_nat_alt)
    with 2 show ?thesis by (simp add: ReadVarUint_def PutVarUint_def)
  next
    case 3
    then have "\<not> v < 0xfd" by (simp add: word_less_nat_alt)
    moreover have "ucast (ucast v :: uint32) = v"
      using 3 by (intro ucast_ucast_small) (simp add: word_less_nat_alt)
    ultimately show ?thesis using 3 by (simp add: ReadVarUint_def PutVarUint_def)
  next
    case 4
    then have "\<not> v < 0xfd" "\<not> v < 0xFFFF" by (simp_all add: word_less_nat_alt)
    with 4 show ?thesis by (simp add: ReadVarUint_def PutVarUint_def)
  qed
qed

lemma unat_word64_length: "n < 2 ^ 64 \<Longrightarrow> unat (word_of_nat n :: uint64) = n"
  by (simp add: unat_of_nat)

lemma ReadVarBytes_put:
  assumes "length b \<le> ms" and "ms < 2 ^ 64"
  shows "ReadVarBytes ms (reader_of (PutVarUint (word_of_nat (length b)) @ b @ rest)) = (b, reader_of rest)"
proof -
  have "unat (word_of_nat (length b) :: uint64) = length b"
    using assms by (intro unat_word64_length) simp
  with assms(1) show ?thesis by (simp add: ReadVarBytes_def)
qed

section \<open>Codecs\<close>

text \<open>
  What a serializable structure promises: on a fresh writer \<open>enc\<close> only appends the bytes
  \<open>out x\<close>, and \<open>dec\<close> reads exactly these bytes back. Arrays of such elements then promise the
  same, which is proved once here.
\<close>

locale codec =
  fixes enc :: "'a \<Rightarrow> bin_writer \<Rightarrow> bin_writer"
    and dec :: "bin_reader \<Rightarrow> 'a \<times> bin_reader"
    and out :: "'a \<Rightarrow> bytes"
    and ok :: "'a \<Rightarrow> bool"
  assumes enc_appends: "ok x \<Longrightarrow> enc x (writer_of a) = writer_of (a @ out x)"
    and dec_out: "ok x \<Longrightarrow> dec (reader_of (out x @ rest)) = (x, reader_of rest)"
begin

lemma write_elems_appends:
  "list_all ok xs \<Longrightarrow> write_elems enc xs (writer_of a) = writer_of (a @ concat (map out xs))"
  by (induction xs arbitrary: a) (simp_all add: enc_appends)

lemma read_elems_out:
  "list_all ok xs \<Longrightarrow>
   read_elems dec (length xs) (reader_of (concat (map out xs) @ rest)) = (xs, reader_of rest)"
  by (induction xs) (simp_all add: dec_out)

lemma array_roundtrip:
  assumes "list_all ok xs" and "length xs \<le> ms" and "ms < 2 ^ 64"
  shows "ReadArray dec ms t
           (reader_of (w_buf (WriteArray enc xs (writer_of [])) @ rest)) = (xs, reader_of rest)"
proof -
  have "unat (word_of_nat (length xs) :: uint64) = length xs"
    using assms by (intro unat_word64_length) simp
  with assms show ?thesis
    by (simp add: WriteArray_def ReadArray_def write_elems_appends read_elems_out)
qed

lemma array_size:
  assumes "list_all ok xs"
  shows "w_buf (WriteArray enc xs (writer_of [])) =
           PutVarUint (word_of_nat (length xs)) @ concat (map out xs)"
  using assms by (simp add: WriteArray_def write_elems_appends)

end

interpretation u32_codec: codec WriteU32LE ReadU32LE "put_le 4" "\<lambda>_. True"
  by unfold_locales (simp_all add: WriteU32LE_def)

interpretation u64_codec: codec WriteU64LE ReadU64LE "put_le 8" "\<lambda>_. True"
  by unfold_locales (simp_all add: WriteU64LE_def)

interpretation var_bytes_codec:
  codec WriteVarBytes "ReadVarBytes MaxArraySize" "\<lambda>b. PutVarUint (word_of_nat (length b)) @ b"
    "\<lambda>b. length b \<le> MaxArraySize"
  by unfold_locales (simp_all add: ReadVarBytes_put MaxArraySize_def)

section \<open>Sticky errors\<close>

text \<open>A reader operation that keeps a failed reader as it is and yields its default value.\<close>

definition sticky :: "(bin_reader \<Rightarrow> 'a \<times> bin_reader) \<Rightarrow> 'a \<Rightarrow> bool" where
  "sticky op d \<longleftrightarrow> (\<forall>r e. r_err r = Some e \<longrightarrow> op r = (d, r))"

lemma stickyD: "sticky op d \<Longrightarrow> r_err r = Some e \<Longrightarrow> op r = (d, r)"
  by (simp add: sticky_def)

lemma read_elems_failed:
  "sticky dec d \<Longrightarrow> r_err r = Some e \<Longrightarrow> read_elems dec l r = (replicate l d, r)"
  by (induction l) (simp_all add: stickyD)

lemma sticky_reads:
  "sticky ReadU64LE 0" "sticky ReadU32LE 0" "sticky ReadU16LE 0" "sticky ReadU16BE 0"
  "sticky ReadB 0" "sticky ReadBool False" "sticky ReadVarUint 0" "sticky (ReadVarBytes ms) []"
  by (auto simp: sticky_def read_defs ReadBool_def ReadVarUint_def ReadVarBytes_def)

section \<open>Properties\<close>

text \<open>
  Every 64-bit value survives the variable-length encoding: written to a fresh writer and
  read back it is the same value, and exactly its encoding is consumed.
\<close>

theorem varuint_roundtrip:
  "ReadVarUint (NewBinReaderFromBuf (w_buf (WriteVarUint v NewBufBinWriter) @ rest)) =
     (v, NewBinReaderFromBuf rest)"
  by (simp add: NewBinReaderFromBuf_def NewBufBinWriter_def)

text \<open>
  A slice of byte strings within the size limit survives \<^verbatim>\<open>WriteArray\<close> followed by
  \<^verbatim>\<open>ReadArray\<close>, whatever follows it in the buffer.
\<close>

theorem var_bytes_array_roundtrip:
  assumes "\<forall>b \<in> set bss. length b \<le> MaxArraySize" and "length bss \<le> MaxArraySize"
  shows "ReadArray (ReadVarBytes MaxArraySize) MaxArraySize t
           (NewBinReaderFromBuf (w_buf (WriteArray WriteVarBytes bss NewBufBinWriter) @ rest)) =
         (bss, NewBinReaderFromBuf rest)"
proof -
  have "list_all (\<lambda>b. length b \<le> MaxArraySize) bss" using assms(1) by (simp add: list_all_iff)
  then show ?thesis
    using var_bytes_codec.array_roundtrip [of bss MaxArraySize t rest] assms(2)
    by (simp add: NewBinReaderFromBuf_def NewBufBinWriter_def MaxArraySize_def)
qed

theorem var_bytes_array_roundtrip_witness:
  "ReadArray (ReadVarBytes MaxArraySize) MaxArraySize []
     (NewBinReaderFromBuf (w_buf (WriteArray WriteVarBytes [[1, 2], [], [3]] NewBufBinWriter) @ [9])) =
   ([[1, 2], [], [3]], NewBinReaderFromBuf [9])"
  by (rule var_bytes_array_roundtrip) (simp_all add: MaxArraySize_def)

text \<open>
  \<^verbatim>\<open>getVarIntSize\<close> agrees with the number of bytes \<^verbatim>\<open>PutVarUint\<close> writes for every value below
  \<^verbatim>\<open>0xFFFFFFFF\<close> except exactly \<^verbatim>\<open>0xFFFF\<close>, which is announced as three bytes and written as five.
\<close>

theorem getVarIntSize_exact:
  assumes "n < 0xFFFFFFFF"
  shows "length (PutVarUint (word_of_nat n)) = getVarIntSize (int n) \<longleftrightarrow> n \<noteq> 0xFFFF"
proof -
  have "unat (word_of_nat n :: uint64) = n" using assms by (intro unat_word64_length) simp
  then show ?thesis using assms by (auto simp: length_PutVarUint getVarIntSize_def)
qed

theorem getVarIntSize_exact_witness:
  "length (PutVarUint (word_of_nat 0xFFFF)) \<noteq> getVarIntSize (int 0xFFFF) \<and>
   length (PutVarUint (word_of_nat 0xFFFE)) = getVarIntSize (int 0xFFFE)"
  using getVarIntSize_exact [of "0xFFFF"] getVarIntSize_exact [of "0xFFFE"] by simp

lemma reader_errors_sticky:
  assumes "r_err r = Some e"
  shows "ReadVarUint r = (0, r) \<and> ReadVarBytes ms r = ([], r) \<and> ReadB r = (0, r) \<and>
    ReadU16LE r = (0, r) \<and> ReadU32LE r = (0, r) \<and> ReadU64LE r = (0, r) \<and>
    ReadArray dec ms t r = (t, r)"
  using assms sticky_reads [unfolded sticky_def, rule_format, OF assms]
  by (simp add: ReadArray_def)

end
