(* ===== verification/Merkle.thy ===== *)
theory Merkle
  imports Bin_IO
begin

text \<open>
  Fixed-size hashes (\<^verbatim>\<open>pkg/util\<close>), the hash combinators of \<^verbatim>\<open>pkg/crypto/hash\<close> and the Merkle
  tree blocks commit to their transactions with. The primitive \<^verbatim>\<open>sha256.Sum256\<close> is an argument
  \<open>sha\<close> of every definition; facts that need collision resistance state the collision.
\<close>

section \<open>Uint256 and Uint160\<close>

definition Uint256Size :: nat where
  "Uint256Size = 32"

definition Uint160Size :: nat where
  "Uint160Size = 20"

definition BytesBE :: "uint256 \<Rightarrow> bytes" where
  "BytesBE u = be_bytes 32 (unat u)"

definition BytesLE :: "uint256 \<Rightarrow> bytes" where
  "BytesLE u = rev (BytesBE u)"

definition Uint256DecodeBytesBE :: "bytes \<Rightarrow> uint256 option" where
  "Uint256DecodeBytesBE b = (if length b \<noteq> Uint256Size then None else Some (word_of_nat (be_nat b)))"

definition Uint256DecodeBytesLE :: "bytes \<Rightarrow> uint256 option" where
  "Uint256DecodeBytesLE b = Uint256DecodeBytesBE (rev b)"

definition Uint256_Reverse :: "uint256 \<Rightarrow> uint256" where
  "Uint256_Reverse u = (case Uint256DecodeBytesLE (BytesBE u) of None \<Rightarrow> 0 | Some r \<Rightarrow> r)"

definition Uint256_CompareTo :: "uint256 \<Rightarrow> uint256 \<Rightarrow> int" where
  "Uint256_CompareTo u other = bytes_compare (BytesBE u) (BytesBE other)"

definition Uint256_EncodeBinary :: "uint256 \<Rightarrow> bin_writer \<Rightarrow> bin_writer" where
  "Uint256_EncodeBinary u w = WriteBytes (BytesBE u) w"

text \<open>\<^verbatim>\<open>DecodeBinary\<close> reads into the receiver \<open>u\<close>; a failed reader leaves it as it is.\<close>

definition Uint256_DecodeBinary :: "uint256 \<Rightarrow> bin_reader \<Rightarrow> uint256 \<times> bin_reader" where
  "Uint256_DecodeBinary u r = (let (b, r) = ReadBytes (BytesBE u) r in (word_of_nat (be_nat b), r))"

lemma length_BytesBE [simp]: "length (BytesBE u) = 32"
  by (simp add: BytesBE_def)

lemma be_nat_BytesBE [simp]: "be_nat (BytesBE u) = unat u"
proof -
  have "unat u < 2 ^ 256" using unat_less_2p [of u] by simp
  then show ?thesis by (simp add: BytesBE_def be_nat_be_bytes)
qed

lemma BytesBE_inject [simp]: "BytesBE u = BytesBE v \<longleftrightarrow> u = v"
  by (metis be_nat_BytesBE word_unat_eq_iff)

lemma Uint256_decode_BytesBE [simp]: "Uint256DecodeBytesBE (BytesBE u) = Some u"
  by (simp add: Uint256DecodeBytesBE_def Uint256Size_def)

lemma Uint256_decode_BytesLE [simp]: "Uint256DecodeBytesLE (BytesLE u) = Some u"
  by (simp add: Uint256DecodeBytesLE_def BytesLE_def)

interpretation uint256_codec: codec Uint256_EncodeBinary "Uint256_DecodeBinary 0" BytesBE "\<lambda>_. True"
  by unfold_locales (simp_all add: Uint256_EncodeBinary_def Uint256_DecodeBinary_def)

section \<open>Hashes\<close>

definition Sha256 :: "(bytes \<Rightarrow> uint256) \<Rightarrow> bytes \<Rightarrow> uint256" where
  "Sha256 sha data = sha data"

definition DoubleSha256 :: "(bytes \<Rightarrow> uint256) \<Rightarrow> bytes \<Rightarrow> uint256" where
  "DoubleSha256 sha data = Sha256 sha (BytesBE (Sha256 sha data))"

definition RipeMD160 :: "(bytes \<Rightarrow> uint160) \<Rightarrow> bytes \<Rightarrow> uint160" where
  "RipeMD160 ripemd data = ripemd data"

definition Hash160 :: "(bytes \<Rightarrow> uint256) \<Rightarrow> (bytes \<Rightarrow> uint160) \<Rightarrow> bytes \<Rightarrow> uint160" where
  "Hash160 sha ripemd data = RipeMD160 ripemd (BytesBE (Sha256 sha data))"

definition Checksum :: "(bytes \<Rightarrow> uint256) \<Rightarrow> bytes \<Rightarrow> bytes" where
  "Checksum sha data = take 4 (BytesBE (DoubleSha256 sha data))"

definition GetSignedData :: "uint32 \<Rightarrow> uint256 \<Rightarrow> bytes" where
  "GetSignedData net h = put_le 4 net @ BytesBE h"

definition NetSha256 :: "(bytes \<Rightarrow> uint256) \<Rightarrow> uint32 \<Rightarrow> uint256 \<Rightarrow> uint256" where
  "NetSha256 sha net h = Sha256 sha (GetSignedData net h)"

section \<open>The Merkle tree\<close>

text \<open>
  A node holds its hash and its two children; the parent pointers of the code are written and
  never read by these functions. An odd last node has the same left and right child.
\<close>

datatype merkle_node =
    MerkleLeaf (node_hash: uint256)
  | MerkleNode (node_hash: uint256) (leftChild: merkle_node) (rightChild: merkle_node)

record merkle_tree =
  mt_root :: merkle_node
  mt_depth :: int

definition IsLeaf :: "merkle_node \<Rightarrow> bool" where
  "IsLeaf n = (case n of MerkleLeaf h \<Rightarrow> True | MerkleNode h l r \<Rightarrow> False)"

definition merkle_parents :: "(bytes \<Rightarrow> uint256) \<Rightarrow> merkle_node list \<Rightarrow> merkle_node list" where
  "merkle_parents sha leaves =
     map (\<lambda>i.
        let l = leaves ! (i * 2);
            r = (if i * 2 + 1 = length leaves then l else leaves ! (i * 2 + 1))
        in MerkleNode (DoubleSha256 sha (BytesBE (node_hash l) @ BytesBE (node_hash r))) l r)
       [0..<(length leaves + 1) div 2]"

lemma half_less: "xs \<noteq> [] \<Longrightarrow> length xs \<noteq> Suc 0 \<Longrightarrow> Suc (length xs) div 2 < length xs"
  by (cases xs) auto

lemma length_merkle_parents [simp]: "length (merkle_parents sha leaves) = (length leaves + 1) div 2"
  by (simp add: merkle_parents_def)

text \<open>\<open>None\<close> is the panic on an empty list.\<close>

function buildMerkleTree :: "(bytes \<Rightarrow> uint256) \<Rightarrow> merkle_node list \<Rightarrow> merkle_node option" where
  "buildMerkleTree sha leaves =
     (if length leaves = 0 then None
      else if length leaves = 1 then Some (leaves ! 0)
      else buildMerkleTree sha (merkle_parents sha leaves))"
  by pat_completeness auto
termination
  by (relation "measure (\<lambda>(sha, leaves). length leaves)") (auto simp: half_less)

declare buildMerkleTree.simps [simp del]

definition NewMerkleTree :: "(bytes \<Rightarrow> uint256) \<Rightarrow> uint256 list \<Rightarrow> merkle_tree option" where
  "NewMerkleTree sha hashes =
     (if length hashes = 0 then None
      else map_option (\<lambda>root. \<lparr>mt_root = root, mt_depth = 1\<rparr>)
             (buildMerkleTree sha (map MerkleLeaf hashes)))"

definition Merkle_Root :: "merkle_tree \<Rightarrow> uint256" where
  "Merkle_Root t = node_hash (mt_root t)"

section \<open>The in-place root computation\<close>

text \<open>
  \<^verbatim>\<open>CalcMerkleRoot\<close> overwrites the front of its argument with the parents while it still reads
  the rest of it: the loop body works on the one underlying array \<open>hs\<close>, of which \<open>k\<close> cells
  are the parents.
\<close>

function calc_layer :: "(bytes \<Rightarrow> uint256) \<Rightarrow> nat \<Rightarrow> nat \<Rightarrow> uint256 list \<Rightarrow> uint256 list" where
  "calc_layer sha i k hs =
     (if i < k then
        let l = BytesBE (hs ! (i * 2));
            r = (if i * 2 + 1 = length hs then BytesBE (hs ! (i * 2)) else BytesBE (hs ! (i * 2 + 1)))
        in calc_layer sha (i + 1) k (hs[i := DoubleSha256 sha (l @ r)])
      else hs)"
  by pat_completeness auto
termination
  by (relation "measure (\<lambda>(sha, i, k, hs). k - i)") auto

declare calc_layer.simps [simp del]

lemma length_calc_layer [simp]: "length (calc_layer sha i k hs) = length hs"
proof (induction sha i k hs rule: calc_layer.induct)
  case (1 sha i k hs)
  then show ?case by (subst calc_layer.simps) (simp add: Let_def)
qed

function CalcMerkleRoot :: "(bytes \<Rightarrow> uint256) \<Rightarrow> uint256 list \<Rightarrow> uint256" where
  "CalcMerkleRoot sha hashes =
     (if length hashes = 0 then 0
      else if length hashes = 1 then hashes ! 0
      else
        let k = (length hashes + 1) div 2
        in CalcMerkleRoot sha (take k (calc_layer sha 0 k hashes)))"
  by pat_completeness auto
termination
  by (relation "measure (\<lambda>(sha, hashes). length hashes)") (auto simp: half_less)

declare CalcMerkleRoot.simps [simp del]

section \<open>One layer, as a function of the list below it\<close>

definition pair_input :: "uint256 list \<Rightarrow> nat \<Rightarrow> bytes" where
  "pair_input hs i = BytesBE (hs ! (i * 2)) @
     BytesBE (if i * 2 + 1 = length hs then hs ! (i * 2) else hs ! (i * 2 + 1))"

definition pair_hash :: "(bytes \<Rightarrow> uint256) \<Rightarrow> uint256 list \<Rightarrow> nat \<Rightarrow> uint256" where
  "pair_hash sha hs i = DoubleSha256 sha (pair_input hs i)"

definition layer :: "(bytes \<Rightarrow> uint256) \<Rightarrow> uint256 list \<Rightarrow> uint256 list" where
  "layer sha hs = map (pair_hash sha hs) [0..<(length hs + 1) div 2]"

lemma length_layer [simp]: "length (layer sha hs) = (length hs + 1) div 2"
  by (simp add: layer_def)

lemma layer_nth: "i < (length hs + 1) div 2 \<Longrightarrow> layer sha hs ! i = pair_hash sha hs i"
  by (simp add: layer_def del: upt_Suc)

lemma node_hash_parents:
  "map node_hash (merkle_parents sha leaves) = layer sha (map node_hash leaves)"
  by (auto simp: merkle_parents_def layer_def pair_hash_def pair_input_def Let_def o_def intro!: nth_equalityI)

text \<open>
  The loop invariant: cells below \<open>i\<close> hold the parents of the original list, the cells from
  \<open>i\<close> on are still the original ones, and every cell the body reads is among the latter.
\<close>

lemma calc_layer_invariant:
  assumes "length hs = length orig" and "k = (length orig + 1) div 2" and "i \<le> k"
    and "\<forall>j < i. hs ! j = pair_hash sha orig j"
    and "\<forall>j < length orig. i \<le> j \<longrightarrow> hs ! j = orig ! j"
  shows "take k (calc_layer sha i k hs) = layer sha orig"
  using assms
proof (induction sha i k hs rule: calc_layer.induct)
  case (1 sha i k hs)
  show ?case
  proof (cases "i < k")
    case True
    let ?v = "DoubleSha256 sha (BytesBE (hs ! (i * 2)) @
      (if i * 2 + 1 = length hs then BytesBE (hs ! (i * 2)) else BytesBE (hs ! (i * 2 + 1))))"
    have in_range: "i * 2 < length orig" "i < length hs" using True "1.prems"(1,2) by auto
    have v: "?v = pair_hash sha orig i"
    proof (cases "i * 2 + 1 = length orig")
      case True
      with in_range "1.prems"(1,5) show ?thesis by (simp add: pair_hash_def pair_input_def)
    next
      case False
      with in_range "1.prems"(1,5) show ?thesis by (simp add: pair_hash_def pair_input_def)
    qed
    have "take k (calc_layer sha (i + 1) k (hs[i := ?v])) = layer sha orig"
    proof (rule "1.IH" [OF True refl refl])
      show "length (hs[i := ?v]) = length orig" using "1.prems"(1) by simp
      show "\<forall>j < i + 1. hs[i := ?v] ! j = pair_hash sha orig j"
        using "1.prems"(4) v in_range(2) by (auto simp: less_Suc_eq)
      show "\<forall>j < length orig. i + 1 \<le> j \<longrightarrow> hs[i := ?v] ! j = orig ! j"
        using "1.prems"(5) by auto
    qed (use True "1.prems"(2) in auto)
    with True show ?thesis by (subst calc_layer.simps) (simp add: Let_def)
  next
    case False
    with "1.prems" have "i = k" by simp
    moreover have "k \<le> length hs" using "1.prems"(1,2) by (cases "length orig") auto
    ultimately show ?thesis
      using False "1.prems"(2,4) by (subst calc_layer.simps) (auto simp: layer_def intro!: nth_equalityI)
  qed
qed

lemma calc_layer_layer: "k = (length hs + 1) div 2 \<Longrightarrow> take k (calc_layer sha 0 k hs) = layer sha hs"
  by (rule calc_layer_invariant) auto

lemma CalcMerkleRoot_simps:
  "CalcMerkleRoot sha [] = 0"
  "CalcMerkleRoot sha [h] = h"
  "1 < length hs \<Longrightarrow> CalcMerkleRoot sha hs = CalcMerkleRoot sha (layer sha hs)"
  by (subst CalcMerkleRoot.simps, simp add: Let_def calc_layer_layer)+

section \<open>What the root commits to\<close>

text \<open>The byte strings hashed on the way to the root.\<close>

definition layer_inputs :: "uint256 list \<Rightarrow> bytes list" where
  "layer_inputs hs = map (pair_input hs) [0..<(length hs + 1) div 2]"

lemma layer_map: "layer sha hs = map (DoubleSha256 sha) (layer_inputs hs)"
  by (simp add: layer_def layer_inputs_def pair_hash_def)

function merkle_inputs :: "(bytes \<Rightarrow> uint256) \<Rightarrow> uint256 list \<Rightarrow> bytes list" where
  "merkle_inputs sha hs =
     (if length hs \<le> 1 then [] else layer_inputs hs @ merkle_inputs sha (layer sha hs))"
  by pat_completeness auto
termination
  by (relation "measure (\<lambda>(sha, hs). length hs)") auto

declare merkle_inputs.simps [simp del]

lemma layer_inputs_inject:
  assumes "length hs = length hs'" and "layer_inputs hs = layer_inputs hs'"
  shows "hs = hs'"
proof (rule nth_equalityI)
  fix j assume j: "j < length hs"
  let ?i = "j div 2"
  have "?i < (length hs + 1) div 2" using j by auto
  then have "pair_input hs ?i = pair_input hs' ?i"
    using assms by (auto simp: layer_inputs_def simp del: upt_Suc)
  then have same: "hs ! (?i * 2) = hs' ! (?i * 2)"
    "?i * 2 + 1 \<noteq> length hs \<Longrightarrow> hs ! (?i * 2 + 1) = hs' ! (?i * 2 + 1)"
    using assms(1) by (auto simp: pair_input_def split: if_splits)
  show "hs ! j = hs' ! j"
  proof (cases "even j")
    case True
    then have "?i * 2 = j" by auto
    with same show ?thesis by simp
  next
    case False
    then have "?i * 2 + 1 = j" by (simp add: odd_two_times_div_two_succ mult.commute)
    with same(2) j show ?thesis by (metis nat_neq_iff)
  qed
qed (fact assms(1))

lemma layer_duplicate_last:
  assumes "odd (length hs)"
  shows "layer sha (hs @ [last hs]) = layer sha hs"
proof (rule nth_equalityI)
  show "length (layer sha (hs @ [last hs])) = length (layer sha hs)" using assms by auto
next
  fix i assume "i < length (layer sha (hs @ [last hs]))"
  then have i: "i < (length hs + 1) div 2" using assms by auto
  have last: "last hs = hs ! (length hs - 1)" using assms by (intro last_conv_nth) auto
  have "pair_hash sha (hs @ [last hs]) i = pair_hash sha hs i"
  proof (cases "i * 2 + 1 = length hs")
    case True
    then have "last hs = hs ! (i * 2)" using last by (metis add_diff_cancel_right')
    with True show ?thesis by (simp add: pair_hash_def pair_input_def nth_append)
  next
    case False
    with i assms have "i * 2 + 1 < length hs" by presburger
    then show ?thesis by (simp add: pair_hash_def pair_input_def nth_append)
  qed
  moreover have "(length (hs @ [last hs]) + 1) div 2 = (length hs + 1) div 2" using assms by auto
  ultimately show "layer sha (hs @ [last hs]) ! i = layer sha hs ! i"
    using i by (simp only: layer_nth)
qed

section \<open>Properties\<close>

text \<open>
  C11. The in-place \<^verbatim>\<open>CalcMerkleRoot\<close>, which overwrites the slice it is reading, computes the
  root of the tree \<^verbatim>\<open>NewMerkleTree\<close> builds (and the zero hash for no hashes, where the tree
  constructor reports an error).
\<close>

theorem CalcMerkleRoot_tree:
  "CalcMerkleRoot sha hashes =
     (case NewMerkleTree sha hashes of None \<Rightarrow> 0 | Some t \<Rightarrow> Merkle_Root t)"
proof -
  have "nodes \<noteq> [] \<Longrightarrow>
    \<exists>root. buildMerkleTree sha nodes = Some root \<and>
      node_hash root = CalcMerkleRoot sha (map node_hash nodes)" for nodes
  proof (induction sha nodes rule: buildMerkleTree.induct)
    case (1 sha leaves)
    show ?case
    proof (cases "length leaves = 1")
      case True
      then obtain l where "leaves = [l]" by (auto simp: length_Suc_conv)
      then show ?thesis by (simp add: buildMerkleTree.simps CalcMerkleRoot_simps)
    next
      case False
      with "1.prems" have long: "1 < length leaves" by (cases leaves) auto
      then have "merkle_parents sha leaves \<noteq> []" by (auto simp flip: length_greater_0_conv)
      with "1.IH" long obtain root where
        "buildMerkleTree sha (merkle_parents sha leaves) = Some root"
        "node_hash root = CalcMerkleRoot sha (map node_hash (merkle_parents sha leaves))"
        by (metis less_numeral_extra(4) not_one_less_zero)
      then have "buildMerkleTree sha (merkle_parents sha leaves) = Some root"
        "node_hash root = CalcMerkleRoot sha (layer sha (map node_hash leaves))"
        by (simp_all only: node_hash_parents)
      with long show ?thesis
        by (subst buildMerkleTree.simps)
          (auto simp: CalcMerkleRoot_simps(3) [of "map node_hash leaves"])
    qed
  qed
  from this [of "map MerkleLeaf hashes"] show ?thesis
    by (cases "hashes = []") (auto simp: NewMerkleTree_def Merkle_Root_def CalcMerkleRoot_simps o_def)
qed

text \<open>
  C12. The root commits to the hashes: if the double SHA-256 has no collision among the
  64-byte strings hashed on the way to the two roots, different lists of the same length have
  different roots.
\<close>

theorem CalcMerkleRoot_binding:
  assumes "length hs = length hs'" and "hs \<noteq> hs'"
    and "inj_on (DoubleSha256 sha) (set (merkle_inputs sha hs) \<union> set (merkle_inputs sha hs'))"
  shows "CalcMerkleRoot sha hs \<noteq> CalcMerkleRoot sha hs'"
  using assms
proof (induction "length hs" arbitrary: hs hs' rule: less_induct)
  case less
  show ?case
  proof (cases "1 < length hs")
    case True
    have inputs: "merkle_inputs sha xs = layer_inputs xs @ merkle_inputs sha (layer sha xs)"
      if "1 < length xs" for xs using that by (subst merkle_inputs.simps) simp
    have split: "merkle_inputs sha hs = layer_inputs hs @ merkle_inputs sha (layer sha hs)"
      "merkle_inputs sha hs' = layer_inputs hs' @ merkle_inputs sha (layer sha hs')"
      using inputs True less.prems(1) by simp_all
    have "layer_inputs hs \<noteq> layer_inputs hs'" using layer_inputs_inject less.prems(1,2) by blast
    moreover have "inj_on (DoubleSha256 sha) (set (layer_inputs hs) \<union> set (layer_inputs hs'))"
      using less.prems(3) by (rule inj_on_subset) (auto simp: split)
    ultimately have "layer sha hs \<noteq> layer sha hs'"
      unfolding layer_map using inj_on_map_eq_map by blast
    moreover have "length (layer sha hs) < length hs" using True by simp
    moreover have "inj_on (DoubleSha256 sha)
        (set (merkle_inputs sha (layer sha hs)) \<union> set (merkle_inputs sha (layer sha hs')))"
      using less.prems(3) by (rule inj_on_subset) (auto simp: split)
    ultimately have "CalcMerkleRoot sha (layer sha hs) \<noteq> CalcMerkleRoot sha (layer sha hs')"
      using less.hyps less.prems(1) by simp
    then show ?thesis
      using True less.prems(1) by (simp add: CalcMerkleRoot_simps(3) [of hs] CalcMerkleRoot_simps(3) [of hs'])
  next
    case False
    then consider "hs = []" | h where "hs = [h]" by (cases hs) auto
    then show ?thesis
    proof cases
      case (2 h)
      with less.prems(1) obtain h' where "hs' = [h']" by (cases hs') auto
      with 2 less.prems show ?thesis by (simp add: CalcMerkleRoot_simps)
    qed (use less.prems in auto)
  qed
qed

theorem CalcMerkleRoot_binding_witness:
  "CalcMerkleRoot (\<lambda>b. word_of_nat (be_nat (drop (length b - 32) b))) [1, 2] \<noteq>
   CalcMerkleRoot (\<lambda>b. word_of_nat (be_nat (drop (length b - 32) b))) [1, 3]"
proof (rule CalcMerkleRoot_binding)
  let ?sha = "\<lambda>b :: bytes. word_of_nat (be_nat (drop (length b - 32) b)) :: uint256"
  have "merkle_inputs ?sha [1, x] = [BytesBE 1 @ BytesBE x]" for x
    by (simp add: merkle_inputs.simps layer_inputs_def pair_input_def layer_map)
  moreover have "DoubleSha256 ?sha (BytesBE 1 @ BytesBE x) = x" for x :: uint256
    by (simp add: DoubleSha256_def Sha256_def)
  ultimately show "inj_on (DoubleSha256 ?sha) (set (merkle_inputs ?sha [1, 2]) \<union> set (merkle_inputs ?sha [1, 3]))"
    by (simp add: inj_on_def)
qed simp_all

text \<open>
  The root does not commit to the number of hashes: appending a copy of the last one to an
  odd-length list leaves the root unchanged, so a block check has to rule duplicates out.
\<close>

theorem CalcMerkleRoot_duplicate_last:
  assumes "odd (length hs)" and "1 < length hs"
  shows "CalcMerkleRoot sha (hs @ [last hs]) = CalcMerkleRoot sha hs"
proof -
  have "1 < length (hs @ [last hs])" using assms(2) by (cases hs) auto
  then show ?thesis
    by (simp only: CalcMerkleRoot_simps(3) CalcMerkleRoot_simps(3) [OF assms(2)]
        layer_duplicate_last [OF assms(1)])
qed

theorem CalcMerkleRoot_duplicate_last_witness:
  "CalcMerkleRoot (\<lambda>b. word_of_nat (le_nat b)) [1, 2, 3, 3] =
   CalcMerkleRoot (\<lambda>b. word_of_nat (le_nat b)) [1, 2, 3]"
  using CalcMerkleRoot_duplicate_last [of "[1, 2, 3]" "\<lambda>b. word_of_nat (le_nat b)"] by simp

end
