(* ===== verification/Mpt_Node.thy ===== *)
theory Mpt_Node
  imports Merkle
begin

text \<open>
  The nodes of the Merkle-Patricia trie (\<^verbatim>\<open>pkg/core/mpt\<close>): their types, their binary form, their
  hashes, and the path helpers. A node's cached bytes and hash are memoised values of
  \<^verbatim>\<open>encodeNodeWithType\<close> and \<^verbatim>\<open>DoubleSha256\<close>, invalidated at every mutation, so the model computes
  them. The \<^verbatim>\<open>Collapsed\<close> flag of a hash node belongs to the state-sync billet and is left out.
\<close>

unbundle bit_operations_syntax

section \<open>Limits\<close>

definition MaxStorageKeyLen :: nat where
  "MaxStorageKeyLen = 64"

definition MaxStorageValueLen :: nat where
  "MaxStorageValueLen = 65535"

definition maxPathLength :: nat where
  "maxPathLength = (MaxStorageKeyLen + 4) * 2"

definition MaxKeyLength :: nat where
  "MaxKeyLength = maxPathLength div 2"

definition MaxValueLength :: nat where
  "MaxValueLength = 3 + MaxStorageValueLen + 1"

definition childrenCount :: nat where
  "childrenCount = 17"

definition lastChild :: nat where
  "lastChild = childrenCount - 1"

lemmas mpt_limits = MaxStorageKeyLen_def MaxStorageValueLen_def maxPathLength_def MaxKeyLength_def
  MaxValueLength_def childrenCount_def lastChild_def

section \<open>Nodes\<close>

datatype node =
    EmptyNode
  | LeafNode bytes
  | ExtensionNode bytes node
  | BranchNode "node list"
  | HashNode uint256

definition BranchT :: byte where "BranchT = 0x00"
definition ExtensionT :: byte where "ExtensionT = 0x01"
definition LeafT :: byte where "LeafT = 0x02"
definition HashT :: byte where "HashT = 0x03"
definition EmptyT :: byte where "EmptyT = 0x04"

lemmas node_types = BranchT_def ExtensionT_def LeafT_def HashT_def EmptyT_def

fun Node_Type :: "node \<Rightarrow> byte" where
  "Node_Type EmptyNode = EmptyT"
| "Node_Type (LeafNode v) = LeafT"
| "Node_Type (ExtensionNode k n) = ExtensionT"
| "Node_Type (BranchNode cs) = BranchT"
| "Node_Type (HashNode h) = HashT"

definition isEmpty :: "node \<Rightarrow> bool" where
  "isEmpty n = (case n of EmptyNode \<Rightarrow> True | _ \<Rightarrow> False)"

lemma isEmpty_iff [simp]: "isEmpty n \<longleftrightarrow> n = EmptyNode"
  by (cases n) (auto simp: isEmpty_def)

definition NewBranchNode :: "node list" where
  "NewBranchNode = replicate childrenCount EmptyNode"

section \<open>Binary form and hash\<close>

text \<open>The bytes \<^verbatim>\<open>WriteVarBytes\<close> writes.\<close>

definition var_bytes :: "bytes \<Rightarrow> bytes" where
  "var_bytes b = w_buf (WriteVarBytes b NewBufBinWriter)"

lemma var_bytes_eq: "var_bytes b = PutVarUint (word_of_nat (length b)) @ b"
  by (simp add: var_bytes_def NewBufBinWriter_def)

text \<open>
  \<open>Node_EncodeBinary\<close> gives the bytes a node's \<^verbatim>\<open>EncodeBinary\<close> writes and \<open>encodeBinaryAsChild\<close>
  those of a child in its parent: children are written as hashes, never in full.
\<close>

fun Node_EncodeBinary :: "(bytes \<Rightarrow> uint256) \<Rightarrow> node \<Rightarrow> bytes"
  and encodeBinaryAsChild :: "(bytes \<Rightarrow> uint256) \<Rightarrow> node \<Rightarrow> bytes" where
  "Node_EncodeBinary sha EmptyNode = []"
| "Node_EncodeBinary sha (LeafNode v) = var_bytes v"
| "Node_EncodeBinary sha (ExtensionNode key nxt) = var_bytes key @ encodeBinaryAsChild sha nxt"
| "Node_EncodeBinary sha (BranchNode cs) = concat (map (encodeBinaryAsChild sha) cs)"
| "Node_EncodeBinary sha (HashNode h) = BytesBE h"
| "encodeBinaryAsChild sha EmptyNode = [EmptyT]"
| "encodeBinaryAsChild sha (HashNode h) = HashT # BytesBE h"
| "encodeBinaryAsChild sha (LeafNode v) =
     HashT # BytesBE (DoubleSha256 sha (LeafT # var_bytes v))"
| "encodeBinaryAsChild sha (ExtensionNode key nxt) =
     HashT # BytesBE (DoubleSha256 sha (ExtensionT # var_bytes key @ encodeBinaryAsChild sha nxt))"
| "encodeBinaryAsChild sha (BranchNode cs) =
     HashT # BytesBE (DoubleSha256 sha (BranchT # concat (map (encodeBinaryAsChild sha) cs)))"

text \<open>\<^verbatim>\<open>encodeNodeWithType\<close>, which is also a node's \<^verbatim>\<open>Bytes()\<close>.\<close>

definition encodeNodeWithType :: "(bytes \<Rightarrow> uint256) \<Rightarrow> node \<Rightarrow> bytes" where
  "encodeNodeWithType sha n = Node_Type n # Node_EncodeBinary sha n"

text \<open>
  \<^verbatim>\<open>Hash()\<close>: a hash node's own hash, otherwise the double SHA-256 of the node's bytes. On an
  empty node the code panics; the model's callers have all matched on another node first.
\<close>

definition Node_Hash :: "(bytes \<Rightarrow> uint256) \<Rightarrow> node \<Rightarrow> uint256" where
  "Node_Hash sha n =
     (case n of HashNode h \<Rightarrow> h | EmptyNode \<Rightarrow> 0 | _ \<Rightarrow> DoubleSha256 sha (encodeNodeWithType sha n))"

definition Node_Size :: "node \<Rightarrow> nat" where
  "Node_Size n =
     (case n of
        EmptyNode \<Rightarrow> 0
      | LeafNode v \<Rightarrow> getVarIntSize (int (length v)) + length v
      | ExtensionNode k nxt \<Rightarrow> getVarIntSize (int (length k)) + length k + 1 + Uint256Size
      | BranchNode cs \<Rightarrow> childrenCount + Uint256Size * length (filter (\<lambda>c. \<not> isEmpty c) cs)
      | HashNode h \<Rightarrow> Uint256Size)"

lemma encodeBinaryAsChild_hash:
  "n \<noteq> EmptyNode \<Longrightarrow> encodeBinaryAsChild sha n = HashT # BytesBE (Node_Hash sha n)"
  by (cases n) (simp_all add: Node_Hash_def encodeNodeWithType_def)

lemma encodeBinaryAsChild_eq:
  "encodeBinaryAsChild sha n = (if isEmpty n then [EmptyT] else HashT # BytesBE (Node_Hash sha n))"
  by (cases "n = EmptyNode") (simp_all add: encodeBinaryAsChild_hash)

section \<open>Decoding\<close>

text \<open>
  \<^verbatim>\<open>DecodeNodeWithType\<close>: \<open>None\<close> is a \<^verbatim>\<open>nil\<close> or partly filled node, which the code only produces
  together with a reader error. Every recursive call is made after a byte has been read, so
  the fuel, one more than the unread bytes, never runs out.
\<close>

fun decode_node :: "nat \<Rightarrow> bin_reader \<Rightarrow> node option \<times> bin_reader" where
  "decode_node 0 r = (None, r)"
| "decode_node (Suc fuel) r =
     (if r_err r \<noteq> None then (None, r)
      else
        let (typ, r) = ReadB r in
        if r_err r \<noteq> None then (None, r)
        else if typ = BranchT then
          let (cs, r) = read_elems (decode_node fuel) childrenCount r
          in (if r_err r \<noteq> None \<or> None \<in> set cs then None else Some (BranchNode (map the cs)), r)
        else if typ = ExtensionT then
          let (sz, r) = ReadVarUint r in
          if unat sz > maxPathLength
          then (None, r\<lparr>r_err := Some (ErrFormat ''extension node key is too big'')\<rparr>)
          else
            let (key, r) = ReadBytes (replicate (unat sz) 0) r; (nxt, r) = decode_node fuel r
            in (if r_err r \<noteq> None then None else map_option (ExtensionNode key) nxt, r)
        else if typ = HashT then
          let (h, r) = Uint256_DecodeBinary 0 r
          in (if r_err r \<noteq> None then None else Some (HashNode h), r)
        else if typ = LeafT then
          let (sz, r) = ReadVarUint r in
          if unat sz > MaxValueLength
          then (None, r\<lparr>r_err := Some (ErrFormat ''leaf node value is too big'')\<rparr>)
          else
            let (v, r) = ReadBytes (replicate (unat sz) 0) r
            in (if r_err r \<noteq> None then None else Some (LeafNode v), r)
        else if typ = EmptyT then (Some EmptyNode, r)
        else (None, r\<lparr>r_err := Some (ErrFormat ''invalid node type'')\<rparr>))"

definition DecodeNodeWithType :: "bin_reader \<Rightarrow> node option \<times> bin_reader" where
  "DecodeNodeWithType r = decode_node (Suc (Reader_Len r)) r"

section \<open>Paths\<close>

text \<open>\<^verbatim>\<open>lcp\<close>: the slice of the longer argument up to the first difference.\<close>

fun lcp :: "bytes \<Rightarrow> bytes \<Rightarrow> bytes" where
  "lcp [] b = []"
| "lcp a [] = []"
| "lcp (x # a) (y # b) = (if x = y then x # lcp a b else [])"

definition toNibbles :: "bytes \<Rightarrow> bytes" where
  "toNibbles path = concat (map (\<lambda>b. [drop_bit 4 b, b AND 0x0F]) path)"

text \<open>\<^verbatim>\<open>strToNibbles\<close> drops the storage prefix; on an empty string, which no caller has, it panics.\<close>

fun strToNibbles :: "bytes \<Rightarrow> bytes option" where
  "strToNibbles [] = None"
| "strToNibbles (pref # path) = Some (toNibbles path)"

fun fromNibbles :: "bytes \<Rightarrow> bytes" where
  "fromNibbles (a # b # path) = (push_bit 4 a + b) # fromNibbles path"
| "fromNibbles _ = []"

definition splitPath :: "bytes \<Rightarrow> nat \<times> bytes" where
  "splitPath path = (case path of [] \<Rightarrow> (lastChild, []) | i # rest \<Rightarrow> (unat i, rest))"

section \<open>Facts about paths\<close>

definition nibbles :: "bytes \<Rightarrow> bool" where
  "nibbles path \<longleftrightarrow> (\<forall>b \<in> set path. unat b < 16)"

lemma nibbles_simps [simp]:
  "nibbles []" "nibbles (b # bs) \<longleftrightarrow> unat b < 16 \<and> nibbles bs"
  "nibbles (xs @ ys) \<longleftrightarrow> nibbles xs \<and> nibbles ys"
  by (auto simp: nibbles_def)

lemma nibbles_drop [simp]: "nibbles p \<Longrightarrow> nibbles (drop n p)"
  and nibbles_take [simp]: "nibbles p \<Longrightarrow> nibbles (take n p)"
  by (auto simp: nibbles_def dest: in_set_dropD in_set_takeD)

lemma toNibbles_simps [simp]:
  "toNibbles [] = []" "toNibbles (b # bs) = drop_bit 4 b # (b AND 0x0F) # toNibbles bs"
  by (simp_all add: toNibbles_def)

lemma unat_drop_4: "unat (drop_bit 4 (b :: byte)) = unat b div 16"
  by (simp add: drop_bit_eq_div unat_div)

lemma unat_and_15: "unat ((b :: byte) AND 0x0F) = unat b mod 16"
proof -
  have "b AND 0x0F = take_bit 4 b" by (simp add: take_bit_eq_mask mask_eq_exp_minus_1)
  then show ?thesis by (simp add: take_bit_eq_mod unat_mod)
qed

lemma nibbles_toNibbles [simp]: "nibbles (toNibbles bs)"
proof (induction bs)
  case (Cons b bs)
  have "unat b div 16 < 16"
    using unat_byte_less [of b] by (simp add: div_less_iff_less_mult del: unat_byte_less)
  with Cons show ?case by (simp add: unat_drop_4 unat_and_15)
qed simp

lemma length_toNibbles [simp]: "length (toNibbles bs) = 2 * length bs"
  by (induction bs) simp_all

lemma byte_of_nibbles: "push_bit 4 (drop_bit 4 b) + (b AND 0x0F) = (b :: byte)"
proof -
  have "unat (push_bit 4 (drop_bit 4 b) + (b AND 0x0F)) = (16 * (unat b div 16) + unat b mod 16) mod 256"
    by (simp add: unat_word_ariths push_bit_eq_mult unat_drop_4 unat_and_15 mod_add_left_eq mult.commute)
  also have "\<dots> = unat b" by simp
  finally show ?thesis by (simp add: word_unat_eq_iff)
qed

lemma fromNibbles_toNibbles [simp]: "fromNibbles (toNibbles bs) = bs"
  by (induction bs) (simp_all add: byte_of_nibbles)

lemma toNibbles_inject [simp]: "toNibbles a = toNibbles b \<longleftrightarrow> a = b"
  by (metis fromNibbles_toNibbles)

lemma lcp_comm: "lcp a b = lcp b a"
  by (induction a b rule: lcp.induct) (auto, metis lcp.simps(1) lcp.simps(2) list.exhaust)

lemma lcp_prefixes: "\<exists>a' b'. a = lcp a b @ a' \<and> b = lcp a b @ b' \<and>
    (a' = [] \<or> b' = [] \<or> hd a' \<noteq> hd b')"
  by (induction a b rule: lcp.induct) auto

lemma lcp_take: "take (length (lcp a b)) a = lcp a b" "take (length (lcp a b)) b = lcp a b"
  by (metis append_eq_conv_conj lcp_prefixes)+

lemma nibbles_lcp [simp]: "nibbles a \<Longrightarrow> nibbles (lcp a b)"
  by (metis lcp_take(1) nibbles_take)

section \<open>Facts about decoding\<close>

text \<open>A reader operation that never lengthens the unread input.\<close>

definition shrinks :: "(bin_reader \<Rightarrow> 'a \<times> bin_reader) \<Rightarrow> bool" where
  "shrinks op \<longleftrightarrow> (\<forall>r. length (r_buf (snd (op r))) \<le> length (r_buf r))"

lemma shrinksD: "shrinks op \<Longrightarrow> op r = (x, r') \<Longrightarrow> length (r_buf r') \<le> length (r_buf r)"
  by (metis shrinks_def snd_conv)

lemma shrinks_ReadBytes: "shrinks (ReadBytes buf)"
  by (auto simp: shrinks_def ReadBytes_def Let_def split: option.splits)

lemma shrinks_words: "shrinks ReadB" "shrinks ReadU16LE" "shrinks ReadU32LE" "shrinks ReadU64LE"
  unfolding shrinks_def read_defs
  by (auto simp: Let_def split: prod.splits dest: shrinksD [OF shrinks_ReadBytes])

lemma shrinks_ReadVarUint: "shrinks ReadVarUint"
  unfolding shrinks_def ReadVarUint_def
  by (auto simp: Let_def split: prod.splits dest!: shrinks_words [THEN shrinksD]
      intro: order_trans [OF shrinks_words(4) [unfolded shrinks_def, rule_format]])

lemma shrinks_Uint256: "shrinks (Uint256_DecodeBinary u)"
  by (auto simp: shrinks_def Uint256_DecodeBinary_def split: prod.splits
      dest: shrinksD [OF shrinks_ReadBytes])

lemma shrinks_read_elems: "shrinks dec \<Longrightarrow> shrinks (read_elems dec l)"
proof (induction l)
  case (Suc l)
  then show ?case
    unfolding shrinks_def [of "read_elems dec (Suc l)"]
    by (auto split: prod.splits dest!: shrinksD)
qed (simp add: shrinks_def)

lemma ReadB_consumes:
  "ReadB r = (b, r') \<Longrightarrow> r_err r' = None \<Longrightarrow> length (r_buf r') < length (r_buf r)"
  by (auto simp: ReadB_def ReadBytes_def Let_def split: option.splits if_splits)

lemma shrinks_decode_node: "shrinks (decode_node fuel)"
proof (induction fuel)
  case (Suc fuel)
  note facts = Suc [THEN shrinksD] shrinks_read_elems [OF Suc, THEN shrinksD]
    shrinks_words(1) [THEN shrinksD] shrinks_ReadVarUint [THEN shrinksD]
    shrinks_ReadBytes [THEN shrinksD] shrinks_Uint256 [THEN shrinksD]
  show ?case
    unfolding shrinks_def decode_node.simps Let_def
    by (auto split: prod.splits dest!: facts)
qed (simp add: shrinks_def)

lemma read_elems_cong:
  assumes "\<And>r'. length (r_buf r') \<le> length (r_buf r) \<Longrightarrow> dec r' = dec' r'" and "shrinks dec"
  shows "read_elems dec l r = read_elems dec' l r"
  using assms(1)
proof (induction l arbitrary: r)
  case (Suc l)
  obtain x r1 where step: "dec r = (x, r1)" by fastforce
  then have le: "length (r_buf r1) \<le> length (r_buf r)" by (rule shrinksD [OF assms(2)])
  have "dec' r = (x, r1)" using Suc.prems [of r] step by simp
  moreover have "read_elems dec l r1 = read_elems dec' l r1"
    using le Suc.prems by (intro Suc.IH) (meson order_trans)
  ultimately show ?case using step by simp
qed simp

text \<open>The fuel of \<open>DecodeNodeWithType\<close> is enough: any larger amount gives the same result.\<close>

lemma decode_node_fuel:
  "length (r_buf r) < fuel \<Longrightarrow> length (r_buf r) < fuel' \<Longrightarrow> decode_node fuel r = decode_node fuel' r"
proof (induction fuel arbitrary: r fuel')
  case (Suc f)
  then obtain f' where f': "fuel' = Suc f'" by (cases fuel') auto
  obtain b r1 where rb: "ReadB r = (b, r1)" by fastforce
  show ?case
  proof (cases "r_err r = None \<and> r_err r1 = None")
    case False
    with rb f' show ?thesis by auto
  next
    case True
    then have lt: "length (r_buf r1) < length (r_buf r)" using ReadB_consumes rb by blast
    have same: "decode_node f r' = decode_node f' r'" if "length (r_buf r') \<le> length (r_buf r1)" for r'
      using Suc.IH [of r' f'] Suc.prems lt that f' by simp
    have elems: "read_elems (decode_node f) l r1 = read_elems (decode_node f') l r1" for l
      using same shrinks_decode_node by (rule read_elems_cong)
    obtain sz r2 where rv: "ReadVarUint r1 = (sz, r2)" by fastforce
    obtain key r3 where rk: "ReadBytes (replicate (unat sz) 0) r2 = (key, r3)" by fastforce
    have "length (r_buf r3) \<le> length (r_buf r1)"
      using shrinksD [OF shrinks_ReadVarUint rv] shrinksD [OF shrinks_ReadBytes rk] by simp
    then have "decode_node f r3 = decode_node f' r3" by (rule same)
    with True rb rv rk f' elems show ?thesis by (simp add: Let_def)
  qed
qed simp

section \<open>Round trip\<close>

text \<open>
  What a decoded node looks like: the node with every child replaced by the reference its
  parent holds.
\<close>

definition child_ref :: "(bytes \<Rightarrow> uint256) \<Rightarrow> node \<Rightarrow> node" where
  "child_ref sha n = (if isEmpty n then EmptyNode else HashNode (Node_Hash sha n))"

fun shallow :: "(bytes \<Rightarrow> uint256) \<Rightarrow> node \<Rightarrow> node" where
  "shallow sha (ExtensionNode key nxt) = ExtensionNode key (child_ref sha nxt)"
| "shallow sha (BranchNode cs) = BranchNode (map (child_ref sha) cs)"
| "shallow sha n = n"

text \<open>The size limits the decoder enforces.\<close>

fun fits :: "node \<Rightarrow> bool" where
  "fits (LeafNode v) \<longleftrightarrow> length v \<le> MaxValueLength"
| "fits (ExtensionNode key nxt) \<longleftrightarrow> length key \<le> maxPathLength"
| "fits (BranchNode cs) \<longleftrightarrow> length cs = childrenCount"
| "fits _ \<longleftrightarrow> True"

lemma node_types_neq [simp]:
  "ExtensionT \<noteq> BranchT" "HashT \<noteq> BranchT" "HashT \<noteq> ExtensionT"
  "LeafT \<noteq> BranchT" "LeafT \<noteq> ExtensionT" "LeafT \<noteq> HashT"
  "EmptyT \<noteq> BranchT" "EmptyT \<noteq> ExtensionT" "EmptyT \<noteq> HashT" "EmptyT \<noteq> LeafT"
  by (simp_all add: node_types)

lemma decode_hash_ref [simp]:
  "decode_node (Suc f) (reader_of (HashT # BytesBE h @ rest)) = (Some (HashNode h), reader_of rest)"
  by (simp add: Uint256_DecodeBinary_def)

lemma decode_child [simp]:
  "decode_node (Suc f) (reader_of (encodeBinaryAsChild sha c @ rest)) =
     (Some (child_ref sha c), reader_of rest)"
  by (cases "c = EmptyNode")
     (simp_all add: child_ref_def encodeBinaryAsChild_hash del: decode_node.simps, simp)

lemma read_elems_map:
  assumes "\<And>x rest. dec (reader_of (f x @ rest)) = (g x, reader_of rest)"
  shows "read_elems dec (length xs) (reader_of (concat (map f xs) @ rest)) = (map g xs, reader_of rest)"
  by (induction xs) (simp_all add: assms)

lemma ReadVarBytes_parts:
  assumes "length b < 2 ^ 64"
  shows "ReadVarUint (reader_of (var_bytes b @ rest)) = (word_of_nat (length b), reader_of (b @ rest))"
    and "unat (word_of_nat (length b) :: uint64) = length b"
  using assms by (simp_all add: var_bytes_eq unat_word64_length)

lemma decode_encode_node:
  assumes "fits n"
  shows "decode_node (Suc (Suc f)) (reader_of (encodeNodeWithType sha n @ rest)) =
    (Some (shallow sha n), reader_of rest)"
proof (cases n)
  case (BranchNode cs)
  have "read_elems (decode_node (Suc f)) childrenCount
      (reader_of (concat (map (encodeBinaryAsChild sha) cs) @ rest)) =
    (map (\<lambda>c. Some (child_ref sha c)) cs, reader_of rest)"
    using assms BranchNode read_elems_map [where dec = "decode_node (Suc f)"
      and f = "encodeBinaryAsChild sha" and g = "\<lambda>c. Some (child_ref sha c)" and xs = cs]
    by (simp del: decode_node.simps)
  then show ?thesis
    using BranchNode
    by (subst decode_node.simps) (auto simp: encodeNodeWithType_def o_def simp del: decode_node.simps)
next
  case (ExtensionNode key nxt)
  then have len: "length key \<le> maxPathLength" "length key < 2 ^ 64"
    using assms by (simp_all add: mpt_limits)
  show ?thesis
    using ExtensionNode len ReadVarBytes_parts [OF len(2)]
    by (subst decode_node.simps) (simp add: encodeNodeWithType_def del: decode_node.simps)
next
  case (LeafNode v)
  then have len: "length v \<le> MaxValueLength" "length v < 2 ^ 64"
    using assms by (simp_all add: mpt_limits)
  show ?thesis
    using LeafNode len ReadVarBytes_parts [OF len(2)]
    by (subst decode_node.simps) (simp add: encodeNodeWithType_def del: decode_node.simps)
next
  case (HashNode h)
  then show ?thesis using decode_hash_ref by (simp add: encodeNodeWithType_def del: decode_node.simps)
qed (simp add: encodeNodeWithType_def)

text \<open>
  C10. Decoding the bytes of any node within the size limits gives the node back with its
  children as hash references, and leaves whatever follows it unread.
\<close>

theorem node_roundtrip:
  assumes "fits n"
  shows "DecodeNodeWithType (NewBinReaderFromBuf (encodeNodeWithType sha n @ rest)) =
    (Some (shallow sha n), NewBinReaderFromBuf rest)"
proof -
  let ?r = "reader_of (encodeNodeWithType sha n @ rest)"
  have "decode_node (Suc (Reader_Len ?r)) ?r = decode_node (Suc (Suc (Reader_Len ?r))) ?r"
    by (rule decode_node_fuel) (simp_all add: Reader_Len_def)
  also have "\<dots> = (Some (shallow sha n), reader_of rest)" using assms by (rule decode_encode_node)
  finally show ?thesis by (simp add: DecodeNodeWithType_def NewBinReaderFromBuf_def)
qed

theorem node_roundtrip_witness:
  "DecodeNodeWithType (NewBinReaderFromBuf (encodeNodeWithType (\<lambda>_. 5)
     (ExtensionNode [1, 2] (LeafNode [7])) @ [1, 0])) =
   (Some (ExtensionNode [1, 2] (HashNode 5)), NewBinReaderFromBuf [1, 0])"
proof -
  have "fits (ExtensionNode [1, 2] (LeafNode [7]))" by (simp add: mpt_limits)
  from node_roundtrip [OF this, of "\<lambda>_. 5" "[1, 0]"] show ?thesis
    by (simp add: child_ref_def Node_Hash_def DoubleSha256_def Sha256_def)
qed

end
