(* ===== verification/Mpt_Trie.thy ===== *)
theory Mpt_Trie
  imports Mpt_Node
begin

text \<open>
  The trie of \<^verbatim>\<open>pkg/core/mpt/trie.go\<close>: lookup, insertion and deletion with on-demand resolution
  of hash nodes from the store, reference counting of nodes, flushing and collapsing.

  The state is a record of the store (the contents of the \<^verbatim>\<open>MemCachedStore\<close>, whose contract
  the storage theory proves), the root, the mode and the reference-count map. An operation on
  a node returns the new state together with an error or the resulting node. Each recursive
  step, the resolution of a hash node included, takes one unit of fuel, since nothing in the
  code bounds a chain of stored hash nodes; \<open>OutOfFuel\<close> is the value of a run that has not
  finished. Storage errors leave the Go objects partly updated; the model then returns the error
  and the counters, and no node.
\<close>

unbundle bit_operations_syntax

section \<open>State\<close>

datatype mpt_err =
    ErrNotFound
  | ErrKeyNotFound
  | ErrDecode io_error
  | ErrKeyEmpty
  | ErrKeyTooBig
  | ErrValueTooBig
  | ErrValueNil
  | Panic
  | OutOfFuel

definition ModeAll :: byte where "ModeAll = 0"
definition ModeLatest :: byte where "ModeLatest = 0x01"
definition ModeGCFlag :: byte where "ModeGCFlag = 0x02"
definition ModeGC :: byte where "ModeGC = 0x03"

definition RC :: "byte \<Rightarrow> bool" where
  "RC m \<longleftrightarrow> m AND ModeLatest \<noteq> 0"

definition GC :: "byte \<Rightarrow> bool" where
  "GC m \<longleftrightarrow> m AND ModeGCFlag \<noteq> 0"

record cachedNode =
  cn_bytes :: "bytes option"
  cn_initial :: "32 word"
  cn_refcount :: "32 word"

record trie =
  tr_store :: "bytes \<rightharpoonup> bytes"
  tr_root :: node
  tr_mode :: byte
  tr_refcount :: "(uint256, cachedNode) gomap"

definition NewTrie :: "node \<Rightarrow> byte \<Rightarrow> (bytes \<rightharpoonup> bytes) \<Rightarrow> trie" where
  "NewTrie rt m store = \<lparr>tr_store = store, tr_root = rt, tr_mode = m, tr_refcount = []\<rparr>"

section \<open>Reference counters\<close>

definition addRef :: "uint256 \<Rightarrow> bytes \<Rightarrow> trie \<Rightarrow> trie" where
  "addRef h bs t =
     (case map_of (tr_refcount t) h of
        None \<Rightarrow>
          t\<lparr>tr_refcount := AList.update h \<lparr>cn_bytes = Some bs, cn_initial = 0, cn_refcount = 1\<rparr> (tr_refcount t)\<rparr>
      | Some nd \<Rightarrow>
          (let nd = nd\<lparr>cn_refcount := cn_refcount nd + 1\<rparr>;
               nd = (if cn_bytes nd = None then nd\<lparr>cn_bytes := Some bs\<rparr> else nd)
           in t\<lparr>tr_refcount := AList.update h nd (tr_refcount t)\<rparr>))"

definition removeRef :: "uint256 \<Rightarrow> bytes \<Rightarrow> trie \<Rightarrow> trie" where
  "removeRef h bs t =
     (case map_of (tr_refcount t) h of
        None \<Rightarrow>
          t\<lparr>tr_refcount := AList.update h \<lparr>cn_bytes = Some bs, cn_initial = 0, cn_refcount = - 1\<rparr> (tr_refcount t)\<rparr>
      | Some nd \<Rightarrow>
          (let nd = nd\<lparr>cn_refcount := cn_refcount nd - 1\<rparr>;
               nd = (if cn_bytes nd = None then nd\<lparr>cn_bytes := Some bs\<rparr> else nd)
           in t\<lparr>tr_refcount := AList.update h nd (tr_refcount t)\<rparr>))"

text \<open>The calls \<^verbatim>\<open>t.addRef(n.Hash(), n.bytes)\<close> and \<^verbatim>\<open>t.removeRef(n.Hash(), n.bytes)\<close>.\<close>

definition addNode :: "(bytes \<Rightarrow> uint256) \<Rightarrow> node \<Rightarrow> trie \<Rightarrow> trie" where
  "addNode sha n t = addRef (Node_Hash sha n) (encodeNodeWithType sha n) t"

definition removeNode :: "(bytes \<Rightarrow> uint256) \<Rightarrow> node \<Rightarrow> trie \<Rightarrow> trie" where
  "removeNode sha n t = removeRef (Node_Hash sha n) (encodeNodeWithType sha n) t"

section \<open>Reading nodes from the store\<close>

definition DataMPT :: byte where
  "DataMPT = 0x03"

definition makeStorageKey :: "uint256 \<Rightarrow> bytes" where
  "makeStorageKey h = DataMPT # BytesBE h"

definition IsActiveValue :: "bytes \<Rightarrow> bool" where
  "IsActiveValue v \<longleftrightarrow> length v > 4 \<and> v ! (length v - 5) = 1"

definition getFromStore :: "bytes \<Rightarrow> byte \<Rightarrow> (bytes \<rightharpoonup> bytes) \<Rightarrow> mpt_err + bytes" where
  "getFromStore key m store =
     (case store key of
        None \<Rightarrow> Inl ErrKeyNotFound
      | Some data \<Rightarrow> if GC m \<and> \<not> IsActiveValue data then Inl ErrKeyNotFound else Inr data)"

text \<open>
  \<^verbatim>\<open>(t *Trie).getFromStore\<close>: decodes the stored bytes; with reference counting the five trailing
  bytes are the activity flag and the counter, which refresh an existing cache entry.
\<close>

definition Trie_getFromStore :: "uint256 \<Rightarrow> trie \<Rightarrow> (mpt_err + node) \<times> trie" where
  "Trie_getFromStore h t =
     (case getFromStore (makeStorageKey h) (tr_mode t) (tr_store t) of
        Inl e \<Rightarrow> (Inl e, t)
      | Inr data \<Rightarrow>
          (let (no, r) = DecodeNodeWithType (NewBinReaderFromBuf data) in
           case r_err r of
             Some e \<Rightarrow> (Inl (ErrDecode e), t)
           | None \<Rightarrow>
               (case no of
                  None \<Rightarrow> (Inl Panic, t)
                | Some n \<Rightarrow>
                    if RC (tr_mode t) \<and> length data < 5 then (Inl Panic, t)
                    else
                      let t =
                        (if RC (tr_mode t) then
                           (case map_of (tr_refcount t) h of
                              None \<Rightarrow> t
                            | Some nd \<Rightarrow>
                                let (flag, r) = ReadB r; (cnt, r) = ReadU32LE r;
                                    nd = nd\<lparr>cn_bytes := Some (take (length data - 5) data), cn_initial := cnt\<rparr>
                                in t\<lparr>tr_refcount := AList.update h nd (tr_refcount t)\<rparr>)
                         else t)
                      in if isEmpty n then (Inl Panic, t) else (Inr n, t))))"

section \<open>Lookup\<close>

text \<open>Reading and writing \<^verbatim>\<open>Children[i]\<close>, which panics out of range.\<close>

definition get_child :: "node list \<Rightarrow> nat \<Rightarrow> mpt_err + node" where
  "get_child cs i = (if i < length cs then Inr (cs ! i) else Inl Panic)"

text \<open>
  \<^verbatim>\<open>getWithPath\<close> returns the node with the hash nodes along the path resolved, the node found, and
  the full path to it.
\<close>

fun getWithPath ::
  "nat \<Rightarrow> node \<Rightarrow> bytes \<Rightarrow> bool \<Rightarrow> trie \<Rightarrow> (mpt_err + node \<times> node \<times> bytes) \<times> trie" where
  "getWithPath 0 cur path strict t = (Inl OutOfFuel, t)"
| "getWithPath (Suc fuel) cur path strict t =
     (case cur of
        LeafNode v \<Rightarrow>
          if path = [] then (Inr (cur, cur, []), t) else (Inl ErrNotFound, t)
      | BranchNode cs \<Rightarrow>
          (let (i, rest) = splitPath path in
           if i = lastChild \<and> \<not> strict then (Inr (cur, cur, []), t)
           else
             case get_child cs i of
               Inl e \<Rightarrow> (Inl e, t)
             | Inr c \<Rightarrow>
                 (case getWithPath fuel c rest strict t of
                    (Inl e, t) \<Rightarrow> (Inl e, t)
                  | (Inr (r, res, pfx), t) \<Rightarrow>
                      (Inr (BranchNode (cs[i := r]), res, word_of_nat i # pfx), t)))
      | EmptyNode \<Rightarrow> (Inl ErrNotFound, t)
      | HashNode h \<Rightarrow>
          (case Trie_getFromStore h t of
             (Inr r, t) \<Rightarrow> getWithPath fuel r path strict t
           | (Inl Panic, t) \<Rightarrow> (Inl Panic, t)
           | (Inl e, t) \<Rightarrow> (Inl ErrNotFound, t))
      | ExtensionNode key nxt \<Rightarrow>
          if path = [] \<and> \<not> strict then (Inr (cur, nxt, key), t)
          else if has_prefix path key then
            (case getWithPath fuel nxt (drop (length key) path) strict t of
               (Inl e, t) \<Rightarrow> (Inl e, t)
             | (Inr (r, res, pfx), t) \<Rightarrow> (Inr (ExtensionNode key r, res, key @ pfx), t))
          else if \<not> strict \<and> has_prefix key path then (Inr (cur, nxt, key), t)
          else (Inl ErrNotFound, t))"

definition Trie_Get :: "nat \<Rightarrow> bytes \<Rightarrow> trie \<Rightarrow> (mpt_err + bytes) \<times> trie" where
  "Trie_Get fuel key t =
     (if length key > MaxKeyLength then (Inl ErrKeyTooBig, t)
      else
        case getWithPath fuel (tr_root t) (toNibbles key) True t of
          (Inl e, t) \<Rightarrow> (Inl e, t)
        | (Inr (r, leaf, pfx), t) \<Rightarrow>
            (case leaf of
               LeafNode v \<Rightarrow> (Inr v, t\<lparr>tr_root := r\<rparr>)
             | _ \<Rightarrow> (Inl Panic, t\<lparr>tr_root := r\<rparr>)))"

section \<open>Insertion\<close>

definition newSubTrie :: "(bytes \<Rightarrow> uint256) \<Rightarrow> bytes \<Rightarrow> node \<Rightarrow> bool \<Rightarrow> trie \<Rightarrow> node \<times> trie" where
  "newSubTrie sha path val newVal t =
     (let t = (if newVal then addNode sha val t else t) in
      if path = [] then (val, t)
      else let e = ExtensionNode path val in (e, addNode sha e t))"

definition putIntoLeaf ::
  "(bytes \<Rightarrow> uint256) \<Rightarrow> node \<Rightarrow> bytes \<Rightarrow> node \<Rightarrow> trie \<Rightarrow> (mpt_err + node) \<times> trie" where
  "putIntoLeaf sha cur path val t =
     (case path of
        [] \<Rightarrow> (Inr val, addNode sha val (removeNode sha cur t))
      | i # rest \<Rightarrow>
          if unat i < childrenCount then
            let (s, t) = newSubTrie sha rest val True t;
                b = BranchNode (NewBranchNode[unat i := s, lastChild := cur])
            in (Inr b, addNode sha b t)
          else (Inl Panic, t))"

definition putIntoBranch ::
  "(bytes \<Rightarrow> uint256) \<Rightarrow> (node \<Rightarrow> bytes \<Rightarrow> node \<Rightarrow> trie \<Rightarrow> (mpt_err + node) \<times> trie) \<Rightarrow>
   node list \<Rightarrow> bytes \<Rightarrow> node \<Rightarrow> trie \<Rightarrow> (mpt_err + node) \<times> trie" where
  "putIntoBranch sha putIntoNode cs path val t =
     (let (i, path) = splitPath path;
          t = removeNode sha (BranchNode cs) t
      in case get_child cs i of
           Inl e \<Rightarrow> (Inl e, t)
         | Inr c \<Rightarrow>
             (case putIntoNode c path val t of
                (Inl e, t) \<Rightarrow> (Inl e, t)
              | (Inr r, t) \<Rightarrow>
                  let b = BranchNode (cs[i := r]) in (Inr b, addNode sha b t)))"

definition putIntoExtension ::
  "(bytes \<Rightarrow> uint256) \<Rightarrow> (node \<Rightarrow> bytes \<Rightarrow> node \<Rightarrow> trie \<Rightarrow> (mpt_err + node) \<times> trie) \<Rightarrow>
   bytes \<Rightarrow> node \<Rightarrow> bytes \<Rightarrow> node \<Rightarrow> trie \<Rightarrow> (mpt_err + node) \<times> trie" where
  "putIntoExtension sha putIntoNode key nxt path val t =
     (let t = removeNode sha (ExtensionNode key nxt) t in
      if has_prefix path key then
        case putIntoNode nxt (drop (length key) path) val t of
          (Inl e, t) \<Rightarrow> (Inl e, t)
        | (Inr r, t) \<Rightarrow> let e = ExtensionNode key r in (Inr e, addNode sha e t)
      else
        let pref = lcp key path;
            lp = length pref;
            keyTail = drop lp key;
            pathTail = drop lp path;
            (s1, t) = newSubTrie sha (tl keyTail) nxt False t;
            (i, pathTail) = splitPath pathTail
        in if unat (hd keyTail) < childrenCount \<and> i < childrenCount then
             let (s2, t) = newSubTrie sha pathTail val True t;
                 b = BranchNode (NewBranchNode[unat (hd keyTail) := s1, i := s2]);
                 t = addNode sha b t
             in if lp > 0 then let e = ExtensionNode pref b in (Inr e, addNode sha e t)
                else (Inr b, t)
           else (Inl Panic, t))"

definition putIntoEmpty ::
  "(bytes \<Rightarrow> uint256) \<Rightarrow> bytes \<Rightarrow> node \<Rightarrow> trie \<Rightarrow> (mpt_err + node) \<times> trie" where
  "putIntoEmpty sha path val t = (let (s, t) = newSubTrie sha path val True t in (Inr s, t))"

definition putIntoHash ::
  "(node \<Rightarrow> bytes \<Rightarrow> node \<Rightarrow> trie \<Rightarrow> (mpt_err + node) \<times> trie) \<Rightarrow>
   uint256 \<Rightarrow> bytes \<Rightarrow> node \<Rightarrow> trie \<Rightarrow> (mpt_err + node) \<times> trie" where
  "putIntoHash putIntoNode h path val t =
     (case Trie_getFromStore h t of
        (Inl e, t) \<Rightarrow> (Inl e, t)
      | (Inr result, t) \<Rightarrow> putIntoNode result path val t)"

fun putIntoNode ::
  "(bytes \<Rightarrow> uint256) \<Rightarrow> nat \<Rightarrow> node \<Rightarrow> bytes \<Rightarrow> node \<Rightarrow> trie \<Rightarrow> (mpt_err + node) \<times> trie" where
  "putIntoNode sha 0 cur path val t = (Inl OutOfFuel, t)"
| "putIntoNode sha (Suc fuel) cur path val t =
     (case cur of
        LeafNode v \<Rightarrow> putIntoLeaf sha cur path val t
      | BranchNode cs \<Rightarrow> putIntoBranch sha (putIntoNode sha fuel) cs path val t
      | ExtensionNode key nxt \<Rightarrow> putIntoExtension sha (putIntoNode sha fuel) key nxt path val t
      | HashNode h \<Rightarrow> putIntoHash (putIntoNode sha fuel) h path val t
      | EmptyNode \<Rightarrow> putIntoEmpty sha path val t)"

text \<open>The value is \<open>None\<close> for a \<^verbatim>\<open>nil\<close> slice, which is refused after the length checks.\<close>

definition Trie_Put ::
  "(bytes \<Rightarrow> uint256) \<Rightarrow> nat \<Rightarrow> bytes \<Rightarrow> bytes option \<Rightarrow> trie \<Rightarrow> (mpt_err + unit) \<times> trie" where
  "Trie_Put sha fuel key value t =
     (if length key = 0 then (Inl ErrKeyEmpty, t)
      else if length key > MaxKeyLength then (Inl ErrKeyTooBig, t)
      else if length (case value of None \<Rightarrow> [] | Some v \<Rightarrow> v) > MaxValueLength then (Inl ErrValueTooBig, t)
      else
        case value of
          None \<Rightarrow> (Inl ErrValueNil, t)
        | Some v \<Rightarrow>
            (case putIntoNode sha fuel (tr_root t) (toNibbles key) (LeafNode v) t of
               (Inl e, t) \<Rightarrow> (Inl e, t)
             | (Inr r, t) \<Rightarrow> (Inr (), t\<lparr>tr_root := r\<rparr>)))"

section \<open>Deletion\<close>

text \<open>The loop over the children: how many are not empty, and the index of the last of them.\<close>

definition count_children :: "node list \<Rightarrow> nat \<times> nat" where
  "count_children cs =
     foldl (\<lambda>(count, index) i. if isEmpty (cs ! i) then (count, index) else (count + 1, i))
       (0, 0) [0..<length cs]"

definition deleteFromBranch ::
  "(bytes \<Rightarrow> uint256) \<Rightarrow> (node \<Rightarrow> bytes \<Rightarrow> trie \<Rightarrow> (mpt_err + node) \<times> trie) \<Rightarrow>
   node list \<Rightarrow> bytes \<Rightarrow> trie \<Rightarrow> (mpt_err + node) \<times> trie" where
  "deleteFromBranch sha deleteFromNode cs path t =
     (let (i, path) = splitPath path in
      case get_child cs i of
        Inl e \<Rightarrow> (Inl e, t)
      | Inr ci \<Rightarrow>
      (case deleteFromNode ci path t of
         (Inl e, t) \<Rightarrow> (Inl e, t)
       | (Inr r, t) \<Rightarrow>
           let t = removeNode sha (BranchNode cs) t;
               cs = cs[i := r];
               (count, index) = count_children cs
           in if count > 1 then (Inr (BranchNode cs), addNode sha (BranchNode cs) t)
              else
                let c = cs ! index in
                if index = lastChild then (Inr c, t)
                else
                  case (case c of HashNode h \<Rightarrow> Trie_getFromStore h t | _ \<Rightarrow> (Inr c, t)) of
                    (Inl e, t) \<Rightarrow> (Inl e, t)
                  | (Inr c, t) \<Rightarrow>
                      (case c of
                         ExtensionNode key nxt \<Rightarrow>
                           let t = removeNode sha c t;
                               e = ExtensionNode (word_of_nat index # key) nxt
                           in (Inr e, addNode sha e t)
                       | _ \<Rightarrow>
                           let e = ExtensionNode [word_of_nat index] c in (Inr e, addNode sha e t))))"

definition deleteFromExtension ::
  "(bytes \<Rightarrow> uint256) \<Rightarrow> (node \<Rightarrow> bytes \<Rightarrow> trie \<Rightarrow> (mpt_err + node) \<times> trie) \<Rightarrow>
   bytes \<Rightarrow> node \<Rightarrow> bytes \<Rightarrow> trie \<Rightarrow> (mpt_err + node) \<times> trie" where
  "deleteFromExtension sha deleteFromNode key nxt path t =
     (if \<not> has_prefix path key then (Inr (ExtensionNode key nxt), t)
      else
        case deleteFromNode nxt (drop (length key) path) t of
          (Inl e, t) \<Rightarrow> (Inl e, t)
        | (Inr r, t) \<Rightarrow>
            let t = removeNode sha (ExtensionNode key nxt) t in
            (case r of
               ExtensionNode key2 nxt2 \<Rightarrow>
                 let t = removeNode sha r t; e = ExtensionNode (key @ key2) nxt2
                 in (Inr e, addNode sha e t)
             | EmptyNode \<Rightarrow> (Inr EmptyNode, t)
             | _ \<Rightarrow> let e = ExtensionNode key r in (Inr e, addNode sha e t)))"

fun deleteFromNode ::
  "(bytes \<Rightarrow> uint256) \<Rightarrow> nat \<Rightarrow> node \<Rightarrow> bytes \<Rightarrow> trie \<Rightarrow> (mpt_err + node) \<times> trie" where
  "deleteFromNode sha 0 cur path t = (Inl OutOfFuel, t)"
| "deleteFromNode sha (Suc fuel) cur path t =
     (case cur of
        LeafNode v \<Rightarrow> if path = [] then (Inr EmptyNode, removeNode sha cur t) else (Inr cur, t)
      | BranchNode cs \<Rightarrow> deleteFromBranch sha (deleteFromNode sha fuel) cs path t
      | ExtensionNode key nxt \<Rightarrow> deleteFromExtension sha (deleteFromNode sha fuel) key nxt path t
      | EmptyNode \<Rightarrow> (Inr EmptyNode, t)
      | HashNode h \<Rightarrow>
          (case Trie_getFromStore h t of
             (Inl e, t) \<Rightarrow> (Inl e, t)
           | (Inr n, t) \<Rightarrow> deleteFromNode sha fuel n path t))"

definition Trie_Delete ::
  "(bytes \<Rightarrow> uint256) \<Rightarrow> nat \<Rightarrow> bytes \<Rightarrow> trie \<Rightarrow> (mpt_err + unit) \<times> trie" where
  "Trie_Delete sha fuel key t =
     (if length key > MaxKeyLength then (Inl ErrKeyTooBig, t)
      else
        case deleteFromNode sha fuel (tr_root t) (toNibbles key) t of
          (Inl e, t) \<Rightarrow> (Inl e, t)
        | (Inr r, t) \<Rightarrow> (Inr (), t\<lparr>tr_root := r\<rparr>))"

section \<open>Root hash, flushing, collapsing\<close>

definition StateRoot :: "(bytes \<Rightarrow> uint256) \<Rightarrow> trie \<Rightarrow> uint256" where
  "StateRoot sha t = (if isEmpty (tr_root t) then 0 else Node_Hash sha (tr_root t))"

text \<open>
  \<^verbatim>\<open>updateRefCount\<close> for the cache entry \<open>nd\<close> of \<open>h\<close>: the new count and the new store, or the panic
  on a counter below zero or on stored data too short to hold one.
\<close>

definition updateRefCount ::
  "cachedNode \<Rightarrow> bytes \<Rightarrow> uint32 \<Rightarrow> byte \<Rightarrow> (bytes \<rightharpoonup> bytes) \<Rightarrow> mpt_err + 32 word \<times> (bytes \<rightharpoonup> bytes)" where
  "updateRefCount nd key index m store =
     (if \<not> RC m then Inl Panic
      else
        let stored = (if cn_initial nd = 0
                      then (case getFromStore key m store of Inl e \<Rightarrow> None | Inr d \<Rightarrow> Some d) else None)
        in if (case stored of None \<Rightarrow> False | Some d \<Rightarrow> length d < 4) then Inl Panic
           else
             let cnt = (case stored of None \<Rightarrow> cn_initial nd | Some d \<Rightarrow> get_le (drop (length d - 4) d));
                 data = (case stored of None \<Rightarrow> [] | Some d \<Rightarrow> d);
                 data = (if length data = 0
                         then (case cn_bytes nd of None \<Rightarrow> [] | Some b \<Rightarrow> b) @ [1, 0, 0, 0, 0] else data);
                 cnt = cnt + cn_refcount nd
             in if sint cnt < 0 then Inl Panic
                else if cnt = 0 then
                  (if \<not> GC m then Inr (cnt, store(key := None))
                   else if length data < 5 then Inl Panic
                   else
                     let data = data[length data - 5 := 0];
                         data = take (length data - 4) data @ put_le 4 index
                     in Inr (cnt, store(key \<mapsto> data)))
                else Inr (cnt, store(key \<mapsto> take (length data - 4) data @ put_le 4 cnt)))"

definition flush_entry ::
  "uint32 \<Rightarrow> uint256 \<times> cachedNode \<Rightarrow> mpt_err + trie \<Rightarrow> mpt_err + trie" where
  "flush_entry index e rt =
     (case rt of
        Inl err \<Rightarrow> Inl err
      | Inr t \<Rightarrow>
          (case e of (h, nd) \<Rightarrow>
            if cn_refcount nd \<noteq> 0 then
              let key = makeStorageKey h in
              if cn_bytes nd = None then Inl Panic
              else if RC (tr_mode t) then
                (case updateRefCount nd key index (tr_mode t) (tr_store t) of
                   Inl err \<Rightarrow> Inl err
                 | Inr (cnt, store) \<Rightarrow>
                     let nd = nd\<lparr>cn_initial := cnt, cn_refcount := 0\<rparr> in
                     Inr (t\<lparr>tr_store := store,
                       tr_refcount := (if cnt = 0 then AList.delete h (tr_refcount t)
                                       else AList.update h nd (tr_refcount t))\<rparr>))
              else
                Inr (t\<lparr>tr_store := (if 0 <s cn_refcount nd then (tr_store t)(key := cn_bytes nd) else tr_store t),
                       tr_refcount := AList.update h (nd\<lparr>cn_refcount := 0\<rparr>) (tr_refcount t)\<rparr>)
            else Inr (t\<lparr>tr_refcount := AList.delete h (tr_refcount t)\<rparr>)))"

definition Trie_Flush :: "uint32 \<Rightarrow> trie \<Rightarrow> mpt_err + trie" where
  "Trie_Flush index t = fold (flush_entry index) (tr_refcount t) (Inr t)"

fun collapse :: "(bytes \<Rightarrow> uint256) \<Rightarrow> nat \<Rightarrow> node \<Rightarrow> node" where
  "collapse sha depth (HashNode h) = HashNode h"
| "collapse sha depth EmptyNode = EmptyNode"
| "collapse sha 0 n = HashNode (Node_Hash sha n)"
| "collapse sha (Suc d) (BranchNode cs) = BranchNode (map (collapse sha d) cs)"
| "collapse sha (Suc d) (ExtensionNode key nxt) = ExtensionNode key (collapse sha d nxt)"
| "collapse sha (Suc d) (LeafNode v) = LeafNode v"

text \<open>\<^verbatim>\<open>Collapse\<close> panics on a negative depth.\<close>

definition Trie_Collapse :: "(bytes \<Rightarrow> uint256) \<Rightarrow> int \<Rightarrow> trie \<Rightarrow> mpt_err + trie" where
  "Trie_Collapse sha depth t =
     (if depth < 0 then Inl Panic
      else Inr (t\<lparr>tr_root := collapse sha (nat depth) (tr_root t), tr_refcount := []\<rparr>))"

end
