(* ===== verification/Mpt_Spec.thy ===== *)
theory Mpt_Spec
  imports Mpt_Trie "HOL-Library.Multiset"
begin

text \<open>
  The abstract side of the trie: the map a fully expanded node stands for, the structural
  invariants the package documentation lists, and the theorem that makes the state root
  meaningful, namely that the invariants leave exactly one node for every map.
\<close>

section \<open>The map of a node\<close>

lemma size_nth [termination_simp]: "i < length cs \<Longrightarrow> size (cs ! i) < Suc (size_list size cs)"
  by (induction cs arbitrary: i) (auto simp: nth_Cons split: nat.splits, force)

fun lookup :: "node \<Rightarrow> bytes \<Rightarrow> bytes option" where
  "lookup EmptyNode path = None"
| "lookup (LeafNode v) path = (if path = [] then Some v else None)"
| "lookup (ExtensionNode key nxt) path =
     (if has_prefix path key then lookup nxt (drop (length key) path) else None)"
| "lookup (BranchNode cs) path =
     (let i = fst (splitPath path) in
      if i < length cs \<and> (path \<noteq> [] \<longrightarrow> i < lastChild) then lookup (cs ! i) (snd (splitPath path)) else None)"
| "lookup (HashNode h) path = None"

section \<open>Well-formed nodes\<close>

text \<open>
  The documented invariants: a branch has at least two children, an extension has a non-empty
  key and no extension below it. The implementation relies on two more: keys are nibbles, and
  the last child of a branch, the value at the branch itself, is a leaf.
\<close>

fun wf_node :: "node \<Rightarrow> bool" where
  "wf_node EmptyNode \<longleftrightarrow> True"
| "wf_node (LeafNode v) \<longleftrightarrow> True"
| "wf_node (ExtensionNode key nxt) \<longleftrightarrow>
     key \<noteq> [] \<and> nibbles key \<and> wf_node nxt \<and>
     (case nxt of LeafNode v \<Rightarrow> True | BranchNode cs \<Rightarrow> True | _ \<Rightarrow> False)"
| "wf_node (BranchNode cs) \<longleftrightarrow>
     length cs = childrenCount \<and> (\<forall>c \<in> set cs. wf_node c) \<and>
     2 \<le> length (filter (\<lambda>c. c \<noteq> EmptyNode) cs) \<and>
     (case cs ! lastChild of EmptyNode \<Rightarrow> True | LeafNode v \<Rightarrow> True | _ \<Rightarrow> False)"
| "wf_node (HashNode h) \<longleftrightarrow> False"

lemma lookup_branch_Nil: "length cs = childrenCount \<Longrightarrow> lookup (BranchNode cs) [] = lookup (cs ! lastChild) []"
  by (simp add: splitPath_def mpt_limits)

lemma lookup_branch_Cons:
  "length cs = childrenCount \<Longrightarrow>
   lookup (BranchNode cs) (i # path) = (if unat i < lastChild then lookup (cs ! unat i) path else None)"
  by (simp add: splitPath_def mpt_limits)

lemma lookup_extension_append: "lookup (ExtensionNode key nxt) (key @ path) = lookup nxt path"
  by simp

lemma lookup_extension_Some:
  "lookup (ExtensionNode key nxt) path = Some v \<longleftrightarrow> (\<exists>rest. path = key @ rest \<and> lookup nxt rest = Some v)"
  by (auto simp: has_prefix_iff)

declare lookup.simps(4) [simp del]

text \<open>A branch has two distinct positions with a child.\<close>

lemma two_children:
  assumes "2 \<le> length (filter P cs)"
  obtains i j where "i < j" "j < length cs" "P (cs ! i)" "P (cs ! j)"
proof -
  have "2 \<le> card {i. i < length cs \<and> P (cs ! i)}"
    using assms by (simp add: length_filter_conv_card)
  then obtain A where "A \<subseteq> {i. i < length cs \<and> P (cs ! i)}" "card A = 2"
    by (metis (no_types, lifting) obtain_subset_with_card_n)
  then obtain i j where "i \<noteq> j" "{i, j} \<subseteq> {i. i < length cs \<and> P (cs ! i)}"
    by (auto simp: card_2_iff)
  then show ?thesis using that [of i j] that [of j i] by (metis (no_types, lifting) insert_subset
      linorder_neqE_nat mem_Collect_eq)
qed

lemma two_children_conv:
  assumes "i < length cs" "j < length cs" "i \<noteq> j" "P (cs ! i)" "P (cs ! j)"
  shows "2 \<le> length (filter P cs)"
proof -
  have "card {i, j} \<le> card {i. i < length cs \<and> P (cs ! i)}"
    using assms by (intro card_mono) auto
  then show ?thesis using assms(3) by (simp add: length_filter_conv_card)
qed

text \<open>Every well-formed node but the empty one has a key.\<close>

lemma wf_node_key:
  assumes "wf_node n" and "n \<noteq> EmptyNode"
  shows "\<exists>path v. lookup n path = Some v"
  using assms
proof (induction n rule: wf_node.induct)
  case (3 key nxt)
  then have "wf_node nxt" "nxt \<noteq> EmptyNode" by auto
  with 3 obtain path v where "lookup nxt path = Some v" by auto
  then show ?case using lookup_extension_append by metis
next
  case (4 cs)
  then have len: "length cs = childrenCount" by simp
  from 4 obtain i j where ij: "i < j" "j < length cs" "cs ! i \<noteq> EmptyNode"
    using two_children [of "\<lambda>c. c \<noteq> EmptyNode" cs] by (metis wf_node.simps(4))
  then have "cs ! i \<in> set cs" by simp
  with 4 ij obtain path v where found: "lookup (cs ! i) path = Some v"
    by (meson wf_node.simps(4))
  have small: "i < lastChild" using ij len by (simp add: mpt_limits)
  then have "unat (word_of_nat i :: byte) = i" by (simp add: unat_of_nat mpt_limits)
  with found small len have "lookup (BranchNode cs) (word_of_nat i # path) = Some v"
    by (simp add: lookup_branch_Cons)
  then show ?case by blast
qed auto

lemma wf_branch_child_key:
  assumes "wf_node (BranchNode cs)" and "j < length cs" and "cs ! j \<noteq> EmptyNode"
  shows "\<exists>path v. lookup (BranchNode cs) path = Some v \<and>
    (if j = lastChild then path = [] else path \<noteq> [] \<and> unat (hd path) = j)"
proof -
  have len: "length cs = childrenCount" and wfj: "wf_node (cs ! j)" using assms by auto
  show ?thesis
  proof (cases "j = lastChild")
    case True
    with assms obtain v where "cs ! lastChild = LeafNode v" by (auto split: node.splits)
    then show ?thesis using True len by (auto simp: lookup_branch_Nil)
  next
    case False
    with assms(2) len have small: "j < lastChild" by (simp add: mpt_limits)
    then have u: "unat (word_of_nat j :: byte) = j" by (simp add: unat_of_nat mpt_limits)
    obtain path v where "lookup (cs ! j) path = Some v" using wf_node_key wfj assms(3) by blast
    with small u len have "lookup (BranchNode cs) (word_of_nat j # path) = Some v"
      by (simp add: lookup_branch_Cons)
    with False u show ?thesis by (metis list.sel(1) list.distinct(1))
  qed
qed

section \<open>Canonicity\<close>

text \<open>No extension has the map of a leaf or of a branch.\<close>

lemma extension_not_leaf:
  assumes "wf_node (ExtensionNode key nxt)" shows "lookup (ExtensionNode key nxt) \<noteq> lookup (LeafNode v)"
proof
  assume "lookup (ExtensionNode key nxt) = lookup (LeafNode v)"
  then have "lookup (ExtensionNode key nxt) [] = Some v" by simp
  with assms show False by (auto simp: has_prefix_iff split: if_splits)
qed

lemma branch_two_keys:
  assumes "wf_node (BranchNode cs)"
  obtains p q v w where "lookup (BranchNode cs) p = Some v" "lookup (BranchNode cs) q = Some w"
    "p \<noteq> []" "q = [] \<or> hd p \<noteq> hd q"
proof -
  from assms obtain i j where ij: "i < j" "j < length cs" "cs ! i \<noteq> EmptyNode" "cs ! j \<noteq> EmptyNode"
    using two_children [of "\<lambda>c. c \<noteq> EmptyNode" cs] by (metis wf_node.simps(4))
  then have "i \<noteq> lastChild" using assms by (simp add: mpt_limits)
  with ij wf_branch_child_key [OF assms, of i] obtain p v
    where p: "lookup (BranchNode cs) p = Some v" "p \<noteq> []" "unat (hd p) = i" by auto
  from ij wf_branch_child_key [OF assms, of j] obtain q w
    where q: "lookup (BranchNode cs) q = Some w" "q = [] \<or> unat (hd q) = j"
    by (metis (full_types))
  have "q = [] \<or> hd p \<noteq> hd q" using p(3) q(2) ij(1) by auto
  then show ?thesis using that p q by blast
qed

lemma branch_not_leaf:
  assumes "wf_node (BranchNode cs)" shows "lookup (BranchNode cs) \<noteq> lookup (LeafNode v)"
proof
  assume eq: "lookup (BranchNode cs) = lookup (LeafNode v)"
  obtain p w where "lookup (BranchNode cs) p = Some w" "p \<noteq> []"
    using branch_two_keys [OF assms] by metis
  then show False using eq by simp
qed

lemma branch_not_extension:
  assumes "wf_node (BranchNode cs)" and "key \<noteq> []"
  shows "lookup (BranchNode cs) \<noteq> lookup (ExtensionNode key nxt)"
proof
  assume eq: "lookup (BranchNode cs) = lookup (ExtensionNode key nxt)"
  obtain p q v w where pq: "lookup (BranchNode cs) p = Some v" "lookup (BranchNode cs) q = Some w"
    "q = [] \<or> hd p \<noteq> hd q" using branch_two_keys [OF assms(1)] by metis
  then obtain p' q' where "p = key @ p'" "q = key @ q'"
    unfolding eq lookup_extension_Some by blast
  with pq(3) assms(2) show False by auto
qed

lemma extension_keys_comparable:
  assumes "wf_node (ExtensionNode k n)" and "lookup (ExtensionNode k n) = lookup (ExtensionNode k' n')"
  shows "(\<exists>r. k' = k @ r) \<or> (\<exists>r. k = k' @ r)"
proof -
  have "n \<noteq> EmptyNode" "wf_node n" using assms(1) by auto
  then obtain path v where "lookup n path = Some v" using wf_node_key by blast
  then have "lookup (ExtensionNode k' n') (k @ path) = Some v"
    using assms(2) lookup_extension_append [of k n path] by simp
  then obtain rest where "k @ path = k' @ rest" unfolding lookup_extension_Some by blast
  then show ?thesis by (auto simp: append_eq_append_conv2)
qed

lemma extension_strip:
  assumes "lookup (ExtensionNode k n) = lookup (ExtensionNode (k @ r) n')"
  shows "lookup n = (if r = [] then lookup n' else lookup (ExtensionNode r n'))"
proof
  fix path
  have "lookup n path = lookup (ExtensionNode (k @ r) n') (k @ path)"
    using assms lookup_extension_append [of k n path] by simp
  also have "\<dots> = (if r = [] then lookup n' else lookup (ExtensionNode r n')) path"
    by (auto simp: has_prefix_def)
  finally show "lookup n path = (if r = [] then lookup n' else lookup (ExtensionNode r n')) path" .
qed

lemma non_extension_not_extension:
  assumes "wf_node n" and "case n of LeafNode v \<Rightarrow> True | BranchNode cs \<Rightarrow> True | _ \<Rightarrow> False"
    and "wf_node (ExtensionNode r n')"
  shows "lookup n \<noteq> lookup (ExtensionNode r n')"
proof (cases n)
  case (LeafNode v)
  then show ?thesis using extension_not_leaf [OF assms(3)] by metis
next
  case (BranchNode cs)
  then show ?thesis using branch_not_extension assms by auto
qed (use assms(2) in auto)

lemma extension_same_key:
  assumes "wf_node (ExtensionNode k n)" and "wf_node (ExtensionNode k' n')"
    and "lookup (ExtensionNode k n) = lookup (ExtensionNode k' n')"
  shows "k = k' \<and> lookup n = lookup n'"
proof -
  have suffix: "r = []"
    if "wf_node (ExtensionNode k n)" "wf_node (ExtensionNode (k @ r) n')"
      "lookup (ExtensionNode k n) = lookup (ExtensionNode (k @ r) n')" for k r n n'
  proof (rule ccontr)
    assume "r \<noteq> []"
    then have "lookup n = lookup (ExtensionNode r n')" using extension_strip [OF that(3)] by simp
    moreover have "wf_node (ExtensionNode r n')" using that(2) \<open>r \<noteq> []\<close> by simp
    ultimately show False using non_extension_not_extension that(1) by (metis wf_node.simps(3))
  qed
  from extension_keys_comparable [OF assms(1,3)] have "k = k'"
  proof
    assume "\<exists>r. k' = k @ r"
    then show ?thesis using suffix assms by force
  next
    assume "\<exists>r. k = k' @ r"
    then show ?thesis using suffix [of k' n' _ n] assms by force
  qed
  then show ?thesis using extension_strip [of k n "[]" n'] assms(3) by simp
qed

lemma wf_node_unique:
  assumes "wf_node p" and "wf_node q" and "lookup p = lookup q"
  shows "p = q"
  using assms
proof (induction p arbitrary: q)
  case EmptyNode
  show ?case
  proof (rule ccontr)
    assume "EmptyNode \<noteq> q"
    then obtain path v where "lookup q path = Some v" using wf_node_key EmptyNode.prems(2) by metis
    moreover have "lookup q path = None" using EmptyNode.prems(3) by (metis lookup.simps(1))
    ultimately show False by simp
  qed
next
  case (LeafNode v)
  then show ?case
  proof (cases q)
    case EmptyNode
    then show ?thesis using LeafNode.prems(3) by (metis lookup.simps(1) lookup.simps(2) option.distinct(1))
  next
    case (LeafNode w)
    have "lookup (LeafNode v) [] = lookup q []" by (rule fun_cong [OF LeafNode.prems(3)])
    then show ?thesis using LeafNode by simp
  next
    case (ExtensionNode k n)
    then show ?thesis using extension_not_leaf LeafNode.prems by metis
  next
    case (BranchNode cs)
    then show ?thesis using branch_not_leaf LeafNode.prems by metis
  qed auto
next
  case (ExtensionNode k n)
  show ?case
  proof (cases q)
    case EmptyNode
    then show ?thesis using wf_node_key [of "ExtensionNode k n"] ExtensionNode.prems by auto
  next
    case (LeafNode w)
    then show ?thesis using extension_not_leaf ExtensionNode.prems by metis
  next
    case (ExtensionNode k' n')
    then have "k = k' \<and> lookup n = lookup n'" using extension_same_key ExtensionNode.prems by blast
    moreover have "wf_node n" "wf_node n'" using ExtensionNode.prems ExtensionNode by auto
    ultimately show ?thesis using ExtensionNode.IH ExtensionNode by blast
  next
    case (BranchNode cs)
    then show ?thesis using branch_not_extension ExtensionNode.prems by (metis wf_node.simps(3))
  qed (use ExtensionNode.prems in auto)
next
  case (BranchNode cs)
  show ?case
  proof (cases q)
    case EmptyNode
    then show ?thesis using wf_node_key [of "BranchNode cs"] BranchNode.prems by auto
  next
    case (LeafNode w)
    then show ?thesis using branch_not_leaf BranchNode.prems by metis
  next
    case (ExtensionNode k n)
    then show ?thesis using branch_not_extension BranchNode.prems by (metis wf_node.simps(3))
  next
    case (BranchNode ds)
    have len: "length cs = childrenCount" "length ds = childrenCount"
      using BranchNode.prems BranchNode by auto
    have "cs ! i = ds ! i" if "i < childrenCount" for i
    proof (cases "i = lastChild")
      case True
      have "lookup (cs ! lastChild) [] = lookup (ds ! lastChild) []"
        using BranchNode.prems(3) BranchNode len by (metis lookup_branch_Nil)
      moreover have "case cs ! lastChild of EmptyNode \<Rightarrow> True | LeafNode v \<Rightarrow> True | _ \<Rightarrow> False"
        "case ds ! lastChild of EmptyNode \<Rightarrow> True | LeafNode v \<Rightarrow> True | _ \<Rightarrow> False"
        using BranchNode.prems BranchNode by auto
      ultimately show ?thesis using True by (auto split: node.splits)
    next
      case False
      then have small: "i < lastChild" using that by (simp add: mpt_limits)
      then have u: "unat (word_of_nat i :: byte) = i" by (simp add: unat_of_nat mpt_limits)
      have "lookup (cs ! i) path = lookup (ds ! i) path" for path
        using BranchNode.prems(3) BranchNode small u len
        by (metis lookup_branch_Cons)
      then have "lookup (cs ! i) = lookup (ds ! i)" by blast
      moreover have "cs ! i \<in> set cs" "ds ! i \<in> set ds" using that len by simp_all
      moreover have "wf_node (cs ! i)" "wf_node (ds ! i)"
        using BranchNode.prems BranchNode calculation(2,3) by auto
      ultimately show ?thesis using BranchNode.IH by blast
    qed
    then show ?thesis using len BranchNode by (simp add: nth_equalityI)
  qed (use BranchNode.prems in auto)
qed auto

section \<open>Building blocks\<close>

text \<open>A node below a path that may be empty (\<^verbatim>\<open>newSubTrie\<close>), and the nodes an extension may point to.\<close>

definition sub_node :: "bytes \<Rightarrow> node \<Rightarrow> node" where
  "sub_node path n = (if path = [] then n else ExtensionNode path n)"

definition solid :: "node \<Rightarrow> bool" where
  "solid n \<longleftrightarrow> (case n of LeafNode v \<Rightarrow> True | BranchNode cs \<Rightarrow> True | _ \<Rightarrow> False)"

lemma solid_simps [simp]:
  "solid (LeafNode v)" "solid (BranchNode cs)" "\<not> solid EmptyNode" "\<not> solid (ExtensionNode k n)"
  "\<not> solid (HashNode h)"
  by (simp_all add: solid_def)

lemma wf_extension: "wf_node (ExtensionNode key n) \<longleftrightarrow> key \<noteq> [] \<and> nibbles key \<and> wf_node n \<and> solid n"
  by (simp add: solid_def)

lemma lookup_sub_node:
  "lookup (sub_node pre n) path = (if has_prefix path pre then lookup n (drop (length pre) path) else None)"
  by (simp add: sub_node_def)

lemma wf_sub_node: "wf_node n \<Longrightarrow> solid n \<Longrightarrow> nibbles path \<Longrightarrow> wf_node (sub_node path n)"
  by (auto simp: sub_node_def solid_def)

lemma lookup_sub_leaf: "lookup (sub_node path (LeafNode v)) = [path \<mapsto> v]"
  by (rule ext) (auto simp: lookup_sub_node has_prefix_iff)

lemma lookup_extension_upd:
  assumes "lookup r = (lookup n)(rest := x)"
  shows "lookup (ExtensionNode key r) = (lookup (ExtensionNode key n))(key @ rest := x)"
  by (rule ext) (auto simp: assms has_prefix_iff)

lemma word_of_nat_nibble: "unat (j :: byte) < lastChild \<Longrightarrow> word_of_nat (unat j) = j"
  by simp

lemma lookup_branch_upd:
  assumes len: "length ds = childrenCount" and nib: "nibbles path" and sp: "splitPath path = (i, rest)"
    and r: "lookup r = (lookup (ds ! i))(rest := x)"
  shows "lookup (BranchNode (ds[i := r])) = (lookup (BranchNode ds))(path := x)"
proof
  fix q
  have i: "i < childrenCount" using nib sp by (auto simp: splitPath_def mpt_limits split: list.splits)
  show "lookup (BranchNode (ds[i := r])) q = ((lookup (BranchNode ds))(path := x)) q"
  proof (cases q)
    case Nil
    show ?thesis
    proof (cases path)
      case Nil
      then show ?thesis using \<open>q = []\<close> sp len i r by (simp add: splitPath_def lookup_branch_Nil)
    next
      case (Cons j p)
      then have "i \<noteq> lastChild" using sp nib by (auto simp: splitPath_def mpt_limits)
      then show ?thesis using \<open>q = []\<close> Cons len by (simp add: lookup_branch_Nil)
    qed
  next
    case (Cons j q')
    show ?thesis
    proof (cases path)
      case Nil
      then show ?thesis using Cons sp len
        by (auto simp: splitPath_def lookup_branch_Cons)
    next
      case (Cons k p)
      then have "i = unat k" "rest = p" using sp by (auto simp: splitPath_def)
      moreover have "unat j \<noteq> unat k" if "j \<noteq> k" using that by (simp add: word_unat_eq_iff)
      ultimately show ?thesis using \<open>q = j # q'\<close> Cons len i r nib
        by (cases "j = k") (auto simp: lookup_branch_Cons mpt_limits)
    qed
  qed
qed

lemma length_NewBranchNode [simp]: "length NewBranchNode = childrenCount"
  by (simp add: NewBranchNode_def)

lemma NewBranchNode_nth [simp]: "i < childrenCount \<Longrightarrow> NewBranchNode ! i = EmptyNode"
  by (simp add: NewBranchNode_def)

lemma lookup_NewBranchNode: "lookup (BranchNode NewBranchNode) = Map.empty"
proof
  fix path show "lookup (BranchNode NewBranchNode) path = None"
    by (cases path) (simp_all add: lookup_branch_Nil lookup_branch_Cons mpt_limits)
qed

lemma lookup_single_child:
  assumes "unat j < lastChild"
  shows "lookup (BranchNode (NewBranchNode[unat j := n])) = lookup (ExtensionNode [j] n)"
proof
  fix path
  show "lookup (BranchNode (NewBranchNode[unat j := n])) path = lookup (ExtensionNode [j] n) path"
  proof (cases path)
    case Nil
    then show ?thesis using assms by (simp add: lookup_branch_Nil has_prefix_def mpt_limits)
  next
    case (Cons k q)
    then show ?thesis using assms
      by (auto simp: lookup_branch_Cons has_prefix_def nth_list_update mpt_limits word_unat_eq_iff)
  qed
qed

lemma lookup_extension_sub: "lookup (ExtensionNode [j] (sub_node rest n)) = lookup (ExtensionNode (j # rest) n)"
  by (rule ext) (auto simp: lookup_sub_node has_prefix_iff)

lemma lookup_value_child: "lookup (BranchNode (NewBranchNode[lastChild := LeafNode w])) = lookup (LeafNode w)"
proof
  fix path
  show "lookup (BranchNode (NewBranchNode[lastChild := LeafNode w])) path = lookup (LeafNode w) path"
    by (cases path) (auto simp: lookup_branch_Nil lookup_branch_Cons mpt_limits nth_list_update)
qed

lemma wf_branch_put:
  assumes "wf_node (BranchNode ds)" and "i < childrenCount" and "wf_node r" and "r \<noteq> EmptyNode"
    and "i = lastChild \<Longrightarrow> \<exists>v. r = LeafNode v"
  shows "wf_node (BranchNode (ds[i := r]))"
proof -
  have len: "length ds = childrenCount" using assms(1) by simp
  obtain a b where ab: "a < b" "b < length ds" "ds ! a \<noteq> EmptyNode" "ds ! b \<noteq> EmptyNode"
    using two_children [of "\<lambda>c. c \<noteq> EmptyNode" ds] assms(1) by auto
  have "2 \<le> length (filter (\<lambda>c. c \<noteq> EmptyNode) (ds[i := r]))"
    by (rule two_children_conv [of a _ b])
      (use ab assms(2,4) len in \<open>auto simp: nth_list_update\<close>)
  moreover have "\<forall>c \<in> set (ds[i := r]). wf_node c"
    using assms(1,3) set_update_subset_insert [of ds i r] by auto
  moreover have "case ds[i := r] ! lastChild of EmptyNode \<Rightarrow> True | LeafNode v \<Rightarrow> True | _ \<Rightarrow> False"
    using assms(1,2,5) len by (cases "i = lastChild") auto
  ultimately show ?thesis using len by simp
qed

lemma wf_branch_pair:
  assumes "a < lastChild" and "b < childrenCount" and "a \<noteq> b"
    and "wf_node x" and "x \<noteq> EmptyNode" and "wf_node y" and "y \<noteq> EmptyNode"
    and "b = lastChild \<Longrightarrow> \<exists>v. y = LeafNode v"
  shows "wf_node (BranchNode (NewBranchNode[a := x, b := y]))"
proof -
  let ?cs = "NewBranchNode[a := x, b := y]"
  have "a < childrenCount" using assms(1) by (simp add: mpt_limits)
  have "2 \<le> length (filter (\<lambda>c. c \<noteq> EmptyNode) ?cs)"
    by (rule two_children_conv [of a _ b]) (use assms \<open>a < childrenCount\<close> in \<open>auto simp: nth_list_update\<close>)
  moreover have "\<forall>c \<in> set ?cs. wf_node c"
    using assms set_update_subset_insert [of "NewBranchNode[a := x]" b y]
      set_update_subset_insert [of NewBranchNode a x] by (auto simp: NewBranchNode_def)
  moreover have "case ?cs ! lastChild of EmptyNode \<Rightarrow> True | LeafNode v \<Rightarrow> True | _ \<Rightarrow> False"
    using assms(1,2,8) by (cases "b = lastChild") (auto simp: mpt_limits)
  ultimately show ?thesis by simp
qed

end
