(* ===== verification/Mpt_Refine.thy ===== *)
theory Mpt_Refine
  imports Mpt_Spec
begin

text \<open>
  What the trie operations do to the map and to the reference counters. A node of the running
  trie may contain hash nodes; \<open>expands\<close> relates it to the node with all of them resolved
  through the store. \<open>shifts t t' A B\<close> says that between two states the counters have lost the
  hashes \<open>A\<close> and gained the hashes \<open>B\<close>.
\<close>

section \<open>Reference counts as multisets\<close>

fun refs :: "(bytes \<Rightarrow> uint256) \<Rightarrow> node \<Rightarrow> uint256 multiset" where
  "refs sha EmptyNode = {#}"
| "refs sha (LeafNode v) = {# Node_Hash sha (LeafNode v) #}"
| "refs sha (ExtensionNode key nxt) = add_mset (Node_Hash sha (ExtensionNode key nxt)) (refs sha nxt)"
| "refs sha (BranchNode cs) = add_mset (Node_Hash sha (BranchNode cs)) (sum_list (map (refs sha) cs))"
| "refs sha (HashNode h) = {#}"

definition refcount_of :: "trie \<Rightarrow> uint256 \<Rightarrow> 32 word" where
  "refcount_of t h = (case map_of (tr_refcount t) h of None \<Rightarrow> 0 | Some nd \<Rightarrow> cn_refcount nd)"

definition shifts :: "trie \<Rightarrow> trie \<Rightarrow> uint256 multiset \<Rightarrow> uint256 multiset \<Rightarrow> bool" where
  "shifts t t' A B \<longleftrightarrow>
     tr_store t' = tr_store t \<and> tr_mode t' = tr_mode t \<and> tr_root t' = tr_root t \<and>
     (\<forall>h. refcount_of t' h + of_nat (count A h) = refcount_of t h + of_nat (count B h))"

lemma shifts_env:
  "shifts t t' A B \<Longrightarrow> tr_store t' = tr_store t"
  "shifts t t' A B \<Longrightarrow> tr_mode t' = tr_mode t"
  "shifts t t' A B \<Longrightarrow> tr_root t' = tr_root t"
  by (simp_all add: shifts_def)

lemma shifts_refl [simp, intro]: "shifts t t A A"
  by (simp add: shifts_def)

lemma shifts_cancel: "shifts t t' (A + C) (B + C) \<longleftrightarrow> shifts t t' A B"
  by (auto simp: shifts_def)

lemma shifts_trans:
  assumes "shifts t t1 A B" and "shifts t1 t2 C D"
  shows "shifts t t2 (A + C) (B + D)"
proof -
  have "refcount_of t2 h + of_nat (count (A + C) h) = refcount_of t h + of_nat (count (B + D) h)" for h
  proof -
    have "refcount_of t2 h + of_nat (count C h) = refcount_of t1 h + of_nat (count D h)"
      and first: "refcount_of t1 h + of_nat (count A h) = refcount_of t h + of_nat (count B h)"
      using assms by (simp_all add: shifts_def)
    then have "refcount_of t2 h + of_nat (count C h) + of_nat (count A h) =
        (refcount_of t1 h + of_nat (count A h)) + of_nat (count D h)" by (simp add: ac_simps)
    also have "\<dots> = refcount_of t h + of_nat (count B h) + of_nat (count D h)" by (simp only: first)
    finally show ?thesis by (simp add: ac_simps)
  qed
  with assms show ?thesis by (simp add: shifts_def)
qed

lemma shifts_chain: "shifts t t1 A B \<Longrightarrow> shifts t1 t2 B C \<Longrightarrow> shifts t t2 A C"
  using shifts_trans [of t t1 A B t2 B C] by (simp add: shifts_cancel add.commute [of B C])

lemma refcount_of_addNode:
  "refcount_of (addNode sha n t) h =
     refcount_of t h + (if h = Node_Hash sha n then 1 else 0)"
  by (auto simp: refcount_of_def addNode_def addRef_def Let_def split: option.splits)

lemma refcount_of_removeNode:
  "refcount_of (removeNode sha n t) h =
     refcount_of t h - (if h = Node_Hash sha n then 1 else 0)"
  by (auto simp: refcount_of_def removeNode_def removeRef_def Let_def split: option.splits)

lemma addNode_env [simp]:
  "tr_store (addNode sha n t) = tr_store t" "tr_mode (addNode sha n t) = tr_mode t"
  "tr_root (addNode sha n t) = tr_root t"
  by (simp_all add: addNode_def addRef_def Let_def split: option.splits)

lemma removeNode_env [simp]:
  "tr_store (removeNode sha n t) = tr_store t" "tr_mode (removeNode sha n t) = tr_mode t"
  "tr_root (removeNode sha n t) = tr_root t"
  by (simp_all add: removeNode_def removeRef_def Let_def split: option.splits)

lemma shifts_add:
  "shifts t t' A B \<Longrightarrow> Node_Hash sha n = h \<Longrightarrow> shifts t (addNode sha n t') A (add_mset h B)"
  by (auto simp: shifts_def refcount_of_addNode algebra_simps)

lemma shifts_remove:
  "shifts t t' A B \<Longrightarrow> Node_Hash sha n = h \<Longrightarrow> shifts t (removeNode sha n t') (add_mset h A) B"
  by (auto simp: shifts_def refcount_of_removeNode algebra_simps)

section \<open>Nodes in the store\<close>

definition stored_node :: "byte \<Rightarrow> (bytes \<rightharpoonup> bytes) \<Rightarrow> uint256 \<Rightarrow> node option" where
  "stored_node m st h =
     (case fst (Trie_getFromStore h (NewTrie EmptyNode m st)) of Inl e \<Rightarrow> None | Inr n \<Rightarrow> Some n)"

lemma Trie_getFromStore_stored:
  assumes "stored_node (tr_mode t) (tr_store t) h = Some n"
  obtains t' where "Trie_getFromStore h t = (Inr n, t')" "shifts t t' {#} {#}"
proof -
  obtain data where data: "getFromStore (makeStorageKey h) (tr_mode t) (tr_store t) = Inr data"
    using assms by (auto simp: stored_node_def Trie_getFromStore_def NewTrie_def split: sum.splits)
  obtain no r where dec: "DecodeNodeWithType (NewBinReaderFromBuf data) = (no, r)" by fastforce
  have facts: "r_err r = None" "no = Some n" "\<not> (RC (tr_mode t) \<and> length data < 5)" "\<not> isEmpty n"
    using assms data dec
    by (auto simp: stored_node_def Trie_getFromStore_def NewTrie_def Let_def
        split: sum.splits option.splits if_splits)
  show ?thesis
  proof (cases "RC (tr_mode t)")
    case False
    then show ?thesis using that [of t] data dec facts by (simp add: Trie_getFromStore_def)
  next
    case True
    show ?thesis
    proof (cases "map_of (tr_refcount t) h")
      case None
      then show ?thesis using that [of t] data dec facts by (simp add: Trie_getFromStore_def)
    next
      case (Some nd)
      obtain fl r1 where r1: "ReadB r = (fl, r1)" by fastforce
      obtain cnt r2 where r2: "ReadU32LE r1 = (cnt, r2)" by fastforce
      let ?t = "t\<lparr>tr_refcount := AList.update h
        (nd\<lparr>cn_bytes := Some (take (length data - 5) data), cn_initial := cnt\<rparr>) (tr_refcount t)\<rparr>"
      have "Trie_getFromStore h t = (Inr n, ?t)"
        using data dec facts True Some r1 r2 by (simp add: Trie_getFromStore_def)
      moreover have "shifts t ?t {#} {#}" using Some by (simp add: shifts_def refcount_of_def)
      ultimately show ?thesis by (rule that)
    qed
  qed
qed

section \<open>Expansion\<close>

inductive expands :: "(bytes \<Rightarrow> uint256) \<Rightarrow> byte \<Rightarrow> (bytes \<rightharpoonup> bytes) \<Rightarrow> node \<Rightarrow> node \<Rightarrow> bool"
  for sha m st where
  expands_empty: "expands sha m st EmptyNode EmptyNode"
| expands_leaf: "expands sha m st (LeafNode v) (LeafNode v)"
| expands_extension: "expands sha m st n p \<Longrightarrow> expands sha m st (ExtensionNode k n) (ExtensionNode k p)"
| expands_branch: "list_all2 (expands sha m st) cs ds \<Longrightarrow> expands sha m st (BranchNode cs) (BranchNode ds)"
| expands_hash: "stored_node m st h = Some n \<Longrightarrow> Node_Hash sha n = h \<Longrightarrow> (\<nexists>h'. n = HashNode h') \<Longrightarrow>
    n \<noteq> EmptyNode \<Longrightarrow> expands sha m st n p \<Longrightarrow> expands sha m st (HashNode h) p"

inductive_cases expands_emptyE [elim!]: "expands sha m st EmptyNode p"
inductive_cases expands_leafE [elim!]: "expands sha m st (LeafNode v) p"
inductive_cases expands_extensionE [elim!]: "expands sha m st (ExtensionNode k n) p"
inductive_cases expands_branchE [elim!]: "expands sha m st (BranchNode cs) p"
inductive_cases expands_hashE: "expands sha m st (HashNode h) p"

lemma expands_hash_eq:
  assumes "expands sha m st n p"
  shows "Node_Hash sha n = Node_Hash sha p \<and> (n = EmptyNode \<longleftrightarrow> p = EmptyNode)"
  using assms
proof (induction rule: expands.induct)
  case (expands_extension n p k)
  then have "encodeBinaryAsChild sha n = encodeBinaryAsChild sha p"
    by (simp add: encodeBinaryAsChild_eq)
  then show ?case by (simp add: Node_Hash_def encodeNodeWithType_def)
next
  case (expands_branch cs ds)
  then have "map (encodeBinaryAsChild sha) cs = map (encodeBinaryAsChild sha) ds"
    by (auto simp: list_all2_conv_all_nth encodeBinaryAsChild_eq intro!: nth_equalityI)
  then show ?case by (simp add: Node_Hash_def encodeNodeWithType_def)
qed (auto simp: Node_Hash_def [of sha "HashNode _"])

lemma expands_not_hash [simp]: "\<not> expands sha m st n (HashNode h)"
proof
  assume "expands sha m st n (HashNode h)"
  then show False by (induction n "HashNode h" rule: expands.induct) auto
qed

lemma expands_pure: "wf_node p \<Longrightarrow> expands sha m st p p"
proof (induction p rule: wf_node.induct)
  case (4 cs)
  then show ?case by (auto intro!: expands_branch simp: list_all2_conv_all_nth)
qed (auto intro: expands.intros split: node.splits)

section \<open>Fuel\<close>

text \<open>
  Each nibble of the path is worth two steps, one for the node and one for resolving the hash
  node in its place.
\<close>

definition fuel_for :: "node \<Rightarrow> node \<Rightarrow> bytes \<Rightarrow> nat" where
  "fuel_for n p path = 2 * length path +
     (case p of LeafNode v \<Rightarrow> 1 | EmptyNode \<Rightarrow> 1 | _ \<Rightarrow> 3) + (case n of HashNode h \<Rightarrow> 1 | _ \<Rightarrow> 0)"

lemma fuel_for_le: "fuel_for n p path \<le> 2 * length path + 4"
  by (auto simp: fuel_for_def split: node.splits)

lemma fuel_for_small: "p = EmptyNode \<or> p = LeafNode v \<Longrightarrow> fuel_for n p path \<le> 2 * length path + 2"
  by (auto simp: fuel_for_def split: node.splits)

lemma fuel_for_pos: "fuel_for n p path \<noteq> 0"
  by (auto simp: fuel_for_def split: node.splits)

section \<open>Children of a branch\<close>

lemma splitPath_nibbles:
  assumes "nibbles path" and "splitPath path = (i, rest)"
  shows "i < childrenCount" "nibbles rest" "path = [] \<longleftrightarrow> i = lastChild"
    "path \<noteq> [] \<Longrightarrow> path = word_of_nat i # rest" "path = [] \<Longrightarrow> rest = []"
    "path \<noteq> [] \<Longrightarrow> i < lastChild"
  using assms by (auto simp: splitPath_def mpt_limits split: list.splits)

lemma lookup_branch_split:
  assumes "length ds = childrenCount" and "nibbles path" and "splitPath path = (i, rest)"
  shows "lookup (BranchNode ds) path = lookup (ds ! i) rest"
  using assms by (auto simp: splitPath_def lookup_branch_Nil lookup_branch_Cons mpt_limits split: list.splits)

lemma wf_branch_children:
  assumes "wf_node (BranchNode ds)" and "i < childrenCount"
  shows "wf_node (ds ! i)"
  using assms by (metis nth_mem wf_node.simps(4))

lemma wf_branch_last:
  assumes "wf_node (BranchNode ds)"
  obtains "ds ! lastChild = EmptyNode" | v where "ds ! lastChild = LeafNode v"
  using assms by (auto split: node.splits)

lemma fuel_for_child:
  assumes "wf_node (BranchNode ds)" and "nibbles path" and "splitPath path = (i, rest)"
    and "fuel_for (BranchNode cs) (BranchNode ds) path \<le> Suc f"
  shows "fuel_for c (ds ! i) rest \<le> f"
proof (cases "path = []")
  case True
  then have "i = lastChild" "rest = []" using splitPath_nibbles [OF assms(2,3)] by simp_all
  from wf_branch_last [OF assms(1)] obtain v where "ds ! lastChild = EmptyNode \<or> ds ! lastChild = LeafNode v"
    by metis
  from fuel_for_small [OF this, of c rest] have "fuel_for c (ds ! i) rest \<le> 2"
    using \<open>rest = []\<close> \<open>i = lastChild\<close> by simp
  with True assms(4) show ?thesis by (simp add: fuel_for_def)
next
  case False
  then have "length path = Suc (length rest)" using splitPath_nibbles(4) [OF assms(2,3)] by simp
  with assms(4) fuel_for_le [of c "ds ! i" rest] show ?thesis by (simp add: fuel_for_def)
qed

lemma fuel_for_next:
  assumes "key \<noteq> []" and "has_prefix path key"
    and "fuel_for (ExtensionNode key n) (ExtensionNode key p) path \<le> Suc f"
  shows "fuel_for n p (drop (length key) path) \<le> f"
proof -
  have "length key \<ge> 1" using assms(1) by (cases key) auto
  with assms has_prefix_length [OF assms(2)] fuel_for_le [of n p "drop (length key) path"]
  show ?thesis by (simp add: fuel_for_def)
qed

lemma fuel_for_hash:
  assumes "\<nexists>h. n = HashNode h" and "fuel_for (HashNode h) p path \<le> Suc f"
  shows "fuel_for n p path \<le> f"
  using assms by (cases n) (auto simp: fuel_for_def)

lemma get_child_in [simp]: "i < length cs \<Longrightarrow> get_child cs i = Inr (cs ! i)"
  by (simp add: get_child_def)

lemma expands_update:
  assumes "list_all2 (expands sha m st) cs ds" and "expands sha m st r q"
  shows "expands sha m st (BranchNode (cs[i := r])) (BranchNode (ds[i := q]))"
  using assms by (auto intro: expands_branch list_all2_update_cong)

section \<open>Lookup\<close>

definition get_ok ::
  "(bytes \<Rightarrow> uint256) \<Rightarrow> nat \<Rightarrow> node \<Rightarrow> node \<Rightarrow> bytes \<Rightarrow> trie \<Rightarrow> trie \<Rightarrow> bool" where
  "get_ok sha fuel n p path t t' \<longleftrightarrow> shifts t t' {#} {#} \<and>
    (case lookup p path of
       None \<Rightarrow> getWithPath fuel n path True t = (Inl ErrNotFound, t')
     | Some v \<Rightarrow> \<exists>n' full. getWithPath fuel n path True t = (Inr (n', LeafNode v, full), t') \<and>
         expands sha (tr_mode t) (tr_store t) n' p \<and>
         (full = path \<or> full = path @ [word_of_nat lastChild] \<and> (\<nexists>w. p = LeafNode w)))"

lemma get_ok_None: "get_ok sha fuel n p path t t' \<Longrightarrow> lookup p path = None \<Longrightarrow>
    getWithPath fuel n path True t = (Inl ErrNotFound, t')"
  by (simp add: get_ok_def)

lemma get_ok_Some:
  assumes "get_ok sha fuel n p path t t'" and "lookup p path = Some v"
  obtains n' full where "getWithPath fuel n path True t = (Inr (n', LeafNode v, full), t')"
    "expands sha (tr_mode t) (tr_store t) n' p"
    "full = path \<or> full = path @ [word_of_nat lastChild] \<and> (\<nexists>w. p = LeafNode w)"
  using assms by (auto simp: get_ok_def)

lemma getWithPath_correct:
  assumes "expands sha m st n p" and "wf_node p" and "tr_mode t = m" and "tr_store t = st"
    and "nibbles path" and "fuel_for n p path \<le> fuel"
  shows "\<exists>t'. get_ok sha fuel n p path t t'"
  using assms
proof (induction arbitrary: path fuel t rule: expands.induct)
  case expands_empty
  then obtain f where "fuel = Suc f" by (cases fuel) (auto simp: fuel_for_def)
  then show ?case by (intro exI [of _ t]) (simp add: get_ok_def)
next
  case (expands_leaf v)
  then obtain f where "fuel = Suc f" by (cases fuel) (auto simp: fuel_for_def)
  then show ?case by (intro exI [of _ t]) (auto simp: get_ok_def intro: expands.expands_leaf)
next
  case (expands_extension n p k)
  then obtain f where f: "fuel = Suc f" by (cases fuel) (auto simp: fuel_for_def)
  show ?case
  proof (cases "has_prefix path k")
    case False
    then show ?thesis using f by (intro exI [of _ t]) (simp add: get_ok_def)
  next
    case True
    let ?rest = "drop (length k) path"
    have "wf_node p" "nibbles ?rest" "fuel_for n p ?rest \<le> f"
      using expands_extension.prems f fuel_for_next True by auto
    from expands_extension.IH [OF this(1) expands_extension.prems(2,3) this(2,3)]
    obtain t' where t': "get_ok sha f n p ?rest t t'" by blast
    have "k @ ?rest = path" using True by (rule has_prefix_drop)
    with t' f True show ?thesis
      by (intro exI [of _ t'])
        (auto simp: get_ok_def intro: expands.expands_extension split: option.splits)
  qed
next
  case (expands_branch cs ds)
  then obtain f where f: "fuel = Suc f" by (cases fuel) (auto simp: fuel_for_def)
  obtain i rest where sp: "splitPath path = (i, rest)" by fastforce
  note spl = splitPath_nibbles [OF \<open>nibbles path\<close> sp]
  have len: "length ds = childrenCount" "length cs = childrenCount"
    using expands_branch.prems(1) list_all2_lengthD [OF expands_branch.IH] by simp_all
  have all: "list_all2 (expands sha m st) cs ds"
    using expands_branch.IH by (auto elim: list_all2_mono)
  have "wf_node (ds ! i)" "fuel_for (cs ! i) (ds ! i) rest \<le> f"
    using wf_branch_children fuel_for_child expands_branch.prems spl(1) sp f by blast+
  with list_all2_nthD [OF expands_branch.IH, of i] spl(1,2) len expands_branch.prems(2,3)
  obtain t' where t': "get_ok sha f (cs ! i) (ds ! i) rest t t'" by (auto, metis)
  show ?case
  proof (cases "lookup (ds ! i) rest")
    case None
    then show ?thesis using t' f sp spl len expands_branch.prems(4) get_ok_None [OF t']
      by (intro exI [of _ t']) (simp add: get_ok_def lookup_branch_split)
  next
    case (Some v)
    then obtain n' full where n': "getWithPath f (cs ! i) rest True t = (Inr (n', LeafNode v, full), t')"
      "expands sha m st n' (ds ! i)"
      "full = rest \<or> full = rest @ [word_of_nat lastChild] \<and> (\<nexists>w. ds ! i = LeafNode w)"
      using get_ok_Some [OF t' Some] expands_branch.prems(2,3) by metis
    have exp: "expands sha m st (BranchNode (cs[i := n'])) (BranchNode ds)"
      using expands_update [OF all n'(2), of i] by simp
    have full: "word_of_nat i # full = path \<or> word_of_nat i # full = path @ [word_of_nat lastChild]"
    proof (cases "path = []")
      case True
      then have "rest = []" "i = lastChild" using spl by simp_all
      moreover have "\<exists>w. ds ! lastChild = LeafNode w"
        using wf_branch_last [OF expands_branch.prems(1)] Some \<open>i = lastChild\<close>
        by (metis lookup.simps(1) option.distinct(1))
      ultimately show ?thesis using True n'(3) by simp
    next
      case False
      then show ?thesis using n'(3) spl(4) by auto
    qed
    have "getWithPath fuel (BranchNode cs) path True t =
        (Inr (BranchNode (cs[i := n']), LeafNode v, word_of_nat i # full), t')"
      using f sp spl(1) len n'(1) by simp
    with exp full show ?thesis
      using t' sp len expands_branch.prems Some
      by (intro exI [of _ t']) (simp add: get_ok_def lookup_branch_split del: getWithPath.simps)
  qed
next
  case (expands_hash h n p)
  then obtain f where f: "fuel = Suc f" by (cases fuel) (auto simp: fuel_for_def)
  obtain t1 where t1: "Trie_getFromStore h t = (Inr n, t1)" "shifts t t1 {#} {#}"
    using Trie_getFromStore_stored expands_hash.hyps(1) expands_hash.prems(2,3) by metis
  have env: "tr_mode t1 = m" "tr_store t1 = st" "fuel_for n p path \<le> f"
    using shifts_env t1(2) expands_hash fuel_for_hash f by metis+
  from expands_hash.IH [OF expands_hash.prems(1) this(1,2) expands_hash.prems(4) this(3)]
  obtain t' where t': "get_ok sha f n p path t1 t'" by blast
  then have "shifts t t' {#} {#}" using shifts_chain t1(2) by (auto simp: get_ok_def)
  then show ?case using t' env t1(1) f expands_hash.prems(2,3)
    by (intro exI [of _ t']) (simp add: get_ok_def split: option.splits)
qed

end
