(* ===== verification/Mpt_Update.thy ===== *)
theory Mpt_Update
  imports Mpt_Refine
begin

text \<open>
  Insertion and deletion refine the update of the map a trie stands for. \<open>yields\<close> is the contract
  every updating operation on nodes meets: it succeeds, its result expands to the one
  well-formed node of the wanted map, and the reference counters move from the nodes of the old
  trie to those of the new one.
\<close>

section \<open>The contract of an update\<close>

text \<open>A hash node in a result stands for a leaf or a branch, so that an extension may point to it.\<close>

definition settled :: "node \<Rightarrow> node \<Rightarrow> bool" where
  "settled n p \<longleftrightarrow> solid p \<or> (\<nexists>h. n = HashNode h)"

lemma settled_simps [simp]:
  "settled EmptyNode p" "settled (LeafNode v) p" "settled (ExtensionNode k n) p" "settled (BranchNode cs) p"
  by (simp_all add: settled_def)

lemma settled_sub_node: "settled n p \<Longrightarrow> settled (sub_node path n) (sub_node path p)"
  by (simp add: sub_node_def)

definition yields ::
  "(bytes \<Rightarrow> uint256) \<Rightarrow> trie \<Rightarrow> uint256 multiset \<Rightarrow> (bytes \<rightharpoonup> bytes) \<Rightarrow> (mpt_err + node) \<times> trie \<Rightarrow> bool" where
  "yields sha t A M res \<longleftrightarrow>
     (\<exists>n' p' t'. res = (Inr n', t') \<and> expands sha (tr_mode t) (tr_store t) n' p' \<and> wf_node p' \<and>
        lookup p' = M \<and> shifts t t' A (refs sha p') \<and> settled n' p')"

lemma yieldsI:
  assumes "res = (Inr n', t')" and "expands sha (tr_mode t) (tr_store t) n' p'" and "wf_node p'"
    and "lookup p' = M" and "shifts t t' A (refs sha p')" and "settled n' p'"
  shows "yields sha t A M res"
  using assms by (auto simp: yields_def)

lemma yieldsE:
  assumes "yields sha t A M res"
  obtains n' p' t' where "res = (Inr n', t')" "expands sha (tr_mode t) (tr_store t) n' p'" "wf_node p'"
    "lookup p' = M" "shifts t t' A (refs sha p')" "settled n' p'"
  using assms by (auto simp: yields_def)

lemma yields_after:
  assumes "shifts t t1 A B" and "yields sha t1 B M res"
  shows "yields sha t A M res"
proof -
  have "tr_mode t1 = tr_mode t" "tr_store t1 = tr_store t" using shifts_env [OF assms(1)] by simp_all
  then show ?thesis using assms(2) shifts_chain [OF assms(1)] unfolding yields_def by fastforce
qed

section \<open>Counters of composed nodes\<close>

lemma shifts_frame: "shifts t t' A B \<Longrightarrow> shifts t t' (A + S) (B + S)"
  by (simp add: shifts_cancel)

lemma sum_list_extract:
  fixes xs :: "'a::comm_monoid_add list"
  assumes "i < length xs"
  obtains S where "sum_list xs = S + xs ! i" "\<And>r. sum_list (xs[i := r]) = S + r"
proof
  have "xs = take i xs @ xs ! i # drop (Suc i) xs" using assms by (rule id_take_nth_drop)
  then have "sum_list xs = sum_list (take i xs @ xs ! i # drop (Suc i) xs)" by (rule arg_cong)
  then show "sum_list xs = (sum_list (take i xs) + sum_list (drop (Suc i) xs)) + xs ! i"
    by (simp add: ac_simps)
  show "sum_list (xs[i := r]) = (sum_list (take i xs) + sum_list (drop (Suc i) xs)) + r" for r
    using assms by (simp add: upd_conv_take_nth_drop ac_simps)
qed

lemma refs_branch_extract:
  assumes "i < length ds"
  obtains S where "refs sha (BranchNode ds) = add_mset (Node_Hash sha (BranchNode ds)) (S + refs sha (ds ! i))"
    "\<And>r. refs sha (BranchNode (ds[i := r])) = add_mset (Node_Hash sha (BranchNode (ds[i := r]))) (S + refs sha r)"
proof -
  obtain S where "sum_list (map (refs sha) ds) = S + refs sha (ds ! i)"
    "\<And>r. sum_list ((map (refs sha) ds)[i := r]) = S + r"
    using sum_list_extract [of i "map (refs sha) ds"] assms by auto
  then show ?thesis by (intro that [of S]) (simp_all add: map_update)
qed

lemma sum_refs_NewBranchNode [simp]: "sum_list (map (refs sha) NewBranchNode) = {#}"
  by (simp add: NewBranchNode_def childrenCount_def eval_nat_numeral)

lemma sum_refs_pair:
  assumes "a < childrenCount" and "b < childrenCount" and "a \<noteq> b"
  shows "sum_list (map (refs sha) (NewBranchNode[a := x, b := y])) = refs sha x + refs sha y"
proof -
  obtain S where S: "sum_list (map (refs sha) NewBranchNode) = S + {#}"
    "\<And>r. sum_list ((map (refs sha) NewBranchNode)[a := r]) = S + r"
    using sum_list_extract [of a "map (refs sha) NewBranchNode"] assms by auto
  obtain R where R: "sum_list ((map (refs sha) NewBranchNode)[a := refs sha x]) = R + {#}"
    "\<And>r. sum_list ((map (refs sha) NewBranchNode)[a := refs sha x, b := r]) = R + r"
    using sum_list_extract [of b "(map (refs sha) NewBranchNode)[a := refs sha x]"] assms by auto
  from S R show ?thesis by (simp add: map_update)
qed

lemma expands_sub_node:
  "expands sha m st n p \<Longrightarrow> expands sha m st (sub_node path n) (sub_node path p)"
  by (simp add: sub_node_def expands_extension)

lemma refs_sub_node:
  "refs sha (sub_node path p) = (if path = [] then refs sha p
     else add_mset (Node_Hash sha (ExtensionNode path p)) (refs sha p))"
  by (simp add: sub_node_def)

lemma newSubTrie_old:
  assumes "expands sha m st n p"
  obtains t' where "newSubTrie sha path n False t = (sub_node path n, t')"
    "shifts t t' (refs sha p) (refs sha (sub_node path p))"
proof (cases "path = []")
  case True
  then show ?thesis using that [of t] by (simp add: newSubTrie_def sub_node_def)
next
  case False
  have "Node_Hash sha (ExtensionNode path n) = Node_Hash sha (ExtensionNode path p)"
    using assms expands_hash_eq expands_extension by blast
  then have "shifts t (addNode sha (ExtensionNode path n) t) (refs sha p)
      (add_mset (Node_Hash sha (ExtensionNode path p)) (refs sha p))"
    by (intro shifts_add) auto
  then show ?thesis using that False by (simp add: newSubTrie_def sub_node_def Let_def)
qed

lemma newSubTrie_new:
  obtains t' where "newSubTrie sha path (LeafNode v) True t = (sub_node path (LeafNode v), t')"
    "shifts t t' {#} (refs sha (sub_node path (LeafNode v)))"
proof -
  let ?t = "addNode sha (LeafNode v) t"
  have leaf: "shifts t ?t {#} (refs sha (LeafNode v))" using shifts_add [of t t "{#}" "{#}"] by auto
  obtain t' where "newSubTrie sha path (LeafNode v) False ?t = (sub_node path (LeafNode v), t')"
    "shifts ?t t' (refs sha (LeafNode v)) (refs sha (sub_node path (LeafNode v)))"
    using newSubTrie_old expands_leaf by metis
  moreover from this(1) have "newSubTrie sha path (LeafNode v) True t = (sub_node path (LeafNode v), t')"
    by (simp add: newSubTrie_def)
  ultimately show ?thesis using that leaf shifts_chain by blast
qed

section \<open>Maps that need no extension\<close>

text \<open>A well-formed node is a leaf or a branch exactly when its keys have no first nibble in common.\<close>

definition forks :: "(bytes \<rightharpoonup> bytes) \<Rightarrow> bool" where
  "forks M \<longleftrightarrow> dom M \<noteq> {} \<and> (\<nexists>k. \<forall>path \<in> dom M. path \<noteq> [] \<and> hd path = k)"

lemma forks_mono: "forks M \<Longrightarrow> dom M \<subseteq> dom N \<Longrightarrow> forks N"
  unfolding forks_def by blast

lemma solid_iff_forks: "wf_node p \<Longrightarrow> solid p \<longleftrightarrow> forks (lookup p)"
proof (cases p)
  case (LeafNode v)
  then show ?thesis by (auto simp: forks_def dom_def)
next
  case (ExtensionNode k n)
  assume "wf_node p"
  then have "\<forall>path \<in> dom (lookup p). path \<noteq> [] \<and> hd path = hd k"
    unfolding ExtensionNode dom_def using lookup_extension_Some [of k n] by auto
  then show ?thesis using ExtensionNode by (auto simp: forks_def)
next
  case (BranchNode cs)
  assume "wf_node p"
  then obtain a b v w where ab: "lookup p a = Some v" "lookup p b = Some w" "a \<noteq> []" "b = [] \<or> hd a \<noteq> hd b"
    using branch_two_keys BranchNode by metis
  then have "a \<in> dom (lookup p)" "b \<in> dom (lookup p)" by auto
  then show ?thesis using ab BranchNode unfolding forks_def by (metis empty_iff solid_simps(2))
qed (auto simp: forks_def dom_def)

lemma wf_extension_upd:
  assumes "wf_node (ExtensionNode k p)" and "wf_node q" and "lookup q = (lookup p)(path \<mapsto> v)"
  shows "wf_node (ExtensionNode k q)"
proof -
  have "forks (lookup p)" using assms(1) solid_iff_forks [of p] by (simp add: wf_extension del: wf_node.simps)
  moreover have "dom (lookup p) \<subseteq> dom (lookup q)" using assms(3) by auto
  ultimately have "solid q" using assms(2) solid_iff_forks forks_mono by blast
  then show ?thesis using assms(1,2) by (simp add: wf_extension del: wf_node.simps)
qed

lemma wf_value_upd:
  assumes "wf_node (BranchNode ds)" and "wf_node q" and "lookup q = (lookup (ds ! lastChild))([] \<mapsto> v)"
  shows "q = LeafNode v"
proof (rule wf_node_unique)
  have "lookup (ds ! lastChild) path = None" if "path \<noteq> []" for path
    using wf_branch_last [OF assms(1)] that by (metis lookup.simps(1) lookup.simps(2))
  then show "lookup q = lookup (LeafNode v)" by (auto simp: assms(3) fun_eq_iff)
qed (use assms in simp_all)

section \<open>Insertion\<close>

lemma putIntoEmpty_yields:
  assumes "nibbles path"
  shows "yields sha t {#} [path \<mapsto> v] (putIntoEmpty sha path (LeafNode v) t)"
proof -
  obtain t' where "newSubTrie sha path (LeafNode v) True t = (sub_node path (LeafNode v), t')"
    "shifts t t' {#} (refs sha (sub_node path (LeafNode v)))" by (rule newSubTrie_new)
  then show ?thesis
    using assms by (intro yieldsI [where p' = "sub_node path (LeafNode v)"])
      (auto simp: putIntoEmpty_def lookup_sub_leaf intro: expands_sub_node expands_leaf wf_sub_node settled_sub_node)
qed

lemma putIntoLeaf_yields:
  assumes "nibbles path"
  shows "yields sha t (refs sha (LeafNode w)) ((lookup (LeafNode w))(path \<mapsto> v))
    (putIntoLeaf sha (LeafNode w) path (LeafNode v) t)"
proof (cases path)
  case Nil
  have "shifts t (addNode sha (LeafNode v) (removeNode sha (LeafNode w) t))
      (refs sha (LeafNode w)) (refs sha (LeafNode v))"
    using shifts_add [OF shifts_remove [of t t "{#}" "{#}"]] by auto
  moreover have "lookup (LeafNode v) = (lookup (LeafNode w))([] \<mapsto> v)" by (auto intro!: ext)
  ultimately show ?thesis using Nil
    by (intro yieldsI [where p' = "LeafNode v"]) (auto simp: putIntoLeaf_def expands_leaf)
next
  case (Cons j rest)
  let ?s = "sub_node rest (LeafNode v)"
  let ?b = "BranchNode (NewBranchNode[unat j := ?s, lastChild := LeafNode w])"
  have j: "unat j < lastChild" "unat j < childrenCount" "lastChild < childrenCount"
    using assms Cons by (simp_all add: mpt_limits)
  obtain t' where t': "newSubTrie sha rest (LeafNode v) True t = (?s, t')" "shifts t t' {#} (refs sha ?s)"
    by (rule newSubTrie_new)
  have wf: "wf_node ?b"
    using j assms Cons by (intro wf_branch_pair) (auto simp: wf_sub_node sub_node_def)
  have "?b = BranchNode ((NewBranchNode[lastChild := LeafNode w])[unat j := ?s])"
    using j by (simp add: list_update_swap)
  moreover have "lookup (BranchNode ((NewBranchNode[lastChild := LeafNode w])[unat j := ?s])) =
      (lookup (BranchNode (NewBranchNode[lastChild := LeafNode w])))(path \<mapsto> v)"
    using assms Cons j
    by (intro lookup_branch_upd [where rest = rest]) (auto simp: splitPath_def lookup_sub_leaf intro!: ext)
  ultimately have map: "lookup ?b = (lookup (LeafNode w))(path \<mapsto> v)" by (simp add: lookup_value_child)
  have "shifts t (addNode sha ?b t') (refs sha (LeafNode w)) (refs sha ?b)"
    using shifts_add [OF shifts_frame [OF t'(2), of "refs sha (LeafNode w)"], of sha ?b] j
    by (simp add: sum_refs_pair)
  then show ?thesis using t' j wf map Cons expands_pure [OF wf]
    by (intro yieldsI [where p' = ?b]) (auto simp: putIntoLeaf_def Let_def)
qed

lemma putIntoBranch_yields:
  assumes exp: "list_all2 (expands sha (tr_mode t) (tr_store t)) cs ds" and wf: "wf_node (BranchNode ds)"
    and nib: "nibbles path" and sp: "splitPath path = (i, rest)"
    and sub: "\<And>t1. tr_mode t1 = tr_mode t \<Longrightarrow> tr_store t1 = tr_store t \<Longrightarrow>
      yields sha t1 (refs sha (ds ! i)) ((lookup (ds ! i))(rest \<mapsto> v)) (put (cs ! i) rest (LeafNode v) t1)"
  shows "yields sha t (refs sha (BranchNode ds)) ((lookup (BranchNode ds))(path \<mapsto> v))
    (putIntoBranch sha put cs path (LeafNode v) t)"
proof -
  let ?t1 = "removeNode sha (BranchNode cs) t"
  have i: "i < childrenCount" and len: "length ds = childrenCount" "length cs = childrenCount"
    using splitPath_nibbles [OF nib sp] wf list_all2_lengthD [OF exp] by simp_all
  obtain n' p' t2 where r: "put (cs ! i) rest (LeafNode v) ?t1 = (Inr n', t2)"
    "expands sha (tr_mode t) (tr_store t) n' p'" "wf_node p'"
    "lookup p' = (lookup (ds ! i))(rest \<mapsto> v)" "shifts ?t1 t2 (refs sha (ds ! i)) (refs sha p')"
    using sub [of ?t1] by (auto elim: yieldsE)
  let ?b = "BranchNode (cs[i := n'])" and ?p = "BranchNode (ds[i := p'])"
  have last: "\<exists>w. p' = LeafNode w" if "i = lastChild"
    using wf_value_upd [OF wf r(3)] r(4) that splitPath_nibbles [OF nib sp] by auto
  have "p' \<noteq> EmptyNode" using r(4) by (metis fun_upd_same lookup.simps(1) option.distinct(1))
  then have wf': "wf_node ?p" using wf_branch_put [OF wf i r(3)] last by blast
  have map: "lookup ?p = (lookup (BranchNode ds))(path \<mapsto> v)"
    by (rule lookup_branch_upd [OF len(1) nib sp r(4)])
  have exp': "expands sha (tr_mode t) (tr_store t) ?b ?p" using expands_update [OF exp r(2)] .
  obtain S where S: "refs sha (BranchNode ds) = add_mset (Node_Hash sha (BranchNode ds)) (S + refs sha (ds ! i))"
    "refs sha ?p = add_mset (Node_Hash sha ?p) (S + refs sha p')"
    using refs_branch_extract i len by metis
  have old: "Node_Hash sha (BranchNode cs) = Node_Hash sha (BranchNode ds)"
    using expands_hash_eq [OF expands_branch [OF exp]] by blast
  have "shifts t ?t1 (refs sha (BranchNode ds)) (refs sha (ds ! i) + S)"
    using shifts_remove [OF shifts_refl old] unfolding S(1) by (simp add: add.commute)
  then have "shifts t t2 (refs sha (BranchNode ds)) (refs sha p' + S)"
    using shifts_chain shifts_frame [OF r(5)] by blast
  then have "shifts t (addNode sha ?b t2) (refs sha (BranchNode ds)) (refs sha ?p)"
    using shifts_add expands_hash_eq [OF exp'] unfolding S(2) by (metis add.commute)
  then show ?thesis using r(1) sp i len wf' map exp'
    by (intro yieldsI [where p' = ?p]) (auto simp: putIntoBranch_def Let_def)
qed

lemma putIntoExtension_inside_yields:
  assumes exp: "expands sha (tr_mode t) (tr_store t) nxt p" and wf: "wf_node (ExtensionNode key p)"
    and pre: "path = key @ rest"
    and sub: "\<And>t1. tr_mode t1 = tr_mode t \<Longrightarrow> tr_store t1 = tr_store t \<Longrightarrow>
      yields sha t1 (refs sha p) ((lookup p)(rest \<mapsto> v)) (put nxt rest (LeafNode v) t1)"
  shows "yields sha t (refs sha (ExtensionNode key p)) ((lookup (ExtensionNode key p))(path \<mapsto> v))
    (putIntoExtension sha put key nxt path (LeafNode v) t)"
proof -
  let ?t1 = "removeNode sha (ExtensionNode key nxt) t"
  obtain n' p' t2 where r: "put nxt rest (LeafNode v) ?t1 = (Inr n', t2)"
    "expands sha (tr_mode t) (tr_store t) n' p'" "wf_node p'"
    "lookup p' = (lookup p)(rest \<mapsto> v)" "shifts ?t1 t2 (refs sha p) (refs sha p')"
    using sub [of ?t1] by (auto elim: yieldsE)
  let ?e = "ExtensionNode key n'" and ?p = "ExtensionNode key p'"
  have wf': "wf_node ?p" using wf_extension_upd wf r(3,4) by blast
  have map: "lookup ?p = (lookup (ExtensionNode key p))(path \<mapsto> v)"
    using lookup_extension_upd [OF r(4)] pre by simp
  have exp': "expands sha (tr_mode t) (tr_store t) ?e ?p" using r(2) by (rule expands_extension)
  have "Node_Hash sha (ExtensionNode key nxt) = Node_Hash sha (ExtensionNode key p)"
    using expands_hash_eq [OF expands_extension [OF exp]] by blast
  then have "shifts t ?t1 (refs sha (ExtensionNode key p)) (refs sha p)"
    using shifts_remove [OF shifts_refl] by simp
  then have "shifts t (addNode sha ?e t2) (refs sha (ExtensionNode key p)) (refs sha ?p)"
    using shifts_add [OF shifts_chain [OF _ r(5)]] expands_hash_eq [OF exp'] by (simp del: refs.simps add: refs.simps(3) [of sha key p'])
  then show ?thesis using r(1) pre wf' map exp'
    by (intro yieldsI [where p' = ?p]) (auto simp: putIntoExtension_def Let_def has_prefix_iff)
qed

text \<open>The extension is split where the path leaves its key.\<close>

lemma lookup_split:
  assumes kt: "kt \<noteq> []" "nibbles kt" and pt: "nibbles pt" "pt = [] \<or> hd kt \<noteq> hd pt"
    and sp: "splitPath pt = (i, rest)"
  shows "lookup (BranchNode (NewBranchNode[unat (hd kt) := sub_node (tl kt) p, i := sub_node rest (LeafNode v)])) =
      (lookup (ExtensionNode kt p))(pt \<mapsto> v)"
    and "unat (hd kt) \<noteq> i" and "unat (hd kt) < lastChild" and "i = lastChild \<Longrightarrow> rest = []"
proof -
  have a: "unat (hd kt) < lastChild" using kt by (cases kt) (auto simp: mpt_limits)
  note spl = splitPath_nibbles [OF pt(1) sp]
  have ai: "unat (hd kt) \<noteq> i" using a spl pt(2) sp
    by (cases pt) (auto simp: splitPath_def word_unat_eq_iff)
  let ?ds = "NewBranchNode[unat (hd kt) := sub_node (tl kt) p]"
  have "lookup (BranchNode (?ds[i := sub_node rest (LeafNode v)])) = (lookup (BranchNode ?ds))(pt \<mapsto> v)"
    using ai spl(1) by (intro lookup_branch_upd [OF _ pt(1) sp]) (auto simp: lookup_sub_leaf fun_eq_iff)
  moreover have "lookup (BranchNode ?ds) = lookup (ExtensionNode kt p)"
    using lookup_single_child [OF a] lookup_extension_sub kt(1) by (metis list.collapse)
  ultimately show "lookup (BranchNode (?ds[i := sub_node rest (LeafNode v)])) = (lookup (ExtensionNode kt p))(pt \<mapsto> v)"
    by simp
  show "unat (hd kt) \<noteq> i" "unat (hd kt) < lastChild" by (fact ai, fact a)
  show "rest = []" if "i = lastChild" using that spl by blast
qed

lemma lookup_sub_upd:
  assumes "lookup q = (lookup p)(path := x)"
  shows "lookup (sub_node pre q) = (lookup (sub_node pre p))(pre @ path := x)"
  using assms lookup_extension_upd by (simp add: sub_node_def)

lemma lookup_sub_extension: "lookup (sub_node pre (ExtensionNode k n)) = lookup (ExtensionNode (pre @ k) n)"
  by (rule ext) (auto simp: lookup_sub_node has_prefix_iff)

lemma putIntoExtension_split_yields:
  assumes exp: "expands sha (tr_mode t) (tr_store t) nxt p" and wf: "wf_node (ExtensionNode key p)"
    and nib: "nibbles path" and out: "\<not> has_prefix path key"
  shows "yields sha t (refs sha (ExtensionNode key p)) ((lookup (ExtensionNode key p))(path \<mapsto> v))
    (putIntoExtension sha put key nxt path (LeafNode v) t)"
proof -
  define pre kt pt where "pre = lcp key path" and "kt = drop (length pre) key" and "pt = drop (length pre) path"
  have parts: "key = pre @ kt" "path = pre @ pt" "kt = [] \<or> pt = [] \<or> hd kt \<noteq> hd pt"
    using lcp_prefixes [of key path] unfolding pre_def kt_def pt_def
    by (metis append_eq_conv_conj)+
  have kt: "kt \<noteq> []" "nibbles kt" "nibbles pre" "nibbles pt"
    using out parts nib wf by (auto simp: has_prefix_iff wf_extension simp del: wf_node.simps)
  obtain i rest where sp: "splitPath pt = (i, rest)" by fastforce
  note spl = splitPath_nibbles [OF kt(4) sp]
  note new = lookup_split [OF kt(1,2,4) _ sp]
  have fork: "pt = [] \<or> hd kt \<noteq> hd pt" using parts(3) kt(1) by blast
  let ?a = "unat (hd kt)"
  have a: "?a < lastChild" "?a < childrenCount" "?a \<noteq> i" using new(2,3) [OF fork] by (simp_all add: mpt_limits)
  let ?t1 = "removeNode sha (ExtensionNode key nxt) t"
  let ?n1 = "sub_node (tl kt) nxt" and ?p1 = "sub_node (tl kt) p" and ?p2 = "sub_node rest (LeafNode v)"
  let ?b = "BranchNode (NewBranchNode[?a := ?n1, i := ?p2])" and ?q = "BranchNode (NewBranchNode[?a := ?p1, i := ?p2])"
  obtain t2 where t2: "newSubTrie sha (tl kt) nxt False ?t1 = (?n1, t2)" "shifts ?t1 t2 (refs sha p) (refs sha ?p1)"
    using newSubTrie_old [OF exp] by metis
  obtain t3 where t3: "newSubTrie sha rest (LeafNode v) True t2 = (?p2, t3)" "shifts t2 t3 {#} (refs sha ?p2)"
    by (rule newSubTrie_new)
  have wfp: "wf_node ?p1" "?p1 \<noteq> EmptyNode"
    using wf kt by (cases kt; auto simp: wf_extension wf_sub_node sub_node_def simp del: wf_node.simps)+
  have "wf_node ?q"
    using a spl wfp new(4) [OF fork] by (intro wf_branch_pair) (auto simp: wf_sub_node sub_node_def)
  then have wf': "wf_node (sub_node pre ?q)" using kt(3) by (intro wf_sub_node) auto
  have map: "lookup (sub_node pre ?q) = (lookup (ExtensionNode key p))(path \<mapsto> v)"
    using lookup_sub_upd [OF new(1) [OF fork]] parts(1,2) by (simp add: lookup_sub_extension)
  have "list_all2 (expands sha (tr_mode t) (tr_store t)) (NewBranchNode[?a := ?n1, i := ?p2]) (NewBranchNode[?a := ?p1, i := ?p2])"
    using exp by (intro list_all2_update_cong)
      (auto intro: expands_sub_node expands_leaf expands_empty simp: NewBranchNode_def list_all2_conv_all_nth)
  then have expb: "expands sha (tr_mode t) (tr_store t) ?b ?q" by (rule expands_branch)
  then have exp': "expands sha (tr_mode t) (tr_store t) (sub_node pre ?b) (sub_node pre ?q)" by (rule expands_sub_node)
  have "Node_Hash sha (ExtensionNode key nxt) = Node_Hash sha (ExtensionNode key p)"
    using expands_hash_eq [OF expands_extension [OF exp]] by blast
  then have "shifts t ?t1 (refs sha (ExtensionNode key p)) (refs sha p)"
    using shifts_remove [OF shifts_refl] by simp
  then have "shifts t t3 (refs sha (ExtensionNode key p)) (refs sha ?p1 + refs sha ?p2)"
    using shifts_trans [OF shifts_chain [OF _ t2(2)] t3(2)] by simp
  then have tb: "shifts t (addNode sha ?b t3) (refs sha (ExtensionNode key p)) (refs sha ?q)"
    using shifts_add expands_hash_eq [OF expb] sum_refs_pair a spl(1) by (simp add: sum_refs_pair)
  obtain t4 where t4: "newSubTrie sha pre ?b False (addNode sha ?b t3) = (sub_node pre ?b, t4)"
    "shifts (addNode sha ?b t3) t4 (refs sha ?q) (refs sha (sub_node pre ?q))"
    using newSubTrie_old [OF expb] by metis
  have "putIntoExtension sha put key nxt path (LeafNode v) t = (Inr (sub_node pre ?b), t4)"
    using out t2(1) t3(1) t4(1) sp a spl(1)
    by (auto simp: putIntoExtension_def Let_def newSubTrie_def sub_node_def pre_def [symmetric]
        kt_def [symmetric] pt_def [symmetric])
  then show ?thesis using exp' wf' map shifts_chain [OF tb t4(2)] by (rule yieldsI) (simp add: settled_sub_node)
qed

lemma putIntoNode_yields:
  assumes "expands sha m st n p" and "wf_node p" and "tr_mode t = m" and "tr_store t = st"
    and "nibbles path" and "fuel_for n p path \<le> fuel"
  shows "yields sha t (refs sha p) ((lookup p)(path \<mapsto> v)) (putIntoNode sha fuel n path (LeafNode v) t)"
  using assms
proof (induction arbitrary: path fuel t rule: expands.induct)
  case expands_empty
  then obtain f where "fuel = Suc f" by (cases fuel) (auto simp: fuel_for_def)
  then show ?case using putIntoEmpty_yields [OF expands_empty(4)] by (simp add: fun_upd_def)
next
  case (expands_leaf w)
  then obtain f where "fuel = Suc f" by (cases fuel) (auto simp: fuel_for_def)
  then show ?case using putIntoLeaf_yields [OF expands_leaf(4)] by (simp only: putIntoNode.simps node.case)
next
  case (expands_extension n p k)
  then obtain f where f: "fuel = Suc f" by (cases fuel) (auto simp: fuel_for_def)
  show ?case
  proof (cases "has_prefix path k")
    case True
    let ?rest = "drop (length k) path"
    have "wf_node p" "nibbles ?rest" "fuel_for n p ?rest \<le> f"
      using expands_extension.prems f fuel_for_next True by auto
    then have "yields sha t1 (refs sha p) ((lookup p)(?rest \<mapsto> v)) (putIntoNode sha f n ?rest (LeafNode v) t1)"
      if "tr_mode t1 = tr_mode t" "tr_store t1 = tr_store t" for t1
      using expands_extension.IH expands_extension.prems that by (simp del: fun_upd_apply lookup.simps)
    then show ?thesis
      using putIntoExtension_inside_yields [of sha t n p k path ?rest v "putIntoNode sha f"]
        expands_extension f True by (simp add: has_prefix_drop del: fun_upd_apply lookup.simps)
  next
    case False
    then show ?thesis using putIntoExtension_split_yields expands_extension f by (simp del: fun_upd_apply lookup.simps)
  qed
next
  case (expands_branch cs ds)
  then obtain f where f: "fuel = Suc f" by (cases fuel) (auto simp: fuel_for_def)
  obtain i rest where sp: "splitPath path = (i, rest)" by fastforce
  have i: "i < length cs" "i < childrenCount" "nibbles rest"
    using expands_branch.prems list_all2_lengthD [OF expands_branch.IH] splitPath_nibbles [OF _ sp] by auto
  have exp: "list_all2 (expands sha (tr_mode t) (tr_store t)) cs ds"
    using expands_branch by (auto elim: list_all2_mono)
  have "wf_node (ds ! i)" "fuel_for (cs ! i) (ds ! i) rest \<le> f"
    using wf_branch_children fuel_for_child expands_branch.prems i sp f by blast+
  then have "yields sha t1 (refs sha (ds ! i)) ((lookup (ds ! i))(rest \<mapsto> v))
      (putIntoNode sha f (cs ! i) rest (LeafNode v) t1)"
    if "tr_mode t1 = tr_mode t" "tr_store t1 = tr_store t" for t1
    using list_all2_nthD [OF expands_branch.IH i(1)] expands_branch.prems that i by (simp del: fun_upd_apply lookup.simps)
  then show ?case
    using putIntoBranch_yields [OF exp _ _ sp] expands_branch.prems f by (simp del: fun_upd_apply lookup.simps)
next
  case (expands_hash h n p)
  then obtain f where f: "fuel = Suc f" by (cases fuel) (auto simp: fuel_for_def)
  obtain t1 where t1: "Trie_getFromStore h t = (Inr n, t1)" "shifts t t1 {#} {#}"
    using Trie_getFromStore_stored expands_hash.hyps(1) expands_hash.prems(2,3) by metis
  have "tr_mode t1 = m" "tr_store t1 = st" "fuel_for n p path \<le> f"
    using shifts_env t1(2) expands_hash fuel_for_hash f by metis+
  then have "yields sha t1 (refs sha p) ((lookup p)(path \<mapsto> v)) (putIntoNode sha f n path (LeafNode v) t1)"
    using expands_hash by (simp del: fun_upd_apply lookup.simps)
  moreover have "shifts t t1 (refs sha p) (refs sha p)" using shifts_frame [OF t1(2), of "refs sha p"] by simp
  ultimately show ?case using f t1(1) yields_after by (simp add: putIntoHash_def del: fun_upd_apply lookup.simps)
qed

end
