(* ===== verification/Mpt_Delete.thy ===== *)
theory Mpt_Delete
  imports Mpt_Update
begin

text \<open>
  Deletion refines the removal of a key from the map a trie stands for. The facts about joining an
  extension with the node below it and about branches left with one child serve the
  batch update as well.
\<close>

section \<open>Joining an extension with the node below it\<close>

definition merged :: "bytes \<Rightarrow> node \<Rightarrow> node" where
  "merged key p = (case p of
     ExtensionNode k n \<Rightarrow> ExtensionNode (key @ k) n | EmptyNode \<Rightarrow> EmptyNode | _ \<Rightarrow> sub_node key p)"

lemma lookup_merged: "lookup (merged key p) = lookup (sub_node key p)"
proof (cases p)
  case (ExtensionNode k n)
  then show ?thesis using lookup_sub_extension [of key k n] by (simp add: merged_def)
qed (auto simp: merged_def fun_eq_iff lookup_sub_node)

lemma wf_merged: "wf_node p \<Longrightarrow> nibbles key \<Longrightarrow> wf_node (merged key p)"
proof (cases p)
  case (BranchNode cs)
  then show "wf_node p \<Longrightarrow> nibbles key \<Longrightarrow> ?thesis" by (simp add: merged_def wf_sub_node del: wf_node.simps)
qed (auto simp: merged_def wf_sub_node)

lemma refs_merged_extension:
  assumes "expands sha m st n p" and "shifts t t' A (refs sha (ExtensionNode k p))"
  shows "shifts t (addNode sha (ExtensionNode (key @ k) n) (removeNode sha (ExtensionNode k n) t'))
    A (refs sha (ExtensionNode (key @ k) p))"
proof -
  have h: "Node_Hash sha (ExtensionNode k n) = Node_Hash sha (ExtensionNode k p)"
    "Node_Hash sha (ExtensionNode (key @ k) n) = Node_Hash sha (ExtensionNode (key @ k) p)"
    using expands_hash_eq [OF expands_extension [OF assms(1)]] by blast+
  have "shifts t' (removeNode sha (ExtensionNode k n) t') (refs sha (ExtensionNode k p)) (refs sha p)"
    using shifts_remove [OF shifts_refl h(1)] by simp
  from shifts_add [OF shifts_chain [OF assms(2) this] h(2)] show ?thesis by simp
qed

lemma join_yields:
  assumes exp: "expands sha (tr_mode t) (tr_store t) c q" and wf: "wf_node q" "q \<noteq> EmptyNode" "settled c q"
    and key: "key \<noteq> []" "nibbles key"
  shows "yields sha t (refs sha q) (lookup (ExtensionNode key q))
    (case c of
       ExtensionNode k n \<Rightarrow> (Inr (ExtensionNode (key @ k) n), addNode sha (ExtensionNode (key @ k) n) (removeNode sha c t))
     | _ \<Rightarrow> (Inr (ExtensionNode key c), addNode sha (ExtensionNode key c) t))"
proof (cases "\<exists>k n. c = ExtensionNode k n")
  case True
  then obtain k n p where c: "c = ExtensionNode k n" "q = ExtensionNode k p"
    "expands sha (tr_mode t) (tr_store t) n p" using exp by auto
  let ?p = "ExtensionNode (key @ k) p"
  have "shifts t (addNode sha (ExtensionNode (key @ k) n) (removeNode sha c t)) (refs sha q) (refs sha ?p)"
    using refs_merged_extension [OF c(3)] c by blast
  moreover have "wf_node ?p" using wf_merged [OF wf(1) key(2)] c by (simp add: merged_def)
  moreover have "lookup ?p = lookup (ExtensionNode key q)"
    using lookup_merged [of key q] c key by (simp add: merged_def sub_node_def)
  ultimately show ?thesis using c
    by (intro yieldsI [where p' = ?p]) (auto intro: expands_extension simp del: refs.simps lookup.simps wf_node.simps)
next
  case False
  let ?p = "ExtensionNode key q"
  have "solid q" using wf False exp by (cases c) (auto simp: settled_def)
  then have "wf_node ?p" using wf key by (simp add: wf_extension del: wf_node.simps)
  moreover have exp': "expands sha (tr_mode t) (tr_store t) (ExtensionNode key c) ?p"
    using exp by (rule expands_extension)
  moreover have "shifts t (addNode sha (ExtensionNode key c) t) (refs sha q) (refs sha ?p)"
    using shifts_add [OF shifts_refl] expands_hash_eq [OF exp'] by simp
  ultimately show ?thesis using False
    by (intro yieldsI [where p' = ?p]) (auto split: node.splits simp del: refs.simps lookup.simps wf_node.simps)
qed

section \<open>Branches with one child left\<close>

lemma count_children_upto:
  "foldl (\<lambda>(count, index) i. if isEmpty (cs ! i) then (count, index) else (count + 1, i)) (0, 0) [0..<k] =
     (card {i. i < k \<and> cs ! i \<noteq> EmptyNode},
      if \<exists>i < k. cs ! i \<noteq> EmptyNode then Max {i. i < k \<and> cs ! i \<noteq> EmptyNode} else 0)"
proof (induction k)
  case (Suc k)
  let ?S = "\<lambda>k. {i. i < k \<and> cs ! i \<noteq> EmptyNode}"
  show ?case
  proof (cases "cs ! k = EmptyNode")
    case True
    then have "?S (Suc k) = ?S k" by (auto simp: less_Suc_eq)
    then show ?thesis using Suc True by (auto simp: less_Suc_eq)
  next
    case False
    then have "?S (Suc k) = insert k (?S k)" by (auto simp: less_Suc_eq)
    moreover have "Max (insert k (?S k)) = k" by (rule Max_eqI) auto
    ultimately show ?thesis using Suc False by auto
  qed
qed simp

lemma count_children_eq:
  assumes "count_children cs = (c, idx)"
  shows "c = length (filter (\<lambda>x. x \<noteq> EmptyNode) cs)"
    and "c = 1 \<Longrightarrow> idx < length cs \<and> cs ! idx \<noteq> EmptyNode \<and> (\<forall>j < length cs. j \<noteq> idx \<longrightarrow> cs ! j = EmptyNode)"
proof -
  let ?S = "{i. i < length cs \<and> cs ! i \<noteq> EmptyNode}"
  have c: "c = card ?S" "idx = (if \<exists>i < length cs. cs ! i \<noteq> EmptyNode then Max ?S else 0)"
    using assms unfolding count_children_def count_children_upto by auto
  then show "c = length (filter (\<lambda>x. x \<noteq> EmptyNode) cs)" by (simp add: length_filter_conv_card)
  assume "c = 1"
  then obtain j where j: "?S = {j}" using c(1) by (metis card_1_singletonE)
  then have "\<exists>i < length cs. cs ! i \<noteq> EmptyNode" by blast
  then have "idx = j" using c(2) j by simp
  then show "idx < length cs \<and> cs ! idx \<noteq> EmptyNode \<and> (\<forall>j < length cs. j \<noteq> idx \<longrightarrow> cs ! j = EmptyNode)"
    using j by blast
qed

lemma count_children_expands:
  assumes "list_all2 (expands sha m st) cs ds"
  shows "count_children cs = count_children ds"
proof -
  have len: "length cs = length ds" using assms by (rule list_all2_lengthD)
  moreover have "isEmpty (cs ! i) = isEmpty (ds ! i)" if "i < length ds" for i
    using list_all2_nthD2 [OF assms that] expands_hash_eq by auto
  ultimately show ?thesis unfolding count_children_def
    by (intro foldl_cong) auto
qed

lemma only_child:
  assumes "length ds = childrenCount" and "count_children ds = (1, idx)"
  shows "ds = NewBranchNode[idx := ds ! idx]" and "idx < childrenCount" and "ds ! idx \<noteq> EmptyNode"
    and "sum_list (map (refs sha) ds) = refs sha (ds ! idx)"
proof -
  note one = count_children_eq(2) [OF assms(2) refl]
  show idx: "idx < childrenCount" "ds ! idx \<noteq> EmptyNode" using one assms(1) by auto
  show eq: "ds = NewBranchNode[idx := ds ! idx]"
    using one assms(1) by (intro nth_equalityI) (auto simp: nth_list_update)
  obtain S where "sum_list (map (refs sha) NewBranchNode) = S + {#}"
    "\<And>r. sum_list ((map (refs sha) NewBranchNode)[idx := r]) = S + r"
    using sum_list_extract [of idx "map (refs sha) NewBranchNode"] idx by auto
  then show "sum_list (map (refs sha) ds) = refs sha (ds ! idx)"
    by (subst eq) (simp add: map_update)
qed

lemma lookup_only_child:
  assumes "length ds = childrenCount" and "count_children ds = (1, idx)"
  shows "idx \<noteq> lastChild \<Longrightarrow> lookup (BranchNode ds) = lookup (ExtensionNode [word_of_nat idx] (ds ! idx))"
    and "ds ! lastChild = LeafNode w \<Longrightarrow> idx = lastChild \<Longrightarrow> lookup (BranchNode ds) = lookup (ds ! idx)"
    and "idx \<noteq> lastChild \<Longrightarrow> nibbles [word_of_nat idx]"
proof -
  note one = only_child [OF assms]
  have small: "idx < lastChild" if "idx \<noteq> lastChild" using that one(2) by (simp add: mpt_limits)
  have u: "unat (word_of_nat idx :: byte) = idx" if "idx \<noteq> lastChild"
    using small [OF that] by (simp add: unat_of_nat mpt_limits)
  show "lookup (BranchNode ds) = lookup (ExtensionNode [word_of_nat idx] (ds ! idx))" if "idx \<noteq> lastChild"
    using lookup_single_child [of "word_of_nat idx" "ds ! idx"] u [OF that] small [OF that] one(1) by simp
  show "lookup (BranchNode ds) = lookup (ds ! idx)" if "ds ! lastChild = LeafNode w" "idx = lastChild"
    using lookup_value_child [of w] one(1) that by metis
  show "nibbles [word_of_nat idx]" if "idx \<noteq> lastChild"
    using u [OF that] small [OF that] by (simp add: mpt_limits)
qed

section \<open>Updating one child of a branch\<close>

text \<open>The branch after one child has lost a key: all that is known of it before it is stripped.\<close>

lemma wf_value_del:
  assumes "wf_node (BranchNode ds)" and "wf_node q" and "lookup q = (lookup (ds ! lastChild))([] := None)"
  shows "q = EmptyNode"
proof (rule wf_node_unique)
  have "lookup (ds ! lastChild) path = None" if "path \<noteq> []" for path
    using wf_branch_last [OF assms(1)] that by (metis lookup.simps(1) lookup.simps(2))
  then show "lookup q = lookup EmptyNode" by (auto simp: assms(3) fun_eq_iff)
qed (use assms in simp_all)

lemma branch_del:
  assumes wf: "wf_node (BranchNode ds)" and nib: "nibbles path" and sp: "splitPath path = (i, rest)"
    and q: "wf_node q" "lookup q = (lookup (ds ! i))(rest := None)"
  shows "\<forall>c \<in> set (ds[i := q]). wf_node c"
    and "ds[i := q] ! lastChild = EmptyNode \<or> (\<exists>w. ds[i := q] ! lastChild = LeafNode w)"
    and "fst (count_children (ds[i := q])) \<noteq> 0"
proof -
  note spl = splitPath_nibbles [OF nib sp]
  have len: "length ds = childrenCount" using wf by simp
  show "\<forall>c \<in> set (ds[i := q]). wf_node c"
    using wf q(1) set_update_subset_insert [of ds i q] by auto
  have "q = EmptyNode" if "i = lastChild" using wf_value_del [OF wf q(1)] q(2) that spl by auto
  then show "ds[i := q] ! lastChild = EmptyNode \<or> (\<exists>w. ds[i := q] ! lastChild = LeafNode w)"
    using wf_branch_last [OF wf] len spl(1) by (metis nth_list_update_eq nth_list_update_neq)
  obtain a b where ab: "a < b" "b < length ds" "ds ! a \<noteq> EmptyNode" "ds ! b \<noteq> EmptyNode"
    using two_children [of "\<lambda>c. c \<noteq> EmptyNode" ds] wf by auto
  then obtain j where "j < length ds" "ds[i := q] ! j \<noteq> EmptyNode"
    by (metis nat_neq_iff nth_list_update_neq order_less_trans)
  then have "filter (\<lambda>c. c \<noteq> EmptyNode) (ds[i := q]) \<noteq> []"
    by (metis (mono_tags, lifting) filter_empty_conv length_list_update nth_mem)
  then show "fst (count_children (ds[i := q])) \<noteq> 0"
    using count_children_eq(1) by (metis length_0_conv prod.collapse)
qed

text \<open>Resolving the node in place of a hash node.\<close>

lemma resolve_child:
  assumes "expands sha (tr_mode t) (tr_store t) c q"
  obtains c' t' where "(case c of HashNode h \<Rightarrow> Trie_getFromStore h t | _ \<Rightarrow> (Inr c, t)) = (Inr c', t')"
    "expands sha (tr_mode t) (tr_store t) c' q" "settled c' q" "shifts t t' {#} {#}"
proof (cases "\<exists>h. c = HashNode h")
  case True
  then obtain h n where h: "c = HashNode h" "stored_node (tr_mode t) (tr_store t) h = Some n"
    "\<nexists>h'. n = HashNode h'" "expands sha (tr_mode t) (tr_store t) n q"
    using assms by (auto elim: expands_hashE)
  obtain t' where "Trie_getFromStore h t = (Inr n, t')" "shifts t t' {#} {#}"
    using Trie_getFromStore_stored [OF h(2)] by blast
  then show ?thesis using h that [of n t'] by (simp add: settled_def)
next
  case False
  then show ?thesis using that [of c t] assms by (cases c) (auto simp: settled_def)
qed

lemma deleteFromBranch_yields:
  assumes exp: "list_all2 (expands sha (tr_mode t) (tr_store t)) cs ds" and wf: "wf_node (BranchNode ds)"
    and nib: "nibbles path" and sp: "splitPath path = (i, rest)"
    and sub: "yields sha t (refs sha (ds ! i)) ((lookup (ds ! i))(rest := None)) (del (cs ! i) rest t)"
  shows "yields sha t (refs sha (BranchNode ds)) ((lookup (BranchNode ds))(path := None))
    (deleteFromBranch sha del cs path t)"
proof -
  have i: "i < childrenCount" and len: "length ds = childrenCount" "length cs = childrenCount"
    using splitPath_nibbles [OF nib sp] wf list_all2_lengthD [OF exp] by simp_all
  obtain n' p' t1 where r: "del (cs ! i) rest t = (Inr n', t1)"
    "expands sha (tr_mode t) (tr_store t) n' p'" "wf_node p'"
    "lookup p' = (lookup (ds ! i))(rest := None)" "shifts t t1 (refs sha (ds ! i)) (refs sha p')"
    using sub by (auto elim: yieldsE)
  let ?t2 = "removeNode sha (BranchNode cs) t1" and ?cs = "cs[i := n']" and ?ds = "ds[i := p']"
  note new = branch_del [OF wf nib sp r(3,4)]
  have map: "lookup (BranchNode ?ds) = (lookup (BranchNode ds))(path := None)"
    by (rule lookup_branch_upd [OF len(1) nib sp r(4)])
  have exps: "list_all2 (expands sha (tr_mode t) (tr_store t)) ?cs ?ds"
    using exp r(2) by (rule list_all2_update_cong)
  then have exp': "expands sha (tr_mode t) (tr_store t) (BranchNode ?cs) (BranchNode ?ds)" by (rule expands_branch)
  obtain S where S: "refs sha (BranchNode ds) = add_mset (Node_Hash sha (BranchNode ds)) (S + refs sha (ds ! i))"
    "refs sha (BranchNode ?ds) = add_mset (Node_Hash sha (BranchNode ?ds)) (S + refs sha p')"
    using refs_branch_extract i len by metis
  have old: "Node_Hash sha (BranchNode cs) = Node_Hash sha (BranchNode ds)"
    using expands_hash_eq [OF expands_branch [OF exp]] by blast
  have t2: "shifts t ?t2 (refs sha (BranchNode ds)) (sum_list (map (refs sha) ?ds))"
    using shifts_remove [OF shifts_frame [OF r(5), of S] old] S by (simp add: add.commute)
  obtain count idx where cnt: "count_children ?ds = (count, idx)" by fastforce
  then have cnt': "count_children ?cs = (count, idx)" using count_children_expands [OF exps] by simp
  have env: "tr_mode ?t2 = tr_mode t" "tr_store ?t2 = tr_store t" using shifts_env [OF t2] by simp_all
  show ?thesis
  proof (cases "count > 1")
    case True
    then have "wf_node (BranchNode ?ds)"
      using new(1,2) count_children_eq(1) [OF cnt] len by auto
    moreover have "shifts t (addNode sha (BranchNode ?cs) ?t2) (refs sha (BranchNode ds)) (refs sha (BranchNode ?ds))"
      using shifts_add [OF t2, of sha "BranchNode ?cs"] expands_hash_eq [OF exp'] by simp
    ultimately show ?thesis using True r(1) sp i len cnt' map exp'
      by (intro yieldsI [where p' = "BranchNode ?ds"]) (auto simp: deleteFromBranch_def Let_def)
  next
    case False
    then have c1: "count_children ?ds = (1, idx)" using new(3) cnt by (simp add: linorder_not_less le_Suc_eq)
    then have c1': "count_children ?cs = (1, idx)" using cnt cnt' by simp
    have len': "length ?ds = childrenCount" using len by simp
    note one = only_child(1-3) [OF len' c1] only_child(4) [OF len' c1, of sha]
    have wfi: "wf_node (?ds ! idx)" using new(1) one(2) len' by (metis nth_mem)
    have expi: "expands sha (tr_mode t) (tr_store t) (?cs ! idx) (?ds ! idx)"
      using list_all2_nthD2 [OF exps] one(2) len' by simp
    show ?thesis
    proof (cases "idx = lastChild")
      case True
      then obtain w where w: "?ds ! lastChild = LeafNode w" using new(2) one(3) by metis
      have "lookup (?ds ! idx) = (lookup (BranchNode ds))(path := None)"
        using lookup_only_child(2) [OF len' c1 w True] map by simp
      then show ?thesis using True r(1) sp i len c1' expi wfi t2 w one(4)
        by (intro yieldsI [where p' = "?ds ! idx"]) (auto simp: deleteFromBranch_def Let_def settled_def)
    next
      case False
      obtain c t3 where c: "(case ?cs ! idx of HashNode h \<Rightarrow> Trie_getFromStore h ?t2 | _ \<Rightarrow> (Inr (?cs ! idx), ?t2)) = (Inr c, t3)"
        "expands sha (tr_mode ?t2) (tr_store ?t2) c (?ds ! idx)" "settled c (?ds ! idx)" "shifts ?t2 t3 {#} {#}"
        using resolve_child [of sha ?t2] expi env by metis
      have t3: "shifts t t3 (refs sha (BranchNode ds)) (refs sha (?ds ! idx))"
        using shifts_chain [OF t2] shifts_frame [OF c(4), of "refs sha (?ds ! idx)"] one(4) by simp
      have "tr_mode t3 = tr_mode ?t2" "tr_store t3 = tr_store ?t2" using shifts_env [OF c(4)] by simp_all
      with c(2) have c2: "expands sha (tr_mode t3) (tr_store t3) c (?ds ! idx)" by simp
      note joined = yields_after [OF t3 join_yields [OF c2 wfi one(3) c(3) _ lookup_only_child(3) [OF len' c1 False], simplified]]
      have "lookup (ExtensionNode [word_of_nat idx] (?ds ! idx)) = (lookup (BranchNode ds))(path := None)"
        using lookup_only_child(1) [OF len' c1 False] map by simp
      moreover have "deleteFromBranch sha del cs path t =
        (case c of ExtensionNode k n \<Rightarrow> (Inr (ExtensionNode ([word_of_nat idx] @ k) n),
             addNode sha (ExtensionNode ([word_of_nat idx] @ k) n) (removeNode sha c t3))
         | _ \<Rightarrow> (Inr (ExtensionNode [word_of_nat idx] c), addNode sha (ExtensionNode [word_of_nat idx] c) t3))"
        using r(1) sp i len c1' c(1) False by (simp add: deleteFromBranch_def Let_def split: node.splits)
      ultimately show ?thesis using joined by simp
    qed
  qed
qed

lemma deleteFromExtension_yields:
  assumes exp: "expands sha (tr_mode t) (tr_store t) nxt p" and wf: "wf_node (ExtensionNode key p)"
    and pre: "path = key @ rest"
    and sub: "yields sha t (refs sha p) ((lookup p)(rest := None)) (del nxt rest t)"
  shows "yields sha t (refs sha (ExtensionNode key p)) ((lookup (ExtensionNode key p))(path := None))
    (deleteFromExtension sha del key nxt path t)"
proof -
  obtain n' p' t1 where r: "del nxt rest t = (Inr n', t1)"
    "expands sha (tr_mode t) (tr_store t) n' p'" "wf_node p'"
    "lookup p' = (lookup p)(rest := None)" "shifts t t1 (refs sha p) (refs sha p')" "settled n' p'"
    using sub by (auto elim: yieldsE)
  let ?t2 = "removeNode sha (ExtensionNode key nxt) t1"
  have "Node_Hash sha (ExtensionNode key nxt) = Node_Hash sha (ExtensionNode key p)"
    using expands_hash_eq [OF expands_extension [OF exp]] by blast
  then have t2: "shifts t ?t2 (refs sha (ExtensionNode key p)) (refs sha p')"
    using shifts_remove [OF r(5), of sha "ExtensionNode key nxt"] by simp
  then have env: "tr_mode ?t2 = tr_mode t" "tr_store ?t2 = tr_store t" using shifts_env by blast+
  have map: "lookup (ExtensionNode key p') = (lookup (ExtensionNode key p))(path := None)"
    using lookup_extension_upd [OF r(4)] pre by simp
  have run: "deleteFromExtension sha del key nxt path t =
     (case n' of
        EmptyNode \<Rightarrow> (Inr EmptyNode, ?t2)
      | ExtensionNode k n \<Rightarrow> (Inr (ExtensionNode (key @ k) n), addNode sha (ExtensionNode (key @ k) n) (removeNode sha n' ?t2))
      | _ \<Rightarrow> (Inr (ExtensionNode key n'), addNode sha (ExtensionNode key n') ?t2))"
    using r(1) pre by (simp add: deleteFromExtension_def Let_def has_prefix_iff split: node.splits)
  show ?thesis
  proof (cases "p' = EmptyNode")
    case True
    then have "n' = EmptyNode" using expands_hash_eq [OF r(2)] by simp
    moreover have "lookup EmptyNode = lookup (ExtensionNode key p')" using True by (auto simp: fun_eq_iff)
    ultimately show ?thesis using run map t2 True
      by (intro yieldsI [where p' = EmptyNode]) (auto simp del: lookup.simps intro: expands_empty)
  next
    case False
    then have ne: "n' \<noteq> EmptyNode" using expands_hash_eq [OF r(2)] by simp
    have key: "key \<noteq> []" "nibbles key" using wf by simp_all
    have "expands sha (tr_mode ?t2) (tr_store ?t2) n' p'" using r(2) env by simp
    from yields_after [OF t2 join_yields [OF this r(3) False r(6) key]] show ?thesis
      using run ne by (cases n') (simp_all add: map del: lookup.simps refs.simps)
  qed
qed

lemma lookup_delete_absent: "lookup p path = None \<Longrightarrow> (lookup p)(path := None) = lookup p"
  by (metis fun_upd_triv)

lemma deleteFromNode_yields:
  assumes "expands sha m st n p" and "wf_node p" and "tr_mode t = m" and "tr_store t = st"
    and "nibbles path" and "fuel_for n p path \<le> fuel"
  shows "yields sha t (refs sha p) ((lookup p)(path := None)) (deleteFromNode sha fuel n path t)"
  using assms
proof (induction arbitrary: path fuel t rule: expands.induct)
  case expands_empty
  then obtain f where "fuel = Suc f" by (cases fuel) (auto simp: fuel_for_def)
  then show ?case
    by (intro yieldsI [where p' = EmptyNode and t' = t]) (auto simp: fun_eq_iff intro: expands.expands_empty)
next
  case (expands_leaf w)
  then obtain f where f: "fuel = Suc f" by (cases fuel) (auto simp: fuel_for_def)
  show ?case
  proof (cases "path = []")
    case True
    have "shifts t (removeNode sha (LeafNode w) t) (refs sha (LeafNode w)) (refs sha EmptyNode)"
      using shifts_remove [OF shifts_refl, of sha "LeafNode w"] by simp
    then show ?thesis using f True
      by (intro yieldsI [where p' = EmptyNode]) (auto simp: fun_eq_iff intro: expands.expands_empty)
  next
    case False
    then show ?thesis using f
      by (intro yieldsI [where p' = "LeafNode w" and t' = t]) (auto simp: fun_eq_iff intro: expands.expands_leaf)
  qed
next
  case (expands_extension n p k)
  then obtain f where f: "fuel = Suc f" by (cases fuel) (auto simp: fuel_for_def)
  show ?case
  proof (cases "has_prefix path k")
    case True
    let ?rest = "drop (length k) path"
    have "wf_node p" "nibbles ?rest" "fuel_for n p ?rest \<le> f"
      using expands_extension.prems f fuel_for_next True by auto
    then have "yields sha t (refs sha p) ((lookup p)(?rest := None)) (deleteFromNode sha f n ?rest t)"
      using expands_extension.IH expands_extension.prems by (simp del: fun_upd_apply)
    then show ?thesis
      using deleteFromExtension_yields [of sha t n p k path ?rest "deleteFromNode sha f"]
        expands_extension f True by (simp add: has_prefix_drop del: fun_upd_apply lookup.simps)
  next
    case False
    then have "(lookup (ExtensionNode k p))(path := None) = lookup (ExtensionNode k p)"
      by (intro lookup_delete_absent) simp
    then show ?thesis using False f expands_extension
      by (intro yieldsI [where p' = "ExtensionNode k p" and t' = t])
        (auto simp: deleteFromExtension_def intro: expands.expands_extension simp del: lookup.simps)
  qed
next
  case (expands_branch cs ds)
  then obtain f where f: "fuel = Suc f" by (cases fuel) (auto simp: fuel_for_def)
  obtain i rest where sp: "splitPath path = (i, rest)" by fastforce
  have i: "i < length cs" "i < childrenCount" "nibbles rest"
    using expands_branch.prems list_all2_lengthD [OF expands_branch.IH] splitPath_nibbles [OF _ sp] by auto
  have exp: "list_all2 (expands sha (tr_mode t) (tr_store t)) cs ds"
    using expands_branch by (auto elim: list_all2_mono)
  have "wf_node (ds ! i)" "fuel_for (cs ! i) (ds ! i) rest \<le> f"
    using wf_branch_children fuel_for_child expands_branch.prems i sp f by blast+
  then have "yields sha t (refs sha (ds ! i)) ((lookup (ds ! i))(rest := None))
      (deleteFromNode sha f (cs ! i) rest t)"
    using list_all2_nthD [OF expands_branch.IH i(1)] expands_branch.prems i by (simp del: fun_upd_apply)
  then show ?case
    using deleteFromBranch_yields [OF exp _ _ sp] expands_branch.prems f by (simp del: fun_upd_apply)
next
  case (expands_hash h n p)
  then obtain f where f: "fuel = Suc f" by (cases fuel) (auto simp: fuel_for_def)
  obtain t1 where t1: "Trie_getFromStore h t = (Inr n, t1)" "shifts t t1 {#} {#}"
    using Trie_getFromStore_stored expands_hash.hyps(1) expands_hash.prems(2,3) by metis
  have "tr_mode t1 = m" "tr_store t1 = st" "fuel_for n p path \<le> f"
    using shifts_env t1(2) expands_hash fuel_for_hash f by metis+
  then have "yields sha t1 (refs sha p) ((lookup p)(path := None)) (deleteFromNode sha f n path t1)"
    using expands_hash by (simp del: fun_upd_apply)
  moreover have "shifts t t1 (refs sha p) (refs sha p)" using shifts_frame [OF t1(2), of "refs sha p"] by simp
  ultimately show ?case using f t1(1) yields_after by (simp del: fun_upd_apply)
qed

end
