(* ===== verification/Mpt_Api.thy ===== *)
theory Mpt_Api
  imports Mpt_Delete
begin

text \<open>
  The trie as its users see it: a map from byte keys to byte values with a root hash. The locale
  \<open>authenticated_map\<close> states what the state machinery above the trie relies on, its interpretation
  proves it for \<^verbatim>\<open>Get\<close>, \<^verbatim>\<open>Put\<close>, \<^verbatim>\<open>Delete\<close> and \<^verbatim>\<open>StateRoot\<close>, and the root hash is shown to depend on
  the map only and to commit to it.
\<close>

section \<open>Authenticated maps\<close>

datatype ('k, 'v) change = Change_Put 'k 'v | Change_Del 'k

fun changed :: "('k, 'v) change list \<Rightarrow> ('k \<rightharpoonup> 'v) \<Rightarrow> ('k \<rightharpoonup> 'v)" where
  "changed [] M = M"
| "changed (Change_Put k v # cs) M = changed cs (M(k \<mapsto> v))"
| "changed (Change_Del k # cs) M = changed cs (M(k := None))"

fun change_ok :: "('k \<Rightarrow> bool) \<Rightarrow> ('v \<Rightarrow> bool) \<Rightarrow> ('k, 'v) change \<Rightarrow> bool" where
  "change_ok key_ok val_ok (Change_Put k v) \<longleftrightarrow> key_ok k \<and> val_ok v"
| "change_ok key_ok val_ok (Change_Del k) \<longleftrightarrow> key_ok k"

fun run_changes ::
  "('k \<Rightarrow> 'v \<Rightarrow> 's \<Rightarrow> 's option) \<Rightarrow> ('k \<Rightarrow> 's \<Rightarrow> 's option) \<Rightarrow> ('k, 'v) change list \<Rightarrow> 's \<Rightarrow> 's option" where
  "run_changes put del [] s = Some s"
| "run_changes put del (Change_Put k v # cs) s = Option.bind (put k v s) (run_changes put del cs)"
| "run_changes put del (Change_Del k # cs) s = Option.bind (del k s) (run_changes put del cs)"

locale authenticated_map =
  fixes rep :: "('k \<rightharpoonup> 'v) \<Rightarrow> 's \<Rightarrow> bool"
    and key_ok :: "'k \<Rightarrow> bool"
    and val_ok :: "'v \<Rightarrow> bool"
    and get :: "'k \<Rightarrow> 's \<Rightarrow> 'v option \<times> 's"
    and put :: "'k \<Rightarrow> 'v \<Rightarrow> 's \<Rightarrow> 's option"
    and del :: "'k \<Rightarrow> 's \<Rightarrow> 's option"
    and root :: "'s \<Rightarrow> 'r"
  assumes get_rep: "rep M s \<Longrightarrow> key_ok k \<Longrightarrow> \<exists>s'. get k s = (M k, s') \<and> rep M s'"
    and put_rep: "rep M s \<Longrightarrow> key_ok k \<Longrightarrow> val_ok v \<Longrightarrow> \<exists>s'. put k v s = Some s' \<and> rep (M(k \<mapsto> v)) s'"
    and del_rep: "rep M s \<Longrightarrow> key_ok k \<Longrightarrow> \<exists>s'. del k s = Some s' \<and> rep (M(k := None)) s'"
    and root_rep: "rep M s \<Longrightarrow> rep M s' \<Longrightarrow> root s = root s'"
begin

lemma run_rep:
  "rep M s \<Longrightarrow> list_all (change_ok key_ok val_ok) cs \<Longrightarrow>
   \<exists>s'. run_changes put del cs s = Some s' \<and> rep (changed cs M) s'"
proof (induction cs M arbitrary: s rule: changed.induct)
  case (2 k v cs M)
  then obtain s1 where "put k v s = Some s1" "rep (M(k \<mapsto> v)) s1" using put_rep by fastforce
  then show ?case using 2 by (auto simp del: fun_upd_apply)
next
  case (3 k cs M)
  then obtain s1 where "del k s = Some s1" "rep (M(k := None)) s1" using del_rep by fastforce
  then show ?case using 3 by (auto simp del: fun_upd_apply)
qed auto

lemma get_after_run:
  assumes "rep M s" and "list_all (change_ok key_ok val_ok) cs" and "key_ok k"
  shows "\<exists>s' s''. run_changes put del cs s = Some s' \<and> get k s' = (changed cs M k, s'')"
  using run_rep [OF assms(1,2)] get_rep assms(3) by blast

lemma root_of_map:
  assumes "rep M s" and "rep M' s'"
    and "list_all (change_ok key_ok val_ok) cs" and "list_all (change_ok key_ok val_ok) cs'"
    and "changed cs M = changed cs' M'"
  shows "\<exists>a b. run_changes put del cs s = Some a \<and> run_changes put del cs' s' = Some b \<and> root a = root b"
  using run_rep [OF assms(1,3)] run_rep [OF assms(2,4)] root_rep assms(5) by metis

end

section \<open>The map of a trie\<close>

text \<open>The map of nibble paths that a map of byte keys becomes.\<close>

definition nib_map :: "(bytes \<rightharpoonup> bytes) \<Rightarrow> (bytes \<rightharpoonup> bytes)" where
  "nib_map M path = (if toNibbles (fromNibbles path) = path then M (fromNibbles path) else None)"

lemma nib_map_toNibbles [simp]: "nib_map M (toNibbles k) = M k"
  by (simp add: nib_map_def)

lemma nib_map_upd: "nib_map (M(k := x)) = (nib_map M)(toNibbles k := x)"
  by (auto simp: nib_map_def fun_eq_iff)

lemma nib_map_inject [simp]: "nib_map M = nib_map N \<longleftrightarrow> M = N"
  by (metis ext nib_map_toNibbles)

lemma nib_map_empty [simp]: "nib_map Map.empty = Map.empty"
  by (auto simp: nib_map_def)

text \<open>
  A trie holds \<open>M\<close>, and its counters are the difference between its nodes and the multiset \<open>B\<close>, the
  references that were there when the counters were last cleared.
\<close>

definition trie_rep :: "(bytes \<Rightarrow> uint256) \<Rightarrow> uint256 multiset \<Rightarrow> (bytes \<rightharpoonup> bytes) \<Rightarrow> trie \<Rightarrow> bool" where
  "trie_rep sha B M t \<longleftrightarrow>
     (\<exists>p. expands sha (tr_mode t) (tr_store t) (tr_root t) p \<and> wf_node p \<and> lookup p = nib_map M \<and>
        (\<forall>h. refcount_of t h + of_nat (count B h) = of_nat (count (refs sha p) h)))"

definition trie_fuel :: "bytes \<Rightarrow> nat" where
  "trie_fuel key = 4 * length key + 4"

lemma fuel_enough: "trie_fuel key \<le> fuel \<Longrightarrow> fuel_for n p (toNibbles key) \<le> fuel"
  using fuel_for_le [of n p "toNibbles key"] by (simp add: trie_fuel_def)

lemma trie_rep_NewTrie: "trie_rep sha {#} Map.empty (NewTrie EmptyNode m st)"
  unfolding trie_rep_def
  by (rule exI [of _ EmptyNode]) (auto simp: NewTrie_def refcount_of_def fun_eq_iff intro: expands_empty)

lemma trie_rep_shifts:
  assumes "\<forall>h. refcount_of t h + of_nat (count B h) = of_nat (count (refs sha p) h)"
    and "shifts t t' (refs sha p) C"
  shows "refcount_of t' h + of_nat (count B h) = of_nat (count C h)"
proof -
  have "refcount_of t' h + of_nat (count (refs sha p) h) + of_nat (count B h) =
      (refcount_of t h + of_nat (count B h)) + of_nat (count C h)"
    using assms(2) by (simp add: shifts_def add.commute add.left_commute)
  then show ?thesis using assms(1) by (simp add: ac_simps)
qed

lemma trie_rep_yields:
  assumes rep: "expands sha (tr_mode t) (tr_store t) (tr_root t) p"
      "\<forall>h. refcount_of t h + of_nat (count B h) = of_nat (count (refs sha p) h)"
    and y: "yields sha t (refs sha p) (nib_map N) res"
  obtains n t' where "res = (Inr n, t')" "trie_rep sha B N (t'\<lparr>tr_root := n\<rparr>)"
    "tr_mode t' = tr_mode t" "tr_store t' = tr_store t"
proof -
  obtain n' p' t' where r: "res = (Inr n', t')" "expands sha (tr_mode t) (tr_store t) n' p'" "wf_node p'"
    "lookup p' = nib_map N" "shifts t t' (refs sha p) (refs sha p')" using y by (rule yieldsE)
  have env: "tr_mode t' = tr_mode t" "tr_store t' = tr_store t" using shifts_env [OF r(5)] by simp_all
  have "trie_rep sha B N (t'\<lparr>tr_root := n'\<rparr>)"
    unfolding trie_rep_def using r trie_rep_shifts [OF rep(2) r(5)] env
    by (intro exI [of _ p']) (simp add: refcount_of_def)
  then show ?thesis using that r(1) env by blast
qed

section \<open>Get, Put and Delete\<close>

lemma Trie_Get_rep:
  assumes "trie_rep sha B M t" and "length key \<le> MaxKeyLength" and "trie_fuel key \<le> fuel"
  obtains t' where "Trie_Get fuel key t = (case M key of None \<Rightarrow> Inl ErrNotFound | Some v \<Rightarrow> Inr v, t')"
    "trie_rep sha B M t'" "tr_mode t' = tr_mode t" "tr_store t' = tr_store t"
proof -
  obtain p where p: "expands sha (tr_mode t) (tr_store t) (tr_root t) p" "wf_node p" "lookup p = nib_map M"
    "\<forall>h. refcount_of t h + of_nat (count B h) = of_nat (count (refs sha p) h)"
    using assms(1) unfolding trie_rep_def by blast
  from getWithPath_correct [OF p(1,2) refl refl nibbles_toNibbles fuel_enough [OF assms(3)]]
  obtain t1 where t1: "get_ok sha fuel (tr_root t) p (toNibbles key) t t1" by blast
  then have sh: "shifts t t1 {#} {#}" by (simp add: get_ok_def)
  then have env: "tr_mode t1 = tr_mode t" "tr_store t1 = tr_store t" "tr_root t1 = tr_root t"
    using shifts_env by blast+
  have cnt: "\<forall>h. refcount_of t1 h + of_nat (count B h) = of_nat (count (refs sha p) h)"
    using trie_rep_shifts [OF p(4)] shifts_frame [OF sh, of "refs sha p"] by simp
  show ?thesis
  proof (cases "M key")
    case None
    then have "lookup p (toNibbles key) = None" using p(3) by simp
    then show ?thesis
      using that [of t1] None assms(2) get_ok_None [OF t1] p cnt env
      by (auto simp: Trie_Get_def trie_rep_def)
  next
    case (Some v)
    then have "lookup p (toNibbles key) = Some v" using p(3) by simp
    then obtain n' full where n': "getWithPath fuel (tr_root t) (toNibbles key) True t = (Inr (n', LeafNode v, full), t1)"
      "expands sha (tr_mode t) (tr_store t) n' p" using get_ok_Some [OF t1] by metis
    have "trie_rep sha B M (t1\<lparr>tr_root := n'\<rparr>)"
      unfolding trie_rep_def using p n' cnt env by (intro exI [of _ p]) (simp add: refcount_of_def)
    then show ?thesis using that [of "t1\<lparr>tr_root := n'\<rparr>"] Some assms(2) n' env by (simp add: Trie_Get_def)
  qed
qed

lemma Trie_Put_rep:
  assumes "trie_rep sha B M t" and "key \<noteq> []" and "length key \<le> MaxKeyLength"
    and "length v \<le> MaxValueLength" and "trie_fuel key \<le> fuel"
  obtains t' where "Trie_Put sha fuel key (Some v) t = (Inr (), t')" "trie_rep sha B (M(key \<mapsto> v)) t'"
    "tr_mode t' = tr_mode t" "tr_store t' = tr_store t"
proof -
  obtain p where p: "expands sha (tr_mode t) (tr_store t) (tr_root t) p" "wf_node p" "lookup p = nib_map M"
    "\<forall>h. refcount_of t h + of_nat (count B h) = of_nat (count (refs sha p) h)"
    using assms(1) unfolding trie_rep_def by blast
  have "yields sha t (refs sha p) (nib_map (M(key \<mapsto> v))) (putIntoNode sha fuel (tr_root t) (toNibbles key) (LeafNode v) t)"
    using putIntoNode_yields [OF p(1,2) refl refl nibbles_toNibbles fuel_enough [OF assms(5)]] p(3)
    by (simp add: nib_map_upd)
  from trie_rep_yields [OF p(1,4) this] obtain n t' where
    "putIntoNode sha fuel (tr_root t) (toNibbles key) (LeafNode v) t = (Inr n, t')"
    "trie_rep sha B (M(key \<mapsto> v)) (t'\<lparr>tr_root := n\<rparr>)" "tr_mode t' = tr_mode t" "tr_store t' = tr_store t" .
  then show ?thesis using that assms(2-4) by (simp add: Trie_Put_def)
qed

lemma Trie_Delete_rep:
  assumes "trie_rep sha B M t" and "length key \<le> MaxKeyLength" and "trie_fuel key \<le> fuel"
  obtains t' where "Trie_Delete sha fuel key t = (Inr (), t')" "trie_rep sha B (M(key := None)) t'"
    "tr_mode t' = tr_mode t" "tr_store t' = tr_store t"
proof -
  obtain p where p: "expands sha (tr_mode t) (tr_store t) (tr_root t) p" "wf_node p" "lookup p = nib_map M"
    "\<forall>h. refcount_of t h + of_nat (count B h) = of_nat (count (refs sha p) h)"
    using assms(1) unfolding trie_rep_def by blast
  have "yields sha t (refs sha p) (nib_map (M(key := None))) (deleteFromNode sha fuel (tr_root t) (toNibbles key) t)"
    using deleteFromNode_yields [OF p(1,2) refl refl nibbles_toNibbles fuel_enough [OF assms(3)]] p(3)
    by (simp add: nib_map_upd)
  from trie_rep_yields [OF p(1,4) this] obtain n t' where
    "deleteFromNode sha fuel (tr_root t) (toNibbles key) t = (Inr n, t')"
    "trie_rep sha B (M(key := None)) (t'\<lparr>tr_root := n\<rparr>)" "tr_mode t' = tr_mode t" "tr_store t' = tr_store t" .
  then show ?thesis using that assms(2) by (simp add: Trie_Delete_def)
qed

lemma StateRoot_rep:
  assumes "trie_rep sha B M t" and "trie_rep sha B' M t'"
  shows "StateRoot sha t = StateRoot sha t'"
proof -
  obtain p q where "expands sha (tr_mode t) (tr_store t) (tr_root t) p" "wf_node p" "lookup p = nib_map M"
    "expands sha (tr_mode t') (tr_store t') (tr_root t') q" "wf_node q" "lookup q = nib_map M"
    using assms unfolding trie_rep_def by blast
  moreover from this have "p = q" using wf_node_unique by metis
  ultimately show ?thesis using expands_hash_eq by (metis StateRoot_def isEmpty_iff)
qed

section \<open>The interpretation\<close>

definition trie_key_ok :: "bytes \<Rightarrow> bool" where
  "trie_key_ok key \<longleftrightarrow> key \<noteq> [] \<and> length key \<le> MaxKeyLength"

definition trie_val_ok :: "bytes \<Rightarrow> bool" where
  "trie_val_ok v \<longleftrightarrow> length v \<le> MaxValueLength"

text \<open>Enough fuel for every key the interface accepts.\<close>

definition max_fuel :: nat where
  "max_fuel = 4 * MaxKeyLength + 4"

lemma max_fuel_enough: "trie_key_ok key \<Longrightarrow> trie_fuel key \<le> max_fuel"
  by (simp add: trie_key_ok_def trie_fuel_def max_fuel_def)

definition trie_get :: "bytes \<Rightarrow> trie \<Rightarrow> bytes option \<times> trie" where
  "trie_get key t = (case Trie_Get max_fuel key t of (Inr v, t) \<Rightarrow> (Some v, t) | (Inl e, t) \<Rightarrow> (None, t))"

definition trie_put :: "(bytes \<Rightarrow> uint256) \<Rightarrow> bytes \<Rightarrow> bytes \<Rightarrow> trie \<Rightarrow> trie option" where
  "trie_put sha key v t = (case Trie_Put sha max_fuel key (Some v) t of (Inr u, t) \<Rightarrow> Some t | (Inl e, t) \<Rightarrow> None)"

definition trie_del :: "(bytes \<Rightarrow> uint256) \<Rightarrow> bytes \<Rightarrow> trie \<Rightarrow> trie option" where
  "trie_del sha key t = (case Trie_Delete sha max_fuel key t of (Inr u, t) \<Rightarrow> Some t | (Inl e, t) \<Rightarrow> None)"

interpretation mpt: authenticated_map "\<lambda>M t. \<exists>B. trie_rep sha B M t" trie_key_ok trie_val_ok
  trie_get "trie_put sha" "trie_del sha" "StateRoot sha" for sha
proof
  fix M s k assume "\<exists>B. trie_rep sha B M s" and k: "trie_key_ok k"
  then obtain B where B: "trie_rep sha B M s" by blast
  from Trie_Get_rep [OF B _ max_fuel_enough [OF k]] k obtain t' where
    "Trie_Get max_fuel k s = (case M k of None \<Rightarrow> Inl ErrNotFound | Some v \<Rightarrow> Inr v, t')" "trie_rep sha B M t'"
    unfolding trie_key_ok_def by blast
  then show "\<exists>s'. trie_get k s = (M k, s') \<and> (\<exists>B. trie_rep sha B M s')"
    by (auto simp: trie_get_def split: option.splits)
next
  fix M s k v assume "\<exists>B. trie_rep sha B M s" and k: "trie_key_ok k" and v: "trie_val_ok v"
  then obtain B where B: "trie_rep sha B M s" by blast
  from Trie_Put_rep [OF B _ _ _ max_fuel_enough [OF k]] k v obtain t' where
    "Trie_Put sha max_fuel k (Some v) s = (Inr (), t')" "trie_rep sha B (M(k \<mapsto> v)) t'"
    unfolding trie_key_ok_def trie_val_ok_def by blast
  then show "\<exists>s'. trie_put sha k v s = Some s' \<and> (\<exists>B. trie_rep sha B (M(k \<mapsto> v)) s')"
    by (auto simp: trie_put_def)
next
  fix M s k assume "\<exists>B. trie_rep sha B M s" and k: "trie_key_ok k"
  then obtain B where B: "trie_rep sha B M s" by blast
  from Trie_Delete_rep [OF B _ max_fuel_enough [OF k]] k obtain t' where
    "Trie_Delete sha max_fuel k s = (Inr (), t')" "trie_rep sha B (M(k := None)) t'"
    unfolding trie_key_ok_def by blast
  then show "\<exists>s'. trie_del sha k s = Some s' \<and> (\<exists>B. trie_rep sha B (M(k := None)) s')"
    by (auto simp: trie_del_def)
qed (use StateRoot_rep in blast)

section \<open>Properties\<close>


lemma trie_rep_extension:
  assumes "key \<noteq> []"
  shows "trie_rep sha (refs sha (ExtensionNode (toNibbles key) (LeafNode v))) [key \<mapsto> v]
    (NewTrie (ExtensionNode (toNibbles key) (LeafNode v)) m st)"
proof -
  let ?p = "ExtensionNode (toNibbles key) (LeafNode v)"
  have "toNibbles key \<noteq> []" using assms by (cases key) simp_all
  then have "lookup ?p = nib_map [key \<mapsto> v]"
    using lookup_sub_leaf [of "toNibbles key" v] by (simp only: sub_node_def nib_map_upd nib_map_empty if_False)
  moreover have "wf_node ?p" using \<open>toNibbles key \<noteq> []\<close> by simp
  ultimately show ?thesis unfolding trie_rep_def
    by (intro exI [of _ ?p]) (simp add: NewTrie_def refcount_of_def expands_pure del: lookup.simps)
qed


text \<open>
  C2. \<^verbatim>\<open>Put\<close> of a key and a value within the limits succeeds, and the trie then holds the updated map in
  its one well-formed shape, with reference counters that are exactly the difference between
  its nodes and the nodes counted before.
\<close>

theorem Trie_Put_correct:
  assumes "trie_rep sha B M t" and "key \<noteq> []" and "length key \<le> MaxKeyLength"
    and "length v \<le> MaxValueLength" and "trie_fuel key \<le> fuel"
  shows "\<exists>t'. Trie_Put sha fuel key (Some v) t = (Inr (), t') \<and> trie_rep sha B (M(key \<mapsto> v)) t'"
  using Trie_Put_rep [OF assms] by metis

theorem Trie_Put_correct_witness:
  "\<exists>t'. Trie_Put (\<lambda>_. 0) 8 [0xAC] (Some [7]) (NewTrie EmptyNode ModeAll Map.empty) = (Inr (), t') \<and>
     trie_rep (\<lambda>_. 0) {#} [[0xAC] \<mapsto> [7]] t'"
  using Trie_Put_correct [OF trie_rep_NewTrie [of "\<lambda>_. 0" ModeAll Map.empty], of "[0xAC]" "[7]" 8]
  by (simp add: mpt_limits trie_fuel_def)

text \<open>
  C3. \<^verbatim>\<open>Delete\<close> of a key within the limit succeeds whether or not the key is there, and the trie then
  holds the map without it: branches left with one child are merged into the extension
  above, so the shape is again the only well-formed one, and the counters follow.
\<close>

theorem Trie_Delete_correct:
  assumes "trie_rep sha B M t" and "length key \<le> MaxKeyLength" and "trie_fuel key \<le> fuel"
  shows "\<exists>t'. Trie_Delete sha fuel key t = (Inr (), t') \<and> trie_rep sha B (M(key := None)) t'"
  using Trie_Delete_rep [OF assms] by metis

theorem Trie_Delete_correct_witness:
  "\<exists>t'. Trie_Delete (\<lambda>_. 0) 8 [0xAC] (NewTrie (ExtensionNode (toNibbles [0xAC]) (LeafNode [7])) ModeAll Map.empty) =
     (Inr (), t') \<and>
     trie_rep (\<lambda>_. 0) (refs (\<lambda>_. 0) (ExtensionNode (toNibbles [0xAC]) (LeafNode [7]))) Map.empty t'"
  using Trie_Delete_correct [OF trie_rep_extension [of "[0xAC]" "\<lambda>_. 0" "[7]" ModeAll Map.empty], of "[0xAC]" 8]
  by (simp add: mpt_limits trie_fuel_def del: toNibbles_simps refs.simps)

text \<open>
  C1. The state root depends on the contents only: any two sequences of puts and deletes that
  lead from the empty trie to the same map, on tries of any mode over any stores, succeed
  and end with the same root hash.
\<close>

theorem StateRoot_history_independent:
  assumes "list_all (change_ok trie_key_ok trie_val_ok) cs" and "list_all (change_ok trie_key_ok trie_val_ok) cs'"
    and "changed cs Map.empty = changed cs' Map.empty"
  shows "\<exists>a b. run_changes (trie_put sha) (trie_del sha) cs (NewTrie EmptyNode m st) = Some a \<and>
    run_changes (trie_put sha) (trie_del sha) cs' (NewTrie EmptyNode m' st') = Some b \<and>
    StateRoot sha a = StateRoot sha b"
  using mpt.root_of_map [OF _ _ assms] trie_rep_NewTrie by metis

theorem StateRoot_history_independent_witness:
  "\<exists>a b. run_changes (trie_put (\<lambda>_. 0)) (trie_del (\<lambda>_. 0)) [Change_Put [1] [7], Change_Put [2] [8], Change_Del [1]]
      (NewTrie EmptyNode ModeAll Map.empty) = Some a \<and>
    run_changes (trie_put (\<lambda>_. 0)) (trie_del (\<lambda>_. 0)) [Change_Put [2] [8]]
      (NewTrie EmptyNode ModeGC Map.empty) = Some b \<and>
    StateRoot (\<lambda>_. 0) a = StateRoot (\<lambda>_. 0) b"
  by (rule StateRoot_history_independent) (auto simp: trie_key_ok_def trie_val_ok_def mpt_limits fun_eq_iff)

section \<open>Commitment\<close>

text \<open>The byte strings hashed in a node, and the decoder's size limits at every node.\<close>

fun encodings :: "(bytes \<Rightarrow> uint256) \<Rightarrow> node \<Rightarrow> bytes list" where
  "encodings sha (LeafNode v) = [encodeNodeWithType sha (LeafNode v)]"
| "encodings sha (ExtensionNode k n) = encodeNodeWithType sha (ExtensionNode k n) # encodings sha n"
| "encodings sha (BranchNode cs) = encodeNodeWithType sha (BranchNode cs) # concat (map (encodings sha) cs)"
| "encodings sha n = []"

fun fits_all :: "node \<Rightarrow> bool" where
  "fits_all (ExtensionNode k n) \<longleftrightarrow> fits (ExtensionNode k n) \<and> fits_all n"
| "fits_all (BranchNode cs) \<longleftrightarrow> fits (BranchNode cs) \<and> list_all fits_all cs"
| "fits_all n \<longleftrightarrow> fits n"

lemma fits_all_fits: "fits_all n \<Longrightarrow> fits n"
  by (cases n) auto

lemma encodings_head: "wf_node p \<Longrightarrow> p \<noteq> EmptyNode \<Longrightarrow> encodeNodeWithType sha p \<in> set (encodings sha p)"
  by (cases p) auto

lemma encode_shallow:
  assumes "fits p" and "fits q" and "encodeNodeWithType sha p = encodeNodeWithType sha q"
  shows "shallow sha p = shallow sha q"
  using decode_encode_node [OF assms(1), of 0 sha "[]"] decode_encode_node [OF assms(2), of 0 sha "[]"] assms(3)
  by (metis (no_types) option.inject prod.inject)

lemma Node_Hash_wf: "wf_node p \<Longrightarrow> p \<noteq> EmptyNode \<Longrightarrow> Node_Hash sha p = DoubleSha256 sha (encodeNodeWithType sha p)"
  by (cases p) (auto simp: Node_Hash_def)

lemma child_ref_eq:
  "child_ref sha c = child_ref sha d \<longleftrightarrow>
     (c = EmptyNode \<longleftrightarrow> d = EmptyNode) \<and> (c \<noteq> EmptyNode \<longrightarrow> Node_Hash sha c = Node_Hash sha d)"
  by (auto simp: child_ref_def)

lemma Node_Hash_inject:
  assumes "wf_node p" "wf_node q" "p \<noteq> EmptyNode" "q \<noteq> EmptyNode" "fits_all p" "fits_all q"
    and "inj_on (DoubleSha256 sha) (set (encodings sha p) \<union> set (encodings sha q))"
    and "Node_Hash sha p = Node_Hash sha q"
  shows "p = q"
  using assms
proof (induction p arbitrary: q)
  case (LeafNode v)
  then have "encodeNodeWithType sha (LeafNode v) = encodeNodeWithType sha q"
    using encodings_head Node_Hash_wf by (metis UnCI inj_onD)
  then have "shallow sha (LeafNode v) = shallow sha q" using LeafNode encode_shallow fits_all_fits by blast
  then show ?case using LeafNode.prems by (cases q) auto
next
  case (ExtensionNode k n)
  then have "encodeNodeWithType sha (ExtensionNode k n) = encodeNodeWithType sha q"
    using encodings_head Node_Hash_wf by (metis UnCI inj_onD)
  then have "shallow sha (ExtensionNode k n) = shallow sha q"
    using ExtensionNode encode_shallow fits_all_fits by blast
  then obtain n' where q: "q = ExtensionNode k n'" "child_ref sha n = child_ref sha n'"
    using ExtensionNode.prems by (cases q) auto
  have ne: "n \<noteq> EmptyNode" "n' \<noteq> EmptyNode" using ExtensionNode.prems q by auto
  have "inj_on (DoubleSha256 sha) (set (encodings sha n) \<union> set (encodings sha n'))"
    using ExtensionNode.prems(7) q by (auto intro: inj_on_subset)
  then have "n = n'" using ExtensionNode.prems ne q by (intro ExtensionNode.IH) (auto simp: child_ref_eq)
  then show ?case using q by simp
next
  case (BranchNode cs)
  then have "encodeNodeWithType sha (BranchNode cs) = encodeNodeWithType sha q"
    using encodings_head Node_Hash_wf by (metis UnCI inj_onD)
  then have "shallow sha (BranchNode cs) = shallow sha q" using BranchNode encode_shallow fits_all_fits by blast
  then obtain ds where q: "q = BranchNode ds" "map (child_ref sha) cs = map (child_ref sha) ds"
    using BranchNode.prems by (cases q) auto
  have len: "length cs = length ds" using q(2) by (metis length_map)
  have "cs ! i = ds ! i" if i: "i < length cs" for i
  proof (cases "cs ! i = EmptyNode \<or> ds ! i = EmptyNode")
    case True
    then show ?thesis using q(2) i len by (metis child_ref_eq nth_map)
  next
    case False
    have mem: "cs ! i \<in> set cs" "ds ! i \<in> set ds" using i len by simp_all
    have "inj_on (DoubleSha256 sha) (set (encodings sha (cs ! i)) \<union> set (encodings sha (ds ! i)))"
      using BranchNode.prems(7) q mem by (auto intro: inj_on_subset)
    moreover have "Node_Hash sha (cs ! i) = Node_Hash sha (ds ! i)"
      using q(2) i len False by (metis child_ref_eq nth_map)
    moreover have "wf_node (cs ! i)" "wf_node (ds ! i)" "fits_all (cs ! i)" "fits_all (ds ! i)"
      using BranchNode.prems q(1) mem by (simp_all add: list_all_iff)
    ultimately show ?thesis using BranchNode.IH [OF mem(1)] False by blast
  qed
  then show ?case using q(1) len by (simp add: nth_equalityI)
qed auto

text \<open>
  C9. The state root commits to the contents: if the double SHA-256 has no collision among the
  encodings of the nodes of two non-empty tries, then the tries have the same root hash only
  if they hold the same map.
\<close>

theorem StateRoot_binding:
  assumes "expands sha (tr_mode t) (tr_store t) (tr_root t) p" and "wf_node p" and "p \<noteq> EmptyNode" and "fits_all p"
    and "expands sha (tr_mode t') (tr_store t') (tr_root t') q" and "wf_node q" and "q \<noteq> EmptyNode" and "fits_all q"
    and "inj_on (DoubleSha256 sha) (set (encodings sha p) \<union> set (encodings sha q))"
  shows "StateRoot sha t = StateRoot sha t' \<longleftrightarrow> lookup p = lookup q"
proof -
  have "StateRoot sha t = Node_Hash sha p" "StateRoot sha t' = Node_Hash sha q"
    using expands_hash_eq [OF assms(1)] expands_hash_eq [OF assms(5)] assms(3,7) by (simp_all add: StateRoot_def)
  then show ?thesis using Node_Hash_inject [OF assms(2,6,3,7,4,8,9)] wf_node_unique [OF assms(2,6)] by auto
qed

theorem StateRoot_binding_witness:
  "StateRoot (\<lambda>b. word_of_nat (be_nat b)) (NewTrie (LeafNode [7]) ModeAll Map.empty) \<noteq>
   StateRoot (\<lambda>b. word_of_nat (be_nat b)) (NewTrie (LeafNode [8]) ModeAll Map.empty)"
proof -
  let ?sha = "\<lambda>b :: bytes. word_of_nat (be_nat b) :: uint256"
  have enc: "encodings ?sha (LeafNode [x]) = [[2, 1, x]]" for x
    by (simp add: encodeNodeWithType_def LeafT_def var_bytes_eq PutVarUint_def)
  have dbl: "DoubleSha256 ?sha b = ?sha b" for b by (simp add: DoubleSha256_def Sha256_def)
  have "inj_on (DoubleSha256 ?sha) (set (encodings ?sha (LeafNode [7])) \<union> set (encodings ?sha (LeafNode [8])))"
    unfolding enc inj_on_def dbl by (simp add: be_nat_def)
  moreover have "lookup (LeafNode [7]) \<noteq> lookup (LeafNode [8])" by (auto dest: fun_cong [of _ _ "[]"])
  ultimately show ?thesis
    using StateRoot_binding [of ?sha "NewTrie (LeafNode [7]) ModeAll Map.empty" "LeafNode [7]"
        "NewTrie (LeafNode [8]) ModeAll Map.empty" "LeafNode [8]"]
    by (simp add: NewTrie_def expands_leaf mpt_limits del: lookup.simps encodings.simps)
qed

end
