(* ===== verification/Mpt_Flush.thy ===== *)
theory Mpt_Flush
  imports Mpt_Api
begin

text \<open>
  Flushing. \<open>cache_inv\<close> is the invariant of the node cache that every operation keeps: cached bytes hash to
  the key they are cached under, and an initial counter that has been read is the stored one.
  \<open>holds\<close> says what a store contains for a trie: every node under its hash and, with reference
  counting, the exact number of references to it and nothing else. \<^verbatim>\<open>Flush\<close> turns a store that holds
  the trie of the last flush into one that holds the current trie.
\<close>

section \<open>The cache invariant\<close>

definition proper :: "node \<Rightarrow> bool" where
  "proper n \<longleftrightarrow> (case n of EmptyNode \<Rightarrow> False | HashNode h \<Rightarrow> False | _ \<Rightarrow> True)"

lemma proper_simps [simp]:
  "proper (LeafNode v)" "proper (ExtensionNode k n)" "proper (BranchNode cs)"
  "\<not> proper EmptyNode" "\<not> proper (HashNode h)"
  by (simp_all add: proper_def)

lemma Node_Hash_proper: "proper n \<Longrightarrow> Node_Hash sha n = DoubleSha256 sha (encodeNodeWithType sha n)"
  by (cases n) (simp_all add: Node_Hash_def)

definition store_ok :: "(bytes \<Rightarrow> uint256) \<Rightarrow> byte \<Rightarrow> (bytes \<rightharpoonup> bytes) \<Rightarrow> bool" where
  "store_ok sha m st \<longleftrightarrow> (RC m \<longrightarrow> (\<forall>h data. getFromStore (makeStorageKey h) m st = Inr data \<longrightarrow>
     (\<exists>n c. fits n \<and> proper n \<and> Node_Hash sha n = h \<and> data = encodeNodeWithType sha n @ 1 # put_le 4 (c :: uint32))))"

definition entry_ok :: "(bytes \<Rightarrow> uint256) \<Rightarrow> byte \<Rightarrow> (bytes \<rightharpoonup> bytes) \<Rightarrow> uint256 \<Rightarrow> cachedNode \<Rightarrow> bool" where
  "entry_ok sha m st h nd \<longleftrightarrow> (\<exists>b. cn_bytes nd = Some b \<and> DoubleSha256 sha b = h) \<and>
     (RC m \<and> cn_initial nd \<noteq> 0 \<longrightarrow>
       (\<exists>b. getFromStore (makeStorageKey h) m st = Inr (b @ 1 # put_le 4 (cn_initial nd))))"

definition cache_inv :: "(bytes \<Rightarrow> uint256) \<Rightarrow> trie \<Rightarrow> bool" where
  "cache_inv sha t \<longleftrightarrow> distinct (map fst (tr_refcount t)) \<and>
     (\<forall>h nd. map_of (tr_refcount t) h = Some nd \<longrightarrow> entry_ok sha (tr_mode t) (tr_store t) h nd)"

definition keeps :: "(bytes \<Rightarrow> uint256) \<Rightarrow> trie \<Rightarrow> trie \<Rightarrow> bool" where
  "keeps sha t t' \<longleftrightarrow> tr_mode t' = tr_mode t \<and> tr_store t' = tr_store t \<and>
     (store_ok sha (tr_mode t) (tr_store t) \<longrightarrow> cache_inv sha t \<longrightarrow> cache_inv sha t')"

lemma keeps_refl [simp, intro]: "keeps sha t t"
  by (simp add: keeps_def)

lemma keeps_trans: "keeps sha t t1 \<Longrightarrow> keeps sha t1 t2 \<Longrightarrow> keeps sha t t2"
  by (auto simp: keeps_def)

lemma cache_inv_NewTrie [simp]: "cache_inv sha (NewTrie n m st)"
  by (simp add: cache_inv_def NewTrie_def)

lemma cache_inv_update:
  assumes "cache_inv sha t" and "entry_ok sha (tr_mode t) (tr_store t) h nd"
  shows "cache_inv sha (t\<lparr>tr_refcount := AList.update h nd (tr_refcount t)\<rparr>)"
  using assms by (auto simp: cache_inv_def distinct_update update_conv')

lemma cache_inv_entry: "cache_inv sha t \<Longrightarrow> map_of (tr_refcount t) h = Some nd \<Longrightarrow> entry_ok sha (tr_mode t) (tr_store t) h nd"
  by (simp add: cache_inv_def)

lemma entry_ok_ref:
  assumes "entry_ok sha m st h nd"
  shows "entry_ok sha m st h (nd\<lparr>cn_refcount := c\<rparr>)" and "cn_bytes nd \<noteq> None"
  using assms by (auto simp: entry_ok_def)

lemma keeps_addNode: "proper n \<Longrightarrow> keeps sha t (addNode sha n t)"
proof (cases "map_of (tr_refcount t) (Node_Hash sha n)")
  case None
  assume "proper n"
  with None show ?thesis unfolding keeps_def
    by (auto simp: addNode_def addRef_def Node_Hash_proper entry_ok_def intro!: cache_inv_update)
next
  case (Some nd)
  then have "cache_inv sha (addNode sha n t)" if "cache_inv sha t"
    using entry_ok_ref [OF cache_inv_entry [OF that Some]] that
    by (auto simp: addNode_def addRef_def Let_def intro!: cache_inv_update)
  then show ?thesis by (simp add: keeps_def)
qed

lemma keeps_removeNode: "proper n \<Longrightarrow> keeps sha t (removeNode sha n t)"
proof (cases "map_of (tr_refcount t) (Node_Hash sha n)")
  case None
  assume "proper n"
  with None show ?thesis unfolding keeps_def
    by (auto simp: removeNode_def removeRef_def Node_Hash_proper entry_ok_def intro!: cache_inv_update)
next
  case (Some nd)
  then have "cache_inv sha (removeNode sha n t)" if "cache_inv sha t"
    using entry_ok_ref [OF cache_inv_entry [OF that Some]] that
    by (auto simp: removeNode_def removeRef_def Let_def intro!: cache_inv_update)
  then show ?thesis by (simp add: keeps_def)
qed

text \<open>A read changes the state only by refreshing the cache entry of the node it returns.\<close>

lemma Trie_getFromStore_change:
  assumes "Trie_getFromStore h t = (r, t')" and "t' \<noteq> t"
  obtains data nd where "RC (tr_mode t)" "getFromStore (makeStorageKey h) (tr_mode t) (tr_store t) = Inr data"
    "map_of (tr_refcount t) h = Some nd"
    "t' = t\<lparr>tr_refcount := AList.update h
        (nd\<lparr>cn_bytes := Some (take (length data - 5) data),
          cn_initial := fst (ReadU32LE (snd (ReadB (snd (DecodeNodeWithType (NewBinReaderFromBuf data))))))\<rparr>) (tr_refcount t)\<rparr>"
proof -
  obtain data where data: "getFromStore (makeStorageKey h) (tr_mode t) (tr_store t) = Inr data"
    using assms by (cases "getFromStore (makeStorageKey h) (tr_mode t) (tr_store t)") (auto simp: Trie_getFromStore_def)
  obtain no r1 where dec: "DecodeNodeWithType (NewBinReaderFromBuf data) = (no, r1)" by fastforce
  then obtain n where n: "r_err r1 = None" "no = Some n"
    using assms data by (auto simp: Trie_getFromStore_def split: option.splits)
  then have rc: "RC (tr_mode t)" "\<not> length data < 5"
    using assms data dec by (auto simp: Trie_getFromStore_def Let_def split: if_splits)
  then obtain nd where nd: "map_of (tr_refcount t) h = Some nd"
    using assms data dec n by (auto simp: Trie_getFromStore_def Let_def split: option.splits if_splits)
  have "t' = t\<lparr>tr_refcount := AList.update h
        (nd\<lparr>cn_bytes := Some (take (length data - 5) data),
          cn_initial := fst (ReadU32LE (snd (ReadB r1)))\<rparr>) (tr_refcount t)\<rparr>"
    using assms(1) data dec n rc nd by (auto simp: Trie_getFromStore_def Let_def split: prod.splits if_splits)
  then show ?thesis using that rc(1) data nd dec by simp
qed

lemma keeps_Trie_getFromStore:
  assumes "Trie_getFromStore h t = (r, t')"
  shows "keeps sha t t'"
proof (cases "t' = t")
  case False
  with assms obtain data nd where d: "RC (tr_mode t)"
    "getFromStore (makeStorageKey h) (tr_mode t) (tr_store t) = Inr data" "map_of (tr_refcount t) h = Some nd"
    "t' = t\<lparr>tr_refcount := AList.update h
        (nd\<lparr>cn_bytes := Some (take (length data - 5) data),
          cn_initial := fst (ReadU32LE (snd (ReadB (snd (DecodeNodeWithType (NewBinReaderFromBuf data))))))\<rparr>) (tr_refcount t)\<rparr>"
    by (rule Trie_getFromStore_change)
  have "cache_inv sha t'" if ok: "store_ok sha (tr_mode t) (tr_store t)" and inv: "cache_inv sha t"
  proof -
    obtain n c where n: "fits n" "proper n" "Node_Hash sha n = h"
      "data = encodeNodeWithType sha n @ 1 # put_le 4 (c :: uint32)" using ok d(1,2) unfolding store_ok_def by blast
    have "DecodeNodeWithType (reader_of data) = decode_node (Suc (Suc (length data))) (reader_of data)"
      unfolding DecodeNodeWithType_def by (rule decode_node_fuel) (simp_all add: Reader_Len_def)
    then have "snd (DecodeNodeWithType (NewBinReaderFromBuf data)) = reader_of (1 # put_le 4 c)"
      using decode_encode_node [OF n(1), of "length data" sha "1 # put_le 4 c"] n(4)
      by (simp add: NewBinReaderFromBuf_def del: decode_node.simps)
    moreover have "fst (ReadU32LE (snd (ReadB (reader_of (1 # put_le 4 c))))) = c"
      using ReadU32LE_put [of c "[]"] by simp
    ultimately have "entry_ok sha (tr_mode t) (tr_store t) h
        (nd\<lparr>cn_bytes := Some (take (length data - 5) data),
          cn_initial := fst (ReadU32LE (snd (ReadB (snd (DecodeNodeWithType (NewBinReaderFromBuf data))))))\<rparr>)"
      using d(2) n by (auto simp: entry_ok_def Node_Hash_proper)
    then show ?thesis using cache_inv_update [OF inv] d(4) by simp
  qed
  then show ?thesis using d(4) by (simp add: keeps_def)
qed simp

lemmas keeps_chain = keeps_trans [OF _ keeps_addNode] keeps_trans [OF _ keeps_removeNode]
  keeps_trans [OF _ keeps_Trie_getFromStore]

section \<open>Every operation keeps the cache invariant\<close>

lemma keeps_newSubTrie: "keeps sha t0 t \<Longrightarrow> keeps sha t0 (snd (newSubTrie sha path (LeafNode v) True t))"
  by (simp add: newSubTrie_def Let_def keeps_chain)

lemma keeps_newSubTrie_old: "keeps sha t0 t \<Longrightarrow> keeps sha t0 (snd (newSubTrie sha path val False t))"
  by (simp add: newSubTrie_def Let_def keeps_chain)

lemma keeps_bind:
  assumes "keeps sha t (snd x)" and "\<And>r t1. keeps sha t t1 \<Longrightarrow> keeps sha t (snd (f r t1))"
  shows "keeps sha t (snd (case x of (r, t1) \<Rightarrow> f r t1))"
  using assms by (cases x) simp

lemma keeps_count:
  fixes x :: "nat \<times> nat"
  assumes "\<And>a b. keeps sha t (snd (f a b))"
  shows "keeps sha t (snd (case x of (a, b) \<Rightarrow> f a b))"
  using assms by (cases x) simp

lemma keeps_sum:
  assumes "\<And>e. keeps sha t (snd (f e))" and "\<And>a. keeps sha t (snd (g a))"
  shows "keeps sha t (snd (case s of Inl e \<Rightarrow> f e | Inr a \<Rightarrow> g a))"
  using assms by (cases s) simp_all

lemma keeps_if: "keeps sha t (snd x) \<Longrightarrow> keeps sha t (snd y) \<Longrightarrow> keeps sha t (snd (if b then x else y))"
  by simp

lemma keeps_read: "keeps sha t0 t \<Longrightarrow> keeps sha t0 (snd (Trie_getFromStore h t))"
  using keeps_chain(3) by (metis prod.collapse)

lemma keeps_pair: "keeps sha t t1 \<Longrightarrow> keeps sha t (snd (x, t1))"
  by simp

lemmas keeps_intros = keeps_bind keeps_sum keeps_if keeps_pair keeps_read keeps_chain(1,2)
  keeps_newSubTrie keeps_newSubTrie_old

lemma keeps_getWithPath: "keeps sha t (snd (getWithPath fuel n path strict t))"
proof (induction fuel arbitrary: n path t)
  case (Suc fuel)
  have sub: "keeps sha t0 (snd (getWithPath fuel c p strict t1))" if "keeps sha t0 t1" for t0 t1 c p
    using Suc keeps_trans that by blast
  show ?case
  proof (cases n)
    case (BranchNode cs)
    then show ?thesis
      by (auto simp: Let_def split: prod.splits sum.splits intro!: keeps_intros sub) (metis Suc snd_conv)+
  next
    case (ExtensionNode k nxt)
    then show ?thesis by (auto split: prod.splits sum.splits) (metis Suc snd_conv)+
  next
    case (HashNode h)
    obtain r t1 where r: "Trie_getFromStore h t = (r, t1)" by fastforce
    then have "keeps sha t t1" by (rule keeps_Trie_getFromStore)
    then show ?thesis using HashNode r sub by (auto split: sum.splits mpt_err.splits)
  qed auto
qed simp

lemma keeps_putIntoNode: "keeps sha t (snd (putIntoNode sha fuel n path (LeafNode v) t))"
proof (induction fuel arbitrary: n path t)
  case (Suc fuel)
  have sub: "keeps sha t0 (snd (putIntoNode sha fuel c p (LeafNode v) t1))" if "keeps sha t0 t1" for t0 t1 c p
    using Suc keeps_trans that by blast
  show ?case
  proof (cases n)
    case EmptyNode
    show ?thesis unfolding EmptyNode putIntoNode.simps node.case putIntoEmpty_def Let_def
      by (intro keeps_intros) simp_all
  next
    case (LeafNode w)
    show ?thesis
    proof (cases path)
      case Nil
      then show ?thesis unfolding LeafNode by (simp add: putIntoLeaf_def keeps_chain)
    next
      case (Cons i rest)
      show ?thesis unfolding LeafNode Cons putIntoNode.simps node.case putIntoLeaf_def Let_def list.case
        by (intro keeps_intros) simp_all
    qed
  next
    case (ExtensionNode k nxt)
    have base: "keeps sha t (removeNode sha (ExtensionNode k nxt) t)" by (simp add: keeps_removeNode)
    obtain i rest where sp: "splitPath (drop (length (lcp k path)) path) = (i, rest)" by fastforce
    show ?thesis unfolding ExtensionNode putIntoNode.simps node.case putIntoExtension_def Let_def sp prod.case
      by (intro keeps_intros sub base) (simp_all add: base)
  next
    case (BranchNode cs)
    have base: "keeps sha t (removeNode sha (BranchNode cs) t)" by (simp add: keeps_removeNode)
    obtain i rest where sp: "splitPath path = (i, rest)" by fastforce
    show ?thesis unfolding BranchNode putIntoNode.simps node.case putIntoBranch_def Let_def sp prod.case
      by (intro keeps_intros sub base) (simp_all add: base)
  next
    case (HashNode h)
    show ?thesis unfolding HashNode putIntoNode.simps node.case putIntoHash_def
      by (intro keeps_intros sub) simp_all
  qed
qed simp

lemma keeps_join:
  assumes "keeps sha t0 t1"
  shows "keeps sha t0 (snd (case c of
      ExtensionNode key nxt \<Rightarrow> (Inr (ExtensionNode (x # key) nxt),
        addNode sha (ExtensionNode (x # key) nxt) (removeNode sha c t1))
    | _ \<Rightarrow> (Inr (ExtensionNode [x] c) :: mpt_err + node, addNode sha (ExtensionNode [x] c) t1)))"
  using assms by (cases c) (auto intro!: keeps_intros)

lemma keeps_deleteFromNode: "keeps sha t (snd (deleteFromNode sha fuel n path t))"
proof (induction fuel arbitrary: n path t)
  case (Suc fuel)
  have sub: "keeps sha t0 (snd (deleteFromNode sha fuel c p t1))" if "keeps sha t0 t1" for t0 t1 c p
    using Suc keeps_trans that by blast
  show ?case
  proof (cases n)
    case (LeafNode w)
    then show ?thesis by (simp add: keeps_removeNode)
  next
    case (ExtensionNode k nxt)
    have join: "keeps sha t0 (snd (case r of
          ExtensionNode key2 nxt2 \<Rightarrow> (Inr (ExtensionNode (k @ key2) nxt2),
            addNode sha (ExtensionNode (k @ key2) nxt2) (removeNode sha r t1))
        | EmptyNode \<Rightarrow> (Inr EmptyNode, t1)
        | _ \<Rightarrow> (Inr (ExtensionNode k r) :: mpt_err + node, addNode sha (ExtensionNode k r) t1)))"
      if "keeps sha t0 t1" for r t0 t1
      using that by (cases r) (auto intro!: keeps_intros)
    show ?thesis unfolding ExtensionNode deleteFromNode.simps node.case deleteFromExtension_def Let_def
      by (intro keeps_intros sub join) simp_all
  next
    case (BranchNode cs)
    have read: "keeps sha t0 (snd (case c of HashNode h \<Rightarrow> Trie_getFromStore h t1 | _ \<Rightarrow> (Inr c, t1)))"
      if "keeps sha t0 t1" for c t0 t1
      using that keeps_read by (cases c) auto
    obtain i rest where sp: "splitPath path = (i, rest)" by fastforce
    show ?thesis unfolding BranchNode deleteFromNode.simps node.case deleteFromBranch_def Let_def sp prod.case
      by (intro keeps_intros keeps_count sub read keeps_join) simp_all
  next
    case (HashNode h)
    show ?thesis unfolding HashNode deleteFromNode.simps node.case
      by (intro keeps_intros sub) simp_all
  qed simp
qed simp

section \<open>What a store contains for a trie\<close>

definition real_mode :: "byte \<Rightarrow> bool" where
  "real_mode m \<longleftrightarrow> m = ModeAll \<or> m = ModeLatest \<or> m = ModeGC"

definition trailer :: "byte \<Rightarrow> nat \<Rightarrow> bytes" where
  "trailer m c = (if RC m then 1 # put_le 4 (of_nat c :: uint32) else [])"

text \<open>The record of the node with hash \<open>h\<close> and bytes \<open>b\<close> when there are \<open>c\<close> references to it.\<close>

definition record_ok :: "byte \<Rightarrow> (bytes \<rightharpoonup> bytes) \<Rightarrow> uint256 \<Rightarrow> bytes \<Rightarrow> nat \<Rightarrow> bool" where
  "record_ok m st h b c \<longleftrightarrow>
     (c \<noteq> 0 \<longrightarrow> getFromStore (makeStorageKey h) m st = Inr (b @ trailer m c)) \<and>
     (RC m \<and> c = 0 \<longrightarrow> getFromStore (makeStorageKey h) m st = Inl ErrKeyNotFound)"

definition holds :: "(bytes \<Rightarrow> uint256) \<Rightarrow> byte \<Rightarrow> (bytes \<rightharpoonup> bytes) \<Rightarrow> node \<Rightarrow> bool" where
  "holds sha m st p \<longleftrightarrow>
     (\<forall>b \<in> set (encodings sha p). record_ok m st (DoubleSha256 sha b) b (count (refs sha p) (DoubleSha256 sha b))) \<and>
     (\<forall>h b. h \<notin># refs sha p \<longrightarrow> record_ok m st h b 0)"

lemma makeStorageKey_inject [simp]: "makeStorageKey h = makeStorageKey h' \<longleftrightarrow> h = h'"
  by (simp add: makeStorageKey_def)

lemma getFromStore_cong: "st k = st' k \<Longrightarrow> getFromStore k m st = getFromStore k m st'"
  by (simp add: getFromStore_def)

lemma record_ok_cong:
  "st (makeStorageKey h) = st' (makeStorageKey h) \<Longrightarrow> record_ok m st h b c = record_ok m st' h b c"
  by (simp add: record_ok_def getFromStore_def)

lemma entry_ok_cong:
  "st (makeStorageKey h) = st' (makeStorageKey h) \<Longrightarrow> entry_ok sha m st h nd = entry_ok sha m st' h nd"
  by (simp add: entry_ok_def getFromStore_def)

lemma modes [simp]:
  "\<not> RC ModeAll" "\<not> GC ModeAll" "RC ModeLatest" "\<not> GC ModeLatest" "RC ModeGC" "GC ModeGC"
  by (simp_all add: RC_def GC_def ModeAll_def ModeLatest_def ModeGC_def ModeGCFlag_def)

lemma real_mode_GC: "real_mode m \<Longrightarrow> GC m \<Longrightarrow> RC m"
  by (auto simp: real_mode_def)

lemma IsActiveValue_record [simp]: "IsActiveValue (b @ x # put_le 4 (c :: uint32)) \<longleftrightarrow> x = 1"
  by (simp add: IsActiveValue_def nth_append)

section \<open>Flushing one entry\<close>

lemma word32_of_nat:
  assumes "c < 2 ^ 31"
  shows "sint (of_nat c :: 32 word) = int c" and "(of_nat c :: 32 word) = 0 \<longleftrightarrow> c = 0"
proof -
  have "sint (of_nat c :: 32 word) = sint (word_of_int (int c) :: 32 word)" by simp
  also have "\<dots> = signed_take_bit 31 (int c)" by (simp only: sint_sbintrunc') simp
  also have "\<dots> = int c" using assms by (intro signed_take_bit_int_eq_self) auto
  finally show s: "sint (of_nat c :: 32 word) = int c" .
  show "(of_nat c :: 32 word) = 0 \<longleftrightarrow> c = 0"
  proof
    assume "(of_nat c :: 32 word) = 0"
    then have "sint (of_nat c :: 32 word) = 0" by (simp only: signed_0)
    then show "c = 0" using s by simp
  qed simp
qed

lemma word32_diff:
  assumes "c < 2 ^ 31" and "c0 < 2 ^ 31"
  shows "sint (of_nat c - of_nat c0 :: 32 word) = int c - int c0"
proof -
  have "(of_nat c - of_nat c0 :: 32 word) = word_of_int (int c - int c0)" by simp
  then have "sint (of_nat c - of_nat c0 :: 32 word) = signed_take_bit 31 (int c - int c0)"
    by (simp only: sint_sbintrunc') simp
  also have "\<dots> = int c - int c0" using assms by (intro signed_take_bit_int_eq_self) auto
  finally show ?thesis .
qed

lemma updateRefCount_ok:
  assumes m: "real_mode m" "RC m" and b: "cn_bytes nd = Some b"
    and old: "record_ok m st h b c0" and init: "cn_initial nd = 0 \<or> cn_initial nd = of_nat c0"
    and ref: "cn_refcount nd = of_nat c - of_nat c0" and bound: "c < 2 ^ 31" "c0 < 2 ^ 31"
  obtains v where "updateRefCount nd (makeStorageKey h) index m st = Inr (of_nat c, st(makeStorageKey h := v))"
    "record_ok m (st(makeStorageKey h := v)) h b c"
proof -
  let ?k = "makeStorageKey h"
  define stored where "stored = (if cn_initial nd = 0
    then (case getFromStore ?k m st of Inl e \<Rightarrow> None | Inr d \<Rightarrow> Some d) else None)"
  have zero: "cn_initial nd = 0" if "c0 = 0" using init that by auto
  have stored: "stored = (if cn_initial nd = 0 \<and> c0 \<noteq> 0 then Some (b @ 1 # put_le 4 (of_nat c0 :: uint32)) else None)"
    using old m(2) zero by (auto simp: stored_def record_ok_def trailer_def)
  have cnt: "(case stored of None \<Rightarrow> cn_initial nd | Some d \<Rightarrow> get_le (drop (length d - 4) d)) = of_nat c0"
    using init zero by (auto simp: stored)
  define data where "data = (if stored = None then b @ [1, 0, 0, 0, 0] else the stored)"
  have data: "take (length data - 4) data = b @ [1]" "length data = length b + 5" "data \<noteq> []"
    "data[length data - 5 := 0] = b @ 0 # drop (length b + 1) data"
    by (auto simp: data_def stored list_update_append)
  have upd: "updateRefCount nd ?k index m st =
      (if c = 0 then
         (if \<not> GC m then Inr (0, st(?k := None))
          else Inr (0, st(?k \<mapsto> b @ 0 # put_le 4 index)))
       else Inr (of_nat c, st(?k \<mapsto> b @ 1 # put_le 4 (of_nat c :: uint32))))"
    unfolding updateRefCount_def stored_def [symmetric] Let_def cnt
    using m(2) b ref word32_of_nat [OF bound(1)] data
    by (auto simp: stored data_def split: if_splits)
  show ?thesis
  proof (cases "c = 0")
    case True
    show ?thesis
    proof (cases "GC m")
      case True
      then show ?thesis using upd \<open>c = 0\<close> m
        by (intro that [of "Some (b @ 0 # put_le 4 index)"]) (auto simp: record_ok_def getFromStore_def)
    next
      case False
      then show ?thesis using upd \<open>c = 0\<close> by (intro that [of None]) (auto simp: record_ok_def getFromStore_def)
    qed
  next
    case False
    then show ?thesis using upd m
      by (intro that [of "Some (b @ 1 # put_le 4 (of_nat c :: uint32))"])
        (auto simp: record_ok_def getFromStore_def trailer_def)
  qed
qed

lemma record_initial:
  assumes "entry_ok sha m st h nd" and "record_ok m st h b c0" and "RC m" and "cn_initial nd \<noteq> 0"
  shows "cn_initial nd = of_nat c0"
proof -
  obtain b' where b': "getFromStore (makeStorageKey h) m st = Inr (b' @ 1 # put_le 4 (cn_initial nd))"
    using assms by (auto simp: entry_ok_def)
  then have "c0 \<noteq> 0" using assms(2,3) by (auto simp: record_ok_def)
  then have "b' @ 1 # put_le 4 (cn_initial nd) = b @ 1 # put_le 4 (of_nat c0 :: uint32)"
    using b' assms(2,3) by (simp add: record_ok_def trailer_def)
  from arg_cong [OF this, of "\<lambda>l. drop (length l - 4) l"]
  have "put_le 4 (cn_initial nd) = put_le 4 (of_nat c0 :: uint32)" by simp
  then have "get_le (put_le 4 (cn_initial nd)) = (get_le (put_le 4 (of_nat c0 :: uint32)) :: uint32)" by simp
  then show ?thesis by simp
qed

text \<open>What flushing leaves of a cache entry.\<close>

definition clean_entry :: "(bytes \<Rightarrow> uint256) \<Rightarrow> byte \<Rightarrow> (bytes \<rightharpoonup> bytes) \<Rightarrow> uint256 \<Rightarrow> cachedNode option \<Rightarrow> bool" where
  "clean_entry sha m st h e \<longleftrightarrow> (\<forall>nd. e = Some nd \<longrightarrow> cn_refcount nd = 0 \<and> entry_ok sha m st h nd)"

lemma clean_entry_None [simp]: "clean_entry sha m st h None"
  by (simp add: clean_entry_def)

lemma clean_entry_cong:
  "st (makeStorageKey h) = st' (makeStorageKey h) \<Longrightarrow> clean_entry sha m st h e = clean_entry sha m st' h e"
  by (simp add: clean_entry_def entry_ok_def getFromStore_def)

lemma flush_entry_ok:
  assumes m: "real_mode (tr_mode t)" and b: "cn_bytes nd = Some b"
    and old: "record_ok (tr_mode t) (tr_store t) h b c0" and inv: "entry_ok sha (tr_mode t) (tr_store t) h nd"
    and ref: "cn_refcount nd = of_nat c - of_nat c0" and bound: "c < 2 ^ 31" "c0 < 2 ^ 31"
  obtains v rc where
    "flush_entry index (h, nd) (Inr t) = Inr (t\<lparr>tr_store := (tr_store t)(makeStorageKey h := v), tr_refcount := rc\<rparr>)"
    "record_ok (tr_mode t) ((tr_store t)(makeStorageKey h := v)) h b c"
    "\<And>h'. h' \<noteq> h \<Longrightarrow> map_of rc h' = map_of (tr_refcount t) h'"
    "distinct (map fst (tr_refcount t)) \<Longrightarrow> distinct (map fst rc)"
    "distinct (map fst (tr_refcount t)) \<Longrightarrow>
       clean_entry sha (tr_mode t) ((tr_store t)(makeStorageKey h := v)) h (map_of rc h)"
proof -
  let ?m = "tr_mode t" and ?st = "tr_store t" and ?k = "makeStorageKey h" and ?rc = "tr_refcount t"
  have hash: "DoubleSha256 sha b = h" using inv b by (auto simp: entry_ok_def)
  show ?thesis
  proof (cases "cn_refcount nd = 0")
    case True
    then have "c = c0" using word32_diff [OF bound] ref by simp
    moreover have "?st(?k := ?st ?k) = ?st" by simp
    moreover have "map_of (AList.delete h ?rc) h = None" by (simp add: delete_conv')
    ultimately show ?thesis using True old
      by (intro that [where v = "?st ?k" and rc = "AList.delete h ?rc"])
        (auto simp: flush_entry_def delete_conv' distinct_delete)
  next
    case nz: False
    show ?thesis
    proof (cases "RC ?m")
      case True
      have "cn_initial nd = 0 \<or> cn_initial nd = of_nat c0" using record_initial [OF inv old True] by blast
      then obtain v where v: "updateRefCount nd ?k index ?m ?st = Inr (of_nat c, ?st(?k := v))"
        "record_ok ?m (?st(?k := v)) h b c"
        using updateRefCount_ok [OF m True b old _ ref bound] by metis
      let ?nd = "nd\<lparr>cn_initial := of_nat c, cn_refcount := 0\<rparr>"
      show ?thesis
      proof (cases "c = 0")
        case True
        have "map_of (AList.delete h ?rc) h = None" by (simp add: delete_conv')
        with True v \<open>RC ?m\<close> show ?thesis using nz b
          by (intro that [where v = v and rc = "AList.delete h ?rc"]) (auto simp: flush_entry_def delete_conv' distinct_delete)
      next
        case False
        have "entry_ok sha ?m (?st(?k := v)) h ?nd"
          using v(2) False b hash True by (auto simp: entry_ok_def record_ok_def trailer_def)
        with False v \<open>RC ?m\<close> show ?thesis using nz b word32_of_nat(2) [OF bound(1)]
          by (intro that [where v = v and rc = "AList.update h ?nd ?rc"])
            (auto simp: flush_entry_def update_conv' distinct_update clean_entry_def)
      qed
    next
      case False
      let ?nd = "nd\<lparr>cn_refcount := 0\<rparr>" and ?v = "if 0 <s cn_refcount nd then Some b else ?st ?k"
      have sgn: "0 <s cn_refcount nd \<longleftrightarrow> c0 < c" using word32_diff [OF bound] ref by (simp add: word_sless_alt)
      have "\<not> GC ?m" using real_mode_GC [OF m] False by blast
      then have "record_ok ?m (?st(?k := ?v)) h b c"
        using old False sgn nz ref by (auto simp: record_ok_def getFromStore_def trailer_def)
      moreover have "entry_ok sha ?m (?st(?k := ?v)) h ?nd" using b hash False by (simp add: entry_ok_def)
      moreover have "(if 0 <s cn_refcount nd then ?st(?k := cn_bytes nd) else ?st) = ?st(?k := ?v)" using b by simp
      ultimately show ?thesis using nz b False
        by (intro that [where v = ?v and rc = "AList.update h ?nd ?rc"])
          (auto simp: flush_entry_def update_conv' distinct_update clean_entry_def Let_def)
    qed
  qed
qed

section \<open>Flushing the cache\<close>

lemma flush_entries_ok:
  assumes "real_mode (tr_mode t)" and "distinct (map fst es)" and "distinct (map fst (tr_refcount t))"
    and "\<forall>h. C h < 2 ^ 31 \<and> C0 h < (2 ^ 31 :: nat)"
    and "\<forall>(h, nd) \<in> set es. entry_ok sha (tr_mode t) (tr_store t) h nd \<and>
      record_ok (tr_mode t) (tr_store t) h (the (cn_bytes nd)) (C0 h) \<and> cn_refcount nd = of_nat (C h) - of_nat (C0 h)"
  shows "\<exists>t'. fold (flush_entry index) es (Inr t) = Inr t' \<and> tr_mode t' = tr_mode t \<and> tr_root t' = tr_root t \<and>
    distinct (map fst (tr_refcount t')) \<and>
    (\<forall>h. h \<notin> fst ` set es \<longrightarrow> tr_store t' (makeStorageKey h) = tr_store t (makeStorageKey h) \<and>
      map_of (tr_refcount t') h = map_of (tr_refcount t) h) \<and>
    (\<forall>(h, nd) \<in> set es. record_ok (tr_mode t) (tr_store t') h (the (cn_bytes nd)) (C h) \<and>
      clean_entry sha (tr_mode t) (tr_store t') h (map_of (tr_refcount t') h))"
  using assms
proof (induction es arbitrary: t)
  case (Cons e es)
  obtain h nd where e: "e = (h, nd)" by fastforce
  have pre: "entry_ok sha (tr_mode t) (tr_store t) h nd"
    "record_ok (tr_mode t) (tr_store t) h (the (cn_bytes nd)) (C0 h)" "cn_refcount nd = of_nat (C h) - of_nat (C0 h)"
    "C h < 2 ^ 31" "C0 h < 2 ^ 31" using Cons.prems e by auto
  then obtain b where b: "cn_bytes nd = Some b" by (auto simp: entry_ok_def)
  obtain v rc where step:
    "flush_entry index e (Inr t) = Inr (t\<lparr>tr_store := (tr_store t)(makeStorageKey h := v), tr_refcount := rc\<rparr>)"
    "record_ok (tr_mode t) ((tr_store t)(makeStorageKey h := v)) h b (C h)"
    "\<And>h'. h' \<noteq> h \<Longrightarrow> map_of rc h' = map_of (tr_refcount t) h'" "distinct (map fst rc)"
    "clean_entry sha (tr_mode t) ((tr_store t)(makeStorageKey h := v)) h (map_of rc h)"
    using flush_entry_ok [OF Cons.prems(1) b pre(2) [unfolded b option.sel] pre(1,3,4,5)] Cons.prems(3) e by metis
  let ?t = "t\<lparr>tr_store := (tr_store t)(makeStorageKey h := v), tr_refcount := rc\<rparr>"
  have fresh: "h \<notin> fst ` set es" using Cons.prems(2) e by simp
  have "\<forall>(h', nd') \<in> set es. entry_ok sha (tr_mode ?t) (tr_store ?t) h' nd' \<and>
      record_ok (tr_mode ?t) (tr_store ?t) h' (the (cn_bytes nd')) (C0 h') \<and> cn_refcount nd' = of_nat (C h') - of_nat (C0 h')"
  proof clarify
    fix h' nd' assume mem: "(h', nd') \<in> set es"
    then have "h' \<noteq> h" using fresh by force
    then have same: "tr_store t (makeStorageKey h') = tr_store ?t (makeStorageKey h')" by simp
    show "entry_ok sha (tr_mode ?t) (tr_store ?t) h' nd' \<and>
      record_ok (tr_mode ?t) (tr_store ?t) h' (the (cn_bytes nd')) (C0 h') \<and> cn_refcount nd' = of_nat (C h') - of_nat (C0 h')"
      using Cons.prems(5) mem entry_ok_cong [of "tr_store t" h' "tr_store ?t"]
        record_ok_cong [of "tr_store t" h' "tr_store ?t"] same by fastforce
  qed
  from Cons.IH [OF _ _ _ Cons.prems(4) this] Cons.prems(1-3) step(4) e obtain t' where t': "fold (flush_entry index) es (Inr ?t) = Inr t'"
    "tr_mode t' = tr_mode t" "tr_root t' = tr_root t" "distinct (map fst (tr_refcount t'))"
    "\<And>h'. h' \<notin> fst ` set es \<Longrightarrow> tr_store t' (makeStorageKey h') = tr_store ?t (makeStorageKey h') \<and>
      map_of (tr_refcount t') h' = map_of rc h'"
    "\<forall>(h', nd') \<in> set es. record_ok (tr_mode t) (tr_store t') h' (the (cn_bytes nd')) (C h') \<and>
      clean_entry sha (tr_mode t) (tr_store t') h' (map_of (tr_refcount t') h')" by (auto simp del: fun_upd_apply)
  have same: "tr_store t' (makeStorageKey h) = ((tr_store t)(makeStorageKey h := v)) (makeStorageKey h)"
    "map_of (tr_refcount t') h = map_of rc h" using t'(5) [OF fresh] by simp_all
  have "record_ok (tr_mode t) (tr_store t') h (the (cn_bytes nd)) (C h) \<and>
      clean_entry sha (tr_mode t) (tr_store t') h (map_of (tr_refcount t') h)"
    using step(2,5) record_ok_cong [of "tr_store t'" h "(tr_store t)(makeStorageKey h := v)"]
      clean_entry_cong [of "tr_store t'" h "(tr_store t)(makeStorageKey h := v)"] same b by simp
  moreover have "tr_store t' (makeStorageKey h') = tr_store t (makeStorageKey h') \<and>
      map_of (tr_refcount t') h' = map_of (tr_refcount t) h'" if "h' \<notin> fst ` set (e # es)" for h'
    using t'(5) [of h'] step(3) [of h'] that e by auto
  ultimately show ?case using t' step(1) e by (intro exI [of _ t']) auto
qed simp

definition cached_bytes :: "trie \<Rightarrow> bytes set" where
  "cached_bytes t = {b. \<exists>(h, nd) \<in> set (tr_refcount t). cn_bytes nd = Some b}"

lemma refs_encodings: "wf_node p \<Longrightarrow> refs sha p = image_mset (DoubleSha256 sha) (mset (encodings sha p))"
proof (induction p)
  case (BranchNode cs)
  then have "map (refs sha) cs = map (\<lambda>c. image_mset (DoubleSha256 sha) (mset (encodings sha c))) cs" by simp
  then have "sum_list (map (refs sha) cs) = image_mset (DoubleSha256 sha) (mset (concat (map (encodings sha) cs)))"
    by (simp only:) (induction cs, simp_all)
  then show ?case by (simp add: Node_Hash_proper)
qed (auto simp: Node_Hash_proper)

lemma in_refs: "wf_node p \<Longrightarrow> h \<in># refs sha p \<longleftrightarrow> (\<exists>b \<in> set (encodings sha p). DoubleSha256 sha b = h)"
  by (auto simp: refs_encodings)

lemma holds_record:
  assumes "holds sha m st p" and "wf_node p" and "inj_on (DoubleSha256 sha) A" and "set (encodings sha p) \<subseteq> A"
    and "b \<in> A" and "DoubleSha256 sha b = h"
  shows "record_ok m st h b (count (refs sha p) h)"
proof (cases "h \<in># refs sha p")
  case True
  then obtain b' where "b' \<in> set (encodings sha p)" "DoubleSha256 sha b' = h" using in_refs [OF assms(2)] by blast
  moreover from this have "b' = b" using assms(3-6) by (metis inj_onD subsetD)
  ultimately show ?thesis using assms(1) by (auto simp: holds_def)
next
  case False
  then show ?thesis using assms(1) by (simp add: holds_def not_in_iff)
qed

lemma Trie_Flush_holds:
  assumes m: "real_mode (tr_mode t)" and inv: "cache_inv sha t" and wf: "wf_node p0" "wf_node p"
    and old: "holds sha (tr_mode t) (tr_store t) p0"
    and cnt: "\<forall>h. refcount_of t h + of_nat (count (refs sha p0) h) = of_nat (count (refs sha p) h)"
    and bound: "size (refs sha p0) < 2 ^ 31" "size (refs sha p) < 2 ^ 31"
    and inj: "inj_on (DoubleSha256 sha) (cached_bytes t \<union> set (encodings sha p0) \<union> set (encodings sha p))"
  obtains t' where "Trie_Flush index t = Inr t'" "tr_mode t' = tr_mode t" "tr_root t' = tr_root t"
    "holds sha (tr_mode t) (tr_store t') p" "cache_inv sha t'" "\<And>h. refcount_of t' h = 0"
proof -
  let ?A = "cached_bytes t \<union> set (encodings sha p0) \<union> set (encodings sha p)"
  let ?C = "count (refs sha p)" and ?old = "count (refs sha p0)"
  have small: "\<forall>h. ?C h < 2 ^ 31 \<and> ?old h < 2 ^ 31"
    using bound by (metis count_le_size order_le_less_trans)
  have dist: "distinct (map fst (tr_refcount t))" using inv by (simp add: cache_inv_def)
  have entries: "entry_ok sha (tr_mode t) (tr_store t) h nd \<and>
      record_ok (tr_mode t) (tr_store t) h (the (cn_bytes nd)) (?old h) \<and> cn_refcount nd = of_nat (?C h) - of_nat (?old h)"
    if mem: "(h, nd) \<in> set (tr_refcount t)" for h nd
  proof -
    have look: "map_of (tr_refcount t) h = Some nd" using dist mem by simp
    have e: "entry_ok sha (tr_mode t) (tr_store t) h nd" using cache_inv_entry [OF inv look] .
    then obtain b where b: "cn_bytes nd = Some b" "DoubleSha256 sha b = h" by (auto simp: entry_ok_def)
    then have "b \<in> ?A" using mem by (auto simp: cached_bytes_def)
    then have "record_ok (tr_mode t) (tr_store t) h b (?old h)" using holds_record [OF old wf(1) inj] b(2) by blast
    moreover have "refcount_of t h = cn_refcount nd" using look by (simp add: refcount_of_def)
    then have "cn_refcount nd = of_nat (?C h) - of_nat (?old h)" using spec [OF cnt, of h] by (simp add: eq_diff_eq)
    ultimately show ?thesis using e b by simp
  qed
  obtain t' where t': "Trie_Flush index t = Inr t'" "tr_mode t' = tr_mode t" "tr_root t' = tr_root t"
    "distinct (map fst (tr_refcount t'))"
    "\<And>h. h \<notin> fst ` set (tr_refcount t) \<Longrightarrow> tr_store t' (makeStorageKey h) = tr_store t (makeStorageKey h) \<and>
      map_of (tr_refcount t') h = map_of (tr_refcount t) h"
    "\<And>h nd. (h, nd) \<in> set (tr_refcount t) \<Longrightarrow> record_ok (tr_mode t) (tr_store t') h (the (cn_bytes nd)) (?C h) \<and>
      clean_entry sha (tr_mode t) (tr_store t') h (map_of (tr_refcount t') h)"
    using flush_entries_ok [OF m dist dist small, of sha index] entries unfolding Trie_Flush_def by fast
  have clean: "clean_entry sha (tr_mode t) (tr_store t') h (map_of (tr_refcount t') h)" for h
  proof (cases "h \<in> fst ` set (tr_refcount t)")
    case True
    then show ?thesis using t'(6) by force
  next
    case False
    then have "map_of (tr_refcount t) h = None" by (metis map_of_eq_None_iff)
    then show ?thesis using t'(5) [OF False] by simp
  qed
  have written: "record_ok (tr_mode t) (tr_store t') h b (?C h)"
    if "b \<in> ?A" "DoubleSha256 sha b = h" for h b
  proof (cases "h \<in> fst ` set (tr_refcount t)")
    case True
    then obtain nd where mem: "(h, nd) \<in> set (tr_refcount t)" by force
    then obtain b' where "cn_bytes nd = Some b'" "DoubleSha256 sha b' = h" using entries by (fastforce simp: entry_ok_def)
    moreover from this have "b' = b" using inj that mem by (intro inj_onD [OF inj]) (auto simp: cached_bytes_def)
    ultimately show ?thesis using t'(6) [OF mem] by simp
  next
    case False
    then have "refcount_of t h = 0" by (metis map_of_eq_None_iff option.simps(4) refcount_of_def)
    then have "(of_nat (?old h) :: 32 word) = of_nat (?C h)" using cnt by (metis add_0)
    then have "?old h = ?C h" using small by (metis of_nat_eq_iff word32_of_nat(1))
    moreover have "record_ok (tr_mode t) (tr_store t) h b (?old h)" using holds_record [OF old wf(1) inj] that by blast
    ultimately show ?thesis using record_ok_cong [of "tr_store t'" h "tr_store t"] t'(5) [OF False] by simp
  qed
  have absent: "record_ok (tr_mode t) (tr_store t') h b 0" if "h \<notin># refs sha p" for h b
  proof (cases "h \<in> fst ` set (tr_refcount t)")
    case True
    then obtain nd where "(h, nd) \<in> set (tr_refcount t)" by force
    then show ?thesis using t'(6) that by (fastforce simp: not_in_iff record_ok_def)
  next
    case False
    then have "refcount_of t h = 0" by (metis map_of_eq_None_iff option.simps(4) refcount_of_def)
    then have "(of_nat (?old h) :: 32 word) = of_nat (?C h)" using cnt by (metis add_0)
    then have "h \<notin># refs sha p0" using small that by (metis not_in_iff of_nat_eq_iff word32_of_nat(1))
    then show ?thesis using old record_ok_cong [of "tr_store t'" h "tr_store t"] t'(5) [OF False]
      by (simp add: holds_def)
  qed
  have "holds sha (tr_mode t) (tr_store t') p" using written absent by (auto simp: holds_def)
  moreover have "cache_inv sha t'" using clean t'(2,4) by (auto simp: cache_inv_def clean_entry_def)
  moreover have "refcount_of t' h = 0" for h using clean [of h] by (auto simp: refcount_of_def clean_entry_def split: option.splits)
  ultimately show ?thesis using that t'(1-3) by blast
qed

section \<open>Reading a flushed trie back\<close>

definition saved :: "(bytes \<Rightarrow> uint256) \<Rightarrow> byte \<Rightarrow> (bytes \<rightharpoonup> bytes) \<Rightarrow> node \<Rightarrow> bool" where
  "saved sha m st p \<longleftrightarrow> (\<forall>b \<in> set (encodings sha p).
     \<exists>c. getFromStore (makeStorageKey (DoubleSha256 sha b)) m st = Inr (b @ trailer m c))"

lemma holds_saved: "wf_node p \<Longrightarrow> holds sha m st p \<Longrightarrow> saved sha m st p"
  by (fastforce simp: saved_def holds_def record_ok_def refs_encodings)

lemma stored_node_saved:
  assumes "real_mode m" and "fits q" and "proper q"
    and "getFromStore (makeStorageKey (Node_Hash sha q)) m st = Inr (encodeNodeWithType sha q @ trailer m c)"
  shows "stored_node m st (Node_Hash sha q) = Some (shallow sha q)"
proof -
  let ?data = "encodeNodeWithType sha q @ trailer m c"
  have "DecodeNodeWithType (reader_of ?data) = decode_node (Suc (Suc (length ?data))) (reader_of ?data)"
    unfolding DecodeNodeWithType_def by (rule decode_node_fuel) (simp_all add: Reader_Len_def)
  then have dec: "DecodeNodeWithType (NewBinReaderFromBuf ?data) = (Some (shallow sha q), reader_of (trailer m c))"
    using decode_encode_node [OF assms(2), of "length ?data" sha "trailer m c"]
    by (simp add: NewBinReaderFromBuf_def del: decode_node.simps)
  moreover have "shallow sha q \<noteq> EmptyNode" using assms(3) by (cases q) auto
  ultimately show ?thesis using assms(4)
    by (simp add: stored_node_def Trie_getFromStore_def NewTrie_def trailer_def)
qed

lemma Node_Hash_shallow: "proper q \<Longrightarrow> Node_Hash sha (shallow sha q) = Node_Hash sha q"
proof -
  have ref: "encodeBinaryAsChild sha (child_ref sha c) = encodeBinaryAsChild sha c" for c
    by (simp add: child_ref_def encodeBinaryAsChild_eq Node_Hash_def [of sha "HashNode _"])
  show ?thesis by (cases q) (simp_all add: Node_Hash_def encodeNodeWithType_def ref o_def)
qed

lemma saved_expands:
  assumes "real_mode m" and "wf_node p" and "fits_all p" and "saved sha m st p"
  shows "expands sha m st (child_ref sha p) p"
  using assms(2-)
proof (induction p)
  case EmptyNode
  then show ?case by (simp add: child_ref_def expands_empty)
next
  case (LeafNode v)
  then have "stored_node m st (Node_Hash sha (LeafNode v)) = Some (LeafNode v)"
    using stored_node_saved [OF assms(1), of "LeafNode v"] by (auto simp: saved_def Node_Hash_proper)
  then show ?case by (auto simp: child_ref_def intro: expands_hash expands_leaf)
next
  case (ExtensionNode k n)
  let ?p = "ExtensionNode k n"
  have "stored_node m st (Node_Hash sha ?p) = Some (shallow sha ?p)"
    using ExtensionNode.prems stored_node_saved [OF assms(1), of ?p]
    by (auto simp: saved_def Node_Hash_proper simp del: fits.simps shallow.simps dest: fits_all_fits)
  moreover have "expands sha m st (shallow sha ?p) ?p"
    using ExtensionNode by (auto simp: saved_def intro!: expands_extension)
  ultimately have "expands sha m st (HashNode (Node_Hash sha ?p)) ?p"
    using Node_Hash_shallow [of ?p] by (intro expands_hash) auto
  then show ?case by (simp add: child_ref_def)
next
  case (BranchNode cs)
  let ?p = "BranchNode cs"
  have "stored_node m st (Node_Hash sha ?p) = Some (shallow sha ?p)"
    using BranchNode.prems stored_node_saved [OF assms(1), of ?p]
    by (auto simp: saved_def Node_Hash_proper simp del: fits.simps shallow.simps dest: fits_all_fits)
  moreover have "expands sha m st (shallow sha ?p) ?p"
    using BranchNode
    by (auto simp: saved_def list_all_iff list_all2_conv_all_nth intro!: expands_branch)
  ultimately have "expands sha m st (HashNode (Node_Hash sha ?p)) ?p"
    using Node_Hash_shallow [of ?p] by (intro expands_hash) auto
  then show ?case by (simp add: child_ref_def)
qed auto

lemma saved_HashNode:
  assumes "real_mode m" and "wf_node p" and "fits_all p" and "saved sha m st p" and "p \<noteq> EmptyNode"
  shows "expands sha m st (HashNode (Node_Hash sha p)) p"
  using saved_expands [OF assms(1-4)] assms(5) by (simp add: child_ref_def)

lemma collapse_expands:
  assumes "real_mode m" and "expands sha m st n p" and "wf_node p" and "fits_all p" and "saved sha m st p"
  shows "expands sha m st (collapse sha d n) p"
  using assms(2-)
proof (induction arbitrary: d rule: expands.induct)
  case expands_empty
  then show ?case by (simp add: expands.expands_empty)
next
  case (expands_leaf v)
  then show ?case using saved_HashNode [OF assms(1) expands_leaf]
    by (cases d) (auto intro: expands.expands_leaf)
next
  case (expands_extension n p k)
  have "expands sha m st (ExtensionNode k n) (ExtensionNode k p)" using expands_extension.hyps by (rule expands.expands_extension)
  from expands_hash_eq [OF this] have h: "Node_Hash sha (ExtensionNode k n) = Node_Hash sha (ExtensionNode k p)" by simp
  have "wf_node p" "fits_all p" "saved sha m st p" using expands_extension.prems by (auto simp: saved_def)
  then show ?case using saved_HashNode [OF assms(1) expands_extension.prems] expands_extension.IH h
    by (cases d) (auto intro!: expands.expands_extension)
next
  case (expands_branch cs ds)
  have all: "list_all2 (expands sha m st) cs ds" using expands_branch.IH by (auto elim: list_all2_mono)
  from expands_hash_eq [OF expands.expands_branch [OF this]]
  have h: "Node_Hash sha (BranchNode cs) = Node_Hash sha (BranchNode ds)" by simp
  have sub: "wf_node c \<and> fits_all c \<and> saved sha m st c" if "c \<in> set ds" for c
    using expands_branch.prems that by (auto simp: saved_def list_all_iff)
  have "list_all2 (expands sha m st) (map (collapse sha k) cs) ds" for k
    using expands_branch.IH sub by (auto simp: list_all2_conv_all_nth)
  then show ?case using saved_HashNode [OF assms(1) expands_branch.prems] h
    by (cases d) (auto intro!: expands.expands_branch)
next
  case (expands_hash h n p)
  then show ?case by (auto intro: expands.expands_hash)
qed

text \<open>A trie in memory survives the change of store.\<close>

lemma expands_saved:
  assumes "real_mode m" and "expands sha m st n p" and "wf_node p" and "fits_all p" and "saved sha m st' p"
  shows "expands sha m st' n p"
  using assms(2-)
proof (induction rule: expands.induct)
  case (expands_extension n p k)
  then show ?case by (auto simp: saved_def intro!: expands.expands_extension)
next
  case (expands_branch cs ds)
  have sub: "wf_node c \<and> fits_all c \<and> saved sha m st' c" if "c \<in> set ds" for c
    using expands_branch.prems that by (auto simp: saved_def list_all_iff)
  then show ?case using expands_branch.IH by (intro expands.expands_branch) (auto simp: list_all2_conv_all_nth)
next
  case (expands_hash h n p)
  then have "Node_Hash sha p = h" "p \<noteq> EmptyNode" using expands_hash_eq [OF expands_hash.hyps(5)] by auto
  then show ?case using saved_HashNode [OF assms(1) expands_hash.prems] by simp
qed (auto intro: expands.intros)

lemma encodings_node:
  assumes "b \<in> set (encodings sha p)" and "wf_node p" and "fits_all p"
  obtains q where "proper q" "fits q" "b = encodeNodeWithType sha q"
proof -
  have "\<exists>q. proper q \<and> fits q \<and> b = encodeNodeWithType sha q"
    using assms
  proof (induction p)
    case (LeafNode v)
    then show ?case by (intro exI [of _ "LeafNode v"]) simp
  next
    case (ExtensionNode k n)
    then show ?case by (cases "b = encodeNodeWithType sha (ExtensionNode k n)")
      (auto intro!: exI [of _ "ExtensionNode k n"])
  next
    case (BranchNode cs)
    show ?case
    proof (cases "b = encodeNodeWithType sha (BranchNode cs)")
      case True
      then show ?thesis using BranchNode.prems by (intro exI [of _ "BranchNode cs"]) simp
    next
      case False
      then show ?thesis using BranchNode by (auto simp: list_all_iff)
    qed
  qed auto
  then show ?thesis using that by blast
qed

lemma holds_store_ok:
  assumes "holds sha m st p" and "wf_node p" and "fits_all p"
  shows "store_ok sha m st"
  unfolding store_ok_def
proof (intro impI allI)
  fix h data assume rc: "RC m" and data: "getFromStore (makeStorageKey h) m st = Inr data"
  then have "h \<in># refs sha p" using assms(1) by (auto simp: holds_def record_ok_def)
  then obtain b where b: "b \<in> set (encodings sha p)" "DoubleSha256 sha b = h" using in_refs [OF assms(2)] by blast
  obtain q where q: "proper q" "fits q" "b = encodeNodeWithType sha q" using encodings_node [OF b(1) assms(2,3)] .
  have "record_ok m st h b (count (refs sha p) h)" using assms(1) b by (auto simp: holds_def)
  then have "data = b @ 1 # put_le 4 (of_nat (count (refs sha p) h) :: uint32)"
    using \<open>h \<in># refs sha p\<close> data rc by (simp add: record_ok_def trailer_def)
  then show "\<exists>n c. fits n \<and> proper n \<and> Node_Hash sha n = h \<and> data = encodeNodeWithType sha n @ 1 # put_le 4 (c :: uint32)"
    using q b(2) Node_Hash_proper by blast
qed

section \<open>Properties\<close>

lemma cache_inv_root [simp]: "cache_inv sha (t\<lparr>tr_root := n\<rparr>) \<longleftrightarrow> cache_inv sha t"
  by (simp add: cache_inv_def)

lemma keepsD:
  "keeps sha t t' \<Longrightarrow> store_ok sha (tr_mode t) (tr_store t) \<Longrightarrow> cache_inv sha t \<Longrightarrow> cache_inv sha t'"
  by (simp add: keeps_def)

text \<open>
  The node cache stays sound under every operation: \<^verbatim>\<open>Get\<close>, \<^verbatim>\<open>Put\<close> and \<^verbatim>\<open>Delete\<close>, failing ones included,
  keep every cached byte string hashing to the key it is cached under, and every initial
  counter equal to the one in the store.
\<close>

theorem operations_keep_cache_inv:
  assumes "cache_inv sha t" and "store_ok sha (tr_mode t) (tr_store t)"
  shows "cache_inv sha (snd (Trie_Get fuel key t)) \<and> cache_inv sha (snd (Trie_Put sha fuel key value t)) \<and>
    cache_inv sha (snd (Trie_Delete sha fuel key t))"
proof (intro conjI)
  have "cache_inv sha (snd (getWithPath fuel (tr_root t) (toNibbles key) True t))"
    using keepsD [OF keeps_getWithPath assms(2,1)] .
  then show "cache_inv sha (snd (Trie_Get fuel key t))"
    using assms(1) by (auto simp: Trie_Get_def split: prod.splits sum.splits node.splits)
  have "cache_inv sha (snd (putIntoNode sha fuel (tr_root t) (toNibbles key) (LeafNode v) t))" for v
    using keepsD [OF keeps_putIntoNode assms(2,1)] .
  then show "cache_inv sha (snd (Trie_Put sha fuel key value t))"
    using assms(1) by (auto simp: Trie_Put_def split: prod.splits sum.splits option.splits) (metis snd_conv)+
  have "cache_inv sha (snd (deleteFromNode sha fuel (tr_root t) (toNibbles key) t))"
    using keepsD [OF keeps_deleteFromNode assms(2,1)] .
  then show "cache_inv sha (snd (Trie_Delete sha fuel key t))"
    using assms(1) by (auto simp: Trie_Delete_def split: prod.splits sum.splits)
qed

theorem operations_keep_cache_inv_witness:
  "cache_inv (\<lambda>_. 0) (snd (Trie_Get 8 [1] (NewTrie EmptyNode ModeLatest Map.empty))) \<and>
   cache_inv (\<lambda>_. 0) (snd (Trie_Put (\<lambda>_. 0) 8 [1] (Some [7]) (NewTrie EmptyNode ModeLatest Map.empty))) \<and>
   cache_inv (\<lambda>_. 0) (snd (Trie_Delete (\<lambda>_. 0) 8 [1] (NewTrie EmptyNode ModeLatest Map.empty)))"
  by (rule operations_keep_cache_inv) (simp_all add: store_ok_def getFromStore_def NewTrie_def cache_inv_def)

text \<open>
  C7. \<^verbatim>\<open>Flush\<close> makes the store hold the current trie. The store held the trie of the last flush, the
  counters are the difference between the two tries, and the hash has no collision among the
  byte strings involved: then flushing panics on no entry, and afterwards the store has every node
  of the trie under its hash, in the reference-counting modes with the exact number of
  references and no other active node; all counters are zero.
\<close>

theorem Trie_Flush_correct:
  assumes "real_mode (tr_mode t)" and "cache_inv sha t" and "wf_node p0" and "wf_node p"
    and "holds sha (tr_mode t) (tr_store t) p0"
    and "\<forall>h. refcount_of t h + of_nat (count (refs sha p0) h) = of_nat (count (refs sha p) h)"
    and "size (refs sha p0) < 2 ^ 31" and "size (refs sha p) < 2 ^ 31"
    and "inj_on (DoubleSha256 sha) (cached_bytes t \<union> set (encodings sha p0) \<union> set (encodings sha p))"
  shows "\<exists>t'. Trie_Flush index t = Inr t' \<and> holds sha (tr_mode t) (tr_store t') p \<and> cache_inv sha t' \<and>
    (\<forall>h. refcount_of t' h = 0)"
  using Trie_Flush_holds [OF assms] by metis

lemma holds_empty: "holds sha m Map.empty EmptyNode"
  by (simp add: holds_def record_ok_def getFromStore_def)

lemma one_leaf_state:
  fixes v m
  defines "t \<equiv> addNode (\<lambda>_. 0) (LeafNode v) (NewTrie (LeafNode v) m Map.empty)"
  shows "tr_mode t = m" "tr_store t = Map.empty" "tr_root t = LeafNode v" "cache_inv (\<lambda>_. 0) t"
    "\<forall>h. refcount_of t h + of_nat (count (refs (\<lambda>_. 0) EmptyNode) h) = of_nat (count (refs (\<lambda>_. 0) (LeafNode v)) h)"
    "inj_on (DoubleSha256 (\<lambda>_. 0)) (cached_bytes t \<union> set (encodings (\<lambda>_. 0) EmptyNode) \<union> set (encodings (\<lambda>_. 0) (LeafNode v)))"
proof -
  show "tr_mode t = m" "tr_store t = Map.empty" "tr_root t = LeafNode v" by (simp_all add: t_def NewTrie_def)
  have "keeps (\<lambda>_. 0) (NewTrie (LeafNode v) m Map.empty) t" unfolding t_def by (simp add: keeps_addNode)
  then show "cache_inv (\<lambda>_. 0) t" by (rule keepsD) (simp_all add: store_ok_def getFromStore_def NewTrie_def cache_inv_def)
  show "\<forall>h. refcount_of t h + of_nat (count (refs (\<lambda>_. 0) EmptyNode) h) = of_nat (count (refs (\<lambda>_. 0) (LeafNode v)) h)"
    by (simp add: t_def refcount_of_addNode) (simp add: refcount_of_def NewTrie_def)
  show "inj_on (DoubleSha256 (\<lambda>_. 0)) (cached_bytes t \<union> set (encodings (\<lambda>_. 0) EmptyNode) \<union> set (encodings (\<lambda>_. 0) (LeafNode v)))"
    by (auto simp: t_def cached_bytes_def NewTrie_def addNode_def addRef_def)
qed

theorem Trie_Flush_correct_witness:
  "\<exists>t'. Trie_Flush 5 (addNode (\<lambda>_. 0) (LeafNode [7]) (NewTrie (LeafNode [7]) ModeLatest Map.empty)) = Inr t' \<and>
     holds (\<lambda>_. 0) ModeLatest (tr_store t') (LeafNode [7]) \<and> cache_inv (\<lambda>_. 0) t' \<and> (\<forall>h. refcount_of t' h = 0)"
  using Trie_Flush_correct [of "addNode (\<lambda>_. 0) (LeafNode [7]) (NewTrie (LeafNode [7]) ModeLatest Map.empty)"
      "\<lambda>_. 0" EmptyNode "LeafNode [7]" 5] one_leaf_state [of "[7]" ModeLatest] holds_empty [of "\<lambda>_. 0" ModeLatest]
  by (simp add: real_mode_def)

text \<open>
  C8. Flushing and collapsing lose nothing: after \<^verbatim>\<open>Flush\<close>, \<^verbatim>\<open>Collapse\<close> to any depth gives a trie that
  holds the same map, and so does a new trie over the same store that starts from the root hash
  alone, which is how a node resumes from a stored state root.
\<close>

theorem Flush_Collapse_lossless:
  assumes "real_mode (tr_mode t)" and "cache_inv sha t" and "wf_node p0" and "wf_node p"
    and "holds sha (tr_mode t) (tr_store t) p0"
    and "\<forall>h. refcount_of t h + of_nat (count (refs sha p0) h) = of_nat (count (refs sha p) h)"
    and "size (refs sha p0) < 2 ^ 31" and "size (refs sha p) < 2 ^ 31"
    and "inj_on (DoubleSha256 sha) (cached_bytes t \<union> set (encodings sha p0) \<union> set (encodings sha p))"
    and "expands sha (tr_mode t) (tr_store t) (tr_root t) p" and "fits_all p" and "p \<noteq> EmptyNode"
    and "lookup p = nib_map M" and "0 \<le> depth"
  shows "\<exists>t' t''. Trie_Flush index t = Inr t' \<and> Trie_Collapse sha depth t' = Inr t'' \<and> trie_rep sha (refs sha p) M t'' \<and>
    trie_rep sha (refs sha p) M (NewTrie (HashNode (StateRoot sha t)) (tr_mode t) (tr_store t'))"
proof -
  obtain t' where t': "Trie_Flush index t = Inr t'" "tr_mode t' = tr_mode t" "tr_root t' = tr_root t"
    "holds sha (tr_mode t) (tr_store t') p" using Trie_Flush_holds [OF assms(1-9)] by metis
  have sv: "saved sha (tr_mode t) (tr_store t') p" using holds_saved assms(4) t'(4) by blast
  have "expands sha (tr_mode t) (tr_store t') (tr_root t') p"
    using expands_saved [OF assms(1,10,4,11) sv] t'(3) by simp
  from collapse_expands [OF assms(1) this assms(4,11) sv]
  have "trie_rep sha (refs sha p) M (t'\<lparr>tr_root := collapse sha (nat depth) (tr_root t'), tr_refcount := []\<rparr>)"
    using t'(2) assms(4,13) by (auto simp: trie_rep_def refcount_of_def)
  moreover have "StateRoot sha t = Node_Hash sha p"
    using expands_hash_eq [OF assms(10)] assms(12) by (simp add: StateRoot_def)
  moreover have "trie_rep sha (refs sha p) M (NewTrie (HashNode (StateRoot sha t)) (tr_mode t) (tr_store t'))"
    using saved_HashNode [OF assms(1,4,11) sv assms(12)] assms(4,13) calculation(2)
    by (auto simp: trie_rep_def refcount_of_def NewTrie_def)
  ultimately show ?thesis using t'(1) assms(14) by (auto simp: Trie_Collapse_def)
qed

theorem Flush_Collapse_lossless_witness:
  "\<exists>t' t''. Trie_Flush 5 (addNode (\<lambda>_. 0) (LeafNode [7]) (NewTrie (LeafNode [7]) ModeLatest Map.empty)) = Inr t' \<and>
     Trie_Collapse (\<lambda>_. 0) 0 t' = Inr t'' \<and> trie_rep (\<lambda>_. 0) (refs (\<lambda>_. 0) (LeafNode [7])) [[] \<mapsto> [7]] t'' \<and>
     trie_rep (\<lambda>_. 0) (refs (\<lambda>_. 0) (LeafNode [7])) [[] \<mapsto> [7]]
       (NewTrie (HashNode (StateRoot (\<lambda>_. 0) (addNode (\<lambda>_. 0) (LeafNode [7]) (NewTrie (LeafNode [7]) ModeLatest Map.empty))))
         ModeLatest (tr_store t'))"
proof -
  have "lookup (LeafNode [7]) = nib_map [[] \<mapsto> [7]]"
    by (auto simp: nib_map_upd fun_eq_iff)
  then show ?thesis
    using Flush_Collapse_lossless [of "addNode (\<lambda>_. 0) (LeafNode [7]) (NewTrie (LeafNode [7]) ModeLatest Map.empty)"
      "\<lambda>_. 0" EmptyNode "LeafNode [7]" "[[] \<mapsto> [7]]" 0 5] one_leaf_state [of "[7]" ModeLatest]
      holds_empty [of "\<lambda>_. 0" ModeLatest]
    by (simp add: real_mode_def expands_leaf mpt_limits del: lookup.simps)
qed

end
