(* ===== verification/Mpt_Batch.thy ===== *)
theory Mpt_Batch
  imports Mpt_Flush
begin

text \<open>
  Batch updates (\<^verbatim>\<open>pkg/core/mpt/batch.go\<close>): a sorted list of changes is pushed into the trie in one
  recursion, which removes and counts every touched node once. The batch is proved to do
  what the changes do one by one.

  A batch operation returns a node, the number of items processed and an error, all three, since the
  code goes on with a partly updated node after a storage error. Panics and exhausted fuel stop it.
\<close>

section \<open>Batches\<close>

type_synonym keyValue = "bytes \<times> bytes option"

text \<open>\<^verbatim>\<open>MapToMPTBatch\<close>; the value \<open>None\<close> is a deletion.\<close>

definition MapToMPTBatch :: "(bytes, bytes option) gomap \<Rightarrow> keyValue list option" where
  "MapToMPTBatch m =
     (let ks = map (\<lambda>(k, v). (strToNibbles k, v)) m in
      if \<exists>(k, v) \<in> set ks. k = None then None
      else Some (sort_key fst (map (\<lambda>(k, v). (the k, v)) ks)))"

fun lcpMany :: "keyValue list \<Rightarrow> bytes" where
  "lcpMany [] = []"
| "lcpMany [kv] = fst kv"
| "lcpMany (kv1 # kv2 # kvs) =
     (let p = lcp (fst kv1) (fst kv2) in
      if length p = 0 then p else foldl (\<lambda>p kv. lcp p (fst kv)) p kvs)"

definition stripPrefix :: "nat \<Rightarrow> keyValue list \<Rightarrow> keyValue list" where
  "stripPrefix n kvs = map (\<lambda>(k, v). (drop n k, v)) kvs"

text \<open>The first index and the length of the run of keys that share it; \<open>None\<close> is an index panic.\<close>

fun same_run :: "byte \<Rightarrow> keyValue list \<Rightarrow> nat option" where
  "same_run c [] = Some 0"
| "same_run c ((k, v) # kvs) =
     (case k of
        [] \<Rightarrow> None
      | b # r \<Rightarrow> if b \<noteq> c then Some 0 else map_option Suc (same_run c kvs))"

fun getLastIndex :: "keyValue list \<Rightarrow> (nat \<times> nat) option" where
  "getLastIndex [] = None"
| "getLastIndex ((k, v) # kvs) =
     (case k of
        [] \<Rightarrow> Some (lastChild, 1)
      | c # r \<Rightarrow> map_option (\<lambda>i. (unat c, Suc i)) (same_run c kvs))"

lemma getLastIndex_pos: "getLastIndex kvs = Some (c, i) \<Longrightarrow> 0 < i"
  by (cases kvs rule: getLastIndex.cases) (auto split: list.splits)

text \<open>\<^verbatim>\<open>iterateBatch\<close> over a state \<open>s\<close> that the callback updates.\<close>

function iterateBatch ::
  "(nat \<Rightarrow> keyValue list \<Rightarrow> 's \<Rightarrow> (nat \<times> mpt_err option) \<times> 's) \<Rightarrow> keyValue list \<Rightarrow> 's \<Rightarrow> (nat \<times> mpt_err option) \<times> 's" where
  "iterateBatch f kvs s =
     (if kvs = [] then ((0, None), s)
      else
        case getLastIndex kvs of
          None \<Rightarrow> ((0, Some Panic), s)
        | Some (c, i) \<Rightarrow>
            (let run = (if c \<noteq> lastChild then stripPrefix 1 (take i kvs) else take i kvs) in
             case f c run s of
               ((sub, Some e), s) \<Rightarrow> ((sub, Some e), s)
             | ((sub, None), s) \<Rightarrow>
                 (case iterateBatch f (drop i kvs) s of ((n, err), s) \<Rightarrow> ((sub + n, err), s))))"
  by pat_completeness auto
termination
  by (relation "measure (\<lambda>(f, kvs, s). length kvs)") (auto dest: getLastIndex_pos)

declare iterateBatch.simps [simp del]

section \<open>Merging and stripping\<close>

fun mergeExtension ::
  "(bytes \<Rightarrow> uint256) \<Rightarrow> nat \<Rightarrow> bytes \<Rightarrow> node \<Rightarrow> trie \<Rightarrow> (node \<times> mpt_err option) \<times> trie" where
  "mergeExtension sha 0 pfx sub t = ((sub, Some OutOfFuel), t)"
| "mergeExtension sha (Suc fuel) pfx sub t =
     (case sub of
        ExtensionNode key nxt \<Rightarrow>
          (let t = removeNode sha sub t; sn = ExtensionNode (pfx @ key) nxt
           in ((sn, None), addNode sha sn t))
      | EmptyNode \<Rightarrow> ((sub, None), t)
      | HashNode h \<Rightarrow>
          (case Trie_getFromStore h t of
             (Inl e, t) \<Rightarrow> ((sub, Some e), t)
           | (Inr n, t) \<Rightarrow> mergeExtension sha fuel pfx n t)
      | _ \<Rightarrow>
          if length pfx \<noteq> 0 then let e = ExtensionNode pfx sub in ((e, None), addNode sha e t)
          else ((sub, None), t))"

definition stripBranch ::
  "(bytes \<Rightarrow> uint256) \<Rightarrow> nat \<Rightarrow> node list \<Rightarrow> trie \<Rightarrow> (node \<times> mpt_err option) \<times> trie" where
  "stripBranch sha fuel cs t =
     (let (n, lastIndex) = count_children cs in
      if n = 0 then ((EmptyNode, None), t)
      else if n = 1 then
        if lastIndex \<noteq> lastChild then mergeExtension sha fuel [word_of_nat lastIndex] (cs ! lastIndex) t
        else ((cs ! lastIndex, None), t)
      else ((BranchNode cs, None), addNode sha (BranchNode cs) t))"

section \<open>Batch insertion\<close>

type_synonym batch_put = "node \<Rightarrow> keyValue list \<Rightarrow> trie \<Rightarrow> (node \<times> nat \<times> mpt_err option) \<times> trie"

text \<open>The callback of \<^verbatim>\<open>addToBranch\<close>, on the children and the trie.\<close>

definition put_child ::
  "batch_put \<Rightarrow> nat \<Rightarrow> keyValue list \<Rightarrow> node list \<times> trie \<Rightarrow> (nat \<times> mpt_err option) \<times> node list \<times> trie" where
  "put_child put c kvs s =
     (case s of (cs, t) \<Rightarrow>
        if c < length cs then
          (case put (cs ! c) kvs t of ((child, n, err), t) \<Rightarrow> ((n, err), (cs[c := child], t)))
        else ((0, Some Panic), (cs, t)))"

text \<open>The merge of a result with the prefix above it, when there was no error.\<close>

definition merge_result ::
  "(bytes \<Rightarrow> uint256) \<Rightarrow> nat \<Rightarrow> bytes \<Rightarrow> (node \<times> nat \<times> mpt_err option) \<times> trie \<Rightarrow> (node \<times> nat \<times> mpt_err option) \<times> trie" where
  "merge_result sha fuel pfx r =
     (case r of
        ((sub, n, None), t) \<Rightarrow>
          (case mergeExtension sha fuel pfx sub t of ((nd, err), t) \<Rightarrow> ((nd, n, err), t))
      | ((sub, n, Some e), t) \<Rightarrow> ((sub, n, Some e), t))"

definition addToBranch ::
  "(bytes \<Rightarrow> uint256) \<Rightarrow> nat \<Rightarrow> batch_put \<Rightarrow> node list \<Rightarrow> keyValue list \<Rightarrow> bool \<Rightarrow> trie \<Rightarrow> (node \<times> nat \<times> mpt_err option) \<times> trie" where
  "addToBranch sha fuel put cs kvs inTrie t =
     (let t = (if inTrie then removeNode sha (BranchNode cs) t else t) in
      case iterateBatch (put_child put) kvs (cs, t) of
        ((n, err), (cs, t)) \<Rightarrow>
          if err = Some Panic \<or> err = Some OutOfFuel then ((BranchNode cs, n, err), t)
          else
            (case stripBranch sha fuel cs t of
               ((nd, bErr), t) \<Rightarrow> ((nd, n, if err = None then bErr else err), t)))"

fun newSubTrieMany ::
  "(bytes \<Rightarrow> uint256) \<Rightarrow> nat \<Rightarrow> batch_put \<Rightarrow> bytes \<Rightarrow> keyValue list \<Rightarrow> bytes option \<Rightarrow> trie \<Rightarrow>
   (node \<times> nat \<times> mpt_err option) \<times> trie" where
  "newSubTrieMany sha fuel put pfx [] value t = ((EmptyNode, 0, Some Panic), t)"
| "newSubTrieMany sha fuel put pfx ((k, v) # kvs) value t =
     (if k = [] \<and> v = None then
        if kvs = [] then ((EmptyNode, 1, None), t)
        else
          (case newSubTrieMany sha fuel put pfx kvs None t of
             ((nd, n, err), t) \<Rightarrow> ((nd, n + 1, err), t))
      else if k = [] \<and> kvs = [] then
        (let (nd, t) = newSubTrie sha pfx (LeafNode (the v)) True t in ((nd, 1, None), t))
      else
        let value = (if k = [] then v else value);
            (b, t) = (case value of
                        None \<Rightarrow> (NewBranchNode, t)
                      | Some w \<Rightarrow> (NewBranchNode[lastChild := LeafNode w], addNode sha (LeafNode w) t))
        in merge_result sha fuel pfx (addToBranch sha fuel put b ((k, v) # kvs) False t))"

definition putBatchIntoLeaf ::
  "(bytes \<Rightarrow> uint256) \<Rightarrow> nat \<Rightarrow> batch_put \<Rightarrow> bytes \<Rightarrow> keyValue list \<Rightarrow> trie \<Rightarrow> (node \<times> nat \<times> mpt_err option) \<times> trie" where
  "putBatchIntoLeaf sha fuel put value kvs t =
     newSubTrieMany sha fuel put [] kvs (Some value) (removeNode sha (LeafNode value) t)"

definition putBatchIntoExtensionNoPrefix ::
  "(bytes \<Rightarrow> uint256) \<Rightarrow> nat \<Rightarrow> batch_put \<Rightarrow> bytes \<Rightarrow> node \<Rightarrow> keyValue list \<Rightarrow> trie \<Rightarrow> (node \<times> nat \<times> mpt_err option) \<times> trie" where
  "putBatchIntoExtensionNoPrefix sha fuel put key nxt kvs t =
     (if key \<noteq> [] \<and> unat (hd key) < childrenCount then
        let (c, t) = (if length key > 1 then newSubTrie sha (tl key) nxt False t else (nxt, t))
        in addToBranch sha fuel put (NewBranchNode[unat (hd key) := c]) kvs False t
      else ((EmptyNode, 0, Some Panic), t))"

definition putBatchIntoExtension ::
  "(bytes \<Rightarrow> uint256) \<Rightarrow> nat \<Rightarrow> batch_put \<Rightarrow> bytes \<Rightarrow> node \<Rightarrow> keyValue list \<Rightarrow> trie \<Rightarrow> (node \<times> nat \<times> mpt_err option) \<times> trie" where
  "putBatchIntoExtension sha fuel put key nxt kvs t =
     (let t = removeNode sha (ExtensionNode key nxt) t;
          common = lcpMany kvs;
          pref = lcp common key
      in if length pref = length key then
           merge_result sha fuel pref (put nxt (stripPrefix (length key) kvs) t)
         else if length pref \<noteq> 0 then
           merge_result sha fuel pref
             (putBatchIntoExtensionNoPrefix sha fuel put (drop (length pref) key) nxt (stripPrefix (length pref) kvs) t)
         else putBatchIntoExtensionNoPrefix sha fuel put key nxt kvs t)"

definition putBatchIntoEmpty ::
  "(bytes \<Rightarrow> uint256) \<Rightarrow> nat \<Rightarrow> batch_put \<Rightarrow> keyValue list \<Rightarrow> trie \<Rightarrow> (node \<times> nat \<times> mpt_err option) \<times> trie" where
  "putBatchIntoEmpty sha fuel put kvs t =
     (let common = lcpMany kvs in newSubTrieMany sha fuel put common (stripPrefix (length common) kvs) None t)"

definition putBatchIntoHash ::
  "batch_put \<Rightarrow> uint256 \<Rightarrow> keyValue list \<Rightarrow> trie \<Rightarrow> (node \<times> nat \<times> mpt_err option) \<times> trie" where
  "putBatchIntoHash put h kvs t =
     (case Trie_getFromStore h t of
        (Inl e, t) \<Rightarrow> ((HashNode h, 0, Some e), t)
      | (Inr result, t) \<Rightarrow> put result kvs t)"

fun putBatchIntoNode ::
  "(bytes \<Rightarrow> uint256) \<Rightarrow> nat \<Rightarrow> node \<Rightarrow> keyValue list \<Rightarrow> trie \<Rightarrow> (node \<times> nat \<times> mpt_err option) \<times> trie" where
  "putBatchIntoNode sha 0 cur kvs t = ((cur, 0, Some OutOfFuel), t)"
| "putBatchIntoNode sha (Suc fuel) cur kvs t =
     (case cur of
        LeafNode v \<Rightarrow> putBatchIntoLeaf sha fuel (putBatchIntoNode sha fuel) v kvs t
      | BranchNode cs \<Rightarrow> addToBranch sha fuel (putBatchIntoNode sha fuel) cs kvs True t
      | ExtensionNode key nxt \<Rightarrow> putBatchIntoExtension sha fuel (putBatchIntoNode sha fuel) key nxt kvs t
      | HashNode h \<Rightarrow> putBatchIntoHash (putBatchIntoNode sha fuel) h kvs t
      | EmptyNode \<Rightarrow> putBatchIntoEmpty sha fuel (putBatchIntoNode sha fuel) kvs t)"

definition PutBatch :: "(bytes \<Rightarrow> uint256) \<Rightarrow> nat \<Rightarrow> keyValue list \<Rightarrow> trie \<Rightarrow> (nat \<times> mpt_err option) \<times> trie" where
  "PutBatch sha fuel kvs t =
     (if length kvs = 0 then ((0, None), t)
      else
        case putBatchIntoNode sha fuel (tr_root t) kvs t of
          ((r, n, err), t) \<Rightarrow> ((n, err), t\<lparr>tr_root := r\<rparr>))"

section \<open>Sorted batches\<close>

definition batch_ok :: "keyValue list \<Rightarrow> bool" where
  "batch_ok kvs \<longleftrightarrow> sorted_wrt (<) (map fst kvs) \<and> (\<forall>k \<in> fst ` set kvs. nibbles k)"

definition upd_batch :: "keyValue list \<Rightarrow> (bytes \<rightharpoonup> bytes) \<Rightarrow> (bytes \<rightharpoonup> bytes)" where
  "upd_batch kvs M k = (case map_of kvs k of None \<Rightarrow> M k | Some v \<Rightarrow> v)"

lemma upd_batch_Nil [simp]: "upd_batch [] M = M"
  by (simp add: upd_batch_def fun_eq_iff)

lemma upd_batch_single: "upd_batch [(k, v)] M = M(k := v)"
  by (auto simp: upd_batch_def fun_eq_iff)

lemma upd_batch_append:
  "upd_batch (xs @ ys) M = upd_batch xs (upd_batch ys M)"
  by (auto simp: upd_batch_def fun_eq_iff map_of_append split: option.splits)

lemma batch_ok_Cons: "batch_ok ((k, v) # kvs) \<longleftrightarrow> nibbles k \<and> (\<forall>k' \<in> fst ` set kvs. k < k') \<and> batch_ok kvs"
  by (auto simp: batch_ok_def)

lemma batch_ok_append: "batch_ok (xs @ ys) \<longleftrightarrow>
    batch_ok xs \<and> batch_ok ys \<and> (\<forall>k \<in> fst ` set xs. \<forall>k' \<in> fst ` set ys. k < k')"
  by (auto simp: batch_ok_def sorted_wrt_append)

lemma batch_ok_strip:
  assumes "batch_ok kvs" and "\<forall>k \<in> fst ` set kvs. \<exists>r. k = p @ r"
  shows "batch_ok (stripPrefix (length p) kvs)"
  using assms
proof (induction kvs)
  case (Cons kv kvs)
  obtain k v where kv: "kv = (k, v)" by fastforce
  have less: "p @ a < p @ b \<longleftrightarrow> a < b" for a b :: bytes by (induction p) auto
  have "\<forall>k' \<in> fst ` set (stripPrefix (length p) kvs). drop (length p) k < k'"
    using Cons.prems kv less by (fastforce simp: stripPrefix_def batch_ok_Cons)
  moreover have "batch_ok (stripPrefix (length p) kvs)" using Cons kv by (simp add: batch_ok_Cons)
  ultimately show ?case using Cons.prems kv by (simp add: stripPrefix_def batch_ok_Cons)
qed (simp add: stripPrefix_def batch_ok_def)

lemma map_of_strip:
  assumes "\<forall>k \<in> fst ` set kvs. \<exists>r. k = p @ r"
  shows "map_of (stripPrefix (length p) kvs) q = map_of kvs (p @ q)"
  using assms by (induction kvs) (auto simp: stripPrefix_def)

lemma map_of_no_prefix:
  assumes "\<forall>k \<in> fst ` set kvs. \<exists>r. k = p @ r" and "\<nexists>r. q = p @ r"
  shows "map_of kvs q = None"
  using assms by (metis map_of_eq_None_iff)

text \<open>The run that \<^verbatim>\<open>getLastIndex\<close> finds.\<close>

lemma same_run_spec:
  assumes "batch_ok kvs" and "\<forall>k \<in> fst ` set kvs. [c] \<le> k"
  shows "\<exists>i. same_run c kvs = Some i \<and> i \<le> length kvs \<and> (\<forall>k \<in> fst ` set (take i kvs). \<exists>r. k = c # r) \<and>
    (\<forall>k \<in> fst ` set (drop i kvs). \<exists>b r. k = b # r \<and> c < b)"
  using assms
proof (induction kvs)
  case (Cons kv kvs)
  obtain k v where kv: "kv = (k, v)" by fastforce
  obtain b r where k: "k = b # r" "c \<le> b" using Cons.prems(2) kv by (cases k) auto
  show ?case
  proof (cases "b = c")
    case True
    have "\<exists>i. same_run c kvs = Some i \<and> i \<le> length kvs \<and> (\<forall>k \<in> fst ` set (take i kvs). \<exists>r. k = c # r) \<and>
      (\<forall>k \<in> fst ` set (drop i kvs). \<exists>b r. k = b # r \<and> c < b)"
      using Cons kv by (simp add: batch_ok_Cons)
    then obtain i where "same_run c kvs = Some i" "i \<le> length kvs" "\<forall>k \<in> fst ` set (take i kvs). \<exists>r. k = c # r"
      "\<forall>k \<in> fst ` set (drop i kvs). \<exists>b r. k = b # r \<and> c < b" by blast
    then show ?thesis using kv k True by (intro exI [of _ "Suc i"]) simp
  next
    case False
    have "\<exists>b' r'. k' = b' # r' \<and> c < b'" if "k' \<in> fst ` set kvs" for k'
    proof -
      have "b # r < k'" using Cons.prems(1) kv k that by (auto simp: batch_ok_Cons)
      then show ?thesis using k(2) False by (cases k') auto
    qed
    then show ?thesis using kv k False by (intro exI [of _ 0]) auto
  qed
qed simp

lemma getLastIndex_spec:
  assumes "batch_ok kvs" and "kvs \<noteq> []"
  obtains c i where "getLastIndex kvs = Some (c, i)" "0 < i" "i \<le> length kvs" "c < childrenCount"
    "\<forall>k \<in> fst ` set (take i kvs). fst (splitPath k) = c"
    "\<forall>k \<in> fst ` set (drop i kvs). fst (splitPath k) \<noteq> c"
    "c = lastChild \<Longrightarrow> \<exists>v. take i kvs = [([], v)]"
    "c \<noteq> lastChild \<Longrightarrow> \<forall>k \<in> fst ` set (take i kvs). \<exists>r. k = [word_of_nat c] @ r"
proof -
  obtain k v rest where kvs: "kvs = (k, v) # rest" using assms(2) by (cases kvs) auto
  have later: "\<forall>k' \<in> fst ` set rest. k < k'" "nibbles k" "batch_ok rest" using assms(1) kvs by (simp_all add: batch_ok_Cons)
  show ?thesis
  proof (cases k)
    case Nil
    have "fst (splitPath k') \<noteq> lastChild" if "k' \<in> fst ` set rest" for k'
    proof -
      have "k' \<noteq> []" using later(1) that Nil by auto
      moreover have "nibbles k'" using later(3) that by (auto simp: batch_ok_def)
      ultimately show ?thesis by (cases k') (auto simp: splitPath_def mpt_limits)
    qed
    then show ?thesis using kvs Nil
      by (intro that [of lastChild 1]) (auto simp: splitPath_def mpt_limits)
  next
    case (Cons c r)
    have "\<forall>k' \<in> fst ` set rest. [c] \<le> k'"
    proof
      fix k' assume "k' \<in> fst ` set rest"
      then have "c # r < k'" using later(1) Cons by auto
      then show "[c] \<le> k'" by (cases k') auto
    qed
    from same_run_spec [OF later(3) this] obtain i where i: "same_run c rest = Some i" "i \<le> length rest"
      "\<forall>k \<in> fst ` set (take i rest). \<exists>r. k = c # r" "\<forall>k \<in> fst ` set (drop i rest). \<exists>b r. k = b # r \<and> c < b" by blast
    have c: "unat c < lastChild" using later(2) Cons by (simp add: mpt_limits)
    have "fst (splitPath k') \<noteq> unat c" if "k' \<in> fst ` set (drop i rest)" for k'
    proof -
      obtain b r' where "k' = b # r'" "c < b" using i(4) \<open>k' \<in> _\<close> by blast
      moreover from this have "unat b \<noteq> unat c" by (metis order_less_irrefl word_unat_eq_iff)
      ultimately show ?thesis by (simp add: splitPath_def)
    qed
    moreover have "fst (splitPath k') = unat c" if "k' \<in> fst ` set (take i rest)" for k'
      using i(3) that by (auto simp: splitPath_def)
    ultimately show ?thesis using kvs Cons i c
      by (intro that [of "unat c" "Suc i"]) (auto simp: splitPath_def mpt_limits)
  qed
qed

lemma take_drop_batch:
  assumes "batch_ok kvs"
  shows "batch_ok (take i kvs)" "batch_ok (drop i kvs)"
  using assms batch_ok_append [of "take i kvs" "drop i kvs"] by simp_all

section \<open>Branches under a batch\<close>

definition children_ok :: "node list \<Rightarrow> bool" where
  "children_ok ds \<longleftrightarrow> length ds = childrenCount \<and> (\<forall>c \<in> set ds. wf_node c) \<and>
     (ds ! lastChild = EmptyNode \<or> (\<exists>w. ds ! lastChild = LeafNode w))"

lemma children_ok_branch: "wf_node (BranchNode ds) \<Longrightarrow> children_ok ds"
  by (auto simp: children_ok_def split: node.splits)

lemma wf_branch_children_ok:
  "children_ok ds \<Longrightarrow> 2 \<le> length (filter (\<lambda>c. c \<noteq> EmptyNode) ds) \<Longrightarrow> wf_node (BranchNode ds)"
  by (auto simp: children_ok_def)

lemma lookup_branch_run:
  assumes len: "length ds = childrenCount" and c: "c < childrenCount"
    and idx: "\<forall>k \<in> fst ` set run. fst (splitPath k) = c" and nib: "\<forall>k \<in> fst ` set run. nibbles k"
    and r: "lookup r = upd_batch (map (\<lambda>(k, v). (snd (splitPath k), v)) run) (lookup (ds ! c))"
  shows "lookup (BranchNode (ds[c := r])) = upd_batch run (lookup (BranchNode ds))"
proof
  fix q
  have strip: "map_of (map (\<lambda>(k, v). (snd (splitPath k), v)) run) (snd (splitPath q)) = map_of run q"
    if "fst (splitPath q) = c" "nibbles q"
    using idx nib
  proof (induction run)
    case (Cons kv run)
    have "splitPath (fst kv) = splitPath q \<longleftrightarrow> fst kv = q"
      using Cons.prems that by (cases "fst kv"; cases q) (auto simp: splitPath_def mpt_limits word_unat_eq_iff)
    then have "snd (splitPath (fst kv)) = snd (splitPath q) \<longleftrightarrow> fst kv = q"
      using Cons.prems that by (auto simp: prod_eq_iff)
    then show ?case using Cons by (cases kv) auto
  qed simp
  have other: "map_of run q = None" if "fst (splitPath q) \<noteq> c \<or> \<not> nibbles q"
    using idx nib that by (metis map_of_eq_None_iff)
  show "lookup (BranchNode (ds[c := r])) q = upd_batch run (lookup (BranchNode ds)) q"
  proof (cases q)
    case Nil
    then show ?thesis using strip other len c r
      by (cases "c = lastChild") (auto simp: lookup_branch_Nil splitPath_def upd_batch_def split: option.splits)
  next
    case (Cons j q')
    show ?thesis
    proof (cases "unat j = c \<and> unat j < lastChild")
      case True
      show ?thesis
      proof (cases "nibbles q'")
        case True
        then show ?thesis using \<open>unat j = c \<and> unat j < lastChild\<close> Cons strip len c r
          by (simp add: lookup_branch_Cons upd_batch_def splitPath_def mpt_limits split: option.splits)
      next
        case False
        have "q' \<notin> fst ` set (map (\<lambda>(k, v). (snd (splitPath k), v)) run)"
        proof
          assume "q' \<in> fst ` set (map (\<lambda>(k, v). (snd (splitPath k), v)) run)"
          then obtain k where "k \<in> fst ` set run" "snd (splitPath k) = q'" by force
          then show False using nib False splitPath_nibbles(2) [of k] by (metis prod.collapse)
        qed
        then have "map_of (map (\<lambda>(k, v). (snd (splitPath k), v)) run) q' = None" by (metis map_of_eq_None_iff)
        moreover have "map_of run q = None" using other False Cons by simp
        ultimately show ?thesis using \<open>unat j = c \<and> unat j < lastChild\<close> Cons len c r
          by (simp add: lookup_branch_Cons upd_batch_def split: option.splits)
      qed
    next
      case False
      then have "map_of run q = None" using other Cons by (auto simp: splitPath_def mpt_limits)
      then show ?thesis using False Cons len by (auto simp: lookup_branch_Cons upd_batch_def split: option.splits)
    qed
  qed
qed

section \<open>The contract of a batch operation\<close>

definition beneath :: "bytes \<Rightarrow> (bytes \<rightharpoonup> bytes) \<Rightarrow> (bytes \<rightharpoonup> bytes)" where
  "beneath p M path = (if has_prefix path p then M (drop (length p) path) else None)"

lemma under_Nil [simp]: "beneath [] M = M"
  by (simp add: beneath_def fun_eq_iff)

lemma under_empty [simp]: "beneath p Map.empty = Map.empty"
  by (simp add: beneath_def fun_eq_iff)

lemma lookup_sub_under: "lookup (sub_node p n) = beneath p (lookup n)"
  by (simp add: beneath_def lookup_sub_node fun_eq_iff)

lemma under_extension: "k \<noteq> [] \<Longrightarrow> lookup (ExtensionNode k n) = beneath k (lookup n)"
  using lookup_sub_under [of k n] by (simp add: sub_node_def)

lemma under_append: "beneath (p @ q) M = beneath p (beneath q M)"
  by (auto simp: beneath_def fun_eq_iff has_prefix_iff)

definition byields ::
  "(bytes \<Rightarrow> uint256) \<Rightarrow> trie \<Rightarrow> uint256 multiset \<Rightarrow> (bytes \<rightharpoonup> bytes) \<Rightarrow> nat \<Rightarrow> (node \<times> nat \<times> mpt_err option) \<times> trie \<Rightarrow> bool" where
  "byields sha t A M k r \<longleftrightarrow> (\<exists>n t'. r = ((n, k, None), t') \<and> yields sha t A M (Inr n, t'))"

lemma byields_after: "shifts t t1 A B \<Longrightarrow> byields sha t1 B M k r \<Longrightarrow> byields sha t A M k r"
  by (auto simp: byields_def intro: yields_after)

lemma byieldsE:
  assumes "byields sha t A M k r"
  obtains n p t' where "r = ((n, k, None), t')" "expands sha (tr_mode t) (tr_store t) n p" "wf_node p"
    "lookup p = M" "shifts t t' A (refs sha p)" "settled n p"
  using assms by (auto simp: byields_def elim!: yieldsE)

lemma merge_plain:
  assumes exp: "expands sha (tr_mode t) (tr_store t) c q" and wf: "wf_node q" and nib: "nibbles pfx"
    and plain: "\<nexists>h. c = HashNode h"
  shows "\<exists>n t'. mergeExtension sha (Suc fuel) pfx c t = ((n, None), t') \<and>
    yields sha t (refs sha q) (beneath pfx (lookup q)) (Inr n, t')"
proof -
  have wf': "wf_node (merged pfx q)" using wf_merged [OF wf nib] .
  have map: "lookup (merged pfx q) = beneath pfx (lookup q)" by (simp only: lookup_merged lookup_sub_under)
  show ?thesis
  proof (cases c)
    case EmptyNode
    then have "merged pfx q = EmptyNode" "refs sha q = {#}" using exp by (auto simp: merged_def)
    then show ?thesis using EmptyNode map wf' 
      by (intro exI [of _ EmptyNode] exI [of _ t] conjI yieldsI [where p' = EmptyNode]) (auto intro: expands_empty)
  next
    case (ExtensionNode k n)
    then obtain p where p: "q = ExtensionNode k p" "expands sha (tr_mode t) (tr_store t) n p" using exp by auto
    let ?e = "ExtensionNode (pfx @ k) n" and ?t = "addNode sha (ExtensionNode (pfx @ k) n) (removeNode sha c t)"
    have "yields sha t (refs sha q) (beneath pfx (lookup q)) (Inr ?e, ?t)"
      using refs_merged_extension [OF p(2), of t t "refs sha q" k pfx] p wf' map ExtensionNode
      by (intro yieldsI [where p' = "merged pfx q"]) (auto simp: merged_def intro: expands_extension simp del: refs.simps lookup.simps wf_node.simps)
    then show ?thesis using ExtensionNode by (auto simp: Let_def)
  next
    case (HashNode h)
    then show ?thesis using plain by blast
  next
    case (LeafNode v)
    then have q: "q = LeafNode v" "merged pfx q = sub_node pfx q" using exp by (auto simp: merged_def)
    obtain t' where t': "newSubTrie sha pfx c False t = (sub_node pfx c, t')"
      "shifts t t' (refs sha q) (refs sha (sub_node pfx q))" using newSubTrie_old [OF exp] by metis
    then have "yields sha t (refs sha q) (beneath pfx (lookup q)) (Inr (sub_node pfx c), t')"
      using expands_sub_node [OF exp, of pfx] wf' map q LeafNode settled_sub_node [of c q pfx]
      by (intro yieldsI [where p' = "merged pfx q"]) (simp_all del: lookup.simps refs.simps)
    moreover have "mergeExtension sha (Suc fuel) pfx c t = ((sub_node pfx c, None), t')"
      using t'(1) LeafNode by (auto simp: newSubTrie_def sub_node_def Let_def)
    ultimately show ?thesis by blast
  next
    case (BranchNode cs)
    then have q: "merged pfx q = sub_node pfx q" using exp by (auto simp: merged_def)
    obtain t' where t': "newSubTrie sha pfx c False t = (sub_node pfx c, t')"
      "shifts t t' (refs sha q) (refs sha (sub_node pfx q))" using newSubTrie_old [OF exp] by metis
    then have "yields sha t (refs sha q) (beneath pfx (lookup q)) (Inr (sub_node pfx c), t')"
      using expands_sub_node [OF exp, of pfx] wf' map q BranchNode settled_sub_node [of c q pfx]
      by (intro yieldsI [where p' = "merged pfx q"]) (simp_all del: lookup.simps refs.simps)
    moreover have "mergeExtension sha (Suc fuel) pfx c t = ((sub_node pfx c, None), t')"
      using t'(1) BranchNode by (auto simp: newSubTrie_def sub_node_def Let_def)
    ultimately show ?thesis by blast
  qed
qed

lemma mergeExtension_yields:
  assumes exp: "expands sha (tr_mode t) (tr_store t) c q" and wf: "wf_node q" and nib: "nibbles pfx"
    and fuel: "2 \<le> fuel"
  obtains n t' where "mergeExtension sha fuel pfx c t = ((n, None), t')"
    "yields sha t (refs sha q) (beneath pfx (lookup q)) (Inr n, t')"
proof -
  obtain f where f: "fuel = Suc (Suc f)" using fuel by (metis add_2_eq_Suc le_Suc_ex)
  show ?thesis
  proof (cases "\<exists>h. c = HashNode h")
    case False
    then show ?thesis using that merge_plain [OF exp wf nib] f by metis
  next
    case True
    then obtain h where h: "c = HashNode h" by blast
    obtain c' t1 where c': "Trie_getFromStore h t = (Inr c', t1)" "expands sha (tr_mode t) (tr_store t) c' q"
      "\<nexists>h. c' = HashNode h" "shifts t t1 {#} {#}"
      using exp h Trie_getFromStore_stored by (metis expands_hashE)
    then have exp1: "expands sha (tr_mode t1) (tr_store t1) c' q" using shifts_env by metis
    obtain n t' where n: "mergeExtension sha (Suc f) pfx c' t1 = ((n, None), t')"
      "yields sha t1 (refs sha q) (beneath pfx (lookup q)) (Inr n, t')" using merge_plain [OF exp1 wf nib c'(3)] by blast
    have "shifts t t1 (refs sha q) (refs sha q)" using shifts_frame [OF c'(4), of "refs sha q"] by simp
    then have "yields sha t (refs sha q) (beneath pfx (lookup q)) (Inr n, t')" using n(2) by (rule yields_after)
    then show ?thesis using that n(1) c'(1) h f by simp
  qed
qed

lemma merge_result_byields:
  assumes "byields sha t A M k r" and "nibbles pfx" and "2 \<le> fuel"
  shows "byields sha t A (beneath pfx M) k (merge_result sha fuel pfx r)"
proof -
  obtain n p t1 where r: "r = ((n, k, None), t1)" "expands sha (tr_mode t) (tr_store t) n p" "wf_node p"
    "lookup p = M" "shifts t t1 A (refs sha p)" using assms(1) by (rule byieldsE)
  have "expands sha (tr_mode t1) (tr_store t1) n p" using r(2,5) shifts_env by metis
  then obtain n' t' where "mergeExtension sha fuel pfx n t1 = ((n', None), t')"
    "yields sha t1 (refs sha p) (beneath pfx (lookup p)) (Inr n', t')"
    using mergeExtension_yields r(3) assms(2,3) by metis
  then show ?thesis using r yields_after [OF r(5)] by (auto simp: byields_def merge_result_def)
qed

lemma stripBranch_yields:
  assumes exp: "list_all2 (expands sha (tr_mode t) (tr_store t)) cs ds" and ok: "children_ok ds" and fuel: "2 \<le> fuel"
  obtains n t' where "stripBranch sha fuel cs t = ((n, None), t')"
    "yields sha t (sum_list (map (refs sha) ds)) (lookup (BranchNode ds)) (Inr n, t')"
proof -
  have len: "length ds = childrenCount" using ok by (simp add: children_ok_def)
  obtain k idx where cnt: "count_children ds = (k, idx)" by fastforce
  then have cnt': "count_children cs = (k, idx)" using count_children_expands [OF exp] by simp
  have k: "k = length (filter (\<lambda>x. x \<noteq> EmptyNode) ds)" using count_children_eq(1) [OF cnt] .
  consider "k = 0" | "k = 1" "idx = lastChild" | "k = 1" "idx \<noteq> lastChild" | "2 \<le> k" by linarith
  then show ?thesis
  proof cases
    case 1
    then have "ds = NewBranchNode"
      using k len by (simp add: filter_empty_conv NewBranchNode_def replicate_eqI)
    moreover have "yields sha t {#} Map.empty (Inr EmptyNode, t)"
      by (rule yieldsI [where p' = EmptyNode]) (auto intro: expands_empty)
    ultimately show ?thesis using that 1 cnt' by (simp add: stripBranch_def lookup_NewBranchNode)
  next
    case 2
    with cnt have c1: "count_children ds = (1, idx)" by simp
    note one = only_child(2,3) [OF len c1] only_child(4) [OF len c1, of sha]
    obtain w where w: "ds ! lastChild = LeafNode w" using ok one(2) 2 by (auto simp: children_ok_def)
    have "expands sha (tr_mode t) (tr_store t) (cs ! idx) (LeafNode w)"
      using list_all2_nthD2 [OF exp] one(1) len w 2 by metis
    then have "yields sha t (sum_list (map (refs sha) ds)) (lookup (BranchNode ds)) (Inr (cs ! idx), t)"
      using lookup_only_child(2) [OF len c1 w] one(3) w 2
      by (intro yieldsI [where p' = "LeafNode w"]) (auto simp: settled_def)
    then show ?thesis using that 2 cnt' by (simp add: stripBranch_def)
  next
    case 3
    with cnt have c1: "count_children ds = (1, idx)" by simp
    note one = only_child(2,3) [OF len c1] only_child(4) [OF len c1, of sha]
    have expi: "expands sha (tr_mode t) (tr_store t) (cs ! idx) (ds ! idx)" and wfi: "wf_node (ds ! idx)"
      using list_all2_nthD2 [OF exp] one(1) len ok by (simp_all add: children_ok_def)
    obtain n t' where "mergeExtension sha fuel [word_of_nat idx] (cs ! idx) t = ((n, None), t')"
      "yields sha t (refs sha (ds ! idx)) (beneath [word_of_nat idx] (lookup (ds ! idx))) (Inr n, t')"
      using mergeExtension_yields [OF expi wfi lookup_only_child(3) [OF len c1 3(2)] fuel] by metis
    moreover have "lookup (BranchNode ds) = beneath [word_of_nat idx] (lookup (ds ! idx))"
      using lookup_only_child(1) [OF len c1 3(2)] under_extension [of "[word_of_nat idx]"] by simp
    ultimately show ?thesis using that 3 cnt' one(3) by (simp add: stripBranch_def)
  next
    case 4
    then have wf: "wf_node (BranchNode ds)" using wf_branch_children_ok [OF ok] k by simp
    have "Node_Hash sha (BranchNode cs) = Node_Hash sha (BranchNode ds)"
      using expands_hash_eq [OF expands_branch [OF exp]] by blast
    then have "shifts t (addNode sha (BranchNode cs) t) (sum_list (map (refs sha) ds)) (refs sha (BranchNode ds))"
      using shifts_add [OF shifts_refl, of sha "BranchNode cs"] by simp
    then have "yields sha t (sum_list (map (refs sha) ds)) (lookup (BranchNode ds)) (Inr (BranchNode cs), addNode sha (BranchNode cs) t)"
      using wf expands_branch [OF exp] by (intro yieldsI [where p' = "BranchNode ds"]) auto
    then show ?thesis using that 4 cnt' by (simp add: stripBranch_def)
  qed
qed

section \<open>Iterating over the runs\<close>

text \<open>What the recursive call promises for every child and every batch within its fuel.\<close>

definition put_ok :: "(bytes \<Rightarrow> uint256) \<Rightarrow> byte \<Rightarrow> (bytes \<rightharpoonup> bytes) \<Rightarrow> nat \<Rightarrow> batch_put \<Rightarrow> bool" where
  "put_ok sha m st f put \<longleftrightarrow>
     (\<forall>n p kvs t. expands sha m st n p \<longrightarrow> wf_node p \<longrightarrow> tr_mode t = m \<longrightarrow> tr_store t = st \<longrightarrow> batch_ok kvs \<longrightarrow> kvs \<noteq> [] \<longrightarrow>
        (\<forall>k \<in> fst ` set kvs. fuel_for n p k \<le> f) \<longrightarrow>
        byields sha t (refs sha p) (upd_batch kvs (lookup p)) (length kvs) (put n kvs t))"

lemma put_okD:
  assumes "put_ok sha m st f put" and "expands sha m st n p" and "wf_node p" and "tr_mode t = m" and "tr_store t = st"
    and "batch_ok kvs" and "kvs \<noteq> []" and "\<And>k. k \<in> fst ` set kvs \<Longrightarrow> fuel_for n p k \<le> f"
  shows "byields sha t (refs sha p) (upd_batch kvs (lookup p)) (length kvs) (put n kvs t)"
  using assms unfolding put_ok_def by blast

lemma value_child_upd:
  assumes "ds ! lastChild = EmptyNode \<or> (\<exists>w. ds ! lastChild = LeafNode w)" and "wf_node q"
    and "lookup q = (lookup (ds ! lastChild))([] := x)"
  shows "q = EmptyNode \<or> (\<exists>w. q = LeafNode w)"
proof -
  have none: "lookup (ds ! lastChild) path = None" if "path \<noteq> []" for path
    using assms(1) that by (metis lookup.simps(1) lookup.simps(2))
  show ?thesis
  proof (cases x)
    case None
    then have "lookup q = lookup EmptyNode" using none by (auto simp: assms(3) fun_eq_iff)
    then show ?thesis using wf_node_unique [OF assms(2), of EmptyNode] by simp
  next
    case (Some v)
    then have "lookup q = lookup (LeafNode v)" using none by (auto simp: assms(3) fun_eq_iff)
    then show ?thesis using wf_node_unique [OF assms(2), of "LeafNode v"] by simp
  qed
qed

lemma run_strip:
  assumes "c = lastChild \<Longrightarrow> \<exists>v. run = [([], v)]" and "c \<noteq> lastChild \<Longrightarrow> \<forall>k \<in> fst ` set run. \<exists>r. k = [word_of_nat c] @ r"
  shows "(if c \<noteq> lastChild then stripPrefix 1 run else run) = map (\<lambda>(k, v). (snd (splitPath k), v)) run"
proof (cases "c = lastChild")
  case True
  then show ?thesis using assms(1) by (auto simp: splitPath_def)
next
  case False
  then have "\<forall>k \<in> fst ` set run. \<exists>r. k = [word_of_nat c] @ r" using assms(2) by blast
  then have "stripPrefix 1 run = map (\<lambda>(k, v). (snd (splitPath k), v)) run"
    by (induction run) (auto simp: stripPrefix_def splitPath_def)
  then show ?thesis using False by simp
qed

lemma run_stripped_ok:
  assumes "batch_ok run" and "c = lastChild \<Longrightarrow> \<exists>v. run = [([], v)]"
    and "c \<noteq> lastChild \<Longrightarrow> \<forall>k \<in> fst ` set run. \<exists>r. k = [word_of_nat c] @ r"
  shows "batch_ok (map (\<lambda>(k, v). (snd (splitPath k), v)) run)"
proof (cases "c = lastChild")
  case True
  then show ?thesis using assms(1,2) by (auto simp: splitPath_def)
next
  case False
  then show ?thesis using batch_ok_strip [OF assms(1) assms(3)] run_strip [of c run] assms(2,3) by simp
qed

lemma iterateBatch_put:
  assumes "batch_ok kvs" and "put_ok sha m st f put" and "tr_mode t = m" and "tr_store t = st"
    and "list_all2 (expands sha m st) cs ds" and "children_ok ds"
    and "\<forall>k \<in> fst ` set kvs. fuel_for (cs ! fst (splitPath k)) (ds ! fst (splitPath k)) (snd (splitPath k)) \<le> f"
  shows "\<exists>cs' ds' t'. iterateBatch (put_child put) kvs (cs, t) = ((length kvs, None), (cs', t')) \<and>
    list_all2 (expands sha m st) cs' ds' \<and> children_ok ds' \<and>
    lookup (BranchNode ds') = upd_batch kvs (lookup (BranchNode ds)) \<and>
    shifts t t' (sum_list (map (refs sha) ds)) (sum_list (map (refs sha) ds'))"
  using assms
proof (induction "length kvs" arbitrary: kvs cs ds t rule: less_induct)
  case less
  show ?case
  proof (cases "kvs = []")
    case True
    then show ?thesis using less.prems by (auto simp: iterateBatch.simps)
  next
    case False
    obtain c i where ci: "getLastIndex kvs = Some (c, i)" "0 < i" "i \<le> length kvs" "c < childrenCount"
      "\<forall>k \<in> fst ` set (take i kvs). fst (splitPath k) = c" "\<forall>k \<in> fst ` set (drop i kvs). fst (splitPath k) \<noteq> c"
      "c = lastChild \<Longrightarrow> \<exists>v. take i kvs = [([], v)]"
      "c \<noteq> lastChild \<Longrightarrow> \<forall>k \<in> fst ` set (take i kvs). \<exists>r. k = [word_of_nat c] @ r"
      using getLastIndex_spec [OF less.prems(1) False] by metis
    let ?run = "map (\<lambda>(k, v). (snd (splitPath k), v)) (take i kvs)"
    note ok = take_drop_batch [OF less.prems(1), of i]
    have run: "(if c \<noteq> lastChild then stripPrefix 1 (take i kvs) else take i kvs) = ?run"
      using run_strip ci(7,8) by blast
    have len: "length ds = childrenCount" "length cs = childrenCount"
      using less.prems(6) list_all2_lengthD [OF less.prems(5)] by (simp_all add: children_ok_def)
    have fuel: "fuel_for (cs ! c) (ds ! c) k \<le> f" if km: "k \<in> fst ` set ?run" for k
    proof -
      have "fst ` set ?run = (\<lambda>k. snd (splitPath k)) ` fst ` set (take i kvs)" by (simp add: image_image case_prod_unfold)
      then obtain k0 where k0: "k0 \<in> fst ` set (take i kvs)" "k = snd (splitPath k0)" using km by blast
      then have "k0 \<in> fst ` set kvs" by (meson image_mono set_take_subset subsetD)
      then show ?thesis using less.prems(7) ci(5) k0 by metis
    qed
    have "byields sha t (refs sha (ds ! c)) (upd_batch ?run (lookup (ds ! c))) (length ?run) (put (cs ! c) ?run t)"
      using ci(2,4) False fuel less.prems(2-6) run_stripped_ok [OF ok(1) ci(7,8)] len
      by (intro put_okD [OF less.prems(2)]) (auto simp: children_ok_def list_all2_conv_all_nth)
    then obtain n p t1 where r: "put (cs ! c) ?run t = ((n, length ?run, None), t1)" "expands sha m st n p" "wf_node p"
      "lookup p = upd_batch ?run (lookup (ds ! c))" "shifts t t1 (refs sha (ds ! c)) (refs sha p)"
      using less.prems(3,4) by (auto elim: byieldsE)
    let ?cs = "cs[c := n]" and ?ds = "ds[c := p]"
    have exps: "list_all2 (expands sha m st) ?cs ?ds" using less.prems(5) r(2) by (rule list_all2_update_cong)
    have val: "p = EmptyNode \<or> (\<exists>w. p = LeafNode w)" if "c = lastChild"
    proof -
      obtain v where "take i kvs = [([], v)]" using ci(7) \<open>c = lastChild\<close> by blast
      then have "lookup p = (lookup (ds ! lastChild))([] := v)"
        using r(4) \<open>c = lastChild\<close> by (simp add: splitPath_def upd_batch_single)
      then show ?thesis using value_child_upd less.prems(6) r(3) unfolding children_ok_def by blast
    qed
    have ok': "children_ok ?ds"
      using less.prems(6) r(3) val ci(4) set_update_subset_insert [of ds c p]
      by (cases "c = lastChild") (auto simp: children_ok_def)
    have map: "lookup (BranchNode ?ds) = upd_batch (take i kvs) (lookup (BranchNode ds))"
      using lookup_branch_run [OF len(1) ci(4,5) _ r(4)] ok(1) by (auto simp: batch_ok_def)
    obtain S where S: "sum_list (map (refs sha) ds) = S + refs sha (ds ! c)"
      "sum_list (map (refs sha) ?ds) = S + refs sha p"
      using sum_list_extract [of c "map (refs sha) ds"] ci(4) len by (auto simp: map_update)
    have sh: "shifts t t1 (sum_list (map (refs sha) ds)) (sum_list (map (refs sha) ?ds))"
      unfolding S using shifts_frame [OF r(5), of S] by (simp add: add.commute)
    have env: "tr_mode t1 = m" "tr_store t1 = st" using shifts_env [OF sh] less.prems(3,4) by simp_all
    have fuel': "\<forall>k \<in> fst ` set (drop i kvs).
      fuel_for (?cs ! fst (splitPath k)) (?ds ! fst (splitPath k)) (snd (splitPath k)) \<le> f"
    proof
      fix k assume k: "k \<in> fst ` set (drop i kvs)"
      then have "k \<in> fst ` set kvs" by (meson image_mono set_drop_subset subsetD)
      then show "fuel_for (?cs ! fst (splitPath k)) (?ds ! fst (splitPath k)) (snd (splitPath k)) \<le> f"
        using less.prems(7) ci(6) k by (metis nth_list_update_neq)
    qed
    have "length (drop i kvs) < length kvs" using ci(2) False by simp
    from less.hyps [OF this ok(2) less.prems(2) env exps ok' fuel']
    obtain cs' ds' t' where rest: "iterateBatch (put_child put) (drop i kvs) (?cs, t1) = ((length (drop i kvs), None), (cs', t'))"
      "list_all2 (expands sha m st) cs' ds'" "children_ok ds'"
      "lookup (BranchNode ds') = upd_batch (drop i kvs) (lookup (BranchNode ?ds))"
      "shifts t1 t' (sum_list (map (refs sha) ?ds)) (sum_list (map (refs sha) ds'))" by blast
    have "iterateBatch (put_child put) kvs (cs, t) = ((length kvs, None), (cs', t'))"
      by (subst iterateBatch.simps) (use False ci r(1) rest(1) len in \<open>simp add: run [simplified] put_child_def Let_def\<close>)
    moreover have "upd_batch (drop i kvs) (upd_batch (take i kvs) M) = upd_batch kvs M" for M
    proof -
      have "fst ` set (take i kvs) \<inter> fst ` set (drop i kvs) = {}" using ci(5,6) by blast
      then have "map_of (take i kvs @ drop i kvs) = map_of (drop i kvs @ take i kvs)"
        using map_add_comm [of "map_of (take i kvs)" "map_of (drop i kvs)"]
        unfolding map_of_append dom_map_of_conv_image_fst by simp
      then show ?thesis by (simp add: upd_batch_append [symmetric]) (simp add: upd_batch_def fun_eq_iff)
    qed
    ultimately show ?thesis using rest map shifts_chain [OF sh rest(5)] by (intro exI [of _ cs'] exI [of _ ds'] exI [of _ t']) simp
  qed
qed

lemma addToBranch_byields:
  assumes "batch_ok kvs" and "put_ok sha (tr_mode t) (tr_store t) f put"
    and "list_all2 (expands sha (tr_mode t) (tr_store t)) cs ds" and "children_ok ds"
    and "\<forall>k \<in> fst ` set kvs. fuel_for (cs ! fst (splitPath k)) (ds ! fst (splitPath k)) (snd (splitPath k)) \<le> f"
    and "2 \<le> f"
  shows "byields sha t (sum_list (map (refs sha) ds)) (upd_batch kvs (lookup (BranchNode ds))) (length kvs)
    (addToBranch sha f put cs kvs False t)"
proof -
  obtain cs' ds' t1 where it: "iterateBatch (put_child put) kvs (cs, t) = ((length kvs, None), (cs', t1))"
    "list_all2 (expands sha (tr_mode t) (tr_store t)) cs' ds'" "children_ok ds'"
    "lookup (BranchNode ds') = upd_batch kvs (lookup (BranchNode ds))"
    "shifts t t1 (sum_list (map (refs sha) ds)) (sum_list (map (refs sha) ds'))"
    using iterateBatch_put [OF assms(1,2) refl refl assms(3-5)] by blast
  have env: "tr_mode t1 = tr_mode t" "tr_store t1 = tr_store t" using shifts_env [OF it(5)] by simp_all
  then obtain n t' where "stripBranch sha f cs' t1 = ((n, None), t')"
    "yields sha t1 (sum_list (map (refs sha) ds')) (lookup (BranchNode ds')) (Inr n, t')"
    using stripBranch_yields [of sha t1 cs' ds' f] it(2,3) assms(6) by metis
  then show ?thesis using it(1,4) yields_after [OF it(5)] by (auto simp: byields_def addToBranch_def)
qed

section \<open>New subtries\<close>

definition value_map :: "bytes option \<Rightarrow> (bytes \<rightharpoonup> bytes)" where
  "value_map vl = (case vl of None \<Rightarrow> Map.empty | Some w \<Rightarrow> [[] \<mapsto> w])"

definition value_children :: "bytes option \<Rightarrow> node list" where
  "value_children vl = (case vl of None \<Rightarrow> NewBranchNode | Some w \<Rightarrow> NewBranchNode[lastChild := LeafNode w])"

lemma value_children_facts:
  shows "children_ok (value_children vl)" "lookup (BranchNode (value_children vl)) = value_map vl"
    "list_all2 (expands sha m st) (value_children vl) (value_children vl)"
    "sum_list (map (refs sha) (value_children vl)) = (case vl of None \<Rightarrow> {#} | Some w \<Rightarrow> refs sha (LeafNode w))"
proof -
  have last: "lastChild < childrenCount" by (simp add: mpt_limits)
  show "children_ok (value_children vl)"
  proof (cases vl)
    case (Some w)
    have "set (NewBranchNode[lastChild := LeafNode w]) \<subseteq> {LeafNode w, EmptyNode}"
      using set_update_subset_insert [of NewBranchNode lastChild "LeafNode w"] by (auto simp: NewBranchNode_def)
    then show ?thesis using Some last by (auto simp: children_ok_def value_children_def)
  qed (use last in \<open>auto simp: children_ok_def value_children_def NewBranchNode_def\<close>)
  show "lookup (BranchNode (value_children vl)) = value_map vl"
    using lookup_value_child
    by (auto simp: value_children_def value_map_def lookup_NewBranchNode fun_eq_iff split: option.splits)
  show "list_all2 (expands sha m st) (value_children vl) (value_children vl)"
  proof -
    have "expands sha m st (value_children vl ! i) (value_children vl ! i)" if "i < childrenCount" for i
      using that expands_leaf expands_empty
      by (cases "i = lastChild") (auto simp: value_children_def split: option.splits)
    moreover have "length (value_children vl) = childrenCount" by (simp add: value_children_def split: option.splits)
    ultimately show ?thesis by (simp add: list_all2_conv_all_nth)
  qed
  show "sum_list (map (refs sha) (value_children vl)) = (case vl of None \<Rightarrow> {#} | Some w \<Rightarrow> refs sha (LeafNode w))"
  proof (cases vl)
    case (Some w)
    obtain S where "sum_list (map (refs sha) NewBranchNode) = S + {#}"
      "\<And>r. sum_list ((map (refs sha) NewBranchNode)[lastChild := r]) = S + r"
      using sum_list_extract [of lastChild "map (refs sha) NewBranchNode"] last by auto
    then show ?thesis using Some by (simp add: value_children_def map_update)
  qed (simp add: value_children_def)
qed

lemma value_children_fuel:
  assumes "nibbles k" and "2 * length k \<le> f" and "0 < f"
  shows "fuel_for (value_children vl ! fst (splitPath k)) (value_children vl ! fst (splitPath k)) (snd (splitPath k)) \<le> f"
proof -
  have child: "value_children vl ! i = EmptyNode \<or> (\<exists>w. value_children vl ! i = LeafNode w)"
    if "i < childrenCount" for i
    using that by (cases "i = lastChild") (auto simp: value_children_def split: option.splits)
  have "fst (splitPath k) < childrenCount" using splitPath_nibbles(1) [OF assms(1)] by (metis prod.collapse)
  from child [OF this] show ?thesis
    using assms by (cases k) (auto simp: fuel_for_def splitPath_def)
qed

lemma newSubTrieMany_byields:
  assumes "batch_ok kvs" and "kvs \<noteq> []" and "nibbles pfx" and "put_ok sha (tr_mode t) (tr_store t) f put"
    and "\<forall>k \<in> fst ` set kvs. 2 * length k \<le> f"
  shows "byields sha t {#} (beneath pfx (upd_batch kvs (value_map vl))) (length kvs) (newSubTrieMany sha f put pfx kvs vl t)"
  using assms
proof (induction kvs arbitrary: vl)
  case (Cons kv kvs)
  obtain k v where kv: "kv = (k, v)" by fastforce
  have later: "k' \<noteq> []" if "k' \<in> fst ` set kvs" for k'
    using Cons.prems(1) kv that by (auto simp: batch_ok_Cons)
  then have noNil: "map_of kvs [] = None" by (metis map_of_eq_None_iff)
  consider "k = []" "v = None" "kvs = []" | "k = []" "v = None" "kvs \<noteq> []" | w where "k = []" "v = Some w" "kvs = []"
    | "k \<noteq> [] \<or> (v \<noteq> None \<and> kvs \<noteq> [])" by (cases v) auto
  then show ?case
  proof cases
    case 1
    have "upd_batch [([], None)] (value_map vl) = Map.empty"
      by (auto simp: upd_batch_single value_map_def fun_eq_iff split: option.splits)
    moreover have "yields sha t {#} Map.empty (Inr EmptyNode, t)"
      by (rule yieldsI [where p' = EmptyNode]) (auto intro: expands_empty)
    ultimately show ?thesis using 1 kv by (simp add: byields_def)
  next
    case 2
    have "upd_batch (([], None) # kvs) (value_map vl) = upd_batch kvs (value_map None)"
      using noNil by (auto simp: upd_batch_def value_map_def fun_eq_iff split: option.splits)
    moreover have "byields sha t {#} (beneath pfx (upd_batch kvs (value_map None))) (length kvs) (newSubTrieMany sha f put pfx kvs None t)"
      using Cons.IH [of None] Cons.prems 2 kv by (simp add: batch_ok_Cons)
    ultimately show ?thesis using 2 kv by (auto simp: byields_def)
  next
    case (3 w)
    obtain t' where t': "newSubTrie sha pfx (LeafNode w) True t = (sub_node pfx (LeafNode w), t')"
      "shifts t t' {#} (refs sha (sub_node pfx (LeafNode w)))" by (rule newSubTrie_new)
    have "lookup (LeafNode w) = upd_batch [([], Some w)] (value_map vl)"
      by (auto simp: upd_batch_single value_map_def fun_eq_iff split: option.splits)
    then have "lookup (sub_node pfx (LeafNode w)) = beneath pfx (upd_batch [([], Some w)] (value_map vl))"
      by (simp only: lookup_sub_under)
    then have "yields sha t {#} (beneath pfx (upd_batch [([], Some w)] (value_map vl))) (Inr (sub_node pfx (LeafNode w)), t')"
      using t'(2) Cons.prems(3)
      by (intro yieldsI [where p' = "sub_node pfx (LeafNode w)"])
        (auto intro: expands_sub_node expands_leaf wf_sub_node settled_sub_node)
    then show ?thesis using 3 kv t'(1) by (simp add: byields_def)
  next
    case 4
    let ?kvs = "(k, v) # kvs"
    define vl2 where "vl2 = (if k = [] then v else vl)"
    define t1 where "t1 = (case vl2 of None \<Rightarrow> t | Some w \<Rightarrow> addNode sha (LeafNode w) t)"
    note facts = value_children_facts(1,2) [of vl2] value_children_facts(3,4) [where vl = vl2]
    have sh: "shifts t t1 {#} (sum_list (map (refs sha) (value_children vl2)))"
      unfolding facts(4) t1_def using shifts_add [of t t "{#}" "{#}"] by (auto split: option.splits)
    have env: "tr_mode t1 = tr_mode t" "tr_store t1 = tr_store t" using shifts_env [OF sh] by simp_all
    have f2: "2 \<le> f"
    proof (cases "k = []")
      case True
      then obtain k' where k': "k' \<in> fst ` set kvs" using 4 by (cases kvs) auto
      then have "length k' \<noteq> 0" using later by blast
      moreover have "2 * length k' \<le> f" using Cons.prems(5) k' by auto
      ultimately show ?thesis by linarith
    next
      case False
      moreover have "2 * length k \<le> f" using Cons.prems(5) kv by simp
      ultimately show ?thesis by (cases k) auto
    qed
    have "byields sha t1 (sum_list (map (refs sha) (value_children vl2))) (upd_batch ?kvs (lookup (BranchNode (value_children vl2))))
      (length ?kvs) (addToBranch sha f put (value_children vl2) ?kvs False t1)"
    proof (rule addToBranch_byields)
      show "\<forall>k \<in> fst ` set ?kvs. fuel_for (value_children vl2 ! fst (splitPath k)) (value_children vl2 ! fst (splitPath k)) (snd (splitPath k)) \<le> f"
        using Cons.prems(1,5) kv f2 by (intro ballI value_children_fuel) (auto simp: batch_ok_def)
    qed (use Cons.prems kv env facts f2 in simp_all)
    moreover have "upd_batch ?kvs (lookup (BranchNode (value_children vl2))) = upd_batch ?kvs (value_map vl)"
      using 4 unfolding facts(2) by (auto simp: upd_batch_def value_map_def vl2_def fun_eq_iff split: option.splits)
    ultimately have "byields sha t {#} (beneath pfx (upd_batch ?kvs (value_map vl))) (length ?kvs)
        (merge_result sha f pfx (addToBranch sha f put (value_children vl2) ?kvs False t1))"
      using merge_result_byields [OF _ Cons.prems(3) f2] byields_after [OF sh] by metis
    moreover have "newSubTrieMany sha f put pfx (kv # kvs) vl t =
        merge_result sha f pfx (addToBranch sha f put (value_children vl2) ?kvs False t1)"
      using 4 kv by (auto simp: vl2_def t1_def value_children_def split: option.splits)
    ultimately show ?thesis using kv by simp
  qed
qed simp

section \<open>Common prefixes\<close>

lemma lcp_left: "\<exists>r. a = lcp a b @ r" and lcp_right: "\<exists>r. b = lcp a b @ r"
  using lcp_prefixes by metis+

lemma foldl_lcp:
  "(\<exists>r. p = foldl (\<lambda>p kv. lcp p (fst kv)) p kvs @ r) \<and>
   (\<forall>k \<in> fst ` set kvs. \<exists>r. k = foldl (\<lambda>p kv. lcp p (fst kv)) p kvs @ r)"
proof (induction kvs arbitrary: p)
  case (Cons kv kvs)
  obtain r where r: "lcp p (fst kv) = foldl (\<lambda>p kv. lcp p (fst kv)) (lcp p (fst kv)) kvs @ r" using Cons by blast
  obtain a b where "p = lcp p (fst kv) @ a" "fst kv = lcp p (fst kv) @ b" using lcp_prefixes by metis
  then have "\<exists>r. p = foldl (\<lambda>p kv. lcp p (fst kv)) (lcp p (fst kv)) kvs @ r"
    "\<exists>r. fst kv = foldl (\<lambda>p kv. lcp p (fst kv)) (lcp p (fst kv)) kvs @ r"
    using r by (metis append.assoc)+
  then show ?case using Cons by simp
qed simp

lemma lcpMany_prefix: "k \<in> fst ` set kvs \<Longrightarrow> \<exists>r. k = lcpMany kvs @ r"
proof (induction kvs rule: lcpMany.induct)
  case (3 kv1 kv2 kvs)
  let ?p = "lcp (fst kv1) (fst kv2)"
  show ?case
  proof (cases "?p = []")
    case False
    have "\<exists>r. ?p = lcpMany (kv1 # kv2 # kvs) @ r" "\<forall>k \<in> fst ` set kvs. \<exists>r. k = lcpMany (kv1 # kv2 # kvs) @ r"
      using foldl_lcp [of ?p kvs] False by (simp_all add: Let_def)
    then show ?thesis using 3 lcp_left [of "fst kv1" "fst kv2"] lcp_right [of "fst kv2" "fst kv1"]
      by (auto simp del: lcpMany.simps)
  qed (simp add: Let_def)
qed auto

lemma under_strip:
  assumes "\<forall>k \<in> fst ` set kvs. \<exists>r. k = p @ r"
  shows "beneath p (upd_batch (stripPrefix (length p) kvs) M) = upd_batch kvs (beneath p M)"
proof
  fix q
  show "beneath p (upd_batch (stripPrefix (length p) kvs) M) q = upd_batch kvs (beneath p M) q"
  proof (cases "\<exists>r. q = p @ r")
    case True
    then show ?thesis using map_of_strip [OF assms]
      by (auto simp: beneath_def upd_batch_def has_prefix_iff split: option.splits)
  next
    case False
    then show ?thesis using map_of_no_prefix [OF assms False]
      by (auto simp: beneath_def upd_batch_def has_prefix_iff)
  qed
qed

lemma strip_facts [simp]:
  "length (stripPrefix n kvs) = length kvs" "stripPrefix n kvs = [] \<longleftrightarrow> kvs = []"
  "fst ` set (stripPrefix n kvs) = drop n ` fst ` set kvs" "stripPrefix 0 kvs = kvs"
  by (auto simp: stripPrefix_def image_image case_prod_unfold)

section \<open>Batches into every kind of node\<close>

lemma putBatchIntoEmpty_byields:
  assumes "batch_ok kvs" and "kvs \<noteq> []" and "put_ok sha (tr_mode t) (tr_store t) f put"
    and "\<forall>k \<in> fst ` set kvs. 2 * length k \<le> f"
  shows "byields sha t {#} (upd_batch kvs Map.empty) (length kvs) (putBatchIntoEmpty sha f put kvs t)"
proof -
  let ?p = "lcpMany kvs"
  have pre: "\<forall>k \<in> fst ` set kvs. \<exists>r. k = ?p @ r" using lcpMany_prefix by blast
  obtain k where "k \<in> fst ` set kvs" using assms(2) by (cases kvs) auto
  then have "nibbles ?p" using pre assms(1) by (metis batch_ok_def nibbles_simps(3))
  then have "byields sha t {#} (beneath ?p (upd_batch (stripPrefix (length ?p) kvs) (value_map None))) (length (stripPrefix (length ?p) kvs))
      (newSubTrieMany sha f put ?p (stripPrefix (length ?p) kvs) None t)"
    using assms batch_ok_strip [OF assms(1) pre] by (intro newSubTrieMany_byields) auto
  then show ?thesis using under_strip [OF pre] by (simp add: putBatchIntoEmpty_def value_map_def Let_def)
qed

lemma putBatchIntoLeaf_byields:
  assumes "batch_ok kvs" and "kvs \<noteq> []" and "put_ok sha (tr_mode t) (tr_store t) f put"
    and "\<forall>k \<in> fst ` set kvs. 2 * length k \<le> f"
  shows "byields sha t (refs sha (LeafNode w)) (upd_batch kvs (lookup (LeafNode w))) (length kvs) (putBatchIntoLeaf sha f put w kvs t)"
proof -
  let ?t = "removeNode sha (LeafNode w) t"
  have sh: "shifts t ?t (refs sha (LeafNode w)) {#}" using shifts_remove [of t t "{#}" "{#}"] by auto
  have "byields sha ?t {#} (beneath [] (upd_batch kvs (value_map (Some w)))) (length kvs) (newSubTrieMany sha f put [] kvs (Some w) ?t)"
    using assms by (intro newSubTrieMany_byields) auto
  moreover have "lookup (LeafNode w) = value_map (Some w)" by (auto simp: value_map_def fun_eq_iff)
  ultimately show ?thesis using byields_after [OF sh] by (simp add: putBatchIntoLeaf_def del: lookup.simps)
qed

lemma addToBranch_inTrie:
  assumes "batch_ok kvs" and "kvs \<noteq> []" and "put_ok sha (tr_mode t) (tr_store t) f put"
    and exp: "list_all2 (expands sha (tr_mode t) (tr_store t)) cs ds" and wf: "wf_node (BranchNode ds)"
    and fuel: "\<forall>k \<in> fst ` set kvs. fuel_for (BranchNode cs) (BranchNode ds) k \<le> Suc f"
  shows "byields sha t (refs sha (BranchNode ds)) (upd_batch kvs (lookup (BranchNode ds))) (length kvs)
    (addToBranch sha f put cs kvs True t)"
proof -
  let ?t = "removeNode sha (BranchNode cs) t"
  have "Node_Hash sha (BranchNode cs) = Node_Hash sha (BranchNode ds)"
    using expands_hash_eq [OF expands_branch [OF exp]] by blast
  then have sh: "shifts t ?t (refs sha (BranchNode ds)) (sum_list (map (refs sha) ds))"
    using shifts_remove [OF shifts_refl, of sha "BranchNode cs"] by simp
  have child: "fuel_for (cs ! fst (splitPath k)) (ds ! fst (splitPath k)) (snd (splitPath k)) \<le> f" if "k \<in> fst ` set kvs" for k
  proof -
    have "nibbles k" using assms(1) that by (auto simp: batch_ok_def)
    then show ?thesis using fuel_for_child [OF wf _ _ bspec [OF fuel that]] by (metis prod.collapse)
  qed
  obtain k where "k \<in> fst ` set kvs" using assms(2) by (cases kvs) auto
  then have "2 \<le> f" using fuel by (auto simp: fuel_for_def)
  then have "byields sha ?t (sum_list (map (refs sha) ds)) (upd_batch kvs (lookup (BranchNode ds))) (length kvs)
      (addToBranch sha f put cs kvs False ?t)"
    using assms child children_ok_branch [OF wf] by (intro addToBranch_byields) auto
  then show ?thesis using byields_after [OF sh] by (simp add: addToBranch_def)
qed

lemma putBatchIntoExtensionNoPrefix_byields:
  assumes "batch_ok kvs" and "put_ok sha (tr_mode t) (tr_store t) f put"
    and exp: "expands sha (tr_mode t) (tr_store t) nxt p" and wf: "wf_node (ExtensionNode key p)"
    and fuel: "2 \<le> f" "\<forall>k \<in> fst ` set kvs. 2 * length k + 2 \<le> f"
  shows "byields sha t (refs sha p) (upd_batch kvs (lookup (ExtensionNode key p))) (length kvs)
    (putBatchIntoExtensionNoPrefix sha f put key nxt kvs t)"
proof -
  obtain j rest where key: "key = j # rest" using wf by (cases key) auto
  have j: "unat j < lastChild" "unat j < childrenCount" using wf key by (simp_all add: mpt_limits)
  let ?n = "sub_node rest nxt" and ?q = "sub_node rest p"
  let ?cs = "NewBranchNode[unat j := ?n]" and ?ds = "NewBranchNode[unat j := ?q]"
  obtain t1 where t1: "newSubTrie sha rest nxt False t = (?n, t1)" "shifts t t1 (refs sha p) (refs sha ?q)"
    using newSubTrie_old [OF exp] by metis
  have env: "tr_mode t1 = tr_mode t" "tr_store t1 = tr_store t" using shifts_env [OF t1(2)] by simp_all
  have wfq: "wf_node ?q" using wf key by (auto simp: wf_extension wf_sub_node simp del: wf_node.simps)
  have exps: "list_all2 (expands sha (tr_mode t1) (tr_store t1)) ?cs ?ds"
    using expands_sub_node [OF exp, of rest] env
    by (intro list_all2_update_cong) (auto simp: list_all2_conv_all_nth NewBranchNode_def intro: expands_empty)
  have ok: "children_ok ?ds"
    using wfq j set_update_subset_insert [of NewBranchNode "unat j" ?q] by (auto simp: children_ok_def NewBranchNode_def mpt_limits)
  have sum: "sum_list (map (refs sha) ?ds) = refs sha ?q"
  proof -
    obtain S where "sum_list (map (refs sha) NewBranchNode) = S + {#}"
      "\<And>r. sum_list ((map (refs sha) NewBranchNode)[unat j := r]) = S + r"
      using sum_list_extract [of "unat j" "map (refs sha) NewBranchNode"] j by auto
    then show ?thesis by (simp add: map_update)
  qed
  have map: "lookup (BranchNode ?ds) = lookup (ExtensionNode key p)"
    using lookup_single_child [OF j(1)] lookup_extension_sub key by metis
  have child: "fuel_for (?cs ! fst (splitPath k)) (?ds ! fst (splitPath k)) (snd (splitPath k)) \<le> f" if "k \<in> fst ` set kvs" for k
  proof (cases k)
    case Nil
    then show ?thesis using fuel j by (simp add: splitPath_def fuel_for_def mpt_limits)
  next
    case (Cons c r)
    then have "2 * length r + 4 \<le> f" using fuel(2) that by fastforce
    then show ?thesis using Cons fuel_for_le by (metis le_trans snd_conv list.simps(5) splitPath_def)
  qed
  have "byields sha t1 (sum_list (map (refs sha) ?ds)) (upd_batch kvs (lookup (BranchNode ?ds))) (length kvs)
      (addToBranch sha f put ?cs kvs False t1)"
    using assms(1,2) exps ok child fuel(1) env by (intro addToBranch_byields) auto
  then have "byields sha t (refs sha p) (upd_batch kvs (lookup (ExtensionNode key p))) (length kvs)
      (addToBranch sha f put ?cs kvs False t1)"
    using byields_after [OF t1(2)] unfolding sum map by blast
  moreover have "putBatchIntoExtensionNoPrefix sha f put key nxt kvs t = addToBranch sha f put ?cs kvs False t1"
    using t1(1) key j by (cases "rest = []") (auto simp: putBatchIntoExtensionNoPrefix_def newSubTrie_def sub_node_def)
  ultimately show ?thesis by simp
qed

lemma putBatchIntoExtension_byields:
  assumes bok: "batch_ok kvs" and ne: "kvs \<noteq> []" and put: "put_ok sha (tr_mode t) (tr_store t) f put"
    and exp: "expands sha (tr_mode t) (tr_store t) nxt p" and wf: "wf_node (ExtensionNode key p)"
    and fuel: "\<forall>k \<in> fst ` set kvs. fuel_for (ExtensionNode key nxt) (ExtensionNode key p) k \<le> Suc f"
  shows "byields sha t (refs sha (ExtensionNode key p)) (upd_batch kvs (lookup (ExtensionNode key p))) (length kvs)
    (putBatchIntoExtension sha f put key nxt kvs t)"
proof -
  let ?t = "removeNode sha (ExtensionNode key nxt) t"
  define pre where "pre = lcp (lcpMany kvs) key"
  have "Node_Hash sha (ExtensionNode key nxt) = Node_Hash sha (ExtensionNode key p)"
    using expands_hash_eq [OF expands_extension [OF exp]] by blast
  then have sh: "shifts t ?t (refs sha (ExtensionNode key p)) (refs sha p)"
    using shifts_remove [OF shifts_refl, of sha "ExtensionNode key nxt"] by simp
  have keys: "\<forall>k \<in> fst ` set kvs. \<exists>r. k = pre @ r"
    using lcpMany_prefix lcp_left [of "lcpMany kvs" key] unfolding pre_def by (metis append.assoc)
  obtain kt where kt: "key = pre @ kt" using lcp_right unfolding pre_def by metis
  have nib: "nibbles pre" "nibbles kt" using wf kt by auto
  have f2: "\<forall>k \<in> fst ` set kvs. 2 * length k + 2 \<le> f" using fuel by (auto simp: fuel_for_def)
  obtain k0 where "k0 \<in> fst ` set kvs" using ne by (cases kvs) auto
  then have two: "2 \<le> f" using f2 by auto
  have ext: "lookup (ExtensionNode key p) = beneath key (lookup p)" using under_extension wf by (simp del: lookup.simps)
  note strip = batch_ok_strip [OF bok keys]
  have dk: "drop (length pre) key = kt" "length pre = length key \<longleftrightarrow> kt = []" using kt by auto
  have run: "putBatchIntoExtension sha f put key nxt kvs t =
      (if kt = [] then merge_result sha f pre (put nxt (stripPrefix (length key) kvs) ?t)
       else if pre \<noteq> [] then merge_result sha f pre
         (putBatchIntoExtensionNoPrefix sha f put kt nxt (stripPrefix (length pre) kvs) ?t)
       else putBatchIntoExtensionNoPrefix sha f put key nxt kvs ?t)"
    unfolding putBatchIntoExtension_def Let_def pre_def [symmetric] dk by simp
  show ?thesis
  proof (cases "kt = []")
    case True
    have sub: "fuel_for nxt p k \<le> f" if km: "k \<in> fst ` set (stripPrefix (length pre) kvs)" for k
    proof -
      obtain k1 where k1: "k1 \<in> fst ` set kvs" "k = drop (length pre) k1" using km by auto
      then have "has_prefix k1 key" using keys kt True by (auto simp: has_prefix_iff)
      then show ?thesis using fuel_for_next [of key k1 nxt p f] wf fuel k1 kt True by auto
    qed
    have "byields sha ?t (refs sha p) (upd_batch (stripPrefix (length pre) kvs) (lookup p)) (length (stripPrefix (length pre) kvs))
        (put nxt (stripPrefix (length pre) kvs) ?t)"
      using put exp wf strip ne sub by (intro put_okD [of sha "tr_mode t" "tr_store t" f put]) auto
    from merge_result_byields [OF this nib(1) two]
    have "byields sha ?t (refs sha p) (upd_batch kvs (lookup (ExtensionNode key p))) (length kvs)
        (merge_result sha f pre (put nxt (stripPrefix (length pre) kvs) ?t))"
      unfolding under_strip [OF keys] ext using kt True by simp
    then show ?thesis using byields_after [OF sh] dk(2) True by (simp add: run del: refs.simps lookup.simps)
  next
    case False
    have wfk: "wf_node (ExtensionNode kt p)" using wf False nib by (simp add: wf_extension del: wf_node.simps)
    have "2 * length k + 2 \<le> f" if km: "k \<in> fst ` set (stripPrefix (length pre) kvs)" for k
    proof -
      obtain k1 where "k1 \<in> fst ` set kvs" "k = drop (length pre) k1" using km unfolding strip_facts by blast
      moreover from this have "2 * length k1 + 2 \<le> f" using f2 by blast
      ultimately show ?thesis by auto
    qed
    then have sub: "byields sha ?t (refs sha p) (upd_batch (stripPrefix (length pre) kvs) (lookup (ExtensionNode kt p))) (length kvs)
        (putBatchIntoExtensionNoPrefix sha f put kt nxt (stripPrefix (length pre) kvs) ?t)"
      using putBatchIntoExtensionNoPrefix_byields [OF strip, of sha ?t f put nxt p kt] put exp wfk two by simp
    have map: "beneath pre (upd_batch (stripPrefix (length pre) kvs) (lookup (ExtensionNode kt p))) = upd_batch kvs (lookup (ExtensionNode key p))"
      unfolding under_strip [OF keys] ext under_extension [OF False] using kt under_append by metis
    show ?thesis
    proof (cases "pre = []")
      case True
      then show ?thesis unfolding run using byields_after [OF sh] sub map kt False by (simp del: refs.simps lookup.simps)
    next
      case pne: False
      have "byields sha ?t (refs sha p) (upd_batch kvs (lookup (ExtensionNode key p))) (length kvs)
          (merge_result sha f pre (putBatchIntoExtensionNoPrefix sha f put kt nxt (stripPrefix (length pre) kvs) ?t))"
        using merge_result_byields [OF sub nib(1) two] unfolding map .
      then show ?thesis using byields_after [OF sh] False pne by (simp add: run del: refs.simps lookup.simps)
    qed
  qed
qed

lemma putBatchIntoNode_byields:
  assumes "expands sha m st n p" and "wf_node p" and "tr_mode t = m" and "tr_store t = st" and "batch_ok kvs" and "kvs \<noteq> []"
    and "\<forall>k \<in> fst ` set kvs. fuel_for n p k \<le> fuel"
  shows "byields sha t (refs sha p) (upd_batch kvs (lookup p)) (length kvs) (putBatchIntoNode sha fuel n kvs t)"
  using assms
proof (induction fuel arbitrary: n p kvs t)
  case 0
  then show ?case using fuel_for_pos by (cases kvs) auto
next
  case (Suc f)
  have put: "put_ok sha m st f (putBatchIntoNode sha f)" unfolding put_ok_def using Suc.IH by blast
  show ?case
  proof (cases n)
    case EmptyNode
    then have "p = EmptyNode" "\<forall>k \<in> fst ` set kvs. 2 * length k \<le> f" using Suc.prems by (auto simp: fuel_for_def)
    moreover have "lookup EmptyNode = Map.empty" by (simp add: fun_eq_iff)
    ultimately show ?thesis using putBatchIntoEmpty_byields [OF Suc.prems(5,6)] put Suc.prems EmptyNode by simp
  next
    case (LeafNode w)
    then have "p = LeafNode w" "\<forall>k \<in> fst ` set kvs. 2 * length k \<le> f" using Suc.prems by (auto simp: fuel_for_def)
    then show ?thesis using putBatchIntoLeaf_byields [OF Suc.prems(5,6), of sha t f "putBatchIntoNode sha f" w] put Suc.prems LeafNode
      by (simp del: lookup.simps refs.simps)
  next
    case (ExtensionNode key nxt)
    then obtain q where q: "p = ExtensionNode key q" "expands sha m st nxt q" using Suc.prems(1) by auto
    then show ?thesis
      using putBatchIntoExtension_byields [OF Suc.prems(5,6), of sha t f "putBatchIntoNode sha f" nxt q key] put Suc.prems ExtensionNode
      by (simp del: lookup.simps refs.simps wf_node.simps)
  next
    case (BranchNode cs)
    then obtain ds where ds: "p = BranchNode ds" "list_all2 (expands sha m st) cs ds" using Suc.prems(1) by auto
    then show ?thesis
      using addToBranch_inTrie [OF Suc.prems(5,6), of sha t f "putBatchIntoNode sha f" cs ds] put Suc.prems BranchNode
      by (simp del: lookup.simps refs.simps wf_node.simps)
  next
    case (HashNode h)
    then obtain n1 where n1: "stored_node m st h = Some n1" "\<nexists>h'. n1 = HashNode h'" "expands sha m st n1 p"
      using Suc.prems(1) by (auto elim: expands_hashE)
    obtain t1 where t1: "Trie_getFromStore h t = (Inr n1, t1)" "shifts t t1 {#} {#}"
      using Trie_getFromStore_stored n1(1) Suc.prems(3,4) by metis
    have "\<forall>k \<in> fst ` set kvs. fuel_for n1 p k \<le> f" using fuel_for_hash [OF n1(2)] Suc.prems(7) HashNode by blast
    then have "byields sha t1 (refs sha p) (upd_batch kvs (lookup p)) (length kvs) (putBatchIntoNode sha f n1 kvs t1)"
      using Suc.IH [OF n1(3)] Suc.prems shifts_env [OF t1(2)] by simp
    moreover have "shifts t t1 (refs sha p) (refs sha p)" using shifts_frame [OF t1(2), of "refs sha p"] by simp
    ultimately show ?thesis using byields_after t1(1) HashNode by (auto simp: putBatchIntoHash_def)
  qed
qed

section \<open>Properties\<close>

text \<open>The change set of one contract-storage prefix, as a map on the keys below it.\<close>

definition change_map :: "byte \<Rightarrow> (bytes, bytes option) gomap \<Rightarrow> (bytes \<rightharpoonup> bytes) \<Rightarrow> (bytes \<rightharpoonup> bytes)" where
  "change_map c m M k = (case map_of m (c # k) of None \<Rightarrow> M k | Some v \<Rightarrow> v)"

lemma MapToMPTBatch_spec:
  assumes "distinct (map fst m)" and "\<forall>k \<in> fst ` set m. \<exists>r. k = c # r"
  obtains kvs where "MapToMPTBatch m = Some kvs" "batch_ok kvs" "length kvs = length m"
    "fst ` set kvs = (\<lambda>k. toNibbles (tl k)) ` fst ` set m"
    "\<And>k. map_of kvs (toNibbles k) = map_of m (c # k)"
proof -
  let ?f = "\<lambda>(k, v). (toNibbles (tl k), v)"
  have str: "strToNibbles k = Some (toNibbles (tl k))" if "k \<in> fst ` set m" for k
    using assms(2) that by (cases k) auto
  have all: "map (\<lambda>(k, v). (the k, v)) (map (\<lambda>(k, v). (strToNibbles k, v)) m) = map ?f m"
    using str by (force simp: case_prod_unfold)
  have "\<not> (\<exists>(k, v) \<in> set (map (\<lambda>(k, v). (strToNibbles k, v)) m). k = None)"
    using str by force
  then have some: "MapToMPTBatch m = Some (sort_key fst (map ?f m))"
    unfolding MapToMPTBatch_def Let_def by (simp only: all if_False)
  have inj: "inj_on (\<lambda>k. toNibbles (tl k)) (fst ` set m)"
  proof (rule inj_onI)
    fix x y assume "x \<in> fst ` set m" "y \<in> fst ` set m" "toNibbles (tl x) = toNibbles (tl y)"
    then show "x = y" using assms(2) by (metis list.sel(3) toNibbles_inject)
  qed
  have mapf: "map fst (map ?f m) = map (\<lambda>k. toNibbles (tl k)) (map fst m)" by (simp add: case_prod_unfold)
  have dist: "distinct (map fst (map ?f m))"
    unfolding mapf using assms(1) inj by (simp only: distinct_map [of _ "map fst m"] set_map simp_thms)
  have sdist: "distinct (map fst (sort_key fst (map ?f m)))"
    using mset_eq_imp_distinct_iff [of "map fst (sort_key fst (map ?f m))" "map fst (map ?f m)"] dist
    by (simp only: mset_map mset_sort simp_thms)
  then have "sorted_wrt (<) (map fst (sort_key fst (map ?f m)))"
    by (simp only: strict_sorted_iff sorted_sort_key simp_thms)
  moreover have "fst ` set (sort_key fst (map ?f m)) = (\<lambda>k. toNibbles (tl k)) ` fst ` set m"
    by (simp add: image_image case_prod_unfold)
  ultimately have ok: "batch_ok (sort_key fst (map ?f m))" by (auto simp: batch_ok_def)
  have look: "map_of (sort_key fst (map ?f m)) (toNibbles k) = map_of m (c # k)" for k
  proof -
    have "map_of (sort_key fst (map ?f m)) = map_of (map ?f m)"
      using map_of_inject_set [OF sdist dist] by simp
    moreover have "map_of (map ?f m) (toNibbles k) = map_of m (c # k)"
      using assms(2) by (induction m) auto
    ultimately show ?thesis by simp
  qed
  show ?thesis using that [OF some ok _ _ look] by (simp add: image_image case_prod_unfold)
qed

lemma nib_map_change:
  assumes "fst ` set kvs \<subseteq> range toNibbles" and "\<And>k. map_of kvs (toNibbles k) = map_of m (c # k)"
  shows "nib_map (change_map c m M) = upd_batch kvs (nib_map M)"
proof
  fix q
  show "nib_map (change_map c m M) q = upd_batch kvs (nib_map M) q"
  proof (cases "q \<in> range toNibbles")
    case True
    then obtain k where "q = toNibbles k" by blast
    then show ?thesis unfolding change_map_def upd_batch_def by (simp only: nib_map_toNibbles assms(2))
  next
    case False
    then have "q \<notin> fst ` set kvs" using assms(1) by blast
    then have "map_of kvs q = None" by (simp only: map_of_eq_None_iff simp_thms)
    moreover have "toNibbles (fromNibbles q) \<noteq> q" using False by (metis rangeI)
    ultimately show ?thesis by (simp add: nib_map_def upd_batch_def)
  qed
qed

lemma PutBatch_rep:
  assumes "trie_rep sha B M t" and "distinct (map fst m)" and "\<forall>k \<in> fst ` set m. \<exists>r. k = c # r"
    and "\<forall>k \<in> fst ` set m. trie_fuel (tl k) \<le> fuel"
  obtains kvs t' where "MapToMPTBatch m = Some kvs" "PutBatch sha fuel kvs t = ((length m, None), t')"
    "trie_rep sha B (change_map c m M) t'"
proof -
  obtain kvs where kvs: "MapToMPTBatch m = Some kvs" "batch_ok kvs" "length kvs = length m"
    "fst ` set kvs = (\<lambda>k. toNibbles (tl k)) ` fst ` set m" "\<And>k. map_of kvs (toNibbles k) = map_of m (c # k)"
    using MapToMPTBatch_spec [OF assms(2,3)] by metis
  have upd: "nib_map (change_map c m M) = upd_batch kvs (nib_map M)" using nib_map_change kvs(4,5) by blast
  obtain p where p: "expands sha (tr_mode t) (tr_store t) (tr_root t) p" "wf_node p" "lookup p = nib_map M"
    "\<forall>h. refcount_of t h + of_nat (count B h) = of_nat (count (refs sha p) h)"
    using assms(1) unfolding trie_rep_def by blast
  show ?thesis
  proof (cases "kvs = []")
    case True
    then have "m = []" using kvs(3) by simp
    then have "change_map c m M = M" by (simp add: change_map_def fun_eq_iff)
    then show ?thesis using that kvs(1) True assms(1) \<open>m = []\<close> by (simp add: PutBatch_def)
  next
    case False
    have "\<forall>k \<in> fst ` set kvs. fuel_for (tr_root t) p k \<le> fuel"
      unfolding kvs(4) using assms(4) fuel_enough by blast
    from putBatchIntoNode_byields [OF p(1,2) refl refl kvs(2) False this] obtain n t1 where
      run: "putBatchIntoNode sha fuel (tr_root t) kvs t = ((n, length kvs, None), t1)"
      and "yields sha t (refs sha p) (nib_map (change_map c m M)) (Inr n, t1)"
      unfolding byields_def upd p(3) by blast
    from trie_rep_yields [OF p(1,4) this(2)] have "trie_rep sha B (change_map c m M) (t1\<lparr>tr_root := n\<rparr>)" by blast
    then show ?thesis using that kvs(1,3) run False by (simp add: PutBatch_def)
  qed
qed

text \<open>
  C4. A batch built by \<^verbatim>\<open>MapToMPTBatch\<close> from any set of changes below one storage prefix is put completely:
  \<^verbatim>\<open>PutBatch\<close> reports all items processed and no error, and the trie then holds the map with
  every change applied, puts and deletions mixed, with exact reference counters.
\<close>

theorem PutBatch_correct:
  assumes "trie_rep sha B M t" and "distinct (map fst m)" and "\<forall>k \<in> fst ` set m. \<exists>r. k = c # r"
    and "\<forall>k \<in> fst ` set m. trie_fuel (tl k) \<le> fuel"
  shows "\<exists>kvs t'. MapToMPTBatch m = Some kvs \<and> PutBatch sha fuel kvs t = ((length m, None), t') \<and>
    trie_rep sha B (change_map c m M) t'"
  using PutBatch_rep [OF assms] by metis

theorem PutBatch_correct_witness:
  "\<exists>kvs t'. MapToMPTBatch [([0x70, 2], Some [8]), ([0x70, 1], Some [7]), ([0x70, 3], None)] = Some kvs \<and>
    PutBatch (\<lambda>_. 0) 8 kvs (NewTrie EmptyNode ModeAll Map.empty) = ((3, None), t') \<and>
    trie_rep (\<lambda>_. 0) {#} (change_map 0x70 [([0x70, 2], Some [8]), ([0x70, 1], Some [7]), ([0x70, 3], None)] Map.empty) t'"
  using PutBatch_correct [OF trie_rep_NewTrie [of "\<lambda>_. 0" ModeAll Map.empty],
      of "[([0x70, 2], Some [8]), ([0x70, 1], Some [7]), ([0x70, 3], None)]" "0x70" 8]
  by (simp add: trie_fuel_def numeral_3_eq_3)

text \<open>
  C5. The batch is as good as its changes one by one: if single puts and deletes lead from the same
  contents to the same contents as the batch, the two state roots are equal.
\<close>

theorem PutBatch_sequential:
  assumes "trie_rep sha B M t" and "distinct (map fst m)" and "\<forall>k \<in> fst ` set m. \<exists>r. k = c # r"
    and "\<forall>k \<in> fst ` set m. trie_fuel (tl k) \<le> fuel"
    and "list_all (change_ok trie_key_ok trie_val_ok) cs" and "changed cs M = change_map c m M"
  shows "\<exists>kvs a b. MapToMPTBatch m = Some kvs \<and> PutBatch sha fuel kvs t = ((length m, None), a) \<and>
    run_changes (trie_put sha) (trie_del sha) cs t = Some b \<and> StateRoot sha a = StateRoot sha b"
proof -
  obtain kvs a where a: "MapToMPTBatch m = Some kvs" "PutBatch sha fuel kvs t = ((length m, None), a)"
    "trie_rep sha B (change_map c m M) a" using PutBatch_rep [OF assms(1-4)] .
  obtain b B' where "run_changes (trie_put sha) (trie_del sha) cs t = Some b" "trie_rep sha B' (changed cs M) b"
    using mpt.run_rep [OF _ assms(5)] assms(1) by blast
  then show ?thesis using a StateRoot_rep assms(6) by metis
qed

theorem PutBatch_sequential_witness:
  "\<exists>kvs a b. MapToMPTBatch [([0x70, 2], Some [8]), ([0x70, 1], None)] = Some kvs \<and>
    PutBatch (\<lambda>_. 0) 8 kvs (NewTrie EmptyNode ModeAll Map.empty) = ((2, None), a) \<and>
    run_changes (trie_put (\<lambda>_. 0)) (trie_del (\<lambda>_. 0)) [Change_Del [1], Change_Put [2] [8]] (NewTrie EmptyNode ModeAll Map.empty) = Some b \<and>
    StateRoot (\<lambda>_. 0) a = StateRoot (\<lambda>_. 0) b"
proof -
  have "changed [Change_Del [1], Change_Put [2] [8]] Map.empty =
      change_map 0x70 [([0x70, 2], Some [8]), ([0x70, 1], None)] Map.empty"
    by (auto simp: change_map_def fun_eq_iff)
  then have "\<exists>kvs a b. MapToMPTBatch [([0x70, 2], Some [8]), ([0x70, 1], None)] = Some kvs \<and>
    PutBatch (\<lambda>_. 0) 8 kvs (NewTrie EmptyNode ModeAll Map.empty) = ((Suc (Suc 0), None), a) \<and>
    run_changes (trie_put (\<lambda>_. 0)) (trie_del (\<lambda>_. 0)) [Change_Del [1], Change_Put [2] [8]] (NewTrie EmptyNode ModeAll Map.empty) = Some b \<and>
    StateRoot (\<lambda>_. 0) a = StateRoot (\<lambda>_. 0) b"
    using PutBatch_sequential [OF trie_rep_NewTrie [of "\<lambda>_. 0" ModeAll Map.empty],
      of "[([0x70, 2], Some [8]), ([0x70, 1], None)]" "0x70" 8 "[Change_Del [1], Change_Put [2] [8]]"]
    by (simp add: trie_fuel_def trie_key_ok_def trie_val_ok_def mpt_limits del: changed.simps run_changes.simps)
  then show ?thesis by (simp only: numeral_2_eq_2)
qed

end
