(* ===== verification/Mpt_Proof.thy ===== *)
theory Mpt_Proof
  imports Mpt_Flush
begin

text \<open>
  Membership proofs, \<^verbatim>\<open>pkg/core/mpt/proof.go\<close>: \<^verbatim>\<open>GetProof\<close> collects the bytes of the nodes on the path
  to a key, \<^verbatim>\<open>VerifyProof\<close> looks the key up in a trie whose store holds nothing but those bytes. A proof
  is accepted exactly when it holds the nodes on the path, and the value it shows is then the one
  in the trie with that root, unless SHA-256 collides.
\<close>

section \<open>Definitions\<close>

fun getProof ::
  "(bytes \<Rightarrow> uint256) \<Rightarrow> nat \<Rightarrow> node \<Rightarrow> bytes \<Rightarrow> bytes list \<Rightarrow> trie \<Rightarrow> (mpt_err + node) \<times> bytes list \<times> trie" where
  "getProof sha 0 cur path proofs t = (Inl OutOfFuel, proofs, t)"
| "getProof sha (Suc fuel) cur path proofs t =
     (case cur of
        LeafNode v \<Rightarrow>
          if path = [] then (Inr cur, proofs @ [encodeNodeWithType sha cur], t) else (Inl ErrNotFound, proofs, t)
      | BranchNode cs \<Rightarrow>
          (let proofs = proofs @ [encodeNodeWithType sha cur]; (i, path) = splitPath path in
           case get_child cs i of
             Inl e \<Rightarrow> (Inl e, proofs, t)
           | Inr c \<Rightarrow>
               (case getProof sha fuel c path proofs t of
                  (Inl e, proofs, t) \<Rightarrow> (Inl e, proofs, t)
                | (Inr r, proofs, t) \<Rightarrow> (Inr (BranchNode (cs[i := r])), proofs, t)))
      | ExtensionNode key nxt \<Rightarrow>
          if has_prefix path key then
            (case getProof sha fuel nxt (drop (length key) path) (proofs @ [encodeNodeWithType sha cur]) t of
               (Inl e, proofs, t) \<Rightarrow> (Inl e, proofs, t)
             | (Inr r, proofs, t) \<Rightarrow> (Inr (ExtensionNode key r), proofs, t))
          else (Inl ErrNotFound, proofs, t)
      | HashNode h \<Rightarrow>
          (case Trie_getFromStore h t of
             (Inl e, t) \<Rightarrow> (Inl e, proofs, t)
           | (Inr r, t) \<Rightarrow> getProof sha fuel r path proofs t)
      | EmptyNode \<Rightarrow> (Inl ErrNotFound, proofs, t))"

text \<open>The slice returned next to an error holds the nodes collected so far.\<close>

definition GetProof :: "(bytes \<Rightarrow> uint256) \<Rightarrow> nat \<Rightarrow> bytes \<Rightarrow> trie \<Rightarrow> (bytes list \<times> mpt_err option) \<times> trie" where
  "GetProof sha fuel key t =
     (if length key > MaxKeyLength then (([], Some ErrKeyTooBig), t)
      else
        case getProof sha fuel (tr_root t) (toNibbles key) [] t of
          (Inl e, proof, t) \<Rightarrow> ((proof, Some e), t)
        | (Inr r, proof, t) \<Rightarrow> ((proof, None), t\<lparr>tr_root := r\<rparr>))"

text \<open>The store that \<^verbatim>\<open>VerifyProof\<close> fills: a new memory store with one entry per element of the proof.\<close>

definition proof_store :: "(bytes \<Rightarrow> uint256) \<Rightarrow> bytes list \<Rightarrow> (bytes \<rightharpoonup> bytes)" where
  "proof_store sha proofs = fold (\<lambda>e st. st(makeStorageKey (DoubleSha256 sha e) \<mapsto> e)) proofs Map.empty"

text \<open>\<open>Inl\<close> is a panic or a run out of fuel; \<open>Inr None\<close> is the result \<^verbatim>\<open>nil, false\<close>.\<close>

definition VerifyProof :: "(bytes \<Rightarrow> uint256) \<Rightarrow> nat \<Rightarrow> uint256 \<Rightarrow> bytes \<Rightarrow> bytes list \<Rightarrow> mpt_err + bytes option" where
  "VerifyProof sha fuel rh key proofs =
     (let path = toNibbles key; tr = NewTrie (HashNode rh) ModeAll (proof_store sha proofs) in
      case fst (getWithPath fuel (tr_root tr) path True tr) of
        Inl e \<Rightarrow> if e = Panic \<or> e = OutOfFuel then Inl e else Inr None
      | Inr (r, leaf, pfx) \<Rightarrow> (case leaf of LeafNode v \<Rightarrow> Inr (Some v) | _ \<Rightarrow> Inl Panic))"

section \<open>The nodes on a path\<close>

fun path_nodes :: "node \<Rightarrow> bytes \<Rightarrow> node list" where
  "path_nodes (ExtensionNode key nxt) path =
     ExtensionNode key nxt # (if has_prefix path key then path_nodes nxt (drop (length key) path) else [])"
| "path_nodes (BranchNode cs) path =
     BranchNode cs # (if fst (splitPath path) < length cs then path_nodes (cs ! fst (splitPath path)) (snd (splitPath path)) else [])"
| "path_nodes (LeafNode v) path = [LeafNode v]"
| "path_nodes _ path = []"

lemma path_nodes_encodings: "n \<in> set (path_nodes p path) \<Longrightarrow> encodeNodeWithType sha n \<in> set (encodings sha p)"
proof (induction p path rule: path_nodes.induct)
  case (2 cs path)
  then show ?case by (auto split: if_splits intro!: bexI [of _ "cs ! fst (splitPath path)"])
qed (auto split: if_splits)

lemma expands_encode:
  assumes "expands sha m st n p" and "\<nexists>h. n = HashNode h"
  shows "encodeNodeWithType sha n = encodeNodeWithType sha p"
proof -
  have child: "expands sha m st a b \<Longrightarrow> encodeBinaryAsChild sha a = encodeBinaryAsChild sha b" for a b
    using expands_hash_eq by (simp add: encodeBinaryAsChild_eq)
  show ?thesis using assms
  proof cases
    case (expands_branch cs ds)
    then have "map (encodeBinaryAsChild sha) cs = map (encodeBinaryAsChild sha) ds"
      by (auto simp: list_all2_conv_all_nth child intro!: nth_equalityI)
    with expands_branch show ?thesis by (simp add: encodeNodeWithType_def)
  qed (auto simp: encodeNodeWithType_def child)
qed

section \<open>Collecting a proof\<close>

definition proof_ok ::
  "(bytes \<Rightarrow> uint256) \<Rightarrow> nat \<Rightarrow> node \<Rightarrow> node \<Rightarrow> bytes \<Rightarrow> bytes list \<Rightarrow> trie \<Rightarrow> trie \<Rightarrow> bool" where
  "proof_ok sha fuel n p path acc t t' \<longleftrightarrow> shifts t t' {#} {#} \<and>
    (case lookup p path of
       None \<Rightarrow> \<exists>pr. getProof sha fuel n path acc t = (Inl ErrNotFound, pr, t')
     | Some v \<Rightarrow> \<exists>n'. getProof sha fuel n path acc t = (Inr n', acc @ map (encodeNodeWithType sha) (path_nodes p path), t') \<and>
         expands sha (tr_mode t) (tr_store t) n' p)"

lemma getProof_correct:
  assumes "expands sha m st n p" and "wf_node p" and "tr_mode t = m" and "tr_store t = st"
    and "nibbles path" and "fuel_for n p path \<le> fuel"
  shows "\<exists>t'. proof_ok sha fuel n p path acc t t'"
  using assms
proof (induction arbitrary: path fuel acc t rule: expands.induct)
  case expands_empty
  then obtain f where "fuel = Suc f" by (cases fuel) (auto simp: fuel_for_def)
  then show ?case by (intro exI [of _ t]) (simp add: proof_ok_def)
next
  case (expands_leaf v)
  then obtain f where "fuel = Suc f" by (cases fuel) (auto simp: fuel_for_def)
  then show ?case by (intro exI [of _ t]) (auto simp: proof_ok_def intro: expands.expands_leaf)
next
  case (expands_extension n p k)
  then obtain f where f: "fuel = Suc f" by (cases fuel) (auto simp: fuel_for_def)
  show ?case
  proof (cases "has_prefix path k")
    case False
    then show ?thesis using f by (intro exI [of _ t]) (simp add: proof_ok_def)
  next
    case True
    let ?rest = "drop (length k) path"
    have "wf_node p" "nibbles ?rest" "fuel_for n p ?rest \<le> f"
      using expands_extension.prems f fuel_for_next True by auto
    from expands_extension.IH [OF this(1) expands_extension.prems(2,3) this(2,3)]
    obtain t' where t': "proof_ok sha f n p ?rest (acc @ [encodeNodeWithType sha (ExtensionNode k n)]) t t'" by blast
    have "encodeNodeWithType sha (ExtensionNode k n) = encodeNodeWithType sha (ExtensionNode k p)"
      using expands_encode [OF expands.expands_extension [OF expands_extension.hyps]] by simp
    with t' f True show ?thesis
      by (intro exI [of _ t']) (auto simp: proof_ok_def intro: expands.expands_extension split: option.splits)
  qed
next
  case (expands_branch cs ds)
  then obtain f where f: "fuel = Suc f" by (cases fuel) (auto simp: fuel_for_def)
  obtain i rest where sp: "splitPath path = (i, rest)" by fastforce
  note spl = splitPath_nibbles [OF \<open>nibbles path\<close> sp]
  have len: "length ds = childrenCount" "length cs = childrenCount"
    using expands_branch.prems(1) list_all2_lengthD [OF expands_branch.IH] by simp_all
  have all: "list_all2 (expands sha m st) cs ds" using expands_branch.IH by (auto elim: list_all2_mono)
  let ?acc = "acc @ [encodeNodeWithType sha (BranchNode cs)]"
  have enc: "encodeNodeWithType sha (BranchNode cs) = encodeNodeWithType sha (BranchNode ds)"
    using expands_encode [OF expands.expands_branch [OF all]] by simp
  have "wf_node (ds ! i)" "fuel_for (cs ! i) (ds ! i) rest \<le> f"
    using wf_branch_children fuel_for_child expands_branch.prems spl(1) sp f by blast+
  with list_all2_nthD [OF expands_branch.IH, of i] spl(1,2) len expands_branch.prems(2,3)
  obtain t' where t': "proof_ok sha f (cs ! i) (ds ! i) rest ?acc t t'" by (auto, metis)
  have upd: "expands sha m st r (ds ! i) \<Longrightarrow> expands sha m st (BranchNode (cs[i := r])) (BranchNode ds)" for r
    using expands_update [OF all, of r "ds ! i" i] by simp
  have "lookup (BranchNode ds) path = lookup (ds ! i) rest"
    by (rule lookup_branch_split [OF len(1) expands_branch.prems(4) sp])
  with t' f sp spl(1) len enc upd expands_branch.prems(2,3) show ?case
    by (intro exI [of _ t']) (auto simp: proof_ok_def Let_def simp del: lookup.simps split: option.splits)
next
  case (expands_hash h n p)
  then obtain f where f: "fuel = Suc f" by (cases fuel) (auto simp: fuel_for_def)
  obtain t1 where t1: "Trie_getFromStore h t = (Inr n, t1)" "shifts t t1 {#} {#}"
    using Trie_getFromStore_stored expands_hash.hyps(1) expands_hash.prems(2,3) by metis
  have env: "tr_mode t1 = m" "tr_store t1 = st" "fuel_for n p path \<le> f"
    using shifts_env t1(2) expands_hash fuel_for_hash f by metis+
  from expands_hash.IH [OF expands_hash.prems(1) this(1,2) expands_hash.prems(4) this(3)]
  obtain t' where t': "proof_ok sha f n p path acc t1 t'" by blast
  then have "shifts t t' {#} {#}" using shifts_chain t1(2) by (auto simp: proof_ok_def)
  then show ?case using t' env t1(1) f expands_hash.prems(2,3)
    by (intro exI [of _ t']) (simp add: proof_ok_def split: option.splits)
qed

section \<open>Checking a proof\<close>

lemma proof_store_Some:
  assumes "proof_store sha proofs (makeStorageKey h) = Some e"
  shows "e \<in> set proofs \<and> DoubleSha256 sha e = h"
  using assms unfolding proof_store_def
  by (induction proofs rule: rev_induct) (auto split: if_splits)

lemma proof_store_None: "proof_store sha proofs (makeStorageKey h) = None \<Longrightarrow> e \<in> set proofs \<Longrightarrow> DoubleSha256 sha e \<noteq> h"
  unfolding proof_store_def
  by (induction proofs rule: rev_induct) (auto split: if_splits)

definition shown :: "(bytes \<Rightarrow> uint256) \<Rightarrow> bytes list \<Rightarrow> node \<Rightarrow> bytes \<Rightarrow> bytes option" where
  "shown sha proofs p path =
     (if \<forall>n\<in>set (path_nodes p path). encodeNodeWithType sha n \<in> set proofs then lookup p path else None)"

lemma proof_lookup:
  assumes "wf_node p" "p \<noteq> EmptyNode" "fits p" and inj: "inj_on (DoubleSha256 sha) (insert (encodeNodeWithType sha p) (set proofs))"
    and t: "tr_mode t = ModeAll" "tr_store t = proof_store sha proofs"
  shows "Trie_getFromStore (Node_Hash sha p) t =
    (if encodeNodeWithType sha p \<in> set proofs then Inr (shallow sha p) else Inl ErrKeyNotFound, t)"
proof -
  let ?e = "encodeNodeWithType sha p" and ?h = "Node_Hash sha p"
  have modes: "\<not> GC ModeAll" "\<not> RC ModeAll" by (simp_all add: GC_def RC_def ModeAll_def)
  have h: "?h = DoubleSha256 sha ?e" by (rule Node_Hash_wf [OF assms(1,2)])
  have ne: "shallow sha p \<noteq> EmptyNode" using assms(1,2) by (cases p) auto
  have dec: "DecodeNodeWithType (NewBinReaderFromBuf ?e) = (Some (shallow sha p), NewBinReaderFromBuf [])"
  proof -
    let ?r = "reader_of (?e @ [])"
    have "decode_node (Suc (Reader_Len ?r)) ?r = decode_node (Suc (Suc (Reader_Len ?r))) ?r"
      by (rule decode_node_fuel) (simp_all add: Reader_Len_def)
    also have "\<dots> = (Some (shallow sha p), reader_of [])" using assms(3) by (rule decode_encode_node)
    finally show ?thesis by (simp add: DecodeNodeWithType_def NewBinReaderFromBuf_def)
  qed
  show ?thesis
  proof (cases "proof_store sha proofs (makeStorageKey ?h)")
    case None
    then have "?e \<notin> set proofs" using proof_store_None h by metis
    with None t show ?thesis by (simp add: Trie_getFromStore_def getFromStore_def)
  next
    case (Some e)
    then have "e \<in> set proofs" "DoubleSha256 sha e = DoubleSha256 sha ?e" using proof_store_Some h by metis+
    with inj have "e = ?e" by (meson inj_onD insertI1 insertI2)
    with Some \<open>e \<in> set proofs\<close> t dec ne modes show ?thesis
      by (simp add: Trie_getFromStore_def getFromStore_def NewBinReaderFromBuf_def)
  qed
qed

definition shows_value :: "bytes option \<Rightarrow> trie \<Rightarrow> (mpt_err + node \<times> node \<times> bytes) \<times> trie \<Rightarrow> bool" where
  "shows_value vo t res \<longleftrightarrow> snd res = t \<and>
     (case vo of None \<Rightarrow> fst res = Inl ErrNotFound | Some v \<Rightarrow> \<exists>r pfx. fst res = Inr (r, LeafNode v, pfx))"

lemma fuel_for_shallow: "p \<noteq> EmptyNode \<Longrightarrow> fuel_for (HashNode h) p path \<le> Suc f \<Longrightarrow> wf_node p \<Longrightarrow> fuel_for (shallow sha p) p path \<le> f"
  by (cases p) (auto simp: fuel_for_def)

lemma getWithPath_proof:
  assumes "wf_node p" and "fits_all p" and "inj_on (DoubleSha256 sha) (set (encodings sha p) \<union> set proofs)"
    and t: "tr_mode t = ModeAll" "tr_store t = proof_store sha proofs" and "nibbles path"
    and "fuel_for (child_ref sha p) p path \<le> fuel"
  shows "shows_value (shown sha proofs p path) t (getWithPath fuel (child_ref sha p) path True t)"
  using assms(1-3,6-)
proof (induction p arbitrary: path fuel)
  case EmptyNode
  then obtain f where "fuel = Suc f" by (cases fuel) (auto simp: fuel_for_def)
  then show ?case by (simp add: shows_value_def shown_def child_ref_def)
next
  case (LeafNode v)
  then obtain f where f: "fuel = Suc (Suc f)" by (cases fuel; cases "fuel - 1") (auto simp: fuel_for_def child_ref_def)
  show ?case
    using proof_lookup [of "LeafNode v" sha proofs t] LeafNode t f by (simp add: shows_value_def shown_def child_ref_def)
next
  case (ExtensionNode k n)
  then obtain f where f: "fuel = Suc (Suc f)" by (cases fuel; cases "fuel - 1") (auto simp: fuel_for_def child_ref_def)
  have "fuel_for (ExtensionNode k (child_ref sha n)) (ExtensionNode k n) path \<le> Suc f"
    using ExtensionNode.prems f by (simp add: fuel_for_def child_ref_def)
  then have fl: "has_prefix path k \<Longrightarrow> fuel_for (child_ref sha n) n (drop (length k) path) \<le> f"
    using fuel_for_next ExtensionNode.prems(1) by (auto simp: fuel_for_def)
  have inj: "inj_on (DoubleSha256 sha) (insert (encodeNodeWithType sha (ExtensionNode k n)) (set proofs))"
    "inj_on (DoubleSha256 sha) (set (encodings sha n) \<union> set proofs)"
    using ExtensionNode.prems(3) by (auto intro: inj_on_subset)
  have ih: "has_prefix path k \<Longrightarrow> shows_value (shown sha proofs n (drop (length k) path)) t (getWithPath f (child_ref sha n) (drop (length k) path) True t)"
    using ExtensionNode.IH [of "drop (length k) path" f] ExtensionNode.prems inj(2) fl by simp
  show ?case
    using proof_lookup [of "ExtensionNode k n" sha proofs t] ExtensionNode.prems inj(1) t f ih
    by (cases "has_prefix path k")
      (auto simp: shows_value_def shown_def child_ref_def [of sha "ExtensionNode k n"] split: option.splits prod.splits if_splits)
next
  case (BranchNode cs)
  then obtain f where f: "fuel = Suc (Suc f)" by (cases fuel; cases "fuel - 1") (auto simp: fuel_for_def child_ref_def)
  obtain i rest where sp: "splitPath path = (i, rest)" by fastforce
  note spl = splitPath_nibbles [OF \<open>nibbles path\<close> sp]
  have len: "length cs = childrenCount" using BranchNode.prems(1) by simp
  then have i: "i < length cs" "cs ! i \<in> set cs" using spl(1) by simp_all
  have fl: "fuel_for (child_ref sha (cs ! i)) (cs ! i) rest \<le> f"
    by (rule fuel_for_child [OF BranchNode.prems(1) \<open>nibbles path\<close> sp, of "map (child_ref sha) cs"])
      (use BranchNode.prems f in \<open>simp add: fuel_for_def child_ref_def\<close>)
  have inj: "inj_on (DoubleSha256 sha) (insert (encodeNodeWithType sha (BranchNode cs)) (set proofs))"
    "inj_on (DoubleSha256 sha) (set (encodings sha (cs ! i)) \<union> set proofs)"
    using BranchNode.prems(3) i(2) by (auto intro: inj_on_subset)
  have ih: "shows_value (shown sha proofs (cs ! i) rest) t (getWithPath f (child_ref sha (cs ! i)) rest True t)"
    using BranchNode.IH [OF i(2), of rest f] BranchNode.prems inj(2) fl spl(2) i(2) by (simp add: list_all_iff)
  have "lookup (BranchNode cs) path = lookup (cs ! i) rest" by (rule lookup_branch_split [OF len \<open>nibbles path\<close> sp])
  then have sh: "shown sha proofs (BranchNode cs) path =
      (if encodeNodeWithType sha (BranchNode cs) \<in> set proofs then shown sha proofs (cs ! i) rest else None)"
    using sp i(1) by (simp add: shown_def del: lookup.simps)
  have get: "get_child (map (child_ref sha) cs) i = Inr (child_ref sha (cs ! i))" using i(1) by simp
  show ?case
    using proof_lookup [of "BranchNode cs" sha proofs t] BranchNode.prems inj(1) t f ih
    unfolding sh
    by (auto simp: shows_value_def child_ref_def [of sha "BranchNode cs"] sp get split: option.splits prod.splits if_splits)
qed (simp add: shows_value_def)

lemma VerifyProof_shown:
  assumes "wf_node p" and "p \<noteq> EmptyNode" and "fits_all p" and "trie_fuel key \<le> fuel"
    and "inj_on (DoubleSha256 sha) (set (encodings sha p) \<union> set proofs)"
  shows "VerifyProof sha fuel (Node_Hash sha p) key proofs = Inr (shown sha proofs p (toNibbles key))"
proof -
  let ?t = "NewTrie (HashNode (Node_Hash sha p)) ModeAll (proof_store sha proofs)"
  have "shows_value (shown sha proofs p (toNibbles key)) ?t (getWithPath fuel (child_ref sha p) (toNibbles key) True ?t)"
    by (rule getWithPath_proof [OF assms(1,3,5)])
      (simp_all add: NewTrie_def fuel_enough assms(4))
  moreover have "child_ref sha p = tr_root ?t" using assms(2) by (simp add: child_ref_def NewTrie_def)
  ultimately show ?thesis
    by (cases "shown sha proofs p (toNibbles key)") (auto simp: VerifyProof_def shows_value_def Let_def)
qed

section \<open>Properties\<close>

text \<open>
  C32. A proof is checked exactly: against the root hash of a trie \<open>p\<close>, \<^verbatim>\<open>VerifyProof\<close> accepts a list of byte strings,
  whoever made it, if and only if \<open>p\<close> has the key and the list holds the bytes of every node on the path to it, and it
  then returns the value \<open>p\<close> has there. It never panics. The hypothesis is that double SHA-256 does not collide
  on the nodes of the trie and the elements of the list.
\<close>

theorem VerifyProof_exact:
  assumes "wf_node p" and "p \<noteq> EmptyNode" and "fits_all p" and "trie_fuel key \<le> fuel"
    and "inj_on (DoubleSha256 sha) (set (encodings sha p) \<union> set proofs)"
  shows "VerifyProof sha fuel (Node_Hash sha p) key proofs =
    Inr (if \<forall>n\<in>set (path_nodes p (toNibbles key)). encodeNodeWithType sha n \<in> set proofs
         then lookup p (toNibbles key) else None)"
  using VerifyProof_shown [OF assms] by (simp only: shown_def)

definition be_sha :: "bytes \<Rightarrow> uint256" where
  "be_sha b = word_of_nat (be_nat b)"

lemma leaf_encodings: "encodings be_sha (LeafNode [x]) = [[2, 1, x]]" "encodeNodeWithType be_sha (LeafNode [x]) = [2, 1, x]"
  by (simp_all add: encodeNodeWithType_def LeafT_def var_bytes_eq PutVarUint_def)

lemma be_sha_inj: "inj_on (DoubleSha256 be_sha) {[2, 1, 7], [2, 1, 8]}"
proof -
  have "DoubleSha256 be_sha b = be_sha b" for b by (simp add: DoubleSha256_def Sha256_def be_sha_def)
  then show ?thesis by (simp add: be_sha_def be_nat_def)
qed

theorem VerifyProof_exact_witness:
  "VerifyProof be_sha 4 (Node_Hash be_sha (LeafNode [7])) [] [[2, 1, 8], [2, 1, 7]] = Inr (Some [7]) \<and>
   VerifyProof be_sha 4 (Node_Hash be_sha (LeafNode [7])) [] [[2, 1, 8]] = Inr None"
proof -
  have "inj_on (DoubleSha256 be_sha) (set (encodings be_sha (LeafNode [7])) \<union> set [[2, 1, 8], [2, 1, 7]])"
    "inj_on (DoubleSha256 be_sha) (set (encodings be_sha (LeafNode [7])) \<union> set [[2, 1, 8]])"
    unfolding leaf_encodings by (rule inj_on_subset [OF be_sha_inj], simp)+
  from this [THEN VerifyProof_exact [of "LeafNode [7]" "[]" 4, rotated -1]] show ?thesis
    by (simp add: mpt_limits trie_fuel_def leaf_encodings)
qed

text \<open>
  C33. \<^verbatim>\<open>GetProof\<close> on a trie that stands for \<open>p\<close>, however much of it is behind hash nodes, fails with the not-found error
  exactly for the keys \<open>p\<close> does not have, and for the others returns a proof that \<^verbatim>\<open>VerifyProof\<close> accepts
  against the state root, with the value of the key; the trie goes on standing for \<open>p\<close>.
\<close>

theorem GetProof_verifies:
  assumes "expands sha (tr_mode t) (tr_store t) (tr_root t) p" and "wf_node p" and "p \<noteq> EmptyNode" and "fits_all p"
    and "inj_on (DoubleSha256 sha) (set (encodings sha p))" and "length key \<le> MaxKeyLength" and "trie_fuel key \<le> fuel"
  shows "\<exists>proofs t'. GetProof sha fuel key t = ((proofs, if lookup p (toNibbles key) = None then Some ErrNotFound else None), t') \<and>
    expands sha (tr_mode t') (tr_store t') (tr_root t') p \<and>
    (lookup p (toNibbles key) \<noteq> None \<longrightarrow> VerifyProof sha fuel (StateRoot sha t) key proofs = Inr (lookup p (toNibbles key)))"
proof -
  from getProof_correct [OF assms(1,2) refl refl nibbles_toNibbles fuel_enough [OF assms(7)]]
  obtain t1 where t1: "proof_ok sha fuel (tr_root t) p (toNibbles key) [] t t1" by blast
  then have env: "tr_mode t1 = tr_mode t" "tr_store t1 = tr_store t" "tr_root t1 = tr_root t"
    using shifts_env by (auto simp: proof_ok_def)
  have root: "StateRoot sha t = Node_Hash sha p"
    using expands_hash_eq [OF assms(1)] assms(3) by (simp add: StateRoot_def)
  show ?thesis
  proof (cases "lookup p (toNibbles key)")
    case None
    with t1 env assms(1,6) show ?thesis by (auto simp: proof_ok_def GetProof_def)
  next
    case (Some v)
    let ?pr = "map (encodeNodeWithType sha) (path_nodes p (toNibbles key))"
    from t1 Some obtain n' where n': "getProof sha fuel (tr_root t) (toNibbles key) [] t = (Inr n', ?pr, t1)"
      "expands sha (tr_mode t) (tr_store t) n' p" by (auto simp: proof_ok_def)
    have "inj_on (DoubleSha256 sha) (set (encodings sha p) \<union> set ?pr)"
      using assms(5) path_nodes_encodings by (auto intro: inj_on_subset)
    from VerifyProof_shown [OF assms(2-4,7) this] have "VerifyProof sha fuel (Node_Hash sha p) key ?pr = Inr (Some v)"
      by (simp add: shown_def Some)
    with n' Some env root assms(6) show ?thesis by (simp add: GetProof_def)
  qed
qed

theorem GetProof_verifies_witness:
  "\<exists>proofs t'. GetProof be_sha 4 [] (NewTrie (LeafNode [7]) ModeAll Map.empty) = ((proofs, None), t') \<and>
    VerifyProof be_sha 4 (StateRoot be_sha (NewTrie (LeafNode [7]) ModeAll Map.empty)) [] proofs = Inr (Some [7])"
proof -
  have "inj_on (DoubleSha256 be_sha) (set (encodings be_sha (LeafNode [7])))"
    unfolding leaf_encodings by simp
  then show ?thesis
    using GetProof_verifies [of be_sha "NewTrie (LeafNode [7]) ModeAll Map.empty" "LeafNode [7]" "[]" 4]
    by (auto simp: NewTrie_def expands_leaf mpt_limits trie_fuel_def simp del: encodings.simps)
qed

end
