(* ===== verification/Storage.thy ===== *)
theory Storage
  imports Epic_Prelude
begin

text \<open>
  The layered key-value storage of the node, \<^verbatim>\<open>src/pkg/core/storage\<close>: the in-memory store
  (\<^verbatim>\<open>memory_store.go\<close>), the caching layer over another store (\<^verbatim>\<open>memcached_store.go\<close>) and the
  conversion of a batch to database operations (\<^verbatim>\<open>store.go\<close>). A store is a stack of layers
  over a database; the database itself (LevelDB or BoltDB, third-party code) is a parameter,
  a \<open>backend\<close> whose documented behaviour is the locale \<open>kv_backend\<close>.
\<close>

section \<open>Keys, maps and errors\<close>

datatype store_err = ErrKeyNotFound | ErrStore string | StorePanic

text \<open>
  A Go map of type \<^verbatim>\<open>map[string][]byte\<close>: the outer \<open>None\<close> is the nil map, which reads as empty
  and panics on assignment; a nil value, which marks a deleted key, is \<open>None\<close>.
\<close>

type_synonym kvmap = "(bytes, bytes option) gomap option"

definition STStorage :: byte where "STStorage = 0x70"
definition STTempStorage :: byte where "STTempStorage = 0x71"

definition entries :: "kvmap \<Rightarrow> (bytes \<times> bytes option) list" where
  "entries m = (case m of None \<Rightarrow> [] | Some xs \<Rightarrow> xs)"

record seek_range =
  sr_prefix :: bytes
  sr_start :: bytes
  sr_backwards :: bool
  sr_depth :: int

text \<open>The closures \<^verbatim>\<open>isKeyOK\<close> and \<^verbatim>\<open>less\<close> which both stores build from a range.\<close>

definition isKeyOK :: "seek_range \<Rightarrow> bytes \<Rightarrow> bool" where
  "isKeyOK rng key \<longleftrightarrow> has_prefix key (sr_prefix rng) \<and>
     (length (sr_start rng) = 0 \<or>
      (if sr_backwards rng
       then bytes_compare (drop (length (sr_prefix rng)) key) (sr_start rng) \<le> 0
       else bytes_compare (drop (length (sr_prefix rng)) key) (sr_start rng) \<ge> 0))"

definition less_key :: "seek_range \<Rightarrow> bytes \<Rightarrow> bytes \<Rightarrow> bool" where
  "less_key rng k1 k2 \<longleftrightarrow>
     (let res = bytes_compare k1 k2 in res \<noteq> 0 \<and> sr_backwards rng = (res > 0))"

text \<open>\<^verbatim>\<open>sort.Slice\<close> with a comparison of the keys of the elements.\<close>

fun insert_by :: "('a \<Rightarrow> 'a \<Rightarrow> bool) \<Rightarrow> 'a \<Rightarrow> 'a list \<Rightarrow> 'a list" where
  "insert_by lt x [] = [x]"
| "insert_by lt x (y # ys) = (if lt y x then y # insert_by lt x ys else x # y # ys)"

fun sort_by :: "('a \<Rightarrow> 'a \<Rightarrow> bool) \<Rightarrow> 'a list \<Rightarrow> 'a list" where
  "sort_by lt [] = []"
| "sort_by lt (x # xs) = insert_by lt x (sort_by lt xs)"

text \<open>
  A callback is a function on a state of its own: it gets a key and a value and answers
  whether the iteration goes on. \<open>for_each\<close> is the loop that calls it on the items of a list
  and breaks when the answer is no.
\<close>

type_synonym 's callback = "'s \<Rightarrow> bytes \<Rightarrow> bytes \<Rightarrow> bool \<times> 's"

fun for_each :: "'s callback \<Rightarrow> (bytes \<times> bytes) list \<Rightarrow> 's \<Rightarrow> 's" where
  "for_each f [] s = s"
| "for_each f ((k, v) # kvs) s = (case f s k v of (go_on, s') \<Rightarrow> if go_on then for_each f kvs s' else s')"

section \<open>The in-memory store\<close>

record memory_store =
  ms_mem :: kvmap
  ms_stor :: kvmap

definition NewMemoryStore :: memory_store where
  "NewMemoryStore = \<lparr>ms_mem = Some [], ms_stor = Some []\<rparr>"

text \<open>\<^verbatim>\<open>chooseMap\<close> indexes the key and panics on an empty one; \<open>is_stor\<close> is the choice it makes.\<close>

definition is_stor :: "bytes \<Rightarrow> bool option" where
  "is_stor key = (case key of [] \<Rightarrow> None | b # _ \<Rightarrow> Some (b = STStorage \<or> b = STTempStorage))"

definition chooseMap :: "memory_store \<Rightarrow> bytes \<Rightarrow> kvmap option" where
  "chooseMap s key = (case is_stor key of None \<Rightarrow> None
     | Some st \<Rightarrow> Some (if st then ms_stor s else ms_mem s))"

definition setMap :: "memory_store \<Rightarrow> bytes \<Rightarrow> kvmap \<Rightarrow> memory_store" where
  "setMap s key m = (if is_stor key = Some True then s\<lparr>ms_stor := m\<rparr> else s\<lparr>ms_mem := m\<rparr>)"

definition MemoryStore_Get :: "memory_store \<Rightarrow> bytes \<Rightarrow> store_err + bytes" where
  "MemoryStore_Get s key = (case chooseMap s key of
     None \<Rightarrow> Inl StorePanic
   | Some m \<Rightarrow> (case map_of (entries m) key of
       Some (Some val) \<Rightarrow> Inr val
     | _ \<Rightarrow> Inl ErrKeyNotFound))"

definition put :: "kvmap \<Rightarrow> bytes \<Rightarrow> bytes option \<Rightarrow> kvmap option" where
  "put m key v = (case m of None \<Rightarrow> None | Some xs \<Rightarrow> Some (Some (AList.update key v xs)))"

text \<open>\<^verbatim>\<open>for k := range puts { put(m, k, puts[k]) }\<close>\<close>

fun put_all :: "kvmap \<Rightarrow> (bytes \<times> bytes option) list \<Rightarrow> kvmap option" where
  "put_all m [] = Some m"
| "put_all m ((k, v) # kvs) = (case put m k v of None \<Rightarrow> None | Some m' \<Rightarrow> put_all m' kvs)"

definition putChangeSet :: "memory_store \<Rightarrow> kvmap \<Rightarrow> kvmap \<Rightarrow> store_err + memory_store" where
  "putChangeSet s puts stores = (case put_all (ms_mem s) (entries puts) of
     None \<Rightarrow> Inl StorePanic
   | Some m \<Rightarrow> (case put_all (ms_stor s) (entries stores) of
       None \<Rightarrow> Inl StorePanic
     | Some st \<Rightarrow> Inr \<lparr>ms_mem = m, ms_stor = st\<rparr>))"

definition MemoryStore_PutChangeSet :: "memory_store \<Rightarrow> kvmap \<Rightarrow> kvmap \<Rightarrow> store_err + memory_store" where
  "MemoryStore_PutChangeSet s puts stores = putChangeSet s puts stores"

text \<open>The list \<^verbatim>\<open>memList\<close> the internal \<^verbatim>\<open>seek\<close> collects and sorts, and the loop over it.\<close>

definition live :: "bytes \<times> bytes option \<Rightarrow> (bytes \<times> bytes) list" where
  "live kv = (case snd kv of None \<Rightarrow> [] | Some v \<Rightarrow> [(fst kv, v)])"

definition memList :: "memory_store \<Rightarrow> seek_range \<Rightarrow> store_err + (bytes \<times> bytes) list" where
  "memList s rng = (case chooseMap s (sr_prefix rng) of
     None \<Rightarrow> Inl StorePanic
   | Some m \<Rightarrow> Inr (sort_by (\<lambda>a b. less_key rng (fst a) (fst b))
       (filter (\<lambda>kv. isKeyOK rng (fst kv)) (concat (map live (entries m))))))"

definition MemoryStore_seek :: "memory_store \<Rightarrow> seek_range \<Rightarrow> 's callback \<Rightarrow> 's \<Rightarrow> store_err + 's" where
  "MemoryStore_seek s rng f st = (case memList s rng of
     Inl e \<Rightarrow> Inl e
   | Inr kvs \<Rightarrow> Inr (for_each f kvs st))"

definition MemoryStore_Seek :: "memory_store \<Rightarrow> seek_range \<Rightarrow> 's callback \<Rightarrow> 's \<Rightarrow> store_err + 's" where
  "MemoryStore_Seek s rng f st = MemoryStore_seek s rng f st"

definition gc_step :: "'s callback \<Rightarrow> ('s \<times> memory_store) callback" where
  "gc_step keep = (\<lambda>(st, s) k v. case keep st k v of (kept, st') \<Rightarrow>
     (True, (st', if kept then s else
        setMap s k (map_option (AList.delete k) (the (chooseMap s k))))))"

definition SeekGC :: "memory_store \<Rightarrow> seek_range \<Rightarrow> 's callback \<Rightarrow> 's \<Rightarrow> store_err + 's \<times> memory_store" where
  "SeekGC s rng keep st = MemoryStore_seek s rng (gc_step keep) (st, s)"

definition MemoryStore_Close :: "memory_store \<Rightarrow> memory_store" where
  "MemoryStore_Close s = s\<lparr>ms_mem := None, ms_stor := None\<rparr>"

section \<open>Layered stores\<close>

text \<open>
  The methods of a database as the \<^verbatim>\<open>Store\<close> interface declares them; \<open>be_seek\<close> lists the items
  \<^verbatim>\<open>Seek\<close> offers to its callback, in their order.
\<close>

record 'db backend =
  be_get :: "'db \<Rightarrow> bytes \<Rightarrow> store_err + bytes"
  be_put :: "'db \<Rightarrow> kvmap \<Rightarrow> kvmap \<Rightarrow> (store_err option \<times> 'db) option"
  be_seek :: "'db \<Rightarrow> seek_range \<Rightarrow> store_err + (bytes \<times> bytes) list"
  be_close :: "'db \<Rightarrow> store_err option \<times> 'db"

datatype 'db store =
    DB 'db
  | Memory memory_store
  | MemCached memory_store bool "'db store"

definition NewMemCachedStore :: "'db store \<Rightarrow> 'db store" where
  "NewMemCachedStore lower = MemCached NewMemoryStore False lower"

definition NewPrivateMemCachedStore :: "'db store \<Rightarrow> 'db store" where
  "NewPrivateMemCachedStore lower = MemCached NewMemoryStore True lower"

subsection \<open>Reading and writing\<close>

definition MemCachedStore_Get ::
  "memory_store \<Rightarrow> (bytes \<Rightarrow> store_err + bytes) \<Rightarrow> bytes \<Rightarrow> store_err + bytes" where
  "MemCachedStore_Get s ps_get key = (case chooseMap s key of
     None \<Rightarrow> Inl StorePanic
   | Some m \<Rightarrow> (case map_of (entries m) key of
       Some None \<Rightarrow> Inl ErrKeyNotFound
     | Some (Some val) \<Rightarrow> Inr val
     | None \<Rightarrow> ps_get key))"

fun Store_Get :: "'db backend \<Rightarrow> 'db store \<Rightarrow> bytes \<Rightarrow> store_err + bytes" where
  "Store_Get B (DB d) key = be_get B d key"
| "Store_Get B (Memory s) key = MemoryStore_Get s key"
| "Store_Get B (MemCached s private lower) key = MemCachedStore_Get s (Store_Get B lower) key"

text \<open>\<^verbatim>\<open>bytes.Clone\<close> keeps nil, so putting nil is deleting.\<close>

definition put_key :: "memory_store \<Rightarrow> bytes \<Rightarrow> bytes option \<Rightarrow> store_err + memory_store" where
  "put_key s key v = (case chooseMap s key of
     None \<Rightarrow> Inl StorePanic
   | Some m \<Rightarrow> (case put m key v of
       None \<Rightarrow> Inl StorePanic
     | Some m' \<Rightarrow> Inr (setMap s key m')))"

fun MemCachedStore_Put :: "'db store \<Rightarrow> bytes \<Rightarrow> bytes option \<Rightarrow> store_err + 'db store" where
  "MemCachedStore_Put (MemCached s private lower) key v =
     (case put_key s key v of Inl e \<Rightarrow> Inl e | Inr s' \<Rightarrow> Inr (MemCached s' private lower))"
| "MemCachedStore_Put _ key v = Inl StorePanic"

fun MemCachedStore_Delete :: "'db store \<Rightarrow> bytes \<Rightarrow> store_err + 'db store" where
  "MemCachedStore_Delete (MemCached s private lower) key =
     (case put_key s key None of Inl e \<Rightarrow> Inl e | Inr s' \<Rightarrow> Inr (MemCached s' private lower))"
| "MemCachedStore_Delete _ key = Inl StorePanic"

fun MemCachedStore_PutChangeSet :: "'db store \<Rightarrow> kvmap \<Rightarrow> kvmap \<Rightarrow> store_err + 'db store" where
  "MemCachedStore_PutChangeSet (MemCached s private lower) puts stores =
     (case putChangeSet s puts stores of Inl e \<Rightarrow> Inl e | Inr s' \<Rightarrow> Inr (MemCached s' private lower))"
| "MemCachedStore_PutChangeSet _ puts stores = Inl StorePanic"

text \<open>
  The interface method: \<open>None\<close> is a panic; otherwise the error, if any, and the store it leaves.
\<close>

fun Store_PutChangeSet ::
  "'db backend \<Rightarrow> 'db store \<Rightarrow> kvmap \<Rightarrow> kvmap \<Rightarrow> (store_err option \<times> 'db store) option" where
  "Store_PutChangeSet B (DB d) puts stores = map_option (map_prod id DB) (be_put B d puts stores)"
| "Store_PutChangeSet B (Memory s) puts stores = (case MemoryStore_PutChangeSet s puts stores of
     Inl _ \<Rightarrow> None | Inr s' \<Rightarrow> Some (None, Memory s'))"
| "Store_PutChangeSet B (MemCached s private lower) puts stores =
    (case MemCachedStore_PutChangeSet (MemCached s private lower) puts stores of
       Inl _ \<Rightarrow> None | Inr st \<Rightarrow> Some (None, st))"

record key_value_exists =
  kve_key :: bytes
  kve_value :: "bytes option"
  kve_exists :: bool

record mem_batch =
  mb_put :: "key_value_exists list"
  mb_deleted :: "key_value_exists list"

fun batch_step :: "(bytes \<Rightarrow> store_err + bytes) \<Rightarrow> bytes \<times> bytes option \<Rightarrow> mem_batch \<Rightarrow> mem_batch" where
  "batch_step ps_get (k, v) b =
    (let e = \<lparr>kve_key = k, kve_value = v, kve_exists = (case ps_get k of Inl _ \<Rightarrow> False | Inr _ \<Rightarrow> True)\<rparr> in
     if v = None then b\<lparr>mb_deleted := mb_deleted b @ [e]\<rparr> else b\<lparr>mb_put := mb_put b @ [e]\<rparr>)"

fun GetBatch :: "'db backend \<Rightarrow> 'db store \<Rightarrow> mem_batch option" where
  "GetBatch B (MemCached s private lower) =
     Some (fold (batch_step (Store_Get B lower)) (entries (ms_mem s) @ entries (ms_stor s))
       \<lparr>mb_put = [], mb_deleted = []\<rparr>)"
| "GetBatch B _ = None"

fun GetStorageChanges :: "'db store \<Rightarrow> store_err + kvmap" where
  "GetStorageChanges (MemCached s private lower) = (if private then Inr (ms_stor s) else Inl StorePanic)"
| "GetStorageChanges _ = Inl StorePanic"

datatype db_operation = Operation string bytes "bytes option"

definition is_storage_key :: "bytes \<Rightarrow> bool" where
  "is_storage_key key = (case key of [] \<Rightarrow> False | b # _ \<Rightarrow> b = STStorage \<or> b = STTempStorage)"

definition BatchToOperations :: "mem_batch \<Rightarrow> db_operation list" where
  "BatchToOperations b =
     concat (map (\<lambda>e. if \<not> is_storage_key (kve_key e) then []
        else [Operation (if kve_exists e then ''Changed'' else ''Added'') (tl (kve_key e)) (kve_value e)]) (mb_put b))
   @ concat (map (\<lambda>e. if \<not> kve_exists e \<or> \<not> is_storage_key (kve_key e) then []
        else [Operation ''Deleted'' (tl (kve_key e)) None]) (mb_deleted b))"

subsection \<open>Seeking\<close>

definition prepareSeekMemSnapshot :: "memory_store \<Rightarrow> seek_range \<Rightarrow> store_err + (bytes \<times> bytes option) list" where
  "prepareSeekMemSnapshot s rng = (case chooseMap s (sr_prefix rng) of
     None \<Rightarrow> Inl StorePanic
   | Some m \<Rightarrow> Inr (filter (\<lambda>kv. isKeyOK rng (fst kv)) (entries m)))"

text \<open>
  The variables \<^verbatim>\<open>performSeek\<close> shares with its closure \<^verbatim>\<open>mergeFunc\<close>; \<open>sk_user\<close> is the state of the
  caller's callback. \<^verbatim>\<open>ctx.Done()\<close> is a poll on that state (\<open>no_cancel\<close> is the background context).
\<close>

record 's seek_state =
  sk_done :: bool
  sk_iMem :: nat
  sk_kvMem :: "bytes \<times> bytes option"
  sk_haveMem :: bool
  sk_user :: 's

definition no_cancel :: "'s \<Rightarrow> bool \<times> 's" where
  "no_cancel s = (False, s)"

definition cut_key :: "bool \<Rightarrow> nat \<Rightarrow> bytes \<Rightarrow> bytes" where
  "cut_key cutPrefix lPrefix k = (if cutPrefix then drop lPrefix k else k)"

text \<open>Emitting the cached item: its key is cut in place, then given to the callback.\<close>

definition emit_mem :: "bool \<Rightarrow> nat \<Rightarrow> 's callback \<Rightarrow> 's seek_state \<Rightarrow> bool \<times> 's seek_state" where
  "emit_mem cutPrefix lPrefix f st = (case sk_kvMem st of
     (k, None) \<Rightarrow> (True, st)
   | (k, Some v) \<Rightarrow>
       (let k' = cut_key cutPrefix lPrefix k in
        case f (sk_user st) k' v of (go_on, u) \<Rightarrow>
          (go_on, st\<lparr>sk_kvMem := (k', Some v), sk_user := u\<rparr>)))"

function mergeFunc :: "('s \<Rightarrow> bool \<times> 's) \<Rightarrow> seek_range \<Rightarrow> bool \<Rightarrow> (bytes \<times> bytes option) list \<Rightarrow>
    's callback \<Rightarrow> bytes \<Rightarrow> bytes \<Rightarrow> 's seek_state \<Rightarrow> bool \<times> 's seek_state" where
  "mergeFunc ctx rng cutPrefix memRes f k v st =
    (case ctx (sk_user st) of (cancelled, u) \<Rightarrow>
     let st = st\<lparr>sk_user := u\<rparr> in
     if cancelled then (False, st\<lparr>sk_done := True\<rparr>)
     else if sk_haveMem st \<and> less_key rng (fst (sk_kvMem st)) k then
       (case emit_mem cutPrefix (length (sr_prefix rng)) f st of (go_on, st') \<Rightarrow>
        if \<not> go_on then (False, st'\<lparr>sk_done := True\<rparr>)
        else if sk_iMem st < length memRes then
          mergeFunc ctx rng cutPrefix memRes f k v
            (st\<lparr>sk_kvMem := memRes ! sk_iMem st, sk_haveMem := True, sk_iMem := sk_iMem st + 1, sk_user := sk_user st'\<rparr>)
        else mergeFunc ctx rng cutPrefix memRes f k v
            (st\<lparr>sk_kvMem := sk_kvMem st', sk_haveMem := False, sk_user := sk_user st'\<rparr>))
     else if fst (sk_kvMem st) \<noteq> k then
       (case f (sk_user st) (cut_key cutPrefix (length (sr_prefix rng)) k) v of (go_on, u) \<Rightarrow>
          (go_on, st\<lparr>sk_user := u, sk_done := \<not> go_on\<rparr>))
     else (True, st))"
  by pat_completeness auto

termination mergeFunc
  by (relation "measure (\<lambda>(_, _, _, memRes, _, _, _, st). length memRes - sk_iMem st + (if sk_haveMem st then 1 else 0))") auto

declare mergeFunc.simps [simp del]

text \<open>The lower store calls \<^verbatim>\<open>mergeFunc\<close> on its items until it answers no.\<close>

definition merge_callback :: "('s \<Rightarrow> bool \<times> 's) \<Rightarrow> seek_range \<Rightarrow> bool \<Rightarrow> (bytes \<times> bytes option) list \<Rightarrow>
    's callback \<Rightarrow> ('s seek_state) callback" where
  "merge_callback ctx rng cutPrefix memRes f =
     (\<lambda>st k v. if sk_done st then (False, st) else mergeFunc ctx rng cutPrefix memRes f k v st)"

text \<open>The loop over the cached items that are left, from \<^verbatim>\<open>memRes[iMem-1]\<close> on.\<close>

fun seek_tail :: "('s \<Rightarrow> bool \<times> 's) \<Rightarrow> bool \<Rightarrow> nat \<Rightarrow> 's callback \<Rightarrow> (bytes \<times> bytes option) list \<Rightarrow> 's \<Rightarrow> 's" where
  "seek_tail ctx cutPrefix lPrefix f [] u = u"
| "seek_tail ctx cutPrefix lPrefix f ((k, v) # kvs) u = (case ctx u of (cancelled, u) \<Rightarrow>
     if cancelled then u
     else (case v of
       None \<Rightarrow> seek_tail ctx cutPrefix lPrefix f kvs u
     | Some val \<Rightarrow> (case f u (cut_key cutPrefix lPrefix k) val of (go_on, u) \<Rightarrow>
         if go_on then seek_tail ctx cutPrefix lPrefix f kvs u else u)))"

definition lower_range :: "seek_range \<Rightarrow> seek_range" where
  "lower_range rng = (if sr_depth rng > 1 then rng\<lparr>sr_depth := sr_depth rng - 1\<rparr> else rng)"

definition goes_lower :: "seek_range \<Rightarrow> bool" where
  "goes_lower rng \<longleftrightarrow> sr_depth rng = 0 \<or> sr_depth rng > 1"

text \<open>
  \<^verbatim>\<open>performSeek\<close>; \<open>ps_seek\<close> gives the items which \<^verbatim>\<open>ps.Seek\<close> offers for a range.
\<close>

definition performSeek :: "('s \<Rightarrow> bool \<times> 's) \<Rightarrow> (seek_range \<Rightarrow> store_err + (bytes \<times> bytes) list) \<Rightarrow>
    (bytes \<times> bytes option) list \<Rightarrow> seek_range \<Rightarrow> bool \<Rightarrow> 's callback \<Rightarrow> 's \<Rightarrow> store_err + 's" where
  "performSeek ctx ps_seek memRes0 rng cutPrefix f u =
    (let memRes = sort_by (\<lambda>a b. less_key rng (fst a) (fst b)) memRes0;
         st = (if 0 < length memRes
               then \<lparr>sk_done = False, sk_iMem = 1, sk_kvMem = memRes ! 0, sk_haveMem = True, sk_user = u\<rparr>
               else \<lparr>sk_done = False, sk_iMem = 0, sk_kvMem = ([], None), sk_haveMem = False, sk_user = u\<rparr>);
         finish = (\<lambda>st. if \<not> sk_done st \<and> sk_haveMem st
               then seek_tail ctx cutPrefix (length (sr_prefix rng)) f (drop (sk_iMem st - 1) memRes) (sk_user st)
               else sk_user st)
     in if goes_lower rng then
          (case ps_seek (lower_range rng) of
             Inl e \<Rightarrow> Inl e
           | Inr kvs \<Rightarrow> Inr (finish (for_each (merge_callback ctx rng cutPrefix memRes f) kvs st)))
        else Inr (finish st))"

definition collect :: "(bytes \<times> bytes) list callback" where
  "collect = (\<lambda>acc k v. (True, acc @ [(k, v)]))"

definition MemCachedStore_Seek :: "memory_store \<Rightarrow> (seek_range \<Rightarrow> store_err + (bytes \<times> bytes) list) \<Rightarrow>
    seek_range \<Rightarrow> 's callback \<Rightarrow> 's \<Rightarrow> store_err + 's" where
  "MemCachedStore_Seek s ps_seek rng f u = (case prepareSeekMemSnapshot s rng of
     Inl e \<Rightarrow> Inl e
   | Inr memRes \<Rightarrow> performSeek no_cancel ps_seek memRes rng False f u)"

text \<open>
  The items a store offers to a callback that never stops, and \<^verbatim>\<open>Seek\<close> with any callback.
\<close>

fun Seek_items :: "'db backend \<Rightarrow> 'db store \<Rightarrow> seek_range \<Rightarrow> store_err + (bytes \<times> bytes) list" where
  "Seek_items B (DB d) rng = be_seek B d rng"
| "Seek_items B (Memory s) rng = MemoryStore_Seek s rng collect []"
| "Seek_items B (MemCached s private lower) rng = MemCachedStore_Seek s (Seek_items B lower) rng collect []"

fun Store_Seek :: "'db backend \<Rightarrow> 'db store \<Rightarrow> seek_range \<Rightarrow> 's callback \<Rightarrow> 's \<Rightarrow> store_err + 's" where
  "Store_Seek B (DB d) rng f u = (case be_seek B d rng of Inl e \<Rightarrow> Inl e | Inr kvs \<Rightarrow> Inr (for_each f kvs u))"
| "Store_Seek B (Memory s) rng f u = MemoryStore_Seek s rng f u"
| "Store_Seek B (MemCached s private lower) rng f u = MemCachedStore_Seek s (Seek_items B lower) rng f u"

text \<open>
  \<^verbatim>\<open>SeekAsync\<close>: the goroutine runs \<^verbatim>\<open>performSeek\<close> with a callback that sends to the channel
  unless the context is done. The state holds what the reader has received and a schedule of
  the context's state at the successive polls (exhausted: never cancelled).
\<close>

fun poll :: "bool list \<times> (bytes \<times> bytes) list \<Rightarrow> bool \<times> bool list \<times> (bytes \<times> bytes) list" where
  "poll ([], got) = (False, [], got)"
| "poll (c # sched, got) = (c, (if c then c # sched else sched), got)"

definition send :: "(bool list \<times> (bytes \<times> bytes) list) callback" where
  "send = (\<lambda>st k v. case poll st of (cancelled, sched, got) \<Rightarrow>
     if cancelled then (False, sched, got) else (True, sched, got @ [(k, v)]))"

fun SeekAsync :: "'db backend \<Rightarrow> bool list \<Rightarrow> 'db store \<Rightarrow> seek_range \<Rightarrow> bool \<Rightarrow> store_err + (bytes \<times> bytes) list" where
  "SeekAsync B sched (MemCached s private lower) rng cutPrefix = (case prepareSeekMemSnapshot s rng of
     Inl e \<Rightarrow> Inl e
   | Inr memRes \<Rightarrow> map_sum id snd (performSeek poll (Seek_items B lower) memRes rng cutPrefix send (sched, [])))"
| "SeekAsync B sched _ rng cutPrefix = Inl StorePanic"

subsection \<open>Persisting\<close>

definition key_count :: "memory_store \<Rightarrow> nat" where
  "key_count s = length (entries (ms_mem s)) + length (entries (ms_stor s))"

text \<open>
  \<^verbatim>\<open>persist\<close> on a shared store runs in three critical sections: it pushes the current maps into a
  temporary layer, lets that layer's lower store take them, and swaps the layer out; between
  them, unless \<^verbatim>\<open>isSync\<close>, clients go on using the store.
\<close>

fun persist_begin :: "'db store \<Rightarrow> 'db store" where
  "persist_begin (MemCached s private lower) =
     MemCached \<lparr>ms_mem = Some [], ms_stor = Some []\<rparr> private (MemCached s False lower)"
| "persist_begin st = st"

fun persist_write :: "'db backend \<Rightarrow> 'db store \<Rightarrow> (store_err option \<times> 'db store) option" where
  "persist_write B (MemCached s private (MemCached t tpriv lower)) =
     (case Store_PutChangeSet B lower (ms_mem t) (ms_stor t) of
        None \<Rightarrow> None
      | Some (e, lower') \<Rightarrow> Some (e, MemCached s private (MemCached t tpriv lower')))"
| "persist_write B st = None"

fun persist_end :: "store_err option \<Rightarrow> 'db store \<Rightarrow> 'db store option" where
  "persist_end None (MemCached s private (MemCached t tpriv lower)) = Some (MemCached s private lower)"
| "persist_end (Some e) (MemCached s private (MemCached t tpriv lower)) =
     (case putChangeSet t (ms_mem s) (ms_stor s) of
        Inl p \<Rightarrow> None
      | Inr t' \<Rightarrow> Some (MemCached t' private lower))"
| "persist_end _ st = None"

text \<open>The whole method, when no other client runs in between: the count, the error, the store.\<close>

fun persist :: "'db backend \<Rightarrow> 'db store \<Rightarrow> ((nat \<times> store_err option) \<times> 'db store) option" where
  "persist B (MemCached s private lower) =
    (let keys = key_count s in
     if keys = 0 then Some ((0, None), MemCached s private lower)
     else if private then
       (case Store_PutChangeSet B lower (ms_mem s) (ms_stor s) of
          None \<Rightarrow> None
        | Some (Some e, lower') \<Rightarrow> Some ((0, Some e), MemCached s private lower')
        | Some (None, lower') \<Rightarrow> Some ((keys, None), MemCached \<lparr>ms_mem = None, ms_stor = None\<rparr> private lower'))
     else (case persist_write B (persist_begin (MemCached s private lower)) of
        None \<Rightarrow> None
      | Some (e, st) \<Rightarrow> map_option (\<lambda>st'. ((keys, e), st')) (persist_end e st)))"
| "persist B st = None"

definition Persist :: "'db backend \<Rightarrow> 'db store \<Rightarrow> ((nat \<times> store_err option) \<times> 'db store) option" where
  "Persist B st = persist B st"

fun Store_Close :: "'db backend \<Rightarrow> 'db store \<Rightarrow> store_err option \<times> 'db store" where
  "Store_Close B (DB d) = (case be_close B d of (e, d') \<Rightarrow> (e, DB d'))"
| "Store_Close B (Memory s) = (None, Memory (MemoryStore_Close s))"
| "Store_Close B (MemCached s private lower) =
    (case Store_Close B lower of (e, lower') \<Rightarrow> (e, MemCached (MemoryStore_Close s) private lower'))"

end
