(* ===== verification/Storage_Spec.thy ===== *)
theory Storage_Spec
  imports Storage
begin

text \<open>
  What the layered storage promises: a store stands for a map from keys to values
  (\<open>content\<close>), every operation acts on that map, seeking lists exactly the matching entries
  in order whatever the number of layers, and persisting, interleaved with clients and
  with failing databases, never changes what clients see.
\<close>

named_theorems store_simps

section \<open>Sorting by keys\<close>

lemma set_insert_by [simp]: "set (insert_by lt x ys) = insert x (set ys)"
  by (induction ys) auto

lemma set_sort_by [simp]: "set (sort_by lt xs) = set xs"
  by (induction xs) auto

lemma sort_by_eq_Nil [simp]: "sort_by lt xs = [] \<longleftrightarrow> xs = []"
  by (metis set_empty set_sort_by)

lemma insert_by_sorted:
  assumes "sorted_wrt lt ys" and "transp lt" and "\<And>y. y \<in> set ys \<Longrightarrow> lt x y \<or> lt y x"
  shows "sorted_wrt lt (insert_by lt x ys)"
  using assms(1,3)
proof (induction ys)
  case (Cons y ys)
  show ?case
  proof (cases "lt y x")
    case True
    with Cons show ?thesis by auto
  next
    case False
    with Cons.prems have "lt x y" by auto
    with Cons.prems(1) have "\<forall>z\<in>set ys. lt x z"
      using transpD [OF assms(2)] by fastforce
    with False \<open>lt x y\<close> Cons.prems(1) show ?thesis by auto
  qed
qed simp

lemma sort_by_sorted:
  assumes "transp lt" and "distinct xs" and "\<And>x y. x \<in> set xs \<Longrightarrow> y \<in> set xs \<Longrightarrow> x \<noteq> y \<Longrightarrow> lt x y \<or> lt y x"
  shows "sorted_wrt lt (sort_by lt xs)"
  using assms(2,3)
proof (induction xs)
  case (Cons x xs)
  then have "sorted_wrt lt (sort_by lt xs)" by auto
  moreover have "lt x y \<or> lt y x" if "y \<in> set (sort_by lt xs)" for y
    using that Cons.prems by (auto intro: Cons.prems(2))
  ultimately have "sorted_wrt lt (insert_by lt x (sort_by lt xs))"
    using assms(1) by (intro insert_by_sorted)
  then show ?case by simp
qed simp

lemma less_key_iff:
  "less_key rng a b \<longleftrightarrow> (if sr_backwards rng then b < a else a < b)"
  by (auto simp: less_key_def bytes_compare_def)

lemma less_key_order [simp]:
  "\<not> less_key rng a a"
  "transp (\<lambda>x y. less_key rng (g x) (g y))"
  by (auto simp: less_key_iff transp_def)

lemma less_key_trans: "less_key rng a b \<Longrightarrow> less_key rng b c \<Longrightarrow> less_key rng a c"
  by (auto simp: less_key_iff split: if_splits)

lemma less_key_linear: "a = b \<or> less_key rng a b \<or> less_key rng b a"
  by (auto simp: less_key_iff)

lemma less_key_asym: "less_key rng a b \<Longrightarrow> \<not> less_key rng b a"
  by (auto simp: less_key_iff split: if_splits)

lemma less_key_lower [simp]: "less_key (lower_range rng) = less_key rng"
  by (simp add: fun_eq_iff less_key_iff lower_range_def)

lemma isKeyOK_lower [simp]: "isKeyOK (lower_range rng) = isKeyOK rng"
  by (simp add: fun_eq_iff isKeyOK_def lower_range_def)

text \<open>Lists of items in the order of a range, with one item per key.\<close>

definition in_order :: "seek_range \<Rightarrow> (bytes \<times> 'v) list \<Rightarrow> bool" where
  "in_order rng = sorted_wrt (\<lambda>a b. less_key rng (fst a) (fst b))"

lemma in_order_simps [simp]:
  "in_order rng []"
  "in_order rng (x # xs) \<longleftrightarrow> (\<forall>y\<in>set xs. less_key rng (fst x) (fst y)) \<and> in_order rng xs"
  by (simp_all add: in_order_def)

lemma in_order_sort:
  assumes "distinct (map fst xs)"
  shows "in_order rng (sort_by (\<lambda>a b. less_key rng (fst a) (fst b)) xs)"
  unfolding in_order_def
proof (rule sort_by_sorted)
  show "distinct xs" using assms by (simp add: distinct_map)
  show "less_key rng (fst x) (fst y) \<or> less_key rng (fst y) (fst x)"
    if "x \<in> set xs" "y \<in> set xs" "x \<noteq> y" for x y
    using that assms less_key_linear [of "fst x" "fst y" rng]
    by (auto simp: distinct_map inj_on_def)
qed simp

lemma in_order_distinct: "in_order rng xs \<Longrightarrow> distinct (map fst xs)"
proof (induction xs)
  case (Cons x xs)
  then have "fst x \<notin> fst ` set xs" using less_key_order(1) [of rng "fst x"] by (auto simp del: less_key_order)
  with Cons show ?case by simp
qed simp

lemma in_order_unique:
  assumes "in_order rng xs" and "in_order rng ys" and "set xs = set ys"
  shows "xs = ys"
  using assms
proof (induction xs arbitrary: ys)
  case (Cons x xs)
  from Cons.prems(3) obtain y ys' where ys: "ys = y # ys'" by (cases ys) auto
  have "x = y"
  proof (rule ccontr)
    assume "x \<noteq> y"
    with Cons.prems ys have "x \<in> set ys'" "y \<in> set xs" by auto
    with Cons.prems ys have "less_key rng (fst y) (fst x)" "less_key rng (fst x) (fst y)" by auto
    then show False using less_key_asym by blast
  qed
  moreover have "x \<notin> set xs" "y \<notin> set ys'"
    using Cons.prems ys by auto
  ultimately have "set xs = set ys'" using Cons.prems(3) ys by auto
  with Cons ys \<open>x = y\<close> show ?case by auto
qed simp

section \<open>Iteration\<close>

lemma for_each_collect [simp]: "for_each collect kvs acc = acc @ kvs"
  by (induction kvs arbitrary: acc) (auto simp: collect_def)

section \<open>What a store stands for\<close>

definition changes :: "memory_store \<Rightarrow> bytes \<Rightarrow> bytes option option" where
  "changes s = map_of (entries (ms_mem s) @ entries (ms_stor s))"

definition overlay :: "(bytes \<Rightarrow> bytes option option) \<Rightarrow> (bytes \<rightharpoonup> bytes) \<Rightarrow> (bytes \<rightharpoonup> bytes)" where
  "overlay c m k = (case c k of None \<Rightarrow> m k | Some v \<Rightarrow> v)"

fun content :: "('db \<Rightarrow> (bytes \<rightharpoonup> bytes)) \<Rightarrow> 'db store \<Rightarrow> (bytes \<rightharpoonup> bytes)" where
  "content dbc (DB d) = dbc d"
| "content dbc (Memory s) = overlay (changes s) Map.empty"
| "content dbc (MemCached s priv lower) = overlay (changes s) (content dbc lower)"

text \<open>The entries which a seek of a given depth is to see.\<close>

fun content_at :: "('db \<Rightarrow> (bytes \<rightharpoonup> bytes)) \<Rightarrow> int \<Rightarrow> 'db store \<Rightarrow> (bytes \<rightharpoonup> bytes)" where
  "content_at dbc n (DB d) = dbc d"
| "content_at dbc n (Memory s) = overlay (changes s) Map.empty"
| "content_at dbc n (MemCached s priv lower) =
     overlay (changes s) (if n = 0 \<or> n > 1 then content_at dbc (if n > 1 then n - 1 else n) lower else Map.empty)"

lemma content_at_0 [simp]: "content_at dbc 0 st = content dbc st"
  by (induction st) auto

text \<open>What the database at the bottom holds, when a seek of the given depth gets there.\<close>

fun base_at :: "('db \<Rightarrow> (bytes \<rightharpoonup> bytes)) \<Rightarrow> int \<Rightarrow> 'db store \<Rightarrow> (bytes \<rightharpoonup> bytes)" where
  "base_at dbc n (DB d) = dbc d"
| "base_at dbc n (Memory s) = Map.empty"
| "base_at dbc n (MemCached s priv lower) =
     (if n = 0 \<or> n > 1 then base_at dbc (if n > 1 then n - 1 else n) lower else Map.empty)"

text \<open>Both maps are allocated and hold only the keys \<^verbatim>\<open>chooseMap\<close> looks up in them.\<close>

definition wf_changes :: "kvmap \<Rightarrow> kvmap \<Rightarrow> bool" where
  "wf_changes mem stor \<longleftrightarrow> wf_gomap (entries mem) \<and> wf_gomap (entries stor)
     \<and> (\<forall>kv\<in>set (entries mem). is_stor (fst kv) = Some False)
     \<and> (\<forall>kv\<in>set (entries stor). is_stor (fst kv) = Some True)"

definition wf_ms :: "memory_store \<Rightarrow> bool" where
  "wf_ms s \<longleftrightarrow> ms_mem s \<noteq> None \<and> ms_stor s \<noteq> None \<and> wf_changes (ms_mem s) (ms_stor s)"

fun wf_store :: "('db \<Rightarrow> bool) \<Rightarrow> 'db store \<Rightarrow> bool" where
  "wf_store dbi (DB d) = dbi d"
| "wf_store dbi (Memory s) = wf_ms s"
| "wf_store dbi (MemCached s priv lower) = (wf_ms s \<and> wf_store dbi lower)"

lemma is_stor_cases: "k \<noteq> [] \<Longrightarrow> is_stor k = Some True \<or> is_stor k = Some False"
  by (cases k) (auto simp: is_stor_def)

lemma wf_ms_New [simp]: "wf_ms NewMemoryStore" "wf_ms \<lparr>ms_mem = Some [], ms_stor = Some []\<rparr>"
  by (auto simp: wf_ms_def wf_changes_def NewMemoryStore_def entries_def)

lemma changes_New [simp]:
  "changes NewMemoryStore = Map.empty" "changes \<lparr>ms_mem = Some [], ms_stor = Some []\<rparr> = Map.empty"
  by (auto simp: changes_def NewMemoryStore_def entries_def)

lemma overlay_empty [simp]: "overlay Map.empty m = m"
  by (simp add: fun_eq_iff overlay_def)

lemma overlay_overlay: "overlay c (overlay d m) = overlay (d ++ c) m"
  by (auto simp: fun_eq_iff overlay_def map_add_def split: option.splits)

lemma overlay_absorb: "overlay c (overlay c m) = overlay c m"
  by (auto simp: fun_eq_iff overlay_def split: option.splits)

lemma wf_changes_map_of:
  assumes "wf_changes mem stor" and "k \<noteq> []"
  shows "map_of (entries mem @ entries stor) k =
    (if is_stor k = Some True then map_of (entries stor) k else map_of (entries mem) k)"
proof -
  have "map_of (entries mem) k = None" if "is_stor k = Some True"
    using that assms(1) by (auto simp: wf_changes_def map_of_eq_None_iff)
  moreover have "map_of (entries stor) k = None" if "is_stor k = Some False"
    using that assms(1) by (auto simp: wf_changes_def map_of_eq_None_iff)
  ultimately show ?thesis
    using is_stor_cases [OF assms(2)] by (auto simp: map_add_def split: option.splits)
qed

lemma chooseMap_lookup:
  assumes "wf_ms s" and "k \<noteq> []"
  obtains m where "chooseMap s k = Some m" and "map_of (entries m) k = changes s k"
proof -
  have "changes s k = (if is_stor k = Some True then map_of (entries (ms_stor s)) k else map_of (entries (ms_mem s)) k)"
    using wf_changes_map_of [of "ms_mem s" "ms_stor s" k] assms by (simp add: wf_ms_def changes_def)
  then show ?thesis
    using is_stor_cases [OF assms(2)] that by (auto simp: chooseMap_def)
qed

lemma chooseMap_entries:
  assumes "wf_ms s" and "p \<noteq> []" and "has_prefix k p"
    and "chooseMap s p = Some m"
  shows "(k, v) \<in> set (entries m) \<longleftrightarrow> changes s k = Some v"
proof -
  obtain b p' k' where p: "p = b # p'" and k: "k = b # k'"
    using assms(2,3) by (cases p; cases k) (auto simp: has_prefix_def)
  then have "chooseMap s k = Some m" "k \<noteq> []"
    using assms(4) by (auto simp: chooseMap_def is_stor_def)
  then have "map_of (entries m) k = changes s k"
    using chooseMap_lookup [OF assms(1)] by fastforce
  moreover have "wf_gomap (entries m)"
    using assms(1,4) by (auto simp: chooseMap_def wf_ms_def wf_changes_def split: option.splits if_splits)
  ultimately show ?thesis by (simp add: wf_gomap_mem)
qed

lemma chooseMap_wf:
  assumes "wf_ms s" and "p \<noteq> []"
  obtains m where "chooseMap s p = Some m" and "wf_gomap (entries m)"
  using assms(1) is_stor_cases [OF assms(2)] by (auto simp: chooseMap_def wf_ms_def wf_changes_def)

subsection \<open>Writing\<close>

lemma put_all_Some: "put_all (Some xs) kvs = Some (Some (fold (\<lambda>(k, v). AList.update k v) kvs xs))"
  by (induction kvs arbitrary: xs) (auto simp: put_def)

lemma map_of_fold_update:
  "map_of (fold (\<lambda>(k, v). AList.update k v) kvs xs) = map_of xs ++ map_of (rev kvs)"
  by (induction kvs arbitrary: xs) (auto simp: map_add_assoc [symmetric])

lemma map_of_rev_wf: "wf_gomap xs \<Longrightarrow> map_of (rev xs) = map_of xs"
  by (rule map_of_eqI) (auto simp: wf_gomap_def rev_map [symmetric] intro!: map_of_inject_set)

lemma wf_fold_update: "wf_gomap xs \<Longrightarrow> wf_gomap (fold (\<lambda>(k, v). AList.update k v) kvs xs)"
  by (induction kvs arbitrary: xs) auto

lemma keys_fold_update:
  "fst ` set (fold (\<lambda>(k, v). AList.update k v) kvs xs) = fst ` set xs \<union> fst ` set kvs"
proof (induction kvs arbitrary: xs)
  case (Cons kv kvs)
  then show ?case by (cases kv) (simp add: dom_update)
qed simp

lemma putChangeSet_correct:
  assumes "wf_ms s" and "wf_changes puts stores"
  obtains s' where "putChangeSet s puts stores = Inr s'" and "wf_ms s'"
    and "changes s' = changes s ++ map_of (entries puts @ entries stores)"
proof -
  obtain m st where s: "s = \<lparr>ms_mem = Some m, ms_stor = Some st\<rparr>"
    using assms(1) by (cases s) (auto simp: wf_ms_def)
  let ?up = "\<lambda>kvs xs. fold (\<lambda>(k, v). AList.update k v) kvs xs"
  let ?s' = "\<lparr>ms_mem = Some (?up (entries puts) m), ms_stor = Some (?up (entries stores) st)\<rparr>"
  have put: "putChangeSet s puts stores = Inr ?s'"
    by (simp add: putChangeSet_def s put_all_Some)
  have ok: "wf_gomap m" "wf_gomap st" "wf_gomap (entries puts)" "wf_gomap (entries stores)"
      "\<forall>k\<in>fst ` set m. is_stor k = Some False" "\<forall>k\<in>fst ` set st. is_stor k = Some True"
      "\<forall>k\<in>fst ` set (entries puts). is_stor k = Some False"
      "\<forall>k\<in>fst ` set (entries stores). is_stor k = Some True"
    using assms by (auto simp: s wf_ms_def wf_changes_def entries_def)
  have kinds: "\<forall>k\<in>fst ` set (?up (entries puts) m). is_stor k = Some False"
      "\<forall>k\<in>fst ` set (?up (entries stores) st). is_stor k = Some True"
    using ok by (auto simp: keys_fold_update)
  then have wf: "wf_ms ?s'"
    using ok by (auto simp: wf_ms_def wf_changes_def entries_def wf_fold_update)
  have "changes ?s' = changes s ++ map_of (entries puts @ entries stores)"
  proof
    fix k
    have disj: "map_of m k = None" "map_of (entries puts) k = None" if "is_stor k = Some True"
      using that ok by (auto simp: map_of_eq_None_iff)
    have disj': "map_of st k = None" "map_of (entries stores) k = None" if "is_stor k \<noteq> Some True"
      using that ok by (auto simp: map_of_eq_None_iff)
    show "changes ?s' k = (changes s ++ map_of (entries puts @ entries stores)) k"
      using disj disj' ok
      by (cases "is_stor k = Some True")
        (auto simp: changes_def s entries_def map_of_fold_update map_of_rev_wf map_add_def split: option.splits)
  qed
  with put wf that show ?thesis by blast
qed

lemma put_key_correct:
  assumes "wf_ms s" and "k \<noteq> []"
  obtains s' where "put_key s k v = Inr s'" and "wf_ms s'" and "changes s' = (changes s)(k \<mapsto> v)"
proof -
  define p where "p = (if is_stor k = Some True then None else Some [(k, v)])"
  define q where "q = (if is_stor k = Some True then Some [(k, v)] else None)"
  have pq: "entries p @ entries q = [(k, v)]" by (simp add: p_def q_def entries_def)
  have "wf_changes p q"
    using is_stor_cases [OF assms(2)] by (auto simp: p_def q_def wf_changes_def entries_def wf_gomap_def)
  with assms(1) obtain s' where s': "putChangeSet s p q = Inr s'" "wf_ms s'"
      "changes s' = changes s ++ map_of (entries p @ entries q)"
    by (rule putChangeSet_correct)
  have "put_key s k v = putChangeSet s p q"
    using assms(1) is_stor_cases [OF assms(2)] by (cases s)
      (auto simp: p_def q_def put_key_def putChangeSet_def chooseMap_def setMap_def entries_def wf_ms_def put_def)
  with s' pq that show ?thesis by simp
qed

subsection \<open>Merging the cached items with those of the lower store\<close>

text \<open>
  The list a seek delivers, as a function of the two sorted lists it merges: the cached items
  still ahead and the items of the lower store.
\<close>

fun merge_items :: "seek_range \<Rightarrow> (bytes \<times> bytes option) list \<Rightarrow> (bytes \<times> bytes) list \<Rightarrow> (bytes \<times> bytes) list" where
  "merge_items rng ms [] = concat (map live ms)"
| "merge_items rng [] ps = ps"
| "merge_items rng (m # ms) (p # ps) =
    (if less_key rng (fst m) (fst p) then live m @ merge_items rng ms (p # ps)
     else if fst m = fst p then merge_items rng (m # ms) ps
     else p # merge_items rng (m # ms) ps)"

lemma merge_items_Nil [simp]: "merge_items rng [] ps = ps"
  by (cases ps) auto

lemma set_live: "set (live m) = {(k, v). m = (k, Some v)}"
  by (cases m) (auto simp: live_def split: option.splits)

lemma set_merge_items:
  assumes "in_order rng ms" and "in_order rng ps"
  shows "set (merge_items rng ms ps) =
    {(k, v). (k, Some v) \<in> set ms} \<union> {(k, v) \<in> set ps. k \<notin> fst ` set ms}"
  using assms
proof (induction rng ms ps rule: merge_items.induct)
  case (3 rng m ms p ps)
  obtain k v where p: "p = (k, v)" by (cases p)
  have later: "fst m \<notin> fst ` set (p # ps)" if "less_key rng (fst m) (fst p)"
    using that 3(5) less_key_order(1) [of rng "fst m"] by (auto simp del: less_key_order dest: less_key_trans)
  have fresh: "fst p \<notin> fst ` set (m # ms)" if "\<not> less_key rng (fst m) (fst p)" "fst m \<noteq> fst p"
  proof -
    from that have "less_key rng (fst p) (fst m)" using less_key_linear by metis
    then show ?thesis
      using 3(4) that less_key_order(1) [of rng "fst p"] by (auto simp del: less_key_order dest: less_key_trans)
  qed
  have gone: "fst p \<notin> fst ` set ps"
    using 3(5) less_key_order(1) [of rng "fst p"] by (auto simp del: less_key_order)
  consider (mem) "less_key rng (fst m) (fst p)" | (same) "\<not> less_key rng (fst m) (fst p)" "fst m = fst p"
    | (low) "\<not> less_key rng (fst m) (fst p)" "fst m \<noteq> fst p" by blast
  then show ?case
  proof cases
    case mem
    with 3(1) [OF mem] 3(4,5) later [OF mem] show ?thesis
      by (auto simp: set_live) (metis fst_conv image_eqI)+
  next
    case same
    with 3(2) [OF same] 3(4,5) gone show ?thesis by (auto simp: p)
  next
    case low
    with 3(3) [OF low] 3(4,5) fresh [OF low] show ?thesis by (auto simp: p)
  qed
qed (auto simp: set_live)

lemma in_order_append:
  "in_order rng (xs @ ys) \<longleftrightarrow> in_order rng xs \<and> in_order rng ys \<and> (\<forall>x\<in>set xs. \<forall>y\<in>set ys. less_key rng (fst x) (fst y))"
  by (simp add: in_order_def sorted_wrt_append)

lemma in_order_live: "in_order rng ms \<Longrightarrow> in_order rng (concat (map live ms))"
proof (induction ms)
  case (Cons m ms)
  then have "in_order rng (live m)" by (auto simp: live_def split: option.splits)
  moreover have "less_key rng (fst x) (fst y)" if "x \<in> set (live m)" "y \<in> set (concat (map live ms))" for x y
    using that Cons.prems by (fastforce simp: set_live)
  ultimately show ?case using Cons by (simp add: in_order_append)
qed simp

lemma in_order_merge_items:
  assumes "in_order rng ms" and "in_order rng ps"
  shows "in_order rng (merge_items rng ms ps)"
  using assms
proof (induction rng ms ps rule: merge_items.induct)
  case (3 rng m ms p ps)
  consider (mem) "less_key rng (fst m) (fst p)" | (same) "\<not> less_key rng (fst m) (fst p)" "fst m = fst p"
    | (low) "\<not> less_key rng (fst m) (fst p)" "fst m \<noteq> fst p" by blast
  then show ?case
  proof cases
    case mem
    have "less_key rng (fst m) (fst x)" if "x \<in> set (merge_items rng ms (p # ps))" for x
      using that set_merge_items [of rng ms "p # ps"] 3(4,5) mem by (auto dest: less_key_trans)
    moreover have "in_order rng (live m)" by (auto simp: live_def split: option.splits)
    ultimately show ?thesis
      using 3(1) [OF mem] 3(4,5) mem by (auto simp: in_order_append set_live)
  next
    case same
    with 3(2) [OF same] 3(4,5) show ?thesis by simp
  next
    case low
    then have "less_key rng (fst p) (fst m)" using less_key_linear by metis
    then have "less_key rng (fst p) (fst x)" if "x \<in> set (merge_items rng (m # ms) ps)" for x
      using that set_merge_items [of rng "m # ms" ps] 3(4,5) by (auto dest: less_key_trans)
    with low 3(3) [OF low] 3(4,5) show ?thesis by simp
  qed
qed (auto simp: in_order_live)

text \<open>The cached items which the closure's variables still have ahead.\<close>

definition ahead :: "(bytes \<times> bytes option) list \<Rightarrow> 's seek_state \<Rightarrow> (bytes \<times> bytes option) list" where
  "ahead memRes st = (if sk_haveMem st then drop (sk_iMem st - 1) memRes else [])"

definition seek_inv :: "(bytes \<times> bytes option) list \<Rightarrow> (bytes \<times> bytes) list \<Rightarrow> 's seek_state \<Rightarrow> bool" where
  "seek_inv memRes kvs st \<longleftrightarrow> \<not> sk_done st \<and>
     (if sk_haveMem st
      then 1 \<le> sk_iMem st \<and> sk_iMem st \<le> length memRes \<and> sk_kvMem st = memRes ! (sk_iMem st - 1)
      else fst (sk_kvMem st) \<notin> fst ` set kvs)"

text \<open>A cached key does not, once cut, look like a key of the lower store that comes after it.\<close>

definition no_clash :: "seek_range \<Rightarrow> bool \<Rightarrow> (bytes \<times> bytes option) list \<Rightarrow> (bytes \<times> bytes) list \<Rightarrow> bool" where
  "no_clash rng cutPrefix memRes kvs \<longleftrightarrow> (\<forall>m\<in>set memRes. \<forall>kv\<in>set kvs. less_key rng (fst m) (fst kv) \<longrightarrow>
     cut_key cutPrefix (length (sr_prefix rng)) (fst m) \<noteq> fst kv)"

definition cutting :: "seek_range \<Rightarrow> bool \<Rightarrow> 's callback \<Rightarrow> 's callback" where
  "cutting rng cutPrefix f = (\<lambda>s k v. f s (cut_key cutPrefix (length (sr_prefix rng)) k) v)"

lemma cutting_False [simp]: "cutting rng False f = f"
  by (simp add: cutting_def cut_key_def)

lemma ahead_Cons:
  assumes "seek_inv memRes kvs st" and "sk_haveMem st"
  obtains ms where "ahead memRes st = sk_kvMem st # ms"
    and "ms = drop (sk_iMem st) memRes" and "sk_kvMem st \<in> set memRes"
proof -
  have i: "1 \<le> sk_iMem st" "sk_iMem st \<le> length memRes" "sk_kvMem st = memRes ! (sk_iMem st - 1)"
    using assms by (auto simp: seek_inv_def)
  then have "drop (sk_iMem st - 1) memRes = sk_kvMem st # drop (sk_iMem st) memRes"
    using Cons_nth_drop_Suc [of "sk_iMem st - 1" memRes] by simp
  with i that assms(2) show ?thesis by (simp add: ahead_def)
qed

text \<open>
  A context that is never cancelled, as far as the callback's states go: polling it changes
  nothing, and the callback stays within those states.
\<close>

definition quiet :: "('s \<Rightarrow> bool) \<Rightarrow> ('s \<Rightarrow> bool \<times> 's) \<Rightarrow> 's callback \<Rightarrow> bool" where
  "quiet P ctx f \<longleftrightarrow> (\<forall>u. P u \<longrightarrow> ctx u = (False, u) \<and> (\<forall>k v. P (snd (f u k v))))"

lemma quiet_no_cancel: "quiet (\<lambda>_. True) no_cancel f"
  by (simp add: quiet_def no_cancel_def)

lemma mergeFunc_step:
  assumes quiet: "quiet P ctx f" and inv: "seek_inv memRes ((k, v) # kvs) st" and user: "P (sk_user st)" and ord: "in_order rng ((k, v) # kvs)"
    and clash: "no_clash rng cutPrefix memRes ((k, v) # kvs)"
    and result: "mergeFunc ctx rng cutPrefix memRes f k v st = (go_on, st')"
  shows "if go_on
    then seek_inv memRes kvs st' \<and> P (sk_user st') \<and>
      for_each (cutting rng cutPrefix f) (merge_items rng (ahead memRes st) ((k, v) # kvs)) (sk_user st) =
      for_each (cutting rng cutPrefix f) (merge_items rng (ahead memRes st') kvs) (sk_user st')
    else sk_done st' \<and>
      for_each (cutting rng cutPrefix f) (merge_items rng (ahead memRes st) ((k, v) # kvs)) (sk_user st) = sk_user st'"
  using inv user result
proof (induction "length (ahead memRes st)" arbitrary: st rule: less_induct)
  case less
  let ?cut = "cut_key cutPrefix (length (sr_prefix rng))"
  let ?F = "for_each (cutting rng cutPrefix f)"
  note def = less.prems(3) [unfolded mergeFunc.simps [of ctx rng cutPrefix memRes f k v st]]
  have poll: "ctx (sk_user st) = (False, sk_user st)" using quiet less.prems(2) by (simp add: quiet_def)
  show ?case
  proof (cases "sk_haveMem st \<and> less_key rng (fst (sk_kvMem st)) k")
    case True
    from less.prems(1) True obtain ms where ms: "ahead memRes st = sk_kvMem st # ms"
        "ms = drop (sk_iMem st) memRes" "sk_kvMem st \<in> set memRes"
      using ahead_Cons by blast
    obtain b st1 where em: "emit_mem cutPrefix (length (sr_prefix rng)) f st = (b, st1)" by fastforce
    have step: "?F (merge_items rng (ahead memRes st) ((k, v) # kvs)) (sk_user st) =
        (if b then ?F (merge_items rng ms ((k, v) # kvs)) (sk_user st1) else sk_user st1)"
      using em True ms(1) by (cases "sk_kvMem st")
        (auto simp: emit_mem_def live_def cutting_def Let_def split: option.splits prod.splits)
    show ?thesis
    proof (cases b)
      case False
      with def True em have "\<not> go_on" "st' = st1\<lparr>sk_done := True\<rparr>"
        by (auto simp: poll Let_def)
      with step False show ?thesis by simp
    next
      case b: True
      define st2 where "st2 = (if sk_iMem st < length memRes
        then st\<lparr>sk_kvMem := memRes ! sk_iMem st, sk_haveMem := True, sk_iMem := sk_iMem st + 1, sk_user := sk_user st1\<rparr>
        else st\<lparr>sk_kvMem := sk_kvMem st1, sk_haveMem := False, sk_user := sk_user st1\<rparr>)"
      have eq: "mergeFunc ctx rng cutPrefix memRes f k v st2 = (go_on, st')"
        using def True em b by (auto simp: poll Let_def st2_def split: if_splits)
      have ah: "ahead memRes st2 = ms" using ms(2) by (auto simp: st2_def ahead_def)
      have u: "sk_user st2 = sk_user st1" by (simp add: st2_def)
      have "P (sk_user st1)" using em quiet less.prems(2)
        by (auto simp: emit_mem_def quiet_def Let_def split: option.splits prod.splits) (metis snd_conv)
      then have P1: "P (sk_user st2)" by (simp add: u)
      have key: "fst (sk_kvMem st1) = fst (sk_kvMem st) \<or> fst (sk_kvMem st1) = ?cut (fst (sk_kvMem st))"
        using em by (auto simp: emit_mem_def Let_def split: option.splits prod.splits)
      have "less_key rng (fst (sk_kvMem st)) (fst kv)" if "kv \<in> set ((k, v) # kvs)" for kv
        using that True ord by (auto dest: less_key_trans)
      then have "\<forall>kv\<in>set ((k, v) # kvs). fst (sk_kvMem st) \<noteq> fst kv \<and> ?cut (fst (sk_kvMem st)) \<noteq> fst kv"
        using clash ms(3) less_key_order(1) [of rng] unfolding no_clash_def by metis
      with key have "\<forall>kv\<in>set ((k, v) # kvs). fst (sk_kvMem st1) \<noteq> fst kv" by metis
      then have "fst (sk_kvMem st1) \<notin> fst ` set ((k, v) # kvs)" by blast
      then have inv: "seek_inv memRes ((k, v) # kvs) st2"
        using less.prems(1) by (auto simp: st2_def seek_inv_def)
      have "length (ahead memRes st2) < length (ahead memRes st)" using ah ms(1) by simp
      from less.hyps [OF this inv P1 eq] show ?thesis by (simp only: ah u step b if_True)
    qed
  next
    case False
    have m: "merge_items rng (ahead memRes st) ((k, v) # kvs) =
        (if fst (sk_kvMem st) = k then merge_items rng (ahead memRes st) kvs
         else (k, v) # merge_items rng (ahead memRes st) kvs)"
    proof (cases "sk_haveMem st")
      case True
      with less.prems(1) obtain ms where "ahead memRes st = sk_kvMem st # ms"
        using ahead_Cons by blast
      with False True show ?thesis by auto
    next
      case no: False
      with less.prems(1) show ?thesis by (auto simp: ahead_def seek_inv_def)
    qed
    show ?thesis
    proof (cases "fst (sk_kvMem st) = k")
      case True
      with False def have "go_on" "st' = st" by (auto simp: poll Let_def)
      with less.prems(1,2) m True show ?thesis by (auto simp: seek_inv_def)
    next
      case neq: False
      obtain b u where fu: "f (sk_user st) (?cut k) v = (b, u)" by fastforce
      with def False neq have "go_on = b" "st' = st\<lparr>sk_user := u, sk_done := \<not> b\<rparr>"
        by (auto simp: poll Let_def)
      moreover have "sk_haveMem st \<or> fst (sk_kvMem st) \<notin> fst ` set kvs"
        using less.prems(1) by (simp add: seek_inv_def split: if_splits)
      ultimately have "go_on \<Longrightarrow> seek_inv memRes kvs st'" "ahead memRes st' = ahead memRes st" "sk_user st' = u"
          "\<not> go_on \<Longrightarrow> sk_done st'" "P (sk_user st')" "go_on = b"
        using less.prems(1) less.prems(2) quiet fu
        by (auto simp: seek_inv_def ahead_def quiet_def split: if_splits) (metis snd_conv)+
      then show ?thesis using m neq fu by (simp add: cutting_def)
    qed
  qed
qed

lemma seek_tail_for_each:
  assumes "quiet P ctx f" and "P u"
  shows "seek_tail ctx cutPrefix (length (sr_prefix rng)) f ms u =
   for_each (cutting rng cutPrefix f) (concat (map live ms)) u"
  using assms(2)
proof (induction ms arbitrary: u)
  case (Cons m ms)
  have poll: "ctx u = (False, u)" and keep: "\<And>k v. P (snd (f u k v))"
    using assms(1) Cons.prems by (simp_all add: quiet_def)
  obtain k v where m: "m = (k, v)" by (cases m)
  show ?case
  proof (cases v)
    case None
    with Cons m poll show ?thesis by (simp add: live_def)
  next
    case (Some val)
    obtain b u' where fu: "f u (cut_key cutPrefix (length (sr_prefix rng)) k) val = (b, u')" by fastforce
    then have "P u'" using keep by (metis snd_conv)
    with Cons.IH fu m poll Some show ?thesis by (simp add: live_def cutting_def)
  qed
qed simp

lemma for_each_merge:
  assumes quiet: "quiet P ctx f" and "P (sk_user st)" and "seek_inv memRes kvs st" and "in_order rng kvs" and "no_clash rng cutPrefix memRes kvs"
  shows "(let st' = for_each (merge_callback ctx rng cutPrefix memRes f) kvs st in
      if \<not> sk_done st' \<and> sk_haveMem st'
      then seek_tail ctx cutPrefix (length (sr_prefix rng)) f (drop (sk_iMem st' - 1) memRes) (sk_user st')
      else sk_user st') =
    for_each (cutting rng cutPrefix f) (merge_items rng (ahead memRes st) kvs) (sk_user st)"
  using assms(2-)
proof (induction kvs arbitrary: st)
  case Nil
  then show ?case by (auto simp: ahead_def seek_tail_for_each [OF quiet] seek_inv_def Let_def)
next
  case (Cons kv kvs)
  obtain k v where kv: "kv = (k, v)" by (cases kv)
  obtain b st' where st': "mergeFunc ctx rng cutPrefix memRes f k v st = (b, st')" by fastforce
  have "\<not> sk_done st" using Cons.prems(2) by (simp add: seek_inv_def)
  with kv st' have fe: "for_each (merge_callback ctx rng cutPrefix memRes f) (kv # kvs) st =
      (if b then for_each (merge_callback ctx rng cutPrefix memRes f) kvs st' else st')"
    by (simp add: merge_callback_def)
  note step = mergeFunc_step [OF quiet Cons.prems(2) [unfolded kv] Cons.prems(1) Cons.prems(3,4) [unfolded kv] st']
  show ?case
  proof (cases b)
    case True
    have "in_order rng kvs" "no_clash rng cutPrefix memRes kvs"
      using Cons.prems by (auto simp: no_clash_def)
    with Cons.IH [of st'] step True fe kv show ?thesis by simp
  next
    case False
    with step fe kv show ?thesis by (simp add: Let_def)
  qed
qed

lemma performSeek_correct:
  assumes "quiet P ctx f" and "P u" and "distinct (map fst memRes)" and "goes_lower rng \<Longrightarrow> ps_seek (lower_range rng) = Inr kvs"
    and "\<not> goes_lower rng \<Longrightarrow> kvs = []"
    and "in_order rng kvs" and "no_clash rng cutPrefix memRes kvs" and "[] \<notin> fst ` set kvs"
  shows "performSeek ctx ps_seek memRes rng cutPrefix f u =
    Inr (for_each (cutting rng cutPrefix f)
      (merge_items rng (sort_by (\<lambda>a b. less_key rng (fst a) (fst b)) memRes) kvs) u)"
proof -
  let ?ms = "sort_by (\<lambda>a b. less_key rng (fst a) (fst b)) memRes"
  define st where "st = (if 0 < length ?ms
               then \<lparr>sk_done = False, sk_iMem = 1, sk_kvMem = ?ms ! 0, sk_haveMem = True, sk_user = u\<rparr>
               else \<lparr>sk_done = False, sk_iMem = 0, sk_kvMem = ([], None), sk_haveMem = False, sk_user = u\<rparr>)"
  have inv: "seek_inv ?ms kvs st" and ah: "ahead ?ms st = ?ms" and u: "sk_user st = u"
    using assms(8) by (auto simp: st_def seek_inv_def ahead_def Suc_le_eq)
  have clash: "no_clash rng cutPrefix ?ms kvs" using assms(7) by (simp add: no_clash_def)
  note main = for_each_merge [OF assms(1) _ inv assms(6) clash, unfolded ah u Let_def, OF assms(2)]
  show ?thesis
  proof (cases "goes_lower rng")
    case True
    then show ?thesis
      unfolding performSeek_def Let_def st_def [symmetric] using main assms(4) by simp
  next
    case False
    with assms(5) have "kvs = []" by simp
    with False main show ?thesis
      unfolding performSeek_def Let_def st_def [symmetric] by auto
  qed
qed

section \<open>The contract of a store\<close>

definition matching :: "seek_range \<Rightarrow> (bytes \<rightharpoonup> bytes) \<Rightarrow> (bytes \<times> bytes) set" where
  "matching rng c = {(k, v). c k = Some v \<and> isKeyOK rng k}"

text \<open>
  What the \<^verbatim>\<open>Store\<close> interface documents, for a store whose states satisfying \<open>dbi\<close> stand for maps:
  \<^verbatim>\<open>Get\<close> looks up; \<^verbatim>\<open>PutChangeSet\<close> applies the whole change set or, on error, nothing.
\<close>

locale kv_backend =
  fixes B :: "'db backend" and dbc :: "'db \<Rightarrow> (bytes \<rightharpoonup> bytes)" and dbi :: "'db \<Rightarrow> bool"
  assumes backend_get: "dbi d \<Longrightarrow> k \<noteq> [] \<Longrightarrow>
      be_get B d k = (case dbc d k of None \<Rightarrow> Inl ErrKeyNotFound | Some v \<Rightarrow> Inr v)"
    and backend_put: "dbi d \<Longrightarrow> wf_changes puts stores \<Longrightarrow>
      \<exists>e d'. be_put B d puts stores = Some (e, d') \<and> dbi d' \<and>
        dbc d' = (if e = None then overlay (map_of (entries puts @ entries stores)) (dbc d) else dbc d)"

text \<open>
  \<^verbatim>\<open>Seek\<close> offers entries in order, each once. Which keys it offers differs between the stores (\<open>offers\<close>): all of them
  offer the keys that \<open>isKeyOK\<close> selects, and none that lack the prefix.
\<close>

locale kv_seek = kv_backend B dbc dbi for B :: "'db backend" and dbc :: "'db \<Rightarrow> (bytes \<rightharpoonup> bytes)" and dbi :: "'db \<Rightarrow> bool" +
  fixes offers :: "seek_range \<Rightarrow> bytes \<Rightarrow> bool"
  assumes backend_seek: "dbi d \<Longrightarrow> sr_prefix rng \<noteq> [] \<Longrightarrow>
      \<exists>kvs. be_seek B d rng = Inr kvs \<and> in_order rng kvs \<and> set kvs = {(k, v). dbc d k = Some v \<and> offers rng k}"
    and offers_prefix: "offers rng k \<Longrightarrow> has_prefix k (sr_prefix rng)"
    and offers_OK: "isKeyOK rng k \<Longrightarrow> offers rng k"
    and offers_depth: "offers (rng\<lparr>sr_depth := n\<rparr>) = offers rng"

text \<open>The entries that a database offers although \<open>isKeyOK\<close> does not select them.\<close>

definition beyond :: "(seek_range \<Rightarrow> bytes \<Rightarrow> bool) \<Rightarrow> seek_range \<Rightarrow> (bytes \<rightharpoonup> bytes) \<Rightarrow> (bytes \<times> bytes) set" where
  "beyond offers rng c = {(k, v). c k = Some v \<and> offers rng k \<and> \<not> isKeyOK rng k}"

text \<open>The in-memory store, as the database of a node configured with \<^verbatim>\<open>inmemory\<close>.\<close>

definition memory_backend :: "memory_store backend" where
  "memory_backend = \<lparr>be_get = MemoryStore_Get,
     be_put = (\<lambda>s puts stores. case MemoryStore_PutChangeSet s puts stores of
        Inl _ \<Rightarrow> None | Inr s' \<Rightarrow> Some (None, s')),
     be_seek = (\<lambda>s rng. MemoryStore_Seek s rng collect []),
     be_close = (\<lambda>s. (None, MemoryStore_Close s))\<rparr>"

lemma MemoryStore_Get_correct:
  assumes "wf_ms s" and "k \<noteq> []"
  shows "MemoryStore_Get s k =
    (case overlay (changes s) Map.empty k of None \<Rightarrow> Inl ErrKeyNotFound | Some v \<Rightarrow> Inr v)"
proof -
  obtain m where "chooseMap s k = Some m" "map_of (entries m) k = changes s k"
    using chooseMap_lookup [OF assms] by blast
  then show ?thesis by (auto simp: MemoryStore_Get_def overlay_def split: option.splits)
qed

lemma memList_correct:
  assumes "wf_ms s" and "sr_prefix rng \<noteq> []"
  obtains kvs where "memList s rng = Inr kvs" and "in_order rng kvs"
    and "set kvs = matching rng (overlay (changes s) Map.empty)"
proof -
  obtain m where m: "chooseMap s (sr_prefix rng) = Some m" "wf_gomap (entries m)"
    using chooseMap_wf [OF assms] by blast
  let ?xs = "filter (\<lambda>kv. isKeyOK rng (fst kv)) (concat (map live (entries m)))"
  have keys: "map fst (concat (map live xs)) = map fst (filter (\<lambda>kv. snd kv \<noteq> None) xs)"
    for xs :: "(bytes \<times> bytes option) list"
    by (induction xs) (auto simp: live_def split: option.splits)
  have "distinct (map fst (concat (map live (entries m))))"
    using m(2) unfolding keys by (simp add: wf_gomap_def distinct_map_filter)
  then have "distinct (map fst ?xs)" by (simp add: distinct_map_filter)
  moreover have "set ?xs = matching rng (overlay (changes s) Map.empty)"
  proof -
    have "(k, v) \<in> set ?xs \<longleftrightarrow> (k, v) \<in> matching rng (overlay (changes s) Map.empty)" for k v
    proof (cases "isKeyOK rng k")
      case True
      then have "has_prefix k (sr_prefix rng)" by (simp add: isKeyOK_def)
      from chooseMap_entries [OF assms this m(1), of "Some v"] True show ?thesis
        by (auto simp: set_live matching_def overlay_def split: option.splits)
    qed (auto simp: matching_def)
    then show ?thesis by (intro equalityI subrelI) blast+
  qed
  ultimately show ?thesis
    using that m(1) in_order_sort [of ?xs rng] by (simp add: memList_def)
qed

interpretation memory: kv_seek memory_backend "\<lambda>s. overlay (changes s) Map.empty" wf_ms isKeyOK
proof
  fix s :: memory_store and puts stores :: kvmap and rng :: seek_range and k :: bytes
  assume s: "wf_ms s"
  show "be_get memory_backend s k =
      (case overlay (changes s) Map.empty k of None \<Rightarrow> Inl ErrKeyNotFound | Some v \<Rightarrow> Inr v)" if "k \<noteq> []"
    using MemoryStore_Get_correct [OF s that] by (simp add: memory_backend_def)
  show "\<exists>e d'. be_put memory_backend s puts stores = Some (e, d') \<and> wf_ms d' \<and>
      overlay (changes d') Map.empty = (if e = None
        then overlay (map_of (entries puts @ entries stores)) (overlay (changes s) Map.empty)
        else overlay (changes s) Map.empty)" if "wf_changes puts stores"
  proof -
    from s that obtain s' where "putChangeSet s puts stores = Inr s'" "wf_ms s'"
        "changes s' = changes s ++ map_of (entries puts @ entries stores)"
      by (rule putChangeSet_correct)
    then show ?thesis by (simp add: memory_backend_def MemoryStore_PutChangeSet_def overlay_overlay)
  qed
  show "\<exists>kvs. be_seek memory_backend s rng = Inr kvs \<and> in_order rng kvs \<and>
      set kvs = {(k, v). overlay (changes s) Map.empty k = Some v \<and> isKeyOK rng k}" if "sr_prefix rng \<noteq> []"
  proof -
    from s that obtain kvs where "memList s rng = Inr kvs" "in_order rng kvs"
        "set kvs = matching rng (overlay (changes s) Map.empty)"
      by (rule memList_correct)
    then show ?thesis by (simp add: memory_backend_def MemoryStore_Seek_def MemoryStore_seek_def matching_def)
  qed
qed (simp_all add: isKeyOK_def fun_eq_iff)

lemma snapshot_correct:
  assumes "wf_ms s" and "sr_prefix rng \<noteq> []"
  obtains memRes where "prepareSeekMemSnapshot s rng = Inr memRes" and "distinct (map fst memRes)"
    and "\<And>k v. (k, v) \<in> set memRes \<longleftrightarrow> changes s k = Some v \<and> isKeyOK rng k"
proof -
  obtain m where m: "chooseMap s (sr_prefix rng) = Some m" "wf_gomap (entries m)"
    using chooseMap_wf [OF assms] by blast
  have "distinct (map fst (filter (\<lambda>kv. isKeyOK rng (fst kv)) (entries m)))"
    using m(2) by (simp add: wf_gomap_def distinct_map_filter)
  moreover have "(k, v) \<in> set (filter (\<lambda>kv. isKeyOK rng (fst kv)) (entries m)) \<longleftrightarrow>
      changes s k = Some v \<and> isKeyOK rng k" for k v
    using chooseMap_entries [OF assms _ m(1), of k v] by (auto simp: isKeyOK_def)
  ultimately show ?thesis
    using that m(1) by (simp add: prepareSeekMemSnapshot_def)
qed

lemma isKeyOK_prefix: "isKeyOK rng k \<Longrightarrow> has_prefix k (sr_prefix rng)"
  by (simp add: isKeyOK_def)

lemma matching_key_ne: "sr_prefix rng \<noteq> [] \<Longrightarrow> [] \<notin> fst ` matching rng c"
  by (auto simp: matching_def isKeyOK_def has_prefix_def)

context kv_backend
begin

lemma Store_Get_content:
  "wf_store dbi st \<Longrightarrow> k \<noteq> [] \<Longrightarrow>
   Store_Get B st k = (case content dbc st k of None \<Rightarrow> Inl ErrKeyNotFound | Some v \<Rightarrow> Inr v)"
proof (induction st)
  case (MemCached s priv lower)
  then obtain m where "chooseMap s k = Some m" "map_of (entries m) k = changes s k"
    using chooseMap_lookup [of s k] by auto
  with MemCached show ?case
    by (auto simp: MemCachedStore_Get_def overlay_def split: option.splits)
qed (auto simp: backend_get MemoryStore_Get_correct)

lemma Store_PutChangeSet_content:
  assumes "wf_store dbi st" and "wf_changes puts stores"
  obtains e st' where "Store_PutChangeSet B st puts stores = Some (e, st')" and "wf_store dbi st'"
    and "content dbc st' = (if e = None then overlay (map_of (entries puts @ entries stores)) (content dbc st)
         else content dbc st)"
proof (cases st)
  case (DB d)
  with assms obtain e d' where "be_put B d puts stores = Some (e, d')" "dbi d'"
      "dbc d' = (if e = None then overlay (map_of (entries puts @ entries stores)) (dbc d) else dbc d)"
    using backend_put [of d puts stores] by auto
  with DB that [of e "DB d'"] show ?thesis by simp
next
  case (Memory s)
  with assms obtain s' where "putChangeSet s puts stores = Inr s'" "wf_ms s'"
      "changes s' = changes s ++ map_of (entries puts @ entries stores)"
    using putChangeSet_correct [of s puts stores] by auto
  with Memory that [of None "Memory s'"] show ?thesis
    by (simp add: MemoryStore_PutChangeSet_def overlay_overlay)
next
  case (MemCached s priv lower)
  with assms obtain s' where "putChangeSet s puts stores = Inr s'" "wf_ms s'"
      "changes s' = changes s ++ map_of (entries puts @ entries stores)"
    using putChangeSet_correct [of s puts stores] by auto
  with MemCached assms(1) that [of None "MemCached s' priv lower"] show ?thesis
    by (simp add: overlay_overlay)
qed

text \<open>
  The items a layer merges: those of the lower store are offered in order and match, and so
  does the merged list.
\<close>

lemma Seek_layer:
  assumes s: "wf_ms s" and p: "sr_prefix rng \<noteq> []"
    and low: "goes_lower rng \<Longrightarrow> ps_seek (lower_range rng) = Inr kvs \<and> in_order rng kvs \<and> set kvs = matching rng c \<union> X"
    and nolow: "\<not> goes_lower rng \<Longrightarrow> kvs = [] \<and> c = Map.empty \<and> X = {}"
    and X: "\<forall>(k, v) \<in> X. has_prefix k (sr_prefix rng) \<and> \<not> isKeyOK rng k"
    and quiet: "quiet P ctx f" "P u"
    and clash: "cutPrefix \<Longrightarrow> \<forall>k\<in>dom (changes s). \<not> has_prefix k (sr_prefix rng @ sr_prefix rng)"
  obtains memRes items where "prepareSeekMemSnapshot s rng = Inr memRes"
    and "performSeek ctx ps_seek memRes rng cutPrefix f u =
           Inr (for_each (cutting rng cutPrefix f) items u)"
    and "in_order rng items" and "set items = matching rng (overlay (changes s) c) \<union> X"
proof -
  obtain memRes where m: "prepareSeekMemSnapshot s rng = Inr memRes" "distinct (map fst memRes)"
      "\<And>k v. (k, v) \<in> set memRes \<longleftrightarrow> changes s k = Some v \<and> isKeyOK rng k"
    using snapshot_correct [OF s p] by blast
  let ?ms = "sort_by (\<lambda>a b. less_key rng (fst a) (fst b)) memRes"
  have ord: "in_order rng ?ms" using m(2) by (rule in_order_sort)
  have kvs: "in_order rng kvs" "set kvs = matching rng c \<union> X"
    using low nolow by (cases "goes_lower rng"; auto simp: matching_def)+
  have ok: "has_prefix k (sr_prefix rng)" if "k \<in> fst ` set memRes \<or> k \<in> fst ` set kvs" for k
    using that m(3) kvs(2) X by (auto simp: matching_def isKeyOK_prefix)
  have "cut_key cutPrefix (length (sr_prefix rng)) k \<noteq> k'"
    if "k \<in> fst ` set memRes" "k' \<in> fst ` set kvs" "less_key rng k k'" for k k'
  proof (cases cutPrefix)
    case True
    have pk: "has_prefix k (sr_prefix rng)" "has_prefix k' (sr_prefix rng)"
      using that ok by auto
    have "\<not> has_prefix k (sr_prefix rng @ sr_prefix rng)"
      using clash [OF True] that(1) m(3) by auto
    with pk True show ?thesis by (auto simp: cut_key_def has_prefix_iff)
  next
    case False
    with that(3) show ?thesis by (auto simp: cut_key_def)
  qed
  then have nc: "no_clash rng cutPrefix memRes kvs" by (auto simp: no_clash_def)
  have ne: "[] \<notin> fst ` set kvs" using ok p by (force simp: has_prefix_def)
  have "set (merge_items rng ?ms kvs) = matching rng (overlay (changes s) c) \<union> X"
  proof -
    have "k \<in> fst ` set memRes \<longleftrightarrow> changes s k \<noteq> None \<and> isKeyOK rng k" for k
      using m(3) by force
    then have "(k, v) \<in> set (merge_items rng ?ms kvs) \<longleftrightarrow> (k, v) \<in> matching rng (overlay (changes s) c) \<union> X" for k v
      using m(3) X by (auto simp: set_merge_items [OF ord kvs(1)] kvs(2) matching_def overlay_def split: option.splits)
    then show ?thesis by (intro equalityI subrelI) blast+
  qed
  moreover have "in_order rng (merge_items rng ?ms kvs)"
    using ord kvs(1) by (rule in_order_merge_items)
  moreover have "performSeek ctx ps_seek memRes rng cutPrefix f u =
      Inr (for_each (cutting rng cutPrefix f) (merge_items rng ?ms kvs) u)"
    by (rule performSeek_correct [OF quiet]) (use m(2) low nolow kvs nc ne in auto)
  ultimately show ?thesis using that m(1) by blast
qed

end

context kv_seek
begin

lemma beyond_X: "\<forall>(k, v) \<in> beyond offers rng c. has_prefix k (sr_prefix rng) \<and> \<not> isKeyOK rng k"
  by (auto simp: beyond_def offers_prefix)

lemma beyond_lower [simp]: "beyond offers (lower_range rng) = beyond offers rng"
  by (simp add: fun_eq_iff beyond_def) (simp add: lower_range_def offers_depth)

lemma seek_split: "{(k, v). c k = Some v \<and> offers rng k} = matching rng c \<union> beyond offers rng c"
  using offers_OK by (auto simp: matching_def beyond_def)

lemma Seek_items_content:
  assumes "wf_store dbi st" and "sr_prefix rng \<noteq> []"
  shows "\<exists>items. Seek_items B st rng = Inr items \<and> in_order rng items \<and>
     set items = matching rng (content_at dbc (sr_depth rng) st) \<union> beyond offers rng (base_at dbc (sr_depth rng) st)"
  using assms
proof (induction st arbitrary: rng)
  case (DB d)
  then show ?case using backend_seek by (simp add: seek_split)
next
  case (Memory s)
  then obtain kvs where "memList s rng = Inr kvs" "in_order rng kvs"
      "set kvs = matching rng (overlay (changes s) Map.empty)"
    using memList_correct [of s rng] by auto
  then show ?case by (simp add: MemoryStore_Seek_def MemoryStore_seek_def beyond_def)
next
  case (MemCached s priv lower)
  have depth: "sr_depth (lower_range rng) = (if sr_depth rng > 1 then sr_depth rng - 1 else sr_depth rng)"
    and pre: "sr_prefix (lower_range rng) = sr_prefix rng"
    by (simp_all add: lower_range_def)
  define c where "c = (if goes_lower rng then content_at dbc (sr_depth (lower_range rng)) lower else Map.empty)"
  define X where "X = beyond offers rng (if goes_lower rng then base_at dbc (sr_depth (lower_range rng)) lower else Map.empty)"
  have X: "\<forall>(k, v) \<in> X. has_prefix k (sr_prefix rng) \<and> \<not> isKeyOK rng k" "\<not> goes_lower rng \<Longrightarrow> X = {}"
    "goes_lower rng \<Longrightarrow> X = beyond offers rng (base_at dbc (sr_depth (lower_range rng)) lower)"
    unfolding X_def by (rule beyond_X) (simp_all add: beyond_def)
  obtain kvs where kvs: "Seek_items B lower (lower_range rng) = Inr kvs" "in_order rng kvs"
      "set kvs = matching rng (content_at dbc (sr_depth (lower_range rng)) lower) \<union>
         beyond offers rng (base_at dbc (sr_depth (lower_range rng)) lower)"
    using MemCached.IH [of "lower_range rng"] MemCached.prems pre by (auto simp: in_order_def matching_def)
  have c: "content_at dbc (sr_depth rng) (MemCached s priv lower) = overlay (changes s) c"
    "beyond offers rng (base_at dbc (sr_depth rng) (MemCached s priv lower)) = X"
    by (simp_all add: c_def X_def goes_lower_def depth)
  show ?case
  proof (rule Seek_layer [of s rng "Seek_items B lower" "if goes_lower rng then kvs else []" c X
      "\<lambda>_. True" no_cancel collect "[]" False])
    fix memRes items
    assume "prepareSeekMemSnapshot s rng = Inr memRes" "in_order rng items"
      "set items = matching rng (overlay (changes s) c) \<union> X"
      and "performSeek no_cancel (Seek_items B lower) memRes rng False collect [] =
           Inr (for_each (cutting rng False collect) items [])"
    then show ?thesis by (simp add: MemCachedStore_Seek_def c del: content_at.simps base_at.simps)
  qed (use MemCached.prems kvs quiet_no_cancel X in \<open>auto simp: c_def\<close>)
qed

lemma Store_Seek_content:
  assumes "wf_store dbi st" and "sr_prefix rng \<noteq> []"
  shows "\<exists>items. Store_Seek B st rng f u = Inr (for_each f items u) \<and> in_order rng items \<and>
     set items = matching rng (content_at dbc (sr_depth rng) st) \<union> beyond offers rng (base_at dbc (sr_depth rng) st)"
proof (cases st)
  case (DB d)
  with assms backend_seek [of d rng] show ?thesis by (auto simp: seek_split)
next
  case (Memory s)
  with assms obtain kvs where "memList s rng = Inr kvs" "in_order rng kvs"
      "set kvs = matching rng (overlay (changes s) Map.empty)"
    using memList_correct [of s rng] by auto
  with Memory show ?thesis by (auto simp: MemoryStore_Seek_def MemoryStore_seek_def beyond_def)
next
  case (MemCached s priv lower)
  have wf: "wf_ms s" "wf_store dbi lower" "sr_prefix (lower_range rng) \<noteq> []"
    using assms MemCached by (auto simp: lower_range_def)
  define c where "c = (if goes_lower rng then content_at dbc (sr_depth (lower_range rng)) lower else Map.empty)"
  define X where "X = beyond offers rng (if goes_lower rng then base_at dbc (sr_depth (lower_range rng)) lower else Map.empty)"
  have X: "\<forall>(k, v) \<in> X. has_prefix k (sr_prefix rng) \<and> \<not> isKeyOK rng k" "\<not> goes_lower rng \<Longrightarrow> X = {}"
    "goes_lower rng \<Longrightarrow> X = beyond offers rng (base_at dbc (sr_depth (lower_range rng)) lower)"
    unfolding X_def by (rule beyond_X) (simp_all add: beyond_def)
  obtain kvs where kvs: "Seek_items B lower (lower_range rng) = Inr kvs" "in_order rng kvs"
      "set kvs = matching rng (content_at dbc (sr_depth (lower_range rng)) lower) \<union>
         beyond offers rng (base_at dbc (sr_depth (lower_range rng)) lower)"
    using Seek_items_content [OF wf(2,3)] by (auto simp: in_order_def matching_def)
  have c: "content_at dbc (sr_depth rng) st = overlay (changes s) c"
    "beyond offers rng (base_at dbc (sr_depth rng) st) = X"
    by (simp_all add: MemCached c_def X_def goes_lower_def lower_range_def)
  show ?thesis
  proof (rule Seek_layer [of s rng "Seek_items B lower" "if goes_lower rng then kvs else []" c X
        "\<lambda>_. True" no_cancel f u False])
    fix memRes items
    assume "prepareSeekMemSnapshot s rng = Inr memRes" "in_order rng items"
      "set items = matching rng (overlay (changes s) c) \<union> X"
      and "performSeek no_cancel (Seek_items B lower) memRes rng False f u =
           Inr (for_each (cutting rng False f) items u)"
    then show ?thesis by (auto simp: MemCachedStore_Seek_def MemCached c [unfolded MemCached] simp del: content_at.simps base_at.simps)
  qed (use wf kvs assms(2) quiet_no_cancel X in \<open>auto simp: c_def\<close>)
qed

lemma SeekAsync_content:
  assumes "wf_store dbi (MemCached s priv lower)" and "sr_prefix rng \<noteq> []"
    and "cutPrefix \<Longrightarrow> \<forall>k\<in>dom (changes s). \<not> has_prefix k (sr_prefix rng @ sr_prefix rng)"
  shows "\<exists>items. SeekAsync B [] (MemCached s priv lower) rng cutPrefix =
       Inr (map (\<lambda>(k, v). (cut_key cutPrefix (length (sr_prefix rng)) k, v)) items) \<and> in_order rng items \<and>
     set items = matching rng (content_at dbc (sr_depth rng) (MemCached s priv lower)) \<union>
       beyond offers rng (base_at dbc (sr_depth rng) (MemCached s priv lower))"
proof -
  have wf: "wf_ms s" "wf_store dbi lower" "sr_prefix (lower_range rng) \<noteq> []"
    using assms by (auto simp: lower_range_def)
  define c where "c = (if goes_lower rng then content_at dbc (sr_depth (lower_range rng)) lower else Map.empty)"
  define X where "X = beyond offers rng (if goes_lower rng then base_at dbc (sr_depth (lower_range rng)) lower else Map.empty)"
  have X: "\<forall>(k, v) \<in> X. has_prefix k (sr_prefix rng) \<and> \<not> isKeyOK rng k" "\<not> goes_lower rng \<Longrightarrow> X = {}"
    "goes_lower rng \<Longrightarrow> X = beyond offers rng (base_at dbc (sr_depth (lower_range rng)) lower)"
    unfolding X_def by (rule beyond_X) (simp_all add: beyond_def)
  obtain kvs where kvs: "Seek_items B lower (lower_range rng) = Inr kvs" "in_order rng kvs"
      "set kvs = matching rng (content_at dbc (sr_depth (lower_range rng)) lower) \<union>
         beyond offers rng (base_at dbc (sr_depth (lower_range rng)) lower)"
    using Seek_items_content [OF wf(2,3)] by (auto simp: in_order_def matching_def)
  have c: "content_at dbc (sr_depth rng) (MemCached s priv lower) = overlay (changes s) c"
    "beyond offers rng (base_at dbc (sr_depth rng) (MemCached s priv lower)) = X"
    by (simp_all add: c_def X_def goes_lower_def lower_range_def)
  have sends: "for_each (cutting rng cutPrefix send) items ([], got) =
      ([], got @ map (\<lambda>(k, v). (cut_key cutPrefix (length (sr_prefix rng)) k, v)) items)" for items got
    by (induction items arbitrary: got) (auto simp: cutting_def send_def)
  have quiet: "quiet (\<lambda>u. fst u = []) poll send" by (auto simp: quiet_def send_def)
  show ?thesis
  proof (rule Seek_layer [of s rng "Seek_items B lower" "if goes_lower rng then kvs else []" c X
        "\<lambda>u. fst u = []" poll send "([], [])" cutPrefix])
    fix memRes items
    assume "prepareSeekMemSnapshot s rng = Inr memRes" "in_order rng items"
      "set items = matching rng (overlay (changes s) c) \<union> X"
      and "performSeek poll (Seek_items B lower) memRes rng cutPrefix send ([], []) =
           Inr (for_each (cutting rng cutPrefix send) items ([], []))"
    then show ?thesis by (auto simp: sends c simp del: content_at.simps base_at.simps)
  qed (use wf kvs assms(2,3) quiet X in \<open>auto simp: c_def\<close>)
qed

end

end
