(* ===== verification/Storage_Db.thy ===== *)
theory Storage_Db
  imports Storage_Spec
begin

text \<open>
  The LevelDB store of \<^verbatim>\<open>src/pkg/core/storage/leveldb_store.go\<close> and the ranges that \<^verbatim>\<open>store.go\<close> makes for databases.
  The library \<^verbatim>\<open>goleveldb\<close> is a parameter, and the locale \<open>leveldb_lib\<close> holds what it documents. On such a
  library the store is a backend, and the keys it offers to a seek are worked out: backwards, it offers
  all keys that extend the given start, which the stores in memory do not.
\<close>

section \<open>Ranges of keys\<close>

text \<open>\<^verbatim>\<open>util.Range\<close>: from a key on, and below a limit unless it is nil.\<close>

record key_range =
  kr_Start :: bytes
  kr_Limit :: "bytes option"

definition in_range :: "key_range \<Rightarrow> bytes \<Rightarrow> bool" where
  "in_range r k \<longleftrightarrow> kr_Start r \<le> k \<and> (case kr_Limit r of None \<Rightarrow> True | Some l \<Rightarrow> k < l)"

text \<open>\<^verbatim>\<open>util.BytesPrefix\<close> of the library is the argument.\<close>

definition seekRangeToPrefixes :: "(bytes \<Rightarrow> key_range) \<Rightarrow> seek_range \<Rightarrow> key_range" where
  "seekRangeToPrefixes BytesPrefix sr =
    (let start = sr_prefix sr @ sr_start sr in
     if \<not> sr_backwards sr then (BytesPrefix (sr_prefix sr))\<lparr>kr_Start := start\<rparr>
     else (BytesPrefix start)\<lparr>kr_Start := sr_prefix sr\<rparr>)"

section \<open>The store\<close>

datatype leveldb_err = LErrNotFound | LErrOther string

text \<open>
  What the store calls of the library: a transaction is a value of its own, and \<open>ldb_Iterate\<close> lists what an iterator
  over a range meets on its way from the first entry to the last.
\<close>

record ('d, 'tx) leveldb =
  ldb_BytesPrefix :: "bytes \<Rightarrow> key_range"
  ldb_Get :: "'d \<Rightarrow> bytes \<Rightarrow> leveldb_err + bytes"
  ldb_Iterate :: "'d \<Rightarrow> key_range \<Rightarrow> (bytes \<times> bytes) list"
  ldb_OpenTransaction :: "'d \<Rightarrow> string + 'tx"
  ldb_Put :: "'tx \<Rightarrow> bytes \<Rightarrow> bytes \<Rightarrow> string option \<times> 'tx"
  ldb_Delete :: "'tx \<Rightarrow> bytes \<Rightarrow> string option \<times> 'tx"
  ldb_Discard :: "'tx \<Rightarrow> 'd"
  ldb_Commit :: "'tx \<Rightarrow> string option \<times> 'd"
  ldb_Close :: "'d \<Rightarrow> string option \<times> 'd"

definition LevelDBStore_Get :: "('d, 'tx) leveldb \<Rightarrow> 'd \<Rightarrow> bytes \<Rightarrow> store_err + bytes" where
  "LevelDBStore_Get L d key = (case ldb_Get L d key of
     Inr v \<Rightarrow> Inr v
   | Inl LErrNotFound \<Rightarrow> Inl ErrKeyNotFound
   | Inl (LErrOther e) \<Rightarrow> Inl (ErrStore e))"

text \<open>The loop over the changes, which ends at the first error.\<close>

fun put_changes :: "('d, 'tx) leveldb \<Rightarrow> (bytes \<times> bytes option) list \<Rightarrow> 'tx \<Rightarrow> string option \<times> 'tx" where
  "put_changes L [] tx = (None, tx)"
| "put_changes L ((k, v) # kvs) tx =
    (case (case v of Some b \<Rightarrow> ldb_Put L tx k b | None \<Rightarrow> ldb_Delete L tx k) of
       (None, tx) \<Rightarrow> put_changes L kvs tx
     | (Some e, tx) \<Rightarrow> (Some e, tx))"

definition LevelDBStore_PutChangeSet ::
  "('d, 'tx) leveldb \<Rightarrow> 'd \<Rightarrow> kvmap \<Rightarrow> kvmap \<Rightarrow> store_err option \<times> 'd" where
  "LevelDBStore_PutChangeSet L d puts stores = (case ldb_OpenTransaction L d of
     Inl e \<Rightarrow> (Some (ErrStore e), d)
   | Inr tx \<Rightarrow> (case put_changes L (entries puts @ entries stores) tx of
       (Some e, tx) \<Rightarrow> (Some (ErrStore e), ldb_Discard L tx)
     | (None, tx) \<Rightarrow> (case ldb_Commit L tx of (e, d) \<Rightarrow> (map_option ErrStore e, d))))"

text \<open>The method \<^verbatim>\<open>seek\<close>: from the first entry with \<^verbatim>\<open>Next\<close>, or from the last one with \<^verbatim>\<open>Prev\<close>.\<close>

definition LevelDBStore_seek :: "(bytes \<times> bytes) list \<Rightarrow> bool \<Rightarrow> 's callback \<Rightarrow> 's \<Rightarrow> 's" where
  "LevelDBStore_seek iter backwards f u = for_each f (if backwards then rev iter else iter) u"

definition LevelDBStore_Seek :: "('d, 'tx) leveldb \<Rightarrow> 'd \<Rightarrow> seek_range \<Rightarrow> 's callback \<Rightarrow> 's \<Rightarrow> 's" where
  "LevelDBStore_Seek L d rng f u =
     LevelDBStore_seek (ldb_Iterate L d (seekRangeToPrefixes (ldb_BytesPrefix L) rng)) (sr_backwards rng) f u"

definition LevelDBStore_Close :: "('d, 'tx) leveldb \<Rightarrow> 'd \<Rightarrow> store_err option \<times> 'd" where
  "LevelDBStore_Close L d = (case ldb_Close L d of (e, d) \<Rightarrow> (map_option ErrStore e, d))"

definition leveldb_backend :: "('d, 'tx) leveldb \<Rightarrow> 'd backend" where
  "leveldb_backend L = \<lparr>be_get = LevelDBStore_Get L,
     be_put = (\<lambda>d puts stores. Some (LevelDBStore_PutChangeSet L d puts stores)),
     be_seek = (\<lambda>d rng. Inr (LevelDBStore_Seek L d rng collect [])),
     be_close = LevelDBStore_Close L\<rparr>"

section \<open>The keys of a range\<close>

lemma append_le_same [simp]: "(p @ a :: bytes) \<le> p @ b \<longleftrightarrow> a \<le> b"
  by (induction p) auto

lemma append_le_self [simp]: "(p @ a :: bytes) \<le> p \<longleftrightarrow> a = []"
  using append_le_same [of p a "[]"] by simp

lemma append_ge [simp]: "(p :: bytes) \<le> p @ a"
  using append_le_same [of p "[]" a] by simp

lemma between_prefix: "p \<le> k \<Longrightarrow> k \<le> p @ s \<Longrightarrow> has_prefix k p" for p k :: bytes
proof (induction p arbitrary: k)
  case (Cons b p)
  then obtain c l where k: "k = c # l" by (cases k) auto
  with Cons have "c = b" "has_prefix l p" by auto
  with k show ?case by (simp add: has_prefix_def)
qed simp

text \<open>The keys that a database offers: backwards, those that extend the start are among them.\<close>

definition range_keys :: "seek_range \<Rightarrow> bytes \<Rightarrow> bool" where
  "range_keys rng k \<longleftrightarrow> isKeyOK rng k \<or> (sr_backwards rng \<and> has_prefix k (sr_prefix rng @ sr_start rng))"

lemma isKeyOK_iff: "isKeyOK rng k \<longleftrightarrow> has_prefix k (sr_prefix rng) \<and> (sr_start rng = [] \<or>
    (if sr_backwards rng then k \<le> sr_prefix rng @ sr_start rng else sr_prefix rng @ sr_start rng \<le> k))"
proof -
  have "k \<le> sr_prefix rng @ sr_start rng \<longleftrightarrow> t \<le> sr_start rng" "sr_prefix rng @ sr_start rng \<le> k \<longleftrightarrow> sr_start rng \<le> t"
    if "k = sr_prefix rng @ t" for t using that by simp_all
  then show ?thesis by (auto simp: isKeyOK_def has_prefix_iff bytes_compare_def not_less)
qed

lemma range_keys_extra:
  "range_keys rng k \<and> \<not> isKeyOK rng k \<longleftrightarrow> sr_backwards rng \<and> sr_start rng \<noteq> [] \<and>
     has_prefix k (sr_prefix rng @ sr_start rng) \<and> k \<noteq> sr_prefix rng @ sr_start rng"
  by (auto simp: range_keys_def isKeyOK_iff has_prefix_iff)

lemma in_range_seek:
  assumes "\<And>p k. in_range (BP p) k \<longleftrightarrow> has_prefix k p"
  shows "in_range (seekRangeToPrefixes BP rng) k \<longleftrightarrow> range_keys rng k"
proof -
  let ?p = "sr_prefix rng" and ?s = "sr_prefix rng @ sr_start rng"
  define below where "below p k \<longleftrightarrow> (case kr_Limit (BP p) of None \<Rightarrow> True | Some l \<Rightarrow> k < l)" for p k
  have BP: "kr_Start (BP p) \<le> k \<and> below p k \<longleftrightarrow> has_prefix k p" for p k
    using assms [of p k] by (simp add: in_range_def below_def)
  then have start: "kr_Start (BP p) \<le> p" "below p p" for p
    using has_prefix_append [of p "[]"] by force+
  have down: "k \<le> k' \<Longrightarrow> below p k' \<Longrightarrow> below p k" for p k k'
    by (auto simp: below_def split: option.splits)
  show ?thesis
  proof (cases "sr_backwards rng")
    case False
    have "?s \<le> k \<and> below ?p k \<longleftrightarrow> has_prefix k ?p \<and> ?s \<le> k"
      using BP [of ?p k] start(1) [of ?p] append_ge [of ?p "sr_start rng"] by (metis order.trans)
    with False show ?thesis
      by (auto simp: seekRangeToPrefixes_def in_range_def below_def range_keys_def isKeyOK_iff Let_def has_prefix_iff)
  next
    case True
    have "?p \<le> k \<and> below ?s k \<longleftrightarrow> has_prefix k ?p \<and> (k \<le> ?s \<or> has_prefix k ?s)"
    proof
      assume k: "?p \<le> k \<and> below ?s k"
      show "has_prefix k ?p \<and> (k \<le> ?s \<or> has_prefix k ?s)"
      proof (cases "k \<le> ?s")
        case True
        with k between_prefix show ?thesis by blast
      next
        case False
        then have "kr_Start (BP ?s) \<le> k" using start(1) [of ?s] by simp
        with k BP have "has_prefix k ?s" by blast
        then show ?thesis by (auto simp: has_prefix_iff)
      qed
    next
      assume k: "has_prefix k ?p \<and> (k \<le> ?s \<or> has_prefix k ?s)"
      then have "below ?s k" using down [OF _ start(2)] BP by blast
      with k show "?p \<le> k \<and> below ?s k" by (auto simp: has_prefix_iff)
    qed
    with True show ?thesis
      by (auto simp: seekRangeToPrefixes_def in_range_def below_def range_keys_def isKeyOK_iff Let_def has_prefix_iff)
  qed
qed

section \<open>The contract of the library\<close>

text \<open>
  In a state satisfying \<open>dbi\<close> a database stands for the map \<open>dbc\<close>, and a transaction for the map it was opened on and the map
  with its changes. \<^verbatim>\<open>BytesPrefix\<close> gives the range of the keys with a prefix; an iterator meets the entries of its range in
  order; \<^verbatim>\<open>Commit\<close> makes all changes or, on error, none, and \<^verbatim>\<open>Discard\<close> drops them.
\<close>

locale leveldb_lib =
  fixes L :: "('d, 'tx) leveldb" and dbc :: "'d \<Rightarrow> (bytes \<rightharpoonup> bytes)" and dbi :: "'d \<Rightarrow> bool"
    and txold :: "'tx \<Rightarrow> (bytes \<rightharpoonup> bytes)" and txnew :: "'tx \<Rightarrow> (bytes \<rightharpoonup> bytes)" and txi :: "'tx \<Rightarrow> bool"
  assumes lib_prefix: "in_range (ldb_BytesPrefix L p) k \<longleftrightarrow> has_prefix k p"
    and lib_get: "dbi d \<Longrightarrow> ldb_Get L d k = (case dbc d k of None \<Rightarrow> Inl LErrNotFound | Some v \<Rightarrow> Inr v)"
    and lib_iterate: "dbi d \<Longrightarrow> sorted_wrt (\<lambda>a b. fst a < fst b) (ldb_Iterate L d r) \<and>
      set (ldb_Iterate L d r) = {(k, v). dbc d k = Some v \<and> in_range r k}"
    and lib_open: "dbi d \<Longrightarrow> ldb_OpenTransaction L d = Inr tx \<Longrightarrow> txi tx \<and> txold tx = dbc d \<and> txnew tx = dbc d"
    and lib_put: "txi tx \<Longrightarrow> ldb_Put L tx k b = (e, tx') \<Longrightarrow>
      txi tx' \<and> txold tx' = txold tx \<and> (e = None \<longrightarrow> txnew tx' = (txnew tx)(k \<mapsto> b))"
    and lib_delete: "txi tx \<Longrightarrow> ldb_Delete L tx k = (e, tx') \<Longrightarrow>
      txi tx' \<and> txold tx' = txold tx \<and> (e = None \<longrightarrow> txnew tx' = (txnew tx)(k := None))"
    and lib_discard: "txi tx \<Longrightarrow> dbi (ldb_Discard L tx) \<and> dbc (ldb_Discard L tx) = txold tx"
    and lib_commit: "txi tx \<Longrightarrow> ldb_Commit L tx = (e, d) \<Longrightarrow>
      dbi d \<and> dbc d = (if e = None then txnew tx else txold tx)"
begin

lemma put_changes_correct:
  "txi tx \<Longrightarrow> put_changes L kvs tx = (e, tx') \<Longrightarrow>
    txi tx' \<and> txold tx' = txold tx \<and> (e = None \<longrightarrow> txnew tx' = overlay (map_of (rev kvs)) (txnew tx))"
proof (induction kvs arbitrary: tx)
  case (Cons kv kvs)
  obtain k v where kv: "kv = (k, v)" by (cases kv)
  obtain e1 tx1 where one: "(case v of Some b \<Rightarrow> ldb_Put L tx k b | None \<Rightarrow> ldb_Delete L tx k) = (e1, tx1)" by fastforce
  then have tx1: "txi tx1 \<and> txold tx1 = txold tx \<and> (e1 = None \<longrightarrow> txnew tx1 = (txnew tx)(k := v))"
    using lib_put [OF Cons.prems(1)] lib_delete [OF Cons.prems(1)] by (cases v) auto
  show ?case
  proof (cases e1)
    case None
    have "overlay (map_of (rev kvs)) ((txnew tx)(k := v)) = overlay (map_of (rev (kv # kvs))) (txnew tx)"
      by (auto simp: kv overlay_def fun_eq_iff map_add_def split: option.splits)
    with None Cons.IH [of tx1] Cons.prems(2) one tx1 kv show ?thesis by (auto simp del: fun_upd_apply)
  next
    case (Some err)
    with Cons.prems(2) one tx1 kv show ?thesis by auto
  qed
qed (auto simp: overlay_def)

lemma PutChangeSet_correct:
  assumes d: "dbi d" and ch: "wf_changes puts stores" and put: "LevelDBStore_PutChangeSet L d puts stores = (e, d')"
  shows "dbi d' \<and> dbc d' = (if e = None then overlay (map_of (entries puts @ entries stores)) (dbc d) else dbc d)"
proof (cases "ldb_OpenTransaction L d")
  case (Inl err)
  with put d show ?thesis by (auto simp: LevelDBStore_PutChangeSet_def)
next
  case (Inr tx)
  note o = lib_open [OF d Inr]
  obtain e1 tx1 where one: "put_changes L (entries puts @ entries stores) tx = (e1, tx1)" by fastforce
  have keys: "is_stor k = Some False" if "k \<in> fst ` set (entries puts)" for k using that ch by (auto simp: wf_changes_def)
  have keys': "is_stor k = Some True" if "k \<in> fst ` set (entries stores)" for k using that ch by (auto simp: wf_changes_def)
  have "wf_gomap (entries puts @ entries stores)" using ch keys keys' by (force simp: wf_changes_def wf_gomap_def)
  then have "map_of (rev (entries puts @ entries stores)) = map_of (entries puts @ entries stores)" by (rule map_of_rev_wf)
  with put_changes_correct [OF conjunct1 [OF o] one] o have tx1: "txi tx1" "txold tx1 = dbc d"
    "e1 = None \<Longrightarrow> txnew tx1 = overlay (map_of (entries puts @ entries stores)) (dbc d)" by auto
  with put Inr one lib_discard [OF tx1(1)] lib_commit [OF tx1(1)] show ?thesis
    by (auto simp: LevelDBStore_PutChangeSet_def split: option.splits prod.splits)
qed

lemma Seek_correct:
  assumes "dbi d"
  shows "in_order rng (LevelDBStore_Seek L d rng collect [])"
    and "set (LevelDBStore_Seek L d rng collect []) = {(k, v). dbc d k = Some v \<and> range_keys rng k}"
  using lib_iterate [OF assms, of "seekRangeToPrefixes (ldb_BytesPrefix L) rng"]
  by (auto simp: LevelDBStore_Seek_def LevelDBStore_seek_def in_order_def sorted_wrt_rev less_key_iff in_range_seek [OF lib_prefix])

end

text \<open>On such a library the store is a backend.\<close>

sublocale leveldb_lib \<subseteq> level: kv_seek "leveldb_backend L" dbc dbi range_keys
proof
  fix d and k and puts stores and rng
  assume d: "dbi d"
  show "be_get (leveldb_backend L) d k = (case dbc d k of None \<Rightarrow> Inl ErrKeyNotFound | Some v \<Rightarrow> Inr v)"
    using lib_get [OF d, of k] by (simp add: leveldb_backend_def LevelDBStore_Get_def split: option.split)
  show "\<exists>e d'. be_put (leveldb_backend L) d puts stores = Some (e, d') \<and> dbi d' \<and>
      dbc d' = (if e = None then overlay (map_of (entries puts @ entries stores)) (dbc d) else dbc d)" if "wf_changes puts stores"
    using PutChangeSet_correct [OF d that] by (cases "LevelDBStore_PutChangeSet L d puts stores") (simp add: leveldb_backend_def)
  show "\<exists>kvs. be_seek (leveldb_backend L) d rng = Inr kvs \<and> in_order rng kvs \<and>
      set kvs = {(k, v). dbc d k = Some v \<and> range_keys rng k}"
    using Seek_correct [OF d] by (simp add: leveldb_backend_def)
qed (auto simp: range_keys_def isKeyOK_def has_prefix_iff fun_eq_iff)

context leveldb_lib
begin

text \<open>Seeking through cached layers over the database.\<close>

lemma Store_Seek_level:
  assumes "wf_store dbi st" and "sr_prefix rng \<noteq> []"
  shows "\<exists>items. Store_Seek (leveldb_backend L) st rng f u = Inr (for_each f items u) \<and> in_order rng items \<and>
    set items = matching rng (content_at dbc (sr_depth rng) st) \<union>
      {(k, v). base_at dbc (sr_depth rng) st k = Some v \<and> sr_backwards rng \<and> sr_start rng \<noteq> [] \<and>
         has_prefix k (sr_prefix rng @ sr_start rng) \<and> k \<noteq> sr_prefix rng @ sr_start rng}"
  using level.Store_Seek_content [OF assms, of f u] unfolding beyond_def range_keys_extra .

end

section \<open>A library\<close>

text \<open>
  A library that satisfies the contract: the database is a list of entries, sorted when it is iterated over; a transaction
  is a pair of the database it was opened on and the changed one; the limit of the keys with a prefix is the
  prefix with its last byte below 255 raised by one.
\<close>

fun bump :: "bytes \<Rightarrow> bytes option" where
  "bump [] = None"
| "bump (b # bs) = (case bump bs of Some l \<Rightarrow> Some (b # l) | None \<Rightarrow> if b < 255 then Some [b + 1] else None)"

definition list_leveldb :: "((bytes, bytes) gomap, (bytes, bytes) gomap \<times> (bytes, bytes) gomap) leveldb" where
  "list_leveldb = \<lparr>ldb_BytesPrefix = (\<lambda>p. \<lparr>kr_Start = p, kr_Limit = bump p\<rparr>),
     ldb_Get = (\<lambda>d k. case map_of d k of None \<Rightarrow> Inl LErrNotFound | Some v \<Rightarrow> Inr v),
     ldb_Iterate = (\<lambda>d r. sort_by (\<lambda>a b. fst a < fst b) (filter (\<lambda>kv. in_range r (fst kv)) d)),
     ldb_OpenTransaction = (\<lambda>d. Inr (d, d)),
     ldb_Put = (\<lambda>(d, d') k v. (None, (d, AList.update k v d'))),
     ldb_Delete = (\<lambda>(d, d') k. (None, (d, AList.delete k d'))),
     ldb_Discard = fst, ldb_Commit = (\<lambda>(d, d'). (None, d')), ldb_Close = (\<lambda>d. (None, d))\<rparr>"

lemma byte_succ: "b < 255 \<Longrightarrow> c < b + 1 \<longleftrightarrow> c \<le> b" "\<not> b < 255 \<Longrightarrow> \<not> b < c" for b c :: byte
proof -
  show "c < b + 1 \<longleftrightarrow> c \<le> b" if "b < 255"
  proof -
    have "unat (b + 1) = unat b + 1" using that by (simp add: word_less_nat_alt unat_word_ariths)
    then show ?thesis by (simp add: word_less_nat_alt word_le_nat_alt less_Suc_eq_le)
  qed
  show "\<not> b < c" if "\<not> b < 255"
  proof -
    have "unat c \<le> 255" using unat_byte_less [of c] by linarith
    with that show ?thesis by (simp add: word_less_nat_alt)
  qed
qed

lemma bump_range: "in_range \<lparr>kr_Start = p, kr_Limit = bump p\<rparr> k \<longleftrightarrow> has_prefix k p"
proof (induction p arbitrary: k)
  case (Cons b p)
  show ?case
  proof (cases k)
    case (Cons c l)
    with Cons.IH [of l] byte_succ [of b c] show ?thesis
      by (cases "bump p") (auto simp: in_range_def has_prefix_def)
  qed (simp add: in_range_def has_prefix_def)
qed (simp add: in_range_def)

lemma list_entries:
  assumes "wf_gomap d"
  shows "sorted_wrt (\<lambda>a b. fst a < fst b) (ldb_Iterate list_leveldb d r)"
    and "set (ldb_Iterate list_leveldb d r) = {(k, v). map_of d k = Some v \<and> in_range r k}"
proof -
  let ?xs = "filter (\<lambda>kv. in_range r (fst kv)) d"
  have "distinct (map fst ?xs)" using assms by (simp add: wf_gomap_def distinct_map_filter)
  then have "sorted_wrt (\<lambda>a b. fst a < fst b) (sort_by (\<lambda>a b. fst a < fst b) ?xs)"
    by (intro sort_by_sorted) (auto simp: transp_def distinct_map inj_on_def neq_iff)
  then show "sorted_wrt (\<lambda>a b. fst a < fst b) (ldb_Iterate list_leveldb d r)" by (simp add: list_leveldb_def)
  show "set (ldb_Iterate list_leveldb d r) = {(k, v). map_of d k = Some v \<and> in_range r k}"
    using wf_gomap_mem [OF assms] by (auto simp: list_leveldb_def)
qed

interpretation listed: leveldb_lib list_leveldb map_of wf_gomap "\<lambda>tx. map_of (fst tx)" "\<lambda>tx. map_of (snd tx)"
  "\<lambda>tx. wf_gomap (fst tx) \<and> wf_gomap (snd tx)"
  using bump_range list_entries by unfold_locales (auto simp: list_leveldb_def)

end
