(* ===== verification/Storage_Api.thy ===== *)
theory Storage_Api
  imports Storage_Db
begin

text \<open>
  The properties of the layered storage: its operations refine those of a map, seeking through
  any number of layers lists the matching entries in order, flushing to the database
  interleaved with clients is invisible to them, and what a successful flush leaves in the
  lower store is the whole content.
\<close>

section \<open>Clients and a flush, interleaved\<close>

datatype client_op = ClientPut bytes "bytes option" | ClientChangeSet kvmap kvmap

datatype flush_phase = Idle | Flushing | Written "store_err option"

fun op_ok :: "client_op \<Rightarrow> bool" where
  "op_ok (ClientPut k v) = (k \<noteq> [])"
| "op_ok (ClientChangeSet puts stores) = wf_changes puts stores"

fun apply_op :: "client_op \<Rightarrow> (bytes \<rightharpoonup> bytes) \<Rightarrow> (bytes \<rightharpoonup> bytes)" where
  "apply_op (ClientPut k v) c = c(k := v)"
| "apply_op (ClientChangeSet puts stores) c = overlay (map_of (entries puts @ entries stores)) c"

fun client_step :: "client_op \<Rightarrow> 'db store \<Rightarrow> store_err + 'db store" where
  "client_step (ClientPut k v) st = MemCachedStore_Put st k v"
| "client_step (ClientChangeSet puts stores) st = MemCachedStore_PutChangeSet st puts stores"

text \<open>
  The critical sections of a shared store as steps: a client's write in any phase of a flush,
  and the three sections of \<^verbatim>\<open>persist\<close>, of which one at a time is under way (\<^verbatim>\<open>plock\<close>).
\<close>

inductive store_run ::
  "'db backend \<Rightarrow> 'db store \<Rightarrow> client_op list \<Rightarrow> flush_phase \<Rightarrow> 'db store \<Rightarrow> bool" for B st0 where
  start: "store_run B st0 [] Idle st0"
| client: "store_run B st0 ops ph st \<Longrightarrow> op_ok oper \<Longrightarrow> client_step oper st = Inr st' \<Longrightarrow>
    store_run B st0 (ops @ [oper]) ph st'"
| flush_begin: "store_run B st0 ops Idle st \<Longrightarrow> store_run B st0 ops Flushing (persist_begin st)"
| flush_write: "store_run B st0 ops Flushing st \<Longrightarrow> persist_write B st = Some (e, st') \<Longrightarrow>
    store_run B st0 ops (Written e) st'"
| flush_end: "store_run B st0 ops (Written e) st \<Longrightarrow> persist_end e st = Some st' \<Longrightarrow>
    store_run B st0 ops Idle st'"

fun phase_ok :: "('db \<Rightarrow> (bytes \<rightharpoonup> bytes)) \<Rightarrow> flush_phase \<Rightarrow> 'db store \<Rightarrow> bool" where
  "phase_ok dbc Idle (MemCached s p lower) = True"
| "phase_ok dbc Flushing (MemCached s p (MemCached t q lower)) = True"
| "phase_ok dbc (Written e) (MemCached s p (MemCached t q lower)) =
     (e = None \<longrightarrow> overlay (changes t) (content dbc lower) = content dbc lower)"
| "phase_ok dbc ph st = False"

lemma phase_ok_layers:
  "phase_ok dbc ph st \<Longrightarrow> \<exists>s p lower. st = MemCached s p lower \<and>
     (ph \<noteq> Idle \<longrightarrow> (\<exists>t q low. lower = MemCached t q low))"
  by (induction dbc ph st rule: phase_ok.induct) auto

lemma phase_ok_top: "phase_ok dbc ph (MemCached s p lower) = phase_ok dbc ph (MemCached s' p lower)"
  by (cases ph; cases lower) auto

lemma wf_changes_wf_ms: "wf_ms s \<Longrightarrow> wf_changes (ms_mem s) (ms_stor s)"
  by (simp add: wf_ms_def)

text \<open>
  A flush with the writes that clients make while it is under way: before the lower store takes the change set, and after. (That the
  lower store takes it is one step, as it touches nothing above the temporary layer.)
\<close>

fun clients :: "client_op list \<Rightarrow> 'db store \<Rightarrow> store_err + 'db store" where
  "clients [] st = Inr st"
| "clients (oper # ops) st = (case client_step oper st of Inl e \<Rightarrow> Inl e | Inr st' \<Rightarrow> clients ops st')"

fun persist_among ::
  "'db backend \<Rightarrow> client_op list \<Rightarrow> client_op list \<Rightarrow> 'db store \<Rightarrow> ((nat \<times> store_err option) \<times> 'db store) option" where
  "persist_among B ops1 ops2 (MemCached s private lower) =
    (let keys = key_count s in
     if keys = 0 then (case clients (ops1 @ ops2) (MemCached s private lower) of
         Inl _ \<Rightarrow> None | Inr st \<Rightarrow> Some ((0, None), st))
     else case clients ops1 (persist_begin (MemCached s private lower)) of
       Inl _ \<Rightarrow> None
     | Inr st \<Rightarrow> (case persist_write B st of
         None \<Rightarrow> None
       | Some (e, st) \<Rightarrow> (case clients ops2 st of
           Inl _ \<Rightarrow> None
         | Inr st \<Rightarrow> map_option (\<lambda>st. ((keys, e), st)) (persist_end e st))))"
| "persist_among B ops1 ops2 st = None"

context kv_backend
begin

lemma client_step_correct:
  assumes "wf_store dbi (MemCached s p lower)" and "op_ok oper"
  obtains s' where "client_step oper (MemCached s p lower) = Inr (MemCached s' p lower)"
    and "wf_ms s'"
    and "\<And>c. overlay (changes s') c = apply_op oper (overlay (changes s) c)"
proof (cases oper)
  case (ClientPut k v)
  with assms obtain s' where s': "put_key s k v = Inr s'" "wf_ms s'" "changes s' = (changes s)(k \<mapsto> v)"
    using put_key_correct [of s k v] by auto
  then have "overlay (changes s') c = apply_op oper (overlay (changes s) c)" for c
    by (auto simp: ClientPut overlay_def fun_eq_iff)
  with s' ClientPut that show ?thesis by auto
next
  case (ClientChangeSet puts stores)
  with assms obtain s' where "putChangeSet s puts stores = Inr s'" "wf_ms s'"
      "changes s' = changes s ++ map_of (entries puts @ entries stores)"
    using putChangeSet_correct [of s puts stores] by auto
  with ClientChangeSet that show ?thesis by (auto simp: overlay_overlay)
qed

lemma persist_write_correct:
  assumes "wf_store dbi (MemCached s p (MemCached t q lower))"
  obtains e lower' where
    "persist_write B (MemCached s p (MemCached t q lower)) = Some (e, MemCached s p (MemCached t q lower'))"
    and "wf_store dbi lower'"
    and "content dbc lower' = (if e = None then overlay (changes t) (content dbc lower) else content dbc lower)"
proof -
  from assms have "wf_store dbi lower" "wf_changes (ms_mem t) (ms_stor t)"
    by (auto simp: wf_ms_def)
  then obtain e st' where "Store_PutChangeSet B lower (ms_mem t) (ms_stor t) = Some (e, st')" "wf_store dbi st'"
      "content dbc st' = (if e = None then overlay (map_of (entries (ms_mem t) @ entries (ms_stor t))) (content dbc lower)
         else content dbc lower)"
    by (rule Store_PutChangeSet_content)
  with that show ?thesis by (auto simp: changes_def)
qed

lemma persist_end_correct:
  assumes "wf_store dbi (MemCached s p (MemCached t q lower))"
    and "e = None \<Longrightarrow> overlay (changes t) (content dbc lower) = content dbc lower"
  obtains s' where "persist_end e (MemCached s p (MemCached t q lower)) = Some (MemCached s' p lower)"
    and "wf_ms s'"
    and "overlay (changes s') (content dbc lower) = overlay (changes s) (overlay (changes t) (content dbc lower))"
proof (cases e)
  case None
  with assms that show ?thesis by auto
next
  case (Some err)
  from assms have "wf_ms t" "wf_changes (ms_mem s) (ms_stor s)" by (auto simp: wf_ms_def)
  then obtain s' where "putChangeSet t (ms_mem s) (ms_stor s) = Inr s'" "wf_ms s'"
      "changes s' = changes t ++ map_of (entries (ms_mem s) @ entries (ms_stor s))"
    by (rule putChangeSet_correct)
  with Some that show ?thesis by (auto simp: overlay_overlay changes_def)
qed

lemma store_run_content:
  assumes "store_run B st0 ops ph st" and "wf_store dbi st0" and "phase_ok dbc Idle st0"
  shows "wf_store dbi st \<and> phase_ok dbc ph st \<and> content dbc st = fold apply_op ops (content dbc st0)"
  using assms
proof (induction rule: store_run.induct)
  case (client ops ph st oper st')
  then obtain s p lower where st: "st = MemCached s p lower"
    using phase_ok_layers by blast
  with client obtain s' where "client_step oper st = Inr (MemCached s' p lower)" "wf_ms s'"
      "overlay (changes s') (content dbc lower) = apply_op oper (overlay (changes s) (content dbc lower))"
    using client_step_correct [of s p lower oper] by metis
  with client st phase_ok_top [of dbc ph s p lower s'] show ?case by auto
next
  case (flush_begin ops st)
  then obtain s p lower where "st = MemCached s p lower"
    using phase_ok_layers by blast
  with flush_begin show ?case by auto
next
  case (flush_write ops st e st')
  then obtain s p t q lower where st: "st = MemCached s p (MemCached t q lower)"
    using phase_ok_layers by blast
  obtain e' lower' where "persist_write B st = Some (e', MemCached s p (MemCached t q lower'))"
      "wf_store dbi lower'"
      "content dbc lower' = (if e' = None then overlay (changes t) (content dbc lower) else content dbc lower)"
    using persist_write_correct [of s p t q lower] flush_write st by blast
  with flush_write st show ?case by (auto simp: overlay_absorb)
next
  case (flush_end ops e st st')
  then obtain s p t q lower where st: "st = MemCached s p (MemCached t q lower)"
    using phase_ok_layers by blast
  obtain s' where "persist_end e st = Some (MemCached s' p lower)" "wf_ms s'"
      "overlay (changes s') (content dbc lower) = overlay (changes s) (overlay (changes t) (content dbc lower))"
    using persist_end_correct [of s p t q lower e] flush_end st by auto
  with flush_end st show ?case by auto
qed simp

lemma clients_correct:
  assumes "wf_store dbi (MemCached s p lower)" and "list_all op_ok ops"
  shows "\<exists>s'. clients ops (MemCached s p lower) = Inr (MemCached s' p lower) \<and> wf_ms s' \<and>
    (\<forall>c. overlay (changes s') c = fold apply_op ops (overlay (changes s) c))"
  using assms
proof (induction ops arbitrary: s)
  case (Cons oper ops)
  obtain s1 where s1: "client_step oper (MemCached s p lower) = Inr (MemCached s1 p lower)" "wf_ms s1"
      "\<And>c. overlay (changes s1) c = apply_op oper (overlay (changes s) c)"
    using client_step_correct [OF Cons.prems(1), of oper] Cons.prems(2) by auto
  with Cons.IH [of s1] Cons.prems show ?case by auto
qed simp

text \<open>No section of a flush panics or gets stuck, whatever the clients do meanwhile.\<close>

lemma persist_among_correct:
  assumes "wf_store dbi (MemCached s False lower)" and "list_all op_ok ops1" and "list_all op_ok ops2"
  shows "\<exists>e s' lower'. persist_among B ops1 ops2 (MemCached s False lower) = Some ((key_count s, e), MemCached s' False lower') \<and>
     wf_store dbi (MemCached s' False lower') \<and>
     content dbc (MemCached s' False lower') = fold apply_op (ops1 @ ops2) (content dbc (MemCached s False lower)) \<and>
     content dbc lower' = (if e = None then content dbc (MemCached s False lower) else content dbc lower)"
proof (cases "key_count s = 0")
  case True
  then have none: "changes s = Map.empty" by (simp add: key_count_def changes_def)
  obtain s' where "clients (ops1 @ ops2) (MemCached s False lower) = Inr (MemCached s' False lower)" "wf_ms s'"
      "\<forall>c. overlay (changes s') c = fold apply_op (ops1 @ ops2) (overlay (changes s) c)"
    using clients_correct [OF assms(1), of "ops1 @ ops2"] assms(2,3) by auto
  with True none assms(1) show ?thesis by (intro exI [of _ None] exI [of _ s'] exI [of _ lower]) simp
next
  case False
  let ?new = "\<lparr>ms_mem = Some [], ms_stor = Some []\<rparr>" and ?C = "content dbc (MemCached s False lower)"
  have wf0: "wf_store dbi (MemCached ?new False (MemCached s False lower))" using assms(1) by simp
  obtain s1 where s1: "clients ops1 (MemCached ?new False (MemCached s False lower)) = Inr (MemCached s1 False (MemCached s False lower))"
      "wf_ms s1" "\<And>c. overlay (changes s1) c = fold apply_op ops1 c"
    using clients_correct [OF wf0 assms(2)] by auto
  with assms(1) have wf1: "wf_store dbi (MemCached s1 False (MemCached s False lower))" by simp
  obtain e lower' where w: "persist_write B (MemCached s1 False (MemCached s False lower)) =
        Some (e, MemCached s1 False (MemCached s False lower'))" "wf_store dbi lower'"
      "content dbc lower' = (if e = None then overlay (changes s) (content dbc lower) else content dbc lower)"
    using persist_write_correct [OF wf1] by blast
  then have wf2: "wf_store dbi (MemCached s1 False (MemCached s False lower'))"
    and same: "overlay (changes s) (content dbc lower') = ?C" using wf1 by (auto simp: overlay_absorb)
  obtain s2 where s2: "clients ops2 (MemCached s1 False (MemCached s False lower')) = Inr (MemCached s2 False (MemCached s False lower'))"
      "wf_ms s2" "\<And>c. overlay (changes s2) c = fold apply_op ops2 (overlay (changes s1) c)"
    using clients_correct [OF wf2 assms(3)] by auto
  have wf3: "wf_store dbi (MemCached s2 False (MemCached s False lower'))" using wf2 s2(2) by simp
  have "e = None \<Longrightarrow> overlay (changes s) (content dbc lower') = content dbc lower'" using w(3) by (simp add: overlay_absorb)
  then obtain s' where s': "persist_end e (MemCached s2 False (MemCached s False lower')) = Some (MemCached s' False lower')"
      "wf_ms s'" "overlay (changes s') (content dbc lower') = overlay (changes s2) (overlay (changes s) (content dbc lower'))"
    using persist_end_correct [OF wf3, of e] by blast
  have "persist_among B ops1 ops2 (MemCached s False lower) = Some ((key_count s, e), MemCached s' False lower')"
    using False s1(1) w(1) s2(1) s'(1) by simp
  moreover have "content dbc (MemCached s' False lower') = fold apply_op (ops1 @ ops2) ?C"
    using s'(3) s2(3) s1(3) same by simp
  ultimately show ?thesis using w(2,3) s'(2) by auto
qed

lemma persist_correct:
  assumes "wf_store dbi (MemCached s p lower)"
  shows "\<exists>n e s' lower'. persist B (MemCached s p lower) = Some ((n, e), MemCached s' p lower') \<and>
     wf_store dbi lower' \<and> content dbc (MemCached s' p lower') = content dbc (MemCached s p lower) \<and>
     (e = None \<longrightarrow> n = key_count s \<and> content dbc lower' = content dbc (MemCached s p lower)) \<and>
     (\<not> p \<longrightarrow> wf_ms s')"
proof -
  have wf: "wf_ms s" "wf_store dbi lower" "wf_changes (ms_mem s) (ms_stor s)"
    using assms by (auto simp: wf_ms_def)
  have none: "changes s = Map.empty" if "key_count s = 0"
    using that by (simp add: key_count_def changes_def)
  have closed: "overlay (changes \<lparr>ms_mem = None, ms_stor = None\<rparr>) c = c" for c
    by (simp add: changes_def entries_def overlay_def fun_eq_iff)
  consider (nothing) "key_count s = 0" | (priv) "key_count s \<noteq> 0" p | (shared) "key_count s \<noteq> 0" "\<not> p" by blast
  then show ?thesis
  proof cases
    case nothing
    with wf none show ?thesis by simp
  next
    case priv
    obtain e st' where put: "Store_PutChangeSet B lower (ms_mem s) (ms_stor s) = Some (e, st')" "wf_store dbi st'"
      "content dbc st' = (if e = None then overlay (map_of (entries (ms_mem s) @ entries (ms_stor s))) (content dbc lower)
         else content dbc lower)"
      using Store_PutChangeSet_content [OF wf(2,3)] by blast
    with priv closed show ?thesis
      by (cases e) (simp_all add: changes_def [of s])
  next
    case shared
    let ?st = "MemCached \<lparr>ms_mem = Some [], ms_stor = Some []\<rparr> p (MemCached s False lower)"
    have wf': "wf_store dbi ?st" using assms by simp
    obtain e lower' where w: "persist_write B ?st =
        Some (e, MemCached \<lparr>ms_mem = Some [], ms_stor = Some []\<rparr> p (MemCached s False lower'))"
      "wf_store dbi lower'"
      "content dbc lower' = (if e = None then overlay (changes s) (content dbc lower) else content dbc lower)"
      using persist_write_correct [OF wf'] by blast
    have "wf_store dbi (MemCached \<lparr>ms_mem = Some [], ms_stor = Some []\<rparr> p (MemCached s False lower'))"
      "e = None \<Longrightarrow> overlay (changes s) (content dbc lower') = content dbc lower'"
      using w wf by (auto simp: overlay_absorb)
    then obtain s' where "persist_end e (MemCached \<lparr>ms_mem = Some [], ms_stor = Some []\<rparr> p (MemCached s False lower')) =
        Some (MemCached s' p lower')" "wf_ms s'"
        "overlay (changes s') (content dbc lower') = overlay (changes s) (content dbc lower')"
      using persist_end_correct [of "\<lparr>ms_mem = Some [], ms_stor = Some []\<rparr>" p s False lower' e] by auto
    with w shared show ?thesis
      by (simp add: Let_def overlay_absorb split: if_splits)
  qed
qed

end

section \<open>Properties\<close>

text \<open>A store for the witnesses: a cache over an in-memory database.\<close>

definition ex_db :: memory_store where
  "ex_db = \<lparr>ms_mem = Some [], ms_stor = Some [([0x70, 2], Some [9]), ([0x70, 3], Some [1])]\<rparr>"

definition ex_cache :: memory_store where
  "ex_cache = \<lparr>ms_mem = Some [], ms_stor = Some [([0x70, 3], None), ([0x70, 1], Some [7])]\<rparr>"

lemma ex_wf: "wf_store wf_ms (MemCached ex_cache p (DB ex_db))"
  by (simp add: ex_cache_def ex_db_def wf_ms_def wf_changes_def entries_def wf_gomap_def is_stor_def
      STStorage_def STTempStorage_def)

text \<open>
  C13. The operations of a cached store refine those of a map, whatever the layers and the
  database below: \<^verbatim>\<open>Get\<close> is the lookup and reports \<^verbatim>\<open>ErrKeyNotFound\<close> exactly on absent keys,
  \<^verbatim>\<open>Put\<close> and \<^verbatim>\<open>Delete\<close> are the update and the removal of one key, \<^verbatim>\<open>PutChangeSet\<close> applies its
  whole change set, and all of them keep the store well-formed.
\<close>

theorem store_refines_map:
  assumes "kv_backend B dbc dbi" and "wf_store dbi (MemCached s p lower)" and "k \<noteq> []"
    and "wf_changes puts stores"
  shows "Store_Get B (MemCached s p lower) k =
      (case content dbc (MemCached s p lower) k of None \<Rightarrow> Inl ErrKeyNotFound | Some v \<Rightarrow> Inr v) \<and>
    (\<exists>st'. MemCachedStore_Put (MemCached s p lower) k v = Inr st' \<and> wf_store dbi st' \<and>
      content dbc st' = (content dbc (MemCached s p lower))(k := v)) \<and>
    (\<exists>st'. MemCachedStore_Delete (MemCached s p lower) k = Inr st' \<and> wf_store dbi st' \<and>
      content dbc st' = (content dbc (MemCached s p lower))(k := None)) \<and>
    (\<exists>st'. MemCachedStore_PutChangeSet (MemCached s p lower) puts stores = Inr st' \<and> wf_store dbi st' \<and>
      content dbc st' = overlay (map_of (entries puts @ entries stores)) (content dbc (MemCached s p lower)))"
proof -
  have step: "\<exists>st'. client_step oper (MemCached s p lower) = Inr st' \<and> wf_store dbi st' \<and>
      content dbc st' = apply_op oper (content dbc (MemCached s p lower))" if "op_ok oper" for oper
    using kv_backend.client_step_correct [OF assms(1,2) that] assms(2)
    by (metis content.simps(3) wf_store.simps(3))
  show ?thesis
    using kv_backend.Store_Get_content [OF assms(1-3)] step [of "ClientPut k v"] step [of "ClientPut k None"]
      step [of "ClientChangeSet puts stores"] assms(3,4)
    by (simp del: content.simps wf_store.simps)
qed

theorem store_refines_map_witness:
  "Store_Get memory_backend (MemCached ex_cache False (DB ex_db)) [0x70, 2] = Inr [9] \<and>
   (\<exists>st'. MemCachedStore_Delete (MemCached ex_cache False (DB ex_db)) [0x70, 2] = Inr st' \<and>
     content (\<lambda>s. overlay (changes s) Map.empty) st' [0x70, 2] = None)"
proof -
  have "wf_changes None None" by (simp add: wf_changes_def entries_def)
  note t = store_refines_map [OF memory.kv_backend_axioms ex_wf [of False] _ this, of "[0x70, 2]" None]
  have "content (\<lambda>s. overlay (changes s) Map.empty) (MemCached ex_cache False (DB ex_db)) [0x70, 2] = Some [9]"
    by (simp add: overlay_def changes_def ex_cache_def ex_db_def entries_def)
  with t show ?thesis
    by (simp del: content.simps wf_store.simps Store_Get.simps MemCachedStore_Delete.simps) (metis fun_upd_same)
qed

text \<open>
  C14. \<^verbatim>\<open>Seek\<close> over a LevelDB database calls its callback on the entries of the store that have the prefix and lie
  beyond the start, each key once, in ascending or descending order, until the callback stops it: through every
  cached layer within the search depth, deleted keys hidden by the layers above. A backwards seek from a non-empty
  start offers besides, when it gets down to the database, the entries there whose keys properly extend the start,
  and those as the database has them, whatever the layers above say about these keys.
\<close>

theorem Store_Seek_correct:
  assumes "leveldb_lib L dbc dbi txold txnew txi" and "wf_store dbi st" and "sr_prefix rng \<noteq> []"
  shows "\<exists>items. Store_Seek (leveldb_backend L) st rng f u = Inr (for_each f items u) \<and>
    sorted_wrt (\<lambda>a b. if sr_backwards rng then fst b < fst a else fst a < fst b) items \<and>
    set items = {(k, v). content_at dbc (sr_depth rng) st k = Some v \<and> isKeyOK rng k} \<union>
      {(k, v). base_at dbc (sr_depth rng) st k = Some v \<and> sr_backwards rng \<and> sr_start rng \<noteq> [] \<and>
         has_prefix k (sr_prefix rng @ sr_start rng) \<and> k \<noteq> sr_prefix rng @ sr_start rng}"
  using leveldb_lib.Store_Seek_level [OF assms, of f u] unfolding in_order_def less_key_iff matching_def .

text \<open>A cached layer over a LevelDB database, for the witness.\<close>

definition ex_level :: "(bytes, bytes) gomap store" where
  "ex_level = MemCached \<lparr>ms_mem = Some [([0x73, 5, 1], None), ([0x73, 4, 1], Some [8])], ms_stor = Some []\<rparr> False
     (DB [([0x73, 3, 1], [7]), ([0x73, 5, 1], [9]), ([0x73, 6, 1], [6])])"

theorem Store_Seek_correct_witness:
  "\<exists>items. Store_Seek (leveldb_backend list_leveldb) ex_level
      \<lparr>sr_prefix = [0x73], sr_start = [5], sr_backwards = True, sr_depth = 0\<rparr> collect [] = Inr (for_each collect items []) \<and>
    set items = {([0x73, 3, 1], [7]), ([0x73, 4, 1], [8]), ([0x73, 5, 1], [9])}"
proof -
  let ?rng = "\<lparr>sr_prefix = [0x73], sr_start = [5], sr_backwards = True, sr_depth = 0\<rparr>"
  have wf: "wf_store wf_gomap ex_level"
    by (simp add: ex_level_def wf_ms_def wf_changes_def entries_def wf_gomap_def is_stor_def STStorage_def STTempStorage_def)
  have "{(k, v). content_at map_of (sr_depth ?rng) ex_level k = Some v \<and> isKeyOK ?rng k} = {([0x73, 3, 1], [7]), ([0x73, 4, 1], [8])}"
    by (auto simp: overlay_def changes_def ex_level_def entries_def isKeyOK_def has_prefix_def bytes_compare_def split: if_splits)
  moreover have "{(k, v). base_at map_of (sr_depth ?rng) ex_level k = Some v \<and> sr_backwards ?rng \<and> sr_start ?rng \<noteq> [] \<and>
      has_prefix k (sr_prefix ?rng @ sr_start ?rng) \<and> k \<noteq> sr_prefix ?rng @ sr_start ?rng} = {([0x73, 5, 1], [9])}"
    by (auto simp: ex_level_def has_prefix_def split: if_splits)
  ultimately show ?thesis
    using Store_Seek_correct [OF listed.leveldb_lib_axioms wf, of ?rng collect "[]"] by auto
qed

text \<open>
  So the layers disagree on a deleted entry whose key extends the start: the cached store deletes it and does not find it,
  and a backwards seek still offers it, while over a database in memory it does not. The logs of token
  transfers are sought in this way, from a timestamp that the keys extend by an index.
\<close>

theorem Seek_backwards_stale:
  "Store_Get (leveldb_backend list_leveldb) ex_level [0x73, 5, 1] = Inl ErrKeyNotFound \<and>
   Store_Seek (leveldb_backend list_leveldb) ex_level
      \<lparr>sr_prefix = [0x73], sr_start = [5], sr_backwards = True, sr_depth = 0\<rparr> collect [] =
     Inr [([0x73, 5, 1], [9]), ([0x73, 4, 1], [8]), ([0x73, 3, 1], [7])] \<and>
   Store_Seek memory_backend (MemCached \<lparr>ms_mem = Some [], ms_stor = Some []\<rparr> False
       (DB \<lparr>ms_mem = Some [([0x73, 3, 1], Some [7]), ([0x73, 5, 1], Some [9])], ms_stor = Some []\<rparr>))
      \<lparr>sr_prefix = [0x73], sr_start = [5], sr_backwards = True, sr_depth = 0\<rparr> collect [] = Inr [([0x73, 3, 1], [7])]"
  unfolding ex_level_def by code_simp

text \<open>
  C15. Flushing a shared store to the database is invisible to its clients: however their
  writes interleave with the critical sections of \<^verbatim>\<open>persist\<close>, and whether the database takes
  the change set or fails, the store always holds exactly what the clients have written.
\<close>

theorem persist_invisible:
  assumes "kv_backend B dbc dbi" and "wf_store dbi (MemCached s False lower)"
    and "store_run B (MemCached s False lower) ops ph st"
  shows "content dbc st = fold apply_op ops (content dbc (MemCached s False lower)) \<and> wf_store dbi st"
  using kv_backend.store_run_content [OF assms(1,3,2)] by simp

theorem persist_invisible_witness:
  "\<exists>st. store_run memory_backend (MemCached ex_cache False (DB ex_db)) [ClientPut [0x70, 2] None] Flushing st \<and>
    content (\<lambda>s. overlay (changes s) Map.empty) st [0x70, 2] = None"
proof -
  let ?st = "MemCached ex_cache False (DB ex_db)"
  have "\<exists>st. store_run memory_backend ?st [ClientPut [0x70, 2] None] Flushing st"
    by (rule exI, rule store_run.client [where ops = "[]", simplified],
        rule store_run.flush_begin, rule store_run.start)
      (simp_all add: put_key_def chooseMap_def is_stor_def STStorage_def STTempStorage_def put_def setMap_def)
  then obtain st where st: "store_run memory_backend ?st [ClientPut [0x70, 2] None] Flushing st" by blast
  from persist_invisible [OF memory.kv_backend_axioms ex_wf this] st show ?thesis by auto
qed

text \<open>
  C16. A flush of a shared store comes to its end whatever its clients write meanwhile: begun in any well-formed state, with any
  writes before and after the lower store takes the change set, no client's write is refused, no critical section panics, and the
  flush ends with the number of keys it set out to flush. Then the store holds exactly what the clients
  had written to it in that order; the lower store holds what the store held when the flush began,
  the later writes not among it, or is as it was when it failed.
\<close>

theorem persist_progress:
  assumes "kv_backend B dbc dbi" and "wf_store dbi (MemCached s False lower)" and "list_all op_ok ops1" and "list_all op_ok ops2"
  shows "\<exists>e s' lower'. persist_among B ops1 ops2 (MemCached s False lower) = Some ((key_count s, e), MemCached s' False lower') \<and>
     wf_store dbi (MemCached s' False lower') \<and>
     content dbc (MemCached s' False lower') = fold apply_op (ops1 @ ops2) (content dbc (MemCached s False lower)) \<and>
     content dbc lower' = (if e = None then content dbc (MemCached s False lower) else content dbc lower)"
  by (rule kv_backend.persist_among_correct [OF assms])

theorem persist_progress_witness:
  "\<exists>e s' lower'. persist_among memory_backend [ClientPut [0x70, 2] None] [ClientPut [0x70, 5] (Some [4])]
      (MemCached ex_cache False (DB ex_db)) = Some ((2, e), MemCached s' False lower') \<and>
    content (\<lambda>s. overlay (changes s) Map.empty) (MemCached s' False lower') [0x70, 2] = None \<and>
    content (\<lambda>s. overlay (changes s) Map.empty) (MemCached s' False lower') [0x70, 5] = Some [4]"
proof -
  have "key_count ex_cache = 2" by (simp add: key_count_def ex_cache_def entries_def)
  with persist_progress [OF memory.kv_backend_axioms ex_wf, of "[ClientPut [0x70, 2] None]" "[ClientPut [0x70, 5] (Some [4])]"]
  obtain e s' lower' where "persist_among memory_backend [ClientPut [0x70, 2] None] [ClientPut [0x70, 5] (Some [4])]
      (MemCached ex_cache False (DB ex_db)) = Some ((2, e), MemCached s' False lower')"
    and c: "content (\<lambda>s. overlay (changes s) Map.empty) (MemCached s' False lower') =
      fold apply_op [ClientPut [0x70, 2] None, ClientPut [0x70, 5] (Some [4])] (content (\<lambda>s. overlay (changes s) Map.empty) (MemCached ex_cache False (DB ex_db)))"
    by (auto simp del: content.simps persist_among.simps)
  then show ?thesis by (intro exI [of _ e] exI [of _ s'] exI [of _ lower'] conjI) (simp_all del: content.simps persist_among.simps)
qed

text \<open>
  C17. A flush that succeeds leaves in the lower store everything the cached store held and
  reports the number of keys it flushed; a flush that fails, or has nothing to do, loses
  nothing; and the cached store reads the same before and after in every case.
\<close>

theorem persist_durable:
  assumes "kv_backend B dbc dbi" and "wf_store dbi (MemCached s p lower)"
  shows "\<exists>n e s' lower'. Persist B (MemCached s p lower) = Some ((n, e), MemCached s' p lower') \<and>
    wf_store dbi lower' \<and> content dbc (MemCached s' p lower') = content dbc (MemCached s p lower) \<and>
    (e = None \<longrightarrow> n = key_count s \<and> content dbc lower' = content dbc (MemCached s p lower))"
  using kv_backend.persist_correct [OF assms] unfolding Persist_def by blast

theorem persist_durable_witness:
  "\<exists>n e s' lower'. Persist memory_backend (MemCached ex_cache True (DB ex_db)) = Some ((n, e), MemCached s' True lower') \<and>
    content (\<lambda>s. overlay (changes s) Map.empty) (MemCached s' True lower') [0x70, 1] = Some [7]"
proof -
  have "content (\<lambda>s. overlay (changes s) Map.empty) (MemCached ex_cache True (DB ex_db)) [0x70, 1] = Some [7]"
    by (simp add: overlay_def changes_def ex_cache_def ex_db_def entries_def)
  with persist_durable [OF memory.kv_backend_axioms ex_wf [of True]] show ?thesis by metis
qed

text \<open>
  \<^verbatim>\<open>SeekAsync\<close> that cuts the prefix off the keys delivers the matching entries with their
  keys cut, in order, provided that no cached key repeats the prefix right after it.
\<close>

theorem SeekAsync_cut_correct:
  assumes "kv_seek B dbc dbi offers" and "wf_store dbi (MemCached s p lower)" and "sr_prefix rng \<noteq> []"
    and "\<forall>k\<in>dom (changes s). \<not> has_prefix k (sr_prefix rng @ sr_prefix rng)"
  shows "\<exists>items. SeekAsync B [] (MemCached s p lower) rng True =
       Inr (map (\<lambda>(k, v). (drop (length (sr_prefix rng)) k, v)) items) \<and> in_order rng items \<and>
     set items = {(k, v). content_at dbc (sr_depth rng) (MemCached s p lower) k = Some v \<and> isKeyOK rng k} \<union>
       beyond offers rng (base_at dbc (sr_depth rng) (MemCached s p lower))"
  using kv_seek.SeekAsync_content [OF assms(1-3), of True] assms(4)
  by (simp add: cut_key_def matching_def)

theorem SeekAsync_cut_correct_witness:
  "\<exists>items. SeekAsync memory_backend [] (MemCached ex_cache False (DB ex_db))
      \<lparr>sr_prefix = [0x70], sr_start = [], sr_backwards = False, sr_depth = 0\<rparr> True =
    Inr (map (\<lambda>(k, v). (drop 1 k, v)) items)"
proof -
  have "\<forall>k\<in>dom (changes ex_cache). \<not> has_prefix k ([0x70] @ [0x70])"
    by (auto simp: changes_def ex_cache_def entries_def has_prefix_def split: if_splits)
  then show ?thesis
    using SeekAsync_cut_correct [OF memory.kv_seek_axioms ex_wf [of False],
      of "\<lparr>sr_prefix = [0x70], sr_start = [], sr_backwards = False, sr_depth = 0\<rparr>"]
    by (auto simp del: SeekAsync.simps)
qed

text \<open>
  Without that proviso an entry can get lost: with the cached key \<open>70 70 71\<close> and the
  persisted key \<open>70 71\<close> behind it, cutting the cached key in place makes it look like the
  persisted one, which \<^verbatim>\<open>performSeek\<close> then takes for shadowed and skips.
\<close>

theorem SeekAsync_cut_loses_entry:
  "SeekAsync memory_backend [] (MemCached \<lparr>ms_mem = Some [], ms_stor = Some [([0x70, 0x70, 0x71], Some [1])]\<rparr> False
      (DB \<lparr>ms_mem = Some [], ms_stor = Some [([0x70, 0x71], Some [2])]\<rparr>))
    \<lparr>sr_prefix = [0x70], sr_start = [], sr_backwards = False, sr_depth = 0\<rparr> False =
   Inr [([0x70, 0x70, 0x71], [1]), ([0x70, 0x71], [2])] \<and>
   SeekAsync memory_backend [] (MemCached \<lparr>ms_mem = Some [], ms_stor = Some [([0x70, 0x70, 0x71], Some [1])]\<rparr> False
      (DB \<lparr>ms_mem = Some [], ms_stor = Some [([0x70, 0x71], Some [2])]\<rparr>))
    \<lparr>sr_prefix = [0x70], sr_start = [], sr_backwards = False, sr_depth = 0\<rparr> True =
   Inr [([0x70, 0x71], [1])]"
  by code_simp

end
