(* ===== verification/Keys.thy ===== *)
theory Keys
  imports Merkle
begin

text \<open>
  \<^verbatim>\<open>src/pkg/util/uint160.go\<close> and \<^verbatim>\<open>src/pkg/crypto/keys/publickey.go\<close>: 160-bit hashes and
  elliptic-curve public keys, their binary forms and the decompression of points.
\<close>

section \<open>Uint160\<close>

definition Uint160_BytesBE :: "uint160 \<Rightarrow> bytes" where
  "Uint160_BytesBE u = be_bytes 20 (unat u)"

definition Uint160_BytesLE :: "uint160 \<Rightarrow> bytes" where
  "Uint160_BytesLE u = rev (Uint160_BytesBE u)"

definition Uint160DecodeBytesBE :: "bytes \<Rightarrow> uint160 option" where
  "Uint160DecodeBytesBE b = (if length b \<noteq> Uint160Size then None else Some (word_of_nat (be_nat b)))"

definition Uint160DecodeBytesLE :: "bytes \<Rightarrow> uint160 option" where
  "Uint160DecodeBytesLE b = (if length b \<noteq> Uint160Size then None else Some (word_of_nat (be_nat (rev b))))"

definition Uint160_EncodeBinary :: "uint160 \<Rightarrow> bin_writer \<Rightarrow> bin_writer" where
  "Uint160_EncodeBinary u bw = WriteBytes (Uint160_BytesBE u) bw"

text \<open>\<^verbatim>\<open>br.ReadBytes(u[:])\<close>: reading into the array \<open>u\<close>, which a failed reader leaves alone.\<close>

definition Uint160_DecodeBinary :: "uint160 \<Rightarrow> bin_reader \<Rightarrow> uint160 \<times> bin_reader" where
  "Uint160_DecodeBinary u br = (let (b, br) = ReadBytes (Uint160_BytesBE u) br in (word_of_nat (be_nat b), br))"

lemma length_Uint160_BytesBE [simp]: "length (Uint160_BytesBE u) = 20"
  by (simp add: Uint160_BytesBE_def)

lemma Uint160_of_BytesBE [simp]: "(word_of_nat (be_nat (Uint160_BytesBE u)) :: uint160) = u"
proof -
  have "unat u < 256 ^ 20" using unat_less_2p [of u] by (simp add: power_mult [symmetric])
  then show ?thesis by (simp add: Uint160_BytesBE_def be_nat_be_bytes)
qed

interpretation uint160_codec: codec Uint160_EncodeBinary "Uint160_DecodeBinary 0" Uint160_BytesBE "\<lambda>_. True"
  by unfold_locales (simp_all add: Uint160_EncodeBinary_def Uint160_DecodeBinary_def)

lemma Uint160_decode_BytesBE [simp]: "Uint160DecodeBytesBE (Uint160_BytesBE u) = Some u"
  by (simp add: Uint160DecodeBytesBE_def Uint160Size_def)

section \<open>Curves and points\<close>

text \<open>
  A short Weierstrass curve: whether it is the Koblitz curve (coefficient 0 instead of -3), the
  order of its field and its coefficient. \<open>P256\<close> is \<^verbatim>\<open>elliptic.P256()\<close>.
\<close>

record curve =
  cv_koblitz :: bool
  cv_P :: nat
  cv_B :: nat

definition P256 :: curve where
  "P256 = \<lparr>cv_koblitz = False,
     cv_P = 0xffffffff00000001000000000000000000000000ffffffffffffffffffffffff,
     cv_B = 0x5ac635d8aa3a93e7b3ebbd55769886bc651d06b0cc53b0f63bce3c3e27d2604b\<rparr>"

datatype public_key = Infinity | Point nat nat

definition coordLen :: nat where
  "coordLen = 32"

text \<open>\<^verbatim>\<open>big.Int.Exp(x, e, m)\<close>, by repeated squaring.\<close>

fun exp_mod :: "nat \<Rightarrow> nat \<Rightarrow> nat \<Rightarrow> nat" where
  "exp_mod x e m = (if e = 0 then 1 mod m
     else let h = exp_mod x (e div 2) m; s = h * h mod m in
       if e mod 2 = 1 then s * x mod m else s)"

declare exp_mod.simps [simp del]

lemma exp_mod_eq: "exp_mod x e m = x ^ e mod m"
proof (induction x e m rule: exp_mod.induct)
  case (1 x e m)
  show ?case
  proof (cases "e = 0")
    case False
    then have IH: "exp_mod x (e div 2) m = x ^ (e div 2) mod m" using 1 by simp
    have sq: "(x ^ (e div 2) mod m) * (x ^ (e div 2) mod m) mod m = x ^ (2 * (e div 2)) mod m"
      by (simp add: mod_mult_eq flip: power_add mult_2)
    have "x ^ (2 * (e div 2) + e mod 2) = x ^ (2 * (e div 2)) * (if e mod 2 = 1 then x else 1)"
      by (cases "e mod 2 = 1") (simp_all add: power_add not_mod_2_eq_1_eq_0)
    then have "x ^ e = x ^ (2 * (e div 2)) * (if e mod 2 = 1 then x else 1)"
      by (simp only: mult_div_mod_eq)
    with IH sq False show ?thesis
      by (subst exp_mod.simps) (auto simp: Let_def mod_mult_left_eq)
  qed (simp add: exp_mod.simps)
qed

text \<open>
  \<^verbatim>\<open>big.Int.ModSqrt\<close> for a prime that is 3 modulo 4, as the orders of both curves' fields are:
  the power, if its square is the argument.
\<close>

definition ModSqrt :: "nat \<Rightarrow> nat \<Rightarrow> nat option" where
  "ModSqrt x p = (let r = exp_mod x ((p + 1) div 4) p in if r * r mod p = x mod p then Some r else None)"

definition y_squared :: "nat \<Rightarrow> curve \<Rightarrow> nat" where
  "y_squared x cv = (let p = cv_P cv; a = (if cv_koblitz cv then 0 else 3) in
     nat ((int (exp_mod x 3 p) - int (x * a mod p) + int (cv_B cv)) mod int p))"

definition decodeCompressedY :: "nat \<Rightarrow> nat \<Rightarrow> curve \<Rightarrow> nat option" where
  "decodeCompressedY x ylsb cv =
    (case ModSqrt (y_squared x cv) (cv_P cv) of
       None \<Rightarrow> None
     | Some y \<Rightarrow> Some (if y mod 2 \<noteq> ylsb then nat ((- int y) mod int (cv_P cv)) else y))"

text \<open>\<^verbatim>\<open>curve.IsOnCurve(x, y)\<close>\<close>

definition IsOnCurve :: "curve \<Rightarrow> nat \<Rightarrow> nat \<Rightarrow> bool" where
  "IsOnCurve cv x y \<longleftrightarrow> x < cv_P cv \<and> y < cv_P cv \<and> y * y mod cv_P cv = y_squared x cv"

section \<open>Binary form of a key\<close>

text \<open>\<^verbatim>\<open>elliptic.MarshalCompressed\<close> and \<^verbatim>\<open>elliptic.Marshal\<close> of a point.\<close>

fun getBytes :: "public_key \<Rightarrow> bool \<Rightarrow> bytes" where
  "getBytes Infinity compressed = [0x00]"
| "getBytes (Point x y) compressed =
    (if compressed then word_of_nat (2 + y mod 2) # be_bytes coordLen x
     else 0x04 # be_bytes coordLen x @ be_bytes coordLen y)"

definition Key_Bytes :: "public_key \<Rightarrow> bytes" where
  "Key_Bytes p = getBytes p True"

definition UncompressedBytes :: "public_key \<Rightarrow> bytes" where
  "UncompressedBytes p = getBytes p False"

definition Key_EncodeBinary :: "public_key \<Rightarrow> bin_writer \<Rightarrow> bin_writer" where
  "Key_EncodeBinary p w = WriteBytes (Key_Bytes p) w"

definition IsInfinity :: "public_key \<Rightarrow> bool" where
  "IsInfinity p \<longleftrightarrow> p = Infinity"

text \<open>The final check of \<^verbatim>\<open>DecodeBinary\<close> on a pair of coordinates.\<close>

definition check_coords :: "curve \<Rightarrow> nat \<Rightarrow> nat \<Rightarrow> bin_reader \<Rightarrow> public_key \<times> bin_reader" where
  "check_coords cv x y r = (if x \<ge> cv_P cv \<or> y \<ge> cv_P cv
     then (Infinity, r\<lparr>r_err := Some (ErrFormat ''encoded point is not correct'')\<rparr>)
     else (Point x y, r))"

definition Key_DecodeBinary :: "curve \<Rightarrow> bin_reader \<Rightarrow> public_key \<times> bin_reader" where
  "Key_DecodeBinary cv r =
    (let (prefix, r) = ReadB r in
     if r_err r \<noteq> None then (Infinity, r)
     else if prefix = 0x00 then (Infinity, r)
     else if prefix = 0x02 \<or> prefix = 0x03 then
       (let (xbytes, r) = ReadBytes (replicate coordLen 0) r in
        if r_err r \<noteq> None then (Infinity, r)
        else let x = be_nat xbytes; ylsb = unat (prefix AND 0x1) in
          case decodeCompressedY x ylsb cv of
            None \<Rightarrow> (Infinity, r\<lparr>r_err := Some (ErrFormat ''error computing Y for compressed point'')\<rparr>)
          | Some y \<Rightarrow> check_coords cv x y r)
     else if prefix = 0x04 then
       (let (xbytes, r) = ReadBytes (replicate coordLen 0) r;
            (ybytes, r) = ReadBytes (replicate coordLen 0) r in
        if r_err r \<noteq> None then (Infinity, r)
        else let x = be_nat xbytes; y = be_nat ybytes in
          if \<not> IsOnCurve cv x y
          then (Infinity, r\<lparr>r_err := Some (ErrFormat ''encoded point is not on the P256 curve'')\<rparr>)
          else check_coords cv x y r)
     else (Infinity, r\<lparr>r_err := Some (ErrFormat ''invalid prefix'')\<rparr>))"

definition Key_DecodeBytes :: "curve \<Rightarrow> bytes \<Rightarrow> io_error + public_key" where
  "Key_DecodeBytes cv data =
    (let (p, b) = Key_DecodeBinary cv (NewBinReaderFromBuf data) in
     case r_err b of
       Some e \<Rightarrow> Inl e
     | None \<Rightarrow> if Reader_Len b \<noteq> 0 then Inl (ErrFormat ''extra data'') else Inr p)"

fun Key_Cmp :: "public_key \<Rightarrow> public_key \<Rightarrow> int option" where
  "Key_Cmp (Point x y) (Point x' y') = Some (if x < x' then -1 else if x > x' then 1
     else if y < y' then -1 else if y > y' then 1 else 0)"
| "Key_Cmp _ _ = None"

fun Key_Equal :: "public_key \<Rightarrow> public_key \<Rightarrow> bool option" where
  "Key_Equal (Point x y) (Point x' y') = Some (x = x' \<and> y = y')"
| "Key_Equal _ _ = None"

section \<open>Correctness\<close>

lemma y_squared_less: "cv_P cv > 0 \<Longrightarrow> y_squared x cv < cv_P cv"
  by (simp add: y_squared_def Let_def nat_less_iff)

lemma neg_square_mod:
  fixes y p :: nat
  assumes "0 < p"
  shows "nat ((- int y) mod int p) * nat ((- int y) mod int p) mod p = y * y mod p"
proof -
  have "int (nat ((- int y) mod int p) * nat ((- int y) mod int p) mod p) =
      ((- int y) mod int p) * ((- int y) mod int p) mod int p"
    using assms by (simp add: zmod_int)
  also have "\<dots> = int (y * y mod p)" by (simp add: mod_mult_eq zmod_int)
  finally show ?thesis by (simp only: of_nat_eq_iff)
qed

lemma decodeCompressedY_on_curve:
  assumes "decodeCompressedY x b cv = Some y" and "0 < cv_P cv" and "x < cv_P cv"
  shows "IsOnCurve cv x y"
proof -
  from assms obtain r where r: "ModSqrt (y_squared x cv) (cv_P cv) = Some r"
    "y = (if r mod 2 \<noteq> b then nat ((- int r) mod int (cv_P cv)) else r)"
    by (auto simp: decodeCompressedY_def split: option.splits)
  then have sq: "r * r mod cv_P cv = y_squared x cv" and "r < cv_P cv"
    using assms(2) y_squared_less [OF assms(2), of x]
    by (auto simp: ModSqrt_def Let_def exp_mod_eq split: if_splits)
  moreover have "y * y mod cv_P cv = r * r mod cv_P cv" "y < cv_P cv"
    using r(2) neg_square_mod [OF assms(2), of r] \<open>r < cv_P cv\<close> assms(2)
    by (auto simp: nat_less_iff)
  ultimately show ?thesis using assms(3) by (simp add: IsOnCurve_def)
qed

text \<open>A key that decompression gives back: the infinite one, or a point with that Y.\<close>

fun valid_key :: "curve \<Rightarrow> public_key \<Rightarrow> bool" where
  "valid_key cv Infinity = True"
| "valid_key cv (Point x y) \<longleftrightarrow> x < cv_P cv \<and> y < cv_P cv \<and> cv_P cv \<le> 256 ^ coordLen \<and>
     decodeCompressedY x (y mod 2) cv = Some y"

lemma key_dec_out:
  assumes "valid_key cv p"
  shows "Key_DecodeBinary cv (reader_of (Key_Bytes p @ rest)) = (p, reader_of rest)"
proof (cases p)
  case Infinity
  then show ?thesis by (simp add: Key_DecodeBinary_def Key_Bytes_def)
next
  case (Point x y)
  with assms have x: "x < 256 ^ coordLen" and y: "decodeCompressedY x (y mod 2) cv = Some y"
    and P: "x < cv_P cv" "y < cv_P cv" by auto
  have bit: "(word_of_nat (2 + y mod 2) :: byte) = (if y mod 2 = 0 then 0x02 else 0x03)"
    by (cases "y mod 2 = 0") (auto simp: odd_iff_mod_2_eq_one [symmetric])
  have "unat ((word_of_nat (2 + y mod 2) :: byte) AND 1) = y mod 2"
    unfolding bit by (cases "y mod 2 = 0") auto
  moreover have "be_nat (be_bytes coordLen x) = x" using x by (simp add: be_nat_be_bytes)
  ultimately show ?thesis
    using Point P y bit by (auto simp: Key_DecodeBinary_def Key_Bytes_def check_coords_def Let_def)
qed

interpretation key_codec: codec Key_EncodeBinary "Key_DecodeBinary cv" Key_Bytes "valid_key cv" for cv
  by unfold_locales (simp_all add: Key_EncodeBinary_def key_dec_out)

lemma Key_DecodeBinary_on_curve:
  assumes "Key_DecodeBinary cv r = (p, r')" and "r_err r' = None" and "0 < cv_P cv"
  shows "p = Infinity \<or> (\<exists>x y. p = Point x y \<and> IsOnCurve cv x y)"
  using assms decodeCompressedY_on_curve [of _ _ cv]
  by (auto simp: Key_DecodeBinary_def check_coords_def Let_def not_le split: prod.splits if_splits option.splits)

end
