(* ===== verification/Transaction.thy ===== *)
theory Transaction
  imports Keys "HOL-Library.Signed_Division"
begin

text \<open>
  \<^verbatim>\<open>src/pkg/core/transaction\<close>: transactions with their attributes, signers, witnesses and witness
  conditions, their binary forms, the limits decoding enforces and the validity check.
\<close>

section \<open>Witness conditions and rules\<close>

datatype condition =
    ConditionBoolean bool
  | ConditionNot condition
  | ConditionAnd "condition list"
  | ConditionOr "condition list"
  | ConditionScriptHash uint160
  | ConditionGroup public_key
  | ConditionCalledByEntry
  | ConditionCalledByContract uint160
  | ConditionCalledByGroup public_key

definition MaxConditionNesting :: nat where "MaxConditionNesting = 2"
definition maxSubitems :: nat where "maxSubitems = 16"

fun Condition_Type :: "condition \<Rightarrow> byte" where
  "Condition_Type (ConditionBoolean b) = 0x00"
| "Condition_Type (ConditionNot c) = 0x01"
| "Condition_Type (ConditionAnd cs) = 0x02"
| "Condition_Type (ConditionOr cs) = 0x03"
| "Condition_Type (ConditionScriptHash h) = 0x18"
| "Condition_Type (ConditionGroup k) = 0x19"
| "Condition_Type ConditionCalledByEntry = 0x20"
| "Condition_Type (ConditionCalledByContract h) = 0x28"
| "Condition_Type (ConditionCalledByGroup k) = 0x29"

subsection \<open>Matching\<close>

text \<open>
  The methods of \<^verbatim>\<open>MatchContext\<close>, as the values they return for the current call: whether a
  script has a group is an error when the call may not read states, and the comparison of an
  infinite key panics.
\<close>

datatype match_err = ErrMissingReadStates | ErrNoSigners | MatchPanic

record match_context =
  mc_calling :: uint160
  mc_current :: uint160
  mc_callingHasGroup :: "public_key \<Rightarrow> match_err + bool"
  mc_currentHasGroup :: "public_key \<Rightarrow> match_err + bool"
  mc_calledByEntry :: bool

definition ConditionNot_Match :: "match_err + bool \<Rightarrow> match_err + bool" where
  "ConditionNot_Match inner = (case inner of Inl e \<Rightarrow> Inl e | Inr res \<Rightarrow> Inr (\<not> res))"

fun ConditionAnd_Match :: "(match_err + bool) list \<Rightarrow> match_err + bool" where
  "ConditionAnd_Match [] = Inr True"
| "ConditionAnd_Match (r # rs) = (case r of Inl e \<Rightarrow> Inl e
     | Inr res \<Rightarrow> if \<not> res then Inr False else ConditionAnd_Match rs)"

fun ConditionOr_Match :: "(match_err + bool) list \<Rightarrow> match_err + bool" where
  "ConditionOr_Match [] = Inr False"
| "ConditionOr_Match (r # rs) = (case r of Inl e \<Rightarrow> Inl e
     | Inr res \<Rightarrow> if res then Inr True else ConditionOr_Match rs)"

fun Match :: "match_context \<Rightarrow> condition \<Rightarrow> match_err + bool" where
  "Match ctx (ConditionBoolean b) = Inr b"
| "Match ctx (ConditionNot c) = ConditionNot_Match (Match ctx c)"
| "Match ctx (ConditionAnd cs) = ConditionAnd_Match (map (Match ctx) cs)"
| "Match ctx (ConditionOr cs) = ConditionOr_Match (map (Match ctx) cs)"
| "Match ctx (ConditionScriptHash h) = Inr (h = mc_current ctx)"
| "Match ctx (ConditionGroup k) = mc_currentHasGroup ctx k"
| "Match ctx ConditionCalledByEntry = Inr (mc_calledByEntry ctx)"
| "Match ctx (ConditionCalledByContract h) = Inr (h = mc_calling ctx)"
| "Match ctx (ConditionCalledByGroup k) = mc_callingHasGroup ctx k"

subsection \<open>Binary form\<close>

lemma write_elems_cong [fundef_cong]:
  "xs = ys \<Longrightarrow> (\<And>x w. x \<in> set ys \<Longrightarrow> f x w = g x w) \<Longrightarrow> w = w' \<Longrightarrow> write_elems f xs w = write_elems g ys w'"
  by (induction xs arbitrary: ys w w') auto

lemma WriteArray_cong [fundef_cong]:
  "xs = ys \<Longrightarrow> (\<And>x w. x \<in> set ys \<Longrightarrow> f x w = g x w) \<Longrightarrow> w = w' \<Longrightarrow> WriteArray f xs w = WriteArray g ys w'"
  unfolding WriteArray_def by (simp cong: write_elems_cong)

fun Condition_EncodeBinary :: "condition \<Rightarrow> bin_writer \<Rightarrow> bin_writer" where
  "Condition_EncodeBinary (ConditionBoolean b) w = WriteBool b (WriteB 0x00 w)"
| "Condition_EncodeBinary (ConditionNot c) w = Condition_EncodeBinary c (WriteB 0x01 w)"
| "Condition_EncodeBinary (ConditionAnd cs) w = WriteArray Condition_EncodeBinary cs (WriteB 0x02 w)"
| "Condition_EncodeBinary (ConditionOr cs) w = WriteArray Condition_EncodeBinary cs (WriteB 0x03 w)"
| "Condition_EncodeBinary (ConditionScriptHash h) w = WriteBytes (Uint160_BytesBE h) (WriteB 0x18 w)"
| "Condition_EncodeBinary (ConditionGroup k) w = Key_EncodeBinary k (WriteB 0x19 w)"
| "Condition_EncodeBinary ConditionCalledByEntry w = WriteB 0x20 w"
| "Condition_EncodeBinary (ConditionCalledByContract h) w = WriteBytes (Uint160_BytesBE h) (WriteB 0x28 w)"
| "Condition_EncodeBinary (ConditionCalledByGroup k) w = Key_EncodeBinary k (WriteB 0x29 w)"

text \<open>
  A decoded condition is \<open>None\<close> where the code returns nil, with the error in the reader. The
  error of an exceeded nesting is set even when the reader has failed already.
\<close>

definition fail_with :: "string \<Rightarrow> bin_reader \<Rightarrow> bin_reader" where
  "fail_with msg r = r\<lparr>r_err := Some (ErrFormat msg)\<rparr>"

definition readArrayOfConditions ::
  "(bin_reader \<Rightarrow> condition option \<times> bin_reader) \<Rightarrow> bin_reader \<Rightarrow> condition list option \<times> bin_reader" where
  "readArrayOfConditions decodeElem r =
    (let (l, r) = ReadVarUint r in
     if l = 0 then (None, fail_with ''empty array of conditions'' r)
     else if unat l > maxSubitems then (None, fail_with ''too many elements'' r)
     else let (a, r) = read_elems decodeElem (unat l) r in
       if r_err r \<noteq> None then (None, r) else (Some (map the a), r))"

fun decodeBinaryCondition :: "curve \<Rightarrow> nat \<Rightarrow> bin_reader \<Rightarrow> condition option \<times> bin_reader" where
  "decodeBinaryCondition cv 0 r = (None, fail_with ''too many nesting levels'' r)"
| "decodeBinaryCondition cv (Suc d) r =
    (let (t, r) = ReadB r in
     if r_err r \<noteq> None then (None, r)
     else let (res, r) =
       (if t = 0x00 then (let (b, r) = ReadBool r in (Some (ConditionBoolean b), r))
        else if t = 0x01 then (let (c, r) = decodeBinaryCondition cv d r in (map_option ConditionNot c, r))
        else if t = 0x02 then (let (cs, r) = readArrayOfConditions (decodeBinaryCondition cv d) r in (map_option ConditionAnd cs, r))
        else if t = 0x03 then (let (cs, r) = readArrayOfConditions (decodeBinaryCondition cv d) r in (map_option ConditionOr cs, r))
        else if t = 0x18 then (let (h, r) = Uint160_DecodeBinary 0 r in (Some (ConditionScriptHash h), r))
        else if t = 0x19 then (let (k, r) = Key_DecodeBinary cv r in (Some (ConditionGroup k), r))
        else if t = 0x20 then (Some ConditionCalledByEntry, r)
        else if t = 0x28 then (let (h, r) = Uint160_DecodeBinary 0 r in (Some (ConditionCalledByContract h), r))
        else if t = 0x29 then (let (k, r) = Key_DecodeBinary cv r in (Some (ConditionCalledByGroup k), r))
        else (None, fail_with ''invalid condition type'' r)) in
     if r_err r \<noteq> None then (None, r) else (res, r))"

definition DecodeBinaryCondition :: "curve \<Rightarrow> bin_reader \<Rightarrow> condition option \<times> bin_reader" where
  "DecodeBinaryCondition cv r = decodeBinaryCondition cv MaxConditionNesting r"

datatype witness_action = WitnessDeny | WitnessAllow

record witness_rule =
  wr_action :: witness_action
  wr_condition :: condition

definition action_byte :: "witness_action \<Rightarrow> byte" where
  "action_byte a = (case a of WitnessDeny \<Rightarrow> 0 | WitnessAllow \<Rightarrow> 1)"

definition Rule_EncodeBinary :: "witness_rule \<Rightarrow> bin_writer \<Rightarrow> bin_writer" where
  "Rule_EncodeBinary r bw = Condition_EncodeBinary (wr_condition r) (WriteB (action_byte (wr_action r)) bw)"

text \<open>A rule whose condition could not be decoded stands as the false one; the reader has failed.\<close>

definition Rule_DecodeBinary :: "curve \<Rightarrow> bin_reader \<Rightarrow> witness_rule \<times> bin_reader" where
  "Rule_DecodeBinary cv br =
    (let (a, br) = ReadB br in
     if r_err br = None \<and> a \<noteq> 0 \<and> a \<noteq> 1 then
       (\<lparr>wr_action = WitnessDeny, wr_condition = ConditionBoolean False\<rparr>, fail_with ''unknown witness rule action'' br)
     else let (c, br) = DecodeBinaryCondition cv br in
       (\<lparr>wr_action = (if a = 1 then WitnessAllow else WitnessDeny),
         wr_condition = (case c of None \<Rightarrow> ConditionBoolean False | Some c \<Rightarrow> c)\<rparr>, br))"

section \<open>Signers\<close>

definition ScopeNone :: byte where "ScopeNone = 0"
definition CalledByEntry :: byte where "CalledByEntry = 0x01"
definition CustomContracts :: byte where "CustomContracts = 0x10"
definition CustomGroups :: byte where "CustomGroups = 0x20"
definition Rules :: byte where "Rules = 0x40"
definition Global :: byte where "Global = 0x80"

definition ScopesFromByte :: "byte \<Rightarrow> byte option" where
  "ScopesFromByte res =
    (if res AND Global \<noteq> 0 \<and> res AND (ScopeNone OR CalledByEntry OR CustomContracts OR CustomGroups OR Rules) \<noteq> 0 then None
     else if res AND NOT (ScopeNone OR CalledByEntry OR CustomContracts OR CustomGroups OR Rules OR Global) \<noteq> 0 then None
     else Some res)"

record signer =
  sg_Account :: uint160
  sg_Scopes :: byte
  sg_AllowedContracts :: "uint160 list"
  sg_AllowedGroups :: "public_key list"
  sg_Rules :: "witness_rule list"

definition has_scope :: "byte \<Rightarrow> byte \<Rightarrow> bool" where
  "has_scope scopes s \<longleftrightarrow> scopes AND s \<noteq> 0"

definition Signer_EncodeBinary :: "signer \<Rightarrow> bin_writer \<Rightarrow> bin_writer" where
  "Signer_EncodeBinary c bw =
    (let bw = WriteB (sg_Scopes c) (WriteBytes (Uint160_BytesBE (sg_Account c)) bw);
         bw = (if has_scope (sg_Scopes c) CustomContracts then WriteArray Uint160_EncodeBinary (sg_AllowedContracts c) bw else bw);
         bw = (if has_scope (sg_Scopes c) CustomGroups then WriteArray Key_EncodeBinary (sg_AllowedGroups c) bw else bw)
     in if has_scope (sg_Scopes c) Rules then WriteArray Rule_EncodeBinary (sg_Rules c) bw else bw)"

definition Signer_DecodeBinary :: "curve \<Rightarrow> bin_reader \<Rightarrow> signer \<times> bin_reader" where
  "Signer_DecodeBinary cv br =
    (let (acc, br) = Uint160_DecodeBinary 0 br;
         (sc, br) = ReadB br;
         c = \<lparr>sg_Account = acc, sg_Scopes = sc, sg_AllowedContracts = [], sg_AllowedGroups = [], sg_Rules = []\<rparr> in
     if sc AND NOT (Global OR CalledByEntry OR CustomContracts OR CustomGroups OR Rules OR ScopeNone) \<noteq> 0
     then (c, fail_with ''unknown witness scope'' br)
     else if sc AND Global \<noteq> 0 \<and> sc \<noteq> Global
     then (c, fail_with ''global scope can not be combined with other scopes'' br)
     else
       let (cs, br) = (if has_scope sc CustomContracts then ReadArray (Uint160_DecodeBinary 0) maxSubitems [] br else ([], br));
           (gs, br) = (if has_scope sc CustomGroups then ReadArray (Key_DecodeBinary cv) maxSubitems [] br else ([], br));
           (rs, br) = (if has_scope sc Rules then ReadArray (Rule_DecodeBinary cv) maxSubitems [] br else ([], br))
       in (c\<lparr>sg_AllowedContracts := cs, sg_AllowedGroups := gs, sg_Rules := rs\<rparr>, br))"

section \<open>Attributes\<close>

definition HighPriority :: byte where "HighPriority = 1"
definition OracleResponseT :: byte where "OracleResponseT = 0x11"
definition NotValidBeforeT :: byte where "NotValidBeforeT = 0x20"
definition ConflictsT :: byte where "ConflictsT = 0x21"
definition NotaryAssistedT :: byte where "NotaryAssistedT = 0x22"
definition ReservedLowerBound :: byte where "ReservedLowerBound = 0xe0"
definition ReservedUpperBound :: byte where "ReservedUpperBound = 0xff"

definition MaxOracleResultSize :: nat where "MaxOracleResultSize = 65535"

lemmas attr_types = HighPriority_def OracleResponseT_def NotValidBeforeT_def ConflictsT_def
  NotaryAssistedT_def ReservedLowerBound_def ReservedUpperBound_def

definition allowMultiple :: "byte \<Rightarrow> bool" where
  "allowMultiple a \<longleftrightarrow> a = ConflictsT"

definition IsValidAttrType :: "bool \<Rightarrow> byte \<Rightarrow> bool" where
  "IsValidAttrType reservedAttributesEnabled attrType \<longleftrightarrow>
     attrType \<in> {HighPriority, OracleResponseT, NotValidBeforeT, ConflictsT, NotaryAssistedT} \<or>
     (reservedAttributesEnabled \<and> ReservedLowerBound \<le> attrType \<and> attrType \<le> ReservedUpperBound)"

datatype attr_value =
    OracleResponse uint64 byte bytes
  | NotValidBefore uint32
  | Conflicts uint256
  | NotaryAssisted byte
  | Reserved bytes

record attribute =
  at_Type :: byte
  at_Value :: "attr_value option"

definition response_codes :: "byte list" where
  "response_codes = [0x00, 0x10, 0x12, 0x14, 0x16, 0x18, 0x1a, 0x1c, 0x1f, 0xff]"

definition Code_IsValid :: "byte \<Rightarrow> bool" where
  "Code_IsValid c \<longleftrightarrow> c \<in> set response_codes"

definition OracleResponse_DecodeBinary :: "bin_reader \<Rightarrow> attr_value \<times> bin_reader" where
  "OracleResponse_DecodeBinary br =
    (let (i, br) = ReadU64LE br; (code, br) = ReadB br in
     if \<not> Code_IsValid code then (OracleResponse i code [], fail_with ''invalid oracle response code'' br)
     else let (res, br) = ReadVarBytes MaxOracleResultSize br in
       (OracleResponse i code res,
        if code \<noteq> 0 \<and> length res > 0 then fail_with ''oracle response != success, but result is not empty'' br else br))"

definition Attribute_DecodeBinary :: "bin_reader \<Rightarrow> attribute \<times> bin_reader" where
  "Attribute_DecodeBinary br =
    (let (t, br) = ReadB br in
     if t = HighPriority then (\<lparr>at_Type = t, at_Value = None\<rparr>, br)
     else if t = OracleResponseT then
       (let (v, br) = OracleResponse_DecodeBinary br in (\<lparr>at_Type = t, at_Value = Some v\<rparr>, br))
     else if t = NotValidBeforeT then
       (let (h, br) = ReadU32LE br in (\<lparr>at_Type = t, at_Value = Some (NotValidBefore h)\<rparr>, br))
     else if t = ConflictsT then
       (let (h, br) = Uint256_DecodeBinary 0 br in (\<lparr>at_Type = t, at_Value = Some (Conflicts h)\<rparr>, br))
     else if t = NotaryAssistedT then
       (let (n, br) = ReadB br in (\<lparr>at_Type = t, at_Value = Some (NotaryAssisted n)\<rparr>, br))
     else if ReservedLowerBound \<le> t \<and> t \<le> ReservedUpperBound then
       (let (v, br) = ReadVarBytes MaxArraySize br in (\<lparr>at_Type = t, at_Value = Some (Reserved v)\<rparr>, br))
     else (\<lparr>at_Type = t, at_Value = None\<rparr>, fail_with ''failed decoding TX attribute usage'' br))"

fun Value_EncodeBinary :: "attr_value \<Rightarrow> bin_writer \<Rightarrow> bin_writer" where
  "Value_EncodeBinary (OracleResponse i code res) w = WriteVarBytes res (WriteB code (WriteU64LE i w))"
| "Value_EncodeBinary (NotValidBefore h) w = WriteU32LE h w"
| "Value_EncodeBinary (Conflicts h) w = Uint256_EncodeBinary h w"
| "Value_EncodeBinary (NotaryAssisted n) w = WriteB n w"
| "Value_EncodeBinary (Reserved v) w = WriteVarBytes v w"

text \<open>
  A nil value under a type that has one makes the code panic; the model's writer fails.
\<close>

definition Attribute_EncodeBinary :: "attribute \<Rightarrow> bin_writer \<Rightarrow> bin_writer" where
  "Attribute_EncodeBinary attr bw =
    (let t = at_Type attr; bw = WriteB t bw in
     if t = HighPriority then bw
     else if t \<in> {OracleResponseT, NotValidBeforeT, ConflictsT, NotaryAssistedT} \<or>
             (ReservedLowerBound \<le> t \<and> t \<le> ReservedUpperBound) then
       (case at_Value attr of
          None \<Rightarrow> bw\<lparr>w_err := Some (ErrFormat ''nil attribute value'')\<rparr>
        | Some v \<Rightarrow> Value_EncodeBinary v bw)
     else bw\<lparr>w_err := Some (ErrFormat ''failed encoding TX attribute usage'')\<rparr>)"

section \<open>Witnesses\<close>

definition MaxInvocationScript :: nat where "MaxInvocationScript = 1024"
definition MaxVerificationScript :: nat where "MaxVerificationScript = 1024"

record witness =
  wi_InvocationScript :: bytes
  wi_VerificationScript :: bytes

definition Witness_DecodeBinary :: "bin_reader \<Rightarrow> witness \<times> bin_reader" where
  "Witness_DecodeBinary br =
    (let (i, br) = ReadVarBytes MaxInvocationScript br;
         (v, br) = ReadVarBytes MaxVerificationScript br in
     (\<lparr>wi_InvocationScript = i, wi_VerificationScript = v\<rparr>, br))"

definition Witness_EncodeBinary :: "witness \<Rightarrow> bin_writer \<Rightarrow> bin_writer" where
  "Witness_EncodeBinary w bw = WriteVarBytes (wi_VerificationScript w) (WriteVarBytes (wi_InvocationScript w) bw)"

definition ScriptHash :: "(bytes \<Rightarrow> uint256) \<Rightarrow> (bytes \<Rightarrow> uint160) \<Rightarrow> witness \<Rightarrow> uint160" where
  "ScriptHash sha ripemd w = Hash160 sha ripemd (wi_VerificationScript w)"

section \<open>Transactions\<close>

definition MaxScriptLength :: nat where "MaxScriptLength = 65535"
definition MaxTransactionSize :: nat where "MaxTransactionSize = 102400"
definition MaxAttributes :: nat where "MaxAttributes = 16"

text \<open>The fees are \<^verbatim>\<open>int64\<close>, read as signed words by \<open>sint\<close>.\<close>

type_synonym int64 = "64 word"

record transaction =
  tx_Version :: byte
  tx_Nonce :: uint32
  tx_SystemFee :: int64
  tx_NetworkFee :: int64
  tx_ValidUntilBlock :: uint32
  tx_Script :: bytes
  tx_Attributes :: "attribute list"
  tx_Signers :: "signer list"
  tx_Scripts :: "witness list"
  tx_size :: nat
  tx_hash :: uint256
  tx_hashed :: bool
  tx_Trimmed :: bool

definition empty_transaction :: transaction where
  "empty_transaction = \<lparr>tx_Version = 0, tx_Nonce = 0, tx_SystemFee = 0, tx_NetworkFee = 0,
     tx_ValidUntilBlock = 0, tx_Script = [], tx_Attributes = [], tx_Signers = [], tx_Scripts = [],
     tx_size = 0, tx_hash = 0, tx_hashed = False, tx_Trimmed = False\<rparr>"

definition NewTrimmedTX :: "uint256 \<Rightarrow> transaction" where
  "NewTrimmedTX h = empty_transaction\<lparr>tx_hash := h, tx_hashed := True, tx_Trimmed := True\<rparr>"

definition HasAttribute :: "transaction \<Rightarrow> byte \<Rightarrow> bool" where
  "HasAttribute t typ \<longleftrightarrow> (\<exists>a\<in>set (tx_Attributes t). at_Type a = typ)"

definition GetAttributes :: "transaction \<Rightarrow> byte \<Rightarrow> attribute list" where
  "GetAttributes t typ = filter (\<lambda>a. at_Type a = typ) (tx_Attributes t)"

definition HasSigner :: "transaction \<Rightarrow> uint160 \<Rightarrow> bool" where
  "HasSigner t h \<longleftrightarrow> h \<in> sg_Account ` set (tx_Signers t)"

definition Sender :: "transaction \<Rightarrow> uint160 option" where
  "Sender t = (case tx_Signers t of [] \<Rightarrow> None | s # _ \<Rightarrow> Some (sg_Account s))"

datatype tx_error = ErrInvalidVersion | ErrNegativeSystemFee | ErrNegativeNetworkFee | ErrTooBigFees
  | ErrEmptySigners | ErrNonUniqueSigners | ErrInvalidAttribute | ErrEmptyScript

text \<open>The loop over the attributes with the map of the types seen.\<close>

fun attrs_unique :: "byte list \<Rightarrow> attribute list \<Rightarrow> bool" where
  "attrs_unique seen [] = True"
| "attrs_unique seen (a # as) =
    (if allowMultiple (at_Type a) then attrs_unique seen as
     else at_Type a \<notin> set seen \<and> attrs_unique (at_Type a # seen) as)"

definition isValid :: "transaction \<Rightarrow> tx_error option" where
  "isValid t =
    (if tx_Version t > 0 then Some ErrInvalidVersion
     else if sint (tx_SystemFee t) < 0 then Some ErrNegativeSystemFee
     else if sint (tx_NetworkFee t) < 0 then Some ErrNegativeNetworkFee
     else if sint (tx_NetworkFee t + tx_SystemFee t) < sint (tx_SystemFee t) then Some ErrTooBigFees
     else if length (tx_Signers t) = 0 then Some ErrEmptySigners
     else if \<not> distinct (map sg_Account (tx_Signers t)) then Some ErrNonUniqueSigners
     else if \<not> attrs_unique [] (tx_Attributes t) then Some ErrInvalidAttribute
     else if length (tx_Script t) = 0 then Some ErrEmptyScript
     else None)"

definition encodeHashableFields :: "transaction \<Rightarrow> bin_writer \<Rightarrow> bin_writer" where
  "encodeHashableFields t bw =
    (let bw = WriteB (tx_Version t) bw;
         bw = WriteU32LE (tx_Nonce t) bw;
         bw = WriteU64LE (tx_SystemFee t) bw;
         bw = WriteU64LE (tx_NetworkFee t) bw;
         bw = WriteU32LE (tx_ValidUntilBlock t) bw;
         bw = write_elems Signer_EncodeBinary (tx_Signers t) (WriteVarUint (word_of_nat (length (tx_Signers t))) bw);
         bw = write_elems Attribute_EncodeBinary (tx_Attributes t) (WriteVarUint (word_of_nat (length (tx_Attributes t))) bw)
     in WriteVarBytes (tx_Script t) bw)"

definition Tx_EncodeBinary :: "transaction \<Rightarrow> bin_writer \<Rightarrow> bin_writer" where
  "Tx_EncodeBinary t bw =
     write_elems Witness_EncodeBinary (tx_Scripts t)
       (WriteVarUint (word_of_nat (length (tx_Scripts t))) (encodeHashableFields t bw))"

definition Tx_Bytes :: "transaction \<Rightarrow> bytes option" where
  "Tx_Bytes t = (let w = Tx_EncodeBinary t NewBufBinWriter in if w_err w \<noteq> None then None else Some (w_buf w))"

definition EncodeHashableFields :: "transaction \<Rightarrow> io_error + bytes" where
  "EncodeHashableFields t = (let w = encodeHashableFields t NewBufBinWriter in
     case w_err w of Some e \<Rightarrow> Inl e | None \<Rightarrow> Inr (w_buf w))"

text \<open>\<^verbatim>\<open>createHash\<close> feeds the hashable fields to SHA-256; \<^verbatim>\<open>Hash\<close> memoises and panics on an error.\<close>

definition createHash :: "(bytes \<Rightarrow> uint256) \<Rightarrow> transaction \<Rightarrow> io_error + transaction" where
  "createHash sha t = (case EncodeHashableFields t of
     Inl e \<Rightarrow> Inl e
   | Inr b \<Rightarrow> Inr (t\<lparr>tx_hash := sha b, tx_hashed := True\<rparr>))"

definition Tx_Hash :: "(bytes \<Rightarrow> uint256) \<Rightarrow> transaction \<Rightarrow> uint256 option" where
  "Tx_Hash sha t = (if tx_hashed t then Some (tx_hash t)
     else case createHash sha t of Inl _ \<Rightarrow> None | Inr t' \<Rightarrow> Some (tx_hash t'))"

definition Tx_Size :: "transaction \<Rightarrow> nat option" where
  "Tx_Size t = (if tx_size t = 0 then GetVarSize (GPtr (Tx_EncodeBinary t)) else Some (tx_size t))"

definition FeePerByte :: "transaction \<Rightarrow> int option" where
  "FeePerByte t = map_option (\<lambda>n. sint (tx_NetworkFee t) sdiv int n) (Tx_Size t)"

definition decodeHashableFields ::
  "curve \<Rightarrow> (bytes \<Rightarrow> uint256) \<Rightarrow> bytes option \<Rightarrow> transaction \<Rightarrow> bin_reader \<Rightarrow> transaction \<times> bin_reader" where
  "decodeHashableFields cv sha buf t br =
    (let start = (case buf of None \<Rightarrow> 0 | Some b \<Rightarrow> length b - Reader_Len br);
         (v, br) = ReadB br; (n, br) = ReadU32LE br; (sf, br) = ReadU64LE br; (nf, br) = ReadU64LE br;
         (vub, br) = ReadU32LE br; (nsigners, br) = ReadVarUint br;
         t = t\<lparr>tx_Version := v, tx_Nonce := n, tx_SystemFee := sf, tx_NetworkFee := nf, tx_ValidUntilBlock := vub\<rparr> in
     if r_err br \<noteq> None then (t, br)
     else if unat nsigners > MaxAttributes then (t, fail_with ''too many signers'' br)
     else if nsigners = 0 then (t, fail_with ''missing signers'' br)
     else
       let (ss, br) = read_elems (Signer_DecodeBinary cv) (unat nsigners) br;
           (nattrs, br) = ReadVarUint br;
           t = t\<lparr>tx_Signers := ss\<rparr> in
       if unat nattrs > MaxAttributes - unat nsigners then (t, fail_with ''too many attributes'' br)
       else
         let (as, br) = read_elems Attribute_DecodeBinary (unat nattrs) br;
             (script, br) = ReadVarBytes MaxScriptLength br;
             t = t\<lparr>tx_Attributes := as, tx_Script := script\<rparr>;
             br = (if r_err br = None \<and> isValid t \<noteq> None then fail_with ''invalid transaction'' br else br)
         in (case buf of
               None \<Rightarrow> (t, br)
             | Some b \<Rightarrow> (t\<lparr>tx_hash := Sha256 sha (drop start (take (length b - Reader_Len br) b)), tx_hashed := True\<rparr>, br)))"

definition decodeBinaryNoSize ::
  "curve \<Rightarrow> (bytes \<Rightarrow> uint256) \<Rightarrow> bytes option \<Rightarrow> transaction \<Rightarrow> bin_reader \<Rightarrow> transaction \<times> bin_reader" where
  "decodeBinaryNoSize cv sha buf t br =
    (let (t, br) = decodeHashableFields cv sha buf t br in
     if r_err br \<noteq> None then (t, br)
     else
       let (nscripts, br) = ReadVarUint br in
       if unat nscripts > MaxAttributes then (t, fail_with ''too many witnesses'' br)
       else if unat nscripts \<noteq> length (tx_Signers t) then (t, fail_with ''number of signers does not match witnesses'' br)
       else
         let (ws, br) = read_elems Witness_DecodeBinary (unat nscripts) br; t = t\<lparr>tx_Scripts := ws\<rparr> in
         if r_err br = None \<and> buf = None then
           (case createHash sha t of Inl e \<Rightarrow> (t, br\<lparr>r_err := Some e\<rparr>) | Inr t' \<Rightarrow> (t', br))
         else (t, br))"

definition Tx_DecodeBinary ::
  "curve \<Rightarrow> (bytes \<Rightarrow> uint256) \<Rightarrow> bin_reader \<Rightarrow> transaction \<times> bin_reader" where
  "Tx_DecodeBinary cv sha br =
    (let (t, br) = decodeBinaryNoSize cv sha None empty_transaction br in
     if r_err br = None then (t\<lparr>tx_size := (case Tx_Size t of None \<Rightarrow> 0 | Some n \<Rightarrow> n)\<rparr>, br) else (t, br))"

definition NewTransactionFromBytes ::
  "curve \<Rightarrow> (bytes \<Rightarrow> uint256) \<Rightarrow> bytes \<Rightarrow> io_error + transaction" where
  "NewTransactionFromBytes cv sha b =
    (let (tx, r) = decodeBinaryNoSize cv sha (Some b) empty_transaction (NewBinReaderFromBuf b) in
     case r_err r of
       Some e \<Rightarrow> Inl e
     | None \<Rightarrow> if Reader_Len r \<noteq> 0 then Inl (ErrFormat ''additional data after the transaction'')
               else Inr (tx\<lparr>tx_size := length b\<rparr>))"

definition DecodeHashableFields ::
  "curve \<Rightarrow> (bytes \<Rightarrow> uint256) \<Rightarrow> bytes \<Rightarrow> transaction \<Rightarrow> io_error + transaction" where
  "DecodeHashableFields cv sha buf t =
    (let (t, r) = decodeHashableFields cv sha (Some buf) t (NewBinReaderFromBuf buf) in
     case r_err r of
       Some e \<Rightarrow> Inl e
     | None \<Rightarrow> if Reader_Len r \<noteq> 0 then Inl (ErrFormat ''additional data after the signed part'')
               else Inr (t\<lparr>tx_Scripts := []\<rparr>))"

text \<open>\<^verbatim>\<open>Copy\<close> resets the cached values.\<close>

definition Tx_Copy :: "transaction \<Rightarrow> transaction" where
  "Tx_Copy t = t\<lparr>tx_hashed := False, tx_size := 0, tx_hash := 0\<rparr>"

end
