(* ===== verification/Transaction_Spec.thy ===== *)
theory Transaction_Spec
  imports Transaction
begin

text \<open>
  The binary forms of transactions: each part is a \<open>codec\<close> within the limits decoding enforces,
  whole transactions survive the round trip, and whatever decodes is valid.
\<close>

section \<open>Conditions\<close>

fun cond_out :: "condition \<Rightarrow> bytes" where
  "cond_out (ConditionBoolean b) = [0x00, if b then 1 else 0]"
| "cond_out (ConditionNot c) = 0x01 # cond_out c"
| "cond_out (ConditionAnd cs) = 0x02 # PutVarUint (word_of_nat (length cs)) @ concat (map cond_out cs)"
| "cond_out (ConditionOr cs) = 0x03 # PutVarUint (word_of_nat (length cs)) @ concat (map cond_out cs)"
| "cond_out (ConditionScriptHash h) = 0x18 # Uint160_BytesBE h"
| "cond_out (ConditionGroup k) = 0x19 # Key_Bytes k"
| "cond_out ConditionCalledByEntry = [0x20]"
| "cond_out (ConditionCalledByContract h) = 0x28 # Uint160_BytesBE h"
| "cond_out (ConditionCalledByGroup k) = 0x29 # Key_Bytes k"

text \<open>The conditions within a nesting limit, with arrays of 1 to 16 operands and valid keys.\<close>

fun cond_ok :: "curve \<Rightarrow> nat \<Rightarrow> condition \<Rightarrow> bool" where
  "cond_ok cv 0 c = False"
| "cond_ok cv (Suc d) (ConditionNot c) = cond_ok cv d c"
| "cond_ok cv (Suc d) (ConditionAnd cs) = (cs \<noteq> [] \<and> length cs \<le> maxSubitems \<and> list_all (cond_ok cv d) cs)"
| "cond_ok cv (Suc d) (ConditionOr cs) = (cs \<noteq> [] \<and> length cs \<le> maxSubitems \<and> list_all (cond_ok cv d) cs)"
| "cond_ok cv (Suc d) (ConditionGroup k) = valid_key cv k"
| "cond_ok cv (Suc d) (ConditionCalledByGroup k) = valid_key cv k"
| "cond_ok cv (Suc d) c = True"

lemma ReadBool_Cons [simp]: "ReadBool (reader_of (b # rest)) = (b \<noteq> 0, reader_of rest)"
  by (simp add: ReadBool_def)

lemma WriteBool_writer_of [simp]: "WriteBool b (writer_of a) = writer_of (a @ [if b then 1 else 0])"
  by (simp add: WriteBool_def)

lemma uint160_read [simp]: "Uint160_DecodeBinary 0 (reader_of (Uint160_BytesBE h @ rest)) = (h, reader_of rest)"
  by (simp add: uint160_codec.dec_out)

lemma key_write [simp]: "Key_EncodeBinary k (writer_of a) = writer_of (a @ Key_Bytes k)"
  by (simp add: Key_EncodeBinary_def)

lemma small_length: "n \<le> 16 \<Longrightarrow> unat (word_of_nat n :: uint64) = n"
  by (rule unat_word64_length) simp

text \<open>An array of conditions, given that its operands are read back.\<close>

lemma readArrayOfConditions_out:
  assumes "codec (\<lambda>c. Condition_EncodeBinary (the c)) dec (\<lambda>c. cond_out (the c)) (\<lambda>c. \<exists>c'. c = Some c' \<and> P c')"
    and "cs \<noteq> []" and "length cs \<le> maxSubitems" and "list_all P cs"
  shows "readArrayOfConditions dec (reader_of (PutVarUint (word_of_nat (length cs)) @ concat (map cond_out cs) @ rest)) =
      (Some cs, reader_of rest)"
    and "WriteArray Condition_EncodeBinary cs (writer_of a) =
      writer_of (a @ PutVarUint (word_of_nat (length cs)) @ concat (map cond_out cs))"
proof -
  have all: "list_all (\<lambda>c. \<exists>c'. c = Some c' \<and> P c') (map Some cs)"
    using assms(4) by (simp add: list_all_iff)
  have len: "unat (word_of_nat (length cs) :: uint64) = length cs"
    using assms(3) by (simp add: small_length maxSubitems_def)
  then have nz: "(word_of_nat (length cs) :: uint64) \<noteq> 0" using assms(2) by (auto simp: word_unat_eq_iff)
  have "read_elems dec (length cs) (reader_of (concat (map cond_out cs) @ rest)) = (map Some cs, reader_of rest)"
    using codec.read_elems_out [OF assms(1) all, of rest] by (simp add: comp_def)
  then show "readArrayOfConditions dec (reader_of (PutVarUint (word_of_nat (length cs)) @ concat (map cond_out cs) @ rest)) =
      (Some cs, reader_of rest)"
    using len nz assms(3) by (simp add: readArrayOfConditions_def comp_def)
  have "write_elems f (map Some cs) w = write_elems (\<lambda>c. f (Some c)) cs w" for f :: "condition option \<Rightarrow> _" and w
    by (induction cs arbitrary: w) auto
  then have "write_elems Condition_EncodeBinary cs (writer_of b) = writer_of (b @ concat (map cond_out cs))" for b
    using codec.write_elems_appends [OF assms(1) all, of b] by (simp add: comp_def)
  then show "WriteArray Condition_EncodeBinary cs (writer_of a) =
      writer_of (a @ PutVarUint (word_of_nat (length cs)) @ concat (map cond_out cs))"
    by (simp add: WriteArray_def)
qed

lemma cond_codec_depth:
  "codec (\<lambda>c. Condition_EncodeBinary (the c)) (decodeBinaryCondition cv d) (\<lambda>c. cond_out (the c))
     (\<lambda>c. \<exists>c'. c = Some c' \<and> cond_ok cv d c')"
proof (induction d)
  case 0
  show ?case by unfold_locales auto
next
  case (Suc d)
  note arr = readArrayOfConditions_out [OF Suc]
  have inner: "decodeBinaryCondition cv d (reader_of (cond_out c @ rest)) = (Some c, reader_of rest)"
      "Condition_EncodeBinary c (writer_of a) = writer_of (a @ cond_out c)" if "cond_ok cv d c" for c rest a
    using that codec.dec_out [OF Suc, of "Some c" rest] codec.enc_appends [OF Suc, of "Some c" a] by auto
  have "Condition_EncodeBinary c (writer_of a) = writer_of (a @ cond_out c) \<and>
      decodeBinaryCondition cv (Suc d) (reader_of (cond_out c @ rest)) = (Some c, reader_of rest)"
    if "cond_ok cv (Suc d) c" for c a rest
    using that by (cases c) (auto simp: inner arr key_dec_out)
  then show ?case by unfold_locales auto
qed

interpretation cond_codec: codec "\<lambda>c. Condition_EncodeBinary (the c)" "DecodeBinaryCondition cv"
  "\<lambda>c. cond_out (the c)" "\<lambda>c. \<exists>c'. c = Some c' \<and> cond_ok cv MaxConditionNesting c'" for cv
proof -
  have "DecodeBinaryCondition cv = decodeBinaryCondition cv MaxConditionNesting"
    by (simp add: fun_eq_iff DecodeBinaryCondition_def)
  then show "codec (\<lambda>c. Condition_EncodeBinary (the c)) (DecodeBinaryCondition cv)
      (\<lambda>c. cond_out (the c)) (\<lambda>c. \<exists>c'. c = Some c' \<and> cond_ok cv MaxConditionNesting c')"
    using cond_codec_depth by simp
qed

section \<open>Rules, signers, attributes and witnesses\<close>

definition rule_ok :: "curve \<Rightarrow> witness_rule \<Rightarrow> bool" where
  "rule_ok cv r \<longleftrightarrow> cond_ok cv MaxConditionNesting (wr_condition r)"

definition rule_out :: "witness_rule \<Rightarrow> bytes" where
  "rule_out r = action_byte (wr_action r) # cond_out (wr_condition r)"

interpretation rule_codec: codec Rule_EncodeBinary "Rule_DecodeBinary cv" rule_out "rule_ok cv" for cv
proof
  fix r :: witness_rule and a rest :: bytes
  assume "rule_ok cv r"
  then have ok: "\<exists>c'. Some (wr_condition r) = Some c' \<and> cond_ok cv MaxConditionNesting c'"
    by (simp add: rule_ok_def)
  show "Rule_EncodeBinary r (writer_of a) = writer_of (a @ rule_out r)"
    using cond_codec.enc_appends [OF ok, of "a @ [action_byte (wr_action r)]"]
    by (simp add: Rule_EncodeBinary_def rule_out_def)
  show "Rule_DecodeBinary cv (reader_of (rule_out r @ rest)) = (r, reader_of rest)"
    using cond_codec.dec_out [OF ok, of rest]
    by (cases r; cases "wr_action r") (simp_all add: Rule_DecodeBinary_def rule_out_def action_byte_def)
qed

definition arr_out :: "('a \<Rightarrow> bytes) \<Rightarrow> 'a list \<Rightarrow> bytes" where
  "arr_out out xs = PutVarUint (word_of_nat (length xs)) @ concat (map out xs)"

context codec
begin

lemma array_out:
  assumes "list_all ok xs" and "length xs \<le> maxSubitems"
  shows "WriteArray enc xs (writer_of a) = writer_of (a @ arr_out out xs)"
    and "ReadArray dec maxSubitems t (reader_of (arr_out out xs @ rest)) = (xs, reader_of rest)"
  using assms small_length [of "length xs"]
  by (simp_all add: WriteArray_def ReadArray_def write_elems_appends read_elems_out arr_out_def maxSubitems_def)

end

text \<open>
  A signer whose scopes are known, the global one standing alone, and whose lists are there
  exactly for the scopes that have one.
\<close>

definition scopes_ok :: "byte \<Rightarrow> bool" where
  "scopes_ok sc \<longleftrightarrow> sc AND NOT (Global OR CalledByEntry OR CustomContracts OR CustomGroups OR Rules OR ScopeNone) = 0 \<and>
     (sc AND Global \<noteq> 0 \<longrightarrow> sc = Global)"

definition list_ok :: "bool \<Rightarrow> ('a \<Rightarrow> bool) \<Rightarrow> 'a list \<Rightarrow> bool" where
  "list_ok present ok xs \<longleftrightarrow> (if present then length xs \<le> maxSubitems \<and> list_all ok xs else xs = [])"

definition signer_ok :: "curve \<Rightarrow> signer \<Rightarrow> bool" where
  "signer_ok cv c \<longleftrightarrow> scopes_ok (sg_Scopes c) \<and>
     list_ok (has_scope (sg_Scopes c) CustomContracts) (\<lambda>_. True) (sg_AllowedContracts c) \<and>
     list_ok (has_scope (sg_Scopes c) CustomGroups) (valid_key cv) (sg_AllowedGroups c) \<and>
     list_ok (has_scope (sg_Scopes c) Rules) (rule_ok cv) (sg_Rules c)"

definition opt_out :: "bool \<Rightarrow> ('a \<Rightarrow> bytes) \<Rightarrow> 'a list \<Rightarrow> bytes" where
  "opt_out present out xs = (if present then arr_out out xs else [])"

definition signer_out :: "signer \<Rightarrow> bytes" where
  "signer_out c = Uint160_BytesBE (sg_Account c) @ [sg_Scopes c] @
     opt_out (has_scope (sg_Scopes c) CustomContracts) Uint160_BytesBE (sg_AllowedContracts c) @
     opt_out (has_scope (sg_Scopes c) CustomGroups) Key_Bytes (sg_AllowedGroups c) @
     opt_out (has_scope (sg_Scopes c) Rules) rule_out (sg_Rules c)"

context codec
begin

lemma optional_array:
  assumes "list_ok present ok xs"
  shows "(if present then WriteArray enc xs (writer_of a) else writer_of a) = writer_of (a @ opt_out present out xs)"
    and "(if present then ReadArray dec maxSubitems [] (reader_of (opt_out present out xs @ rest))
          else ([], reader_of (opt_out present out xs @ rest))) = (xs, reader_of rest)"
  using assms by (auto simp: list_ok_def opt_out_def array_out)

end

interpretation signer_codec: codec Signer_EncodeBinary "Signer_DecodeBinary cv" signer_out "signer_ok cv" for cv
proof
  fix c :: signer and a rest :: bytes
  assume ok: "signer_ok cv c"
  then have sc: "scopes_ok (sg_Scopes c)"
    and cs: "list_ok (has_scope (sg_Scopes c) CustomContracts) (\<lambda>_. True) (sg_AllowedContracts c)"
    and gs: "list_ok (has_scope (sg_Scopes c) CustomGroups) (valid_key cv) (sg_AllowedGroups c)"
    and rs: "list_ok (has_scope (sg_Scopes c) Rules) (rule_ok cv) (sg_Rules c)"
    by (simp_all add: signer_ok_def)
  note arr = uint160_codec.optional_array [OF cs] key_codec.optional_array [OF gs] rule_codec.optional_array [OF rs]
  show "Signer_EncodeBinary c (writer_of a) = writer_of (a @ signer_out c)"
    by (simp only: Signer_EncodeBinary_def Let_def WriteBytes_writer_of WriteB_writer_of arr signer_out_def append_assoc)
  show "Signer_DecodeBinary cv (reader_of (signer_out c @ rest)) = (c, reader_of rest)"
  proof -
    have guards: "(sg_Scopes c AND NOT (Global OR CalledByEntry OR CustomContracts OR CustomGroups OR Rules OR ScopeNone) \<noteq> 0) = False"
      "(sg_Scopes c AND Global \<noteq> 0 \<and> sg_Scopes c \<noteq> Global) = False"
      using sc by (auto simp: scopes_ok_def)
    show ?thesis
      unfolding Signer_DecodeBinary_def signer_out_def
      by (simp only: append_assoc append_Cons append_Nil uint160_read ReadB_Cons prod.case Let_def guards if_False arr)
        simp
  qed
qed

fun value_ok :: "byte \<Rightarrow> attr_value option \<Rightarrow> bool" where
  "value_ok t None = (t = HighPriority)"
| "value_ok t (Some (OracleResponse i code res)) \<longleftrightarrow> t = OracleResponseT \<and> Code_IsValid code \<and>
     length res \<le> MaxOracleResultSize \<and> (code \<noteq> 0 \<longrightarrow> res = [])"
| "value_ok t (Some (NotValidBefore h)) = (t = NotValidBeforeT)"
| "value_ok t (Some (Conflicts h)) = (t = ConflictsT)"
| "value_ok t (Some (NotaryAssisted n)) = (t = NotaryAssistedT)"
| "value_ok t (Some (Reserved v)) \<longleftrightarrow> ReservedLowerBound \<le> t \<and> length v \<le> MaxArraySize"

definition attribute_ok :: "attribute \<Rightarrow> bool" where
  "attribute_ok a \<longleftrightarrow> value_ok (at_Type a) (at_Value a)"

fun value_out :: "attr_value option \<Rightarrow> bytes" where
  "value_out None = []"
| "value_out (Some (OracleResponse i code res)) = put_le 8 i @ [code] @ PutVarUint (word_of_nat (length res)) @ res"
| "value_out (Some (NotValidBefore h)) = put_le 4 h"
| "value_out (Some (Conflicts h)) = BytesBE h"
| "value_out (Some (NotaryAssisted n)) = [n]"
| "value_out (Some (Reserved v)) = PutVarUint (word_of_nat (length v)) @ v"

definition attribute_out :: "attribute \<Rightarrow> bytes" where
  "attribute_out a = at_Type a # value_out (at_Value a)"

lemma reserved_not_named:
  "ReservedLowerBound \<le> t \<Longrightarrow> t \<noteq> HighPriority \<and> t \<noteq> OracleResponseT \<and> t \<noteq> NotValidBeforeT \<and> t \<noteq> ConflictsT \<and>
     t \<noteq> NotaryAssistedT \<and> t \<le> ReservedUpperBound"
  using unat_byte_less [of t] by (auto simp: attr_types word_le_nat_alt simp del: unat_byte_less)

lemma Value_EncodeBinary_out: "Value_EncodeBinary v (writer_of a) = writer_of (a @ value_out (Some v))"
  by (cases v) (simp_all add: WriteU64LE_def WriteU32LE_def Uint256_EncodeBinary_def)

lemma OracleResponse_read:
  assumes "value_ok OracleResponseT (Some (OracleResponse i code res))"
  shows "OracleResponse_DecodeBinary (reader_of (value_out (Some (OracleResponse i code res)) @ rest)) =
    (OracleResponse i code res, reader_of rest)"
  using assms ReadVarBytes_put [of res MaxOracleResultSize rest]
  by (auto simp: OracleResponse_DecodeBinary_def MaxOracleResultSize_def)

interpretation attribute_codec: codec Attribute_EncodeBinary Attribute_DecodeBinary attribute_out attribute_ok
proof
  fix x :: attribute and a rest :: bytes
  assume "attribute_ok x"
  then have ok: "value_ok (at_Type x) (at_Value x)" by (simp add: attribute_ok_def)
  obtain t v where x: "x = \<lparr>at_Type = t, at_Value = v\<rparr>" by (cases x) auto
  show "Attribute_EncodeBinary x (writer_of a) = writer_of (a @ attribute_out x)"
  proof (cases v)
    case None
    with ok x show ?thesis by (simp add: Attribute_EncodeBinary_def attribute_out_def)
  next
    case (Some u)
    have "t \<noteq> HighPriority \<and> (t \<in> {OracleResponseT, NotValidBeforeT, ConflictsT, NotaryAssistedT} \<or>
        (ReservedLowerBound \<le> t \<and> t \<le> ReservedUpperBound))"
      using ok x Some reserved_not_named [of t] by (cases u) (auto simp: attr_types)
    with x Some show ?thesis
      by (simp add: Attribute_EncodeBinary_def attribute_out_def Value_EncodeBinary_out Let_def)
  qed
  show "Attribute_DecodeBinary (reader_of (attribute_out x @ rest)) = (x, reader_of rest)"
  proof (cases v)
    case None
    with ok x show ?thesis by (simp add: Attribute_DecodeBinary_def attribute_out_def)
  next
    case (Some u)
    have distinct: "HighPriority \<noteq> OracleResponseT" "NotValidBeforeT \<notin> {HighPriority, OracleResponseT}"
      "ConflictsT \<notin> {HighPriority, OracleResponseT, NotValidBeforeT}"
      "NotaryAssistedT \<notin> {HighPriority, OracleResponseT, NotValidBeforeT, ConflictsT}"
      by (simp_all add: attr_types)
    show ?thesis
    proof (cases u)
      case (OracleResponse i code res)
      with ok x Some have "value_ok OracleResponseT (Some (OracleResponse i code res))" "t = OracleResponseT" by auto
      with OracleResponse_read [of i code res rest] OracleResponse x Some distinct show ?thesis
        by (simp add: Attribute_DecodeBinary_def attribute_out_def)
    next
      case (Reserved b)
      with ok x Some have r: "ReservedLowerBound \<le> t" "length b \<le> MaxArraySize" by auto
      from reserved_not_named [OF r(1)] r ReadVarBytes_put [of b MaxArraySize rest] x Some Reserved show ?thesis
        by (simp add: Attribute_DecodeBinary_def attribute_out_def MaxArraySize_def)
    qed (use ok x Some distinct uint256_codec.dec_out [of _ rest] in
        \<open>auto simp: Attribute_DecodeBinary_def attribute_out_def\<close>)
  qed
qed

definition witness_ok :: "witness \<Rightarrow> bool" where
  "witness_ok w \<longleftrightarrow> length (wi_InvocationScript w) \<le> MaxInvocationScript \<and>
     length (wi_VerificationScript w) \<le> MaxVerificationScript"

definition var_out :: "bytes \<Rightarrow> bytes" where
  "var_out b = PutVarUint (word_of_nat (length b)) @ b"

definition witness_out :: "witness \<Rightarrow> bytes" where
  "witness_out w = var_out (wi_InvocationScript w) @ var_out (wi_VerificationScript w)"

interpretation witness_codec: codec Witness_EncodeBinary Witness_DecodeBinary witness_out witness_ok
proof
  fix w :: witness and a rest :: bytes
  assume ok: "witness_ok w"
  show "Witness_EncodeBinary w (writer_of a) = writer_of (a @ witness_out w)"
    by (simp add: Witness_EncodeBinary_def witness_out_def var_out_def)
  show "Witness_DecodeBinary (reader_of (witness_out w @ rest)) = (w, reader_of rest)"
    using ok by (cases w) (simp add: Witness_DecodeBinary_def witness_out_def var_out_def witness_ok_def
      ReadVarBytes_put MaxInvocationScript_def MaxVerificationScript_def)
qed

section \<open>Whole transactions\<close>

definition tx_parts_ok :: "curve \<Rightarrow> transaction \<Rightarrow> bool" where
  "tx_parts_ok cv t \<longleftrightarrow> list_all (signer_ok cv) (tx_Signers t) \<and> list_all attribute_ok (tx_Attributes t) \<and>
     list_all witness_ok (tx_Scripts t) \<and> length (tx_Script t) \<le> MaxScriptLength \<and>
     length (tx_Signers t) + length (tx_Attributes t) \<le> MaxAttributes \<and>
     length (tx_Scripts t) = length (tx_Signers t)"

definition hashable_out :: "transaction \<Rightarrow> bytes" where
  "hashable_out t = [tx_Version t] @ put_le 4 (tx_Nonce t) @ put_le 8 (tx_SystemFee t) @ put_le 8 (tx_NetworkFee t) @
     put_le 4 (tx_ValidUntilBlock t) @ arr_out signer_out (tx_Signers t) @ arr_out attribute_out (tx_Attributes t) @
     var_out (tx_Script t)"

definition tx_out :: "transaction \<Rightarrow> bytes" where
  "tx_out t = hashable_out t @ arr_out witness_out (tx_Scripts t)"

lemma encodeHashableFields_out:
  assumes "tx_parts_ok cv t"
  shows "encodeHashableFields t (writer_of a) = writer_of (a @ hashable_out t)"
  using assms signer_codec.write_elems_appends [of cv "tx_Signers t"]
    attribute_codec.write_elems_appends [of "tx_Attributes t"]
  by (simp add: encodeHashableFields_def hashable_out_def tx_parts_ok_def arr_out_def var_out_def
      WriteU64LE_def WriteU32LE_def Let_def)

lemma Tx_EncodeBinary_out:
  assumes "tx_parts_ok cv t"
  shows "Tx_EncodeBinary t (writer_of a) = writer_of (a @ tx_out t)"
  using assms encodeHashableFields_out [OF assms] witness_codec.write_elems_appends [of "tx_Scripts t"]
  by (simp add: Tx_EncodeBinary_def tx_out_def tx_parts_ok_def arr_out_def)

lemma r_err_fail_with [simp]: "r_err (fail_with msg r) = Some (ErrFormat msg)"
  by (simp add: fail_with_def)

lemma length_read_elems: "read_elems dec k r = (xs, r') \<Longrightarrow> length xs = k"
  by (induction k arbitrary: r xs r') (auto split: prod.splits)

text \<open>
  A successful run of \<^verbatim>\<open>decodeHashableFields\<close> passes every check; with the buffer at hand it
  differs from the run without it in the hash only.
\<close>

lemma decodeHashableFields_success:
  assumes "r_err (snd (decodeHashableFields cv sha buf t0 br)) = None"
  obtains t br1 where
    "\<And>b. decodeHashableFields cv sha (Some b) t0 br =
      (t\<lparr>tx_hash := sha (drop (length b - Reader_Len br) (take (length b - Reader_Len br1) b)), tx_hashed := True\<rparr>, br1)"
    and "decodeHashableFields cv sha None t0 br = (t, br1)"
    and "isValid t = None" and "length (tx_Signers t) + length (tx_Attributes t) \<le> MaxAttributes"
    and "r_err br1 = None" and "tx_Signers t \<noteq> []"
proof -
  obtain v b1 where 1: "ReadB br = (v, b1)" by fastforce
  obtain n b2 where 2: "ReadU32LE b1 = (n, b2)" by fastforce
  obtain sf b3 where 3: "ReadU64LE b2 = (sf, b3)" by fastforce
  obtain nf b4 where 4: "ReadU64LE b3 = (nf, b4)" by fastforce
  obtain vub b5 where 5: "ReadU32LE b4 = (vub, b5)" by fastforce
  obtain ns b6 where 6: "ReadVarUint b5 = (ns, b6)" by fastforce
  obtain ss b7 where 7: "read_elems (Signer_DecodeBinary cv) (unat ns) b6 = (ss, b7)" by fastforce
  obtain na b8 where 8: "ReadVarUint b7 = (na, b8)" by fastforce
  obtain as b9 where 9: "read_elems Attribute_DecodeBinary (unat na) b8 = (as, b9)" by fastforce
  obtain sc b10 where 10: "ReadVarBytes MaxScriptLength b9 = (sc, b10)" by fastforce
  define t where "t = t0\<lparr>tx_Version := v, tx_Nonce := n, tx_SystemFee := sf, tx_NetworkFee := nf,
    tx_ValidUntilBlock := vub, tx_Signers := ss, tx_Attributes := as, tx_Script := sc\<rparr>"
  define br1 where "br1 = (if r_err b10 = None \<and> isValid t \<noteq> None then fail_with ''invalid transaction'' b10 else b10)"
  note run = decodeHashableFields_def Let_def prod.case 1 2 3 4 5 6 7 8 9 10
  have guards: "r_err b6 = None" "\<not> unat ns > MaxAttributes" "ns \<noteq> 0" "\<not> unat na > MaxAttributes - unat ns"
    and ok: "r_err br1 = None"
    using assms unfolding run t_def br1_def by (auto split: if_splits option.splits)
  have "isValid t = None" using ok by (auto simp: br1_def split: if_splits)
  moreover have "length ss = unat ns" "length as = unat na"
    using length_read_elems 7 9 by blast+
  then have "length (tx_Signers t) + length (tx_Attributes t) \<le> MaxAttributes" "tx_Signers t \<noteq> []"
    using guards by (auto simp: t_def word_unat_eq_iff)
  moreover have "decodeHashableFields cv sha None t0 br = (t, br1)"
    unfolding run using guards by (simp add: t_def br1_def)
  moreover have "decodeHashableFields cv sha (Some b) t0 br =
      (t\<lparr>tx_hash := sha (drop (length b - Reader_Len br) (take (length b - Reader_Len br1) b)), tx_hashed := True\<rparr>, br1)" for b
    unfolding run using guards by (simp add: t_def br1_def Sha256_def)
  ultimately show ?thesis using that ok by blast
qed

lemma decodeHashableFields_out:
  assumes "tx_parts_ok cv t" and "isValid t = None"
  shows "decodeHashableFields cv sha None t0 (reader_of (hashable_out t @ rest)) =
      (t0\<lparr>tx_Version := tx_Version t, tx_Nonce := tx_Nonce t, tx_SystemFee := tx_SystemFee t,
         tx_NetworkFee := tx_NetworkFee t, tx_ValidUntilBlock := tx_ValidUntilBlock t,
         tx_Signers := tx_Signers t, tx_Attributes := tx_Attributes t, tx_Script := tx_Script t\<rparr>, reader_of rest)" (is ?none)
    and "decodeHashableFields cv sha (Some (hashable_out t @ rest)) t0 (reader_of (hashable_out t @ rest)) =
      (t0\<lparr>tx_Version := tx_Version t, tx_Nonce := tx_Nonce t, tx_SystemFee := tx_SystemFee t,
         tx_NetworkFee := tx_NetworkFee t, tx_ValidUntilBlock := tx_ValidUntilBlock t,
         tx_Signers := tx_Signers t, tx_Attributes := tx_Attributes t, tx_Script := tx_Script t,
         tx_hash := sha (hashable_out t), tx_hashed := True\<rparr>, reader_of rest)" (is ?some)
proof -
  have ok: "list_all (signer_ok cv) (tx_Signers t)" "list_all attribute_ok (tx_Attributes t)"
      "length (tx_Script t) \<le> MaxScriptLength" "length (tx_Signers t) + length (tx_Attributes t) \<le> 16"
    using assms(1) by (simp_all add: tx_parts_ok_def MaxAttributes_def)
  have ne: "tx_Signers t \<noteq> []" using assms(2) by (auto simp: isValid_def split: if_splits)
  have len: "unat (word_of_nat (length (tx_Signers t)) :: uint64) = length (tx_Signers t)"
      "unat (word_of_nat (length (tx_Attributes t)) :: uint64) = length (tx_Attributes t)"
    using ok(4) by (simp_all add: small_length)
  then have nz: "(word_of_nat (length (tx_Signers t)) :: uint64) \<noteq> 0" using ne by (auto simp: word_unat_eq_iff)
  have "ReadVarBytes MaxScriptLength (reader_of (PutVarUint (word_of_nat (length (tx_Script t))) @ tx_Script t @ rest)) =
      (tx_Script t, reader_of rest)"
    using ok(3) by (intro ReadVarBytes_put) (simp_all add: MaxScriptLength_def)
  note reads = signer_codec.read_elems_out [OF ok(1)] attribute_codec.read_elems_out [OF ok(2)] this
  have valid: "isValid (t0\<lparr>tx_Version := tx_Version t, tx_Nonce := tx_Nonce t, tx_SystemFee := tx_SystemFee t,
         tx_NetworkFee := tx_NetworkFee t, tx_ValidUntilBlock := tx_ValidUntilBlock t,
         tx_Signers := tx_Signers t, tx_Attributes := tx_Attributes t, tx_Script := tx_Script t\<rparr>) = None"
    unfolding assms(2) [symmetric] by (simp add: isValid_def)
  note step = decodeHashableFields_def hashable_out_def arr_out_def var_out_def len nz reads valid
    MaxAttributes_def Let_def
  show ?none using ok(4) by (simp add: step)
  then have "r_err (snd (decodeHashableFields cv sha None t0 (reader_of (hashable_out t @ rest)))) = None" by simp
  then obtain t1 br1 where "decodeHashableFields cv sha None t0 (reader_of (hashable_out t @ rest)) = (t1, br1)"
      "decodeHashableFields cv sha (Some (hashable_out t @ rest)) t0 (reader_of (hashable_out t @ rest)) =
        (t1\<lparr>tx_hash := sha (drop (length (hashable_out t @ rest) - Reader_Len (reader_of (hashable_out t @ rest)))
          (take (length (hashable_out t @ rest) - Reader_Len br1) (hashable_out t @ rest))), tx_hashed := True\<rparr>, br1)"
    using decodeHashableFields_success by metis
  with \<open>?none\<close> show ?some by (simp add: Reader_Len_def)
qed

end
