(* ===== verification/Transaction_Api.thy ===== *)
theory Transaction_Api
  imports Transaction_Spec
begin

text \<open>
  The properties of transactions: the round trip of their binary form, what a decoded
  transaction is guaranteed to satisfy, what its hash commits to, and when a signer's witness
  covers a call (\<^verbatim>\<open>src/pkg/core/interop/runtime/witness.go\<close>).
\<close>

section \<open>Decoding\<close>

lemma decodeBinaryNoSize_out:
  assumes "tx_parts_ok cv t" and "isValid t = None"
  shows "decodeBinaryNoSize cv sha (Some (tx_out t)) empty_transaction (reader_of (tx_out t)) =
    (t\<lparr>tx_size := 0, tx_hash := sha (hashable_out t), tx_hashed := True, tx_Trimmed := False\<rparr>, reader_of [])"
proof -
  have ok: "list_all witness_ok (tx_Scripts t)" "length (tx_Scripts t) = length (tx_Signers t)" "length (tx_Signers t) \<le> 16"
    using assms(1) by (auto simp: tx_parts_ok_def MaxAttributes_def)
  have len: "unat (word_of_nat (length (tx_Signers t)) :: uint64) = length (tx_Signers t)"
    using ok(3) by (rule small_length)
  define rest where "rest = PutVarUint (word_of_nat (length (tx_Scripts t))) @ concat (map witness_out (tx_Scripts t))"
  have out: "tx_out t = hashable_out t @ rest" by (simp add: tx_out_def arr_out_def rest_def)
  note fields = decodeHashableFields_out(2) [OF assms, of sha rest empty_transaction, folded out]
  have all: "empty_transaction\<lparr>tx_Version := tx_Version t, tx_Nonce := tx_Nonce t, tx_SystemFee := tx_SystemFee t,
         tx_NetworkFee := tx_NetworkFee t, tx_ValidUntilBlock := tx_ValidUntilBlock t,
         tx_Signers := tx_Signers t, tx_Attributes := tx_Attributes t, tx_Script := tx_Script t,
         tx_hash := sha (hashable_out t), tx_hashed := True, tx_Scripts := tx_Scripts t\<rparr> =
      t\<lparr>tx_size := 0, tx_hash := sha (hashable_out t), tx_hashed := True, tx_Trimmed := False\<rparr>"
    by (cases t) (simp add: empty_transaction_def)
  have "ReadVarUint (reader_of rest) = (word_of_nat (length (tx_Signers t)), reader_of (concat (map witness_out (tx_Scripts t))))"
    by (simp add: rest_def ok)
  moreover have "read_elems Witness_DecodeBinary (length (tx_Signers t)) (reader_of (concat (map witness_out (tx_Scripts t)))) =
      (tx_Scripts t, reader_of [])"
    using witness_codec.read_elems_out [OF ok(1), of "[]"] ok(2) by simp
  ultimately show ?thesis
    unfolding decodeBinaryNoSize_def fields using ok(3) len all
    by (simp add: MaxAttributes_def)
qed

lemma Tx_Bytes_out: "tx_parts_ok cv t \<Longrightarrow> Tx_Bytes t = Some (tx_out t)"
  using Tx_EncodeBinary_out [of cv t "[]"] by (simp add: Tx_Bytes_def NewBufBinWriter_def)

lemma Tx_Hash_out:
  "tx_parts_ok cv t \<Longrightarrow> \<not> tx_hashed t \<Longrightarrow> Tx_Hash sha t = Some (sha (hashable_out t))"
  using encodeHashableFields_out [of cv t "[]"]
  by (simp add: Tx_Hash_def createHash_def EncodeHashableFields_def NewBufBinWriter_def)

lemma sint_add_nonneg:
  fixes a b :: int64
  assumes "0 \<le> sint a" and "0 \<le> sint b" and "\<not> sint (b + a) < sint a"
  shows "sint a + sint b < 2 ^ 63"
proof (rule ccontr)
  assume big: "\<not> sint a + sint b < 2 ^ 63"
  have "sint a < 2 ^ 63" "sint b < 2 ^ 63" using sint_lt [of a] sint_lt [of b] by simp_all
  let ?x = "sint b + sint a"
  have "(?x + 2 ^ 63) mod 2 ^ 64 = (?x + 2 ^ 63 - 2 ^ 64) mod 2 ^ 64" by (rule minus_mod_self2 [symmetric])
  also have "\<dots> = ?x + 2 ^ 63 - 2 ^ 64"
    using big \<open>sint a < 2 ^ 63\<close> \<open>sint b < 2 ^ 63\<close> by (intro mod_pos_pos_trivial) simp_all
  finally have wrap: "(?x + 2 ^ 63) mod 2 ^ 64 = ?x + 2 ^ 63 - 2 ^ 64" .
  have "sint (b + a) = signed_take_bit 63 (sint b + sint a)" by (simp add: sint_word_ariths)
  also have "\<dots> = sint b + sint a - 2 ^ 64"
    using wrap by (simp add: signed_take_bit_eq_take_bit_shift take_bit_eq_mod)
  also have "\<dots> < sint a" using \<open>sint b < 2 ^ 63\<close> by simp
  finally show False using assms(3) by simp
qed

lemma isValid_None:
  assumes "isValid t = None"
  shows "tx_Version t = 0 \<and> 0 \<le> sint (tx_SystemFee t) \<and> 0 \<le> sint (tx_NetworkFee t) \<and>
    sint (tx_SystemFee t) + sint (tx_NetworkFee t) < 2 ^ 63 \<and> tx_Signers t \<noteq> [] \<and>
    distinct (map sg_Account (tx_Signers t)) \<and> attrs_unique [] (tx_Attributes t) \<and> tx_Script t \<noteq> []"
  using assms sint_add_nonneg [of "tx_SystemFee t" "tx_NetworkFee t"]
  by (auto simp: isValid_def word_gt_0 not_less split: if_splits)

lemma attrs_unique_iff:
  "attrs_unique seen as \<longleftrightarrow> distinct (filter (\<lambda>t. \<not> allowMultiple t) (map at_Type as)) \<and>
     set seen \<inter> set (filter (\<lambda>t. \<not> allowMultiple t) (map at_Type as)) = {}"
  by (induction as arbitrary: seen) auto

section \<open>Properties of the binary form\<close>

definition ex_tx :: transaction where
  "ex_tx = empty_transaction\<lparr>tx_Nonce := 7, tx_SystemFee := 10, tx_NetworkFee := 5, tx_Script := [0x40],
     tx_Signers := [\<lparr>sg_Account = 1, sg_Scopes = CalledByEntry OR Rules, sg_AllowedContracts = [], sg_AllowedGroups = [],
       sg_Rules = [\<lparr>wr_action = WitnessAllow, wr_condition = ConditionNot ConditionCalledByEntry\<rparr>]\<rparr>],
     tx_Attributes := [\<lparr>at_Type = HighPriority, at_Value = None\<rparr>, \<lparr>at_Type = ConflictsT, at_Value = Some (Conflicts 9)\<rparr>],
     tx_Scripts := [\<lparr>wi_InvocationScript = [1], wi_VerificationScript = [2, 3]\<rparr>]\<rparr>"

lemma ex_cond_ok: "cond_ok cv MaxConditionNesting (ConditionNot ConditionCalledByEntry)"
  by (simp add: MaxConditionNesting_def numeral_2_eq_2)

lemma ex_tx_ok: "tx_parts_ok cv ex_tx" "isValid ex_tx = None"
  using ex_cond_ok [of cv] by (simp_all add: ex_tx_def empty_transaction_def tx_parts_ok_def signer_ok_def scopes_ok_def list_ok_def has_scope_def
      rule_ok_def attribute_ok_def witness_ok_def isValid_def
      CalledByEntry_def Rules_def CustomContracts_def CustomGroups_def Global_def ScopeNone_def maxSubitems_def
      MaxScriptLength_def MaxAttributes_def MaxInvocationScript_def MaxVerificationScript_def attr_types allowMultiple_def)

text \<open>
  C18. A valid transaction within the limits survives serialization: decoding its bytes gives the
  transaction back, with its size and its hash, the hash of its signed fields, filled in.
\<close>

theorem transaction_roundtrip:
  assumes "tx_parts_ok cv t" and "isValid t = None"
  shows "\<exists>b h. Tx_Bytes t = Some b \<and> Tx_Hash sha (Tx_Copy t) = Some h \<and>
    NewTransactionFromBytes cv sha b =
      Inr (t\<lparr>tx_size := length b, tx_hash := h, tx_hashed := True, tx_Trimmed := False\<rparr>)"
proof -
  have "tx_parts_ok cv (Tx_Copy t)" "hashable_out (Tx_Copy t) = hashable_out t" "\<not> tx_hashed (Tx_Copy t)"
    using assms(1) by (simp_all add: Tx_Copy_def tx_parts_ok_def hashable_out_def)
  then have "Tx_Hash sha (Tx_Copy t) = Some (sha (hashable_out t))"
    using Tx_Hash_out [of cv "Tx_Copy t" sha] by simp
  then show ?thesis
    using Tx_Bytes_out [OF assms(1)] decodeBinaryNoSize_out [OF assms, of sha]
    by (simp add: NewTransactionFromBytes_def NewBinReaderFromBuf_def Reader_Len_def)
qed

theorem transaction_roundtrip_witness:
  "\<exists>b h. Tx_Bytes ex_tx = Some b \<and> NewTransactionFromBytes P256 (\<lambda>b. word_of_nat (length b)) b =
     Inr (ex_tx\<lparr>tx_size := length b, tx_hash := h, tx_hashed := True, tx_Trimmed := False\<rparr>)"
  using transaction_roundtrip [OF ex_tx_ok(1) [of P256] ex_tx_ok(2)] by blast

text \<open>
  C19. Whatever byte string decodes to a transaction, the transaction is well-formed: version 0,
  fees that are not negative and whose sum fits into \<^verbatim>\<open>int64\<close>, between one and sixteen signers
  with different accounts, one witness for each, at most sixteen signers and attributes
  together, no repeated attribute type but Conflicts, and a script.
\<close>

theorem decoded_transaction_valid:
  assumes "NewTransactionFromBytes cv sha b = Inr t"
  shows "tx_Version t = 0 \<and> 0 \<le> sint (tx_SystemFee t) \<and> 0 \<le> sint (tx_NetworkFee t) \<and>
    sint (tx_SystemFee t) + sint (tx_NetworkFee t) < 2 ^ 63 \<and>
    tx_Signers t \<noteq> [] \<and> length (tx_Signers t) + length (tx_Attributes t) \<le> 16 \<and>
    distinct (map sg_Account (tx_Signers t)) \<and> length (tx_Scripts t) = length (tx_Signers t) \<and>
    distinct (filter (\<lambda>ty. ty \<noteq> ConflictsT) (map at_Type (tx_Attributes t))) \<and>
    tx_Script t \<noteq> [] \<and> tx_size t = length b"
proof -
  obtain t1 r where run: "decodeBinaryNoSize cv sha (Some b) empty_transaction (reader_of b) = (t1, r)"
      "r_err r = None" "t = t1\<lparr>tx_size := length b\<rparr>"
    using assms by (auto simp: NewTransactionFromBytes_def NewBinReaderFromBuf_def split: prod.splits option.splits if_splits)
  then have "r_err (snd (decodeHashableFields cv sha (Some b) empty_transaction (reader_of b))) = None"
    by (auto simp: decodeBinaryNoSize_def split: prod.splits if_splits)
  then obtain t0 br where t0: "decodeHashableFields cv sha (Some b) empty_transaction (reader_of b) =
        (t0\<lparr>tx_hash := sha (drop (length b - Reader_Len (reader_of b)) (take (length b - Reader_Len br) b)), tx_hashed := True\<rparr>, br)"
      "isValid t0 = None" "length (tx_Signers t0) + length (tx_Attributes t0) \<le> MaxAttributes" "r_err br = None"
    using decodeHashableFields_success by metis
  obtain ns br1 where ns: "ReadVarUint br = (ns, br1)" by fastforce
  obtain ws br2 where ws: "read_elems Witness_DecodeBinary (unat ns) br1 = (ws, br2)" by fastforce
  have t1: "t1 = t0\<lparr>tx_hash := sha (drop (length b - Reader_Len (reader_of b)) (take (length b - Reader_Len br) b)),
      tx_hashed := True, tx_Scripts := ws\<rparr>" and "unat ns = length (tx_Signers t0)"
    using run(1,2) t0(1,4) ns ws by (auto simp: decodeBinaryNoSize_def split: if_splits)
  then have "length (tx_Scripts t) = length (tx_Signers t)"
    using length_read_elems [OF ws] run(3) by simp
  moreover have "tx_Signers t = tx_Signers t0" "tx_Attributes t = tx_Attributes t0" "tx_Script t = tx_Script t0"
      "tx_Version t = tx_Version t0" "tx_SystemFee t = tx_SystemFee t0" "tx_NetworkFee t = tx_NetworkFee t0"
      "tx_size t = length b"
    using run(3) t1 by simp_all
  ultimately show ?thesis
    using isValid_None [OF t0(2)] t0(3) by (simp add: attrs_unique_iff allowMultiple_def MaxAttributes_def)
qed

theorem decoded_transaction_valid_witness:
  "\<exists>b t. NewTransactionFromBytes P256 (\<lambda>b. word_of_nat (length b)) b = Inr t \<and> tx_Signers t \<noteq> [] \<and> tx_size t = length b"
proof -
  have "Tx_Bytes ex_tx = Some (tx_out ex_tx)" by (rule Tx_Bytes_out [OF ex_tx_ok(1) [of P256]])
  have "NewTransactionFromBytes P256 (\<lambda>b. word_of_nat (length b)) (tx_out ex_tx) =
      Inr (ex_tx\<lparr>tx_size := length (tx_out ex_tx), tx_hash := word_of_nat (length (hashable_out ex_tx)),
        tx_hashed := True, tx_Trimmed := False\<rparr>)"
    using decodeBinaryNoSize_out [OF ex_tx_ok(1) [of P256] ex_tx_ok(2), of "\<lambda>b. word_of_nat (length b)"]
    by (simp add: NewTransactionFromBytes_def NewBinReaderFromBuf_def Reader_Len_def)
  from decoded_transaction_valid [OF this] this show ?thesis by blast
qed

text \<open>
  C20. The hash of a transaction commits to everything that is signed: if two valid transactions
  have the same hash, and SHA-256 has no collision on their signed fields, they agree in
  every field but the witnesses, which the hash does not depend on.
\<close>

theorem transaction_hash_binding:
  assumes "tx_parts_ok cv t" and "isValid t = None" and "tx_parts_ok cv t'" and "isValid t' = None"
    and "\<not> tx_hashed t" and "\<not> tx_hashed t'"
    and "inj_on sha {b. EncodeHashableFields t = Inr b \<or> EncodeHashableFields t' = Inr b}"
  shows "Tx_Hash sha t = Tx_Hash sha t' \<longleftrightarrow>
    (tx_Version t, tx_Nonce t, tx_SystemFee t, tx_NetworkFee t, tx_ValidUntilBlock t, tx_Script t, tx_Attributes t, tx_Signers t) =
    (tx_Version t', tx_Nonce t', tx_SystemFee t', tx_NetworkFee t', tx_ValidUntilBlock t', tx_Script t', tx_Attributes t', tx_Signers t')"
    (is "_ \<longleftrightarrow> ?same")
proof
  have enc: "EncodeHashableFields t = Inr (hashable_out t)" "EncodeHashableFields t' = Inr (hashable_out t')"
    using encodeHashableFields_out [OF assms(1), of "[]"] encodeHashableFields_out [OF assms(3), of "[]"]
    by (simp_all add: EncodeHashableFields_def NewBufBinWriter_def)
  assume "Tx_Hash sha t = Tx_Hash sha t'"
  then have "sha (hashable_out t) = sha (hashable_out t')"
    using Tx_Hash_out assms(1,3,5,6) by simp
  then have "hashable_out t = hashable_out t'"
    using assms(7) enc by (auto simp: inj_on_def)
  then have "fst (decodeHashableFields cv sha None empty_transaction (reader_of (hashable_out t @ []))) =
      fst (decodeHashableFields cv sha None empty_transaction (reader_of (hashable_out t' @ [])))" by simp
  then show ?same
    using decodeHashableFields_out(1) [OF assms(1,2), of sha empty_transaction "[]"]
      decodeHashableFields_out(1) [OF assms(3,4), of sha empty_transaction "[]"]
    by (simp add: transaction.ext_inject empty_transaction_def)
next
  assume ?same
  then have "hashable_out t = hashable_out t'" by (simp add: hashable_out_def)
  then show "Tx_Hash sha t = Tx_Hash sha t'" using Tx_Hash_out assms(1,3,5,6) by simp
qed

theorem transaction_hash_binding_witness:
  "Tx_Hash (\<lambda>b. word_of_nat (length b)) ex_tx = Tx_Hash (\<lambda>b. word_of_nat (length b)) (ex_tx\<lparr>tx_Scripts := [\<lparr>wi_InvocationScript = [9, 9], wi_VerificationScript = []\<rparr>]\<rparr>)"
proof -
  let ?t' = "ex_tx\<lparr>tx_Scripts := [\<lparr>wi_InvocationScript = [9, 9], wi_VerificationScript = []\<rparr>]\<rparr>"
  have ok: "tx_parts_ok P256 ?t'"
    using ex_tx_ok(1) [of P256] by (simp add: tx_parts_ok_def witness_ok_def MaxInvocationScript_def ex_tx_def)
  have "isValid ?t' = isValid ex_tx" by (simp add: isValid_def)
  then have valid: "isValid ?t' = None" using ex_tx_ok(2) by simp
  have "EncodeHashableFields ?t' = EncodeHashableFields ex_tx"
    by (simp add: EncodeHashableFields_def encodeHashableFields_def)
  then have "inj_on (\<lambda>b. word_of_nat (length b) :: uint256) {b. EncodeHashableFields ex_tx = Inr b \<or> EncodeHashableFields ?t' = Inr b}"
    by (auto simp: inj_on_def)
  then show ?thesis
    using transaction_hash_binding [OF ex_tx_ok(1) [of P256] ex_tx_ok(2) ok valid] by (simp add: ex_tx_def empty_transaction_def)
qed

end
