(* ===== verification/Witness_Scope.thy ===== *)
theory Witness_Scope
  imports Transaction_Api
begin

text \<open>
  \<^verbatim>\<open>src/pkg/core/interop/runtime/witness.go\<close>: whether a hash has witnessed the current call, by
  the scopes and rules of the transaction's signers, and what scopes and rules mean.
\<close>

section \<open>The check\<close>

text \<open>
  What the check reads of the interop context: the signers, the script hashes and flags of the
  current VM context, and the groups in the manifests of the deployed contracts.
\<close>

record scope_context =
  ic_Signers :: "signer list"
  ic_CallingScriptHash :: uint160
  ic_CurrentScriptHash :: uint160
  ic_IsCalledByEntry :: bool
  ic_ReadStates :: bool
  ic_Groups :: "uint160 \<Rightarrow> public_key list option"

fun Groups_Contains :: "public_key list \<Rightarrow> public_key \<Rightarrow> match_err + bool" where
  "Groups_Contains [] k = Inr False"
| "Groups_Contains (g # gs) k = (case Key_Equal k g of
     None \<Rightarrow> Inl MatchPanic
   | Some b \<Rightarrow> if b then Inr True else Groups_Contains gs k)"

definition getContractGroups :: "scope_context \<Rightarrow> uint160 \<Rightarrow> match_err + public_key list" where
  "getContractGroups ic h =
    (if \<not> ic_ReadStates ic then Inl ErrMissingReadStates
     else Inr (case ic_Groups ic h of None \<Rightarrow> [] | Some gs \<Rightarrow> gs))"

definition checkScriptGroups :: "scope_context \<Rightarrow> uint160 \<Rightarrow> public_key \<Rightarrow> match_err + bool" where
  "checkScriptGroups ic h k =
    (case getContractGroups ic h of Inl e \<Rightarrow> Inl e | Inr groups \<Rightarrow> Groups_Contains groups k)"

definition CallingScriptHasGroup :: "scope_context \<Rightarrow> public_key \<Rightarrow> match_err + bool" where
  "CallingScriptHasGroup ic k = checkScriptGroups ic (ic_CallingScriptHash ic) k"

definition CurrentScriptHasGroup :: "scope_context \<Rightarrow> public_key \<Rightarrow> match_err + bool" where
  "CurrentScriptHasGroup ic k = checkScriptGroups ic (ic_CurrentScriptHash ic) k"

definition scopeContext :: "scope_context \<Rightarrow> match_context" where
  "scopeContext ic = \<lparr>mc_calling = ic_CallingScriptHash ic, mc_current = ic_CurrentScriptHash ic,
     mc_callingHasGroup = CallingScriptHasGroup ic, mc_currentHasGroup = CurrentScriptHasGroup ic,
     mc_calledByEntry = ic_IsCalledByEntry ic\<rparr>"

text \<open>The three loops: over the allowed groups, over the rules, and over the signers.\<close>

fun any_group :: "public_key list \<Rightarrow> public_key list \<Rightarrow> match_err + bool" where
  "any_group groups [] = Inr False"
| "any_group groups (k # ks) = (case Groups_Contains groups k of
     Inl e \<Rightarrow> Inl e | Inr b \<Rightarrow> if b then Inr True else any_group groups ks)"

fun first_rule :: "match_context \<Rightarrow> witness_rule list \<Rightarrow> match_err + bool" where
  "first_rule ctx [] = Inr False"
| "first_rule ctx (r # rs) = (case Match ctx (wr_condition r) of
     Inl e \<Rightarrow> Inl e
   | Inr res \<Rightarrow> if res then Inr (wr_action r = WitnessAllow) else first_rule ctx rs)"

definition signer_allows :: "scope_context \<Rightarrow> signer \<Rightarrow> match_err + bool" where
  "signer_allows ic c =
    (if sg_Scopes c = Global then Inr True
     else if has_scope (sg_Scopes c) CalledByEntry \<and> ic_IsCalledByEntry ic then Inr True
     else if has_scope (sg_Scopes c) CustomContracts \<and> ic_CurrentScriptHash ic \<in> set (sg_AllowedContracts c) then Inr True
     else
       let rules = (\<lambda>_. if has_scope (sg_Scopes c) Rules then first_rule (scopeContext ic) (sg_Rules c) else Inr False) in
       if has_scope (sg_Scopes c) CustomGroups then
         (case getContractGroups ic (ic_CurrentScriptHash ic) of
            Inl e \<Rightarrow> Inl e
          | Inr groups \<Rightarrow> (case any_group groups (sg_AllowedGroups c) of
              Inl e \<Rightarrow> Inl e
            | Inr b \<Rightarrow> if b then Inr True else rules ()))
       else rules ())"

fun check_signers :: "scope_context \<Rightarrow> uint160 \<Rightarrow> signer list \<Rightarrow> match_err + bool" where
  "check_signers ic h [] = Inr False"
| "check_signers ic h (c # cs) = (if sg_Account c = h then signer_allows ic c else check_signers ic h cs)"

definition checkScope :: "scope_context \<Rightarrow> uint160 \<Rightarrow> match_err + bool" where
  "checkScope ic h = (if ic_Signers ic = [] then Inl ErrNoSigners else check_signers ic h (ic_Signers ic))"

definition CheckHashedWitness :: "scope_context \<Rightarrow> uint160 \<Rightarrow> match_err + bool" where
  "CheckHashedWitness ic h =
    (if ic_CallingScriptHash ic \<noteq> 0 \<and> h = ic_CallingScriptHash ic then Inr True else checkScope ic h)"

section \<open>What scopes and rules mean\<close>

definition groups_of :: "scope_context \<Rightarrow> uint160 \<Rightarrow> public_key set" where
  "groups_of ic h = (case ic_Groups ic h of None \<Rightarrow> {} | Some gs \<Rightarrow> set gs)"

fun holds :: "scope_context \<Rightarrow> condition \<Rightarrow> bool" where
  "holds ic (ConditionBoolean b) = b"
| "holds ic (ConditionNot c) = (\<not> holds ic c)"
| "holds ic (ConditionAnd cs) = (\<forall>c\<in>set cs. holds ic c)"
| "holds ic (ConditionOr cs) = (\<exists>c\<in>set cs. holds ic c)"
| "holds ic (ConditionScriptHash h) = (h = ic_CurrentScriptHash ic)"
| "holds ic (ConditionGroup k) = (k \<in> groups_of ic (ic_CurrentScriptHash ic))"
| "holds ic ConditionCalledByEntry = ic_IsCalledByEntry ic"
| "holds ic (ConditionCalledByContract h) = (h = ic_CallingScriptHash ic)"
| "holds ic (ConditionCalledByGroup k) = (k \<in> groups_of ic (ic_CallingScriptHash ic))"

text \<open>The first rule whose condition holds decides; when none does, the rules do not allow.\<close>

definition rules_allow :: "scope_context \<Rightarrow> witness_rule list \<Rightarrow> bool" where
  "rules_allow ic rs \<longleftrightarrow> (\<exists>i<length rs. wr_action (rs ! i) = WitnessAllow \<and> holds ic (wr_condition (rs ! i)) \<and>
     (\<forall>j<i. \<not> holds ic (wr_condition (rs ! j))))"

definition covers :: "scope_context \<Rightarrow> signer \<Rightarrow> bool" where
  "covers ic c \<longleftrightarrow> sg_Scopes c = Global \<or>
     (has_scope (sg_Scopes c) CalledByEntry \<and> ic_IsCalledByEntry ic) \<or>
     (has_scope (sg_Scopes c) CustomContracts \<and> ic_CurrentScriptHash ic \<in> set (sg_AllowedContracts c)) \<or>
     (has_scope (sg_Scopes c) CustomGroups \<and> set (sg_AllowedGroups c) \<inter> groups_of ic (ic_CurrentScriptHash ic) \<noteq> {}) \<or>
     (has_scope (sg_Scopes c) Rules \<and> rules_allow ic (sg_Rules c))"

text \<open>No infinite key takes part: comparing one panics.\<close>

fun finite_keys :: "condition \<Rightarrow> bool" where
  "finite_keys (ConditionNot c) = finite_keys c"
| "finite_keys (ConditionAnd cs) = (\<forall>c\<in>set cs. finite_keys c)"
| "finite_keys (ConditionOr cs) = (\<forall>c\<in>set cs. finite_keys c)"
| "finite_keys (ConditionGroup k) = (k \<noteq> Infinity)"
| "finite_keys (ConditionCalledByGroup k) = (k \<noteq> Infinity)"
| "finite_keys c = True"

definition context_ok :: "scope_context \<Rightarrow> bool" where
  "context_ok ic \<longleftrightarrow> ic_ReadStates ic \<and> (\<forall>h. Infinity \<notin> groups_of ic h) \<and>
     (\<forall>c\<in>set (ic_Signers ic). Infinity \<notin> set (sg_AllowedGroups c) \<and> (\<forall>r\<in>set (sg_Rules c). finite_keys (wr_condition r)))"

lemma Key_Equal_iff: "k \<noteq> Infinity \<Longrightarrow> g \<noteq> Infinity \<Longrightarrow> Key_Equal k g = Some (k = g)"
  by (cases k; cases g) auto

lemma Groups_Contains_iff:
  "k \<noteq> Infinity \<Longrightarrow> Infinity \<notin> set gs \<Longrightarrow> Groups_Contains gs k = Inr (k \<in> set gs)"
  by (induction gs) (auto simp: Key_Equal_iff)

lemma checkScriptGroups_iff:
  "context_ok ic \<Longrightarrow> k \<noteq> Infinity \<Longrightarrow> checkScriptGroups ic h k = Inr (k \<in> groups_of ic h)"
  unfolding context_ok_def checkScriptGroups_def getContractGroups_def groups_of_def
  by (auto simp: Groups_Contains_iff split: option.splits)

lemma ConditionAnd_Match_all:
  "ConditionAnd_Match (map Inr bs) = Inr (\<forall>b\<in>set bs. b)"
  by (induction bs) auto

lemma ConditionOr_Match_any:
  "ConditionOr_Match (map Inr bs) = Inr (\<exists>b\<in>set bs. b)"
  by (induction bs) auto

lemma Match_holds:
  assumes "context_ok ic" and "finite_keys c"
  shows "Match (scopeContext ic) c = Inr (holds ic c)"
  using assms(2)
proof (induction c)
  case (ConditionAnd cs)
  then have "map (Match (scopeContext ic)) cs = map Inr (map (holds ic) cs)" by simp
  then show ?case by (simp only: Match.simps ConditionAnd_Match_all) simp
next
  case (ConditionOr cs)
  then have "map (Match (scopeContext ic)) cs = map Inr (map (holds ic) cs)" by simp
  then show ?case by (simp only: Match.simps ConditionOr_Match_any) simp
qed (simp_all add: ConditionNot_Match_def scopeContext_def CurrentScriptHasGroup_def CallingScriptHasGroup_def
    checkScriptGroups_iff [OF assms(1)])

lemma any_group_iff:
  "Infinity \<notin> set gs \<Longrightarrow> Infinity \<notin> set ks \<Longrightarrow> any_group gs ks = Inr (set ks \<inter> set gs \<noteq> {})"
  by (induction ks) (auto simp: Groups_Contains_iff)

lemma rules_allow_Cons:
  "rules_allow ic (r # rs) \<longleftrightarrow>
     (if holds ic (wr_condition r) then wr_action r = WitnessAllow else rules_allow ic rs)"
proof (cases "holds ic (wr_condition r)")
  case True
  then show ?thesis
    unfolding rules_allow_def by (auto intro!: exI [of _ 0]) (metis Suc_less_eq2 gr0I nth_Cons_0)
next
  case False
  show ?thesis
  proof
    assume "rules_allow ic (r # rs)"
    then obtain i where i: "i < Suc (length rs)" "wr_action ((r # rs) ! i) = WitnessAllow"
        "holds ic (wr_condition ((r # rs) ! i))" "\<forall>j<i. \<not> holds ic (wr_condition ((r # rs) ! j))"
      by (auto simp: rules_allow_def)
    with False obtain k where "i = Suc k" by (cases i) auto
    moreover have "\<forall>j<k. \<not> holds ic (wr_condition (rs ! j))"
      using i(4) \<open>i = Suc k\<close> by (metis Suc_less_eq nth_Cons_Suc)
    ultimately show "if holds ic (wr_condition r) then wr_action r = WitnessAllow else rules_allow ic rs"
      using i(1-3) False by (auto simp: rules_allow_def)
  next
    assume "if holds ic (wr_condition r) then wr_action r = WitnessAllow else rules_allow ic rs"
    with False obtain i where "i < length rs" "wr_action (rs ! i) = WitnessAllow"
        "holds ic (wr_condition (rs ! i))" "\<forall>j<i. \<not> holds ic (wr_condition (rs ! j))"
      by (auto simp: rules_allow_def)
    with False show "rules_allow ic (r # rs)"
      unfolding rules_allow_def by (intro exI [of _ "Suc i"]) (auto simp: less_Suc_eq_0_disj)
  qed
qed

lemma first_rule_iff:
  assumes "context_ok ic" and "\<forall>r\<in>set rs. finite_keys (wr_condition r)"
  shows "first_rule (scopeContext ic) rs = Inr (rules_allow ic rs)"
  using assms(2)
proof (induction rs)
  case Nil
  show ?case by (simp add: rules_allow_def)
next
  case (Cons r rs)
  then show ?case by (simp add: Match_holds [OF assms(1)] rules_allow_Cons)
qed

lemma signer_allows_iff:
  assumes "context_ok ic" and "c \<in> set (ic_Signers ic)"
  shows "signer_allows ic c = Inr (covers ic c)"
proof -
  have c: "Infinity \<notin> set (sg_AllowedGroups c)" "\<forall>r\<in>set (sg_Rules c). finite_keys (wr_condition r)" "ic_ReadStates ic"
      "Infinity \<notin> groups_of ic (ic_CurrentScriptHash ic)"
    using assms by (auto simp: context_ok_def)
  obtain gs where gs: "getContractGroups ic (ic_CurrentScriptHash ic) = Inr gs" "set gs = groups_of ic (ic_CurrentScriptHash ic)"
    using c(3) by (auto simp: getContractGroups_def groups_of_def split: option.splits)
  show ?thesis
    using first_rule_iff [OF assms(1) c(2)] any_group_iff [of gs "sg_AllowedGroups c"] c gs
    by (auto simp: signer_allows_def covers_def)
qed

lemma check_signers_iff:
  assumes "context_ok ic" and "set cs \<subseteq> set (ic_Signers ic)" and "distinct (map sg_Account cs)"
  shows "check_signers ic h cs = Inr (\<exists>c\<in>set cs. sg_Account c = h \<and> covers ic c)"
  using assms(2,3)
proof (induction cs)
  case (Cons c cs)
  show ?case
  proof (cases "sg_Account c = h")
    case True
    have "\<forall>x\<in>set cs. sg_Account x \<noteq> h" using Cons.prems(2) True by (auto simp: image_iff)
    with Cons True show ?thesis by (auto simp: signer_allows_iff [OF assms(1)])
  next
    case False
    with Cons show ?thesis by simp
  qed
qed simp

section \<open>Properties\<close>

text \<open>
  C21. The witness check decides what scopes and rules mean: with the signers of a valid
  transaction, in a call that may read states, a hash has witnessed exactly if it is the
  calling contract or the account of a signer whose scopes cover the current call, the
  first rule whose condition holds deciding for the rules scope. The check then never fails.
\<close>

theorem CheckHashedWitness_correct:
  assumes "context_ok ic" and "ic_Signers ic \<noteq> []" and "distinct (map sg_Account (ic_Signers ic))"
  shows "CheckHashedWitness ic h =
    Inr ((ic_CallingScriptHash ic \<noteq> 0 \<and> h = ic_CallingScriptHash ic) \<or>
         (\<exists>c\<in>set (ic_Signers ic). sg_Account c = h \<and> covers ic c))"
  using check_signers_iff [OF assms(1) subset_refl assms(3), of h] assms(2)
  by (auto simp: CheckHashedWitness_def checkScope_def)

definition ex_ic :: scope_context where
  "ex_ic = \<lparr>ic_Signers = [\<lparr>sg_Account = 5, sg_Scopes = Rules, sg_AllowedContracts = [], sg_AllowedGroups = [],
        sg_Rules = [\<lparr>wr_action = WitnessDeny, wr_condition = ConditionScriptHash 8\<rparr>,
                    \<lparr>wr_action = WitnessAllow, wr_condition = ConditionBoolean True\<rparr>]\<rparr>],
     ic_CallingScriptHash = 3, ic_CurrentScriptHash = 8, ic_IsCalledByEntry = False, ic_ReadStates = True,
     ic_Groups = (\<lambda>_. None)\<rparr>"

theorem CheckHashedWitness_correct_witness:
  "CheckHashedWitness ex_ic 5 = Inr False \<and> CheckHashedWitness (ex_ic\<lparr>ic_CurrentScriptHash := 9\<rparr>) 5 = Inr True"
proof -
  have "CheckHashedWitness ex_ic 5 = Inr False"
    by (subst CheckHashedWitness_correct)
      (auto simp: ex_ic_def context_ok_def groups_of_def covers_def has_scope_def Rules_def Global_def
        CalledByEntry_def CustomContracts_def CustomGroups_def rules_allow_Cons)
  moreover have "CheckHashedWitness (ex_ic\<lparr>ic_CurrentScriptHash := 9\<rparr>) 5 = Inr True"
    by (subst CheckHashedWitness_correct)
      (auto simp: ex_ic_def context_ok_def groups_of_def covers_def has_scope_def Rules_def Global_def
        CalledByEntry_def CustomContracts_def CustomGroups_def rules_allow_Cons)
  ultimately show ?thesis by simp
qed

section \<open>Limits of decoded conditions\<close>

fun cond_bounded :: "nat \<Rightarrow> condition \<Rightarrow> bool" where
  "cond_bounded 0 c = False"
| "cond_bounded (Suc d) (ConditionNot c) = cond_bounded d c"
| "cond_bounded (Suc d) (ConditionAnd cs) = (cs \<noteq> [] \<and> length cs \<le> 16 \<and> (\<forall>c\<in>set cs. cond_bounded d c))"
| "cond_bounded (Suc d) (ConditionOr cs) = (cs \<noteq> [] \<and> length cs \<le> 16 \<and> (\<forall>c\<in>set cs. cond_bounded d c))"
| "cond_bounded (Suc d) c = True"

text \<open>An operation that can only succeed on a reader that has not failed.\<close>

definition strict :: "(bin_reader \<Rightarrow> 'a \<times> bin_reader) \<Rightarrow> bool" where
  "strict rd \<longleftrightarrow> (\<forall>r. r_err (snd (rd r)) = None \<longrightarrow> r_err r = None)"

lemma strictD: "strict rd \<Longrightarrow> rd r = (x, r') \<Longrightarrow> r_err r' = None \<Longrightarrow> r_err r = None"
  by (metis strict_def snd_conv)

lemma sticky_strict: "sticky rd d \<Longrightarrow> strict rd"
  unfolding strict_def sticky_def by (metis option.exhaust snd_conv)

lemma strict_reads:
  "strict ReadB" "strict ReadU64LE" "strict ReadU32LE" "strict ReadVarUint" "strict (ReadVarBytes ms)"
  using sticky_reads by (blast intro: sticky_strict)+

lemma strict_ReadBytes: "strict (ReadBytes b)"
  unfolding strict_def by (auto simp: ReadBytes_def split: option.splits)

lemma read_elems_all:
  assumes "\<And>r x r'. dec r = (x, r') \<Longrightarrow> r_err r' = None \<Longrightarrow> P x \<and> r_err r = None"
    and "read_elems dec k r = (xs, r')" and "r_err r' = None"
  shows "(\<forall>x\<in>set xs. P x) \<and> r_err r = None"
  using assms(2,3)
proof (induction k arbitrary: r xs r')
  case (Suc k)
  obtain x r1 where x: "dec r = (x, r1)" by fastforce
  obtain ys r2 where ys: "read_elems dec k r1 = (ys, r2)" by fastforce
  from Suc.prems x ys have "xs = x # ys" "r' = r2" by auto
  with Suc.IH [OF ys] Suc.prems assms(1) [OF x] show ?case by auto
qed simp

lemma readArrayOfConditions_bounded:
  assumes "\<And>r x r'. dec r = (x, r') \<Longrightarrow> r_err r' = None \<Longrightarrow> (\<exists>c. x = Some c \<and> cond_bounded d c) \<and> r_err r = None"
    and "readArrayOfConditions dec r = (res, r')" and "r_err r' = None"
  shows "\<exists>cs. res = Some cs \<and> cs \<noteq> [] \<and> length cs \<le> 16 \<and> (\<forall>c\<in>set cs. cond_bounded d c)"
proof -
  obtain l r1 where l: "ReadVarUint r = (l, r1)" by fastforce
  obtain a r2 where a: "read_elems dec (unat l) r1 = (a, r2)" by fastforce
  have guards: "l \<noteq> 0" "unat l \<le> maxSubitems" "res = Some (map the a)" "r_err r2 = None"
    using assms(2,3) l a by (auto simp: readArrayOfConditions_def split: if_splits)
  have "\<forall>x\<in>set a. \<exists>c. x = Some c \<and> cond_bounded d c"
    using read_elems_all [of dec "\<lambda>x. \<exists>c. x = Some c \<and> cond_bounded d c", OF _ a guards(4)] assms(1) by blast
  moreover have "length a = unat l" using a by (rule length_read_elems)
  ultimately show ?thesis
    using guards by (auto simp: maxSubitems_def word_unat_eq_iff)
qed

lemma decodeBinaryCondition_bounded:
  assumes "decodeBinaryCondition cv d r = (res, r')" and "r_err r' = None"
  shows "(\<exists>c. res = Some c \<and> cond_bounded d c) \<and> r_err r = None"
  using assms
proof (induction d arbitrary: r res r')
  case (Suc d)
  obtain t r1 where t: "ReadB r = (t, r1)" by fastforce
  have r1: "r_err r1 = None" using Suc.prems t by (auto simp: Let_def split: if_splits)
  then have "r_err r = None" using strictD [OF strict_reads(1) t] by simp
  moreover have "\<exists>c. res = Some c \<and> cond_bounded (Suc d) c"
  proof (cases "t = 0x01 \<or> t = 0x02 \<or> t = 0x03")
    case False
    with Suc.prems t r1 show ?thesis
      by (auto simp: Let_def split: if_splits prod.splits)
  next
    case True
    obtain c r2 where c: "decodeBinaryCondition cv d r1 = (c, r2)" by fastforce
    obtain cs r3 where cs: "readArrayOfConditions (decodeBinaryCondition cv d) r1 = (cs, r3)" by fastforce
    consider "t = 0x01" | "t = 0x02" | "t = 0x03" using True by blast
    then show ?thesis
    proof cases
      case 1
      with Suc.prems t r1 c have "res = map_option ConditionNot c" "r_err r2 = None"
        by (auto simp: Let_def split: if_splits)
      with Suc.IH [OF c] show ?thesis by auto
    next
      case 2
      with Suc.prems t r1 cs have "res = map_option ConditionAnd cs" "r_err r3 = None"
        by (auto simp: Let_def split: if_splits)
      with readArrayOfConditions_bounded [of "decodeBinaryCondition cv d" d r1 cs r3] Suc.IH cs show ?thesis
        by auto
    next
      case 3
      with Suc.prems t r1 cs have "res = map_option ConditionOr cs" "r_err r3 = None"
        by (auto simp: Let_def split: if_splits)
      with readArrayOfConditions_bounded [of "decodeBinaryCondition cv d" d r1 cs r3] Suc.IH cs show ?thesis
        by auto
    qed
  qed
  ultimately show ?case by blast
qed simp

text \<open>
  A condition that decodes is nested at most two levels deep and its conjunctions and
  disjunctions have between one and sixteen operands, so that matching it is bounded;
  every deeper or larger encoding is refused with an error.
\<close>

theorem decoded_condition_bounded:
  assumes "DecodeBinaryCondition cv r = (res, r')"
  shows "r_err r' \<noteq> None \<or> (\<exists>c. res = Some c \<and> cond_bounded 2 c)"
  using decodeBinaryCondition_bounded [of cv MaxConditionNesting r res r'] assms
  by (auto simp: DecodeBinaryCondition_def MaxConditionNesting_def)

lemma ex_bool_ok: "cond_ok cv MaxConditionNesting (ConditionNot (ConditionBoolean True))"
  by (simp add: MaxConditionNesting_def numeral_2_eq_2)

theorem decoded_condition_bounded_witness:
  "\<exists>c. fst (DecodeBinaryCondition P256 (NewBinReaderFromBuf [0x01, 0x00, 0x01])) = Some c \<and> cond_bounded 2 c"
proof -
  have "r_err (snd (DecodeBinaryCondition P256 (NewBinReaderFromBuf [0x01, 0x00, 0x01]))) = None"
    using cond_codec.dec_out [of "Some (ConditionNot (ConditionBoolean True))" P256 "[]"] ex_bool_ok
    by (simp add: NewBinReaderFromBuf_def)
  with decoded_condition_bounded [OF surjective_pairing, of P256 "NewBinReaderFromBuf [0x01, 0x00, 0x01]"] show ?thesis by blast
qed

end
