(* ===== verification/Go_Search.thy ===== *)
theory Go_Search
  imports Main
begin

text \<open>
  The binary search of Go's \<^verbatim>\<open>sort\<close> package, which the memory pool and the table of system calls use, and what it
  finds for a predicate that stays true once it is.
\<close>

text \<open>\<^verbatim>\<open>sort.Search(n, f)\<close>, by bisection.\<close>

function search_from :: "(nat \<Rightarrow> bool) \<Rightarrow> nat \<Rightarrow> nat \<Rightarrow> nat" where
  "search_from f i j = (if i < j then
     let h = (i + j) div 2 in if \<not> f h then search_from f (h + 1) j else search_from f i h
   else i)"
  by pat_completeness auto

termination search_from
  by (relation "measure (\<lambda>(_, i, j). j - i)") auto

declare search_from.simps [simp del]

definition Search :: "nat \<Rightarrow> (nat \<Rightarrow> bool) \<Rightarrow> nat" where
  "Search n f = search_from f 0 n"

lemma search_from_least:
  assumes "i \<le> j" and "\<And>a b. i \<le> a \<Longrightarrow> a \<le> b \<Longrightarrow> b < j \<Longrightarrow> f a \<Longrightarrow> f b"
  shows "i \<le> search_from f i j \<and> search_from f i j \<le> j \<and>
    (\<forall>k. i \<le> k \<and> k < search_from f i j \<longrightarrow> \<not> f k) \<and> (search_from f i j < j \<longrightarrow> f (search_from f i j))"
  using assms
proof (induction f i j rule: search_from.induct)
  case (1 f i j)
  show ?case
  proof (cases "i < j")
    case True
    define h where "h = (i + j) div 2"
    have h: "i \<le> h" "h < j" using True by (simp_all add: h_def)
    show ?thesis
    proof (cases "f h")
      case False
      have eq: "search_from f i j = search_from f (h + 1) j"
        using True False by (subst search_from.simps) (simp add: h_def Let_def)
      have IH: "h + 1 \<le> search_from f (h + 1) j \<and> search_from f (h + 1) j \<le> j \<and>
          (\<forall>k. h + 1 \<le> k \<and> k < search_from f (h + 1) j \<longrightarrow> \<not> f k) \<and> (search_from f (h + 1) j < j \<longrightarrow> f (search_from f (h + 1) j))"
      proof (rule 1(1) [OF True h_def False])
        show "h + 1 \<le> j" using h by simp
        show "f b" if "h + 1 \<le> a" "a \<le> b" "b < j" "f a" for a b
          by (rule 1(4) [of a b]) (use that h in simp_all)
      qed
      moreover have "\<not> f k" if "i \<le> k" "k \<le> h" for k
        using that False 1(4) [of k h] h by blast
      ultimately have "\<not> f k" if "i \<le> k" "k < search_from f (h + 1) j" for k
        using that by (cases "k \<le> h") simp_all
      then show ?thesis unfolding eq using h IH by auto
    next
      case fh: True
      have eq: "search_from f i j = search_from f i h"
        using True fh by (subst search_from.simps) (simp add: h_def Let_def)
      have IH: "i \<le> search_from f i h \<and> search_from f i h \<le> h \<and>
          (\<forall>k. i \<le> k \<and> k < search_from f i h \<longrightarrow> \<not> f k) \<and> (search_from f i h < h \<longrightarrow> f (search_from f i h))"
      proof (rule 1(2) [OF True h_def])
        show "\<not> \<not> f h" "i \<le> h" using fh h by simp_all
        show "f b" if "i \<le> a" "a \<le> b" "b < h" "f a" for a b
          by (rule 1(4) [of a b]) (use that h in simp_all)
      qed
      moreover have "f (search_from f i h)"
        using IH fh by (cases "search_from f i h = h") auto
      ultimately show ?thesis unfolding eq using h by auto
    qed
  next
    case False
    with 1(3) have "i = j" by simp
    then show ?thesis by (auto simp: search_from.simps)
  qed
qed

lemma Search_least:
  assumes "\<And>a b. a \<le> b \<Longrightarrow> b < n \<Longrightarrow> f a \<Longrightarrow> f b"
  shows "Search n f \<le> n" and "k < Search n f \<Longrightarrow> \<not> f k" and "Search n f < n \<Longrightarrow> f (Search n f)"
    and "Search n f \<le> k \<Longrightarrow> k < n \<Longrightarrow> f k"
proof -
  note s = search_from_least [of 0 n f]
  show "Search n f \<le> n" "k < Search n f \<Longrightarrow> \<not> f k" "Search n f < n \<Longrightarrow> f (Search n f)"
    using s assms by (auto simp: Search_def)
  then show "Search n f \<le> k \<Longrightarrow> k < n \<Longrightarrow> f k"
    using assms [of "Search n f" k] by simp
qed

lemma Search_splits:
  assumes "\<forall>a b. a \<le> b \<longrightarrow> b < n \<longrightarrow> f a \<longrightarrow> f b"
  shows "Search n f \<le> n \<and> (\<forall>k<Search n f. \<not> f k) \<and> (\<forall>k. Search n f \<le> k \<and> k < n \<longrightarrow> f k)"
proof -
  have s: "Search n f \<le> n" "\<forall>k<Search n f. \<not> f k" "Search n f < n \<longrightarrow> f (Search n f)"
    using search_from_least [of 0 n f] assms by (simp_all add: Search_def)
  then have "f k" if "Search n f \<le> k" "k < n" for k
    using that assms by (meson le_less_trans)
  with s show ?thesis by blast
qed

end
