(* ===== verification/Mempool.thy ===== *)
theory Mempool
  imports Transaction Go_Search
begin

text \<open>
  \<^verbatim>\<open>src/pkg/core/mempool/mem_pool.go\<close>: the pool of unconfirmed transactions, sorted by priority,
  with the fees each payer owes, the index of Conflicts attributes and the index of oracle
  responses. The transactions in it have been decoded, so that their hash and size are at
  hand (\<open>tx_hash\<close>, \<open>tx_size\<close>) and attribute values have the types their kinds announce. Events
  sent to subscribers are collected in the pool; the metrics callback is not modelled.
  \<^verbatim>\<open>uint256.Int\<close> is a 256-bit unsigned integer whose operations wrap around.
\<close>

section \<open>State\<close>

datatype pool_err = ErrInsufficientFunds | ErrConflict | ErrDup | ErrOOM | ErrConflictsAttribute
  | ErrOracleResponse | PoolPanic

record 'd item =
  it_txn :: transaction
  it_blockStamp :: uint32
  it_data :: "'d option"

record balance_and_fees =
  bf_balance :: uint256
  bf_feeSum :: uint256

datatype event_type = TransactionAdded | TransactionRemoved

record 'd pool =
  mp_verifiedMap :: "(uint256, transaction) gomap"
  mp_verifiedTxes :: "'d item list"
  mp_fees :: "(uint160, balance_and_fees) gomap"
  mp_conflicts :: "(uint256, uint256 list) gomap"
  mp_oracleResp :: "(uint64, uint256) gomap"
  mp_capacity :: nat
  mp_feePerByte :: int64
  mp_payerIndex :: nat
  mp_resendThreshold :: uint32
  mp_subscriptionsOn :: bool
  mp_events :: "(event_type \<times> transaction \<times> 'd option) list"

text \<open>The methods of \<^verbatim>\<open>Feer\<close>, which the blockchain implements.\<close>

record feer =
  fr_FeePerByte :: int64
  fr_Balance :: "uint160 \<Rightarrow> int"
  fr_BlockHeight :: uint32

definition New :: "nat \<Rightarrow> nat \<Rightarrow> 'd pool" where
  "New cap payerIndex = \<lparr>mp_verifiedMap = [], mp_verifiedTxes = [], mp_fees = [], mp_conflicts = [],
     mp_oracleResp = [], mp_capacity = cap, mp_feePerByte = 0, mp_payerIndex = payerIndex,
     mp_resendThreshold = 0, mp_subscriptionsOn = False, mp_events = []\<rparr>"

definition SetResendThreshold :: "uint32 \<Rightarrow> 'd pool \<Rightarrow> 'd pool" where
  "SetResendThreshold h mp = mp\<lparr>mp_resendThreshold := h\<rparr>"

section \<open>What the pool reads of a transaction\<close>

definition tx_fee :: "transaction \<Rightarrow> uint64" where
  "tx_fee t = tx_SystemFee t + tx_NetworkFee t"

definition fee_per_byte :: "transaction \<Rightarrow> int64" where
  "fee_per_byte t = word_of_int (sint (tx_NetworkFee t) sdiv int (tx_size t))"

definition conflict_hashes :: "transaction \<Rightarrow> uint256 list" where
  "conflict_hashes t = concat (map (\<lambda>a. case at_Value a of Some (Conflicts h) \<Rightarrow> [h] | _ \<Rightarrow> []) (GetAttributes t ConflictsT))"

definition oracle_id :: "transaction \<Rightarrow> uint64 option" where
  "oracle_id t = (case GetAttributes t OracleResponseT of
     [] \<Rightarrow> None
   | a # _ \<Rightarrow> (case at_Value a of Some (OracleResponse i c r) \<Rightarrow> Some i | _ \<Rightarrow> None))"

definition payer_of :: "'d pool \<Rightarrow> transaction \<Rightarrow> uint160 option" where
  "payer_of mp t = (if mp_payerIndex mp < length (tx_Signers t)
     then Some (sg_Account (tx_Signers t ! mp_payerIndex mp)) else None)"

text \<open>\<^verbatim>\<open>CompareTo\<close> subtracts 64-bit integers.\<close>

definition CompareTo :: "transaction \<Rightarrow> transaction \<Rightarrow> int" where
  "CompareTo p otherP =
    (let pHigh = HasAttribute p HighPriority; otherHigh = HasAttribute otherP HighPriority in
     if pHigh \<and> \<not> otherHigh then 1
     else if \<not> pHigh \<and> otherHigh then -1
     else let ret = sint (fee_per_byte p - fee_per_byte otherP) in
       if ret \<noteq> 0 then ret
       else sint (tx_NetworkFee p - tx_NetworkFee otherP))"

section \<open>Queries\<close>

definition pool_count :: "'d pool \<Rightarrow> nat" where
  "pool_count mp = length (mp_verifiedTxes mp)"

definition containsKey :: "'d pool \<Rightarrow> uint256 \<Rightarrow> bool" where
  "containsKey mp h \<longleftrightarrow> map_of (mp_verifiedMap mp) h \<noteq> None"

definition HasConflicts :: "'d pool \<Rightarrow> transaction \<Rightarrow> bool" where
  "HasConflicts mp t \<longleftrightarrow> containsKey mp (tx_hash t) \<or> map_of (mp_conflicts mp) (tx_hash t) \<noteq> None \<or>
     (\<exists>h\<in>set (conflict_hashes t). containsKey mp h)"

definition TryGetValue :: "'d pool \<Rightarrow> uint256 \<Rightarrow> transaction option" where
  "TryGetValue mp h = map_of (mp_verifiedMap mp) h"

fun scan_data :: "transaction \<Rightarrow> uint256 \<Rightarrow> 'd item list \<Rightarrow> 'd option option" where
  "scan_data tx h [] = None"
| "scan_data tx h (itm # itms) =
    (if tx_hash (it_txn itm) = h then Some (it_data itm)
     else if CompareTo tx (it_txn itm) \<noteq> 0 then None
     else scan_data tx h itms)"

definition TryGetData :: "'d pool \<Rightarrow> uint256 \<Rightarrow> 'd option option" where
  "TryGetData mp h = (case map_of (mp_verifiedMap mp) h of
     None \<Rightarrow> None
   | Some tx \<Rightarrow>
       (let n = Search (length (mp_verifiedTxes mp)) (\<lambda>n. CompareTo tx (it_txn (mp_verifiedTxes mp ! n)) \<ge> 0) in
        scan_data tx h (drop n (mp_verifiedTxes mp))))"

definition GetVerifiedTransactions :: "'d pool \<Rightarrow> transaction list" where
  "GetVerifiedTransactions mp = map it_txn (mp_verifiedTxes mp)"

text \<open>The callback is a function on a state of its own and answers whether to go on.\<close>

fun IterateVerifiedTransactions ::
  "('s \<Rightarrow> transaction \<Rightarrow> 'd option \<Rightarrow> bool \<times> 's) \<Rightarrow> 'd item list \<Rightarrow> 's \<Rightarrow> 's" where
  "IterateVerifiedTransactions cont [] s = s"
| "IterateVerifiedTransactions cont (itm # itms) s =
    (case cont s (it_txn itm) (it_data itm) of (go_on, s') \<Rightarrow>
       if go_on then IterateVerifiedTransactions cont itms s' else s')"

section \<open>Fees\<close>

definition get_fees :: "'d pool \<Rightarrow> feer \<Rightarrow> uint160 \<Rightarrow> balance_and_fees" where
  "get_fees mp fee p = (case map_of (mp_fees mp) p of
     Some bf \<Rightarrow> bf
   | None \<Rightarrow> \<lparr>bf_balance = word_of_int (fr_Balance fee p), bf_feeSum = 0\<rparr>)"

definition checkBalance :: "transaction \<Rightarrow> balance_and_fees \<Rightarrow> pool_err + uint256" where
  "checkBalance t bal =
    (let txFee = ucast (tx_fee t) in
     if bf_balance bal < txFee then Inl ErrInsufficientFunds
     else let s = txFee + bf_feeSum bal in
       if bf_balance bal < s then Inl ErrConflict else Inr s)"

text \<open>
  \<^verbatim>\<open>tryAddSendersFee\<close>: the pool with the fees added, and whether the payer can pay. A payer out
  of the signers' range panics; the model then leaves the pool alone.
\<close>

definition tryAddSendersFee :: "'d pool \<Rightarrow> transaction \<Rightarrow> feer \<Rightarrow> bool \<Rightarrow> bool \<times> 'd pool" where
  "tryAddSendersFee mp t fee needCheck = (case payer_of mp t of
     None \<Rightarrow> (False, mp)
   | Some p \<Rightarrow>
      (let senderFee = get_fees mp fee p; mp1 = mp\<lparr>mp_fees := AList.update p senderFee (mp_fees mp)\<rparr> in
       if needCheck then
         (case checkBalance t senderFee of
            Inl _ \<Rightarrow> (False, mp1)
          | Inr s \<Rightarrow> (True, mp1\<lparr>mp_fees := AList.update p (senderFee\<lparr>bf_feeSum := s\<rparr>) (mp_fees mp1)\<rparr>))
       else (True, mp1\<lparr>mp_fees := AList.update p
              (senderFee\<lparr>bf_feeSum := bf_feeSum senderFee + ucast (tx_fee t)\<rparr>) (mp_fees mp1)\<rparr>)))"

section \<open>Conflicts\<close>

definition conflict_list :: "'d pool \<Rightarrow> uint256 \<Rightarrow> uint256 list" where
  "conflict_list mp h = (case map_of (mp_conflicts mp) h of None \<Rightarrow> [] | Some hs \<Rightarrow> hs)"

definition addConflict :: "uint256 \<Rightarrow> uint256 \<Rightarrow> 'd pool \<Rightarrow> 'd pool" where
  "addConflict txh h mp = mp\<lparr>mp_conflicts := AList.update h (conflict_list mp h @ [txh]) (mp_conflicts mp)\<rparr>"

definition addConflictsOf :: "transaction \<Rightarrow> 'd pool \<Rightarrow> 'd pool" where
  "addConflictsOf t mp = fold (addConflict (tx_hash t)) (conflict_hashes t) mp"

definition removeConflict :: "uint256 \<Rightarrow> uint256 \<Rightarrow> 'd pool \<Rightarrow> 'd pool" where
  "removeConflict txh h mp =
    (if length (conflict_list mp h) = 1 then mp\<lparr>mp_conflicts := AList.delete h (mp_conflicts mp)\<rparr>
     else if txh \<in> set (conflict_list mp h)
     then mp\<lparr>mp_conflicts := AList.update h (remove1 txh (conflict_list mp h)) (mp_conflicts mp)\<rparr>
     else mp)"

definition removeConflictsOf :: "transaction \<Rightarrow> 'd pool \<Rightarrow> 'd pool" where
  "removeConflictsOf t mp = fold (removeConflict (tx_hash t)) (conflict_hashes t) mp"

text \<open>Step 1: the pooled transactions that name \<open>t\<close>; step 2: those \<open>t\<close> names.\<close>

fun conflicts_step1 :: "'d pool \<Rightarrow> uint160 \<Rightarrow> uint256 list \<Rightarrow> int64 \<times> transaction list \<Rightarrow> (int64 \<times> transaction list) option" where
  "conflicts_step1 mp p [] acc = Some acc"
| "conflicts_step1 mp p (h # hs) (cf, rm) = (case map_of (mp_verifiedMap mp) h of
     None \<Rightarrow> None
   | Some ex \<Rightarrow> conflicts_step1 mp p hs (if HasSigner ex p then cf + tx_NetworkFee ex else cf, rm @ [ex]))"

fun conflicts_step2 :: "'d pool \<Rightarrow> transaction \<Rightarrow> uint256 list \<Rightarrow> int64 \<times> transaction list \<Rightarrow> (int64 \<times> transaction list) option" where
  "conflicts_step2 mp t [] acc = Some acc"
| "conflicts_step2 mp t (h # hs) (cf, rm) = (case map_of (mp_verifiedMap mp) h of
     None \<Rightarrow> conflicts_step2 mp t hs (cf, rm)
   | Some ex \<Rightarrow>
       if \<exists>s\<in>set (tx_Signers ex). HasSigner t (sg_Account s)
       then conflicts_step2 mp t hs (cf + tx_NetworkFee ex, rm @ [ex])
       else None)"

fun subtract_fees :: "'d pool \<Rightarrow> uint160 \<Rightarrow> transaction list \<Rightarrow> uint256 \<Rightarrow> uint256" where
  "subtract_fees mp p [] s = s"
| "subtract_fees mp p (c # cs) s =
     subtract_fees mp p cs (if payer_of mp c = Some p then s - ucast (tx_fee c) else s)"

definition checkTxConflicts :: "'d pool \<Rightarrow> transaction \<Rightarrow> feer \<Rightarrow> pool_err + transaction list" where
  "checkTxConflicts mp t fee = (case payer_of mp t of
     None \<Rightarrow> Inl PoolPanic
   | Some p \<Rightarrow>
      (let actual = get_fees mp fee p in
       case conflicts_step1 mp p (conflict_list mp (tx_hash t)) (0, []) of
         None \<Rightarrow> Inl PoolPanic
       | Some acc1 \<Rightarrow> (case conflicts_step2 mp t (conflict_hashes t) acc1 of
           None \<Rightarrow> Inl ErrConflictsAttribute
         | Some (conflictingFee, toBeRemoved) \<Rightarrow>
             if conflictingFee \<noteq> 0 \<and> sint (tx_NetworkFee t) \<le> sint conflictingFee then Inl ErrConflictsAttribute
             else (case checkBalance t (actual\<lparr>bf_feeSum := subtract_fees mp p toBeRemoved (bf_feeSum actual)\<rparr>) of
                 Inl e \<Rightarrow> Inl e
               | Inr _ \<Rightarrow> Inr toBeRemoved))))"

definition Verify :: "'d pool \<Rightarrow> transaction \<Rightarrow> feer \<Rightarrow> bool" where
  "Verify mp t fee = (case checkTxConflicts mp t fee of Inl _ \<Rightarrow> False | Inr _ \<Rightarrow> True)"

section \<open>Removal\<close>

text \<open>The index at which the search loop stops: the hash's, or the last one.\<close>

fun index_of_hash :: "uint256 \<Rightarrow> 'd item list \<Rightarrow> nat" where
  "index_of_hash h [] = 0"
| "index_of_hash h [itm] = 0"
| "index_of_hash h (itm # itms) = (if tx_hash (it_txn itm) = h then 0 else Suc (index_of_hash h itms))"

definition emit :: "event_type \<Rightarrow> 'd item \<Rightarrow> 'd pool \<Rightarrow> 'd pool" where
  "emit ty itm mp = (if mp_subscriptionsOn mp
     then mp\<lparr>mp_events := mp_events mp @ [(ty, it_txn itm, it_data itm)]\<rparr> else mp)"

definition removeOracle :: "transaction \<Rightarrow> 'd pool \<Rightarrow> 'd pool" where
  "removeOracle t mp = (case oracle_id t of
     None \<Rightarrow> mp | Some i \<Rightarrow> mp\<lparr>mp_oracleResp := AList.delete i (mp_oracleResp mp)\<rparr>)"

definition removeInternal :: "uint256 \<Rightarrow> 'd pool \<Rightarrow> 'd pool option" where
  "removeInternal h mp = (case map_of (mp_verifiedMap mp) h of
     None \<Rightarrow> Some mp
   | Some tx \<Rightarrow>
       if mp_verifiedTxes mp = [] then None
       else let num = index_of_hash h (mp_verifiedTxes mp); itm = mp_verifiedTxes mp ! num in
         (case payer_of mp (it_txn itm) of
            None \<Rightarrow> None
          | Some p \<Rightarrow>
             (let senderFee = (case map_of (mp_fees mp) p of Some bf \<Rightarrow> bf | None \<Rightarrow> \<lparr>bf_balance = 0, bf_feeSum = 0\<rparr>);
                  mp = mp\<lparr>mp_verifiedMap := AList.delete h (mp_verifiedMap mp),
                      mp_verifiedTxes := take num (mp_verifiedTxes mp) @ drop (num + 1) (mp_verifiedTxes mp),
                      mp_fees := AList.update p (senderFee\<lparr>bf_feeSum := bf_feeSum senderFee - ucast (tx_fee tx)\<rparr>) (mp_fees mp)\<rparr>
              in Some (emit TransactionRemoved itm (removeOracle tx (removeConflictsOf tx mp))))))"

definition Remove :: "uint256 \<Rightarrow> 'd pool \<Rightarrow> 'd pool option" where
  "Remove h mp = removeInternal h mp"

fun removeAll_of :: "transaction list \<Rightarrow> 'd pool \<Rightarrow> 'd pool option" where
  "removeAll_of [] mp = Some mp"
| "removeAll_of (t # ts) mp = (case removeInternal (tx_hash t) mp of
     None \<Rightarrow> None | Some mp' \<Rightarrow> removeAll_of ts mp')"

section \<open>Addition\<close>

text \<open>\<^verbatim>\<open>copy(v[n+1:], v[n:]); v[n] = p\<close> on a slice whose last element is \<open>p\<close> already.\<close>

definition place :: "nat \<Rightarrow> 'd item \<Rightarrow> 'd item list \<Rightarrow> 'd item list" where
  "place n p v = (if n \<noteq> length v - 1 then take n v @ [p] @ take (length v - n - 1) (drop n v) else v)"

text \<open>The oracle response section of \<^verbatim>\<open>Add\<close>: it may fail, and panics on a stale entry.\<close>

definition addOracle :: "transaction \<Rightarrow> 'd pool \<Rightarrow> pool_err + 'd pool" where
  "addOracle t mp = (case oracle_id t of
     None \<Rightarrow> Inr mp
   | Some i \<Rightarrow>
      (let register = (\<lambda>mp. mp\<lparr>mp_oracleResp := AList.update i (tx_hash t) (mp_oracleResp mp)\<rparr>) in
       case map_of (mp_oracleResp mp) i of
         None \<Rightarrow> Inr (register mp)
       | Some h \<Rightarrow> (case map_of (mp_verifiedMap mp) h of
           None \<Rightarrow> Inl PoolPanic
         | Some ex \<Rightarrow>
             if sint (tx_NetworkFee ex) \<ge> sint (tx_NetworkFee t) then Inl ErrOracleResponse
             else (case removeInternal h mp of None \<Rightarrow> Inl PoolPanic | Some mp' \<Rightarrow> Inr (register mp')))))"

text \<open>Ditching the least prioritized transaction of a full pool.\<close>

definition ditch_last :: "'d item \<Rightarrow> 'd pool \<Rightarrow> 'd pool" where
  "ditch_last pItem mp =
    (let unlucky = last (mp_verifiedTxes mp);
         mp = mp\<lparr>mp_verifiedMap := AList.delete (tx_hash (it_txn unlucky)) (mp_verifiedMap mp)\<rparr>;
         mp = removeOracle (it_txn unlucky) (removeConflictsOf (it_txn unlucky) mp);
         mp = mp\<lparr>mp_verifiedTxes := butlast (mp_verifiedTxes mp) @ [pItem]\<rparr>
     in emit TransactionRemoved unlucky mp)"

definition insertItem :: "'d item \<Rightarrow> feer \<Rightarrow> 'd pool \<Rightarrow> pool_err option \<times> 'd pool" where
  "insertItem pItem fee mp =
    (let t = it_txn pItem;
         n = Search (length (mp_verifiedTxes mp)) (\<lambda>n. CompareTo t (it_txn (mp_verifiedTxes mp ! n)) > 0);
         full = (length (mp_verifiedTxes mp) = mp_capacity mp) in
     if full \<and> n = length (mp_verifiedTxes mp) then (Some ErrOOM, mp)
     else
       let mp = (if full then ditch_last pItem mp else mp\<lparr>mp_verifiedTxes := mp_verifiedTxes mp @ [pItem]\<rparr>);
           mp = mp\<lparr>mp_verifiedTxes := place n pItem (mp_verifiedTxes mp)\<rparr>;
           mp = mp\<lparr>mp_verifiedMap := AList.update (tx_hash t) t (mp_verifiedMap mp)\<rparr>;
           mp = addConflictsOf t mp;
           mp = snd (tryAddSendersFee mp t fee False)
       in (None, emit TransactionAdded pItem mp))"

text \<open>The result of \<^verbatim>\<open>Add\<close>: the error, if any, and the pool it leaves.\<close>

definition Add :: "transaction \<Rightarrow> 'd option \<Rightarrow> feer \<Rightarrow> 'd pool \<Rightarrow> pool_err option \<times> 'd pool" where
  "Add t data fee mp =
    (let pItem = \<lparr>it_txn = t, it_blockStamp = fr_BlockHeight fee, it_data = data\<rparr> in
     if containsKey mp (tx_hash t) then (Some ErrDup, mp)
     else case checkTxConflicts mp t fee of
       Inl e \<Rightarrow> (Some e, mp)
     | Inr toBeRemoved \<Rightarrow> (case addOracle t mp of
         Inl e \<Rightarrow> (Some e, mp)
       | Inr mp1 \<Rightarrow> (case removeAll_of toBeRemoved mp1 of
           None \<Rightarrow> (Some PoolPanic, mp1)
         | Some mp2 \<Rightarrow> insertItem pItem fee mp2)))"

section \<open>Removal of stale transactions\<close>

definition loadPolicy :: "feer \<Rightarrow> 'd pool \<Rightarrow> bool \<times> 'd pool" where
  "loadPolicy fee mp = (if sint (fr_FeePerByte fee) > sint (mp_feePerByte mp)
     then (True, mp\<lparr>mp_feePerByte := fr_FeePerByte fee\<rparr>) else (False, mp))"

definition checkPolicy :: "'d pool \<Rightarrow> transaction \<Rightarrow> bool \<Rightarrow> bool" where
  "checkPolicy mp t policyChanged \<longleftrightarrow> \<not> policyChanged \<or> sint (fee_per_byte t) \<ge> sint (mp_feePerByte mp)"

definition OnesCount32 :: "uint32 \<Rightarrow> nat" where
  "OnesCount32 w = length (filter (bit w) [0..<32])"

definition to_resend :: "'d pool \<Rightarrow> uint32 \<Rightarrow> 'd item \<Rightarrow> bool" where
  "to_resend mp height itm \<longleftrightarrow> mp_resendThreshold mp \<noteq> 0 \<and>
    (let diff = height - it_blockStamp itm in
     diff mod mp_resendThreshold mp = 0 \<and> OnesCount32 (diff div mp_resendThreshold mp) = 1)"

text \<open>The loop: the items kept, the items to resend and the pool.\<close>

fun stale_loop :: "(transaction \<Rightarrow> bool) \<Rightarrow> feer \<Rightarrow> bool \<Rightarrow> 'd item list \<Rightarrow> 'd pool \<Rightarrow> 'd item list \<times> 'd item list \<times> 'd pool" where
  "stale_loop isOK fee changed [] mp = ([], [], mp)"
| "stale_loop isOK fee changed (itm # itms) mp =
    (let t = it_txn itm;
         (keep, mp) = (if isOK t \<and> checkPolicy mp t changed then tryAddSendersFee mp t fee True else (False, mp)) in
     if keep then
       (case stale_loop isOK fee changed itms (addConflictsOf t mp) of (kept, stale, mp') \<Rightarrow>
          (itm # kept, (if to_resend mp (fr_BlockHeight fee) itm then itm # stale else stale), mp'))
     else stale_loop isOK fee changed itms
       (emit TransactionRemoved itm (removeOracle t
          (mp\<lparr>mp_verifiedMap := AList.delete (tx_hash t) (mp_verifiedMap mp)\<rparr>))))"

definition RemoveStale :: "(transaction \<Rightarrow> bool) \<Rightarrow> feer \<Rightarrow> 'd pool \<Rightarrow> 'd item list \<times> 'd pool" where
  "RemoveStale isOK fee mp =
    (let (policyChanged, mp) = loadPolicy fee mp;
         mp = mp\<lparr>mp_fees := [], mp_conflicts := []\<rparr>;
         (kept, stale, mp) = stale_loop isOK fee policyChanged (mp_verifiedTxes mp) mp
     in (stale, mp\<lparr>mp_verifiedTxes := kept\<rparr>))"

end
