(* ===== verification/Mempool_Spec.thy ===== *)
theory Mempool_Spec
  imports Mempool "HOL-Library.Multiset"
begin

text \<open>
  The invariant of the memory pool: the map and the sorted slice hold the same transactions,
  within the capacity, and the index of conflicts is exactly that of the pooled
  transactions. Every operation keeps it.
\<close>

section \<open>Priorities\<close>

definition tx_fine :: "'d pool \<Rightarrow> transaction \<Rightarrow> bool" where
  "tx_fine mp t \<longleftrightarrow> 0 \<le> sint (tx_NetworkFee t) \<and> 0 < tx_size t \<and> mp_payerIndex mp < length (tx_Signers t)"

definition priority :: "transaction \<Rightarrow> int \<times> int \<times> int" where
  "priority t = (if HasAttribute t HighPriority then 1 else 0, sint (fee_per_byte t), sint (tx_NetworkFee t))"

definition prio_less :: "transaction \<Rightarrow> transaction \<Rightarrow> bool" where
  "prio_less a b \<longleftrightarrow> (case (priority a, priority b) of ((x, y, z), (x', y', z')) \<Rightarrow>
     x < x' \<or> (x = x' \<and> (y < y' \<or> (y = y' \<and> z < z'))))"

lemma sint_diff_nonneg:
  fixes a b :: int64
  assumes "0 \<le> sint a" and "0 \<le> sint b"
  shows "sint (a - b) = sint a - sint b"
proof -
  have "sint a < 2 ^ 63" "sint b < 2 ^ 63" using sint_lt [of a] sint_lt [of b] by simp_all
  with assms have "signed_take_bit 63 (sint a - sint b) = sint a - sint b"
    by (intro signed_take_bit_int_eq_self) simp_all
  then show ?thesis by (simp add: sint_word_ariths)
qed

lemma fee_per_byte_nonneg:
  assumes "0 \<le> sint (tx_NetworkFee t)" and "0 < tx_size t"
  shows "0 \<le> sint (fee_per_byte t)"
proof -
  let ?q = "sint (tx_NetworkFee t) sdiv int (tx_size t)"
  have q: "?q = sint (tx_NetworkFee t) div int (tx_size t)"
    using assms by (simp add: signed_divide_int_def sgn_if)
  have "0 \<le> ?q" using assms by (simp add: q div_int_pos_iff)
  moreover have "?q \<le> sint (tx_NetworkFee t)"
    unfolding q using assms zdiv_mono2 [of "sint (tx_NetworkFee t)" 1 "int (tx_size t)"] by simp
  moreover have "sint (tx_NetworkFee t) < 2 ^ 63" using sint_lt [of "tx_NetworkFee t"] by simp
  ultimately have "sint (word_of_int ?q :: int64) = ?q"
    by (simp add: sint_sbintrunc' signed_take_bit_int_eq_self)
  with \<open>0 \<le> ?q\<close> show ?thesis by (simp add: fee_per_byte_def)
qed

lemma CompareTo_prio:
  assumes "tx_fine mp a" and "tx_fine mp b"
  shows "CompareTo a b > 0 \<longleftrightarrow> prio_less b a" and "CompareTo a b < 0 \<longleftrightarrow> prio_less a b"
    and "CompareTo a b = 0 \<longleftrightarrow> priority a = priority b"
proof -
  have "0 \<le> sint (fee_per_byte a)" "0 \<le> sint (fee_per_byte b)" "0 \<le> sint (tx_NetworkFee a)" "0 \<le> sint (tx_NetworkFee b)"
    using assms by (auto simp: tx_fine_def intro: fee_per_byte_nonneg)
  then show "CompareTo a b > 0 \<longleftrightarrow> prio_less b a" and "CompareTo a b < 0 \<longleftrightarrow> prio_less a b"
    and "CompareTo a b = 0 \<longleftrightarrow> priority a = priority b"
    by (auto simp: CompareTo_def prio_less_def priority_def sint_diff_nonneg Let_def)
qed

lemma prio_less_order:
  "\<not> prio_less a a" "prio_less a b \<Longrightarrow> \<not> prio_less b a"
  "\<not> prio_less a b \<Longrightarrow> \<not> prio_less b c \<Longrightarrow> \<not> prio_less a c"
  "prio_less a b \<Longrightarrow> prio_less b c \<Longrightarrow> prio_less a c"
  "\<not> prio_less a b \<Longrightarrow> \<not> prio_less b a \<Longrightarrow> priority a = priority b"
  by (auto simp: prio_less_def split: prod.splits)

text \<open>The slice is sorted from the most to the least prioritized transaction.\<close>

definition by_priority :: "transaction list \<Rightarrow> bool" where
  "by_priority = sorted_wrt (\<lambda>a b. \<not> prio_less a b)"

section \<open>The index of conflicts\<close>

definition conf_ms :: "transaction list \<Rightarrow> uint256 \<Rightarrow> uint256 multiset" where
  "conf_ms ts h = sum_list (map (\<lambda>t. replicate_mset (count_list (conflict_hashes t) h) (tx_hash t)) ts)"

lemma conf_ms_simps [simp]:
  "conf_ms [] h = {#}"
  "conf_ms (t # ts) h = replicate_mset (count_list (conflict_hashes t) h) (tx_hash t) + conf_ms ts h"
  "conf_ms (xs @ ys) h = conf_ms xs h + conf_ms ys h"
  by (simp_all add: conf_ms_def)

lemma conf_ms_mset: "mset xs = mset ys \<Longrightarrow> conf_ms xs h = conf_ms ys h"
  unfolding conf_ms_def by (simp flip: sum_mset_sum_list)

lemma conf_ms_mem: "x \<in># conf_ms ts h \<Longrightarrow> \<exists>t\<in>set ts. tx_hash t = x \<and> h \<in> set (conflict_hashes t)"
proof (induction ts)
  case (Cons t ts)
  then consider "x \<in># replicate_mset (count_list (conflict_hashes t) h) (tx_hash t)" | "x \<in># conf_ms ts h" by auto
  then show ?case
  proof cases
    case 1
    then have "count_list (conflict_hashes t) h \<noteq> 0" "x = tx_hash t" by (auto split: if_splits)
    then show ?thesis by (auto simp: count_list_0_iff)
  next
    case 2
    with Cons.IH show ?thesis by auto
  qed
qed simp

lemma conflict_list_addConflict:
  "conflict_list (addConflict x h mp) h' = (if h' = h then conflict_list mp h @ [x] else conflict_list mp h')"
  by (simp add: conflict_list_def addConflict_def)

lemma addConflictsOf_list:
  "mset (conflict_list (fold (addConflict x) hs mp) h) = mset (conflict_list mp h) + replicate_mset (count_list hs h) x"
proof (induction hs arbitrary: mp)
  case (Cons a hs)
  then show ?case by (simp add: conflict_list_addConflict)
qed simp

lemma removeConflict_list:
  assumes "h = h' \<Longrightarrow> x \<in> set (conflict_list mp h)"
  shows "mset (conflict_list (removeConflict x h mp) h') =
    (if h' = h then mset (conflict_list mp h) - {#x#} else mset (conflict_list mp h'))"
proof (cases "length (conflict_list mp h) = 1")
  case True
  then obtain y where "conflict_list mp h = [y]" by (auto simp: length_Suc_conv)
  with assms True show ?thesis
    by (auto simp: removeConflict_def conflict_list_def split: option.splits)
next
  case False
  then show ?thesis
    using assms by (auto simp: removeConflict_def conflict_list_def mset_remove1 split: option.splits)
qed

lemma removeConflictsOf_list:
  assumes "replicate_mset (count_list hs h) x \<subseteq># mset (conflict_list mp h)"
  shows "mset (conflict_list (fold (removeConflict x) hs mp) h) = mset (conflict_list mp h) - replicate_mset (count_list hs h) x"
  using assms
proof (induction hs arbitrary: mp)
  case (Cons a hs)
  have mem: "a = h \<Longrightarrow> x \<in> set (conflict_list mp h)"
    using Cons.prems by (metis count_list.simps(2) in_replicate_mset mset_subset_eqD set_mset_mset add_gr_0 less_numeral_extra(1))
  have one: "mset (conflict_list (removeConflict x a mp) h) =
      (if h = a then mset (conflict_list mp a) - {#x#} else mset (conflict_list mp h))"
    using mem by (intro removeConflict_list) auto
  have "replicate_mset (count_list hs h) x \<subseteq># mset (conflict_list (removeConflict x a mp) h)"
    using Cons.prems unfolding one by (auto simp: subset_eq_diff_conv insert_subset_eq_iff)
  from Cons.IH [OF this] show ?case
    unfolding one by (auto simp: diff_diff_add)
qed simp

section \<open>The invariant\<close>

definition pool_ok :: "'d pool \<Rightarrow> bool" where
  "pool_ok mp \<longleftrightarrow> (let ts = GetVerifiedTransactions mp in
     (\<forall>t\<in>set ts. tx_fine mp t) \<and> distinct (map tx_hash ts) \<and>
     (\<forall>h t. map_of (mp_verifiedMap mp) h = Some t \<longleftrightarrow> t \<in> set ts \<and> tx_hash t = h) \<and>
     by_priority ts \<and> length ts \<le> mp_capacity mp \<and>
     (\<forall>h. mset (conflict_list mp h) = conf_ms ts h))"

text \<open>The components that the invariant depends on.\<close>

definition pool_core :: "'d pool \<Rightarrow> _" where
  "pool_core mp = (mp_verifiedMap mp, mp_verifiedTxes mp, mp_conflicts mp, mp_capacity mp, mp_payerIndex mp)"

lemma pool_ok_core: "pool_core mp = pool_core mp' \<Longrightarrow> pool_ok mp \<Longrightarrow> pool_ok mp'"
  by (simp add: pool_core_def pool_ok_def GetVerifiedTransactions_def tx_fine_def conflict_list_def Let_def)

lemma pool_okD:
  assumes "pool_ok mp"
  shows "\<And>t. t \<in> set (GetVerifiedTransactions mp) \<Longrightarrow> tx_fine mp t" "distinct (map tx_hash (GetVerifiedTransactions mp))"
    "\<And>h t. map_of (mp_verifiedMap mp) h = Some t \<longleftrightarrow> t \<in> set (GetVerifiedTransactions mp) \<and> tx_hash t = h"
    "by_priority (GetVerifiedTransactions mp)" "length (GetVerifiedTransactions mp) \<le> mp_capacity mp"
    "\<And>h. mset (conflict_list mp h) = conf_ms (GetVerifiedTransactions mp) h"
  using assms by (simp_all add: pool_ok_def Let_def)

lemma emit_fields [simp]:
  "mp_verifiedMap (emit ty itm mp) = mp_verifiedMap mp" "mp_verifiedTxes (emit ty itm mp) = mp_verifiedTxes mp"
  "mp_conflicts (emit ty itm mp) = mp_conflicts mp" "mp_capacity (emit ty itm mp) = mp_capacity mp"
  "mp_payerIndex (emit ty itm mp) = mp_payerIndex mp" "mp_fees (emit ty itm mp) = mp_fees mp"
  "mp_oracleResp (emit ty itm mp) = mp_oracleResp mp"
  by (simp_all add: emit_def)

lemma removeOracle_fields [simp]:
  "mp_verifiedMap (removeOracle t mp) = mp_verifiedMap mp" "mp_verifiedTxes (removeOracle t mp) = mp_verifiedTxes mp"
  "mp_conflicts (removeOracle t mp) = mp_conflicts mp" "mp_capacity (removeOracle t mp) = mp_capacity mp"
  "mp_payerIndex (removeOracle t mp) = mp_payerIndex mp" "mp_fees (removeOracle t mp) = mp_fees mp"
  by (simp_all add: removeOracle_def split: option.splits)

lemma removeConflict_fields [simp]:
  "mp_verifiedMap (removeConflict x h mp) = mp_verifiedMap mp" "mp_verifiedTxes (removeConflict x h mp) = mp_verifiedTxes mp"
  "mp_capacity (removeConflict x h mp) = mp_capacity mp" "mp_payerIndex (removeConflict x h mp) = mp_payerIndex mp"
  "mp_fees (removeConflict x h mp) = mp_fees mp"
  by (simp_all add: removeConflict_def)

lemma fold_conflict_fields [simp]:
  "mp_verifiedMap (fold (removeConflict x) hs mp) = mp_verifiedMap mp" "mp_verifiedTxes (fold (removeConflict x) hs mp) = mp_verifiedTxes mp"
  "mp_capacity (fold (removeConflict x) hs mp) = mp_capacity mp" "mp_payerIndex (fold (removeConflict x) hs mp) = mp_payerIndex mp"
  "mp_fees (fold (removeConflict x) hs mp) = mp_fees mp"
  "mp_verifiedMap (fold (addConflict x) hs mp) = mp_verifiedMap mp" "mp_verifiedTxes (fold (addConflict x) hs mp) = mp_verifiedTxes mp"
  "mp_capacity (fold (addConflict x) hs mp) = mp_capacity mp" "mp_payerIndex (fold (addConflict x) hs mp) = mp_payerIndex mp"
  "mp_fees (fold (addConflict x) hs mp) = mp_fees mp"
  by (induction hs arbitrary: mp) (simp_all add: addConflict_def)

lemma tryAddSendersFee_fields [simp]:
  "mp_verifiedMap (snd (tryAddSendersFee mp t fee c)) = mp_verifiedMap mp"
  "mp_verifiedTxes (snd (tryAddSendersFee mp t fee c)) = mp_verifiedTxes mp"
  "mp_conflicts (snd (tryAddSendersFee mp t fee c)) = mp_conflicts mp"
  "mp_capacity (snd (tryAddSendersFee mp t fee c)) = mp_capacity mp"
  "mp_payerIndex (snd (tryAddSendersFee mp t fee c)) = mp_payerIndex mp"
  "mp_resendThreshold (snd (tryAddSendersFee mp t fee c)) = mp_resendThreshold mp"
  "mp_feePerByte (snd (tryAddSendersFee mp t fee c)) = mp_feePerByte mp"
  by (simp_all add: tryAddSendersFee_def Let_def split: option.splits sum.splits)

lemma conflict_list_core: "mp_conflicts mp = mp_conflicts mp' \<Longrightarrow> conflict_list mp h = conflict_list mp' h"
  by (simp add: conflict_list_def)

lemma removeConflictsOf_core:
  assumes "mp_conflicts m = mp_conflicts mp"
  shows "mp_conflicts (removeConflictsOf t m) = mp_conflicts (removeConflictsOf t mp)"
proof -
  have "mp_conflicts (fold (removeConflict x) hs m) = mp_conflicts (fold (removeConflict x) hs mp)" for x hs
    using assms
  proof (induction hs arbitrary: m mp)
    case (Cons a hs)
    have "mp_conflicts (removeConflict x a m) = mp_conflicts (removeConflict x a mp)"
      using Cons.prems conflict_list_core [OF Cons.prems] by (simp add: removeConflict_def)
    with Cons.IH show ?case by simp
  qed simp
  then show ?thesis by (simp add: removeConflictsOf_def)
qed

subsection \<open>Removal\<close>

lemma index_of_hash_found:
  assumes "h \<in> set (map (tx_hash \<circ> it_txn) itms)"
  shows "index_of_hash h itms < length itms \<and> tx_hash (it_txn (itms ! index_of_hash h itms)) = h"
  using assms by (induction h itms rule: index_of_hash.induct) auto

lemma remove_nth_mset: "i < length xs \<Longrightarrow> mset xs = add_mset (xs ! i) (mset (take i xs @ drop (Suc i) xs))"
  by (metis id_take_nth_drop mset.simps(2) mset_append union_mset_add_mset_right)

lemma sorted_wrt_remove: "sorted_wrt P xs \<Longrightarrow> sorted_wrt P (take i xs @ drop (Suc i) xs)"
proof (induction xs arbitrary: i)
  case (Cons x xs)
  then show ?case by (cases i) (auto dest: in_set_takeD in_set_dropD)
qed simp

text \<open>Dropping one item of the slice, its map entry and its conflicts keeps the invariant.\<close>

lemma pool_ok_drop:
  assumes ok: "pool_ok mp" and i: "i < length (mp_verifiedTxes mp)" and itm: "tx = it_txn (mp_verifiedTxes mp ! i)"
    and vm: "mp_verifiedMap mp' = AList.delete (tx_hash tx) (mp_verifiedMap mp)"
    and txes: "mp_verifiedTxes mp' = take i (mp_verifiedTxes mp) @ drop (Suc i) (mp_verifiedTxes mp)"
    and conf: "mp_conflicts mp' = mp_conflicts (removeConflictsOf tx mp)"
    and same: "mp_capacity mp' = mp_capacity mp" "mp_payerIndex mp' = mp_payerIndex mp"
  shows "pool_ok mp'"
    and "mset (GetVerifiedTransactions mp) = add_mset tx (mset (GetVerifiedTransactions mp'))"
proof -
  let ?ts = "GetVerifiedTransactions mp" and ?ts' = "GetVerifiedTransactions mp'"
  have ts': "?ts' = take i ?ts @ drop (Suc i) ?ts"
    using txes by (simp add: GetVerifiedTransactions_def take_map drop_map)
  have nth: "?ts ! i = tx" "i < length ?ts" using i itm by (simp_all add: GetVerifiedTransactions_def)
  show ms: "mset ?ts = add_mset tx (mset ?ts')"
    using remove_nth_mset [OF nth(2)] nth(1) ts' by simp
  note D = pool_okD [OF ok]
  have tx: "tx \<in> set ?ts" using nth by auto
  have sub: "set ?ts' \<subseteq> set ?ts" unfolding ts' by (auto dest: in_set_takeD in_set_dropD)
  have "mset (map tx_hash ?ts) = add_mset (tx_hash tx) (mset (map tx_hash ?ts'))" using ms by simp
  then have dist: "distinct (map tx_hash ?ts')" "tx_hash tx \<notin> tx_hash ` set ?ts'"
    using D(2) by (metis distinct_count_atmost_1 distinct.simps(2) list.set_map mset.simps(2) mset_eq_imp_distinct_iff)+
  have "set ?ts = insert tx (set ?ts')" using ms by (metis set_mset_add_mset_insert set_mset_mset)
  then have map: "map_of (mp_verifiedMap mp') h = Some t \<longleftrightarrow> t \<in> set ?ts' \<and> tx_hash t = h" for h t
  proof -
    have "t \<in> set ?ts' \<Longrightarrow> tx_hash t \<noteq> tx_hash tx" using dist(2) by (metis imageI)
    with D(3) [of h t] \<open>set ?ts = insert tx (set ?ts')\<close> vm show ?thesis by (auto simp: delete_conv')
  qed
  have "conf_ms ?ts h = replicate_mset (count_list (conflict_hashes tx) h) (tx_hash tx) + conf_ms ?ts' h" for h
    using conf_ms_mset [of ?ts "tx # ?ts'" h] ms by simp
  then have confs: "mset (conflict_list mp' h) = conf_ms ?ts' h" for h
    using removeConflictsOf_list [of "conflict_hashes tx" h "tx_hash tx" mp] D(6) conf
    by (simp add: removeConflictsOf_def conflict_list_core [of mp'])
  have sorted: "by_priority ?ts'"
    using D(4) unfolding by_priority_def ts' by (rule sorted_wrt_remove)
  have "\<forall>t\<in>set ?ts'. tx_fine mp' t" using D(1) sub same by (auto simp: tx_fine_def)
  moreover have "length ?ts' \<le> mp_capacity mp'" using D(5) same nth(2) ts' by auto
  ultimately show "pool_ok mp'"
    using dist(1) map sorted confs by (simp add: pool_ok_def Let_def)
qed

lemma removeInternal_ok:
  assumes "pool_ok mp"
  obtains mp' where "removeInternal h mp = Some mp'" and "pool_ok mp'"
    and "mset (GetVerifiedTransactions mp') = filter_mset (\<lambda>t. tx_hash t \<noteq> h) (mset (GetVerifiedTransactions mp))"
    and "mp_capacity mp' = mp_capacity mp" and "mp_payerIndex mp' = mp_payerIndex mp"
proof (cases "map_of (mp_verifiedMap mp) h")
  case None
  then have "\<forall>t\<in>set (GetVerifiedTransactions mp). tx_hash t \<noteq> h"
    using pool_okD(3) [OF assms] by (metis option.distinct(1))
  then have "filter_mset (\<lambda>t. tx_hash t \<noteq> h) (mset (GetVerifiedTransactions mp)) = mset (GetVerifiedTransactions mp)"
    by (simp add: filter_mset_eq_conv)
  with None assms that show ?thesis by (simp add: removeInternal_def)
next
  case (Some tx)
  note D = pool_okD [OF assms]
  have tx: "tx \<in> set (GetVerifiedTransactions mp)" "tx_hash tx = h" using Some D(3) by auto
  define num where "num = index_of_hash h (mp_verifiedTxes mp)"
  have "h \<in> set (map (tx_hash \<circ> it_txn) (mp_verifiedTxes mp))" using tx by (auto simp: GetVerifiedTransactions_def)
  then have num: "num < length (mp_verifiedTxes mp)" "tx_hash (it_txn (mp_verifiedTxes mp ! num)) = h"
    using index_of_hash_found by (auto simp: num_def)
  then have itm: "it_txn (mp_verifiedTxes mp ! num) = tx"
  proof -
    have "it_txn (mp_verifiedTxes mp ! num) \<in> set (GetVerifiedTransactions mp)"
      using num(1) by (simp add: GetVerifiedTransactions_def)
    with D(3) [of h "it_txn (mp_verifiedTxes mp ! num)"] num(2) Some show ?thesis by simp
  qed
  have "tx_fine mp tx" using D(1) tx by blast
  then obtain p where p: "payer_of mp tx = Some p" by (auto simp: payer_of_def tx_fine_def)
  have ne: "mp_verifiedTxes mp \<noteq> []" using num by auto
  define m1 where "m1 = mp\<lparr>mp_verifiedMap := AList.delete h (mp_verifiedMap mp),
      mp_verifiedTxes := take num (mp_verifiedTxes mp) @ drop (num + 1) (mp_verifiedTxes mp),
      mp_fees := AList.update p ((case map_of (mp_fees mp) p of Some bf \<Rightarrow> bf | None \<Rightarrow> \<lparr>bf_balance = 0, bf_feeSum = 0\<rparr>)
        \<lparr>bf_feeSum := bf_feeSum (case map_of (mp_fees mp) p of Some bf \<Rightarrow> bf | None \<Rightarrow> \<lparr>bf_balance = 0, bf_feeSum = 0\<rparr>)
           - ucast (tx_fee tx)\<rparr>) (mp_fees mp)\<rparr>"
  define mp' where "mp' = emit TransactionRemoved (mp_verifiedTxes mp ! num) (removeOracle tx (removeConflictsOf tx m1))"
  have mp': "removeInternal h mp = Some mp'"
      "mp_verifiedMap mp' = AList.delete h (mp_verifiedMap mp)"
      "mp_verifiedTxes mp' = take num (mp_verifiedTxes mp) @ drop (Suc num) (mp_verifiedTxes mp)"
      "mp_conflicts mp' = mp_conflicts (removeConflictsOf tx mp)"
      "mp_capacity mp' = mp_capacity mp" "mp_payerIndex mp' = mp_payerIndex mp"
  proof -
    show "removeInternal h mp = Some mp'"
      using Some ne p itm by (simp only: removeInternal_def num_def [symmetric] Let_def option.case if_False mp'_def m1_def)
    show "mp_conflicts mp' = mp_conflicts (removeConflictsOf tx mp)"
      using removeConflictsOf_core [of m1 mp tx] by (simp add: mp'_def m1_def)
  qed (simp_all add: mp'_def m1_def removeConflictsOf_def)
  note drop = pool_ok_drop [OF assms num(1) itm [symmetric] _ mp'(3,4,5,6)]
  have "pool_ok mp'" and ms: "mset (GetVerifiedTransactions mp) = add_mset tx (mset (GetVerifiedTransactions mp'))"
    using drop mp'(2) tx(2) by simp_all
  moreover have "\<forall>t\<in>#mset (GetVerifiedTransactions mp'). tx_hash t \<noteq> h"
    using pool_okD(3) [OF \<open>pool_ok mp'\<close>] mp'(2) by (metis delete_conv' fun_upd_same option.distinct(1) set_mset_mset)
  then have "filter_mset (\<lambda>t. tx_hash t \<noteq> h) (mset (GetVerifiedTransactions mp)) = mset (GetVerifiedTransactions mp')"
    using ms tx(2) by (simp add: filter_mset_eq_conv)
  ultimately show ?thesis using that mp' by simp
qed

end
