(* ===== verification/Mempool_Api.thy ===== *)
theory Mempool_Api
  imports Mempool_Spec
begin

text \<open>
  The properties of the memory pool: every operation keeps its invariant, additions go to the
  right place, data is found by bisection, and after the removal of stale transactions every
  payer can pay for all of its pooled transactions.
\<close>

section \<open>Addition\<close>

lemma place_append:
  assumes "n \<le> length xs"
  shows "place n p (xs @ [p]) = take n xs @ p # drop n xs"
  using assms by (auto simp: place_def)

lemma sorted_insert:
  assumes "by_priority xs" and "\<And>k. k < n \<Longrightarrow> \<not> prio_less (xs ! k) t" and "\<And>k. n \<le> k \<Longrightarrow> k < length xs \<Longrightarrow> prio_less (xs ! k) t"
    and "n \<le> length xs"
  shows "by_priority (take n xs @ t # drop n xs)"
proof -
  have "\<not> prio_less x t" if "x \<in> set (take n xs)" for x
    using that assms(2,4) by (auto simp: in_set_conv_nth)
  moreover have "\<not> prio_less t x" if "x \<in> set (drop n xs)" for x
  proof -
    from that obtain k where "k < length xs - n" "x = xs ! (n + k)" using assms(4) by (auto simp: in_set_conv_nth)
    then show ?thesis using assms(3) [of "n + k"] prio_less_order(2) by auto
  qed
  moreover have "sorted_wrt (\<lambda>a b. \<not> prio_less a b) (take n xs @ drop n xs)"
    using assms(1) by (simp add: by_priority_def)
  then have "sorted_wrt (\<lambda>a b. \<not> prio_less a b) (take n xs)" "sorted_wrt (\<lambda>a b. \<not> prio_less a b) (drop n xs)"
      "\<forall>x\<in>set (take n xs). \<forall>y\<in>set (drop n xs). \<not> prio_less x y"
    unfolding sorted_wrt_append by blast+
  ultimately show ?thesis by (simp add: by_priority_def sorted_wrt_append)
qed

text \<open>The place \<^verbatim>\<open>sort.Search\<close> finds for a transaction in a sorted slice.\<close>

definition at_place :: "transaction \<Rightarrow> transaction list \<Rightarrow> nat \<Rightarrow> bool" where
  "at_place t ts n \<longleftrightarrow> n \<le> length ts \<and> (\<forall>k<n. \<not> prio_less (ts ! k) t) \<and> (\<forall>k. n \<le> k \<and> k < length ts \<longrightarrow> prio_less (ts ! k) t)"

lemma Search_at_place:
  assumes ok: "pool_ok mp" and t: "tx_fine mp t"
  shows "at_place t (GetVerifiedTransactions mp)
    (Search (length (mp_verifiedTxes mp)) (\<lambda>n. CompareTo t (it_txn (mp_verifiedTxes mp ! n)) > 0))"
proof -
  let ?ts = "GetVerifiedTransactions mp"
  note D = pool_okD [OF ok]
  have nth: "it_txn (mp_verifiedTxes mp ! k) = ?ts ! k" if "k < length ?ts" for k
    using that by (simp add: GetVerifiedTransactions_def)
  have len: "length (mp_verifiedTxes mp) = length ?ts" by (simp add: GetVerifiedTransactions_def)
  have more: "CompareTo t (it_txn (mp_verifiedTxes mp ! k)) > 0 \<longleftrightarrow> prio_less (?ts ! k) t" if "k < length ?ts" for k
    using that CompareTo_prio(1) [OF t D(1)] nth by simp
  have mono: "CompareTo t (it_txn (mp_verifiedTxes mp ! b)) > 0"
    if "a \<le> b" "b < length ?ts" "CompareTo t (it_txn (mp_verifiedTxes mp ! a)) > 0" for a b
  proof (cases "a = b")
    case False
    then have "\<not> prio_less (?ts ! a) (?ts ! b)"
      using that sorted_wrt_nth_less [OF D(4) [unfolded by_priority_def], of a b] by simp
    moreover have "prio_less (?ts ! a) t" using that more [of a] by simp
    ultimately have "prio_less (?ts ! b) t" using prio_less_order(3) by blast
    then show ?thesis using that more [of b] by simp
  qed (use that in simp)
  define n where "n = Search (length ?ts) (\<lambda>n. CompareTo t (it_txn (mp_verifiedTxes mp ! n)) > 0)"
  have s: "n \<le> length ?ts" "\<forall>k<n. \<not> CompareTo t (it_txn (mp_verifiedTxes mp ! k)) > 0"
      "\<forall>k. n \<le> k \<and> k < length ?ts \<longrightarrow> CompareTo t (it_txn (mp_verifiedTxes mp ! k)) > 0"
    using Search_splits [where n = "length ?ts" and f = "\<lambda>n. CompareTo t (it_txn (mp_verifiedTxes mp ! n)) > 0"] mono
    unfolding n_def [symmetric] by blast+
  have "\<not> prio_less (?ts ! k) t" if "k < n" for k using that s(1,2) more [of k] by simp
  moreover have "prio_less (?ts ! k) t" if "n \<le> k" "k < length ?ts" for k using that s(3) more [of k] by simp
  ultimately show ?thesis
    unfolding at_place_def len n_def [symmetric] using s(1) by blast
qed

text \<open>Inserting a new item in its place, with its map entry and its conflicts.\<close>

lemma pool_ok_insert:
  assumes ok: "pool_ok mp" and room: "length (mp_verifiedTxes mp) < mp_capacity mp"
    and t: "tx_fine mp t" "t = it_txn itm" "tx_hash t \<notin> tx_hash ` set (GetVerifiedTransactions mp)"
    and n: "at_place t (GetVerifiedTransactions mp) n"
    and vm: "mp_verifiedMap mp' = AList.update (tx_hash t) t (mp_verifiedMap mp)"
    and txes: "mp_verifiedTxes mp' = take n (mp_verifiedTxes mp) @ itm # drop n (mp_verifiedTxes mp)"
    and conf: "mp_conflicts mp' = mp_conflicts (addConflictsOf t mp)"
    and same: "mp_capacity mp' = mp_capacity mp" "mp_payerIndex mp' = mp_payerIndex mp"
  shows "pool_ok mp'" and "mset (GetVerifiedTransactions mp') = add_mset t (mset (GetVerifiedTransactions mp))"
proof -
  let ?ts = "GetVerifiedTransactions mp" and ?ts' = "GetVerifiedTransactions mp'"
  note D = pool_okD [OF ok]
  have nle: "n \<le> length ?ts" using n by (simp add: at_place_def)
  have ts': "?ts' = take n ?ts @ t # drop n ?ts"
    using txes t(2) by (simp add: GetVerifiedTransactions_def take_map drop_map)
  show ms: "mset ?ts' = add_mset t (mset ?ts)"
    unfolding ts' by (metis append_take_drop_id mset.simps(2) mset_append union_mset_add_mset_right)
  have setts: "set ?ts' = insert t (set ?ts)" using ms by (metis set_mset_add_mset_insert set_mset_mset)
  have sorted: "by_priority ?ts'"
    unfolding ts' using D(4) n by (intro sorted_insert) (auto simp: at_place_def)
  have "mset (map tx_hash ?ts') = mset (tx_hash t # map tx_hash ?ts)" using ms by simp
  then have "distinct (map tx_hash ?ts')"
    using D(2) t(3) by (metis distinct.simps(2) list.set_map mset_eq_imp_distinct_iff)
  moreover have "map_of (mp_verifiedMap mp') h = Some x \<longleftrightarrow> x \<in> set ?ts' \<and> tx_hash x = h" for h x
    using D(3) [of h x] t(3) setts vm by (auto simp: update_conv' image_iff)
  moreover have "mset (conflict_list mp' h) = conf_ms ?ts' h" for h
    using addConflictsOf_list [of "tx_hash t" "conflict_hashes t" mp h] D(6) [of h] conf conf_ms_mset [of ?ts' "t # ?ts" h] ms
    by (simp add: addConflictsOf_def conflict_list_core [of mp'] union_commute)
  moreover have "\<forall>x\<in>set ?ts'. tx_fine mp' x" using D(1) t(1) same setts by (auto simp: tx_fine_def)
  moreover have "length ?ts' \<le> mp_capacity mp'"
    using room same ts' nle by (simp add: GetVerifiedTransactions_def)
  ultimately show "pool_ok mp'" using sorted by (simp add: pool_ok_def Let_def)
qed

lemma addConflictsOf_core:
  assumes "mp_conflicts m = mp_conflicts mp"
  shows "mp_conflicts (addConflictsOf t m) = mp_conflicts (addConflictsOf t mp)"
proof -
  have "mp_conflicts (fold (addConflict x) hs m) = mp_conflicts (fold (addConflict x) hs mp)" for x hs
    using assms
  proof (induction hs arbitrary: m mp)
    case (Cons a hs)
    have "mp_conflicts (addConflict x a m) = mp_conflicts (addConflict x a mp)"
      using Cons.prems conflict_list_core [OF Cons.prems] by (simp add: addConflict_def)
    with Cons.IH show ?case by simp
  qed simp
  then show ?thesis by (simp add: addConflictsOf_def)
qed

text \<open>The steps of \<^verbatim>\<open>Add\<close> once the new item has been appended to the slice.\<close>

definition finish_insert :: "'d item \<Rightarrow> feer \<Rightarrow> nat \<Rightarrow> 'd pool \<Rightarrow> 'd pool" where
  "finish_insert itm fee n mp =
    (let t = it_txn itm;
         mp = mp\<lparr>mp_verifiedTxes := place n itm (mp_verifiedTxes mp)\<rparr>;
         mp = mp\<lparr>mp_verifiedMap := AList.update (tx_hash t) t (mp_verifiedMap mp)\<rparr>;
         mp = addConflictsOf t mp;
         mp = snd (tryAddSendersFee mp t fee False)
     in emit TransactionAdded itm mp)"

lemma finish_insert_ok:
  assumes "pool_ok mp" and "length (mp_verifiedTxes mp) < mp_capacity mp" and "tx_fine mp (it_txn itm)"
    and "tx_hash (it_txn itm) \<notin> tx_hash ` set (GetVerifiedTransactions mp)"
    and "at_place (it_txn itm) (GetVerifiedTransactions mp) n"
    and "pool_core mp1 = pool_core (mp\<lparr>mp_verifiedTxes := mp_verifiedTxes mp @ [itm]\<rparr>)"
  shows "pool_ok (finish_insert itm fee n mp1)"
    and "mset (GetVerifiedTransactions (finish_insert itm fee n mp1)) = add_mset (it_txn itm) (mset (GetVerifiedTransactions mp))"
proof -
  have n: "n \<le> length (mp_verifiedTxes mp)"
    using assms(5) by (simp add: at_place_def GetVerifiedTransactions_def)
  have core: "mp_verifiedMap mp1 = mp_verifiedMap mp" "mp_verifiedTxes mp1 = mp_verifiedTxes mp @ [itm]"
      "mp_conflicts mp1 = mp_conflicts mp" "mp_capacity mp1 = mp_capacity mp" "mp_payerIndex mp1 = mp_payerIndex mp"
    using assms(6) by (simp_all add: pool_core_def)
  let ?m = "mp1\<lparr>mp_verifiedTxes := place n itm (mp_verifiedTxes mp1),
    mp_verifiedMap := AList.update (tx_hash (it_txn itm)) (it_txn itm) (mp_verifiedMap mp1)\<rparr>"
  have conf: "mp_conflicts (addConflictsOf (it_txn itm) ?m) = mp_conflicts (addConflictsOf (it_txn itm) mp)"
    by (rule addConflictsOf_core) (simp add: core)
  note ins = pool_ok_insert [OF assms(1-3) refl assms(4,5), of "finish_insert itm fee n mp1"]
  have fields: "mp_verifiedMap (finish_insert itm fee n mp1) = AList.update (tx_hash (it_txn itm)) (it_txn itm) (mp_verifiedMap mp)"
      "mp_verifiedTxes (finish_insert itm fee n mp1) = take n (mp_verifiedTxes mp) @ itm # drop n (mp_verifiedTxes mp)"
      "mp_conflicts (finish_insert itm fee n mp1) = mp_conflicts (addConflictsOf (it_txn itm) mp)"
      "mp_capacity (finish_insert itm fee n mp1) = mp_capacity mp" "mp_payerIndex (finish_insert itm fee n mp1) = mp_payerIndex mp"
    using conf by (simp_all add: finish_insert_def Let_def core place_append [OF n] addConflictsOf_def)
  show "pool_ok (finish_insert itm fee n mp1)"
    and "mset (GetVerifiedTransactions (finish_insert itm fee n mp1)) = add_mset (it_txn itm) (mset (GetVerifiedTransactions mp))"
    using ins fields by simp_all
qed

lemma insertItem_finish:
  "insertItem itm fee mp =
    (let n = Search (length (mp_verifiedTxes mp)) (\<lambda>n. CompareTo (it_txn itm) (it_txn (mp_verifiedTxes mp ! n)) > 0);
         full = (length (mp_verifiedTxes mp) = mp_capacity mp) in
     if full \<and> n = length (mp_verifiedTxes mp) then (Some ErrOOM, mp)
     else (None, finish_insert itm fee n
       (if full then ditch_last itm mp else mp\<lparr>mp_verifiedTxes := mp_verifiedTxes mp @ [itm]\<rparr>)))"
  by (simp only: insertItem_def finish_insert_def Let_def)

lemma ditch_last_ok:
  fixes itm :: "'d item"
  assumes "pool_ok mp" and "mp_verifiedTxes mp \<noteq> []"
  defines "m0 \<equiv> (ditch_last itm mp)\<lparr>mp_verifiedTxes := butlast (mp_verifiedTxes mp)\<rparr>"
  shows "pool_ok m0" and "mset (GetVerifiedTransactions mp) = add_mset (it_txn (last (mp_verifiedTxes mp))) (mset (GetVerifiedTransactions m0))"
    and "pool_core (ditch_last itm mp) = pool_core (m0\<lparr>mp_verifiedTxes := mp_verifiedTxes m0 @ [itm]\<rparr>)"
    and "mp_capacity m0 = mp_capacity mp" and "mp_payerIndex m0 = mp_payerIndex mp"
proof -
  let ?i = "length (mp_verifiedTxes mp) - 1" and ?u = "it_txn (last (mp_verifiedTxes mp))"
  have i: "?i < length (mp_verifiedTxes mp)" "?u = it_txn (mp_verifiedTxes mp ! ?i)"
    using assms(2) by (simp_all add: last_conv_nth)
  have fields: "mp_verifiedMap m0 = AList.delete (tx_hash ?u) (mp_verifiedMap mp)" "mp_capacity m0 = mp_capacity mp"
      "mp_payerIndex m0 = mp_payerIndex mp" "mp_verifiedTxes m0 = take ?i (mp_verifiedTxes mp) @ drop (Suc ?i) (mp_verifiedTxes mp)"
    using assms(2) by (simp_all add: m0_def ditch_last_def Let_def removeConflictsOf_def butlast_conv_take)
  have conf: "mp_conflicts m0 = mp_conflicts (removeConflictsOf ?u mp)"
    using removeConflictsOf_core [of "mp\<lparr>mp_verifiedMap := AList.delete (tx_hash ?u) (mp_verifiedMap mp)\<rparr>" mp ?u]
    by (simp add: m0_def ditch_last_def Let_def)
  note d = pool_ok_drop [OF assms(1) i(1) i(2) fields(1,4) conf fields(2,3)]
  show "pool_ok m0" "mset (GetVerifiedTransactions mp) = add_mset ?u (mset (GetVerifiedTransactions m0))"
    using d by simp_all
  show "pool_core (ditch_last itm mp) = pool_core (m0\<lparr>mp_verifiedTxes := mp_verifiedTxes m0 @ [itm]\<rparr>)"
    by (simp add: m0_def pool_core_def ditch_last_def Let_def removeConflictsOf_def)
  show "mp_capacity m0 = mp_capacity mp" and "mp_payerIndex m0 = mp_payerIndex mp" by (rule fields(2), rule fields(3))
qed

lemma insertItem_ok:
  assumes ok: "pool_ok mp" and t: "tx_fine mp (it_txn itm)" "tx_hash (it_txn itm) \<notin> tx_hash ` set (GetVerifiedTransactions mp)"
    and run: "insertItem itm fee mp = (e, mp')"
  shows "pool_ok mp' \<and> set (GetVerifiedTransactions mp') \<subseteq> insert (it_txn itm) (set (GetVerifiedTransactions mp)) \<and>
    (if e = None then it_txn itm \<in> set (GetVerifiedTransactions mp') else e = Some ErrOOM \<and> mp' = mp)"
proof -
  let ?t = "it_txn itm"
  define n where "n = Search (length (mp_verifiedTxes mp)) (\<lambda>n. CompareTo ?t (it_txn (mp_verifiedTxes mp ! n)) > 0)"
  have n: "at_place ?t (GetVerifiedTransactions mp) n" unfolding n_def using ok t(1) by (rule Search_at_place)
  have nle: "n \<le> length (mp_verifiedTxes mp)" using n by (simp add: at_place_def GetVerifiedTransactions_def)
  have ins: "insertItem itm fee mp = (if length (mp_verifiedTxes mp) = mp_capacity mp \<and> n = length (mp_verifiedTxes mp)
     then (Some ErrOOM, mp)
     else (None, finish_insert itm fee n
       (if length (mp_verifiedTxes mp) = mp_capacity mp then ditch_last itm mp else mp\<lparr>mp_verifiedTxes := mp_verifiedTxes mp @ [itm]\<rparr>)))"
    unfolding insertItem_finish Let_def n_def by (rule refl)
  consider (oom) "length (mp_verifiedTxes mp) = mp_capacity mp" "n = length (mp_verifiedTxes mp)"
    | (ditch) "length (mp_verifiedTxes mp) = mp_capacity mp" "n < length (mp_verifiedTxes mp)"
    | (room) "length (mp_verifiedTxes mp) < mp_capacity mp"
    using nle pool_okD(5) [OF ok] by (fastforce simp: GetVerifiedTransactions_def)
  then show ?thesis
  proof cases
    case oom
    with run have "e = Some ErrOOM" "mp' = mp" by (simp_all add: ins)
    with ok show ?thesis by auto
  next
    case room
    with run have r: "e = None" "mp' = finish_insert itm fee n (mp\<lparr>mp_verifiedTxes := mp_verifiedTxes mp @ [itm]\<rparr>)"
      by (simp_all add: ins)
    note fin = finish_insert_ok [OF ok room t n refl]
    have "set (GetVerifiedTransactions mp') = insert ?t (set (GetVerifiedTransactions mp))"
      unfolding r(2) using fin(2) by (metis set_mset_add_mset_insert set_mset_mset)
    with fin(1) r show ?thesis by simp
  next
    case ditch
    with run have r: "e = None" "mp' = finish_insert itm fee n (ditch_last itm mp)"
      by (simp_all add: ins)
    have ne: "mp_verifiedTxes mp \<noteq> []" using ditch by auto
    define m0 where "m0 = (ditch_last itm mp)\<lparr>mp_verifiedTxes := butlast (mp_verifiedTxes mp)\<rparr>"
    note d = ditch_last_ok [OF ok ne, where itm = itm, folded m0_def]
    have sub: "set (GetVerifiedTransactions m0) \<subseteq> set (GetVerifiedTransactions mp)"
      using d(2) by (metis set_mset_add_mset_insert set_mset_mset subset_insertI)
    have "GetVerifiedTransactions m0 = butlast (GetVerifiedTransactions mp)"
      by (simp add: m0_def GetVerifiedTransactions_def map_butlast)
    then have n0: "at_place ?t (GetVerifiedTransactions m0) n"
      using n ditch(2) by (auto simp: at_place_def nth_butlast GetVerifiedTransactions_def)
    have "0 < mp_capacity mp" using ditch by simp
    then have pre: "length (mp_verifiedTxes m0) < mp_capacity m0" "tx_fine m0 ?t" "tx_hash ?t \<notin> tx_hash ` set (GetVerifiedTransactions m0)"
      using ditch(1) ne d(4,5) t sub by (auto simp: m0_def tx_fine_def)
    note fin = finish_insert_ok [OF d(1) pre n0 d(3)]
    have "set (GetVerifiedTransactions mp') = insert ?t (set (GetVerifiedTransactions m0))"
      unfolding r(2) using fin(2) by (metis set_mset_add_mset_insert set_mset_mset)
    with fin(1) r sub show ?thesis by auto
  qed
qed

text \<open>Removing the conflicting transactions, and the oracle response that is outbid.\<close>

lemma removeInternal_keeps:
  assumes "pool_ok mp" and "removeInternal h mp = Some mp'"
  shows "pool_ok mp'" and "set (GetVerifiedTransactions mp') = {t \<in> set (GetVerifiedTransactions mp). tx_hash t \<noteq> h}"
    and "mp_capacity mp' = mp_capacity mp" and "mp_payerIndex mp' = mp_payerIndex mp"
proof -
  obtain m where m: "removeInternal h mp = Some m" "pool_ok m"
      "mset (GetVerifiedTransactions m) = filter_mset (\<lambda>t. tx_hash t \<noteq> h) (mset (GetVerifiedTransactions mp))"
      "mp_capacity m = mp_capacity mp" "mp_payerIndex m = mp_payerIndex mp"
    using removeInternal_ok [OF assms(1)] by metis
  with assms(2) have "m = mp'" by simp
  with m show "pool_ok mp'" "mp_capacity mp' = mp_capacity mp" "mp_payerIndex mp' = mp_payerIndex mp" by simp_all
  show "set (GetVerifiedTransactions mp') = {t \<in> set (GetVerifiedTransactions mp). tx_hash t \<noteq> h}"
    using m(3) \<open>m = mp'\<close> by (metis mset_filter set_filter set_mset_mset)
qed

lemma removeInternal_total: "pool_ok mp \<Longrightarrow> removeInternal h mp \<noteq> None"
  using removeInternal_ok by (metis option.distinct(1))

lemma removeAll_of_keeps:
  assumes "pool_ok mp"
  shows "\<exists>mp'. removeAll_of ts mp = Some mp' \<and> pool_ok mp' \<and>
    set (GetVerifiedTransactions mp') = {t \<in> set (GetVerifiedTransactions mp). tx_hash t \<notin> tx_hash ` set ts} \<and>
    mp_capacity mp' = mp_capacity mp \<and> mp_payerIndex mp' = mp_payerIndex mp"
  using assms
proof (induction ts arbitrary: mp)
  case (Cons t ts)
  obtain m where m: "removeInternal (tx_hash t) mp = Some m"
    using removeInternal_total [OF Cons.prems] by blast
  note k = removeInternal_keeps [OF Cons.prems m]
  from Cons.IH [OF k(1)] obtain mp' where "removeAll_of ts m = Some mp'" "pool_ok mp'"
      "set (GetVerifiedTransactions mp') = {t \<in> set (GetVerifiedTransactions m). tx_hash t \<notin> tx_hash ` set ts}"
      "mp_capacity mp' = mp_capacity m" "mp_payerIndex mp' = mp_payerIndex m"
    by blast
  with m k(2-4) show ?case by auto
qed simp

lemma addOracle_keeps:
  assumes ok: "pool_ok mp" and run: "addOracle t mp = Inr mp'"
  shows "pool_ok mp' \<and> set (GetVerifiedTransactions mp') \<subseteq> set (GetVerifiedTransactions mp) \<and>
    mp_capacity mp' = mp_capacity mp \<and> mp_payerIndex mp' = mp_payerIndex mp"
proof -
  have upd: "pool_ok (m\<lparr>mp_oracleResp := x\<rparr>)" if "pool_ok m" for m :: "'a pool" and x
    using that by (rule pool_ok_core [rotated]) (simp add: pool_core_def)
  have txs: "GetVerifiedTransactions (m\<lparr>mp_oracleResp := x\<rparr>) = GetVerifiedTransactions m" for m :: "'a pool" and x
    by (simp add: GetVerifiedTransactions_def)
  from run consider "mp' = mp"
    | x where "mp' = mp\<lparr>mp_oracleResp := x\<rparr>"
    | h m x where "removeInternal h mp = Some m" "mp' = m\<lparr>mp_oracleResp := x\<rparr>"
    by (auto simp: addOracle_def Let_def split: option.splits if_splits)
  then show ?thesis
  proof cases
    case (3 h m x)
    with removeInternal_keeps [OF ok 3(1)] show ?thesis by (auto simp: upd txs)
  qed (use ok upd txs in auto)
qed

lemma Add_ok:
  assumes ok: "pool_ok mp" and t: "tx_fine mp t" and run: "Add t d fee mp = (e, mp')"
  shows "pool_ok mp' \<and> mp_capacity mp' = mp_capacity mp \<and> mp_payerIndex mp' = mp_payerIndex mp \<and>
    (e = None \<longrightarrow> t \<in> set (GetVerifiedTransactions mp')) \<and>
    (set (GetVerifiedTransactions mp') \<subseteq> set (GetVerifiedTransactions mp) \<or> (\<exists>rm. checkTxConflicts mp t fee = Inr rm \<and>
       set (GetVerifiedTransactions mp') \<subseteq> insert t {x \<in> set (GetVerifiedTransactions mp). tx_hash x \<notin> tx_hash ` set rm}))"
proof (cases "containsKey mp (tx_hash t)")
  case True
  with run ok show ?thesis by (auto simp: Add_def)
next
  case False
  then have new: "tx_hash t \<notin> tx_hash ` set (GetVerifiedTransactions mp)"
    using pool_okD(3) [OF ok] by (auto simp: containsKey_def)
  show ?thesis
  proof (cases "checkTxConflicts mp t fee")
    case (Inl e1)
    with False run ok show ?thesis by (auto simp: Add_def Let_def)
  next
    case conflicts: (Inr rm)
    show ?thesis
    proof (cases "addOracle t mp")
      case (Inl e1)
      with False conflicts run ok show ?thesis by (auto simp: Add_def Let_def)
    next
      case (Inr mp1)
      note k1 = addOracle_keeps [OF ok Inr]
      then obtain mp2 where mp2: "removeAll_of rm mp1 = Some mp2" "pool_ok mp2"
          "set (GetVerifiedTransactions mp2) = {x \<in> set (GetVerifiedTransactions mp1). tx_hash x \<notin> tx_hash ` set rm}"
          "mp_capacity mp2 = mp_capacity mp1" "mp_payerIndex mp2 = mp_payerIndex mp1"
        using removeAll_of_keeps [of mp1 rm] by blast
      let ?itm = "\<lparr>it_txn = t, it_blockStamp = fr_BlockHeight fee, it_data = d\<rparr>"
      have ins: "insertItem ?itm fee mp2 = (e, mp')"
        using False conflicts Inr mp2(1) run by (simp add: Add_def)
      have "pool_ok mp' \<and> set (GetVerifiedTransactions mp') \<subseteq> insert (it_txn ?itm) (set (GetVerifiedTransactions mp2)) \<and>
          (if e = None then it_txn ?itm \<in> set (GetVerifiedTransactions mp') else e = Some ErrOOM \<and> mp' = mp2)"
        using mp2(2) _ _ ins by (rule insertItem_ok) (use t k1 mp2 new in \<open>auto simp: tx_fine_def\<close>)
      moreover have "mp_capacity mp' = mp_capacity mp2 \<and> mp_payerIndex mp' = mp_payerIndex mp2"
        using ins by (auto simp: insertItem_finish finish_insert_def ditch_last_def removeConflictsOf_def addConflictsOf_def
            Let_def split: if_splits)
      ultimately show ?thesis using mp2 k1 conflicts by (intro conjI disjI2 exI [of _ rm]) auto
    qed
  qed
qed

section \<open>Removal of stale transactions\<close>

text \<open>What the pooled transactions of a payer cost it, as the pool computes a fee.\<close>

definition owed :: "nat \<Rightarrow> transaction list \<Rightarrow> uint160 \<Rightarrow> int" where
  "owed i ts p = (\<Sum>t\<leftarrow>filter (\<lambda>t. sg_Account (tx_Signers t ! i) = p) ts. uint (tx_fee t))"

lemma owed_append: "owed i (ts @ us) p = owed i ts p + owed i us p"
  by (simp add: owed_def)

text \<open>The table of fees accounts for the transactions \<open>ts\<close>, and every payer can pay.\<close>

definition fees_ok :: "feer \<Rightarrow> transaction list \<Rightarrow> 'd pool \<Rightarrow> bool" where
  "fees_ok fee ts mp \<longleftrightarrow> (\<forall>p. case map_of (mp_fees mp) p of
     None \<Rightarrow> owed (mp_payerIndex mp) ts p = 0
   | Some bf \<Rightarrow> uint (bf_balance bf) = fr_Balance fee p \<and> uint (bf_feeSum bf) = owed (mp_payerIndex mp) ts p \<and>
       uint (bf_feeSum bf) \<le> fr_Balance fee p)"

definition balances_fit :: "feer \<Rightarrow> bool" where
  "balances_fit fee \<longleftrightarrow> (\<forall>p. 0 \<le> fr_Balance fee p \<and> fr_Balance fee p < 2 ^ 255)"

lemma fees_ok_bound:
  assumes "fees_ok fee ts mp" and "balances_fit fee"
  shows "owed (mp_payerIndex mp) ts p \<le> fr_Balance fee p"
  using assms by (auto simp: fees_ok_def balances_fit_def split: option.splits elim!: allE [of _ p])

lemma get_fees_ok:
  assumes "fees_ok fee ts mp" and "balances_fit fee"
  shows "uint (bf_balance (get_fees mp fee p)) = fr_Balance fee p"
    and "uint (bf_feeSum (get_fees mp fee p)) = owed (mp_payerIndex mp) ts p"
proof -
  have "uint (word_of_int (fr_Balance fee p) :: uint256) = fr_Balance fee p"
    using assms(2) by (simp add: balances_fit_def uint_word_of_int_eq take_bit_int_eq_self order_less_trans [of _ "2 ^ 255"])
  with assms(1) show "uint (bf_balance (get_fees mp fee p)) = fr_Balance fee p"
    and "uint (bf_feeSum (get_fees mp fee p)) = owed (mp_payerIndex mp) ts p"
    by (auto simp: fees_ok_def get_fees_def split: option.splits elim!: allE [of _ p])
qed

lemma checkBalance_sum:
  assumes "checkBalance t bf = Inr s" and "uint (bf_feeSum bf) \<le> uint (bf_balance bf)" and "uint (bf_balance bf) < 2 ^ 255"
  shows "uint s = uint (bf_feeSum bf) + uint (tx_fee t)" and "uint s \<le> uint (bf_balance bf)"
proof -
  have fee: "uint (ucast (tx_fee t) :: uint256) = uint (tx_fee t)"
    by (simp add: uint_up_ucast is_up)
  have s: "s = ucast (tx_fee t) + bf_feeSum bf" "\<not> bf_balance bf < s"
    using assms(1) by (auto simp: checkBalance_def Let_def split: if_splits)
  have "uint (tx_fee t) < 2 ^ 64" using uint_bounded [of "tx_fee t"] by simp
  with assms(2,3) fee have "uint (ucast (tx_fee t) :: uint256) + uint (bf_feeSum bf) < 2 ^ 256" by simp
  then have "uint s = uint (ucast (tx_fee t) :: uint256) + uint (bf_feeSum bf)"
    unfolding s(1) by (simp add: uint_add_lem [THEN iffD1])
  with fee show "uint s = uint (bf_feeSum bf) + uint (tx_fee t)" by simp
  show "uint s \<le> uint (bf_balance bf)" using s(2) by (simp add: word_less_def)
qed

lemma fees_ok_update:
  assumes "fees_ok fee ts mp" and "map_of (mp_fees mp') = (map_of (mp_fees mp))(p \<mapsto> bf)" and "mp_payerIndex mp' = mp_payerIndex mp"
    and "uint (bf_balance bf) = fr_Balance fee p" and "uint (bf_feeSum bf) = owed (mp_payerIndex mp) us p"
    and "uint (bf_feeSum bf) \<le> fr_Balance fee p" and "\<And>q. q \<noteq> p \<Longrightarrow> owed (mp_payerIndex mp) us q = owed (mp_payerIndex mp) ts q"
  shows "fees_ok fee us mp'"
  unfolding fees_ok_def
proof (rule allI)
  fix q
  show "case map_of (mp_fees mp') q of
     None \<Rightarrow> owed (mp_payerIndex mp') us q = 0
   | Some bf \<Rightarrow> uint (bf_balance bf) = fr_Balance fee q \<and> uint (bf_feeSum bf) = owed (mp_payerIndex mp') us q \<and>
       uint (bf_feeSum bf) \<le> fr_Balance fee q"
  proof (cases "q = p")
    case False
    with assms(1) [unfolded fees_ok_def, rule_format, of q] show ?thesis
      using assms(2,3,7) by (cases "map_of (mp_fees mp) q") simp_all
  qed (use assms in simp)
qed

lemma tryAddSendersFee_ok:
  assumes ok: "fees_ok fee ts mp" and fit: "balances_fit fee" and t: "mp_payerIndex mp < length (tx_Signers t)"
    and run: "tryAddSendersFee mp t fee True = (b, mp')"
  shows "fees_ok fee (if b then ts @ [t] else ts) mp'"
proof -
  let ?p = "sg_Account (tx_Signers t ! mp_payerIndex mp)" and ?bf = "get_fees mp fee (sg_Account (tx_Signers t ! mp_payerIndex mp))"
  note g = get_fees_ok [OF ok fit, of ?p]
  have le: "owed (mp_payerIndex mp) ts ?p \<le> fr_Balance fee ?p" using ok fit by (rule fees_ok_bound)
  show ?thesis
  proof (cases "checkBalance t ?bf")
    case (Inl e)
    with run t have b: "b = False" and mp': "map_of (mp_fees mp') = (map_of (mp_fees mp))(?p \<mapsto> ?bf)" "mp_payerIndex mp' = mp_payerIndex mp"
      by (auto simp: tryAddSendersFee_def payer_of_def Let_def)
    have "fees_ok fee ts mp'" by (rule fees_ok_update [OF ok mp']) (use g le in simp_all)
    with b show ?thesis by simp
  next
    case (Inr s)
    have fits: "fr_Balance fee ?p < 2 ^ 255" using fit by (simp add: balances_fit_def)
    have s: "uint s = uint (bf_feeSum ?bf) + uint (tx_fee t)" "uint s \<le> uint (bf_balance ?bf)"
      by (rule checkBalance_sum [OF Inr], use g le fits in simp, use g fits in simp)+
    have b: "b = True" and mp': "map_of (mp_fees mp') = (map_of (mp_fees mp))(?p \<mapsto> ?bf\<lparr>bf_feeSum := s\<rparr>)"
        "mp_payerIndex mp' = mp_payerIndex mp"
      using run t Inr by (auto simp: tryAddSendersFee_def payer_of_def Let_def)
    have more: "owed (mp_payerIndex mp) (ts @ [t]) p = owed (mp_payerIndex mp) ts p + (if p = ?p then uint (tx_fee t) else 0)" for p
      by (simp add: owed_append) (simp add: owed_def)
    have "fees_ok fee (ts @ [t]) mp'" by (rule fees_ok_update [OF ok mp']) (use s g more in simp_all)
    with b show ?thesis by simp
  qed
qed

text \<open>What the loop leaves, for items with distinct hashes.\<close>

lemma stale_loop_fields:
  assumes "stale_loop isOK fee ch itms mp = (kept, stale, mp')"
  shows "mp_capacity mp' = mp_capacity mp" and "mp_payerIndex mp' = mp_payerIndex mp"
    and "set kept \<subseteq> set itms" and "length kept \<le> length itms" and "\<forall>itm\<in>set kept. isOK (it_txn itm)"
    and "set stale \<subseteq> set kept"
    and "sorted_wrt P (map it_txn itms) \<Longrightarrow> sorted_wrt P (map it_txn kept)"
    and "distinct (map (tx_hash \<circ> it_txn) itms) \<Longrightarrow> distinct (map (tx_hash \<circ> it_txn) kept)"
    and "mset (conflict_list mp' h) = mset (conflict_list mp h) + conf_ms (map it_txn kept) h"
proof -
  have "mp_capacity mp' = mp_capacity mp \<and> mp_payerIndex mp' = mp_payerIndex mp \<and>
    set kept \<subseteq> set itms \<and> length kept \<le> length itms \<and> (\<forall>itm\<in>set kept. isOK (it_txn itm)) \<and> set stale \<subseteq> set kept \<and>
    (sorted_wrt P (map it_txn itms) \<longrightarrow> sorted_wrt P (map it_txn kept)) \<and>
    (distinct (map (tx_hash \<circ> it_txn) itms) \<longrightarrow> distinct (map (tx_hash \<circ> it_txn) kept)) \<and>
    mset (conflict_list mp' h) = mset (conflict_list mp h) + conf_ms (map it_txn kept) h"
    using assms
  proof (induction itms arbitrary: mp kept stale mp')
    case (Cons itm itms)
    let ?t = "it_txn itm"
    obtain keep m where km: "(if isOK ?t \<and> checkPolicy mp ?t ch then tryAddSendersFee mp ?t fee True else (False, mp)) = (keep, m)"
      by fastforce
    have m: "mp_capacity m = mp_capacity mp" "mp_payerIndex m = mp_payerIndex mp" "mp_conflicts m = mp_conflicts mp"
        "keep \<Longrightarrow> isOK ?t"
      using km tryAddSendersFee_fields(3,4,5) [of mp ?t fee True] by (auto split: if_splits simp del: tryAddSendersFee_fields)
    show ?case
    proof (cases keep)
      case True
      obtain k st m' where rest: "stale_loop isOK fee ch itms (addConflictsOf ?t m) = (k, st, m')" by (metis prod_cases3)
      with Cons.prems km True have res: "kept = itm # k" "set stale \<subseteq> insert itm (set st)" "mp' = m'"
        by (auto simp: Let_def split: if_splits)
      note IH = Cons.IH [OF rest]
      have "mset (conflict_list (addConflictsOf ?t m) h) =
          mset (conflict_list mp h) + replicate_mset (count_list (conflict_hashes ?t) h) (tx_hash ?t)"
        using m(3) by (simp add: addConflictsOf_def addConflictsOf_list conflict_list_core [of m mp])
      with IH res m True show ?thesis by (auto simp: addConflictsOf_def ac_simps)
    next
      case False
      let ?m = "emit TransactionRemoved itm (removeOracle ?t (m\<lparr>mp_verifiedMap := AList.delete (tx_hash ?t) (mp_verifiedMap m)\<rparr>))"
      have rest: "stale_loop isOK fee ch itms ?m = (kept, stale, mp')"
        using Cons.prems km False by (simp add: Let_def)
      note IH = Cons.IH [OF rest]
      have "conflict_list ?m h = conflict_list mp h" using m(3) by (simp add: conflict_list_core [of ?m mp])
      with IH m show ?thesis by auto
    qed
  qed simp
  then show "mp_capacity mp' = mp_capacity mp" and "mp_payerIndex mp' = mp_payerIndex mp"
    and "set kept \<subseteq> set itms" and "length kept \<le> length itms" and "\<forall>itm\<in>set kept. isOK (it_txn itm)"
    and "set stale \<subseteq> set kept"
    and "sorted_wrt P (map it_txn itms) \<Longrightarrow> sorted_wrt P (map it_txn kept)"
    and "distinct (map (tx_hash \<circ> it_txn) itms) \<Longrightarrow> distinct (map (tx_hash \<circ> it_txn) kept)"
    and "mset (conflict_list mp' h) = mset (conflict_list mp h) + conf_ms (map it_txn kept) h"
    by blast+
qed

lemma stale_loop_map:
  assumes "stale_loop isOK fee ch itms mp = (kept, stale, mp')" and "distinct (map (tx_hash \<circ> it_txn) itms)"
  shows "map_of (mp_verifiedMap mp') h =
    (if h \<in> set (map (tx_hash \<circ> it_txn) itms) \<and> h \<notin> set (map (tx_hash \<circ> it_txn) kept) then None else map_of (mp_verifiedMap mp) h)"
  using assms
proof (induction itms arbitrary: mp kept stale mp')
  case (Cons itm itms)
  let ?t = "it_txn itm"
  obtain keep m where km: "(if isOK ?t \<and> checkPolicy mp ?t ch then tryAddSendersFee mp ?t fee True else (False, mp)) = (keep, m)"
    by fastforce
  have m: "mp_verifiedMap m = mp_verifiedMap mp"
    using km tryAddSendersFee_fields(1) [of mp ?t fee True] by (auto split: if_splits simp del: tryAddSendersFee_fields)
  show ?case
  proof (cases keep)
    case True
    obtain k st m' where rest: "stale_loop isOK fee ch itms (addConflictsOf ?t m) = (k, st, m')" by (metis prod_cases3)
    with Cons.prems km True have "kept = itm # k" "mp' = m'" by (auto simp: Let_def split: if_splits)
    with Cons.IH [OF rest] Cons.prems(2) m show ?thesis by (auto simp: addConflictsOf_def)
  next
    case False
    let ?m = "emit TransactionRemoved itm (removeOracle ?t (m\<lparr>mp_verifiedMap := AList.delete (tx_hash ?t) (mp_verifiedMap m)\<rparr>))"
    have rest: "stale_loop isOK fee ch itms ?m = (kept, stale, mp')"
      using Cons.prems km False by (simp add: Let_def)
    have "tx_hash ?t \<notin> set (map (tx_hash \<circ> it_txn) kept)"
      using stale_loop_fields(3) [OF rest] Cons.prems(2) by auto
    with Cons.IH [OF rest] Cons.prems(2) m show ?thesis by auto
  qed
qed simp

lemma fees_ok_fields:
  assumes "fees_ok fee ts mp" and "mp_fees mp' = mp_fees mp" and "mp_payerIndex mp' = mp_payerIndex mp"
  shows "fees_ok fee ts mp'"
  using assms(1) unfolding fees_ok_def assms(2,3) .

lemma stale_loop_fees:
  assumes "stale_loop isOK fee ch itms mp = (kept, stale, mp')" and "balances_fit fee" and "fees_ok fee ts mp"
    and "\<forall>itm\<in>set itms. mp_payerIndex mp < length (tx_Signers (it_txn itm))"
  shows "fees_ok fee (ts @ map it_txn kept) mp'"
  using assms
proof (induction itms arbitrary: mp kept stale mp' ts)
  case (Cons itm itms)
  let ?t = "it_txn itm"
  obtain keep m where km: "(if isOK ?t \<and> checkPolicy mp ?t ch then tryAddSendersFee mp ?t fee True else (False, mp)) = (keep, m)"
    by fastforce
  have m: "mp_payerIndex m = mp_payerIndex mp"
    using km tryAddSendersFee_fields(5) [of mp ?t fee True] by (auto split: if_splits simp del: tryAddSendersFee_fields)
  have fees: "fees_ok fee (if keep then ts @ [?t] else ts) m"
    using km Cons.prems tryAddSendersFee_ok [of fee ts mp ?t keep m] by (auto split: if_splits)
  have signers: "\<forall>itm\<in>set itms. mp_payerIndex m < length (tx_Signers (it_txn itm))" using Cons.prems(4) m by simp
  show ?case
  proof (cases keep)
    case True
    obtain k st m' where rest: "stale_loop isOK fee ch itms (addConflictsOf ?t m) = (k, st, m')" by (metis prod_cases3)
    with Cons.prems km True have "kept = itm # k" "mp' = m'" by (auto simp: Let_def split: if_splits)
    moreover have "fees_ok fee ((ts @ [?t]) @ map it_txn k) m'"
      by (rule Cons.IH [OF rest Cons.prems(2)], rule fees_ok_fields [of _ _ m])
         (use fees signers True in \<open>simp_all add: addConflictsOf_def\<close>)
    ultimately show ?thesis by simp
  next
    case False
    have rest: "stale_loop isOK fee ch itms (emit TransactionRemoved itm (removeOracle ?t
        (m\<lparr>mp_verifiedMap := AList.delete (tx_hash ?t) (mp_verifiedMap m)\<rparr>))) = (kept, stale, mp')"
      using Cons.prems km False by (simp add: Let_def)
    show ?thesis
      by (rule Cons.IH [OF rest Cons.prems(2)], rule fees_ok_fields [of _ _ m]) (use fees signers False in simp_all)
  qed
qed simp

lemma RemoveStale_ok:
  assumes ok: "pool_ok mp" and run: "RemoveStale isOK fee mp = (stale, mp')"
  shows "pool_ok mp'" and "mp_capacity mp' = mp_capacity mp" and "mp_payerIndex mp' = mp_payerIndex mp"
    and "set (GetVerifiedTransactions mp') \<subseteq> {t \<in> set (GetVerifiedTransactions mp). isOK t}"
    and "balances_fit fee \<Longrightarrow> fees_ok fee (GetVerifiedTransactions mp') mp'"
proof -
  obtain pc m0 where lp: "loadPolicy fee mp = (pc, m0)" by fastforce
  then have m0: "mp_verifiedMap m0 = mp_verifiedMap mp" "mp_verifiedTxes m0 = mp_verifiedTxes mp"
      "mp_capacity m0 = mp_capacity mp" "mp_payerIndex m0 = mp_payerIndex mp"
    by (auto simp: loadPolicy_def split: if_splits)
  obtain kept st m where loop: "stale_loop isOK fee pc (mp_verifiedTxes mp) (m0\<lparr>mp_fees := [], mp_conflicts := []\<rparr>) = (kept, st, m)"
    by (metis prod_cases3)
  with run lp m0 have mp': "mp' = m\<lparr>mp_verifiedTxes := kept\<rparr>" by (simp add: RemoveStale_def)
  note D = pool_okD [OF ok] and F = stale_loop_fields [OF loop]
  have ts: "GetVerifiedTransactions mp' = map it_txn kept" "GetVerifiedTransactions mp = map it_txn (mp_verifiedTxes mp)"
    by (simp_all add: mp' GetVerifiedTransactions_def)
  show sub: "set (GetVerifiedTransactions mp') \<subseteq> {t \<in> set (GetVerifiedTransactions mp). isOK t}"
    unfolding ts using F(3,5) by auto
  show cap: "mp_capacity mp' = mp_capacity mp" "mp_payerIndex mp' = mp_payerIndex mp" using F(1,2) m0 by (simp_all add: mp')
  have dist: "distinct (map (tx_hash \<circ> it_txn) (mp_verifiedTxes mp))" using D(2) by (simp add: ts)
  have "map_of (mp_verifiedMap mp') h = Some t \<longleftrightarrow> t \<in> set (map it_txn kept) \<and> tx_hash t = h" for h t
  proof -
    have "map_of (mp_verifiedMap mp') h =
      (if h \<in> tx_hash ` set (GetVerifiedTransactions mp) \<and> h \<notin> tx_hash ` set (map it_txn kept) then None else map_of (mp_verifiedMap mp) h)"
      using stale_loop_map [OF loop dist] m0(1) by (simp add: mp' ts image_image)
    moreover have "\<And>a b. a \<in> set (GetVerifiedTransactions mp) \<Longrightarrow> b \<in> set (GetVerifiedTransactions mp) \<Longrightarrow> tx_hash a = tx_hash b \<Longrightarrow> a = b"
      using D(3) by (metis option.inject)
    moreover have "set (map it_txn kept) \<subseteq> set (GetVerifiedTransactions mp)" using sub ts by auto
    ultimately show ?thesis using D(3) [of h t]
      by (smt (verit, ccfv_threshold) image_iff option.distinct(1) subset_iff)
  qed
  moreover have "mset (conflict_list mp' h) = conf_ms (map it_txn kept) h" for h
    using F(9) [of h] by (simp add: mp' conflict_list_def)
  moreover have "\<forall>t\<in>set (map it_txn kept). tx_fine mp' t" using D(1) sub cap ts by (auto simp: tx_fine_def)
  moreover have "by_priority (map it_txn kept)" using F(7) D(4) by (simp add: by_priority_def ts)
  moreover have "distinct (map tx_hash (map it_txn kept))" using F(8) [OF dist] by simp
  moreover have "length kept \<le> mp_capacity mp'" using F(4) D(5) cap by (simp add: ts)
  ultimately show "pool_ok mp'" unfolding pool_ok_def ts(1) by (simp add: Let_def)
  show "fees_ok fee (GetVerifiedTransactions mp') mp'" if fit: "balances_fit fee"
  proof -
    have "fees_ok fee ([] @ map it_txn kept) m"
    proof (rule stale_loop_fees [OF loop fit])
      show "fees_ok fee [] (m0\<lparr>mp_fees := [], mp_conflicts := []\<rparr>)" by (simp add: fees_ok_def owed_def)
      show "\<forall>itm\<in>set (mp_verifiedTxes mp). mp_payerIndex (m0\<lparr>mp_fees := [], mp_conflicts := []\<rparr>) < length (tx_Signers (it_txn itm))"
        using D(1) m0 by (auto simp: tx_fine_def ts)
    qed
    then have "fees_ok fee (map it_txn kept) m" by simp
    then show ?thesis unfolding ts(1) by (rule fees_ok_fields) (simp_all add: mp')
  qed
qed

section \<open>Data of a pooled transaction\<close>

lemma scan_data_found:
  assumes "i < length itms" and "tx_hash (it_txn (itms ! i)) = h" and "distinct (map (tx_hash \<circ> it_txn) itms)"
    and "\<forall>k<i. CompareTo tx (it_txn (itms ! k)) = 0"
  shows "scan_data tx h itms = Some (it_data (itms ! i))"
  using assms
proof (induction itms arbitrary: i)
  case (Cons a itms)
  show ?case
  proof (cases i)
    case 0
    with Cons.prems show ?thesis by simp
  next
    case (Suc j)
    have "tx_hash (it_txn a) \<noteq> h" using Cons.prems(1-3) Suc by (auto simp: image_iff)
    moreover have "CompareTo tx (it_txn a) = 0" using Cons.prems(4) Suc by (metis nth_Cons_0 zero_less_Suc)
    moreover have "scan_data tx h itms = Some (it_data (itms ! j))"
      by (rule Cons.IH) (use Cons.prems Suc in auto)
    ultimately show ?thesis using Suc by simp
  qed
qed simp

lemma TryGetData_found:
  assumes ok: "pool_ok mp" and itm: "itm \<in> set (mp_verifiedTxes mp)"
  shows "TryGetData mp (tx_hash (it_txn itm)) = Some (it_data itm)"
proof -
  let ?ts = "GetVerifiedTransactions mp" and ?v = "mp_verifiedTxes mp" and ?t = "it_txn itm"
  let ?f = "\<lambda>n. CompareTo ?t (it_txn (?v ! n)) \<ge> 0"
  note D = pool_okD [OF ok]
  obtain i where i: "i < length ?v" "?v ! i = itm" using itm by (auto simp: in_set_conv_nth)
  have len: "length ?ts = length ?v" and nth: "\<And>k. k < length ?v \<Longrightarrow> it_txn (?v ! k) = ?ts ! k"
    by (simp_all add: GetVerifiedTransactions_def)
  have fine: "tx_fine mp (?ts ! k)" if "k < length ?v" for k using that D(1) len by simp
  have t: "?t = ?ts ! i" using i(2) nth [OF i(1)] by simp
  have f: "?f k \<longleftrightarrow> \<not> prio_less ?t (?ts ! k)" if "k < length ?v" for k
    using that CompareTo_prio(2) [OF fine [OF i(1)] fine [OF that]] nth t by (simp add: not_less [symmetric])
  have ord: "\<not> prio_less (?ts ! a) (?ts ! b)" if "a \<le> b" "b < length ?v" for a b
    using that sorted_wrt_nth_less [OF D(4) [unfolded by_priority_def], of a b] prio_less_order(1) len by (cases "a = b") simp_all
  define n where "n = Search (length ?v) ?f"
  have mono: "\<forall>a b. a \<le> b \<longrightarrow> b < length ?v \<longrightarrow> ?f a \<longrightarrow> ?f b"
    using f ord prio_less_order(3) by (meson le_less_trans)
  have n: "\<forall>k<n. \<not> ?f k" "\<forall>k. n \<le> k \<and> k < length ?v \<longrightarrow> ?f k"
    using Search_splits [OF mono] unfolding n_def [symmetric] by blast+
  have "?f i" using f [OF i(1)] t prio_less_order(1) by simp
  then have ni: "n \<le> i" using n(1) not_le by blast
  have "map_of (mp_verifiedMap mp) (tx_hash ?t) = Some ?t"
    using D(3) itm by (auto simp: GetVerifiedTransactions_def)
  moreover have "scan_data ?t (tx_hash ?t) (drop n ?v) = Some (it_data (drop n ?v ! (i - n)))"
  proof (rule scan_data_found)
    show "i - n < length (drop n ?v)" "tx_hash (it_txn (drop n ?v ! (i - n))) = tx_hash ?t" using i ni by simp_all
    have "distinct (map (tx_hash \<circ> it_txn) ?v)" using D(2) by (simp add: GetVerifiedTransactions_def)
    then show "distinct (map (tx_hash \<circ> it_txn) (drop n ?v))" by (metis distinct_drop drop_map)
    show "\<forall>k<i - n. CompareTo ?t (it_txn (drop n ?v ! k)) = 0"
    proof (intro allI impI)
      fix k assume "k < i - n"
      then have k: "n + k < i" "n + k < length ?v" using i by simp_all
      have "\<not> prio_less ?t (?ts ! (n + k))" using n(2) f k by simp
      moreover have "\<not> prio_less (?ts ! (n + k)) ?t" using ord [of "n + k" i] k i(1) t by simp
      ultimately have "priority (?ts ! i) = priority (?ts ! (n + k))" unfolding t by (rule prio_less_order(5))
      then have "CompareTo ?t (?ts ! (n + k)) = 0"
        unfolding t using CompareTo_prio(3) [OF fine [OF i(1)] fine [OF k(2)]] by blast
      then show "CompareTo ?t (it_txn (drop n ?v ! k)) = 0" using nth k by simp
    qed
  qed
  ultimately show ?thesis using i ni by (simp add: TryGetData_def n_def [symmetric])
qed

lemma New_ok: "pool_ok (New cap i)"
  by (simp add: pool_ok_def New_def GetVerifiedTransactions_def by_priority_def conflict_list_def)

end
