(* ===== verification/Mempool_Safety.thy ===== *)
theory Mempool_Safety
  imports Mempool_Api
begin

text \<open>
  The properties of the memory pool over all of its reachable states, and the executions on which
  its accounts of fees and oracle responses go wrong.
\<close>

section \<open>No two pooled transactions conflict\<close>

definition no_conflicts :: "transaction list \<Rightarrow> bool" where
  "no_conflicts ts \<longleftrightarrow> (\<forall>a\<in>set ts. \<forall>b\<in>set ts. tx_hash b \<notin> set (conflict_hashes a))"

lemma conflicts_step1_removes:
  assumes "conflicts_step1 mp p hs (cf, rm) = Some (cf', rm')"
  shows "set rm \<subseteq> set rm'" and "\<forall>h\<in>set hs. \<exists>x\<in>set rm'. map_of (mp_verifiedMap mp) h = Some x"
proof -
  have "set rm \<subseteq> set rm' \<and> (\<forall>h\<in>set hs. \<exists>x\<in>set rm'. map_of (mp_verifiedMap mp) h = Some x)"
    using assms
  proof (induction hs arbitrary: cf rm)
    case (Cons h hs)
    then obtain ex where ex: "map_of (mp_verifiedMap mp) h = Some ex"
        "conflicts_step1 mp p hs (if HasSigner ex p then cf + tx_NetworkFee ex else cf, rm @ [ex]) = Some (cf', rm')"
      by (auto split: option.splits)
    from Cons.IH [OF ex(2)] ex(1) show ?case by auto
  qed simp
  then show "set rm \<subseteq> set rm'" and "\<forall>h\<in>set hs. \<exists>x\<in>set rm'. map_of (mp_verifiedMap mp) h = Some x" by blast+
qed

lemma conflicts_step2_removes:
  assumes "conflicts_step2 mp t hs (cf, rm) = Some (cf', rm')"
  shows "set rm \<subseteq> set rm'" and "\<forall>h\<in>set hs. \<forall>x. map_of (mp_verifiedMap mp) h = Some x \<longrightarrow> x \<in> set rm'"
proof -
  have "set rm \<subseteq> set rm' \<and> (\<forall>h\<in>set hs. \<forall>x. map_of (mp_verifiedMap mp) h = Some x \<longrightarrow> x \<in> set rm')"
    using assms
  proof (induction hs arbitrary: cf rm)
    case (Cons h hs)
    show ?case
    proof (cases "map_of (mp_verifiedMap mp) h")
      case None
      with Cons show ?thesis by auto
    next
      case (Some ex)
      with Cons.prems have rest: "conflicts_step2 mp t hs (cf + tx_NetworkFee ex, rm @ [ex]) = Some (cf', rm')"
        by (auto split: if_splits)
      from Cons.IH [OF rest] Some show ?thesis by auto
    qed
  qed simp
  then show "set rm \<subseteq> set rm'" and "\<forall>h\<in>set hs. \<forall>x. map_of (mp_verifiedMap mp) h = Some x \<longrightarrow> x \<in> set rm'" by blast+
qed

lemma conf_ms_intro: "x \<in> set ts \<Longrightarrow> h \<in> set (conflict_hashes x) \<Longrightarrow> tx_hash x \<in># conf_ms ts h"
proof (induction ts)
  case (Cons t ts)
  show ?case
  proof (cases "x = t")
    case True
    then have "count_list (conflict_hashes t) h \<noteq> 0" using Cons.prems(2) by (simp add: count_list_0_iff)
    with True show ?thesis by simp
  next
    case False
    with Cons show ?thesis by simp
  qed
qed simp

lemma checkTxConflicts_removes:
  assumes ok: "pool_ok mp" and run: "checkTxConflicts mp t fee = Inr rm" and x: "x \<in> set (GetVerifiedTransactions mp)"
    and conf: "tx_hash t \<in> set (conflict_hashes x) \<or> tx_hash x \<in> set (conflict_hashes t)"
  shows "tx_hash x \<in> tx_hash ` set rm"
proof -
  note D = pool_okD [OF ok]
  obtain p cf1 rm1 cf where s1: "conflicts_step1 mp p (conflict_list mp (tx_hash t)) (0, []) = Some (cf1, rm1)"
      and s2: "conflicts_step2 mp t (conflict_hashes t) (cf1, rm1) = Some (cf, rm)"
    using run by (auto simp: checkTxConflicts_def Let_def split: option.splits if_splits sum.splits prod.splits)
  have "map_of (mp_verifiedMap mp) (tx_hash x) = Some x" using D(3) x by blast
  from conf show ?thesis
  proof
    assume h: "tx_hash t \<in> set (conflict_hashes x)"
    then have "tx_hash x \<in> set (conflict_list mp (tx_hash t))"
      using conf_ms_intro [OF x h] D(6) by (metis set_mset_mset)
    with conflicts_step1_removes(2) [OF s1] conflicts_step2_removes(1) [OF s2]
      \<open>map_of (mp_verifiedMap mp) (tx_hash x) = Some x\<close> show ?thesis by fastforce
  next
    assume "tx_hash x \<in> set (conflict_hashes t)"
    then show ?thesis
      using conflicts_step2_removes(2) [OF s2] \<open>map_of (mp_verifiedMap mp) (tx_hash x) = Some x\<close> by auto
  qed
qed

section \<open>The pool as a state machine\<close>

text \<open>
  The operations that change the pool, each called with its lock held. \<^verbatim>\<open>Add\<close> is called with
  transactions of non-negative network fee that have a payer, the ones decoding and verification
  let through, and that do not name their own hash in a Conflicts attribute: the hash covers
  the attributes.
\<close>

inductive pool_run :: "nat \<Rightarrow> nat \<Rightarrow> 'd pool \<Rightarrow> bool" where
  run_New: "pool_run cap i (New cap i)"
| run_Add: "pool_run cap i mp \<Longrightarrow> tx_fine mp t \<Longrightarrow> tx_hash t \<notin> set (conflict_hashes t) \<Longrightarrow>
    Add t d fee mp = (e, mp') \<Longrightarrow> pool_run cap i mp'"
| run_Remove: "pool_run cap i mp \<Longrightarrow> Remove h mp = Some mp' \<Longrightarrow> pool_run cap i mp'"
| run_RemoveStale: "pool_run cap i mp \<Longrightarrow> RemoveStale isOK fee mp = (stale, mp') \<Longrightarrow> pool_run cap i mp'"
| run_SetResendThreshold: "pool_run cap i mp \<Longrightarrow> pool_run cap i (SetResendThreshold h mp)"

lemma no_conflicts_subset: "no_conflicts ts \<Longrightarrow> set us \<subseteq> set ts \<Longrightarrow> no_conflicts us"
  unfolding no_conflicts_def by blast

lemma pool_run_ok:
  assumes "pool_run cap i mp"
  shows "pool_ok mp \<and> mp_capacity mp = cap \<and> mp_payerIndex mp = i \<and> no_conflicts (GetVerifiedTransactions mp)"
  using assms
proof (induction rule: pool_run.induct)
  case (run_New cap i)
  show ?case by (simp add: New_ok) (simp add: New_def GetVerifiedTransactions_def no_conflicts_def)
next
  case (run_Add cap i mp t d fee e mp')
  note a = Add_ok [OF run_Add.IH [THEN conjunct1] run_Add.hyps(2,4)]
  let ?ts = "GetVerifiedTransactions mp"
  have "no_conflicts (GetVerifiedTransactions mp')"
  proof (cases "set (GetVerifiedTransactions mp') \<subseteq> set ?ts")
    case True
    with run_Add.IH no_conflicts_subset show ?thesis by blast
  next
    case False
    with a obtain rm where rm: "checkTxConflicts mp t fee = Inr rm"
        "set (GetVerifiedTransactions mp') \<subseteq> insert t {x \<in> set ?ts. tx_hash x \<notin> tx_hash ` set rm}" by blast
    have apart: "tx_hash t \<notin> set (conflict_hashes x) \<and> tx_hash x \<notin> set (conflict_hashes t)"
      if "x \<in> set ?ts" "tx_hash x \<notin> tx_hash ` set rm" for x
      using checkTxConflicts_removes [OF run_Add.IH [THEN conjunct1] rm(1) that(1)] that(2) by blast
    show ?thesis
      unfolding no_conflicts_def
    proof (intro ballI)
      fix a b assume "a \<in> set (GetVerifiedTransactions mp')" "b \<in> set (GetVerifiedTransactions mp')"
      with rm(2) have "a = t \<or> a \<in> set ?ts \<and> tx_hash a \<notin> tx_hash ` set rm" "b = t \<or> b \<in> set ?ts \<and> tx_hash b \<notin> tx_hash ` set rm"
        by blast+
      then show "tx_hash b \<notin> set (conflict_hashes a)"
        using apart run_Add.hyps(3) run_Add.IH [THEN conjunct2, THEN conjunct2, THEN conjunct2, unfolded no_conflicts_def] by blast
    qed
  qed
  with a run_Add.IH show ?case by simp
next
  case (run_Remove cap i mp h mp')
  note r = removeInternal_keeps [OF run_Remove.IH [THEN conjunct1] run_Remove.hyps(2) [unfolded Remove_def]]
  have "no_conflicts (GetVerifiedTransactions mp')"
    by (rule no_conflicts_subset [of "GetVerifiedTransactions mp"]) (use run_Remove.IH r(2) in auto)
  with r run_Remove.IH show ?case by simp
next
  case (run_RemoveStale cap i mp isOK fee stale mp')
  note r = RemoveStale_ok [OF run_RemoveStale.IH [THEN conjunct1] run_RemoveStale.hyps(2)]
  have "no_conflicts (GetVerifiedTransactions mp')"
    by (rule no_conflicts_subset [of "GetVerifiedTransactions mp"]) (use run_RemoveStale.IH r(4) in auto)
  with r run_RemoveStale.IH show ?case by simp
next
  case (run_SetResendThreshold cap i mp h)
  have "pool_ok (SetResendThreshold h mp)"
    by (rule pool_ok_core [of mp]) (use run_SetResendThreshold.IH in \<open>simp_all add: SetResendThreshold_def pool_core_def\<close>)
  with run_SetResendThreshold.IH show ?case by (simp add: SetResendThreshold_def GetVerifiedTransactions_def)
qed

section \<open>Properties\<close>

text \<open>Transactions and a ledger for the examples.\<close>

definition pool_tx :: "uint256 \<Rightarrow> int64 \<Rightarrow> uint160 \<Rightarrow> attribute list \<Rightarrow> transaction" where
  "pool_tx h netFee acc attrs = empty_transaction\<lparr>tx_NetworkFee := netFee, tx_size := 10, tx_hash := h, tx_hashed := True,
     tx_Attributes := attrs,
     tx_Signers := [\<lparr>sg_Account = acc, sg_Scopes = CalledByEntry, sg_AllowedContracts = [], sg_AllowedGroups = [], sg_Rules = []\<rparr>]\<rparr>"

definition conflicts_with :: "uint256 \<Rightarrow> attribute" where
  "conflicts_with h = \<lparr>at_Type = ConflictsT, at_Value = Some (Conflicts h)\<rparr>"

definition rich_feer :: feer where
  "rich_feer = \<lparr>fr_FeePerByte = 0, fr_Balance = (\<lambda>_. 500), fr_BlockHeight = 4\<rparr>"

definition ex_pool :: "nat pool" where
  "ex_pool = snd (Add (pool_tx 2 200 5 [conflicts_with 1]) (Some 7) rich_feer
     (snd (Add (pool_tx 3 50 6 []) None rich_feer (snd (Add (pool_tx 1 100 5 []) None rich_feer (New 2 0))))))"

lemma ex_pool_values:
  "map tx_hash (GetVerifiedTransactions ex_pool) = [2, 3]"
  "fst (Add (pool_tx 4 20 5 []) None rich_feer ex_pool) = Some ErrOOM"
  by code_simp+

lemma ex_pool_run: "pool_run 2 0 ex_pool"
proof -
  have fine: "tx_fine mp (pool_tx h n a as)" if "0 \<le> sint n" "mp_payerIndex mp = 0" for mp :: "nat pool" and h n a as
    using that by (simp add: tx_fine_def pool_tx_def)
  have add: "pool_run 2 0 (snd (Add (pool_tx h n a as) d rich_feer mp))"
    if "pool_run 2 0 mp" "0 \<le> sint n" "h \<notin> set (conflict_hashes (pool_tx h n a as))" for mp :: "nat pool" and h n a as d
    by (rule run_Add [OF that(1), of "pool_tx h n a as" d rich_feer "fst (Add (pool_tx h n a as) d rich_feer mp)"])
       (use that pool_run_ok [OF that(1)] in \<open>simp_all add: fine\<close>, simp add: pool_tx_def)
  show ?thesis
    unfolding ex_pool_def by (intro add run_New) (simp_all, code_simp+)
qed

lemma find_by_hash:
  assumes "distinct (map f xs)" and "x \<in> set xs"
  shows "find (\<lambda>y. f y = f x) xs = Some x"
  using assms by (induction xs) auto

text \<open>
  C22. In every state the pool can reach, the slice and the map hold the same transactions, each
  once and no more than the capacity; the slice is sorted by priority; and the index of
  conflicts lists for a hash exactly the pooled transactions that name it.
\<close>

theorem mempool_invariant:
  assumes "pool_run cap i mp"
  shows "distinct (map tx_hash (GetVerifiedTransactions mp)) \<and>
    (\<forall>h. TryGetValue mp h = find (\<lambda>t. tx_hash t = h) (GetVerifiedTransactions mp)) \<and>
    length (GetVerifiedTransactions mp) \<le> cap \<and>
    sorted_wrt (\<lambda>a b. CompareTo a b \<ge> 0) (GetVerifiedTransactions mp) \<and>
    (\<forall>h h'. h' \<in> set (conflict_list mp h) \<longleftrightarrow>
      (\<exists>t\<in>set (GetVerifiedTransactions mp). tx_hash t = h' \<and> h \<in> set (conflict_hashes t)))"
proof -
  let ?ts = "GetVerifiedTransactions mp"
  have ok: "pool_ok mp" and cap: "mp_capacity mp = cap" using pool_run_ok [OF assms] by blast+
  note D = pool_okD [OF ok]
  have "TryGetValue mp h = find (\<lambda>t. tx_hash t = h) ?ts" for h
  proof (cases "map_of (mp_verifiedMap mp) h")
    case None
    then have "\<forall>t\<in>set ?ts. tx_hash t \<noteq> h" using D(3) by (metis option.distinct(1))
    with None show ?thesis by (simp add: TryGetValue_def find_None_iff2)
  next
    case (Some t)
    with D(3) have "t \<in> set ?ts" "tx_hash t = h" by auto
    with find_by_hash [OF D(2) this(1)] Some show ?thesis by (simp add: TryGetValue_def)
  qed
  moreover have "sorted_wrt (\<lambda>a b. CompareTo a b \<ge> 0) ?ts"
    using D(4) unfolding by_priority_def
    by (rule sorted_wrt_mono_rel [rotated]) (metis CompareTo_prio(2) D(1) not_le)
  moreover have "h' \<in> set (conflict_list mp h) \<longleftrightarrow> (\<exists>t\<in>set ?ts. tx_hash t = h' \<and> h \<in> set (conflict_hashes t))" for h h'
    using D(6) [of h] conf_ms_mem conf_ms_intro by (metis set_mset_mset)
  ultimately show ?thesis using D(2,5) cap by blast
qed

theorem mempool_invariant_witness:
  "length (GetVerifiedTransactions ex_pool) \<le> 2 \<and> 2 \<in> set (conflict_list ex_pool 1)"
proof -
  have "\<exists>t\<in>set (GetVerifiedTransactions ex_pool). tx_hash t = 2 \<and> 1 \<in> set (conflict_hashes t)" by code_simp
  with mempool_invariant [OF ex_pool_run] show ?thesis by blast
qed

text \<open>
  C23. No two transactions that are in the pool together conflict: none names the other's hash
  in a Conflicts attribute.
\<close>

theorem mempool_no_conflicts:
  assumes "pool_run cap i mp" and "a \<in> set (GetVerifiedTransactions mp)" and "b \<in> set (GetVerifiedTransactions mp)"
  shows "tx_hash b \<notin> set (conflict_hashes a)"
  using pool_run_ok [OF assms(1)] assms(2,3) unfolding no_conflicts_def by blast

theorem mempool_no_conflicts_witness:
  "tx_hash (pool_tx 3 50 6 []) \<notin> set (conflict_hashes (pool_tx 2 200 5 [conflicts_with 1]))"
proof -
  have "pool_tx 2 200 5 [conflicts_with 1] \<in> set (GetVerifiedTransactions ex_pool)"
      "pool_tx 3 50 6 [] \<in> set (GetVerifiedTransactions ex_pool)"
    by code_simp+
  then show ?thesis by (rule mempool_no_conflicts [OF ex_pool_run])
qed

text \<open>
  The data of a pooled transaction is found by bisection over the priorities: the result is
  that of a search through the whole slice for the hash.
\<close>

theorem TryGetData_correct:
  assumes "pool_run cap i mp"
  shows "TryGetData mp h = map_option it_data (find (\<lambda>itm. tx_hash (it_txn itm) = h) (mp_verifiedTxes mp))"
proof -
  have ok: "pool_ok mp" using pool_run_ok [OF assms] by blast
  have dist: "distinct (map (\<lambda>itm. tx_hash (it_txn itm)) (mp_verifiedTxes mp))"
    using pool_okD(2) [OF ok] by (simp add: GetVerifiedTransactions_def comp_def)
  show ?thesis
  proof (cases "\<exists>itm\<in>set (mp_verifiedTxes mp). tx_hash (it_txn itm) = h")
    case True
    then obtain itm where "itm \<in> set (mp_verifiedTxes mp)" "tx_hash (it_txn itm) = h" by blast
    then show ?thesis using TryGetData_found [OF ok] find_by_hash [OF dist] by force
  next
    case False
    then have "map_of (mp_verifiedMap mp) h = None"
      using pool_okD(3) [OF ok, of h] by (auto simp: GetVerifiedTransactions_def not_Some_eq [symmetric] simp del: not_Some_eq)
    moreover have "find (\<lambda>itm. tx_hash (it_txn itm) = h) (mp_verifiedTxes mp) = None" using False by (simp add: find_None_iff)
    ultimately show ?thesis by (simp add: TryGetData_def)
  qed
qed

theorem TryGetData_correct_witness: "TryGetData ex_pool 2 = Some (Some 7)"
  unfolding TryGetData_correct [OF ex_pool_run] by code_simp

text \<open>
  C24. After the removal of stale transactions the pool holds only transactions that it held before
  and that pass the filter, and every payer's balance covers the fees of all of its
  pooled transactions together.
\<close>

theorem RemoveStale_payers_can_pay:
  assumes "pool_run cap i mp" and "RemoveStale isOK fee mp = (stale, mp')"
    and "\<And>p. 0 \<le> fr_Balance fee p \<and> fr_Balance fee p < 2 ^ 255"
  shows "set (GetVerifiedTransactions mp') \<subseteq> {t \<in> set (GetVerifiedTransactions mp). isOK t} \<and>
    owed i (GetVerifiedTransactions mp') p \<le> fr_Balance fee p"
proof -
  have ok: "pool_ok mp" and i: "mp_payerIndex mp = i" using pool_run_ok [OF assms(1)] by blast+
  note r = RemoveStale_ok [OF ok assms(2)]
  have fit: "balances_fit fee" using assms(3) by (simp add: balances_fit_def)
  with r(5) have "owed (mp_payerIndex mp') (GetVerifiedTransactions mp') p \<le> fr_Balance fee p"
    by (blast intro: fees_ok_bound)
  with r(3,4) i show ?thesis by simp
qed

theorem RemoveStale_payers_can_pay_witness:
  "owed 0 (GetVerifiedTransactions (snd (RemoveStale (\<lambda>t. tx_hash t \<noteq> 3) (rich_feer\<lparr>fr_Balance := (\<lambda>_. 199)\<rparr>) ex_pool))) 5 \<le> 199"
proof -
  have "fr_Balance (rich_feer\<lparr>fr_Balance := (\<lambda>_. 199)\<rparr>) 5 = 199" by simp
  then show ?thesis
    using RemoveStale_payers_can_pay [OF ex_pool_run prod.collapse [symmetric], of "rich_feer\<lparr>fr_Balance := (\<lambda>_. 199)\<rparr>" "\<lambda>t. tx_hash t \<noteq> 3" 5]
    by simp
qed

text \<open>
  C25. A transaction that is not in the pool, takes part in no conflict, answers no oracle request
  and whose payer can still pay is accepted by a pool that is not full: it joins the transactions
  that were there.
\<close>

theorem Add_accepts:
  assumes "pool_run cap i mp" and "tx_fine mp t" and "\<not> HasConflicts mp t" and "conflict_hashes t = []"
    and "oracle_id t = None" and "pool_count mp < cap"
    and "uint (tx_fee t) + uint (bf_feeSum (get_fees mp fee p)) \<le> uint (bf_balance (get_fees mp fee p))"
    and "payer_of mp t = Some p"
  shows "\<exists>mp'. Add t d fee mp = (None, mp') \<and>
    mset (GetVerifiedTransactions mp') = add_mset t (mset (GetVerifiedTransactions mp))"
proof -
  have ok: "pool_ok mp" and cap: "mp_capacity mp = cap" using pool_run_ok [OF assms(1)] by blast+
  have not_in: "\<not> containsKey mp (tx_hash t)" "conflict_list mp (tx_hash t) = []"
    using assms(3) by (auto simp: HasConflicts_def conflict_list_def)
  let ?bf = "get_fees mp fee p" and ?f = "ucast (tx_fee t) :: uint256"
  have f: "uint ?f = uint (tx_fee t)" by (simp add: uint_up_ucast is_up)
  have "uint (?f + bf_feeSum ?bf) = uint ?f + uint (bf_feeSum ?bf)"
    using assms(7) f uint_bounded [of "bf_balance ?bf"] by (intro uint_add_lem [THEN iffD1]) simp
  moreover have "uint (tx_fee t) \<le> uint (bf_balance ?bf)" using assms(7) uint_ge_0 [of "bf_feeSum ?bf"] by linarith
  ultimately have "checkBalance t ?bf = Inr (?f + bf_feeSum ?bf)"
    using assms(7) f unfolding checkBalance_def Let_def word_less_def by simp
  then have chk: "checkTxConflicts mp t fee = Inr []"
    using assms(4,8) not_in(2) by (simp add: checkTxConflicts_def)
  let ?itm = "\<lparr>it_txn = t, it_blockStamp = fr_BlockHeight fee, it_data = d\<rparr>"
  let ?n = "Search (length (mp_verifiedTxes mp)) (\<lambda>n. CompareTo t (it_txn (mp_verifiedTxes mp ! n)) > 0)"
  have add: "Add t d fee mp = (None, finish_insert ?itm fee ?n (mp\<lparr>mp_verifiedTxes := mp_verifiedTxes mp @ [?itm]\<rparr>))"
    using assms(5,6) not_in(1) chk cap by (simp add: Add_def addOracle_def insertItem_finish pool_count_def Let_def)
  have new: "tx_hash t \<notin> tx_hash ` set (GetVerifiedTransactions mp)"
    using not_in(1) pool_okD(3) [OF ok] by (auto simp: containsKey_def)
  note fin = finish_insert_ok(2) [OF ok, where itm = ?itm and n = ?n and fee = fee, OF _ _ _ _ refl]
  show ?thesis
    using add fin new assms(2,6) cap Search_at_place [OF ok assms(2)] by (simp add: pool_count_def)
qed

theorem Add_accepts_witness:
  "\<exists>mp'. Add (pool_tx 4 20 6 []) (Some 8) rich_feer (New 2 0 :: nat pool) = (None, mp') \<and>
    mset (GetVerifiedTransactions mp') = {#pool_tx 4 20 6 []#}"
proof -
  have pre: "\<not> HasConflicts (New 2 0 :: nat pool) (pool_tx 4 20 6 [])" "conflict_hashes (pool_tx 4 20 6 []) = []"
      "oracle_id (pool_tx 4 20 6 []) = None" "pool_count (New 2 0 :: nat pool) < 2"
      "uint (tx_fee (pool_tx 4 20 6 [])) + uint (bf_feeSum (get_fees (New 2 0 :: nat pool) rich_feer 6))
        \<le> uint (bf_balance (get_fees (New 2 0 :: nat pool) rich_feer 6))"
      "payer_of (New 2 0 :: nat pool) (pool_tx 4 20 6 []) = Some 6"
    by code_simp+
  have "tx_fine (New 2 0 :: nat pool) (pool_tx 4 20 6 [])" by (simp add: tx_fine_def New_def pool_tx_def)
  from Add_accepts [OF run_New this pre, of "Some 8"] show ?thesis
    by (simp add: New_def GetVerifiedTransactions_def)
qed

section \<open>Executions that go wrong\<close>

text \<open>
  A full pool ditches its last transaction without taking its fees off the payer's account: the
  payer of transaction 1 is still charged 300, and cannot add a transaction that it could
  pay for.
\<close>

definition charged :: "'d pool \<Rightarrow> uint160 \<Rightarrow> nat" where
  "charged mp p = (case map_of (mp_fees mp) p of None \<Rightarrow> 0 | Some bf \<Rightarrow> unat (bf_feeSum bf))"

definition evicting_pool :: "unit pool" where
  "evicting_pool = snd (Add (pool_tx 2 400 6 []) None rich_feer (snd (Add (pool_tx 1 300 5 []) None rich_feer (New 1 0))))"

lemma eviction_leaks_fees:
  "map tx_hash (GetVerifiedTransactions evicting_pool) = [2]" and "charged evicting_pool 5 = 300"
  "fst (Add (pool_tx 3 450 5 []) None rich_feer evicting_pool) = Some ErrConflict"
  by code_simp+

text \<open>
  The oracle response of a transaction that does not fit is registered all the same: the next
  response to the same request dereferences the nil transaction of the missing hash.
\<close>

definition oracle_answer :: "uint64 \<Rightarrow> attribute" where
  "oracle_answer i = \<lparr>at_Type = OracleResponseT, at_Value = Some (OracleResponse i 0 [])\<rparr>"

definition dangling_pool :: "pool_err option \<times> unit pool" where
  "dangling_pool = Add (pool_tx 2 100 6 [oracle_answer 9]) None rich_feer (snd (Add (pool_tx 1 300 5 []) None rich_feer (New 1 0)))"

lemma oracle_entry_dangles:
  "fst dangling_pool = Some ErrOOM" and "map_of (mp_oracleResp (snd dangling_pool)) 9 = Some 2"
  "fst (Add (pool_tx 3 400 6 [oracle_answer 9]) None rich_feer (snd dangling_pool)) = Some PoolPanic"
  by code_simp+

text \<open>
  A transaction that names a conflicting one twice has that one's fees subtracted twice from its
  payer's account in the check, and is accepted although the payer, with a balance of 500,
  owes 700 then.
\<close>

definition doubling_pool :: "pool_err option \<times> unit pool" where
  "doubling_pool = Add (pool_tx 3 450 5 [conflicts_with 1, conflicts_with 1]) None rich_feer
     (snd (Add (pool_tx 2 250 5 []) None rich_feer (snd (Add (pool_tx 1 220 5 []) None rich_feer (New 5 0)))))"

lemma repeated_conflict_overdraws:
  "fst doubling_pool = None" and "map tx_hash (GetVerifiedTransactions (snd doubling_pool)) = [3, 2]"
  "owed 0 (GetVerifiedTransactions (snd doubling_pool)) 5 = 700" and "fr_Balance rich_feer 5 = 500"
  by code_simp+

end
