(* ===== verification/Bigint.thy ===== *)
theory Bigint
  imports Epic_Prelude
begin

text \<open>
  \<^verbatim>\<open>src/pkg/encoding/bigint/bigint.go\<close>: integers of the virtual machine as little-endian two's
  complement byte strings. \<^verbatim>\<open>big.Int\<close> is a sign and a magnitude; the magnitude is a list of 64-bit
  words, least significant first (\<^verbatim>\<open>big.Int.Bits\<close>), and its absolute value a natural number.
\<close>

section \<open>Magnitudes\<close>

definition MaxBytesLen :: nat where
  "MaxBytesLen = 32"

definition wordSizeBytes :: nat where
  "wordSizeBytes = 8"

text \<open>The value of a magnitude and \<^verbatim>\<open>big.Int.BitLen\<close>.\<close>

fun words_nat :: "uint64 list \<Rightarrow> nat" where
  "words_nat [] = 0"
| "words_nat (w # ws) = unat w + 2 ^ 64 * words_nat ws"

fun nat_words :: "nat \<Rightarrow> uint64 list" where
  "nat_words n = (if n = 0 then [] else word_of_nat n # nat_words (n div 2 ^ 64))"

fun bit_len :: "nat \<Rightarrow> nat" where
  "bit_len n = (if n = 0 then 0 else Suc (bit_len (n div 2)))"

declare nat_words.simps [simp del] bit_len.simps [simp del]

section \<open>From bytes\<close>

definition FromBytesUnsigned :: "bytes \<Rightarrow> int" where
  "FromBytesUnsigned data = int (be_nat (rev data))"

text \<open>
  \<^verbatim>\<open>getEffectiveSize\<close>: the size without the leading bytes that only repeat the sign, the loop
  counting down from the end.
\<close>

fun effective_size :: "byte \<Rightarrow> bytes \<Rightarrow> nat \<Rightarrow> nat" where
  "effective_size b buf 0 = 0"
| "effective_size b buf (Suc n) = (if buf ! n \<noteq> b then Suc n else effective_size b buf n)"

definition getEffectiveSize :: "bytes \<Rightarrow> bool \<Rightarrow> nat" where
  "getEffectiveSize buf isNeg = effective_size (if isNeg then 0xFF else 0) buf (length buf)"

text \<open>
  One word of the result: the bytes from the most to the least significant one are shifted in.
\<close>

definition gather :: "bytes \<Rightarrow> uint64" where
  "gather bs = foldl (\<lambda>w b. push_bit 8 w XOR ucast b) 0 (rev bs)"

text \<open>The full words, and the last one with the bytes that are left.\<close>

definition data_words :: "bytes \<Rightarrow> nat \<Rightarrow> uint64 list" where
  "data_words data sz =
    (let lw = sz div wordSizeBytes in
     map (\<lambda>i. gather (take wordSizeBytes (drop (i * wordSizeBytes) data))) [0..<lw] @
     [gather (drop (lw * wordSizeBytes) (take sz data))])"

definition FromBytes :: "bytes \<Rightarrow> int" where
  "FromBytes data =
    (if length data = 0 then 0
     else
       let isNeg = (last data AND 0x80 \<noteq> 0);
           sz = getEffectiveSize data isNeg in
       if sz = 0 then (if isNeg then -1 else 0)
       else
         let ws = data_words data sz; lw = sz div wordSizeBytes in
         if isNeg then
           let ws = map NOT ws;
               shift = (wordSizeBytes - sz mod wordSizeBytes) * 8;
               ws = ws[lw := (ws ! lw) AND drop_bit shift (NOT 0)]
           in - int (words_nat ws) - 1
         else int (words_nat ws))"

section \<open>To bytes\<close>

text \<open>The loop that subtracts one from the magnitude of a negative number, in place.\<close>

fun dec_bits :: "bool \<Rightarrow> uint64 list \<Rightarrow> uint64 list" where
  "dec_bits carry [] = []"
| "dec_bits carry (w # ws) =
    (let w = (if carry then w - 1 else w) in w # dec_bits (carry \<and> w = - 1) ws)"

text \<open>
  \<^verbatim>\<open>ToPreallocatedBytes\<close>; the buffer only saves an allocation. \<^verbatim>\<open>BitLen\<close> and \<^verbatim>\<open>FillBytes\<close> see the
  decremented magnitude of a negative number.
\<close>

definition ToBytes :: "int \<Rightarrow> bytes" where
  "ToBytes n =
    (if n = 0 then []
     else
       let bits = nat_words (nat \<bar>n\<bar>);
           bits = (if n < 0 then dec_bits True bits else bits) in
       if n < 0 \<and> (\<forall>w\<in>set bits. w = 0) then [0xFF]
       else
         let lb = bit_len (words_nat bits) div 8 + 1;
             data = rev (be_bytes lb (words_nat bits))
         in if n < 0 then map NOT data else data)"

section \<open>Values of byte strings\<close>

text \<open>The two's complement reading of a little-endian byte string.\<close>

definition twos_complement :: "bytes \<Rightarrow> int" where
  "twos_complement bs = (if bs = [] then 0
     else if last bs AND 0x80 \<noteq> 0 then int (le_nat bs) - 256 ^ length bs else int (le_nat bs))"

lemma le_nat_append: "le_nat (xs @ ys) = le_nat xs + 256 ^ length xs * le_nat ys"
  by (induction xs) (simp_all add: algebra_simps)

lemma gather_le_nat:
  assumes "length bs \<le> 8"
  shows "unat (gather bs) = le_nat bs"
  using assms
proof (induction bs)
  case Nil
  then show ?case by (simp add: gather_def)
next
  case (Cons b bs)
  have IH: "unat (gather bs) = le_nat bs" using Cons by simp
  have "le_nat bs < 256 ^ length bs" by (rule le_nat_less)
  also have "(256::nat) ^ length bs \<le> 256 ^ 7" using Cons.prems by (intro power_increasing) simp_all
  finally have small: "le_nat bs < 2 ^ 56" by simp
  have g: "gather (b # bs) = push_bit 8 (gather bs) XOR ucast b" by (simp add: gather_def)
  have "push_bit 8 (gather bs) AND ucast b = 0"
    by (rule bit_word_eqI) (auto simp: bit_push_bit_iff bit_and_iff bit_ucast_iff dest: bit_imp_le_length)
  then have g': "gather (b # bs) = push_bit 8 (gather bs) + ucast b"
    unfolding g by (simp add: disjunctive_add_eq_xor)
  have "unat (push_bit 8 (gather bs)) = 256 * le_nat bs"
    using small IH by (simp add: push_bit_eq_mult unat_word_ariths)
  moreover have "unat (ucast b :: uint64) = unat b"
    by (simp add: unsigned_ucast_eq take_bit_nat_eq_self less_trans [OF unat_byte_less])
  moreover have "256 * le_nat bs + unat b < 2 ^ 64"
  proof -
    have "256 * le_nat bs + 256 \<le> 2 ^ 64" using small by simp
    then show ?thesis using unat_byte_less [of b] by linarith
  qed
  ultimately show ?case unfolding g' by (subst unat_plus_if') simp
qed

lemma words_nat_append: "words_nat (xs @ ys) = words_nat xs + 2 ^ (64 * length xs) * words_nat ys"
  by (induction xs) (simp_all add: algebra_simps power_add)

lemma words_nat_less: "words_nat ws < 2 ^ (64 * length ws)"
proof (induction ws)
  case (Cons w ws)
  have "unat w < 2 ^ 64" using unat_less_2p [of w] by simp
  moreover have "2 ^ 64 * words_nat ws + 2 ^ 64 \<le> (2::nat) ^ 64 * 2 ^ (64 * length ws)" using Cons by simp
  ultimately have "unat w + 2 ^ 64 * words_nat ws < 2 ^ 64 * 2 ^ (64 * length ws)" by linarith
  then show ?case by (simp add: power_add)
qed simp

lemma unat_NOT: "int (unat (NOT w)) = 2 ^ LENGTH('a) - 1 - int (unat w)" for w :: "'a::len word"
proof -
  have "NOT w = - 1 - w" by (simp add: not_eq_complement)
  moreover have "unat (- 1 - w) = unat (- 1 :: 'a word) - unat w" by (rule unat_sub) simp
  moreover have "int (unat (- 1 :: 'a word)) = 2 ^ LENGTH('a) - 1"
    by (simp add: unsigned_minus_1_eq_mask mask_eq_exp_minus_1 of_nat_diff)
  moreover have "unat w \<le> unat (- 1 :: 'a word)" by (simp flip: word_le_nat_alt)
  ultimately show ?thesis by (simp add: of_nat_diff)
qed

lemma words_nat_NOT: "int (words_nat (map NOT ws)) = 2 ^ (64 * length ws) - 1 - int (words_nat ws)"
proof (induction ws)
  case (Cons w ws)
  have "int (unat (NOT w)) = 2 ^ 64 - 1 - int (unat w)" using unat_NOT [of w] by simp
  with Cons show ?case by (simp add: power_add algebra_simps)
qed simp

lemma full_words:
  assumes "8 * n \<le> length data"
  shows "words_nat (map (\<lambda>i. gather (take 8 (drop (i * 8) data))) [0..<n]) = le_nat (take (8 * n) data)"
  using assms
proof (induction n)
  case (Suc n)
  have "take (8 * Suc n) data = take (8 * n) data @ take 8 (drop (8 * n) data)"
    by (simp add: take_add [symmetric] add.commute)
  moreover have "unat (gather (take 8 (drop (n * 8) data))) = le_nat (take 8 (drop (8 * n) data))"
    by (subst gather_le_nat) (simp_all add: mult.commute)
  moreover have "(256::nat) ^ (8 * n) = 2 ^ (64 * n)" by (simp add: power_mult)
  ultimately show ?case
    using Suc by (simp add: words_nat_append le_nat_append min_absorb2)
qed simp

lemma data_words_le_nat:
  assumes "sz \<le> length data"
  shows "words_nat (data_words data sz) = le_nat (take sz data)"
proof -
  define lw where "lw = sz div 8"
  have lw: "8 * lw \<le> sz" "sz - 8 * lw < 8" by (simp_all add: lw_def)
  have "take sz data = take (8 * lw) data @ drop (lw * 8) (take sz data)"
    using lw(1) by (metis append_take_drop_id min.absorb1 mult.commute take_take)
  then have "le_nat (take sz data) = le_nat (take (8 * lw) data) + 256 ^ length (take (8 * lw) data) * le_nat (drop (lw * 8) (take sz data))"
    by (metis le_nat_append)
  moreover have "unat (gather (drop (lw * 8) (take sz data))) = le_nat (drop (lw * 8) (take sz data))"
    using lw assms by (intro gather_le_nat) (simp add: mult.commute)
  moreover have "(256::nat) ^ (8 * lw) = 2 ^ (64 * lw)" by (simp add: power_mult)
  moreover have "words_nat (map (\<lambda>i. gather (take 8 (drop (i * 8) data))) [0..<lw]) = le_nat (take (8 * lw) data)"
    using lw(1) assms by (intro full_words) simp
  ultimately show ?thesis
    using lw(1) assms by (simp add: data_words_def wordSizeBytes_def Let_def lw_def [symmetric] words_nat_append min_absorb2)
qed

section \<open>Reading\<close>

lemma effective_size_spec:
  assumes "n \<le> length buf"
  shows "effective_size b buf n \<le> n \<and> (\<forall>i. effective_size b buf n \<le> i \<and> i < n \<longrightarrow> buf ! i = b)"
  using assms by (induction n) (auto simp: less_Suc_eq)

lemma le_nat_replicate: "le_nat (replicate n 0xFF) + 1 = 256 ^ n" "le_nat (replicate n 0) = 0"
  by (induction n) simp_all

lemma drop_effective:
  assumes "length buf = n + k" and "\<forall>i. n \<le> i \<and> i < length buf \<longrightarrow> buf ! i = b"
  shows "buf = take n buf @ replicate k b"
  using assms by (intro nth_equalityI) (auto simp: nth_append)

lemma masked_NOT:
  fixes g :: uint64
  assumes "r \<le> 8" and "unat g < 256 ^ r"
  shows "int (unat (NOT g AND drop_bit ((8 - r) * 8) (NOT 0))) = 256 ^ r - 1 - int (unat g)"
proof -
  have "drop_bit ((8 - r) * 8) (NOT 0 :: uint64) = mask (8 * r)"
    by (rule bit_word_eqI) (use assms(1) in \<open>auto simp: bit_drop_bit_eq bit_mask_iff bit_minus_1_iff\<close>)
  then have "NOT g AND drop_bit ((8 - r) * 8) (NOT 0) = take_bit (8 * r) (NOT g)" by (simp add: take_bit_eq_mask)
  moreover have "unat (take_bit (8 * r) (NOT g)) = unat (NOT g) mod 2 ^ (8 * r)"
    by (subst unsigned_take_bit_eq) (rule take_bit_eq_mod)
  then have "int (unat (take_bit (8 * r) (NOT g))) = int (unat (NOT g)) mod 2 ^ (8 * r)"
    by (simp add: zmod_int)
  moreover have "int (unat (NOT g)) = 2 ^ 64 - 1 - int (unat g)" using unat_NOT [of g] by simp
  moreover have "(2 ^ 64 - 1 - int (unat g)) mod 2 ^ (8 * r) = 2 ^ (8 * r) - 1 - int (unat g)"
  proof -
    have "(2::int) ^ 64 = 2 ^ (8 * r) * 2 ^ (64 - 8 * r)" using assms(1) by (simp flip: power_add)
    then have "2 ^ 64 - 1 - int (unat g) = (2 ^ (8 * r) - 1 - int (unat g)) + 2 ^ (8 * r) * (2 ^ (64 - 8 * r) - 1)"
      by (simp add: algebra_simps)
    moreover have "0 \<le> 2 ^ (8 * r) - 1 - int (unat g)"
      using assms(2) by (simp add: power_mult flip: of_nat_less_iff [where 'a = int])
    moreover have "2 ^ (8 * r) - 1 - int (unat g) < 2 ^ (8 * r)"
      using of_nat_0_le_iff [of "unat g", where 'a = int] by linarith
    ultimately show ?thesis by (metis mod_mult_self2 mod_pos_pos_trivial)
  qed
  moreover have "(2::int) ^ (8 * r) = 256 ^ r" by (simp add: power_mult)
  ultimately show ?thesis by simp
qed

lemma twos_complement_effective:
  assumes "data \<noteq> []" and "isNeg = (last data AND 0x80 \<noteq> 0)" and "sz = getEffectiveSize data isNeg"
  shows "sz \<le> length data"
    and "twos_complement data = (if isNeg then int (le_nat (take sz data)) - 256 ^ sz else int (le_nat (take sz data)))"
proof -
  let ?b = "if isNeg then 0xFF else 0 :: byte"
  have e: "sz \<le> length data" "\<forall>i. sz \<le> i \<and> i < length data \<longrightarrow> data ! i = ?b"
    using effective_size_spec [of "length data" data ?b] assms(3) by (simp_all add: getEffectiveSize_def)
  then obtain k where k: "length data = sz + k" using le_Suc_ex by blast
  then have "data = take sz data @ replicate k ?b" using e(2) by (intro drop_effective) simp_all
  then have v: "le_nat data = le_nat (take sz data) + 256 ^ sz * le_nat (replicate k ?b)"
    using e(1) by (metis le_nat_append length_take min.absorb2)
  show "sz \<le> length data" by (rule e(1))
  show "twos_complement data = (if isNeg then int (le_nat (take sz data)) - 256 ^ sz else int (le_nat (take sz data)))"
  proof (cases isNeg)
    case True
    have "le_nat (replicate k 0xFF) = 256 ^ k - 1" using le_nat_replicate(1) [of k] by simp
    moreover have "(1::nat) \<le> 256 ^ k" by simp
    ultimately have "int (le_nat data) = int (le_nat (take sz data)) + 256 ^ sz * (256 ^ k - 1)"
      using v True by (simp add: of_nat_diff)
    then show ?thesis using True assms(1,2) k by (simp add: twos_complement_def power_add algebra_simps)
  next
    case False
    then show ?thesis using v assms(1,2) by (simp add: twos_complement_def le_nat_replicate)
  qed
qed

lemma FromBytes_twos_complement: "FromBytes data = twos_complement data"
proof (cases "data = []")
  case True
  then show ?thesis by (simp add: FromBytes_def twos_complement_def)
next
  case False
  define isNeg where "isNeg = (last data AND 0x80 \<noteq> 0)"
  define sz where "sz = getEffectiveSize data isNeg"
  note tc = twos_complement_effective [OF False isNeg_def sz_def]
  define ws where "ws = data_words data sz"
  define lw where "lw = sz div 8"
  have ws: "words_nat ws = le_nat (take sz data)" unfolding ws_def using tc(1) by (rule data_words_le_nat)
  have len: "length ws = Suc lw" by (simp add: ws_def data_words_def wordSizeBytes_def lw_def Let_def)
  have split: "ws = take lw ws @ [ws ! lw]" using len by (metis lessI take_Suc_conv_app_nth take_all_iff order_refl)
  show ?thesis
  proof (cases "sz = 0 \<or> \<not> isNeg")
    case True
    have "FromBytes data = (if sz = 0 then (if isNeg then -1 else 0) else int (words_nat ws))"
      using False True unfolding FromBytes_def Let_def isNeg_def [symmetric] sz_def [symmetric] ws_def [symmetric] by auto
    then show ?thesis using True tc(2) ws by auto
  next
    case neg: False
    define m where "m = NOT (ws ! lw) AND drop_bit ((8 - sz mod 8) * 8) (NOT 0)"
    have eq: "FromBytes data = - int (words_nat ((map NOT ws)[lw := m])) - 1"
    proof -
      have "(map NOT ws ! lw) AND drop_bit ((8 - sz mod 8) * 8) (NOT 0) = m" using len by (simp only: m_def nth_map lessI)
      moreover have "sz \<noteq> 0" "isNeg" "length data \<noteq> 0" using neg False by simp_all
      ultimately show ?thesis
        unfolding FromBytes_def Let_def isNeg_def [symmetric] sz_def [symmetric] ws_def [symmetric] wordSizeBytes_def
          lw_def [symmetric] by (simp only: if_True if_False)
    qed
    have upd: "(map NOT ws)[lw := m] = map NOT (take lw ws) @ [m]"
      by (subst split) (simp add: len list_update_append)
    have lo: "int (words_nat (map NOT (take lw ws))) = 2 ^ (64 * lw) - 1 - int (words_nat (take lw ws))"
      using words_nat_NOT [of "take lw ws"] len by simp
    have "unat (ws ! lw) = le_nat (drop (lw * 8) (take sz data))"
    proof -
      have "ws ! lw = gather (drop (lw * 8) (take sz data))"
        by (simp add: ws_def data_words_def wordSizeBytes_def lw_def Let_def nth_append)
      then show ?thesis using tc(1) by (simp add: gather_le_nat lw_def mod_less_divisor less_imp_le minus_div_mult_eq_mod)
    qed
    moreover have "length (drop (lw * 8) (take sz data)) = sz mod 8"
      using tc(1) by (simp add: lw_def minus_div_mult_eq_mod)
    ultimately have "unat (ws ! lw) < 256 ^ (sz mod 8)" using le_nat_less [of "drop (lw * 8) (take sz data)"] by simp
    then have hi: "int (unat m) = 256 ^ (sz mod 8) - 1 - int (unat (ws ! lw))"
      unfolding m_def by (intro masked_NOT) (simp_all add: less_imp_le)
    have sum: "int (words_nat ws) = int (words_nat (take lw ws)) + 2 ^ (64 * lw) * int (unat (ws ! lw))"
      by (subst split) (simp add: words_nat_append len)
    have "(256::int) ^ sz = 2 ^ (64 * lw) * 256 ^ (sz mod 8)"
    proof -
      have "sz = 8 * lw + sz mod 8" by (simp add: lw_def)
      then have "(256::int) ^ sz = 256 ^ (8 * lw) * 256 ^ (sz mod 8)" by (metis power_add)
      then show ?thesis by (simp add: power_mult)
    qed
    moreover have "int (words_nat ((map NOT ws)[lw := m])) = int (words_nat (map NOT (take lw ws))) + 2 ^ (64 * lw) * int (unat m)"
      unfolding upd by (simp add: words_nat_append len)
    ultimately have "int (words_nat ((map NOT ws)[lw := m])) = (2 ^ (64 * lw) - 1 - int (words_nat (take lw ws))) +
        2 ^ (64 * lw) * (256 ^ (sz mod 8) - 1 - int (unat (ws ! lw)))" "(256::int) ^ sz = 2 ^ (64 * lw) * 256 ^ (sz mod 8)"
      using lo hi by simp_all
    then have "int (words_nat ((map NOT ws)[lw := m])) = 256 ^ sz - 1 - int (words_nat ws)"
      using sum by (simp add: right_diff_distrib)
    with eq tc(2) ws neg show ?thesis by simp
  qed
qed

section \<open>Writing\<close>

lemma words_nat_nat_words: "words_nat (nat_words n) = n"
proof (induction n rule: nat_words.induct)
  case (1 n)
  have "unat (word_of_nat n :: uint64) = n mod 2 ^ 64" by (simp add: unat_of_nat)
  with 1 show ?case by (simp add: nat_words.simps [of n])
qed

lemma dec_bits_False: "dec_bits False ws = ws"
  by (induction ws) simp_all

lemma words_nat_dec_bits: "0 < words_nat ws \<Longrightarrow> words_nat (dec_bits True ws) + 1 = words_nat ws"
proof (induction ws)
  case (Cons w ws)
  show ?case
  proof (cases "w = 0")
    case True
    then have "0 < words_nat ws" using Cons.prems by simp
    moreover have "unat (- 1 :: uint64) = 2 ^ 64 - 1" by (simp add: unsigned_minus_1_eq_mask mask_eq_exp_minus_1)
    ultimately show ?thesis using Cons.IH True by simp
  next
    case False
    then have "unat (w - 1) = unat w - 1" "0 < unat w" by (simp_all add: unat_minus_one word_neq_0_conv unat_gt_0)
    moreover have "w - 1 \<noteq> - 1" using False by (simp add: diff_eq_eq)
    ultimately show ?thesis by (simp add: dec_bits_False Let_def)
  qed
qed simp

lemma words_nat_0: "words_nat ws = 0 \<longleftrightarrow> (\<forall>w\<in>set ws. w = 0)"
  by (induction ws) (auto simp: unat_eq_0)

lemma bit_len_less: "n < 2 ^ bit_len n"
proof (induction n rule: bit_len.induct)
  case (1 n)
  then show ?case by (cases "n = 0") (auto simp: bit_len.simps [of n])
qed

lemma bit_len_le: "n < 2 ^ k \<Longrightarrow> bit_len n \<le> k"
proof (induction n arbitrary: k rule: bit_len.induct)
  case (1 n)
  show ?case
  proof (cases "n = 0")
    case False
    then obtain j where "k = Suc j" using "1.prems" by (cases k) auto
    with 1 False show ?thesis by (simp add: bit_len.simps [of n])
  qed (simp add: bit_len.simps)
qed

lemma last_le_bytes: "last (le_bytes (Suc n) v) = word_of_nat (v div 256 ^ n)"
proof (induction n arbitrary: v)
  case (Suc n)
  have "last (le_bytes (Suc (Suc n)) v) = last (le_bytes (Suc n) (v div 256))" by simp
  with Suc show ?case by (simp add: div_mult2_eq)
qed simp

lemma bit_0x80: "bit (0x80 :: byte) k \<longleftrightarrow> k = 7"
proof -
  have "(0x80 :: byte) = push_bit 7 1" by simp
  then have "bit (0x80 :: byte) k \<longleftrightarrow> bit (push_bit 7 1 :: byte) k" by (rule arg_cong)
  also have "\<dots> \<longleftrightarrow> k = 7" unfolding bit_push_bit_iff bit_1_iff by auto
  finally show ?thesis .
qed

lemma and_0x80: "b AND 0x80 = 0 \<longleftrightarrow> \<not> bit b 7" for b :: byte
proof -
  have "b AND 0x80 = 0 \<longleftrightarrow> (\<forall>k. \<not> (bit b k \<and> bit (0x80 :: byte) k))"
    unfolding bit_eq_iff [of "b AND 0x80"] bit_and_iff by simp
  then show ?thesis unfolding bit_0x80 by blast
qed

lemma top_bit_clear:
  assumes "m < 2 ^ (8 * n + 7)"
  shows "last (le_bytes (Suc n) m) AND 0x80 = 0"
proof -
  have "m < 256 ^ n * 2 ^ 7" using assms by (simp add: power_add power_mult)
  then have "m div 256 ^ n < 128" by (simp add: less_mult_imp_div_less mult.commute)
  then have "unat (word_of_nat (m div 256 ^ n) :: byte) < 128" by (simp add: unat_byte_of_nat)
  then have "\<not> bit (unat (word_of_nat (m div 256 ^ n) :: byte)) 7" by (simp add: bit_iff_odd)
  then have "\<not> bit (word_of_nat (m div 256 ^ n) :: byte) 7" by (simp only: bit_unsigned_iff possible_bit_nat simp_thms)
  then show ?thesis unfolding last_le_bytes and_0x80 .
qed

lemma le_nat_NOT: "int (le_nat (map NOT bs)) = 256 ^ length bs - 1 - int (le_nat bs)"
proof (induction bs)
  case (Cons b bs)
  have "int (unat (NOT b)) = 2 ^ 8 - 1 - int (unat b)" using unat_NOT [of b] by simp
  with Cons show ?case by (simp add: algebra_simps)
qed simp

lemma NOT_top_bit: "NOT (b :: byte) AND 0x80 \<noteq> 0 \<longleftrightarrow> b AND 0x80 = 0"
  by (simp add: and_0x80 bit_not_iff)

text \<open>The magnitude that is written, and the bytes.\<close>

definition magnitude :: "int \<Rightarrow> nat" where
  "magnitude n = (if n < 0 then nat (- n - 1) else nat n)"

lemma ToBytes_magnitude:
  assumes "n \<noteq> 0" and "n \<noteq> -1"
  shows "ToBytes n = (let data = le_bytes (bit_len (magnitude n) div 8 + 1) (magnitude n) in if n < 0 then map NOT data else data)"
proof -
  define bits where "bits = (if n < 0 then dec_bits True (nat_words (nat \<bar>n\<bar>)) else nat_words (nat \<bar>n\<bar>))"
  have m: "words_nat bits = magnitude n"
  proof (cases "n < 0")
    case True
    then have "words_nat (dec_bits True (nat_words (nat \<bar>n\<bar>))) + 1 = nat \<bar>n\<bar>"
      using words_nat_dec_bits [of "nat_words (nat \<bar>n\<bar>)"] by (simp add: words_nat_nat_words)
    then show ?thesis using True by (simp add: bits_def magnitude_def nat_diff_distrib)
  next
    case False
    then show ?thesis by (simp add: bits_def magnitude_def words_nat_nat_words)
  qed
  have "\<not> (n < 0 \<and> (\<forall>w\<in>set bits. w = 0))"
    using m assms by (auto simp: words_nat_0 [symmetric] magnitude_def)
  then show ?thesis
    using assms(1) unfolding ToBytes_def Let_def bits_def [symmetric] m be_bytes_def rev_rev_ident by (simp only: if_False)
qed

text \<open>The length of the bytes in terms of the magnitude.\<close>

lemma magnitude_length:
  defines "lb m \<equiv> bit_len m div 8 + 1"
  shows "m < 2 ^ (8 * (lb m - 1) + 7)"
proof -
  have "bit_len m \<le> 8 * (bit_len m div 8) + 7" by presburger
  then have "(2::nat) ^ bit_len m \<le> 2 ^ (8 * (bit_len m div 8) + 7)" by (rule power_increasing) simp
  with bit_len_less [of m] show ?thesis unfolding lb_def by (simp add: less_le_trans)
qed

lemma twos_complement_ToBytes: "twos_complement (ToBytes n) = n"
proof -
  consider "n = 0" | "n = -1" | "n \<noteq> 0" "n \<noteq> -1" by blast
  then show ?thesis
  proof cases
    case 1
    then show ?thesis by (simp add: ToBytes_def twos_complement_def)
  next
    case 2
    have "ToBytes (-1) = [0xFF]" by (simp add: ToBytes_def nat_words.simps Let_def)
    moreover have "(0xFF :: byte) AND 0x80 \<noteq> 0" by simp
    ultimately show ?thesis using 2 by (simp add: twos_complement_def)
  next
    case 3
    define k where "k = bit_len (magnitude n) div 8"
    define data where "data = le_bytes (Suc k) (magnitude n)"
    have m: "magnitude n < 2 ^ (8 * k + 7)" using magnitude_length [of "magnitude n"] by (simp add: k_def)
    then have top: "last data AND 0x80 = 0" unfolding data_def by (rule top_bit_clear)
    have "(2::nat) ^ (8 * k + 7) \<le> 256 ^ Suc k" by (simp add: power_add power_mult)
    then have "le_nat data = magnitude n" using m unfolding data_def le_nat_le_bytes by simp
    moreover have "ToBytes n = (if n < 0 then map NOT data else data)" "data \<noteq> []"
      using ToBytes_magnitude [OF 3] by (simp_all add: data_def k_def Let_def)
    moreover have "last (map NOT data) AND 0x80 \<noteq> 0" if "data \<noteq> []"
      using top NOT_top_bit that by (simp add: last_map)
    ultimately show ?thesis
      using top by (auto simp: twos_complement_def le_nat_NOT magnitude_def)
  qed
qed

lemma length_ToBytes: "n \<noteq> 0 \<Longrightarrow> length (ToBytes n) = bit_len (magnitude n) div 8 + 1"
  by (cases "n = -1") (simp_all add: ToBytes_magnitude Let_def, simp add: ToBytes_def nat_words.simps magnitude_def bit_len.simps Let_def)

lemma length_ToBytes_32: "length (ToBytes n) \<le> 32 \<longleftrightarrow> - (2 ^ 255) \<le> n \<and> n < 2 ^ 255"
proof (cases "n = 0")
  case False
  have "length (ToBytes n) \<le> 32 \<longleftrightarrow> bit_len (magnitude n) \<le> 255" using length_ToBytes [OF False] by auto
  also have "\<dots> \<longleftrightarrow> magnitude n < 2 ^ 255"
    using bit_len_le [of "magnitude n" 255] bit_len_less [of "magnitude n"]
      power_increasing [of "bit_len (magnitude n)" 255 "2::nat"] by (auto dest: less_le_trans)
  also have "\<dots> \<longleftrightarrow> - (2 ^ 255) \<le> n \<and> n < 2 ^ 255"
    by (auto simp: magnitude_def nat_less_iff)
  finally show ?thesis .
qed (simp add: ToBytes_def)

section \<open>Properties\<close>

text \<open>
  C26. \<^verbatim>\<open>FromBytes\<close>, which works on 64-bit words, reads a byte string as a two's complement number; it
  inverts \<^verbatim>\<open>ToBytes\<close>, and 32 bytes are enough for exactly the integers of 256 bits with sign.
\<close>

theorem bigint_roundtrip:
  "FromBytes data = twos_complement data \<and> FromBytes (ToBytes n) = n \<and>
   (length (ToBytes n) \<le> MaxBytesLen \<longleftrightarrow> - (2 ^ 255) \<le> n \<and> n < 2 ^ 255)"
  by (simp add: FromBytes_twos_complement twos_complement_ToBytes length_ToBytes_32 MaxBytesLen_def)

end
