(* ===== verification/Vm_Item.thy ===== *)
theory Vm_Item
  imports Bigint "HOL-Library.Monad_Syntax"
begin

text \<open>
  \<^verbatim>\<open>src/pkg/vm/stackitem\<close>: the values of the virtual machine. Arrays, structs, maps and buffers are
  references to objects on a heap, with a reference count and a read-only mark; the other items
  are immutable values. Where the code panics or returns an error that makes the machine panic,
  the result is \<open>None\<close>.
\<close>

section \<open>Items and the heap\<close>

type_synonym addr = nat

datatype stackitem = Null | BoolItem bool | BigInteger int | ByteArray bytes
  | PointerItem int uint160 | InteropItem nat
  | BufferItem addr | ArrayItem addr | StructItem addr | MapItem addr

datatype content = Elems "stackitem list" | Pairs "(stackitem \<times> stackitem) list" | Raw bytes

record object =
  ob_value :: content
  ob_rc :: int
  ob_ro :: bool

type_synonym heap = "object list"

definition MaxBigIntegerSizeBits :: nat where "MaxBigIntegerSizeBits = 32 * 8"
definition MaxSize :: int where "MaxSize = 65535 * 2"
definition MaxDeserialized :: nat where "MaxDeserialized = 2048"
definition MaxComparableNumOfItems :: nat where "MaxComparableNumOfItems = MaxDeserialized"
definition MaxClonableNumOfItems :: nat where "MaxClonableNumOfItems = MaxDeserialized"
definition MaxByteArrayComparableSize :: int where "MaxByteArrayComparableSize = 65535 + 1"
definition MaxKeySize :: int where "MaxKeySize = 64"

text \<open>The value of an object, \<open>None\<close> when the reference is of another kind.\<close>

definition obj :: "heap \<Rightarrow> addr \<Rightarrow> object option" where
  "obj h a = (if a < length h then Some (h ! a) else None)"

definition get_elems :: "heap \<Rightarrow> addr \<Rightarrow> stackitem list option" where
  "get_elems h a = do { ob \<leftarrow> obj h a; case ob_value ob of Elems xs \<Rightarrow> Some xs | _ \<Rightarrow> None }"

definition get_pairs :: "heap \<Rightarrow> addr \<Rightarrow> (stackitem \<times> stackitem) list option" where
  "get_pairs h a = do { ob \<leftarrow> obj h a; case ob_value ob of Pairs ps \<Rightarrow> Some ps | _ \<Rightarrow> None }"

definition get_raw :: "heap \<Rightarrow> addr \<Rightarrow> bytes option" where
  "get_raw h a = do { ob \<leftarrow> obj h a; case ob_value ob of Raw bs \<Rightarrow> Some bs | _ \<Rightarrow> None }"

definition set_value :: "addr \<Rightarrow> content \<Rightarrow> heap \<Rightarrow> heap" where
  "set_value a c h = (if a < length h then h[a := (h ! a)\<lparr>ob_value := c\<rparr>] else h)"

definition alloc :: "content \<Rightarrow> heap \<Rightarrow> addr \<times> heap" where
  "alloc c h = (length h, h @ [\<lparr>ob_value = c, ob_rc = 0, ob_ro = False\<rparr>])"

definition IsReadOnly :: "heap \<Rightarrow> addr \<Rightarrow> bool" where
  "IsReadOnly h a = (case obj h a of None \<Rightarrow> False | Some ob \<Rightarrow> ob_ro ob)"

section \<open>Types\<close>

definition AnyT :: byte where "AnyT = 0x00"
definition PointerT :: byte where "PointerT = 0x10"
definition BooleanT :: byte where "BooleanT = 0x20"
definition IntegerT :: byte where "IntegerT = 0x21"
definition ByteArrayT :: byte where "ByteArrayT = 0x28"
definition BufferT :: byte where "BufferT = 0x30"
definition ArrayT :: byte where "ArrayT = 0x40"
definition StructT :: byte where "StructT = 0x41"
definition MapT :: byte where "MapT = 0x48"
definition InteropT :: byte where "InteropT = 0x60"

lemmas item_types = AnyT_def PointerT_def BooleanT_def IntegerT_def ByteArrayT_def BufferT_def ArrayT_def StructT_def
  MapT_def InteropT_def

definition Type_IsValid :: "byte \<Rightarrow> bool" where
  "Type_IsValid t \<longleftrightarrow> t \<in> {AnyT, PointerT, BooleanT, IntegerT, ByteArrayT, BufferT, ArrayT, StructT, MapT, InteropT}"

fun item_type :: "stackitem \<Rightarrow> byte" where
  "item_type Null = AnyT"
| "item_type (BoolItem b) = BooleanT"
| "item_type (BigInteger i) = IntegerT"
| "item_type (ByteArray bs) = ByteArrayT"
| "item_type (PointerItem p hsh) = PointerT"
| "item_type (InteropItem v) = InteropT"
| "item_type (BufferItem a) = BufferT"
| "item_type (ArrayItem a) = ArrayT"
| "item_type (StructItem a) = StructT"
| "item_type (MapItem a) = MapT"

section \<open>Conversions\<close>

text \<open>\<^verbatim>\<open>big.Int.TrailingZeroBits\<close> of the magnitude.\<close>

fun trailing_zeros :: "nat \<Rightarrow> nat" where
  "trailing_zeros n = (if n = 0 \<or> odd n then 0 else Suc (trailing_zeros (n div 2)))"

declare trailing_zeros.simps [simp del]

definition CheckIntegerSize :: "int \<Rightarrow> bool" where
  "CheckIntegerSize i =
    (let sz = bit_len (nat \<bar>i\<bar>) in
     if sz < MaxBigIntegerSizeBits then True
     else if sz > MaxBigIntegerSizeBits then False
     else \<not> (i > 0 \<or> trailing_zeros (nat \<bar>i\<bar>) \<noteq> MaxBigIntegerSizeBits - 1))"

definition NewBigInteger :: "int \<Rightarrow> stackitem option" where
  "NewBigInteger i = (if CheckIntegerSize i then Some (BigInteger i) else None)"

fun TryBool :: "stackitem \<Rightarrow> bool option" where
  "TryBool Null = Some False"
| "TryBool (BoolItem b) = Some b"
| "TryBool (BigInteger i) = Some (i \<noteq> 0)"
| "TryBool (ByteArray bs) = (if length bs > MaxBigIntegerSizeBits div 8 then None else Some (\<exists>b\<in>set bs. b \<noteq> 0))"
| "TryBool it = Some True"

fun TryBytes :: "heap \<Rightarrow> stackitem \<Rightarrow> bytes option" where
  "TryBytes h (BoolItem b) = Some [if b then 1 else 0]"
| "TryBytes h (BigInteger i) = Some (ToBytes i)"
| "TryBytes h (ByteArray bs) = Some bs"
| "TryBytes h (BufferItem a) = get_raw h a"
| "TryBytes h it = None"

fun TryInteger :: "stackitem \<Rightarrow> int option" where
  "TryInteger (BoolItem b) = Some (if b then 1 else 0)"
| "TryInteger (BigInteger i) = Some i"
| "TryInteger (ByteArray bs) = (if length bs > MaxBigIntegerSizeBits div 8 then None else Some (FromBytes bs))"
| "TryInteger it = None"

definition convertPrimitive :: "stackitem \<Rightarrow> byte \<Rightarrow> heap \<Rightarrow> (stackitem \<times> heap) option" where
  "convertPrimitive it typ h =
    (if item_type it = typ then Some (it, h)
     else if typ = IntegerT then do { i \<leftarrow> TryInteger it; it' \<leftarrow> NewBigInteger i; Some (it', h) }
     else if typ = ByteArrayT \<or> typ = BufferT then do {
       b \<leftarrow> TryBytes h it;
       if typ = BufferT then (let (a, h) = alloc (Raw b) h in Some (BufferItem a, h))
       else Some (ByteArray b, h) }
     else if typ = BooleanT then do { b \<leftarrow> TryBool it; Some (BoolItem b, h) }
     else None)"

fun Convert :: "stackitem \<Rightarrow> byte \<Rightarrow> heap \<Rightarrow> (stackitem \<times> heap) option" where
  "Convert Null typ h = (if typ = AnyT \<or> \<not> Type_IsValid typ then None else Some (Null, h))"
| "Convert (BoolItem b) typ h = convertPrimitive (BoolItem b) typ h"
| "Convert (BigInteger i) typ h = convertPrimitive (BigInteger i) typ h"
| "Convert (ByteArray bs) typ h = convertPrimitive (ByteArray bs) typ h"
| "Convert (BufferItem a) typ h =
    (if typ = BooleanT then Some (BoolItem True, h)
     else if typ = BufferT then Some (BufferItem a, h)
     else do {
       bs \<leftarrow> get_raw h a;
       if typ = ByteArrayT then Some (ByteArray bs, h)
       else if typ = IntegerT then
         (if length bs > MaxBigIntegerSizeBits div 8 then None
          else do { it \<leftarrow> NewBigInteger (FromBytes bs); Some (it, h) })
       else None })"
| "Convert (ArrayItem a) typ h =
    (if typ = ArrayT then Some (ArrayItem a, h)
     else if typ = StructT then do {
       xs \<leftarrow> get_elems h a; let (b, h) = alloc (Elems xs) h in Some (StructItem b, h) }
     else if typ = BooleanT then Some (BoolItem True, h) else None)"
| "Convert (StructItem a) typ h =
    (if typ = StructT then Some (StructItem a, h)
     else if typ = ArrayT then do {
       xs \<leftarrow> get_elems h a; let (b, h) = alloc (Elems xs) h in Some (ArrayItem b, h) }
     else if typ = BooleanT then Some (BoolItem True, h) else None)"
| "Convert (MapItem a) typ h =
    (if typ = MapT then Some (MapItem a, h)
     else if typ = BooleanT then Some (BoolItem True, h) else None)"
| "Convert (InteropItem v) typ h =
    (if typ = InteropT then Some (InteropItem v, h)
     else if typ = BooleanT then Some (BoolItem True, h) else None)"
| "Convert (PointerItem p hsh) typ h =
    (if typ = PointerT then Some (PointerItem p hsh, h)
     else if typ = BooleanT then Some (BoolItem True, h) else None)"

section \<open>Equality\<close>

text \<open>
  \<^verbatim>\<open>ByteArray.equalsLimited\<close>: the result and what is left of the limit, or the panic.
\<close>

definition bytes_equalsLimited :: "bytes \<Rightarrow> stackitem \<Rightarrow> int \<Rightarrow> (bool \<times> int) option" where
  "bytes_equalsLimited bs s limit =
    (if int (length bs) > limit \<or> limit = 0 then None
     else case s of
       ByteArray cs \<Rightarrow>
         if int (length cs) > limit then None
         else Some (bs = cs, limit - int (max (length bs) (length cs)))
     | _ \<Rightarrow> Some (False, limit - 1))"

text \<open>\<^verbatim>\<open>Equals\<close> for everything but two structs.\<close>

fun simple_Equals :: "stackitem \<Rightarrow> stackitem \<Rightarrow> bool option" where
  "simple_Equals (ByteArray bs) s = map_option fst (bytes_equalsLimited bs s MaxByteArrayComparableSize)"
| "simple_Equals a b = Some (a = b)"

text \<open>
  The loop of \<^verbatim>\<open>equalStruct\<close> over the fields, with the limits on compared items and on compared
  bytes; \<open>rec\<close> compares nested structs.
\<close>

fun equal_fields :: "(addr \<Rightarrow> addr \<Rightarrow> nat \<Rightarrow> (bool \<times> nat) option) \<Rightarrow> stackitem list \<Rightarrow> stackitem list \<Rightarrow> int \<Rightarrow> nat
    \<Rightarrow> (bool \<times> nat) option" where
  "equal_fields rec (x # xs) (y # ys) maxSize limit =
    (let limit = limit - 1 in
     if limit = 0 then None
     else case x of
       ByteArray bs \<Rightarrow> do {
         (b, maxSize) \<leftarrow> bytes_equalsLimited bs y maxSize;
         if \<not> b then Some (False, limit) else equal_fields rec xs ys maxSize limit }
     | _ \<Rightarrow>
         if maxSize = 0 then None
         else do {
           (b, limit) \<leftarrow> (case (x, y) of
              (StructItem a, StructItem b) \<Rightarrow> rec a b limit
            | _ \<Rightarrow> do { b \<leftarrow> simple_Equals x y; Some (b, limit) });
           if \<not> b then Some (False, limit) else equal_fields rec xs ys (maxSize - 1) limit })"
| "equal_fields rec xs ys maxSize limit = Some (True, limit)"

fun equalStruct :: "heap \<Rightarrow> nat \<Rightarrow> addr \<Rightarrow> addr \<Rightarrow> nat \<Rightarrow> (bool \<times> nat) option" where
  "equalStruct h 0 a b limit = None"
| "equalStruct h (Suc fuel) a b limit =
    (if a = b then Some (True, limit)
     else do {
       xs \<leftarrow> get_elems h a; ys \<leftarrow> get_elems h b;
       if length xs \<noteq> length ys then Some (False, limit)
       else equal_fields (equalStruct h fuel) xs ys MaxByteArrayComparableSize limit })"

definition Equals :: "heap \<Rightarrow> stackitem \<Rightarrow> stackitem \<Rightarrow> bool option" where
  "Equals h a b = (case (a, b) of
     (StructItem x, StructItem y) \<Rightarrow>
       map_option fst (equalStruct h MaxComparableNumOfItems x y (MaxComparableNumOfItems - 1))
   | _ \<Rightarrow> simple_Equals a b)"

section \<open>Cloning structs\<close>

fun clone_fields :: "(addr \<Rightarrow> nat \<Rightarrow> heap \<Rightarrow> (addr \<times> nat \<times> heap) option) \<Rightarrow> stackitem list \<Rightarrow> nat \<Rightarrow> heap
    \<Rightarrow> (stackitem list \<times> nat \<times> heap) option" where
  "clone_fields rec [] limit h = Some ([], limit, h)"
| "clone_fields rec (x # xs) limit h =
    (if limit = 0 then None
     else do {
       (y, limit, h) \<leftarrow> (case x of
          StructItem a \<Rightarrow> do { (b, limit, h) \<leftarrow> rec a (limit - 1) h; Some (StructItem b, limit, h) }
        | _ \<Rightarrow> Some (x, limit - 1, h));
       (ys, limit, h) \<leftarrow> clone_fields rec xs limit h;
       Some (y # ys, limit, h) })"

fun clone :: "nat \<Rightarrow> addr \<Rightarrow> nat \<Rightarrow> heap \<Rightarrow> (addr \<times> nat \<times> heap) option" where
  "clone 0 a limit h = None"
| "clone (Suc fuel) a limit h = do {
     xs \<leftarrow> get_elems h a;
     (ys, limit, h) \<leftarrow> clone_fields (clone fuel) xs limit h;
     let (b, h) = alloc (Elems ys) h in Some (b, limit, h) }"

definition Struct_Clone :: "addr \<Rightarrow> heap \<Rightarrow> (addr \<times> heap) option" where
  "Struct_Clone a h = do { (b, limit, h) \<leftarrow> clone MaxClonableNumOfItems a (MaxClonableNumOfItems - 1) h; Some (b, h) }"

definition cloneIfStruct :: "stackitem \<Rightarrow> heap \<Rightarrow> (stackitem \<times> heap) option" where
  "cloneIfStruct it h = (case it of
     StructItem a \<Rightarrow> do { (b, h) \<leftarrow> Struct_Clone a h; Some (StructItem b, h) }
   | _ \<Rightarrow> Some (it, h))"

section \<open>Maps\<close>

fun IsValidMapKey :: "stackitem \<Rightarrow> bool" where
  "IsValidMapKey (BoolItem b) = True"
| "IsValidMapKey (BigInteger i) = True"
| "IsValidMapKey (ByteArray bs) = (int (length bs) \<le> MaxKeySize)"
| "IsValidMapKey it = False"

text \<open>\<^verbatim>\<open>Map.Index\<close>: \<open>Some (Some i)\<close> when the key is at \<open>i\<close>, \<open>Some None\<close> when it is absent.\<close>

fun Map_Index :: "(stackitem \<times> stackitem) list \<Rightarrow> stackitem \<Rightarrow> nat option option" where
  "Map_Index [] key = Some None"
| "Map_Index ((k, x) # ps) key = do {
     b \<leftarrow> simple_Equals k key;
     if b then Some (Some 0) else do { r \<leftarrow> Map_Index ps key; Some (map_option Suc r) } }"

definition Map_Add :: "stackitem \<Rightarrow> stackitem \<Rightarrow> (stackitem \<times> stackitem) list \<Rightarrow> (stackitem \<times> stackitem) list option" where
  "Map_Add key val ps =
    (if \<not> IsValidMapKey key then None
     else do {
       i \<leftarrow> Map_Index ps key;
       case i of Some k \<Rightarrow> Some (ps[k := (fst (ps ! k), val)]) | None \<Rightarrow> Some (ps @ [(key, val)]) })"

end
