(* ===== verification/Vm_State.thy ===== *)
theory Vm_State
  imports Vm_Item
begin

text \<open>
  \<^verbatim>\<open>src/pkg/vm/ref_counter.go\<close>, \<^verbatim>\<open>slot.go\<close>, \<^verbatim>\<open>stack.go\<close>, \<^verbatim>\<open>exception.go\<close>, \<^verbatim>\<open>context.go\<close> and the parts
  of \<^verbatim>\<open>vm.go\<close> that load scripts, call, return and handle exceptions. A stack is a list with its
  top first. Script contexts and evaluation stacks, which Go shares by pointers, live in tables
  of the machine and are referred to by their index. What a host provides (prices, system
  calls, the hash of a script) is a record of functions.
\<close>

section \<open>The reference counter\<close>

text \<open>The items an item holds, in the order the counter visits them.\<close>

fun children :: "heap \<Rightarrow> stackitem \<Rightarrow> stackitem list" where
  "children h (ArrayItem a) = (case get_elems h a of None \<Rightarrow> [] | Some xs \<Rightarrow> xs)"
| "children h (StructItem a) = (case get_elems h a of None \<Rightarrow> [] | Some xs \<Rightarrow> xs)"
| "children h (MapItem a) = (case get_pairs h a of None \<Rightarrow> [] | Some ps \<Rightarrow> concat (map (\<lambda>(k, x). [k, x]) ps))"
| "children h it = []"

fun counted_addr :: "stackitem \<Rightarrow> addr option" where
  "counted_addr (ArrayItem a) = Some a"
| "counted_addr (StructItem a) = Some a"
| "counted_addr (MapItem a) = Some a"
| "counted_addr it = None"

definition rc_of :: "heap \<Rightarrow> addr \<Rightarrow> int" where
  "rc_of h a = (if a < length h then ob_rc (h ! a) else 0)"

definition add_rc :: "addr \<Rightarrow> int \<Rightarrow> heap \<Rightarrow> heap" where
  "add_rc a d h = (if a < length h then h[a := (h ! a)\<lparr>ob_rc := ob_rc (h ! a) + d\<rparr>] else h)"

lemma length_add_rc [simp]: "length (add_rc a d h) = length h"
  by (simp add: add_rc_def)

lemma rc_of_add_rc: "a < length h \<Longrightarrow> rc_of (add_rc a d h) b = (if b = a then rc_of h a + d else rc_of h b)"
  by (simp add: rc_of_def add_rc_def nth_list_update)

text \<open>
  \<^verbatim>\<open>refCounter.Add\<close> and \<^verbatim>\<open>Remove\<close> on a list of items: the recursion into the items a newly
  referenced collection holds comes first, as in the code.
\<close>

definition dead_count :: "heap \<Rightarrow> nat" where
  "dead_count h = card {a. a < length h \<and> rc_of h a \<le> 0}"

definition rc_total :: "heap \<Rightarrow> nat" where
  "rc_total h = (\<Sum>a<length h. nat (rc_of h a))"

lemma dead_count_inc:
  assumes "a < length h" and "rc_of h a = 0"
  shows "dead_count (add_rc a 1 h) < dead_count h"
proof -
  have "{b. b < length h \<and> rc_of (add_rc a 1 h) b \<le> 0} = {b. b < length h \<and> rc_of h b \<le> 0} - {a}"
    using assms by (auto simp: rc_of_add_rc)
  moreover have "card ({b. b < length h \<and> rc_of h b \<le> 0} - {a}) < card {b. b < length h \<and> rc_of h b \<le> 0}"
    by (rule card_Diff1_less) (use assms in simp_all)
  ultimately show ?thesis unfolding dead_count_def length_add_rc by simp
qed

lemma dead_count_inc_le: "a < length h \<Longrightarrow> dead_count (add_rc a 1 h) \<le> dead_count h"
  unfolding dead_count_def length_add_rc by (rule card_mono) (auto simp: rc_of_add_rc)

lemma rc_total_dec:
  assumes "a < length h" and "0 < rc_of h a"
  shows "rc_total (add_rc a (-1) h) < rc_total h"
  unfolding rc_total_def length_add_rc
  by (rule sum_strict_mono_ex1) (use assms in \<open>auto simp: rc_of_add_rc intro!: bexI [of _ a]\<close>)

lemma rc_total_dec_le:
  assumes "a < length h"
  shows "rc_total (add_rc a (-1) h) \<le> rc_total h"
  unfolding rc_total_def length_add_rc by (rule sum_mono) (use assms in \<open>auto simp: rc_of_add_rc\<close>)

function add_items :: "stackitem list \<Rightarrow> heap \<times> int \<Rightarrow> heap \<times> int" where
  "add_items [] (h, r) = (h, r)"
| "add_items (it # its) (h, r) =
    (case counted_addr it of
       None \<Rightarrow> add_items its (h, r + 1)
     | Some a \<Rightarrow>
         if a < length h then
           (let h' = add_rc a 1 h in
            if rc_of h' a = 1 then add_items (children h' it @ its) (h', r + 1)
            else add_items its (h', r + 1))
         else add_items its (h, r + 1))"
  by pat_completeness auto

termination add_items
proof (relation "measures [\<lambda>(its, h, r). dead_count h, \<lambda>(its, h, r). length its]", goal_cases)
  case (3 it its h r a h')
  then have "rc_of h a = 0" by (simp add: rc_of_add_rc)
  with 3 show ?case using dead_count_inc by simp
next
  case (4 it its h r a h')
  then show ?case using dead_count_inc_le [of a h] by auto
qed auto

function remove_items :: "stackitem list \<Rightarrow> heap \<times> int \<Rightarrow> heap \<times> int" where
  "remove_items [] (h, r) = (h, r)"
| "remove_items (it # its) (h, r) =
    (case counted_addr it of
       None \<Rightarrow> remove_items its (h, r - 1)
     | Some a \<Rightarrow>
         if a < length h then
           (let h' = add_rc a (-1) h in
            if rc_of h' a = 0 then remove_items (children h' it @ its) (h', r - 1)
            else remove_items its (h', r - 1))
         else remove_items its (h, r - 1))"
  by pat_completeness auto

termination remove_items
proof (relation "measures [\<lambda>(its, h, r). rc_total h, \<lambda>(its, h, r). length its]", goal_cases)
  case (3 it its h r a h')
  then have "0 < rc_of h a" by (simp add: rc_of_add_rc)
  with 3 show ?case using rc_total_dec by simp
next
  case (4 it its h r a h')
  then show ?case using rc_total_dec_le [of a h] by auto
qed auto

declare add_items.simps(2) [simp del] remove_items.simps(2) [simp del]

section \<open>The state of the machine\<close>

text \<open>A slot is \<open>None\<close> before it is initialized; an element is \<open>None\<close> before it is first set.\<close>

type_synonym slot = "stackitem option list option"

datatype eh_state = ETry | ECatch | EFinally

record eh_context =
  eh_CatchOffset :: int
  eh_FinallyOffset :: int
  eh_EndOffset :: int
  eh_State :: eh_state

definition HasCatch :: "eh_context \<Rightarrow> bool" where
  "HasCatch c \<longleftrightarrow> eh_CatchOffset c \<ge> 0"

definition HasFinally :: "eh_context \<Rightarrow> bool" where
  "HasFinally c \<longleftrightarrow> eh_FinallyOffset c \<ge> 0"

text \<open>The callback of a script context that is unloaded: none, \<^verbatim>\<open>DynamicOnUnload\<close>, or the host's.\<close>

datatype unload_callback = NoCallback | DynamicOnUnload | HostCallback nat

record script_context =
  sc_prog :: bytes
  sc_breakPoints :: "nat list"
  sc_estack :: nat
  sc_static :: slot
  sc_scriptHash :: uint160
  sc_callingScriptHash :: uint160
  sc_callingContext :: "nat option"
  sc_callFlag :: byte
  sc_onUnload :: unload_callback

record vm_context =
  cx_ip :: nat
  cx_nextip :: nat
  cx_sc :: nat
  cx_local :: slot
  cx_arguments :: slot
  cx_tryStack :: "eh_context list"
  cx_retCount :: int

datatype vmstate = NoneState | Halt | Fault | Break

type_synonym int64 = "64 word"

record vm =
  vm_state :: vmstate
  vm_istack :: "vm_context list"
  vm_scs :: "script_context list"
  vm_estack :: nat
  vm_stacks :: "stackitem list list"
  vm_uncaughtException :: "stackitem option"
  vm_heap :: heap
  vm_refs :: int
  vm_gasConsumed :: int64
  vm_GasLimit :: int64

record host =
  ho_hash160 :: "bytes \<Rightarrow> uint160"
  ho_getPrice :: "(byte \<Rightarrow> bytes \<Rightarrow> int64) option"
  ho_SyscallHandler :: "(uint32 \<Rightarrow> vm \<Rightarrow> vm option) option"
  ho_LoadToken :: "(int \<Rightarrow> vm \<Rightarrow> vm option) option"
  ho_onUnload :: "nat \<Rightarrow> vm_context \<Rightarrow> bool \<Rightarrow> vm \<Rightarrow> vm option"

definition MaxInvocationStackSize :: int where "MaxInvocationStackSize = 1024"
definition MaxTryNestingDepth :: int where "MaxTryNestingDepth = 16"
definition MaxStackSize :: int where "MaxStackSize = 2 * 1024"
definition maxSHLArg :: int where "maxSHLArg = int MaxBigIntegerSizeBits"

definition New_vm :: vm where
  "New_vm = \<lparr>vm_state = NoneState, vm_istack = [], vm_scs = [], vm_estack = 0, vm_stacks = [[]],
     vm_uncaughtException = None, vm_heap = [], vm_refs = 0, vm_gasConsumed = 0, vm_GasLimit = 0\<rparr>"

definition AddGas :: "int64 \<Rightarrow> vm \<Rightarrow> bool \<times> vm" where
  "AddGas gas v = (let v = v\<lparr>vm_gasConsumed := vm_gasConsumed v + gas\<rparr> in
     (sint (vm_GasLimit v) < 0 \<or> sint (vm_gasConsumed v) \<le> sint (vm_GasLimit v), v))"

section \<open>Stack operations\<close>

definition count_in :: "stackitem list \<Rightarrow> vm \<Rightarrow> vm" where
  "count_in its v = (case add_items its (vm_heap v, vm_refs v) of (h, r) \<Rightarrow> v\<lparr>vm_heap := h, vm_refs := r\<rparr>)"

definition count_out :: "stackitem list \<Rightarrow> vm \<Rightarrow> vm" where
  "count_out its v = (case remove_items its (vm_heap v, vm_refs v) of (h, r) \<Rightarrow> v\<lparr>vm_heap := h, vm_refs := r\<rparr>)"

text \<open>The current evaluation stack.\<close>

definition estack :: "vm \<Rightarrow> stackitem list" where
  "estack v = (if vm_estack v < length (vm_stacks v) then vm_stacks v ! vm_estack v else [])"

definition set_estack :: "stackitem list \<Rightarrow> vm \<Rightarrow> vm" where
  "set_estack xs v = v\<lparr>vm_stacks := (vm_stacks v)[vm_estack v := xs]\<rparr>"

definition PushItem :: "stackitem \<Rightarrow> vm \<Rightarrow> vm" where
  "PushItem it v = count_in [it] (set_estack (it # estack v) v)"

definition Pop :: "vm \<Rightarrow> (stackitem \<times> vm) option" where
  "Pop v = (case estack v of [] \<Rightarrow> None | it # its \<Rightarrow> Some (it, count_out [it] (set_estack its v)))"

definition Clear :: "vm \<Rightarrow> vm" where
  "Clear v = set_estack [] (count_out (rev (estack v)) v)"

definition InsertAt :: "stackitem \<Rightarrow> nat \<Rightarrow> vm \<Rightarrow> vm option" where
  "InsertAt it n v = (if n > length (estack v) then None
     else Some (count_in [it] (set_estack (take n (estack v) @ [it] @ drop n (estack v)) v)))"

definition Peek :: "nat \<Rightarrow> vm \<Rightarrow> stackitem option" where
  "Peek n v = (if n < length (estack v) then Some (estack v ! n) else None)"

definition RemoveAt :: "nat \<Rightarrow> vm \<Rightarrow> (stackitem \<times> vm) option" where
  "RemoveAt n v = (if n < length (estack v)
     then Some (estack v ! n, count_out [estack v ! n] (set_estack (take n (estack v) @ drop (n + 1) (estack v)) v))
     else None)"

definition Swap :: "int \<Rightarrow> int \<Rightarrow> vm \<Rightarrow> vm option" where
  "Swap n1 n2 v =
    (if n1 < 0 \<or> n2 < 0 then None
     else if nat n1 \<ge> length (estack v) \<or> nat n2 \<ge> length (estack v) then None
     else Some (set_estack ((estack v)[nat n1 := estack v ! nat n2, nat n2 := estack v ! nat n1]) v))"

definition ReverseTop :: "int \<Rightarrow> vm \<Rightarrow> vm option" where
  "ReverseTop n v =
    (if n < 0 then None
     else if nat n > length (estack v) then None
     else if n \<le> 1 then Some v
     else Some (set_estack (rev (take (nat n) (estack v)) @ drop (nat n) (estack v)) v))"

definition Roll :: "int \<Rightarrow> vm \<Rightarrow> vm option" where
  "Roll n v =
    (if n < 0 then None
     else if nat n \<ge> length (estack v) then None
     else if n = 0 then Some v
     else Some (set_estack (estack v ! nat n # take (nat n) (estack v) @ drop (nat n + 1) (estack v)) v))"

text \<open>Popping with a conversion, and \<^verbatim>\<open>toInt\<close>.\<close>

definition popInt :: "vm \<Rightarrow> (int \<times> vm) option" where
  "popInt v = do { (it, v) \<leftarrow> Pop v; i \<leftarrow> TryInteger it; Some (i, v) }"

definition popBool :: "vm \<Rightarrow> (bool \<times> vm) option" where
  "popBool v = do { (it, v) \<leftarrow> Pop v; b \<leftarrow> TryBool it; Some (b, v) }"

definition popBytes :: "vm \<Rightarrow> (bytes \<times> vm) option" where
  "popBytes v = do { (it, v) \<leftarrow> Pop v; b \<leftarrow> TryBytes (vm_heap v) it; Some (b, v) }"

definition toInt :: "int \<Rightarrow> int option" where
  "toInt i = (if - (2 ^ 31) \<le> i \<and> i < 2 ^ 31 then Some i else None)"

definition popInt32 :: "vm \<Rightarrow> (int \<times> vm) option" where
  "popInt32 v = do { (i, v) \<leftarrow> popInt v; n \<leftarrow> toInt i; Some (n, v) }"

definition pushInt :: "int \<Rightarrow> vm \<Rightarrow> vm option" where
  "pushInt i v = do { it \<leftarrow> NewBigInteger i; Some (PushItem it v) }"

definition pushNew :: "(addr \<Rightarrow> stackitem) \<Rightarrow> content \<Rightarrow> vm \<Rightarrow> vm" where
  "pushNew mk c v = (let (a, h) = alloc c (vm_heap v) in PushItem (mk a) (v\<lparr>vm_heap := h\<rparr>))"

section \<open>Slots\<close>

definition slot_get :: "slot \<Rightarrow> nat \<Rightarrow> stackitem option" where
  "slot_get s i = (case s of
     None \<Rightarrow> None
   | Some xs \<Rightarrow> if i < length xs then Some (case xs ! i of None \<Rightarrow> Null | Some it \<Rightarrow> it) else None)"

text \<open>Removing the nil item of an unset element only lowers the counter.\<close>

definition count_out_opt :: "stackitem option \<Rightarrow> vm \<Rightarrow> vm" where
  "count_out_opt x v = (case x of None \<Rightarrow> v\<lparr>vm_refs := vm_refs v - 1\<rparr> | Some it \<Rightarrow> count_out [it] v)"

definition slot_set :: "slot \<Rightarrow> nat \<Rightarrow> stackitem \<Rightarrow> vm \<Rightarrow> (slot \<times> vm) option" where
  "slot_set s i it v = (case s of
     None \<Rightarrow> None
   | Some xs \<Rightarrow>
       if i \<ge> length xs then None
       else if xs ! i = Some it then Some (s, v)
       else Some (Some (xs[i := Some it]), count_in [it] (count_out_opt (xs ! i) v)))"

definition slot_init :: "slot \<Rightarrow> nat \<Rightarrow> vm \<Rightarrow> (slot \<times> vm) option" where
  "slot_init s n v = (case s of
     Some _ \<Rightarrow> None
   | None \<Rightarrow> Some (Some (replicate n None), v\<lparr>vm_refs := vm_refs v + int n\<rparr>))"

definition ClearRefs :: "slot \<Rightarrow> vm \<Rightarrow> vm" where
  "ClearRefs s v = (case s of None \<Rightarrow> v | Some xs \<Rightarrow> fold count_out_opt xs v)"

section \<open>Contexts\<close>

definition cur :: "vm \<Rightarrow> vm_context option" where
  "cur v = (case vm_istack v of [] \<Rightarrow> None | c # cs \<Rightarrow> Some c)"

definition set_cur :: "vm_context \<Rightarrow> vm \<Rightarrow> vm" where
  "set_cur c v = v\<lparr>vm_istack := c # tl (vm_istack v)\<rparr>"

definition script :: "vm \<Rightarrow> vm_context \<Rightarrow> script_context option" where
  "script v c = (if cx_sc c < length (vm_scs v) then Some (vm_scs v ! cx_sc c) else None)"

definition set_script :: "nat \<Rightarrow> script_context \<Rightarrow> vm \<Rightarrow> vm" where
  "set_script i sc v = v\<lparr>vm_scs := (vm_scs v)[i := sc]\<rparr>"

definition ScriptHash :: "host \<Rightarrow> script_context \<Rightarrow> uint160" where
  "ScriptHash H sc = (if sc_scriptHash sc = 0 then ho_hash160 H (sc_prog sc) else sc_scriptHash sc)"

definition Jump :: "int \<Rightarrow> vm \<Rightarrow> vm option" where
  "Jump pos v = do {
     c \<leftarrow> cur v; sc \<leftarrow> script v c;
     if pos < 0 \<or> pos \<ge> int (length (sc_prog sc)) then None
     else Some (set_cur (c\<lparr>cx_nextip := nat pos\<rparr>) v) }"

definition IsCalledByEntry :: "vm \<Rightarrow> vm_context \<Rightarrow> bool option" where
  "IsCalledByEntry v c = do {
     sc \<leftarrow> script v c;
     case sc_callingContext sc of
       None \<Rightarrow> Some True
     | Some i \<Rightarrow> Some (i < length (vm_scs v) \<and> sc_callingContext (vm_scs v ! i) = None) }"

definition getContextScriptHash :: "host \<Rightarrow> vm \<Rightarrow> nat \<Rightarrow> uint160" where
  "getContextScriptHash H v n =
    (if length (vm_istack v) \<le> n then 0
     else case script v (vm_istack v ! n) of None \<Rightarrow> 0 | Some sc \<Rightarrow> ScriptHash H sc)"

definition GetCurrentScriptHash :: "host \<Rightarrow> vm \<Rightarrow> uint160" where
  "GetCurrentScriptHash H v = getContextScriptHash H v 0"

definition GetEntryScriptHash :: "host \<Rightarrow> vm \<Rightarrow> uint160" where
  "GetEntryScriptHash H v = getContextScriptHash H v (length (vm_istack v) - 1)"

definition checkInvocationStackSize :: "vm \<Rightarrow> bool" where
  "checkInvocationStackSize v \<longleftrightarrow> int (length (vm_istack v)) < MaxInvocationStackSize"

text \<open>\<^verbatim>\<open>loadScriptWithCallingHash\<close>; the invocation tree of the debugger is not modelled.\<close>

definition loadScriptWithCallingHash ::
  "bytes \<Rightarrow> uint160 \<Rightarrow> uint160 \<Rightarrow> byte \<Rightarrow> int \<Rightarrow> nat \<Rightarrow> unload_callback \<Rightarrow> vm \<Rightarrow> vm option" where
  "loadScriptWithCallingHash b caller hsh f rvcount offset onUnload v =
    (if \<not> checkInvocationStackSize v then None
     else
       let parent = cur v;
           v = (case parent of None \<Rightarrow> v
                | Some p \<Rightarrow> (case script v p of None \<Rightarrow> v
                    | Some sc \<Rightarrow> set_script (cx_sc p) (sc\<lparr>sc_estack := vm_estack v\<rparr>) v));
           v = (if rvcount \<noteq> -1 \<or> length (estack v) \<noteq> 0
                then v\<lparr>vm_stacks := vm_stacks v @ [[]], vm_estack := length (vm_stacks v)\<rparr> else v);
           sc = \<lparr>sc_prog = b, sc_breakPoints = [], sc_estack = vm_estack v, sc_static = None, sc_scriptHash = hsh,
                  sc_callingScriptHash = caller, sc_callingContext = map_option cx_sc parent, sc_callFlag = f,
                  sc_onUnload = onUnload\<rparr>;
           ctx = \<lparr>cx_ip = 0, cx_nextip = offset, cx_sc = length (vm_scs v), cx_local = None, cx_arguments = None,
                   cx_tryStack = [], cx_retCount = rvcount\<rparr>
       in Some (v\<lparr>vm_scs := vm_scs v @ [sc], vm_istack := ctx # vm_istack v\<rparr>))"

definition LoadScriptWithFlags :: "host \<Rightarrow> bytes \<Rightarrow> byte \<Rightarrow> vm \<Rightarrow> vm option" where
  "LoadScriptWithFlags H b f v = loadScriptWithCallingHash b (GetCurrentScriptHash H v) 0 f (-1) 0 NoCallback v"

definition LoadDynamicScript :: "host \<Rightarrow> bytes \<Rightarrow> byte \<Rightarrow> vm \<Rightarrow> vm option" where
  "LoadDynamicScript H b f v = loadScriptWithCallingHash b (GetCurrentScriptHash H v) 0 f (-1) 0 DynamicOnUnload v"

definition LoadScriptWithHash :: "host \<Rightarrow> bytes \<Rightarrow> uint160 \<Rightarrow> byte \<Rightarrow> vm \<Rightarrow> vm option" where
  "LoadScriptWithHash H b hsh f v = loadScriptWithCallingHash b (GetCurrentScriptHash H v) hsh f 1 0 NoCallback v"

definition LoadWithFlags :: "host \<Rightarrow> bytes \<Rightarrow> byte \<Rightarrow> vm \<Rightarrow> vm option" where
  "LoadWithFlags H b f v =
    (let v = Clear (v\<lparr>vm_istack := []\<rparr>);
         v = v\<lparr>vm_state := NoneState, vm_gasConsumed := 0\<rparr>
     in LoadScriptWithFlags H b f v)"

text \<open>\<^verbatim>\<open>call\<close>: a new context of the same script.\<close>

definition call :: "vm_context \<Rightarrow> int \<Rightarrow> vm \<Rightarrow> vm option" where
  "call c offset v =
    (if \<not> checkInvocationStackSize v then None
     else Jump offset (v\<lparr>vm_istack := \<lparr>cx_ip = 0, cx_nextip = 0, cx_sc = cx_sc c, cx_local = None, cx_arguments = None,
       cx_tryStack = [], cx_retCount = -1\<rparr> # vm_istack v\<rparr>))"

definition LoadNEFMethod ::
  "bytes \<Rightarrow> uint160 \<Rightarrow> uint160 \<Rightarrow> byte \<Rightarrow> bool \<Rightarrow> nat \<Rightarrow> int \<Rightarrow> unload_callback \<Rightarrow> vm \<Rightarrow> vm option" where
  "LoadNEFMethod exe caller hsh f hasReturn methodOff initOff onUnload v = do {
     v \<leftarrow> loadScriptWithCallingHash exe caller hsh f (if hasReturn then 1 else 0) methodOff onUnload v;
     if initOff \<ge> 0 then do { c \<leftarrow> cur v; call c initOff v } else Some v }"

section \<open>Unloading and exceptions\<close>

text \<open>\<^verbatim>\<open>DynamicOnUnload\<close>: at most one value returned, and a null when there is none.\<close>

definition runDynamicOnUnload :: "vm_context \<Rightarrow> bool \<Rightarrow> vm \<Rightarrow> vm option" where
  "runDynamicOnUnload c commit v =
    (if \<not> commit then Some v
     else do {
       sc \<leftarrow> script v c;
       let eLen = length (if sc_estack sc < length (vm_stacks v) then vm_stacks v ! sc_estack sc else []) in
       if eLen = 0 then do {
         c' \<leftarrow> cur v; sc' \<leftarrow> script v c';
         Some (let old = vm_estack v in (PushItem Null (v\<lparr>vm_estack := sc_estack sc'\<rparr>))\<lparr>vm_estack := old\<rparr>) }
       else if eLen > 1 then None
       else Some v })"

definition unloadContext :: "host \<Rightarrow> vm_context \<Rightarrow> vm \<Rightarrow> vm option" where
  "unloadContext H c v =
    (let v = ClearRefs (cx_arguments c) (ClearRefs (cx_local c) v) in
     if map_option cx_sc (cur v) = Some (cx_sc c) then Some v
     else do {
       sc \<leftarrow> script v c;
       let v = ClearRefs (sc_static sc) v in
       case sc_onUnload sc of
         NoCallback \<Rightarrow> Some v
       | DynamicOnUnload \<Rightarrow> runDynamicOnUnload c (vm_uncaughtException v = None) v
       | HostCallback n \<Rightarrow> ho_onUnload H n c (vm_uncaughtException v = None) v })"

text \<open>Popping and unloading the contexts above the one that handles an exception.\<close>

fun unload_top :: "host \<Rightarrow> nat \<Rightarrow> vm \<Rightarrow> vm option" where
  "unload_top H 0 v = Some v"
| "unload_top H (Suc n) v = (case vm_istack v of
     [] \<Rightarrow> None
   | c # cs \<Rightarrow> do { v \<leftarrow> unloadContext H c (v\<lparr>vm_istack := cs\<rparr>); unload_top H n v })"

text \<open>Handlers that are past their catch block, or in their finally block, are dropped.\<close>

definition spent :: "eh_context \<Rightarrow> bool" where
  "spent e \<longleftrightarrow> eh_State e = EFinally \<or> (eh_State e = ECatch \<and> \<not> HasFinally e)"

text \<open>The innermost context that has a handler, by the number of contexts above it.\<close>

fun find_handler :: "vm_context list \<Rightarrow> nat option" where
  "find_handler [] = None"
| "find_handler (c # cs) = (if dropWhile spent (cx_tryStack c) \<noteq> [] then Some 0 else map_option Suc (find_handler cs))"

text \<open>What the handler does once it is the current context.\<close>

definition enter_handler :: "stackitem \<Rightarrow> vm \<Rightarrow> vm option" where
  "enter_handler ex v = do {
     c \<leftarrow> cur v; sc \<leftarrow> script v c;
     case dropWhile spent (cx_tryStack c) of
       [] \<Rightarrow> None
     | e # es \<Rightarrow>
         let v = v\<lparr>vm_estack := sc_estack sc\<rparr> in
         if eh_State e = ETry \<and> HasCatch e then
           let v = set_cur (c\<lparr>cx_tryStack := e\<lparr>eh_State := ECatch\<rparr> # es\<rparr>) v;
               v = (PushItem ex v)\<lparr>vm_uncaughtException := None\<rparr>
           in Jump (eh_CatchOffset e) v
         else
           let v = set_cur (c\<lparr>cx_tryStack := e\<lparr>eh_State := EFinally\<rparr> # es\<rparr>) v
           in Jump (eh_FinallyOffset e) v }"

definition handleException :: "host \<Rightarrow> vm \<Rightarrow> vm option" where
  "handleException H v = do {
     ex \<leftarrow> vm_uncaughtException v;
     n \<leftarrow> find_handler (vm_istack v);
     v \<leftarrow> unload_top H n v;
     enter_handler ex v }"

definition throw :: "host \<Rightarrow> stackitem \<Rightarrow> vm \<Rightarrow> vm option" where
  "throw H it v = handleException H (v\<lparr>vm_uncaughtException := Some it\<rparr>)"

end
