(* ===== verification/Vm_Opcode.thy ===== *)
theory Vm_Opcode
  imports Vm_State
begin

text \<open>
  \<^verbatim>\<open>src/pkg/vm/opcode/opcode.go\<close> and \<^verbatim>\<open>src/pkg/core/fee/opcode.go\<close>: the instructions of the virtual
  machine and their prices.
\<close>

section \<open>Instructions\<close>

abbreviation opPUSHINT8 :: byte where "opPUSHINT8 \<equiv> 0x00"
abbreviation opPUSHINT16 :: byte where "opPUSHINT16 \<equiv> 0x01"
abbreviation opPUSHINT32 :: byte where "opPUSHINT32 \<equiv> 0x02"
abbreviation opPUSHINT64 :: byte where "opPUSHINT64 \<equiv> 0x03"
abbreviation opPUSHINT128 :: byte where "opPUSHINT128 \<equiv> 0x04"
abbreviation opPUSHINT256 :: byte where "opPUSHINT256 \<equiv> 0x05"
abbreviation opPUSHT :: byte where "opPUSHT \<equiv> 0x08"
abbreviation opPUSHF :: byte where "opPUSHF \<equiv> 0x09"
abbreviation opPUSHA :: byte where "opPUSHA \<equiv> 0x0A"
abbreviation opPUSHNULL :: byte where "opPUSHNULL \<equiv> 0x0B"
abbreviation opPUSHDATA1 :: byte where "opPUSHDATA1 \<equiv> 0x0C"
abbreviation opPUSHDATA2 :: byte where "opPUSHDATA2 \<equiv> 0x0D"
abbreviation opPUSHDATA4 :: byte where "opPUSHDATA4 \<equiv> 0x0E"
abbreviation opPUSHM1 :: byte where "opPUSHM1 \<equiv> 0x0F"
abbreviation opPUSH0 :: byte where "opPUSH0 \<equiv> 0x10"
abbreviation opPUSH1 :: byte where "opPUSH1 \<equiv> 0x11"
abbreviation opPUSH2 :: byte where "opPUSH2 \<equiv> 0x12"
abbreviation opPUSH3 :: byte where "opPUSH3 \<equiv> 0x13"
abbreviation opPUSH4 :: byte where "opPUSH4 \<equiv> 0x14"
abbreviation opPUSH5 :: byte where "opPUSH5 \<equiv> 0x15"
abbreviation opPUSH6 :: byte where "opPUSH6 \<equiv> 0x16"
abbreviation opPUSH7 :: byte where "opPUSH7 \<equiv> 0x17"
abbreviation opPUSH8 :: byte where "opPUSH8 \<equiv> 0x18"
abbreviation opPUSH9 :: byte where "opPUSH9 \<equiv> 0x19"
abbreviation opPUSH10 :: byte where "opPUSH10 \<equiv> 0x1A"
abbreviation opPUSH11 :: byte where "opPUSH11 \<equiv> 0x1B"
abbreviation opPUSH12 :: byte where "opPUSH12 \<equiv> 0x1C"
abbreviation opPUSH13 :: byte where "opPUSH13 \<equiv> 0x1D"
abbreviation opPUSH14 :: byte where "opPUSH14 \<equiv> 0x1E"
abbreviation opPUSH15 :: byte where "opPUSH15 \<equiv> 0x1F"
abbreviation opPUSH16 :: byte where "opPUSH16 \<equiv> 0x20"
abbreviation opNOP :: byte where "opNOP \<equiv> 0x21"
abbreviation opJMP :: byte where "opJMP \<equiv> 0x22"
abbreviation opJMPL :: byte where "opJMPL \<equiv> 0x23"
abbreviation opJMPIF :: byte where "opJMPIF \<equiv> 0x24"
abbreviation opJMPIFL :: byte where "opJMPIFL \<equiv> 0x25"
abbreviation opJMPIFNOT :: byte where "opJMPIFNOT \<equiv> 0x26"
abbreviation opJMPIFNOTL :: byte where "opJMPIFNOTL \<equiv> 0x27"
abbreviation opJMPEQ :: byte where "opJMPEQ \<equiv> 0x28"
abbreviation opJMPEQL :: byte where "opJMPEQL \<equiv> 0x29"
abbreviation opJMPNE :: byte where "opJMPNE \<equiv> 0x2A"
abbreviation opJMPNEL :: byte where "opJMPNEL \<equiv> 0x2B"
abbreviation opJMPGT :: byte where "opJMPGT \<equiv> 0x2C"
abbreviation opJMPGTL :: byte where "opJMPGTL \<equiv> 0x2D"
abbreviation opJMPGE :: byte where "opJMPGE \<equiv> 0x2E"
abbreviation opJMPGEL :: byte where "opJMPGEL \<equiv> 0x2F"
abbreviation opJMPLT :: byte where "opJMPLT \<equiv> 0x30"
abbreviation opJMPLTL :: byte where "opJMPLTL \<equiv> 0x31"
abbreviation opJMPLE :: byte where "opJMPLE \<equiv> 0x32"
abbreviation opJMPLEL :: byte where "opJMPLEL \<equiv> 0x33"
abbreviation opCALL :: byte where "opCALL \<equiv> 0x34"
abbreviation opCALLL :: byte where "opCALLL \<equiv> 0x35"
abbreviation opCALLA :: byte where "opCALLA \<equiv> 0x36"
abbreviation opCALLT :: byte where "opCALLT \<equiv> 0x37"
abbreviation opABORT :: byte where "opABORT \<equiv> 0x38"
abbreviation opASSERT :: byte where "opASSERT \<equiv> 0x39"
abbreviation opTHROW :: byte where "opTHROW \<equiv> 0x3A"
abbreviation opTRY :: byte where "opTRY \<equiv> 0x3B"
abbreviation opTRYL :: byte where "opTRYL \<equiv> 0x3C"
abbreviation opENDTRY :: byte where "opENDTRY \<equiv> 0x3D"
abbreviation opENDTRYL :: byte where "opENDTRYL \<equiv> 0x3E"
abbreviation opENDFINALLY :: byte where "opENDFINALLY \<equiv> 0x3F"
abbreviation opRET :: byte where "opRET \<equiv> 0x40"
abbreviation opSYSCALL :: byte where "opSYSCALL \<equiv> 0x41"
abbreviation opDEPTH :: byte where "opDEPTH \<equiv> 0x43"
abbreviation opDROP :: byte where "opDROP \<equiv> 0x45"
abbreviation opNIP :: byte where "opNIP \<equiv> 0x46"
abbreviation opXDROP :: byte where "opXDROP \<equiv> 0x48"
abbreviation opCLEAR :: byte where "opCLEAR \<equiv> 0x49"
abbreviation opDUP :: byte where "opDUP \<equiv> 0x4A"
abbreviation opOVER :: byte where "opOVER \<equiv> 0x4B"
abbreviation opPICK :: byte where "opPICK \<equiv> 0x4D"
abbreviation opTUCK :: byte where "opTUCK \<equiv> 0x4E"
abbreviation opSWAP :: byte where "opSWAP \<equiv> 0x50"
abbreviation opROT :: byte where "opROT \<equiv> 0x51"
abbreviation opROLL :: byte where "opROLL \<equiv> 0x52"
abbreviation opREVERSE3 :: byte where "opREVERSE3 \<equiv> 0x53"
abbreviation opREVERSE4 :: byte where "opREVERSE4 \<equiv> 0x54"
abbreviation opREVERSEN :: byte where "opREVERSEN \<equiv> 0x55"
abbreviation opINITSSLOT :: byte where "opINITSSLOT \<equiv> 0x56"
abbreviation opINITSLOT :: byte where "opINITSLOT \<equiv> 0x57"
abbreviation opLDSFLD0 :: byte where "opLDSFLD0 \<equiv> 0x58"
abbreviation opLDSFLD1 :: byte where "opLDSFLD1 \<equiv> 0x59"
abbreviation opLDSFLD2 :: byte where "opLDSFLD2 \<equiv> 0x5A"
abbreviation opLDSFLD3 :: byte where "opLDSFLD3 \<equiv> 0x5B"
abbreviation opLDSFLD4 :: byte where "opLDSFLD4 \<equiv> 0x5C"
abbreviation opLDSFLD5 :: byte where "opLDSFLD5 \<equiv> 0x5D"
abbreviation opLDSFLD6 :: byte where "opLDSFLD6 \<equiv> 0x5E"
abbreviation opLDSFLD :: byte where "opLDSFLD \<equiv> 0x5F"
abbreviation opSTSFLD0 :: byte where "opSTSFLD0 \<equiv> 0x60"
abbreviation opSTSFLD1 :: byte where "opSTSFLD1 \<equiv> 0x61"
abbreviation opSTSFLD2 :: byte where "opSTSFLD2 \<equiv> 0x62"
abbreviation opSTSFLD3 :: byte where "opSTSFLD3 \<equiv> 0x63"
abbreviation opSTSFLD4 :: byte where "opSTSFLD4 \<equiv> 0x64"
abbreviation opSTSFLD5 :: byte where "opSTSFLD5 \<equiv> 0x65"
abbreviation opSTSFLD6 :: byte where "opSTSFLD6 \<equiv> 0x66"
abbreviation opSTSFLD :: byte where "opSTSFLD \<equiv> 0x67"
abbreviation opLDLOC0 :: byte where "opLDLOC0 \<equiv> 0x68"
abbreviation opLDLOC1 :: byte where "opLDLOC1 \<equiv> 0x69"
abbreviation opLDLOC2 :: byte where "opLDLOC2 \<equiv> 0x6A"
abbreviation opLDLOC3 :: byte where "opLDLOC3 \<equiv> 0x6B"
abbreviation opLDLOC4 :: byte where "opLDLOC4 \<equiv> 0x6C"
abbreviation opLDLOC5 :: byte where "opLDLOC5 \<equiv> 0x6D"
abbreviation opLDLOC6 :: byte where "opLDLOC6 \<equiv> 0x6E"
abbreviation opLDLOC :: byte where "opLDLOC \<equiv> 0x6F"
abbreviation opSTLOC0 :: byte where "opSTLOC0 \<equiv> 0x70"
abbreviation opSTLOC1 :: byte where "opSTLOC1 \<equiv> 0x71"
abbreviation opSTLOC2 :: byte where "opSTLOC2 \<equiv> 0x72"
abbreviation opSTLOC3 :: byte where "opSTLOC3 \<equiv> 0x73"
abbreviation opSTLOC4 :: byte where "opSTLOC4 \<equiv> 0x74"
abbreviation opSTLOC5 :: byte where "opSTLOC5 \<equiv> 0x75"
abbreviation opSTLOC6 :: byte where "opSTLOC6 \<equiv> 0x76"
abbreviation opSTLOC :: byte where "opSTLOC \<equiv> 0x77"
abbreviation opLDARG0 :: byte where "opLDARG0 \<equiv> 0x78"
abbreviation opLDARG1 :: byte where "opLDARG1 \<equiv> 0x79"
abbreviation opLDARG2 :: byte where "opLDARG2 \<equiv> 0x7A"
abbreviation opLDARG3 :: byte where "opLDARG3 \<equiv> 0x7B"
abbreviation opLDARG4 :: byte where "opLDARG4 \<equiv> 0x7C"
abbreviation opLDARG5 :: byte where "opLDARG5 \<equiv> 0x7D"
abbreviation opLDARG6 :: byte where "opLDARG6 \<equiv> 0x7E"
abbreviation opLDARG :: byte where "opLDARG \<equiv> 0x7F"
abbreviation opSTARG0 :: byte where "opSTARG0 \<equiv> 0x80"
abbreviation opSTARG1 :: byte where "opSTARG1 \<equiv> 0x81"
abbreviation opSTARG2 :: byte where "opSTARG2 \<equiv> 0x82"
abbreviation opSTARG3 :: byte where "opSTARG3 \<equiv> 0x83"
abbreviation opSTARG4 :: byte where "opSTARG4 \<equiv> 0x84"
abbreviation opSTARG5 :: byte where "opSTARG5 \<equiv> 0x85"
abbreviation opSTARG6 :: byte where "opSTARG6 \<equiv> 0x86"
abbreviation opSTARG :: byte where "opSTARG \<equiv> 0x87"
abbreviation opNEWBUFFER :: byte where "opNEWBUFFER \<equiv> 0x88"
abbreviation opMEMCPY :: byte where "opMEMCPY \<equiv> 0x89"
abbreviation opCAT :: byte where "opCAT \<equiv> 0x8B"
abbreviation opSUBSTR :: byte where "opSUBSTR \<equiv> 0x8C"
abbreviation opLEFT :: byte where "opLEFT \<equiv> 0x8D"
abbreviation opRIGHT :: byte where "opRIGHT \<equiv> 0x8E"
abbreviation opINVERT :: byte where "opINVERT \<equiv> 0x90"
abbreviation opAND :: byte where "opAND \<equiv> 0x91"
abbreviation opOR :: byte where "opOR \<equiv> 0x92"
abbreviation opXOR :: byte where "opXOR \<equiv> 0x93"
abbreviation opEQUAL :: byte where "opEQUAL \<equiv> 0x97"
abbreviation opNOTEQUAL :: byte where "opNOTEQUAL \<equiv> 0x98"
abbreviation opSIGN :: byte where "opSIGN \<equiv> 0x99"
abbreviation opABS :: byte where "opABS \<equiv> 0x9A"
abbreviation opNEGATE :: byte where "opNEGATE \<equiv> 0x9B"
abbreviation opINC :: byte where "opINC \<equiv> 0x9C"
abbreviation opDEC :: byte where "opDEC \<equiv> 0x9D"
abbreviation opADD :: byte where "opADD \<equiv> 0x9E"
abbreviation opSUB :: byte where "opSUB \<equiv> 0x9F"
abbreviation opMUL :: byte where "opMUL \<equiv> 0xA0"
abbreviation opDIV :: byte where "opDIV \<equiv> 0xA1"
abbreviation opMOD :: byte where "opMOD \<equiv> 0xA2"
abbreviation opPOW :: byte where "opPOW \<equiv> 0xA3"
abbreviation opSQRT :: byte where "opSQRT \<equiv> 0xA4"
abbreviation opMODMUL :: byte where "opMODMUL \<equiv> 0xA5"
abbreviation opMODPOW :: byte where "opMODPOW \<equiv> 0xA6"
abbreviation opSHL :: byte where "opSHL \<equiv> 0xA8"
abbreviation opSHR :: byte where "opSHR \<equiv> 0xA9"
abbreviation opNOT :: byte where "opNOT \<equiv> 0xAA"
abbreviation opBOOLAND :: byte where "opBOOLAND \<equiv> 0xAB"
abbreviation opBOOLOR :: byte where "opBOOLOR \<equiv> 0xAC"
abbreviation opNZ :: byte where "opNZ \<equiv> 0xB1"
abbreviation opNUMEQUAL :: byte where "opNUMEQUAL \<equiv> 0xB3"
abbreviation opNUMNOTEQUAL :: byte where "opNUMNOTEQUAL \<equiv> 0xB4"
abbreviation opLT :: byte where "opLT \<equiv> 0xB5"
abbreviation opLE :: byte where "opLE \<equiv> 0xB6"
abbreviation opGT :: byte where "opGT \<equiv> 0xB7"
abbreviation opGE :: byte where "opGE \<equiv> 0xB8"
abbreviation opMIN :: byte where "opMIN \<equiv> 0xB9"
abbreviation opMAX :: byte where "opMAX \<equiv> 0xBA"
abbreviation opWITHIN :: byte where "opWITHIN \<equiv> 0xBB"
abbreviation opPACKMAP :: byte where "opPACKMAP \<equiv> 0xBE"
abbreviation opPACKSTRUCT :: byte where "opPACKSTRUCT \<equiv> 0xBF"
abbreviation opPACK :: byte where "opPACK \<equiv> 0xC0"
abbreviation opUNPACK :: byte where "opUNPACK \<equiv> 0xC1"
abbreviation opNEWARRAY0 :: byte where "opNEWARRAY0 \<equiv> 0xC2"
abbreviation opNEWARRAY :: byte where "opNEWARRAY \<equiv> 0xC3"
abbreviation opNEWARRAYT :: byte where "opNEWARRAYT \<equiv> 0xC4"
abbreviation opNEWSTRUCT0 :: byte where "opNEWSTRUCT0 \<equiv> 0xC5"
abbreviation opNEWSTRUCT :: byte where "opNEWSTRUCT \<equiv> 0xC6"
abbreviation opNEWMAP :: byte where "opNEWMAP \<equiv> 0xC8"
abbreviation opSIZE :: byte where "opSIZE \<equiv> 0xCA"
abbreviation opHASKEY :: byte where "opHASKEY \<equiv> 0xCB"
abbreviation opKEYS :: byte where "opKEYS \<equiv> 0xCC"
abbreviation opVALUES :: byte where "opVALUES \<equiv> 0xCD"
abbreviation opPICKITEM :: byte where "opPICKITEM \<equiv> 0xCE"
abbreviation opAPPEND :: byte where "opAPPEND \<equiv> 0xCF"
abbreviation opSETITEM :: byte where "opSETITEM \<equiv> 0xD0"
abbreviation opREVERSEITEMS :: byte where "opREVERSEITEMS \<equiv> 0xD1"
abbreviation opREMOVE :: byte where "opREMOVE \<equiv> 0xD2"
abbreviation opCLEARITEMS :: byte where "opCLEARITEMS \<equiv> 0xD3"
abbreviation opPOPITEM :: byte where "opPOPITEM \<equiv> 0xD4"
abbreviation opISNULL :: byte where "opISNULL \<equiv> 0xD8"
abbreviation opISTYPE :: byte where "opISTYPE \<equiv> 0xD9"
abbreviation opCONVERT :: byte where "opCONVERT \<equiv> 0xDB"
abbreviation opABORTMSG :: byte where "opABORTMSG \<equiv> 0xE0"
abbreviation opASSERTMSG :: byte where "opASSERTMSG \<equiv> 0xE1"

definition opcodes :: "byte list" where
  "opcodes = [opPUSHINT8, opPUSHINT16, opPUSHINT32, opPUSHINT64, opPUSHINT128, opPUSHINT256, opPUSHT, opPUSHF,
    opPUSHA, opPUSHNULL, opPUSHDATA1, opPUSHDATA2, opPUSHDATA4, opPUSHM1, opPUSH0, opPUSH1, opPUSH2,
    opPUSH3, opPUSH4, opPUSH5, opPUSH6, opPUSH7, opPUSH8, opPUSH9, opPUSH10, opPUSH11, opPUSH12,
    opPUSH13, opPUSH14, opPUSH15, opPUSH16, opNOP, opJMP, opJMPL, opJMPIF, opJMPIFL, opJMPIFNOT,
    opJMPIFNOTL, opJMPEQ, opJMPEQL, opJMPNE, opJMPNEL, opJMPGT, opJMPGTL, opJMPGE, opJMPGEL, opJMPLT,
    opJMPLTL, opJMPLE, opJMPLEL, opCALL, opCALLL, opCALLA, opCALLT, opABORT, opASSERT, opTHROW, opTRY,
    opTRYL, opENDTRY, opENDTRYL, opENDFINALLY, opRET, opSYSCALL, opDEPTH, opDROP, opNIP, opXDROP,
    opCLEAR, opDUP, opOVER, opPICK, opTUCK, opSWAP, opROT, opROLL, opREVERSE3, opREVERSE4, opREVERSEN,
    opINITSSLOT, opINITSLOT, opLDSFLD0, opLDSFLD1, opLDSFLD2, opLDSFLD3, opLDSFLD4, opLDSFLD5, opLDSFLD6,
    opLDSFLD, opSTSFLD0, opSTSFLD1, opSTSFLD2, opSTSFLD3, opSTSFLD4, opSTSFLD5, opSTSFLD6, opSTSFLD,
    opLDLOC0, opLDLOC1, opLDLOC2, opLDLOC3, opLDLOC4, opLDLOC5, opLDLOC6, opLDLOC, opSTLOC0, opSTLOC1,
    opSTLOC2, opSTLOC3, opSTLOC4, opSTLOC5, opSTLOC6, opSTLOC, opLDARG0, opLDARG1, opLDARG2, opLDARG3,
    opLDARG4, opLDARG5, opLDARG6, opLDARG, opSTARG0, opSTARG1, opSTARG2, opSTARG3, opSTARG4, opSTARG5,
    opSTARG6, opSTARG, opNEWBUFFER, opMEMCPY, opCAT, opSUBSTR, opLEFT, opRIGHT, opINVERT, opAND, opOR,
    opXOR, opEQUAL, opNOTEQUAL, opSIGN, opABS, opNEGATE, opINC, opDEC, opADD, opSUB, opMUL, opDIV, opMOD,
    opPOW, opSQRT, opMODMUL, opMODPOW, opSHL, opSHR, opNOT, opBOOLAND, opBOOLOR, opNZ, opNUMEQUAL,
    opNUMNOTEQUAL, opLT, opLE, opGT, opGE, opMIN, opMAX, opWITHIN, opPACKMAP, opPACKSTRUCT, opPACK,
    opUNPACK, opNEWARRAY0, opNEWARRAY, opNEWARRAYT, opNEWSTRUCT0, opNEWSTRUCT, opNEWMAP, opSIZE,
    opHASKEY, opKEYS, opVALUES, opPICKITEM, opAPPEND, opSETITEM, opREVERSEITEMS, opREMOVE, opCLEARITEMS,
    opPOPITEM, opISNULL, opISTYPE, opCONVERT, opABORTMSG, opASSERTMSG]"

definition opcode_IsValid :: "byte \<Rightarrow> bool" where
  "opcode_IsValid op \<longleftrightarrow> op \<in> set opcodes"

section \<open>Prices\<close>

text \<open>The coefficients as powers of two; an instruction that is not listed is free.\<close>

definition coefficient_table :: "(byte \<times> nat) list" where
  "coefficient_table = [
    (opPUSHINT8, 1), (opPUSHINT16, 1), (opPUSHINT32, 1), (opPUSHINT64, 1), (opPUSHINT128, 4),
    (opPUSHINT256, 4), (opPUSHT, 1), (opPUSHF, 1), (opPUSHA, 4), (opPUSHNULL, 1), (opPUSHDATA1, 8),
    (opPUSHDATA2, 512), (opPUSHDATA4, 4096), (opPUSHM1, 1), (opPUSH0, 1), (opPUSH1, 1), (opPUSH2, 1),
    (opPUSH3, 1), (opPUSH4, 1), (opPUSH5, 1), (opPUSH6, 1), (opPUSH7, 1), (opPUSH8, 1), (opPUSH9, 1),
    (opPUSH10, 1), (opPUSH11, 1), (opPUSH12, 1), (opPUSH13, 1), (opPUSH14, 1), (opPUSH15, 1), (opPUSH16, 1),
    (opNOP, 1), (opJMP, 2), (opJMPL, 2), (opJMPIF, 2), (opJMPIFL, 2), (opJMPIFNOT, 2), (opJMPIFNOTL, 2),
    (opJMPEQ, 2), (opJMPEQL, 2), (opJMPNE, 2), (opJMPNEL, 2), (opJMPGT, 2), (opJMPGTL, 2), (opJMPGE, 2),
    (opJMPGEL, 2), (opJMPLT, 2), (opJMPLTL, 2), (opJMPLE, 2), (opJMPLEL, 2), (opCALL, 512), (opCALLL, 512),
    (opCALLA, 512), (opCALLT, 32768), (opABORT, 0), (opASSERT, 1),
    (opTHROW, 512), (opTRY, 4), (opTRYL, 4), (opENDTRY, 4), (opENDTRYL, 4), (opENDFINALLY, 4), (opRET, 0),
    (opSYSCALL, 0), (opDEPTH, 2), (opDROP, 2), (opNIP, 2), (opXDROP, 16), (opCLEAR, 16), (opDUP, 2),
    (opOVER, 2), (opPICK, 2), (opTUCK, 2), (opSWAP, 2), (opROT, 2), (opROLL, 16), (opREVERSE3, 2),
    (opREVERSE4, 2), (opREVERSEN, 16), (opINITSSLOT, 16), (opINITSLOT, 64), (opLDSFLD0, 2), (opLDSFLD1, 2),
    (opLDSFLD2, 2), (opLDSFLD3, 2), (opLDSFLD4, 2), (opLDSFLD5, 2), (opLDSFLD6, 2), (opLDSFLD, 2),
    (opSTSFLD0, 2), (opSTSFLD1, 2), (opSTSFLD2, 2), (opSTSFLD3, 2), (opSTSFLD4, 2), (opSTSFLD5, 2),
    (opSTSFLD6, 2), (opSTSFLD, 2), (opLDLOC0, 2), (opLDLOC1, 2), (opLDLOC2, 2), (opLDLOC3, 2), (opLDLOC4, 2),
    (opLDLOC5, 2), (opLDLOC6, 2), (opLDLOC, 2), (opSTLOC0, 2), (opSTLOC1, 2), (opSTLOC2, 2), (opSTLOC3, 2),
    (opSTLOC4, 2), (opSTLOC5, 2), (opSTLOC6, 2), (opSTLOC, 2), (opLDARG0, 2), (opLDARG1, 2), (opLDARG2, 2),
    (opLDARG3, 2), (opLDARG4, 2), (opLDARG5, 2), (opLDARG6, 2), (opLDARG, 2), (opSTARG0, 2), (opSTARG1, 2),
    (opSTARG2, 2), (opSTARG3, 2), (opSTARG4, 2), (opSTARG5, 2), (opSTARG6, 2), (opSTARG, 2),
    (opNEWBUFFER, 256), (opMEMCPY, 2048), (opCAT, 2048), (opSUBSTR, 2048), (opLEFT, 2048), (opRIGHT, 2048),
    (opINVERT, 4), (opAND, 8), (opOR, 8), (opXOR, 8), (opEQUAL, 32), (opNOTEQUAL, 32), (opSIGN, 4), (opABS, 4),
    (opNEGATE, 4), (opINC, 4), (opDEC, 4), (opADD, 8), (opSUB, 8), (opMUL, 8), (opDIV, 8), (opMOD, 8),
    (opPOW, 64), (opSQRT, 64), (opMODMUL, 32), (opMODPOW, 2048), (opSHL, 8), (opSHR, 8), (opNOT, 4),
    (opBOOLAND, 8), (opBOOLOR, 8), (opNZ, 4), (opNUMEQUAL, 8), (opNUMNOTEQUAL, 8), (opLT, 8), (opLE, 8),
    (opGT, 8), (opGE, 8), (opMIN, 8), (opMAX, 8), (opWITHIN, 8), (opPACKMAP, 2048), (opPACKSTRUCT, 2048),
    (opPACK, 2048), (opUNPACK, 2048), (opNEWARRAY0, 16), (opNEWARRAY, 512), (opNEWARRAYT, 512),
    (opNEWSTRUCT0, 16), (opNEWSTRUCT, 512), (opNEWMAP, 8), (opSIZE, 4), (opHASKEY, 64), (opKEYS, 16),
    (opVALUES, 8192), (opPICKITEM, 64), (opAPPEND, 8192), (opSETITEM, 8192), (opREVERSEITEMS, 8192),
    (opREMOVE, 16), (opCLEARITEMS, 16), (opPOPITEM, 16), (opISNULL, 2), (opISTYPE, 2), (opCONVERT, 8192),
    (opABORTMSG, 0), (opASSERTMSG, 1)]"

definition coefficients :: "byte \<Rightarrow> nat" where
  "coefficients op = (case map_of coefficient_table op of None \<Rightarrow> 0 | Some n \<Rightarrow> n)"

definition fee_Opcode :: "int64 \<Rightarrow> byte list \<Rightarrow> int64" where
  "fee_Opcode base ops = foldl (\<lambda>result op. result + word_of_nat (coefficients op)) 0 ops * base"

end
