(* ===== verification/Vm_Exec.thy ===== *)
theory Vm_Exec
  imports Vm_Opcode "HOL-Library.Signed_Division"
begin

text \<open>
  \<^verbatim>\<open>VM.execute\<close> and \<^verbatim>\<open>VM.Run\<close> of \<^verbatim>\<open>src/pkg/vm/vm.go\<close>, and \<^verbatim>\<open>Context.Next\<close> of \<^verbatim>\<open>context.go\<close>. The big
  switch is split into groups of instructions in the order of the opcodes. \<open>None\<close> is a panic,
  which \<^verbatim>\<open>execute\<close> recovers from by putting the machine into the fault state.
\<close>

section \<open>Decoding an instruction\<close>

definition one_byte_ops :: "byte list" where
  "one_byte_ops = [opJMP, opJMPIF, opJMPIFNOT, opJMPEQ, opJMPNE, opJMPGT, opJMPGE, opJMPLT, opJMPLE, opCALL, opISTYPE,
     opCONVERT, opNEWARRAYT, opENDTRY, opINITSSLOT, opLDSFLD, opSTSFLD, opLDARG, opSTARG, opLDLOC, opSTLOC]"

definition four_byte_ops :: "byte list" where
  "four_byte_ops = [opJMPL, opJMPIFL, opJMPIFNOTL, opJMPEQL, opJMPNEL, opJMPGTL, opJMPGEL, opJMPLTL, opJMPLEL, opENDTRYL,
     opCALLL, opSYSCALL, opPUSHA]"

text \<open>
  The number of bytes of the parameter and where they start; \<open>None\<close> when a length prefix is cut
  off or too big.
\<close>

definition param_size :: "bytes \<Rightarrow> byte \<Rightarrow> nat \<Rightarrow> (nat \<times> nat) option" where
  "param_size prog instr nextip =
    (if instr = opPUSHDATA1 then
       (if nextip \<ge> length prog then None else Some (unat (prog ! nextip), nextip + 1))
     else if instr = opPUSHDATA2 then
       (if nextip + 1 \<ge> length prog then None else Some (le_nat (take 2 (drop nextip prog)), nextip + 2))
     else if instr = opPUSHDATA4 then
       (if nextip + 3 \<ge> length prog then None
        else let n = le_nat (take 4 (drop nextip prog)) in
          if int n > MaxSize then None else Some (n, nextip + 4))
     else if instr \<in> set one_byte_ops then Some (1, nextip)
     else if instr \<in> {opINITSLOT, opTRY, opCALLT} then Some (2, nextip)
     else if instr \<in> set four_byte_ops then Some (4, nextip)
     else if instr = opTRYL then Some (8, nextip)
     else if instr \<le> opPUSHINT256 then Some (2 ^ unat instr, nextip)
     else Some (0, nextip))"

definition Next :: "vm \<Rightarrow> (byte \<times> bytes \<times> vm) option" where
  "Next v = do {
     c \<leftarrow> cur v; sc \<leftarrow> script v c;
     let prog = sc_prog sc; ip = cx_nextip c; c = c\<lparr>cx_ip := ip\<rparr> in
     if ip \<ge> length prog then Some (opRET, [], set_cur c v)
     else let instr = prog ! ip in
       if \<not> opcode_IsValid instr then None
       else do {
         (n, start) \<leftarrow> param_size prog instr (ip + 1);
         if start + n > length prog then None
         else Some (instr, take n (drop start prog), set_cur (c\<lparr>cx_nextip := start + n\<rparr>) v) } }"

section \<open>Offsets\<close>

definition getJumpOffset :: "vm \<Rightarrow> bytes \<Rightarrow> int option" where
  "getJumpOffset v param = do {
     c \<leftarrow> cur v; sc \<leftarrow> script v c;
     rOffset \<leftarrow> (if length param = 1 then Some (sint (hd param))
                else if length param = 4 then Some (sint (get_le param :: uint32)) else None);
     let offset = int (cx_ip c) + rOffset in
     if offset < 0 \<or> offset > int (length (sc_prog sc)) then None else Some offset }"

definition getTryParams :: "byte \<Rightarrow> bytes \<Rightarrow> bytes \<times> bytes" where
  "getTryParams op p = (let i = (if op = opTRYL then 4 else 1) in (take i p, drop i p))"

definition getJumpCondition :: "byte \<Rightarrow> int \<Rightarrow> int \<Rightarrow> bool option" where
  "getJumpCondition op a b =
    (if op = opJMPEQ \<or> op = opJMPEQL then Some (a = b)
     else if op = opJMPNE \<or> op = opJMPNEL then Some (a \<noteq> b)
     else if op = opJMPGT \<or> op = opJMPGTL then Some (a > b)
     else if op = opJMPGE \<or> op = opJMPGEL then Some (a \<ge> b)
     else if op = opJMPLT \<or> op = opJMPLTL then Some (a < b)
     else if op = opJMPLE \<or> op = opJMPLEL then Some (a \<le> b)
     else None)"

section \<open>Constants\<close>

definition execute_push :: "host \<Rightarrow> byte \<Rightarrow> bytes \<Rightarrow> vm \<Rightarrow> vm option" where
  "execute_push H op param v =
    (if op = opPUSHT \<or> op = opPUSHF then Some (PushItem (BoolItem (op = opPUSHT)) v)
     else if op = opPUSHA then do {
       n \<leftarrow> getJumpOffset v param; c \<leftarrow> cur v; sc \<leftarrow> script v c;
       Some (PushItem (PointerItem n (ScriptHash H sc)) v) }
     else if op = opPUSHNULL then Some (PushItem Null v)
     else if op = opPUSHDATA1 \<or> op = opPUSHDATA2 \<or> op = opPUSHDATA4 then Some (PushItem (ByteArray param) v)
     else if opPUSHM1 \<le> op \<and> op \<le> opPUSH16 then pushInt (int (unat op) - int (unat opPUSH0)) v
     else if op = opNOP then Some v
     else None)"

section \<open>Control flow\<close>

definition jump_taken :: "byte \<Rightarrow> vm \<Rightarrow> (bool \<times> vm) option" where
  "jump_taken op v =
    (if op = opJMP \<or> op = opJMPL then Some (True, v)
     else if op = opJMPIF \<or> op = opJMPIFL \<or> op = opJMPIFNOT \<or> op = opJMPIFNOTL then do {
       (b, v) \<leftarrow> popBool v; Some (b = (op = opJMPIF \<or> op = opJMPIFL), v) }
     else do {
       (b, v) \<leftarrow> popInt v; (a, v) \<leftarrow> popInt v; cond \<leftarrow> getJumpCondition op a b; Some (cond, v) })"

definition execute_jump :: "byte \<Rightarrow> bytes \<Rightarrow> vm \<Rightarrow> vm option" where
  "execute_jump op param v = do {
     offset \<leftarrow> getJumpOffset v param;
     (cond, v) \<leftarrow> jump_taken op v;
     if cond then Jump offset v else Some v }"

definition execute_call :: "host \<Rightarrow> byte \<Rightarrow> bytes \<Rightarrow> vm \<Rightarrow> vm option" where
  "execute_call H op param v = do {
     c \<leftarrow> cur v;
     if op = opCALL \<or> op = opCALLL then do { offset \<leftarrow> getJumpOffset v param; call c offset v }
     else if op = opCALLA then do {
       (it, v) \<leftarrow> Pop v; sc \<leftarrow> script v c;
       case it of
         PointerItem pos hsh \<Rightarrow> if hsh \<noteq> ScriptHash H sc then None else call c pos v
       | _ \<Rightarrow> None }
     else do { load \<leftarrow> ho_LoadToken H; load (int (le_nat param)) v } }"

definition execute_try :: "byte \<Rightarrow> bytes \<Rightarrow> vm \<Rightarrow> vm option" where
  "execute_try op param v =
    (let (catchP, finallyP) = getTryParams op param in do {
       c \<leftarrow> cur v;
       if int (length (cx_tryStack c)) \<ge> MaxTryNestingDepth then None
       else do {
         cOffset \<leftarrow> getJumpOffset v catchP; fOffset \<leftarrow> getJumpOffset v finallyP;
         let ip = int (cx_ip c) in
         if cOffset = ip \<and> fOffset = ip then None
         else
           let (cOffset, fOffset) = (if cOffset = ip then (-1, fOffset) else if fOffset = ip then (cOffset, -1) else (cOffset, fOffset));
               e = \<lparr>eh_CatchOffset = cOffset, eh_FinallyOffset = fOffset, eh_EndOffset = -1, eh_State = ETry\<rparr>
           in Some (set_cur (c\<lparr>cx_tryStack := e # cx_tryStack c\<rparr>) v) } })"

definition execute_endtry :: "bytes \<Rightarrow> vm \<Rightarrow> vm option" where
  "execute_endtry param v = do {
     c \<leftarrow> cur v;
     case cx_tryStack c of
       [] \<Rightarrow> None
     | e # es \<Rightarrow>
         if eh_State e = EFinally then None
         else do {
           eOffset \<leftarrow> getJumpOffset v param;
           if HasFinally e then
             Jump (eh_FinallyOffset e)
               (set_cur (c\<lparr>cx_tryStack := e\<lparr>eh_State := EFinally, eh_EndOffset := eOffset\<rparr> # es\<rparr>) v)
           else Jump eOffset (set_cur (c\<lparr>cx_tryStack := es\<rparr>) v) } }"

definition execute_endfinally :: "host \<Rightarrow> vm \<Rightarrow> vm option" where
  "execute_endfinally H v =
    (if vm_uncaughtException v \<noteq> None then handleException H v
     else do {
       c \<leftarrow> cur v;
       case cx_tryStack c of
         [] \<Rightarrow> None
       | e # es \<Rightarrow> Jump (eh_EndOffset e) (set_cur (c\<lparr>cx_tryStack := es\<rparr>) v) })"

text \<open>The values a context returns, moved from its evaluation stack to the caller's.\<close>

fun move_results :: "nat \<Rightarrow> nat \<Rightarrow> nat \<Rightarrow> vm \<Rightarrow> vm option" where
  "move_results 0 old new v = Some v"
| "move_results (Suc n) old new v = do {
     (it, v) \<leftarrow> RemoveAt n (v\<lparr>vm_estack := old\<rparr>);
     move_results n old new (PushItem it (v\<lparr>vm_estack := new\<rparr>)) }"

definition execute_ret :: "host \<Rightarrow> vm \<Rightarrow> vm option" where
  "execute_ret H v = (case vm_istack v of
     [] \<Rightarrow> None
   | c # cs \<Rightarrow>
      (let oldEstack = vm_estack v in do {
         v \<leftarrow> unloadContext H c (v\<lparr>vm_istack := cs\<rparr>);
         if vm_istack v = [] then Some (v\<lparr>vm_state := Halt\<rparr>)
         else do {
           c' \<leftarrow> cur v; sc \<leftarrow> script v c';
           let newEstack = sc_estack sc in
           if oldEstack \<noteq> newEstack then
             let rvcount = length (estack (v\<lparr>vm_estack := oldEstack\<rparr>)) in
             if cx_retCount c \<ge> 0 \<and> int rvcount \<noteq> cx_retCount c then None
             else do { v \<leftarrow> move_results rvcount oldEstack newEstack v; Some (v\<lparr>vm_estack := newEstack\<rparr>) }
           else Some v } }))"

definition execute_control :: "host \<Rightarrow> byte \<Rightarrow> bytes \<Rightarrow> vm \<Rightarrow> vm option" where
  "execute_control H op param v =
    (if op \<le> opJMPLEL then execute_jump op param v
     else if op \<le> opCALLT then execute_call H op param v
     else if op = opABORT then None
     else if op = opASSERT then do { (b, v) \<leftarrow> popBool v; if b then Some v else None }
     else if op = opTHROW then do { (it, v) \<leftarrow> Pop v; throw H it v }
     else if op = opTRY \<or> op = opTRYL then execute_try op param v
     else if op = opENDTRY \<or> op = opENDTRYL then execute_endtry param v
     else if op = opENDFINALLY then execute_endfinally H v
     else if op = opRET then execute_ret H v
     else if op = opSYSCALL then do { handler \<leftarrow> ho_SyscallHandler H; handler (get_le param) v }
     else None)"

section \<open>Stack manipulation\<close>

definition execute_stack :: "byte \<Rightarrow> vm \<Rightarrow> vm option" where
  "execute_stack op v =
    (if op = opDEPTH then pushInt (int (length (estack v))) v
     else if op = opDROP then do { (_, v) \<leftarrow> Pop v; Some v }
     else if op = opNIP then do { (_, v) \<leftarrow> RemoveAt 1 v; Some v }
     else if op = opXDROP then do {
       (n, v) \<leftarrow> popInt32 v;
       if n < 0 then None else do { (_, v) \<leftarrow> RemoveAt (nat n) v; Some v } }
     else if op = opCLEAR then Some (Clear v)
     else if op = opDUP then do { it \<leftarrow> Peek 0 v; Some (PushItem it v) }
     else if op = opOVER then do { it \<leftarrow> Peek 1 v; Some (PushItem it v) }
     else if op = opPICK then do {
       (n, v) \<leftarrow> popInt32 v;
       if n < 0 then None else do { it \<leftarrow> Peek (nat n) v; Some (PushItem it v) } }
     else if op = opTUCK then
       (if length (estack v) < 2 then None else do { it \<leftarrow> Peek 0 v; InsertAt it 2 v })
     else if op = opSWAP then Swap 1 0 v
     else if op = opROT then Roll 2 v
     else if op = opROLL then do { (n, v) \<leftarrow> popInt32 v; Roll n v }
     else if op = opREVERSE3 then ReverseTop 3 v
     else if op = opREVERSE4 then ReverseTop 4 v
     else if op = opREVERSEN then do { (n, v) \<leftarrow> popInt32 v; ReverseTop n v }
     else None)"

section \<open>Slots\<close>

definition slot_index :: "byte \<Rightarrow> byte \<Rightarrow> bytes \<Rightarrow> nat" where
  "slot_index base op param = (if op < base + 7 then unat (op - base) else unat (hd param))"

text \<open>Popping the arguments of \<^verbatim>\<open>INITSLOT\<close> into their slot.\<close>

fun fill_arguments :: "nat \<Rightarrow> nat \<Rightarrow> slot \<Rightarrow> vm \<Rightarrow> (slot \<times> vm) option" where
  "fill_arguments i 0 s v = Some (s, v)"
| "fill_arguments i (Suc n) s v = do {
     (it, v) \<leftarrow> Pop v; (s, v) \<leftarrow> slot_set s i it v; fill_arguments (i + 1) n s v }"

definition execute_initslot :: "bytes \<Rightarrow> vm \<Rightarrow> vm option" where
  "execute_initslot param v = do {
     c \<leftarrow> cur v;
     if length param < 2 then None
     else let nloc = unat (param ! 0); narg = unat (param ! 1) in
       if cx_local c \<noteq> None \<or> cx_arguments c \<noteq> None then None
       else if nloc = 0 \<and> narg = 0 then None
       else do {
         (loc, v) \<leftarrow> (if nloc > 0 then slot_init None nloc v else Some (None, v));
         (args, v) \<leftarrow> (if narg > 0 then do { (s, v) \<leftarrow> slot_init None narg v; fill_arguments 0 narg s v } else Some (None, v));
         Some (set_cur (c\<lparr>cx_local := loc, cx_arguments := args\<rparr>) v) } }"

definition execute_slot :: "byte \<Rightarrow> bytes \<Rightarrow> vm \<Rightarrow> vm option" where
  "execute_slot op param v = do {
     c \<leftarrow> cur v; sc \<leftarrow> script v c;
     if op = opINITSSLOT then
       (if param = [] \<or> hd param = 0 then None
        else do {
          (s, v) \<leftarrow> slot_init (sc_static sc) (unat (hd param)) v;
          Some (set_script (cx_sc c) (sc\<lparr>sc_static := s\<rparr>) v) })
     else if op = opINITSLOT then execute_initslot param v
     else if op \<le> opLDSFLD then do { it \<leftarrow> slot_get (sc_static sc) (slot_index opLDSFLD0 op param); Some (PushItem it v) }
     else if op \<le> opSTSFLD then do {
       (it, v) \<leftarrow> Pop v;
       (s, v) \<leftarrow> slot_set (sc_static sc) (slot_index opSTSFLD0 op param) it v;
       Some (set_script (cx_sc c) (sc\<lparr>sc_static := s\<rparr>) v) }
     else if op \<le> opLDLOC then do { it \<leftarrow> slot_get (cx_local c) (slot_index opLDLOC0 op param); Some (PushItem it v) }
     else if op \<le> opSTLOC then do {
       (it, v) \<leftarrow> Pop v;
       (s, v) \<leftarrow> slot_set (cx_local c) (slot_index opSTLOC0 op param) it v;
       Some (set_cur (c\<lparr>cx_local := s\<rparr>) v) }
     else if op \<le> opLDARG then do { it \<leftarrow> slot_get (cx_arguments c) (slot_index opLDARG0 op param); Some (PushItem it v) }
     else do {
       (it, v) \<leftarrow> Pop v;
       (s, v) \<leftarrow> slot_set (cx_arguments c) (slot_index opSTARG0 op param) it v;
       Some (set_cur (c\<lparr>cx_arguments := s\<rparr>) v) } }"

section \<open>Byte strings\<close>

definition execute_splice :: "byte \<Rightarrow> vm \<Rightarrow> vm option" where
  "execute_splice op v =
    (if op = opNEWBUFFER then do {
       (n, v) \<leftarrow> popInt32 v;
       if n < 0 \<or> n > MaxSize then None else Some (pushNew BufferItem (Raw (replicate (nat n) 0)) v) }
     else if op = opMEMCPY then do {
       (n, v) \<leftarrow> popInt32 v;
       if n < 0 then None else do {
       (si, v) \<leftarrow> popInt32 v;
       if si < 0 then None else do {
       (src, v) \<leftarrow> popBytes v;
       if nat si + nat n > length src then None else do {
       (di, v) \<leftarrow> popInt32 v;
       if di < 0 then None else do {
       (it, v) \<leftarrow> Pop v;
       case it of
         BufferItem a \<Rightarrow> do {
           dst \<leftarrow> get_raw (vm_heap v) a;
           if nat di + nat n > length dst then None
           else Some (v\<lparr>vm_heap := set_value a (Raw (take (nat di) dst @ take (nat n) (drop (nat si) src) @
                  drop (nat di + nat n) dst)) (vm_heap v)\<rparr>) }
       | _ \<Rightarrow> None } } } } }
     else if op = opCAT then do {
       (b, v) \<leftarrow> popBytes v; (a, v) \<leftarrow> popBytes v;
       if int (length a + length b) > MaxSize then None else Some (pushNew BufferItem (Raw (a @ b)) v) }
     else if op = opSUBSTR then do {
       (l, v) \<leftarrow> popInt32 v;
       if l < 0 then None else do {
       (o', v) \<leftarrow> popInt32 v;
       if o' < 0 then None else do {
       (s, v) \<leftarrow> popBytes v;
       if nat l + nat o' > length s then None
       else Some (pushNew BufferItem (Raw (take (nat l) (drop (nat o') s))) v) } } }
     else if op = opLEFT then do {
       (l, v) \<leftarrow> popInt32 v;
       if l < 0 then None else do {
       (s, v) \<leftarrow> popBytes v;
       if nat l > length s then None else Some (pushNew BufferItem (Raw (take (nat l) s)) v) } }
     else if op = opRIGHT then do {
       (l, v) \<leftarrow> popInt32 v;
       if l < 0 then None else do {
       (s, v) \<leftarrow> popBytes v;
       if nat l > length s then None else Some (pushNew BufferItem (Raw (drop (length s - nat l) s)) v) } }
     else None)"

section \<open>Numbers\<close>

definition unInt :: "(int \<Rightarrow> int) \<Rightarrow> vm \<Rightarrow> vm option" where
  "unInt f v = do { (x, v) \<leftarrow> popInt v; pushInt (f x) v }"

text \<open>The second operand is on top of the stack.\<close>

definition binInt :: "(int \<Rightarrow> int \<Rightarrow> int) \<Rightarrow> vm \<Rightarrow> vm option" where
  "binInt f v = do { (b, v) \<leftarrow> popInt v; (a, v) \<leftarrow> popInt v; pushInt (f a b) v }"

definition cmpInt :: "(int \<Rightarrow> int \<Rightarrow> bool) \<Rightarrow> vm \<Rightarrow> vm option" where
  "cmpInt f v = do { (b, v) \<leftarrow> popInt v; (a, v) \<leftarrow> popInt v; Some (PushItem (BoolItem (f a b)) v) }"

text \<open>\<^verbatim>\<open>LT\<close>, \<^verbatim>\<open>LE\<close>, \<^verbatim>\<open>GT\<close>, \<^verbatim>\<open>GE\<close>: false when an operand is null.\<close>

definition cmpNull :: "(int \<Rightarrow> int \<Rightarrow> bool) \<Rightarrow> vm \<Rightarrow> vm option" where
  "cmpNull f v = do {
     (eb, v) \<leftarrow> Pop v; (ea, v) \<leftarrow> Pop v;
     if ea = Null \<or> eb = Null then Some (PushItem (BoolItem False) v)
     else do { a \<leftarrow> TryInteger ea; b \<leftarrow> TryInteger eb; Some (PushItem (BoolItem (f a b)) v) } }"

text \<open>\<^verbatim>\<open>big.Int.Sqrt\<close> and \<^verbatim>\<open>big.Int.ModInverse\<close>.\<close>

fun isqrt :: "nat \<Rightarrow> nat" where
  "isqrt n = (if n = 0 then 0 else let r = 2 * isqrt (n div 4) in if (r + 1) * (r + 1) \<le> n then r + 1 else r)"

function egcd :: "int \<Rightarrow> int \<Rightarrow> int \<times> int \<times> int" where
  "egcd a b = (if b = 0 then (a, 1, 0) else let (g, x, y) = egcd b (a mod b) in (g, y, x - a div b * y))"
  by pat_completeness auto

termination egcd
  by (relation "measure (\<lambda>(a, b). nat \<bar>b\<bar>)") (auto simp: abs_mod_less)

declare isqrt.simps [simp del] egcd.simps [simp del]

definition ModInverse :: "int \<Rightarrow> int \<Rightarrow> int option" where
  "ModInverse g n = (case egcd g n of (d, x, y) \<Rightarrow> if d = 1 then Some (x mod n) else None)"

definition modPow :: "int \<Rightarrow> int \<Rightarrow> int \<Rightarrow> int option" where
  "modPow base exponent modulus =
    (if exponent < -1 then None
     else if exponent = -1 then
       (if base \<le> 0 \<or> modulus < 2 then None else ModInverse base modulus)
     else if modulus = 0 then None
     else Some (base ^ nat exponent mod \<bar>modulus\<bar>))"

definition execute_bitwise :: "byte \<Rightarrow> vm \<Rightarrow> vm option" where
  "execute_bitwise op v =
    (if op = opINVERT then unInt (\<lambda>x. NOT x) v
     else if op = opAND then binInt (\<lambda>a b. b AND a) v
     else if op = opOR then binInt (\<lambda>a b. b OR a) v
     else if op = opXOR then binInt (\<lambda>a b. b XOR a) v
     else if op = opEQUAL \<or> op = opNOTEQUAL then do {
       (b, v) \<leftarrow> Pop v; (a, v) \<leftarrow> Pop v;
       e \<leftarrow> Equals (vm_heap v) a b;
       Some (PushItem (BoolItem (e = (op = opEQUAL))) v) }
     else None)"

definition execute_arith :: "byte \<Rightarrow> vm \<Rightarrow> vm option" where
  "execute_arith op v =
    (if op = opSIGN then unInt sgn v
     else if op = opABS then unInt abs v
     else if op = opNEGATE then unInt uminus v
     else if op = opINC then unInt (\<lambda>x. x + 1) v
     else if op = opDEC then unInt (\<lambda>x. x - 1) v
     else if op = opADD then binInt (\<lambda>a b. b + a) v
     else if op = opSUB then binInt (\<lambda>a b. a - b) v
     else if op = opMUL then binInt (\<lambda>a b. b * a) v
     else if op = opDIV then do {
       (b, v) \<leftarrow> popInt v; (a, v) \<leftarrow> popInt v; if b = 0 then None else pushInt (a sdiv b) v }
     else if op = opMOD then do {
       (b, v) \<leftarrow> popInt v; (a, v) \<leftarrow> popInt v; if b = 0 then None else pushInt (a smod b) v }
     else if op = opPOW then do {
       (e, v) \<leftarrow> popInt v; (a, v) \<leftarrow> popInt v;
       if e < 0 \<or> e > maxSHLArg then None else pushInt (a ^ nat e) v }
     else if op = opSQRT then do {
       (a, v) \<leftarrow> popInt v; if a < 0 then None else pushInt (int (isqrt (nat a))) v }
     else if op = opMODMUL then do {
       (m, v) \<leftarrow> popInt v;
       if m = 0 then None else do {
       (x2, v) \<leftarrow> popInt v; (x1, v) \<leftarrow> popInt v; pushInt ((x1 * x2) mod \<bar>m\<bar>) v } }
     else if op = opMODPOW then do {
       (m, v) \<leftarrow> popInt v; (e, v) \<leftarrow> popInt v; (b, v) \<leftarrow> popInt v;
       r \<leftarrow> modPow b e m; pushInt r v }
     else if op = opSHL \<or> op = opSHR then do {
       (b, v) \<leftarrow> popInt32 v;
       if b = 0 then Some v
       else if b < 0 \<or> b > maxSHLArg then None
       else do {
         (a, v) \<leftarrow> popInt v;
         pushInt (if op = opSHL then a * 2 ^ nat b else a div 2 ^ nat b) v } }
     else None)"

definition execute_compare :: "byte \<Rightarrow> vm \<Rightarrow> vm option" where
  "execute_compare op v =
    (if op = opNOT then do { (x, v) \<leftarrow> popBool v; Some (PushItem (BoolItem (\<not> x)) v) }
     else if op = opBOOLAND then do { (b, v) \<leftarrow> popBool v; (a, v) \<leftarrow> popBool v; Some (PushItem (BoolItem (a \<and> b)) v) }
     else if op = opBOOLOR then do { (b, v) \<leftarrow> popBool v; (a, v) \<leftarrow> popBool v; Some (PushItem (BoolItem (a \<or> b)) v) }
     else if op = opNZ then do { (x, v) \<leftarrow> popInt v; Some (PushItem (BoolItem (x \<noteq> 0)) v) }
     else if op = opNUMEQUAL then cmpInt (\<lambda>a b. a = b) v
     else if op = opNUMNOTEQUAL then cmpInt (\<lambda>a b. a \<noteq> b) v
     else if op = opLT then cmpNull (\<lambda>a b. a < b) v
     else if op = opLE then cmpNull (\<lambda>a b. a \<le> b) v
     else if op = opGT then cmpNull (\<lambda>a b. a > b) v
     else if op = opGE then cmpNull (\<lambda>a b. a \<ge> b) v
     else if op = opMIN then binInt (\<lambda>a b. if a > b then b else a) v
     else if op = opMAX then binInt (\<lambda>a b. if a < b then b else a) v
     else if op = opWITHIN then do {
       (b, v) \<leftarrow> popInt v; (a, v) \<leftarrow> popInt v; (x, v) \<leftarrow> popInt v;
       Some (PushItem (BoolItem (a \<le> x \<and> x < b)) v) }
     else None)"

section \<open>Collections\<close>

definition makeArrayOfType :: "nat \<Rightarrow> byte \<Rightarrow> stackitem list option" where
  "makeArrayOfType n typ =
    (if \<not> Type_IsValid typ then None
     else Some (replicate n (if typ = BooleanT then BoolItem False
       else if typ = IntegerT then BigInteger 0
       else if typ = ByteArrayT then ByteArray [] else Null)))"

fun pop_n :: "nat \<Rightarrow> vm \<Rightarrow> (stackitem list \<times> vm) option" where
  "pop_n 0 v = Some ([], v)"
| "pop_n (Suc n) v = do { (it, v) \<leftarrow> Pop v; (its, v) \<leftarrow> pop_n n v; Some (it # its, v) }"

fun pop_pairs :: "nat \<Rightarrow> vm \<Rightarrow> ((stackitem \<times> stackitem) list \<times> vm) option" where
  "pop_pairs 0 v = Some ([], v)"
| "pop_pairs (Suc n) v = do {
     (key, v) \<leftarrow> Pop v;
     if \<not> IsValidMapKey key then None
     else do { (val, v) \<leftarrow> Pop v; (ps, v) \<leftarrow> pop_pairs n v; Some ((key, val) # ps, v) } }"

definition execute_create :: "byte \<Rightarrow> bytes \<Rightarrow> vm \<Rightarrow> vm option" where
  "execute_create op param v =
    (if op = opPACKMAP then do {
       (n, v) \<leftarrow> popInt32 v;
       if n < 0 \<or> 2 * nat n > length (estack v) then None
       else do { (ps, v) \<leftarrow> pop_pairs (nat n) v; Some (pushNew MapItem (Pairs ps) v) } }
     else if op = opPACKSTRUCT \<or> op = opPACK then do {
       (n, v) \<leftarrow> popInt32 v;
       if n < 0 \<or> nat n > length (estack v) then None
       else do {
         (its, v) \<leftarrow> pop_n (nat n) v;
         Some (pushNew (if op = opPACK then ArrayItem else StructItem) (Elems its) v) } }
     else if op = opNEWARRAY0 then Some (pushNew ArrayItem (Elems []) v)
     else if op = opNEWARRAY \<or> op = opNEWARRAYT \<or> op = opNEWSTRUCT then do {
       (n, v) \<leftarrow> popInt32 v;
       if n < 0 \<or> n > MaxStackSize then None
       else do {
         its \<leftarrow> makeArrayOfType (nat n) (if op = opNEWARRAYT then hd param else AnyT);
         Some (pushNew (if op = opNEWSTRUCT then StructItem else ArrayItem) (Elems its) v) } }
     else if op = opNEWSTRUCT0 then Some (pushNew StructItem (Elems []) v)
     else if op = opNEWMAP then Some (pushNew MapItem (Pairs []) v)
     else None)"

definition push_all :: "stackitem list \<Rightarrow> vm \<Rightarrow> vm" where
  "push_all its v = fold PushItem its v"

definition execute_unpack :: "vm \<Rightarrow> vm option" where
  "execute_unpack v = do {
     (e, v) \<leftarrow> Pop v;
     case e of
       ArrayItem a \<Rightarrow> do { xs \<leftarrow> get_elems (vm_heap v) a; pushInt (int (length xs)) (push_all (rev xs) v) }
     | StructItem a \<Rightarrow> do { xs \<leftarrow> get_elems (vm_heap v) a; pushInt (int (length xs)) (push_all (rev xs) v) }
     | MapItem a \<Rightarrow> do {
         ps \<leftarrow> get_pairs (vm_heap v) a;
         pushInt (int (length ps)) (push_all (concat (map (\<lambda>(k, x). [x, k]) (rev ps))) v) }
     | _ \<Rightarrow> None }"

text \<open>The message of the exception for an index out of range.\<close>

fun show_nat :: "nat \<Rightarrow> string" where
  "show_nat n = (if n < 10 then [char_of (48 + n)] else show_nat (n div 10) @ [char_of (48 + n mod 10)])"

declare show_nat.simps [simp del]

definition show_int :: "int \<Rightarrow> string" where
  "show_int i = (if i < 0 then ''-'' @ show_nat (nat (- i)) else show_nat (nat i))"

definition string_bytes :: "string \<Rightarrow> bytes" where
  "string_bytes s = map (\<lambda>c. of_char c) s"

definition out_of_range :: "int \<Rightarrow> stackitem" where
  "out_of_range i = ByteArray (string_bytes (''The value '' @ show_int i @ '' is out of range.''))"

definition key_index :: "stackitem \<Rightarrow> int option" where
  "key_index key = do { i \<leftarrow> TryInteger key; toInt i }"

definition pick_elem :: "host \<Rightarrow> stackitem \<Rightarrow> stackitem list \<Rightarrow> vm \<Rightarrow> vm option" where
  "pick_elem H key xs v = do {
     index \<leftarrow> key_index key;
     if index < 0 \<or> index \<ge> int (length xs) then throw H (out_of_range index) v
     else Some (PushItem (xs ! nat index) v) }"

definition execute_pickitem :: "host \<Rightarrow> vm \<Rightarrow> vm option" where
  "execute_pickitem H v = do {
     (key, v) \<leftarrow> Pop v;
     if \<not> IsValidMapKey key then None else do {
     (ob, v) \<leftarrow> Pop v;
     case ob of
       ArrayItem a \<Rightarrow> do { xs \<leftarrow> get_elems (vm_heap v) a; pick_elem H key xs v }
     | StructItem a \<Rightarrow> do { xs \<leftarrow> get_elems (vm_heap v) a; pick_elem H key xs v }
     | MapItem a \<Rightarrow> do {
         ps \<leftarrow> get_pairs (vm_heap v) a; r \<leftarrow> Map_Index ps key;
         case r of
           None \<Rightarrow> throw H (ByteArray (string_bytes ''Key not found in Map'')) v
         | Some i \<Rightarrow> Some (PushItem (snd (ps ! i)) v) }
     | _ \<Rightarrow> do {
         arr \<leftarrow> TryBytes (vm_heap v) ob;
         pick_elem H key (map (\<lambda>b. BigInteger (int (unat b))) arr) v } } }"

definition set_elem :: "host \<Rightarrow> addr \<Rightarrow> stackitem \<Rightarrow> stackitem \<Rightarrow> vm \<Rightarrow> vm option" where
  "set_elem H a key it v = do {
     xs \<leftarrow> get_elems (vm_heap v) a;
     index \<leftarrow> key_index key;
     if index < 0 \<or> index \<ge> int (length xs) then throw H (out_of_range index) v
     else if IsReadOnly (vm_heap v) a then None
     else
       let v = count_out [xs ! nat index] v;
           v = v\<lparr>vm_heap := set_value a (Elems (xs[nat index := it])) (vm_heap v)\<rparr>
       in Some (count_in [it] v) }"

definition set_pair :: "addr \<Rightarrow> stackitem \<Rightarrow> stackitem \<Rightarrow> vm \<Rightarrow> vm option" where
  "set_pair a key it v = do {
     ps \<leftarrow> get_pairs (vm_heap v) a;
     if IsReadOnly (vm_heap v) a then None else do {
     r \<leftarrow> Map_Index ps key;
     let v = (case r of Some i \<Rightarrow> count_out [snd (ps ! i)] v | None \<Rightarrow> count_in [key] v) in do {
     ps' \<leftarrow> Map_Add key it ps;
     Some (count_in [it] (v\<lparr>vm_heap := set_value a (Pairs ps') (vm_heap v)\<rparr>)) } } }"

definition set_byte :: "host \<Rightarrow> addr \<Rightarrow> stackitem \<Rightarrow> stackitem \<Rightarrow> vm \<Rightarrow> vm option" where
  "set_byte H a key it v = do {
     bs \<leftarrow> get_raw (vm_heap v) a;
     index \<leftarrow> key_index key;
     if index < 0 \<or> index \<ge> int (length bs) then throw H (out_of_range index) v
     else do {
       i \<leftarrow> TryInteger it; b \<leftarrow> toInt i;
       if b < -128 \<or> b > 255 then None
       else Some (v\<lparr>vm_heap := set_value a (Raw (bs[nat index := word_of_int b])) (vm_heap v)\<rparr>) } }"

definition execute_setitem :: "host \<Rightarrow> vm \<Rightarrow> vm option" where
  "execute_setitem H v = do {
     (it, v) \<leftarrow> Pop v; (key, v) \<leftarrow> Pop v;
     if \<not> IsValidMapKey key then None else do {
     (ob, v) \<leftarrow> Pop v;
     case ob of
       ArrayItem a \<Rightarrow> set_elem H a key it v
     | StructItem a \<Rightarrow> set_elem H a key it v
     | MapItem a \<Rightarrow> set_pair a key it v
     | BufferItem a \<Rightarrow> set_byte H a key it v
     | _ \<Rightarrow> None } }"

definition append_elem :: "addr \<Rightarrow> stackitem \<Rightarrow> vm \<Rightarrow> vm option" where
  "append_elem a it v = do {
     (val, h) \<leftarrow> cloneIfStruct it (vm_heap v);
     xs \<leftarrow> get_elems h a;
     if IsReadOnly h a then None
     else Some (count_in [val] (v\<lparr>vm_heap := set_value a (Elems (xs @ [val])) h\<rparr>)) }"

definition execute_append :: "vm \<Rightarrow> vm option" where
  "execute_append v = do {
     (it, v) \<leftarrow> Pop v; (arr, v) \<leftarrow> Pop v;
     case arr of ArrayItem a \<Rightarrow> append_elem a it v | StructItem a \<Rightarrow> append_elem a it v | _ \<Rightarrow> None }"

definition reverse_elems :: "addr \<Rightarrow> vm \<Rightarrow> vm option" where
  "reverse_elems a v = do {
     xs \<leftarrow> get_elems (vm_heap v) a;
     if IsReadOnly (vm_heap v) a then None
     else Some (v\<lparr>vm_heap := set_value a (Elems (rev xs)) (vm_heap v)\<rparr>) }"

definition execute_reverseitems :: "vm \<Rightarrow> vm option" where
  "execute_reverseitems v = do {
     (it, v) \<leftarrow> Pop v;
     case it of
       ArrayItem a \<Rightarrow> reverse_elems a v
     | StructItem a \<Rightarrow> reverse_elems a v
     | BufferItem a \<Rightarrow> do {
         bs \<leftarrow> get_raw (vm_heap v) a;
         Some (v\<lparr>vm_heap := set_value a (Raw (rev bs)) (vm_heap v)\<rparr>) }
     | _ \<Rightarrow> None }"

definition remove_elem :: "addr \<Rightarrow> stackitem \<Rightarrow> vm \<Rightarrow> vm option" where
  "remove_elem a key v = do {
     xs \<leftarrow> get_elems (vm_heap v) a;
     k \<leftarrow> key_index key;
     if k < 0 \<or> k \<ge> int (length xs) then None
     else if IsReadOnly (vm_heap v) a then None
     else Some (count_out [xs ! nat k]
       (v\<lparr>vm_heap := set_value a (Elems (take (nat k) xs @ drop (nat k + 1) xs)) (vm_heap v)\<rparr>)) }"

definition remove_pair :: "addr \<Rightarrow> stackitem \<Rightarrow> vm \<Rightarrow> vm option" where
  "remove_pair a key v = do {
     ps \<leftarrow> get_pairs (vm_heap v) a;
     r \<leftarrow> Map_Index ps key;
     case r of
       None \<Rightarrow> Some v
     | Some i \<Rightarrow>
         if IsReadOnly (vm_heap v) a then None
         else Some (count_out [fst (ps ! i), snd (ps ! i)]
           (v\<lparr>vm_heap := set_value a (Pairs (take i ps @ drop (i + 1) ps)) (vm_heap v)\<rparr>)) }"

definition execute_remove :: "vm \<Rightarrow> vm option" where
  "execute_remove v = do {
     (key, v) \<leftarrow> Pop v;
     if \<not> IsValidMapKey key then None else do {
     (ob, v) \<leftarrow> Pop v;
     case ob of
       ArrayItem a \<Rightarrow> remove_elem a key v
     | StructItem a \<Rightarrow> remove_elem a key v
     | MapItem a \<Rightarrow> remove_pair a key v
     | _ \<Rightarrow> None } }"

definition clear_items :: "stackitem \<Rightarrow> addr \<Rightarrow> content \<Rightarrow> vm \<Rightarrow> vm option" where
  "clear_items ob a c v =
    (if IsReadOnly (vm_heap v) a then None
     else let v = count_out (children (vm_heap v) ob) v in
       Some (v\<lparr>vm_heap := set_value a c (vm_heap v)\<rparr>))"

definition execute_clearitems :: "vm \<Rightarrow> vm option" where
  "execute_clearitems v = do {
     (ob, v) \<leftarrow> Pop v;
     case ob of
       ArrayItem a \<Rightarrow> clear_items ob a (Elems []) v
     | StructItem a \<Rightarrow> clear_items ob a (Elems []) v
     | MapItem a \<Rightarrow> clear_items ob a (Pairs []) v
     | _ \<Rightarrow> None }"

definition pop_elem :: "addr \<Rightarrow> vm \<Rightarrow> vm option" where
  "pop_elem a v = do {
     xs \<leftarrow> get_elems (vm_heap v) a;
     if xs = [] then None
     else
       let v = PushItem (last xs) v in
       if IsReadOnly (vm_heap v) a then None
       else Some (count_out [last xs] (v\<lparr>vm_heap := set_value a (Elems (butlast xs)) (vm_heap v)\<rparr>)) }"

definition execute_popitem :: "vm \<Rightarrow> vm option" where
  "execute_popitem v = do {
     (arr, v) \<leftarrow> Pop v;
     case arr of ArrayItem a \<Rightarrow> pop_elem a v | StructItem a \<Rightarrow> pop_elem a v | _ \<Rightarrow> None }"

definition execute_size :: "vm \<Rightarrow> vm option" where
  "execute_size v = do {
     (e, v) \<leftarrow> Pop v;
     n \<leftarrow> (case e of
        ArrayItem a \<Rightarrow> map_option length (get_elems (vm_heap v) a)
      | StructItem a \<Rightarrow> map_option length (get_elems (vm_heap v) a)
      | MapItem a \<Rightarrow> map_option length (get_pairs (vm_heap v) a)
      | _ \<Rightarrow> map_option length (TryBytes (vm_heap v) e));
     pushInt (int n) v }"

definition execute_keys :: "vm \<Rightarrow> vm option" where
  "execute_keys v = do {
     (e, v) \<leftarrow> Pop v;
     case e of
       MapItem a \<Rightarrow> do { ps \<leftarrow> get_pairs (vm_heap v) a; Some (pushNew ArrayItem (Elems (map fst ps)) v) }
     | _ \<Rightarrow> None }"

fun clone_all :: "stackitem list \<Rightarrow> heap \<Rightarrow> (stackitem list \<times> heap) option" where
  "clone_all [] h = Some ([], h)"
| "clone_all (it # its) h = do {
     (it', h) \<leftarrow> cloneIfStruct it h; (its', h) \<leftarrow> clone_all its h; Some (it' # its', h) }"

definition push_values :: "stackitem list \<Rightarrow> vm \<Rightarrow> vm option" where
  "push_values its v = do {
     (its', h) \<leftarrow> clone_all its (vm_heap v);
     Some (pushNew ArrayItem (Elems its') (v\<lparr>vm_heap := h\<rparr>)) }"

definition execute_values :: "vm \<Rightarrow> vm option" where
  "execute_values v = do {
     (e, v) \<leftarrow> Pop v;
     case e of
       ArrayItem a \<Rightarrow> do { xs \<leftarrow> get_elems (vm_heap v) a; push_values xs v }
     | StructItem a \<Rightarrow> do { xs \<leftarrow> get_elems (vm_heap v) a; push_values xs v }
     | MapItem a \<Rightarrow> do { ps \<leftarrow> get_pairs (vm_heap v) a; push_values (map snd ps) v }
     | _ \<Rightarrow> None }"

definition has_index :: "stackitem \<Rightarrow> nat \<Rightarrow> bool option" where
  "has_index key n = do { i \<leftarrow> key_index key; if i < 0 then None else Some (nat i < n) }"

definition execute_haskey :: "vm \<Rightarrow> vm option" where
  "execute_haskey v = do {
     (key, v) \<leftarrow> Pop v;
     if \<not> IsValidMapKey key then None else do {
     (c, v) \<leftarrow> Pop v;
     res \<leftarrow> (case c of
        ArrayItem a \<Rightarrow> do { xs \<leftarrow> get_elems (vm_heap v) a; has_index key (length xs) }
      | StructItem a \<Rightarrow> do { xs \<leftarrow> get_elems (vm_heap v) a; has_index key (length xs) }
      | MapItem a \<Rightarrow> do { ps \<leftarrow> get_pairs (vm_heap v) a; r \<leftarrow> Map_Index ps key; Some (r \<noteq> None) }
      | BufferItem a \<Rightarrow> do { bs \<leftarrow> get_raw (vm_heap v) a; has_index key (length bs) }
      | ByteArray bs \<Rightarrow> has_index key (length bs)
      | _ \<Rightarrow> None);
     Some (PushItem (BoolItem res) v) } }"

definition execute_collection :: "host \<Rightarrow> byte \<Rightarrow> vm \<Rightarrow> vm option" where
  "execute_collection H op v =
    (if op = opUNPACK then execute_unpack v
     else if op = opSIZE then execute_size v
     else if op = opHASKEY then execute_haskey v
     else if op = opKEYS then execute_keys v
     else if op = opVALUES then execute_values v
     else if op = opPICKITEM then execute_pickitem H v
     else if op = opAPPEND then execute_append v
     else if op = opSETITEM then execute_setitem H v
     else if op = opREVERSEITEMS then execute_reverseitems v
     else if op = opREMOVE then execute_remove v
     else if op = opCLEARITEMS then execute_clearitems v
     else if op = opPOPITEM then execute_popitem v
     else None)"

section \<open>Types and messages\<close>

definition execute_type :: "byte \<Rightarrow> bytes \<Rightarrow> vm \<Rightarrow> vm option" where
  "execute_type op param v =
    (if op = opISNULL then do { (it, v) \<leftarrow> Pop v; Some (PushItem (BoolItem (it = Null)) v) }
     else if op = opISTYPE then do { (it, v) \<leftarrow> Pop v; Some (PushItem (BoolItem (item_type it = hd param)) v) }
     else if op = opCONVERT then do {
       (it, v) \<leftarrow> Pop v;
       (it', h) \<leftarrow> Convert it (hd param) (vm_heap v);
       Some (PushItem it' (v\<lparr>vm_heap := h\<rparr>)) }
     else if op = opABORTMSG then None
     else if op = opASSERTMSG then do {
       (msg, v) \<leftarrow> popBytes v; (b, v) \<leftarrow> popBool v; if b then Some v else None }
     else None)"

section \<open>The instruction cycle\<close>

definition execute_op :: "host \<Rightarrow> byte \<Rightarrow> bytes \<Rightarrow> vm \<Rightarrow> vm option" where
  "execute_op H op param v =
    (if op \<le> opPUSHINT256 then pushInt (FromBytes param) v
     else if op \<le> opNOP then execute_push H op param v
     else if op \<le> opSYSCALL then execute_control H op param v
     else if op \<le> opREVERSEN then execute_stack op v
     else if op \<le> opSTARG then execute_slot op param v
     else if op \<le> opRIGHT then execute_splice op v
     else if op \<le> opNOTEQUAL then execute_bitwise op v
     else if op \<le> opSHR then execute_arith op v
     else if op \<le> opWITHIN then execute_compare op v
     else if op \<in> {opPACKMAP, opPACKSTRUCT, opPACK, opNEWARRAY0, opNEWARRAY, opNEWARRAYT, opNEWSTRUCT0, opNEWSTRUCT, opNEWMAP}
       then execute_create op param v
     else if op \<le> opPOPITEM then execute_collection H op v
     else execute_type op param v)"

text \<open>The price of an instruction; the \<^verbatim>\<open>RET\<close> at the end of a script is free.\<close>

definition priced :: "host \<Rightarrow> vm \<Rightarrow> bool" where
  "priced H v = (ho_getPrice H \<noteq> None \<and> (case cur v of
     None \<Rightarrow> False
   | Some c \<Rightarrow> (case script v c of None \<Rightarrow> False | Some sc \<Rightarrow> cx_ip c < length (sc_prog sc))))"

definition charge :: "host \<Rightarrow> byte \<Rightarrow> bytes \<Rightarrow> vm \<Rightarrow> vm" where
  "charge H op param v = (case ho_getPrice H of
     None \<Rightarrow> v
   | Some price \<Rightarrow> if priced H v then v\<lparr>vm_gasConsumed := vm_gasConsumed v + price op param\<rparr> else v)"

definition out_of_gas :: "host \<Rightarrow> vm \<Rightarrow> bool" where
  "out_of_gas H v \<longleftrightarrow> priced H v \<and> sint (vm_GasLimit v) \<ge> 0 \<and> sint (vm_gasConsumed v) > sint (vm_GasLimit v)"

definition execute :: "host \<Rightarrow> byte \<Rightarrow> bytes \<Rightarrow> vm \<Rightarrow> vm" where
  "execute H op param v =
    (let v = charge H op param v in
     if out_of_gas H v then v\<lparr>vm_state := Fault\<rparr>
     else case execute_op H op param v of
       None \<Rightarrow> v\<lparr>vm_state := Fault\<rparr>
     | Some v \<Rightarrow> if vm_refs v > MaxStackSize then v\<lparr>vm_state := Fault\<rparr> else v)"

definition step :: "host \<Rightarrow> vm \<Rightarrow> vm" where
  "step H v = (case Next v of
     None \<Rightarrow> v\<lparr>vm_state := Fault\<rparr>
   | Some (op, param, v) \<Rightarrow> execute H op param v)"

definition atBreakPoint :: "vm \<Rightarrow> bool" where
  "atBreakPoint v = (case cur v of
     None \<Rightarrow> False
   | Some c \<Rightarrow> (case script v c of None \<Rightarrow> False | Some sc \<Rightarrow> cx_nextip c \<in> set (sc_breakPoints sc)))"

text \<open>The loop of \<^verbatim>\<open>Run\<close>; \<open>None\<close> when the fuel does not suffice.\<close>

fun run_loop :: "host \<Rightarrow> nat \<Rightarrow> vm \<Rightarrow> vm option" where
  "run_loop H 0 v = None"
| "run_loop H (Suc n) v =
    (if vm_state v \<noteq> NoneState then Some v
     else let v = step H v in
       if vm_state v = Fault then Some v
       else run_loop H n (if atBreakPoint v then v\<lparr>vm_state := Break\<rparr> else v))"

definition Run :: "host \<Rightarrow> nat \<Rightarrow> vm \<Rightarrow> vm option" where
  "Run H fuel v =
    (if vm_istack v = [] then Some (v\<lparr>vm_state := Fault\<rparr>)
     else if vm_state v = Fault then Some v
     else run_loop H fuel (v\<lparr>vm_state := NoneState\<rparr>))"

end
