(* ===== verification/Vm_Frame.thy ===== *)
theory Vm_Frame
  imports Vm_Exec
begin

text \<open>
  What the instructions leave alone. A locale fixes a view of the machine that the operations on
  the stacks, slots and the reference counter do not change; an extension of it adds the
  operations on contexts. The views used are the contexts with their scripts, and the gas meter.
\<close>

lemma call_ops: "op \<le> opCALLT \<Longrightarrow> \<not> op \<le> opJMPLEL \<Longrightarrow> op \<noteq> opCALLT \<Longrightarrow> op \<in> {opCALL, opCALLL, opCALLA}"
  for op :: byte
  by (simp add: word_le_nat_alt word_unat_eq_iff) presburger

section \<open>The operations on data\<close>

locale data_frame =
  fixes view :: "vm \<Rightarrow> 'a"
  assumes view_heap: "view (v\<lparr>vm_heap := h\<rparr>) = view v"
    and view_refs: "view (v\<lparr>vm_refs := r\<rparr>) = view v"
    and view_stacks: "view (v\<lparr>vm_stacks := ss\<rparr>) = view v"
    and view_estack: "view (v\<lparr>vm_estack := e\<rparr>) = view v"
    and view_exception: "view (v\<lparr>vm_uncaughtException := x\<rparr>) = view v"
begin

lemmas view_updates = view_heap view_refs view_stacks view_estack view_exception

lemma view_count: "view (count_in its v) = view v" "view (count_out its v) = view v"
  by (simp_all add: count_in_def count_out_def view_updates split: prod.split)

lemma view_push: "view (PushItem it v) = view v" "view (set_estack xs v) = view v" "view (pushNew mk c v) = view v"
  "view (Clear v) = view v"
  by (simp_all add: PushItem_def set_estack_def pushNew_def Clear_def view_count view_updates split: prod.split)

lemma view_count_out_opt: "view (count_out_opt x v) = view v"
  by (simp add: count_out_opt_def view_count view_updates split: option.split)

lemma view_ClearRefs: "view (ClearRefs s v) = view v"
proof -
  have "view (fold count_out_opt xs v) = view v" for xs
    by (induction xs arbitrary: v) (simp_all add: view_count_out_opt)
  then show ?thesis by (simp add: ClearRefs_def split: option.split)
qed

lemmas view_simps = view_updates view_count view_push view_count_out_opt view_ClearRefs

lemma view_Pop: "Pop v = Some (it, v') \<Longrightarrow> view v' = view v"
  by (auto simp: Pop_def view_simps split: list.splits)

lemma view_RemoveAt: "RemoveAt n v = Some (it, v') \<Longrightarrow> view v' = view v"
  by (auto simp: RemoveAt_def view_simps split: if_splits)

lemma view_pops:
  "popInt v = Some (i, v') \<Longrightarrow> view v' = view v" "popBool v = Some (b, v') \<Longrightarrow> view v' = view v"
  "popBytes v = Some (bs, v') \<Longrightarrow> view v' = view v" "popInt32 v = Some (i, v') \<Longrightarrow> view v' = view v"
  by (auto simp: popInt_def popBool_def popBytes_def popInt32_def view_Pop split: Option.bind_splits prod.splits)

lemma view_pushInt: "pushInt i v = Some v' \<Longrightarrow> view v' = view v"
  by (auto simp: pushInt_def view_simps split: Option.bind_splits)

lemma view_InsertAt: "InsertAt it n v = Some v' \<Longrightarrow> view v' = view v"
  by (auto simp: InsertAt_def view_simps split: if_splits)

lemma view_rearrange:
  "Swap n m v = Some v' \<Longrightarrow> view v' = view v" "ReverseTop k v = Some v' \<Longrightarrow> view v' = view v"
  "Roll k v = Some v' \<Longrightarrow> view v' = view v"
  by (auto simp: Swap_def ReverseTop_def Roll_def view_simps split: if_splits)

lemma view_slot_set: "slot_set s i it v = Some (s', v') \<Longrightarrow> view v' = view v"
  by (auto simp: slot_set_def view_simps split: option.splits if_splits)

lemma view_slot_init: "slot_init s n v = Some (s', v') \<Longrightarrow> view v' = view v"
  by (auto simp: slot_init_def view_simps split: option.splits)

lemma view_move_results: "move_results n old new v = Some v' \<Longrightarrow> view v' = view v"
  by (induction n arbitrary: v) (auto dest!: view_RemoveAt simp: view_simps split: Option.bind_splits)

lemma view_fill_arguments: "fill_arguments i n s v = Some (s', v') \<Longrightarrow> view v' = view v"
  by (induction n arbitrary: i s v) (auto dest!: view_Pop view_slot_set split: Option.bind_splits)

lemma view_pop_n: "pop_n n v = Some (its, v') \<Longrightarrow> view v' = view v"
  by (induction n arbitrary: v its) (auto dest!: view_Pop split: Option.bind_splits)

lemma view_pop_pairs: "pop_pairs n v = Some (ps, v') \<Longrightarrow> view v' = view v"
  by (induction n arbitrary: v ps) (auto dest!: view_Pop split: Option.bind_splits if_splits)

lemma view_push_all: "view (push_all its v) = view v"
  by (induction its arbitrary: v) (auto simp: push_all_def view_simps)

lemma view_runDynamicOnUnload: "runDynamicOnUnload c b v = Some v' \<Longrightarrow> view v' = view v"
  by (auto simp: runDynamicOnUnload_def Let_def view_simps split: if_splits Option.bind_splits)

lemmas view_dests = view_Pop view_RemoveAt view_pops view_pushInt view_InsertAt view_rearrange view_slot_set
  view_slot_init view_move_results view_fill_arguments view_pop_n view_pop_pairs

section \<open>The instructions on data\<close>

lemma view_execute_push: "execute_push H op param v = Some v' \<Longrightarrow> view v' = view v"
  by (auto simp: execute_push_def view_simps dest!: view_pushInt split: if_splits Option.bind_splits)

lemma view_jump_taken: "jump_taken op v = Some (b, v') \<Longrightarrow> view v' = view v"
  by (auto simp: jump_taken_def dest!: view_pops split: if_splits Option.bind_splits)

lemma view_execute_stack: "execute_stack op v = Some v' \<Longrightarrow> view v' = view v"
  by (auto simp: execute_stack_def view_simps dest!: view_dests split: if_splits Option.bind_splits)

lemma view_execute_splice: "execute_splice op v = Some v' \<Longrightarrow> view v' = view v"
  by (auto simp: execute_splice_def view_simps dest!: view_pops view_Pop
     split: if_splits Option.bind_splits stackitem.splits)

lemma view_arith: "unInt f v = Some v' \<Longrightarrow> view v' = view v" "binInt g v = Some v' \<Longrightarrow> view v' = view v"
  "cmpInt p v = Some v' \<Longrightarrow> view v' = view v" "cmpNull p v = Some v' \<Longrightarrow> view v' = view v"
  by (auto simp: unInt_def binInt_def cmpInt_def cmpNull_def view_simps dest!: view_pops view_pushInt view_Pop
      split: if_splits Option.bind_splits)

lemma view_execute_bitwise: "execute_bitwise op v = Some v' \<Longrightarrow> view v' = view v"
  by (auto simp: execute_bitwise_def view_simps dest!: view_arith view_Pop split: if_splits Option.bind_splits)

lemma view_execute_arith: "execute_arith op v = Some v' \<Longrightarrow> view v' = view v"
  by (auto simp: execute_arith_def view_simps dest!: view_arith view_pops view_pushInt split: if_splits Option.bind_splits)

lemma view_execute_compare: "execute_compare op v = Some v' \<Longrightarrow> view v' = view v"
  by (auto simp: execute_compare_def view_simps dest!: view_arith view_pops split: if_splits Option.bind_splits)

lemma view_execute_create: "execute_create op param v = Some v' \<Longrightarrow> view v' = view v"
  by (auto simp: execute_create_def view_simps dest!: view_pops view_pop_n view_pop_pairs split: if_splits Option.bind_splits)

lemma view_execute_type: "execute_type op param v = Some v' \<Longrightarrow> view v' = view v"
  by (auto simp: execute_type_def view_simps dest!: view_pops view_Pop split: if_splits Option.bind_splits)

lemma view_append_elem: "append_elem a it v = Some v' \<Longrightarrow> view v' = view v"
  by (auto simp: append_elem_def view_simps split: if_splits Option.bind_splits)

lemma view_mutate:
  "reverse_elems a v = Some v' \<Longrightarrow> view v' = view v" "remove_elem a key v = Some v' \<Longrightarrow> view v' = view v"
  "remove_pair a key v = Some v' \<Longrightarrow> view v' = view v" "clear_items ob a c v = Some v' \<Longrightarrow> view v' = view v"
  "pop_elem a v = Some v' \<Longrightarrow> view v' = view v" "push_values its v = Some v' \<Longrightarrow> view v' = view v"
  by (auto simp: reverse_elems_def remove_elem_def remove_pair_def clear_items_def pop_elem_def push_values_def Let_def
      view_simps split: if_splits Option.bind_splits option.splits)

end

section \<open>The operations on contexts\<close>

text \<open>
  The host's callback for an unloaded context is asked to keep the view as well; the theorems about
  the machine take that as a hypothesis.
\<close>

locale control_frame = data_frame +
  assumes view_istack: "view (v\<lparr>vm_istack := cs\<rparr>) = view v"
    and view_scs: "view (v\<lparr>vm_scs := ss\<rparr>) = view v"
    and view_state: "view (v\<lparr>vm_state := st\<rparr>) = view v"
begin

definition unload_keeps :: "host \<Rightarrow> bool" where
  "unload_keeps H \<longleftrightarrow> (\<forall>n c b v v'. ho_onUnload H n c b v = Some v' \<longrightarrow> view v' = view v)"

lemmas control_simps = view_simps view_istack view_scs view_state

lemma view_set: "view (set_cur c v) = view v" "view (set_script i sc v) = view v"
  by (simp_all add: set_cur_def set_script_def control_simps)

lemma view_Jump: "Jump p v = Some v' \<Longrightarrow> view v' = view v"
  by (auto simp: Jump_def view_set split: Option.bind_splits if_splits)

lemma view_call: "call c p v = Some v' \<Longrightarrow> view v' = view v"
  by (auto simp: call_def control_simps dest: view_Jump split: if_splits)

lemma view_unloadContext: "unloadContext H c v = Some v' \<Longrightarrow> unload_keeps H \<Longrightarrow> view v' = view v"
  by (auto simp: unloadContext_def Let_def unload_keeps_def view_simps dest!: view_runDynamicOnUnload
      split: if_splits Option.bind_splits unload_callback.splits)

lemma view_unload_top: "unload_top H n v = Some v' \<Longrightarrow> unload_keeps H \<Longrightarrow> view v' = view v"
  by (induction n arbitrary: v)
    (auto dest!: view_unloadContext simp: control_simps split: list.splits Option.bind_splits)

lemma view_enter_handler: "enter_handler ex v = Some v' \<Longrightarrow> view v' = view v"
  by (auto simp: enter_handler_def Let_def view_set control_simps dest!: view_Jump
      split: Option.bind_splits list.splits if_splits)

lemma view_handleException: "handleException H v = Some v' \<Longrightarrow> unload_keeps H \<Longrightarrow> view v' = view v"
  by (auto simp: handleException_def dest!: view_unload_top view_enter_handler split: Option.bind_splits)

lemma view_throw: "throw H it v = Some v' \<Longrightarrow> unload_keeps H \<Longrightarrow> view v' = view v"
  by (auto simp: throw_def view_simps dest: view_handleException)

section \<open>The instructions on contexts and collections\<close>

lemmas view_all = view_dests view_set control_simps view_push_all

lemma view_execute_jump: "execute_jump op param v = Some v' \<Longrightarrow> view v' = view v"
  by (auto simp: execute_jump_def dest!: view_jump_taken view_Jump split: if_splits Option.bind_splits)

lemma view_execute_call:
  "execute_call H op param v = Some v' \<Longrightarrow> op \<in> {opCALL, opCALLL, opCALLA} \<Longrightarrow> view v' = view v"
  by (auto simp: execute_call_def dest!: view_Pop view_call split: if_splits Option.bind_splits stackitem.splits)

lemma view_execute_try: "execute_try op param v = Some v' \<Longrightarrow> view v' = view v"
  by (auto simp: execute_try_def Let_def view_set split: if_splits Option.bind_splits prod.splits)

lemma view_execute_endtry: "execute_endtry param v = Some v' \<Longrightarrow> view v' = view v"
  by (auto simp: execute_endtry_def view_set dest!: view_Jump split: if_splits Option.bind_splits list.splits)

lemma view_execute_endfinally: "execute_endfinally H v = Some v' \<Longrightarrow> unload_keeps H \<Longrightarrow> view v' = view v"
  by (auto simp: execute_endfinally_def view_set dest!: view_Jump view_handleException
      split: if_splits Option.bind_splits list.splits)

lemma view_execute_ret: "execute_ret H v = Some v' \<Longrightarrow> unload_keeps H \<Longrightarrow> view v' = view v"
  by (auto simp: execute_ret_def Let_def control_simps dest!: view_unloadContext view_move_results
      split: if_splits Option.bind_splits list.splits)

lemma view_execute_initslot: "execute_initslot param v = Some v' \<Longrightarrow> view v' = view v"
  by (auto simp: execute_initslot_def Let_def view_set dest!: view_slot_init view_fill_arguments split: if_splits Option.bind_splits)

lemma view_execute_slot: "execute_slot op param v = Some v' \<Longrightarrow> view v' = view v"
  by (auto simp: execute_slot_def view_set view_simps dest!: view_slot_init view_slot_set view_execute_initslot view_Pop
     split: if_splits Option.bind_splits)

lemma view_execute_control:
  "execute_control H op param v = Some v' \<Longrightarrow> unload_keeps H \<Longrightarrow> op \<notin> {opCALLT, opSYSCALL} \<Longrightarrow> view v' = view v"
  using call_ops [of op]
  by (auto simp: execute_control_def simp del: insert_iff
      dest!: view_execute_jump view_execute_call view_throw view_execute_try view_execute_endtry view_execute_endfinally
        view_execute_ret view_pops view_Pop
      split: if_splits Option.bind_splits)

lemma view_pick_elem: "pick_elem H key xs v = Some v' \<Longrightarrow> unload_keeps H \<Longrightarrow> view v' = view v"
  by (auto simp: pick_elem_def view_simps dest!: view_throw split: if_splits Option.bind_splits)

lemma view_execute_pickitem: "execute_pickitem H v = Some v' \<Longrightarrow> unload_keeps H \<Longrightarrow> view v' = view v"
  by (auto simp: execute_pickitem_def view_simps dest!: view_Pop view_throw view_pick_elem
      split: if_splits Option.bind_splits stackitem.splits option.splits)

lemma view_execute_setitem: "execute_setitem H v = Some v' \<Longrightarrow> unload_keeps H \<Longrightarrow> view v' = view v"
  by (auto simp: execute_setitem_def set_elem_def set_pair_def set_byte_def Let_def view_simps dest!: view_Pop view_throw
      split: if_splits Option.bind_splits stackitem.splits option.splits)

lemma view_execute_collection: "execute_collection H op v = Some v' \<Longrightarrow> unload_keeps H \<Longrightarrow> view v' = view v"
  by (auto simp: execute_collection_def execute_unpack_def execute_size_def execute_haskey_def execute_keys_def
      execute_values_def execute_append_def execute_reverseitems_def execute_remove_def execute_clearitems_def
      execute_popitem_def view_simps view_push_all
      dest!: view_Pop view_pushInt view_append_elem view_mutate view_execute_pickitem view_execute_setitem
      split: if_splits Option.bind_splits stackitem.splits option.splits)

text \<open>No instruction but the calls to the host changes the view.\<close>

lemma view_execute_op:
  assumes "unload_keeps H" and "op \<notin> {opCALLT, opSYSCALL}" and "execute_op H op param v = Some v'"
  shows "view v' = view v"
  using assms
  by (auto simp: execute_op_def simp del: insert_iff
      dest: view_pushInt view_execute_push view_execute_control view_execute_stack view_execute_slot view_execute_splice
        view_execute_bitwise view_execute_arith view_execute_compare view_execute_create view_execute_collection view_execute_type
      split: if_splits)

end

text \<open>The operations on data leave the contexts and their scripts alone.\<close>

interpretation code: data_frame "\<lambda>v. (vm_istack v, vm_scs v)"
  by unfold_locales simp_all

end
