(* ===== verification/Vm_Wf.thy ===== *)
theory Vm_Wf
  imports Vm_Frame
begin

text \<open>
  The well-formed states of the machine: integers of 256 bits, byte strings and buffers of bounded
  size, references to objects of the right kind, map keys that are keys, bounded invocation and try
  stacks. Every instruction keeps them.
\<close>

section \<open>The size of integers\<close>

lemma bit_len_iff: "bit_len n \<le> k \<longleftrightarrow> n < 2 ^ k"
  using bit_len_le [of n k] bit_len_less [of n] power_increasing [of "bit_len n" k "2::nat"] by (metis less_le_trans one_le_numeral)

lemma trailing_zeros_div: "n \<noteq> 0 \<Longrightarrow> trailing_zeros n = k \<Longrightarrow> n mod 2 ^ k = 0 \<and> odd (n div 2 ^ k)"
proof (induction n arbitrary: k rule: trailing_zeros.induct)
  case (1 n)
  show ?case
  proof (cases "odd n")
    case True
    with 1 show ?thesis by (simp add: trailing_zeros.simps [of n])
  next
    case False
    with 1(2,3) have k: "k = Suc (trailing_zeros (n div 2))" by (simp add: trailing_zeros.simps [of n])
    have "n div 2 \<noteq> 0" using False 1(2) by auto
    with 1(1,2) False have ih: "(n div 2) mod 2 ^ (k - 1) = 0" "odd (n div 2 div 2 ^ (k - 1))" by (auto simp: k)
    have "n mod 2 ^ k = 2 * ((n div 2) mod 2 ^ (k - 1))"
      using False k by (simp add: mod_mult2_eq)
    moreover have "n div 2 ^ k = n div 2 div 2 ^ (k - 1)" using k by (simp add: div_mult2_eq)
    ultimately show ?thesis using ih by simp
  qed
qed

lemma trailing_zeros_power: "trailing_zeros (2 ^ k) = k"
  by (induction k) (simp_all add: trailing_zeros.simps [of "Suc 0"] trailing_zeros.simps [of "2 * 2 ^ k" for k])

lemma CheckIntegerSize_iff [code]: "CheckIntegerSize i \<longleftrightarrow> - (2 ^ 255) \<le> i \<and> i < 2 ^ 255"
proof -
  let ?n = "nat \<bar>i\<bar>"
  have lt: "bit_len ?n < 256 \<longleftrightarrow> ?n < 2 ^ 255" using bit_len_iff [of ?n 255] by auto
  have gt: "bit_len ?n > 256 \<longleftrightarrow> \<not> ?n < 2 ^ 256" using bit_len_iff [of ?n 256] by auto
  have tz: "trailing_zeros ?n = 255 \<longleftrightarrow> ?n = 2 ^ 255" if "\<not> ?n < 2 ^ 255" "?n < 2 ^ 256"
  proof
    assume t: "trailing_zeros ?n = 255"
    have "?n \<noteq> 0" using that(1) by (metis zero_less_numeral zero_less_power)
    from trailing_zeros_div [OF this t] have "?n mod 2 ^ 255 = 0" by simp
    moreover have "?n div 2 ^ 255 = 1"
    proof (rule div_nat_eqI)
      show "2 ^ 255 * 1 \<le> ?n" using that(1) by (simp only: not_less mult_1_right)
      have "(2::nat) ^ 255 * Suc 1 = 2 ^ 256" by simp
      then show "?n < 2 ^ 255 * Suc 1" using that(2) by (simp only:)
    qed
    ultimately show "?n = 2 ^ 255" by (metis mult_div_mod_eq mult_1_right add_0_right)
  qed (simp only: trailing_zeros_power)
  have "?n < 2 ^ 255 \<longleftrightarrow> - (2 ^ 255) < i \<and> i < 2 ^ 255" by (subst nat_less_iff) auto
  moreover have "?n = 2 ^ 255 \<longleftrightarrow> i = 2 ^ 255 \<or> i = - (2 ^ 255)" by (subst nat_eq_iff) auto
  ultimately show ?thesis
    unfolding CheckIntegerSize_def Let_def MaxBigIntegerSizeBits_def
    using lt gt tz by auto
qed

section \<open>Well-formed states\<close>

datatype kind = KElems | KPairs | KRaw

fun kind_of :: "content \<Rightarrow> kind" where
  "kind_of (Elems xs) = KElems"
| "kind_of (Pairs ps) = KPairs"
| "kind_of (Raw bs) = KRaw"

definition kinds :: "heap \<Rightarrow> kind list" where
  "kinds h = map (kind_of \<circ> ob_value) h"

definition has_kind :: "kind list \<Rightarrow> addr \<Rightarrow> kind \<Rightarrow> bool" where
  "has_kind ks a k \<longleftrightarrow> a < length ks \<and> ks ! a = k"

fun item_ok :: "kind list \<Rightarrow> stackitem \<Rightarrow> bool" where
  "item_ok ks (BigInteger i) = (- (2 ^ 255) \<le> i \<and> i < 2 ^ 255)"
| "item_ok ks (ByteArray bs) = (int (length bs) \<le> MaxSize)"
| "item_ok ks (BufferItem a) = has_kind ks a KRaw"
| "item_ok ks (ArrayItem a) = has_kind ks a KElems"
| "item_ok ks (StructItem a) = has_kind ks a KElems"
| "item_ok ks (MapItem a) = has_kind ks a KPairs"
| "item_ok ks it = True"

abbreviation items_ok :: "kind list \<Rightarrow> stackitem list \<Rightarrow> bool" where
  "items_ok ks xs \<equiv> (\<forall>x\<in>set xs. item_ok ks x)"

fun content_ok :: "kind list \<Rightarrow> content \<Rightarrow> bool" where
  "content_ok ks (Elems xs) = items_ok ks xs"
| "content_ok ks (Pairs ps) = (\<forall>(k, x)\<in>set ps. IsValidMapKey k \<and> item_ok ks k \<and> item_ok ks x)"
| "content_ok ks (Raw bs) = (int (length bs) \<le> MaxSize)"

definition heap_ok :: "heap \<Rightarrow> bool" where
  "heap_ok h \<longleftrightarrow> (\<forall>ob\<in>set h. content_ok (kinds h) (ob_value ob))"

definition slot_ok :: "kind list \<Rightarrow> slot \<Rightarrow> bool" where
  "slot_ok ks s = (case s of None \<Rightarrow> True
     | Some xs \<Rightarrow> length xs \<le> 255 \<and> (\<forall>x\<in>set xs. case x of None \<Rightarrow> True | Some it \<Rightarrow> item_ok ks it))"

definition context_ok :: "kind list \<Rightarrow> nat \<Rightarrow> vm_context \<Rightarrow> bool" where
  "context_ok ks n c \<longleftrightarrow> cx_sc c < n \<and> slot_ok ks (cx_local c) \<and> slot_ok ks (cx_arguments c) \<and>
     int (length (cx_tryStack c)) \<le> MaxTryNestingDepth"

definition script_ok :: "kind list \<Rightarrow> nat \<Rightarrow> script_context \<Rightarrow> bool" where
  "script_ok ks n sc \<longleftrightarrow> sc_estack sc < n \<and> slot_ok ks (sc_static sc)"

definition vm_ok :: "vm \<Rightarrow> bool" where
  "vm_ok v \<longleftrightarrow>
     heap_ok (vm_heap v) \<and>
     vm_estack v < length (vm_stacks v) \<and>
     (\<forall>xs\<in>set (vm_stacks v). items_ok (kinds (vm_heap v)) xs) \<and>
     (\<forall>c\<in>set (vm_istack v). context_ok (kinds (vm_heap v)) (length (vm_scs v)) c) \<and>
     int (length (vm_istack v)) \<le> MaxInvocationStackSize \<and>
     (\<forall>sc\<in>set (vm_scs v). script_ok (kinds (vm_heap v)) (length (vm_stacks v)) sc) \<and>
     (\<forall>it\<in>set_option (vm_uncaughtException v). item_ok (kinds (vm_heap v)) it)"

abbreviation vkinds :: "vm \<Rightarrow> kind list" where
  "vkinds v \<equiv> kinds (vm_heap v)"

section \<open>Objects\<close>

lemma has_kind_append: "has_kind ks a k \<Longrightarrow> has_kind (ks @ ls) a k"
  by (auto simp: has_kind_def nth_append)

lemma item_ok_append: "item_ok ks it \<Longrightarrow> item_ok (ks @ ls) it"
  by (cases it) (simp_all add: has_kind_append)

lemma content_ok_append: "content_ok ks c \<Longrightarrow> content_ok (ks @ ls) c"
  by (cases c) (auto intro: item_ok_append)

lemma slot_ok_append: "slot_ok ks s \<Longrightarrow> slot_ok (ks @ ls) s"
  by (auto simp: slot_ok_def intro: item_ok_append split: option.splits)

lemmas ok_append = item_ok_append content_ok_append slot_ok_append

lemma kinds_alloc: "alloc c h = (a, h') \<Longrightarrow> kinds h' = kinds h @ [kind_of c] \<and> a = length (kinds h)"
  by (auto simp: alloc_def kinds_def)

lemma alloc_ok:
  assumes "alloc c h = (a, h')" and "heap_ok h" and "content_ok (kinds h) c"
  shows "heap_ok h' \<and> kinds h' = kinds h @ [kind_of c] \<and> has_kind (kinds h') a (kind_of c)"
proof -
  have k: "kinds h' = kinds h @ [kind_of c]" "a = length (kinds h)" using kinds_alloc [OF assms(1)] by simp_all
  have "set h' = set h \<union> {\<lparr>ob_value = c, ob_rc = 0, ob_ro = False\<rparr>}" using assms(1) by (auto simp: alloc_def)
  then have "heap_ok h'" using assms(2,3) unfolding heap_ok_def k(1) by (auto intro: content_ok_append)
  with k show ?thesis by (simp add: has_kind_def)
qed

lemma content_of: "heap_ok h \<Longrightarrow> a < length h \<Longrightarrow> content_ok (kinds h) (ob_value (h ! a))"
  by (simp add: heap_ok_def)

lemma get_elems_iff: "get_elems h a = Some xs \<longleftrightarrow> a < length h \<and> ob_value (h ! a) = Elems xs"
  by (auto simp: get_elems_def obj_def split: content.splits if_splits Option.bind_splits)

lemma get_pairs_iff: "get_pairs h a = Some ps \<longleftrightarrow> a < length h \<and> ob_value (h ! a) = Pairs ps"
  by (auto simp: get_pairs_def obj_def split: content.splits if_splits Option.bind_splits)

lemma get_raw_iff: "get_raw h a = Some bs \<longleftrightarrow> a < length h \<and> ob_value (h ! a) = Raw bs"
  by (auto simp: get_raw_def obj_def split: content.splits if_splits Option.bind_splits)

lemma get_elems_ok: "get_elems h a = Some xs \<Longrightarrow> heap_ok h \<Longrightarrow> items_ok (kinds h) xs \<and> has_kind (kinds h) a KElems"
  using content_of [of h a] by (auto simp: get_elems_iff has_kind_def kinds_def)

lemma get_pairs_ok:
  "get_pairs h a = Some ps \<Longrightarrow> heap_ok h \<Longrightarrow> content_ok (kinds h) (Pairs ps) \<and> has_kind (kinds h) a KPairs"
  using content_of [of h a] by (auto simp: get_pairs_iff has_kind_def kinds_def)

lemma get_raw_ok: "get_raw h a = Some bs \<Longrightarrow> heap_ok h \<Longrightarrow> int (length bs) \<le> MaxSize \<and> has_kind (kinds h) a KRaw"
  using content_of [of h a] by (auto simp: get_raw_iff has_kind_def kinds_def)

lemma kinds_set_value: "has_kind (kinds h) a (kind_of c) \<Longrightarrow> kinds (set_value a c h) = kinds h"
  by (auto simp: set_value_def kinds_def has_kind_def list_eq_iff_nth_eq nth_list_update)

lemma set_value_ok:
  assumes "heap_ok h" and "content_ok (kinds h) c" and "has_kind (kinds h) a (kind_of c)"
  shows "heap_ok (set_value a c h)"
  using assms(1,2) unfolding heap_ok_def kinds_set_value [OF assms(3)]
  by (auto simp: set_value_def dest!: set_update_subset_insert [THEN subsetD])

lemma TryBytes_ok: "TryBytes h it = Some bs \<Longrightarrow> heap_ok h \<Longrightarrow> item_ok ks it \<Longrightarrow> int (length bs) \<le> MaxSize"
proof (cases it)
  case (BigInteger i)
  assume "TryBytes h it = Some bs" and "item_ok ks it"
  with BigInteger length_ToBytes_32 [of i] have "length bs \<le> 32" by simp
  then show ?thesis by (simp add: MaxSize_def)
qed (auto simp: MaxSize_def dest: get_raw_ok)

lemma NewBigInteger_ok: "NewBigInteger i = Some it \<Longrightarrow> item_ok ks it"
  by (auto simp: NewBigInteger_def CheckIntegerSize_iff split: if_splits)

end
