(* ===== verification/Vm_Wf_Prim.thy ===== *)
theory Vm_Wf_Prim
  imports Vm_Wf
begin

text \<open>The operations on stacks, slots, contexts and handlers keep the states well formed.\<close>

section \<open>Counting references\<close>

lemma contents_add_rc: "map ob_value (add_rc a d h) = map ob_value h"
  by (auto simp: add_rc_def list_eq_iff_nth_eq nth_list_update)

lemma contents_add_items: "map ob_value (fst (add_items its hr)) = map ob_value (fst hr)"
  by (induction its hr rule: add_items.induct)
    (auto simp: add_items.simps Let_def contents_add_rc split: option.split)

lemma contents_remove_items: "map ob_value (fst (remove_items its hr)) = map ob_value (fst hr)"
  by (induction its hr rule: remove_items.induct)
    (auto simp: remove_items.simps Let_def contents_add_rc split: option.split)

lemma heap_cong: "map ob_value h' = map ob_value h \<Longrightarrow> kinds h' = kinds h \<and> heap_ok h' = heap_ok h"
proof -
  assume eq: "map ob_value h' = map ob_value h"
  have "kinds g = map kind_of (map ob_value g)" for g by (simp add: kinds_def)
  then have k: "kinds h' = kinds h" using eq by metis
  have "heap_ok g \<longleftrightarrow> (\<forall>c\<in>set (map ob_value g). content_ok (kinds g) c)" for g by (simp add: heap_ok_def)
  with eq k show ?thesis by metis
qed

lemma vm_ok_cong:
  assumes "map ob_value (vm_heap v') = map ob_value (vm_heap v)" and "vm_estack v' = vm_estack v" and "vm_stacks v' = vm_stacks v"
    and "vm_istack v' = vm_istack v" and "vm_scs v' = vm_scs v" and "vm_uncaughtException v' = vm_uncaughtException v"
  shows "vm_ok v' = vm_ok v"
  using assms heap_cong [OF assms(1)] unfolding vm_ok_def by simp

text \<open>The parts of the state that do not matter.\<close>

lemma vm_ok_irrelevant [simp]:
  "vm_ok (v\<lparr>vm_refs := r\<rparr>) = vm_ok v" "vm_ok (v\<lparr>vm_state := st\<rparr>) = vm_ok v" "vm_ok (v\<lparr>vm_gasConsumed := g\<rparr>) = vm_ok v"
  "vm_ok (v\<lparr>vm_GasLimit := g\<rparr>) = vm_ok v"
  by (rule vm_ok_cong; simp)+

lemma count_ok [simp]:
  "vm_ok (count_in its v) = vm_ok v" "vm_ok (count_out its v) = vm_ok v"
  "kinds (vm_heap (count_in its v)) = vkinds v" "kinds (vm_heap (count_out its v)) = vkinds v"
proof -
  have i: "map ob_value (vm_heap (count_in its v)) = map ob_value (vm_heap v)"
    using contents_add_items [of its "(vm_heap v, vm_refs v)"] by (auto simp: count_in_def split: prod.splits)
  show "vm_ok (count_in its v) = vm_ok v"
    by (rule vm_ok_cong [OF i]) (simp_all add: count_in_def split: prod.split)
  show "kinds (vm_heap (count_in its v)) = vkinds v" by (rule heap_cong [OF i, THEN conjunct1])
  have o: "map ob_value (vm_heap (count_out its v)) = map ob_value (vm_heap v)"
    using contents_remove_items [of its "(vm_heap v, vm_refs v)"] by (auto simp: count_out_def split: prod.splits)
  show "vm_ok (count_out its v) = vm_ok v"
    by (rule vm_ok_cong [OF o]) (simp_all add: count_out_def split: prod.split)
  show "kinds (vm_heap (count_out its v)) = vkinds v" by (rule heap_cong [OF o, THEN conjunct1])
qed

lemma count_out_opt_ok [simp]: "vm_ok (count_out_opt x v) = vm_ok v" "kinds (vm_heap (count_out_opt x v)) = vkinds v"
  by (simp_all add: count_out_opt_def split: option.split)

lemma ClearRefs_ok [simp]: "vm_ok (ClearRefs s v) = vm_ok v" "kinds (vm_heap (ClearRefs s v)) = vkinds v"
proof -
  have "vm_ok (fold count_out_opt xs v) = vm_ok v \<and> kinds (vm_heap (fold count_out_opt xs v)) = vkinds v" for xs
    by (induction xs arbitrary: v) simp_all
  then show "vm_ok (ClearRefs s v) = vm_ok v" "kinds (vm_heap (ClearRefs s v)) = vkinds v"
    by (simp_all add: ClearRefs_def split: option.split)
qed

section \<open>Stacks\<close>

lemma estack_ok: "vm_ok v \<Longrightarrow> items_ok (vkinds v) (estack v)"
  by (auto simp: vm_ok_def estack_def)

lemma set_estack_ok: "vm_ok v \<Longrightarrow> items_ok (vkinds v) xs \<Longrightarrow> vm_ok (set_estack xs v)"
  using set_update_subset_insert [of "vm_stacks v" "vm_estack v" xs] by (auto simp: vm_ok_def set_estack_def)

lemma kinds_set_estack [simp]: "kinds (vm_heap (set_estack xs v)) = vkinds v"
  by (simp add: set_estack_def)

lemma PushItem_ok: "vm_ok v \<Longrightarrow> item_ok (vkinds v) it \<Longrightarrow> vm_ok (PushItem it v)"
  using estack_ok [of v] by (auto simp: PushItem_def intro!: set_estack_ok)

lemma kinds_PushItem [simp]: "kinds (vm_heap (PushItem it v)) = vkinds v"
  by (simp add: PushItem_def)

lemma Pop_ok: "Pop v = Some (it, v') \<Longrightarrow> vm_ok v \<Longrightarrow> vm_ok v' \<and> vkinds v' = vkinds v \<and> item_ok (vkinds v) it"
  using estack_ok [of v] by (auto simp: Pop_def intro!: set_estack_ok split: list.splits)

lemma Clear_ok: "vm_ok v \<Longrightarrow> vm_ok (Clear v)"
  by (auto simp: Clear_def intro!: set_estack_ok)

lemma InsertAt_ok: "InsertAt it n v = Some v' \<Longrightarrow> vm_ok v \<Longrightarrow> item_ok (vkinds v) it \<Longrightarrow> vm_ok v'"
  using estack_ok [of v] by (auto simp: InsertAt_def intro!: set_estack_ok split: if_splits dest!: in_set_takeD in_set_dropD)

lemma Peek_ok: "Peek n v = Some it \<Longrightarrow> vm_ok v \<Longrightarrow> item_ok (vkinds v) it"
  using estack_ok [of v] by (auto simp: Peek_def split: if_splits)

lemma RemoveAt_ok: "RemoveAt n v = Some (it, v') \<Longrightarrow> vm_ok v \<Longrightarrow> vm_ok v' \<and> vkinds v' = vkinds v \<and> item_ok (vkinds v) it"
  using estack_ok [of v] by (auto simp: RemoveAt_def intro!: set_estack_ok split: if_splits dest!: in_set_takeD in_set_dropD)

lemma Swap_ok: "Swap n m v = Some v' \<Longrightarrow> vm_ok v \<Longrightarrow> vm_ok v'"
  using estack_ok [of v]
  by (auto simp: Swap_def intro!: set_estack_ok split: if_splits dest!: set_update_subset_insert [THEN subsetD])

lemma ReverseTop_ok: "ReverseTop n v = Some v' \<Longrightarrow> vm_ok v \<Longrightarrow> vm_ok v'"
  using estack_ok [of v] by (auto simp: ReverseTop_def intro!: set_estack_ok split: if_splits dest!: in_set_takeD in_set_dropD)

lemma Roll_ok: "Roll n v = Some v' \<Longrightarrow> vm_ok v \<Longrightarrow> vm_ok v'"
  using estack_ok [of v] by (auto simp: Roll_def intro!: set_estack_ok split: if_splits dest!: in_set_takeD in_set_dropD)

lemma pops_ok:
  "popInt v = Some (i, v') \<Longrightarrow> vm_ok v \<Longrightarrow> vm_ok v' \<and> vkinds v' = vkinds v"
  "popBool v = Some (b, v') \<Longrightarrow> vm_ok v \<Longrightarrow> vm_ok v' \<and> vkinds v' = vkinds v"
  "popInt32 v = Some (j, v') \<Longrightarrow> vm_ok v \<Longrightarrow> vm_ok v' \<and> vkinds v' = vkinds v"
  by (auto simp: popInt_def popBool_def popInt32_def dest: Pop_ok split: Option.bind_splits)

lemma vm_ok_heap: "vm_ok v \<Longrightarrow> heap_ok (vm_heap v)"
  by (simp add: vm_ok_def)

lemma popBytes_ok: "popBytes v = Some (bs, v') \<Longrightarrow> vm_ok v \<Longrightarrow> vm_ok v' \<and> vkinds v' = vkinds v \<and> int (length bs) \<le> MaxSize"
  by (auto simp: popBytes_def dest!: Pop_ok intro!: TryBytes_ok [OF _ vm_ok_heap] split: Option.bind_splits)

lemma pushInt_ok: "pushInt i v = Some v' \<Longrightarrow> vm_ok v \<Longrightarrow> vm_ok v' \<and> vkinds v' = vkinds v"
  by (auto simp: pushInt_def intro!: PushItem_ok dest: NewBigInteger_ok split: Option.bind_splits)

section \<open>The heap\<close>

lemma new_heap_ok:
  assumes "vm_ok v" and "heap_ok h" and "kinds h = vkinds v @ ls"
  shows "vm_ok (v\<lparr>vm_heap := h\<rparr>)"
  using assms unfolding vm_ok_def context_ok_def script_ok_def
  by (auto simp: ok_append split: option.splits)

lemma set_heap_ok: "vm_ok v \<Longrightarrow> heap_ok h \<Longrightarrow> kinds h = vkinds v \<Longrightarrow> vm_ok (v\<lparr>vm_heap := h\<rparr>)"
  using new_heap_ok [of v h "[]"] by simp

lemma put_ok:
  "vm_ok v \<Longrightarrow> content_ok (vkinds v) c \<Longrightarrow> has_kind (vkinds v) a (kind_of c) \<Longrightarrow> vm_ok (v\<lparr>vm_heap := set_value a c (vm_heap v)\<rparr>)"
  by (rule set_heap_ok) (simp_all add: set_value_ok kinds_set_value vm_ok_heap)

lemma pushNew_ok:
  assumes "vm_ok v" and "content_ok (vkinds v) c" and "\<And>ks a. has_kind ks a (kind_of c) \<Longrightarrow> item_ok ks (mk a)"
  shows "vm_ok (pushNew mk c v)"
proof -
  obtain a h where al: "alloc c (vm_heap v) = (a, h)" by force
  with alloc_ok [OF al vm_ok_heap [OF assms(1)] assms(2)] new_heap_ok [OF assms(1), of h] assms(3) show ?thesis
    by (auto simp: pushNew_def intro!: PushItem_ok)
qed

section \<open>Slots\<close>

lemma slot_get_ok: "slot_get s i = Some it \<Longrightarrow> slot_ok ks s \<Longrightarrow> item_ok ks it"
  by (auto simp: slot_get_def slot_ok_def split: option.splits if_splits dest: nth_mem)

lemma slot_set_ok:
  "slot_set s i it v = Some (s', v') \<Longrightarrow> vm_ok v \<Longrightarrow> slot_ok (vkinds v) s \<Longrightarrow> item_ok (vkinds v) it \<Longrightarrow>
    vm_ok v' \<and> vkinds v' = vkinds v \<and> slot_ok (vkinds v) s'"
  by (auto simp: slot_set_def slot_ok_def split: option.splits if_splits dest!: set_update_subset_insert [THEN subsetD])

lemma slot_init_ok:
  "slot_init s n v = Some (s', v') \<Longrightarrow> vm_ok v \<Longrightarrow> n \<le> 255 \<Longrightarrow> vm_ok v' \<and> vkinds v' = vkinds v \<and> slot_ok (vkinds v) s'"
  by (auto simp: slot_init_def slot_ok_def split: option.splits)

lemma slot_ok_None [simp]: "slot_ok ks None"
  by (simp add: slot_ok_def)

section \<open>Contexts\<close>

lemma cur_ok: "cur v = Some c \<Longrightarrow> vm_ok v \<Longrightarrow> context_ok (vkinds v) (length (vm_scs v)) c"
  by (auto simp: cur_def vm_ok_def split: list.splits)

lemma script_of_ok: "script v c = Some sc \<Longrightarrow> vm_ok v \<Longrightarrow> script_ok (vkinds v) (length (vm_stacks v)) sc"
  by (auto simp: script_def vm_ok_def split: if_splits)

lemma set_cur_ok: "vm_ok v \<Longrightarrow> context_ok (vkinds v) (length (vm_scs v)) c \<Longrightarrow> vm_ok (set_cur c v)"
  by (cases "vm_istack v") (auto simp: set_cur_def vm_ok_def MaxInvocationStackSize_def)

lemma set_script_ok: "vm_ok v \<Longrightarrow> script_ok (vkinds v) (length (vm_stacks v)) sc \<Longrightarrow> vm_ok (set_script i sc v)"
  by (auto simp: set_script_def vm_ok_def dest!: set_update_subset_insert [THEN subsetD])

lemma set_kinds [simp]: "vm_heap (set_cur c v) = vm_heap v" "vm_heap (set_script i sc v) = vm_heap v"
  by (simp_all add: set_cur_def set_script_def)

lemma set_lengths [simp]: "length (vm_scs (set_cur c v)) = length (vm_scs v)" "vm_stacks (set_cur c v) = vm_stacks v"
  "length (vm_scs (set_script i sc v)) = length (vm_scs v)" "vm_stacks (set_script i sc v) = vm_stacks v"
  by (simp_all add: set_cur_def set_script_def)

lemma context_ok_nextip [simp]:
  "context_ok ks n (c\<lparr>cx_nextip := p\<rparr>) = context_ok ks n c" "context_ok ks n (c\<lparr>cx_ip := p\<rparr>) = context_ok ks n c"
  by (simp_all add: context_ok_def)

lemma Jump_ok: "Jump p v = Some v' \<Longrightarrow> vm_ok v \<Longrightarrow> vm_ok v' \<and> vkinds v' = vkinds v \<and> vm_stacks v' = vm_stacks v"
  by (auto simp: Jump_def intro!: set_cur_ok dest: cur_ok split: Option.bind_splits if_splits)

lemma push_context_ok:
  "vm_ok v \<Longrightarrow> checkInvocationStackSize v \<Longrightarrow> context_ok (vkinds v) (length (vm_scs v)) c \<Longrightarrow>
    vm_ok (v\<lparr>vm_istack := c # vm_istack v\<rparr>)"
  by (auto simp: vm_ok_def checkInvocationStackSize_def)

lemma call_ok:
  assumes "call c p v = Some v'" and "vm_ok v" and "cx_sc c < length (vm_scs v)"
  shows "vm_ok v'"
proof -
  have "vm_ok (v\<lparr>vm_istack := \<lparr>cx_ip = 0, cx_nextip = 0, cx_sc = cx_sc c, cx_local = None, cx_arguments = None,
       cx_tryStack = [], cx_retCount = -1\<rparr> # vm_istack v\<rparr>)"
    using assms by (intro push_context_ok) (auto simp: call_def context_ok_def MaxTryNestingDepth_def split: if_splits)
  then show ?thesis using assms(1) by (auto simp: call_def dest: Jump_ok split: if_splits)
qed

section \<open>Unloading and exceptions\<close>

definition grows :: "vm \<Rightarrow> vm \<Rightarrow> bool" where
  "grows v v' \<longleftrightarrow> length (vm_stacks v) \<le> length (vm_stacks v') \<and> (\<exists>ls. vkinds v' = vkinds v @ ls)"

lemma grows_refl [simp]: "grows v v"
  by (simp add: grows_def)

lemma grows_trans: "grows u v \<Longrightarrow> grows v w \<Longrightarrow> grows u w"
  by (auto simp: grows_def)

lemma growsI: "vkinds v' = vkinds v \<Longrightarrow> length (vm_stacks v') = length (vm_stacks v) \<Longrightarrow> grows v v'"
  by (simp add: grows_def)

lemma item_ok_grows: "item_ok (vkinds v) it \<Longrightarrow> grows v v' \<Longrightarrow> item_ok (vkinds v') it"
  by (auto simp: grows_def item_ok_append)

lemma length_stacks [simp]:
  "length (vm_stacks (count_in its v)) = length (vm_stacks v)" "length (vm_stacks (count_out its v)) = length (vm_stacks v)"
  "length (vm_stacks (set_estack xs v)) = length (vm_stacks v)" "length (vm_stacks (PushItem it v)) = length (vm_stacks v)"
  by (simp_all add: count_in_def count_out_def set_estack_def PushItem_def split: prod.split)

lemma vm_estack_PushItem [simp]: "vm_estack (PushItem it v) = vm_estack v"
  by (simp add: PushItem_def count_in_def set_estack_def split: prod.split)

lemma ClearRefs_grows: "grows v (ClearRefs s v)"
proof -
  have "length (vm_stacks (fold count_out_opt xs v)) = length (vm_stacks v)" for xs
    by (induction xs arbitrary: v) (auto simp: count_out_opt_def split: option.split)
  then have "length (vm_stacks (ClearRefs s v)) = length (vm_stacks v)" by (simp add: ClearRefs_def split: option.split)
  then show ?thesis by (intro growsI) simp_all
qed

lemma switch_stack_ok: "vm_ok v \<Longrightarrow> e < length (vm_stacks v) \<Longrightarrow> vm_ok (v\<lparr>vm_estack := e\<rparr>)"
  by (simp add: vm_ok_def)

lemma runDynamicOnUnload_ok: "runDynamicOnUnload c b v = Some v' \<Longrightarrow> vm_ok v \<Longrightarrow> vm_ok v' \<and> grows v v'"
  by (auto simp: runDynamicOnUnload_def Let_def script_ok_def growsI dest!: script_of_ok [of v]
      intro!: switch_stack_ok PushItem_ok split: if_splits Option.bind_splits)
    (auto simp: vm_ok_def)

text \<open>What is asked of the host.\<close>

definition wf_host :: "host \<Rightarrow> bool" where
  "wf_host H \<longleftrightarrow>
     (\<forall>handler n v v'. ho_SyscallHandler H = Some handler \<longrightarrow> vm_ok v \<longrightarrow> handler n v = Some v' \<longrightarrow> vm_ok v') \<and>
     (\<forall>load n v v'. ho_LoadToken H = Some load \<longrightarrow> vm_ok v \<longrightarrow> load n v = Some v' \<longrightarrow> vm_ok v') \<and>
     (\<forall>n c b v v'. vm_ok v \<longrightarrow> ho_onUnload H n c b v = Some v' \<longrightarrow> vm_ok v' \<and> grows v v')"

lemma unloadContext_ok:
  assumes "unloadContext H c v = Some v'" and "vm_ok v" and "wf_host H"
  shows "vm_ok v' \<and> grows v v'"
proof -
  define u where "u = ClearRefs (cx_arguments c) (ClearRefs (cx_local c) v)"
  have u: "vm_ok u" "grows v u" using assms(2) by (auto simp: u_def intro: grows_trans ClearRefs_grows)
  show ?thesis
  proof (cases "map_option cx_sc (cur u) = Some (cx_sc c)")
    case True
    with assms(1) u show ?thesis by (simp add: unloadContext_def u_def [symmetric])
  next
    case False
    have w: "vm_ok (ClearRefs s u)" "grows v (ClearRefs s u)" for s
      using u by (auto intro: grows_trans ClearRefs_grows)
    have "runDynamicOnUnload c b (ClearRefs s u) = Some v' \<Longrightarrow> vm_ok v' \<and> grows v v'" for b s
      using w [of s] by (auto dest: runDynamicOnUnload_ok intro: grows_trans)
    moreover have "ho_onUnload H n c b (ClearRefs s u) = Some v' \<Longrightarrow> vm_ok v' \<and> grows v v'" for n b s
      using w [of s] assms(3) unfolding wf_host_def by (blast intro: grows_trans)
    ultimately show ?thesis
      using assms(1) False w
      by (auto simp: unloadContext_def u_def [symmetric] Let_def split: Option.bind_splits if_splits unload_callback.splits)
  qed
qed

lemma unload_top_ok: "unload_top H n v = Some v' \<Longrightarrow> vm_ok v \<Longrightarrow> wf_host H \<Longrightarrow> vm_ok v' \<and> grows v v'"
proof (induction n arbitrary: v)
  case (Suc n)
  then obtain c cs u where v: "vm_istack v = c # cs" and u: "unloadContext H c (v\<lparr>vm_istack := cs\<rparr>) = Some u"
    and t: "unload_top H n u = Some v'" by (auto split: list.splits Option.bind_splits)
  have "vm_ok (v\<lparr>vm_istack := cs\<rparr>)" using Suc.prems(2) v by (auto simp: vm_ok_def)
  with unloadContext_ok [OF u] Suc.prems(3) have "vm_ok u" "grows (v\<lparr>vm_istack := cs\<rparr>) u" by auto
  with Suc.IH [OF t] Suc.prems(3) show ?case by (auto simp: grows_def)
qed simp

lemma exception_ok:
  "vm_ok v \<Longrightarrow> vm_ok (v\<lparr>vm_uncaughtException := None\<rparr>)"
  "vm_ok v \<Longrightarrow> item_ok (vkinds v) it \<Longrightarrow> vm_ok (v\<lparr>vm_uncaughtException := Some it\<rparr>)"
  by (simp_all add: vm_ok_def)

lemma enter_handler_ok:
  assumes "enter_handler ex v = Some v'" and "vm_ok v" and "item_ok (vkinds v) ex"
  shows "vm_ok v'"
proof -
  from assms(1) obtain c sc e es where c: "cur v = Some c" and sc: "script v c = Some sc"
    and es: "dropWhile spent (cx_tryStack c) = e # es"
    by (auto simp: enter_handler_def split: Option.bind_splits list.splits)
  let ?v = "v\<lparr>vm_estack := sc_estack sc\<rparr>" and ?c = "\<lambda>st. c\<lparr>cx_tryStack := e\<lparr>eh_State := st\<rparr> # es\<rparr>"
  have "Suc (length es) \<le> length (cx_tryStack c)" using length_dropWhile_le [of spent "cx_tryStack c"] es by simp
  then have cok: "context_ok (vkinds v) (length (vm_scs v)) (?c st)" for st
    using cur_ok [OF c assms(2)] by (simp add: context_ok_def)
  have "vm_ok ?v" using script_of_ok [OF sc assms(2)] assms(2) by (simp add: script_ok_def switch_stack_ok)
  then have set: "vm_ok (set_cur (?c st) ?v)" for st using cok by (intro set_cur_ok) simp_all
  then have push: "vm_ok ((PushItem ex (set_cur (?c st) ?v))\<lparr>vm_uncaughtException := None\<rparr>)" for st
    by (intro exception_ok PushItem_ok set) (simp add: assms(3))
  from assms(1) show ?thesis
    by (auto simp: enter_handler_def c sc es Let_def dest!: Jump_ok intro: set push split: if_splits)
qed

lemma handleException_ok: "handleException H v = Some v' \<Longrightarrow> vm_ok v \<Longrightarrow> wf_host H \<Longrightarrow> vm_ok v'"
proof -
  assume h: "handleException H v = Some v'" and v: "vm_ok v" and H: "wf_host H"
  from h obtain ex n u where ex: "vm_uncaughtException v = Some ex" and u: "unload_top H n v = Some u"
    and e: "enter_handler ex u = Some v'" by (auto simp: handleException_def split: Option.bind_splits)
  have "item_ok (vkinds v) ex" using v ex by (simp add: vm_ok_def)
  with unload_top_ok [OF u v H] have "vm_ok u" "item_ok (vkinds u) ex" by (auto intro: item_ok_grows)
  then show ?thesis by (rule enter_handler_ok [OF e])
qed

lemma throw_ok: "throw H it v = Some v' \<Longrightarrow> vm_ok v \<Longrightarrow> item_ok (vkinds v) it \<Longrightarrow> wf_host H \<Longrightarrow> vm_ok v'"
  unfolding throw_def by (rule handleException_ok [of H "v\<lparr>vm_uncaughtException := Some it\<rparr>"]) (simp_all add: exception_ok)

end
