(* ===== verification/Vm_Wf_Exec.thy ===== *)
theory Vm_Wf_Exec
  imports Vm_Wf_Prim
begin

text \<open>Every instruction keeps the states well formed.\<close>

section \<open>Conversions and clones\<close>

definition extends :: "heap \<Rightarrow> heap \<Rightarrow> bool" where
  "extends h h' \<longleftrightarrow> heap_ok h' \<and> (\<exists>ls. kinds h' = kinds h @ ls)"

lemma extends_refl: "heap_ok h \<Longrightarrow> extends h h"
  by (simp add: extends_def)

lemma extends_trans: "extends h h' \<Longrightarrow> extends h' h'' \<Longrightarrow> extends h h''"
  by (auto simp: extends_def)

lemma extends_item: "extends h h' \<Longrightarrow> item_ok (kinds h) it \<Longrightarrow> item_ok (kinds h') it"
  by (auto simp: extends_def item_ok_append)

lemma alloc_extends:
  "alloc c h = (a, h') \<Longrightarrow> heap_ok h \<Longrightarrow> content_ok (kinds h) c \<Longrightarrow> extends h h' \<and> has_kind (kinds h') a (kind_of c)"
  using alloc_ok [of c h a h'] by (auto simp: extends_def)

lemma convertPrimitive_ok:
  "convertPrimitive it t h = Some (it', h') \<Longrightarrow> heap_ok h \<Longrightarrow> item_ok (kinds h) it \<Longrightarrow> extends h h' \<and> item_ok (kinds h') it'"
  by (auto simp: convertPrimitive_def extends_refl NewBigInteger_ok TryBytes_ok dest!: alloc_extends
      split: if_splits Option.bind_splits prod.splits intro: TryBytes_ok)

lemma Convert_ok:
  "Convert it t h = Some (it', h') \<Longrightarrow> heap_ok h \<Longrightarrow> item_ok (kinds h) it \<Longrightarrow> extends h h' \<and> item_ok (kinds h') it'"
  by (cases it)
    (auto simp: extends_refl NewBigInteger_ok dest: convertPrimitive_ok get_raw_ok dest!: alloc_extends
      split: if_splits Option.bind_splits prod.splits, (auto dest: get_elems_ok)?)

lemma clone_fields_ok:
  assumes "\<And>a l h b l' h'. rec a l h = Some (b, l', h') \<Longrightarrow> heap_ok h \<Longrightarrow> extends h h' \<and> has_kind (kinds h') b KElems"
  shows "clone_fields rec xs l h = Some (ys, l', h') \<Longrightarrow> heap_ok h \<Longrightarrow> items_ok (kinds h) xs \<Longrightarrow>
    extends h h' \<and> items_ok (kinds h') ys"
proof (induction xs arbitrary: l h ys)
  case Nil
  then show ?case by (simp add: extends_refl)
next
  case (Cons x xs)
  from Cons.prems(1) obtain y k g zs where y: "(case x of StructItem a \<Rightarrow> do { (b, limit, h) \<leftarrow> rec a (l - 1) h; Some (StructItem b, limit, h) }
        | _ \<Rightarrow> Some (x, l - 1, h)) = Some (y, k, g)"
    and zs: "clone_fields rec xs k g = Some (zs, l', h')" and ys: "ys = y # zs"
    by (auto split: if_splits Option.bind_splits)
  have g: "extends h g \<and> item_ok (kinds g) y"
    using y Cons.prems(2,3) assms by (auto simp: extends_refl split: stackitem.splits Option.bind_splits)
  then have "extends g h' \<and> items_ok (kinds h') zs"
    using Cons.IH [OF zs] Cons.prems(3) by (auto simp: extends_item extends_def item_ok_append)
  with g ys show ?case by (auto intro: extends_trans extends_item)
qed

lemma clone_ok: "clone n a l h = Some (b, l', h') \<Longrightarrow> heap_ok h \<Longrightarrow> extends h h' \<and> has_kind (kinds h') b KElems"
proof (induction n arbitrary: a l h b l' h')
  case (Suc n)
  from Suc.prems obtain xs ys g where xs: "get_elems h a = Some xs" and ys: "clone_fields (clone n) xs l h = Some (ys, l', g)"
    and al: "alloc (Elems ys) g = (b, h')"
    by (auto split: Option.bind_splits prod.splits)
  have g: "extends h g \<and> items_ok (kinds g) ys"
    by (rule clone_fields_ok [OF _ ys]) (use Suc.IH get_elems_ok [OF xs] Suc.prems(2) in blast)+
  then have "extends g h' \<and> has_kind (kinds h') b KElems"
    using alloc_extends [OF al] by (auto simp: extends_def)
  with g show ?case by (auto intro: extends_trans)
qed simp

lemma cloneIfStruct_ok:
  "cloneIfStruct it h = Some (it', h') \<Longrightarrow> heap_ok h \<Longrightarrow> item_ok (kinds h) it \<Longrightarrow> extends h h' \<and> item_ok (kinds h') it'"
  by (auto simp: cloneIfStruct_def Struct_Clone_def extends_refl dest!: clone_ok split: stackitem.splits Option.bind_splits)

lemma clone_all_ok:
  "clone_all its h = Some (its', h') \<Longrightarrow> heap_ok h \<Longrightarrow> items_ok (kinds h) its \<Longrightarrow> extends h h' \<and> items_ok (kinds h') its'"
proof (induction its arbitrary: h its')
  case (Cons it its)
  from Cons.prems obtain x g xs where x: "cloneIfStruct it h = Some (x, g)" and xs: "clone_all its g = Some (xs, h')"
    and eq: "its' = x # xs" by (auto split: Option.bind_splits)
  have g: "extends h g \<and> item_ok (kinds g) x" using cloneIfStruct_ok [OF x] Cons.prems by simp
  then have "extends g h' \<and> items_ok (kinds h') xs"
    using Cons.IH [OF xs] Cons.prems(3) by (auto simp: extends_def item_ok_append)
  with g eq show ?case by (auto intro: extends_trans extends_item)
qed (simp add: extends_refl)

lemma extends_vm: "vm_ok v \<Longrightarrow> extends (vm_heap v) h \<Longrightarrow> vm_ok (v\<lparr>vm_heap := h\<rparr>)"
  by (auto simp: extends_def intro: new_heap_ok)

section \<open>Constants and control flow\<close>

lemma param_size_bound:
  assumes "param_size prog op p = Some (n, start)" and "op \<in> {opPUSHDATA1, opPUSHDATA2, opPUSHDATA4}"
  shows "int n \<le> MaxSize"
proof -
  have "(256::nat) ^ length (take 2 (drop p prog)) \<le> 256 ^ 2" by (rule power_increasing) simp_all
  with le_nat_less [of "take 2 (drop p prog)"] have "le_nat (take 2 (drop p prog)) < 65536" by simp
  moreover have "unat (prog ! p) \<le> 131070" using unat_byte_less [of "prog ! p"] by linarith
  ultimately show ?thesis
    using assms by (elim insertE emptyE) (auto simp: param_size_def MaxSize_def Let_def split: if_splits)
qed

text \<open>The decoder never hands an instruction a longer string than the machine allows.\<close>

definition param_ok :: "byte \<Rightarrow> bytes \<Rightarrow> bool" where
  "param_ok op param \<longleftrightarrow> (op \<in> {opPUSHDATA1, opPUSHDATA2, opPUSHDATA4} \<longrightarrow> int (length param) \<le> MaxSize)"

lemma Next_ok: "Next v = Some (op, param, v') \<Longrightarrow> vm_ok v \<Longrightarrow> vm_ok v' \<and> param_ok op param"
  by (auto simp: Next_def Let_def param_ok_def intro!: set_cur_ok dest!: cur_ok param_size_bound split: Option.bind_splits if_splits)

lemma execute_push_ok: "execute_push H op param v = Some v' \<Longrightarrow> vm_ok v \<Longrightarrow> param_ok op param \<Longrightarrow> vm_ok v'"
  by (auto simp: execute_push_def param_ok_def intro!: PushItem_ok dest: pushInt_ok split: if_splits Option.bind_splits)

lemma execute_jump_ok: "execute_jump op param v = Some v' \<Longrightarrow> vm_ok v \<Longrightarrow> vm_ok v'"
  by (auto simp: execute_jump_def jump_taken_def dest!: pops_ok Jump_ok split: if_splits Option.bind_splits)

lemma execute_call_ok: "execute_call H op param v = Some v' \<Longrightarrow> vm_ok v \<Longrightarrow> wf_host H \<Longrightarrow> vm_ok v'"
proof -
  assume ex: "execute_call H op param v = Some v'" and v: "vm_ok v" and H: "wf_host H"
  then obtain c where c: "cur v = Some c" by (auto simp: execute_call_def split: Option.bind_splits)
  have sc: "cx_sc c < length (vm_scs v)" using cur_ok [OF c v] by (simp add: context_ok_def)
  have pop: "Pop v = Some (it, u) \<Longrightarrow> cx_sc c < length (vm_scs u)" for it u
    using code.view_Pop [of v it u] sc by simp
  have calla: "vm_ok v'" if "Pop v = Some (it, u)" "call c p u = Some v'" for it u p
    using that pop Pop_ok v by (metis call_ok)
  have tok: "ho_LoadToken H = Some load \<Longrightarrow> load n v = Some v' \<Longrightarrow> vm_ok v'" for load n
    using H v unfolding wf_host_def by blast
  show ?thesis
    using ex by (auto simp: execute_call_def c intro: tok calla call_ok [OF _ v sc]
        split: if_splits Option.bind_splits stackitem.splits)
qed

lemma execute_try_ok: "execute_try op param v = Some v' \<Longrightarrow> vm_ok v \<Longrightarrow> vm_ok v'"
  by (auto simp: execute_try_def Let_def context_ok_def intro!: set_cur_ok dest!: cur_ok split: if_splits Option.bind_splits prod.splits)

lemma execute_endtry_ok: "execute_endtry param v = Some v' \<Longrightarrow> vm_ok v \<Longrightarrow> vm_ok v'"
proof -
  assume ex: "execute_endtry param v = Some v'" and v: "vm_ok v"
  then obtain c e es where c: "cur v = Some c" and es: "cx_tryStack c = e # es"
    by (auto simp: execute_endtry_def split: Option.bind_splits list.splits)
  have "vm_ok (set_cur (c\<lparr>cx_tryStack := ts\<rparr>) v)" if "length ts \<le> Suc (length es)" for ts
    using cur_ok [OF c v] es that by (intro set_cur_ok v) (auto simp: context_ok_def)
  then show ?thesis using ex
    by (auto simp: execute_endtry_def c es dest!: Jump_ok split: if_splits Option.bind_splits)
qed

lemma execute_endfinally_ok: "execute_endfinally H v = Some v' \<Longrightarrow> vm_ok v \<Longrightarrow> wf_host H \<Longrightarrow> vm_ok v'"
  by (auto simp: execute_endfinally_def context_ok_def intro: set_cur_ok dest!: Jump_ok cur_ok dest: handleException_ok
      split: if_splits Option.bind_splits list.splits)

lemma move_results_ok:
  "move_results n old new v = Some v' \<Longrightarrow> vm_ok v \<Longrightarrow> old < length (vm_stacks v) \<Longrightarrow> new < length (vm_stacks v) \<Longrightarrow>
    vm_ok v' \<and> length (vm_stacks v') = length (vm_stacks v)"
proof (induction n arbitrary: v)
  case (Suc n)
  from Suc.prems(1) obtain it u where u: "RemoveAt n (v\<lparr>vm_estack := old\<rparr>) = Some (it, u)"
    and m: "move_results n old new (PushItem it (u\<lparr>vm_estack := new\<rparr>)) = Some v'" by (auto split: Option.bind_splits)
  have ok: "vm_ok u \<and> vkinds u = vkinds v \<and> item_ok (vkinds v) it"
    using RemoveAt_ok [OF u] Suc.prems(2,3) by (simp add: switch_stack_ok)
  have len: "length (vm_stacks u) = length (vm_stacks v)" using u by (auto simp: RemoveAt_def split: if_splits)
  have "vm_ok (PushItem it (u\<lparr>vm_estack := new\<rparr>))" using ok len Suc.prems(4) by (intro PushItem_ok switch_stack_ok) simp_all
  with Suc.IH [OF m] len Suc.prems(3,4) show ?case by simp
qed simp

lemma execute_ret_ok:
  assumes "execute_ret H v = Some v'" and "vm_ok v" and "wf_host H"
  shows "vm_ok v'"
proof -
  from assms(1) obtain c cs u where v: "vm_istack v = c # cs" and u: "unloadContext H c (v\<lparr>vm_istack := cs\<rparr>) = Some u"
    by (auto simp: execute_ret_def Let_def split: list.splits Option.bind_splits)
  have "vm_ok (v\<lparr>vm_istack := cs\<rparr>)" using assms(2) v by (auto simp: vm_ok_def)
  with unloadContext_ok [OF u _ assms(3)] have uok: "vm_ok u" and old: "vm_estack v < length (vm_stacks u)"
    using assms(2) by (auto simp: grows_def vm_ok_def)
  have new: "script u c' = Some sc \<Longrightarrow> sc_estack sc < length (vm_stacks u)" for c' sc
    using script_of_ok [OF _ uok] by (simp add: script_ok_def)
  show ?thesis
    using assms(1) uok old
    by (auto simp: execute_ret_def v u Let_def new split: if_splits Option.bind_splits
        dest!: move_results_ok intro!: switch_stack_ok)
qed

lemma execute_throw_ok: "Pop v = Some (it, u) \<Longrightarrow> throw H it u = Some v' \<Longrightarrow> vm_ok v \<Longrightarrow> wf_host H \<Longrightarrow> vm_ok v'"
  using Pop_ok [of v it u] throw_ok [of H it u v'] by simp

lemma syscall_ok: "ho_SyscallHandler H = Some f \<Longrightarrow> f n v = Some v' \<Longrightarrow> vm_ok v \<Longrightarrow> wf_host H \<Longrightarrow> vm_ok v'"
  unfolding wf_host_def by blast

lemma execute_control_ok: "execute_control H op param v = Some v' \<Longrightarrow> vm_ok v \<Longrightarrow> wf_host H \<Longrightarrow> vm_ok v'"
  by (auto simp: execute_control_def split: if_splits Option.bind_splits
      dest!: execute_jump_ok execute_call_ok execute_try_ok execute_endtry_ok execute_endfinally_ok execute_ret_ok pops_ok
      intro: execute_throw_ok syscall_ok)

section \<open>Stack, slots and byte strings\<close>

lemma Peek_push_ok: "Peek n v = Some it \<Longrightarrow> vm_ok v \<Longrightarrow> vm_ok (PushItem it v)"
  by (intro PushItem_ok) (auto dest: Peek_ok)

lemma execute_stack_ok: "execute_stack op v = Some v' \<Longrightarrow> vm_ok v \<Longrightarrow> vm_ok v'"
  by (auto simp: execute_stack_def split: if_splits Option.bind_splits
      dest!: pushInt_ok Pop_ok RemoveAt_ok pops_ok Swap_ok Roll_ok ReverseTop_ok intro: Clear_ok Peek_push_ok InsertAt_ok dest: Peek_ok)

lemma fill_arguments_ok:
  "fill_arguments i n s v = Some (s', v') \<Longrightarrow> vm_ok v \<Longrightarrow> slot_ok (vkinds v) s \<Longrightarrow>
    vm_ok v' \<and> vkinds v' = vkinds v \<and> slot_ok (vkinds v) s'"
proof (induction n arbitrary: i s v)
  case (Suc n)
  from Suc.prems(1) obtain it u s1 w where p: "Pop v = Some (it, u)" and st: "slot_set s i it u = Some (s1, w)"
    and f: "fill_arguments (i + 1) n s1 w = Some (s', v')" by (auto split: Option.bind_splits)
  have "vm_ok u \<and> vkinds u = vkinds v \<and> item_ok (vkinds v) it" using Pop_ok [OF p] Suc.prems by simp
  with slot_set_ok [OF st] Suc.prems(3) have "vm_ok w \<and> vkinds w = vkinds v \<and> slot_ok (vkinds v) s1" by simp
  with Suc.IH [OF f] show ?case by simp
qed simp

lemma execute_initslot_ok:
  assumes "execute_initslot param v = Some v'" and "vm_ok v"
  shows "vm_ok v'"
proof -
  from assms(1) obtain c loc u args w where c: "cur v = Some c"
    and l: "(if unat (param ! 0) > 0 then slot_init None (unat (param ! 0)) v else Some (None, v)) = Some (loc, u)"
    and a: "(if unat (param ! 1) > 0 then do { (s, v) \<leftarrow> slot_init None (unat (param ! 1)) u; fill_arguments 0 (unat (param ! 1)) s v }
        else Some (None, u)) = Some (args, w)"
    and v': "v' = set_cur (c\<lparr>cx_local := loc, cx_arguments := args\<rparr>) w"
    by (auto simp: execute_initslot_def Let_def simp del: unat_gt_0 split: if_splits Option.bind_splits)
  have byte: "unat (param ! i) \<le> 255" for i using unat_byte_less [of "param ! i"] by linarith
  have u: "vm_ok u \<and> vkinds u = vkinds v \<and> slot_ok (vkinds v) loc"
    using l assms(2) byte by (auto split: if_splits dest: slot_init_ok)
  have w: "vm_ok w \<and> vkinds w = vkinds v \<and> slot_ok (vkinds v) args"
    using a u byte [of 1] slot_init_ok [of None "unat (param ! 1)" u]
    by (fastforce split: if_splits Option.bind_splits dest: fill_arguments_ok)
  have "vm_scs w = vm_scs v"
    using l a by (auto dest!: code.view_slot_init code.view_fill_arguments split: if_splits Option.bind_splits)
  with w u cur_ok [OF c assms(2)] show ?thesis
    unfolding v' by (intro set_cur_ok) (auto simp: context_ok_def)
qed

lemma length_stacks_count_out_opt [simp]: "length (vm_stacks (count_out_opt x v)) = length (vm_stacks v)"
  by (simp add: count_out_opt_def split: option.split)

lemma store_ok:
  assumes "Pop v = Some (it, u)" and "slot_set s i it u = Some (s', w)" and "vm_ok v" and "slot_ok (vkinds v) s"
  shows "vm_ok w \<and> vkinds w = vkinds v \<and> slot_ok (vkinds v) s' \<and> vm_scs w = vm_scs v \<and> length (vm_stacks w) = length (vm_stacks v)"
proof -
  have "vm_ok u \<and> vkinds u = vkinds v \<and> item_ok (vkinds v) it" using Pop_ok [OF assms(1)] assms(3) by simp
  with slot_set_ok [OF assms(2)] assms(4) have "vm_ok w \<and> vkinds w = vkinds v \<and> slot_ok (vkinds v) s'" by simp
  moreover have "vm_scs w = vm_scs v" using code.view_Pop [OF assms(1)] code.view_slot_set [OF assms(2)] by simp
  moreover have "length (vm_stacks w) = length (vm_stacks v)"
    using assms(1,2) by (auto simp: Pop_def slot_set_def split: list.splits option.splits if_splits)
  ultimately show ?thesis by blast
qed

lemma execute_slot_ok:
  assumes "execute_slot op param v = Some v'" and v: "vm_ok v"
  shows "vm_ok v'"
proof -
  from assms(1) obtain c sc where c: "cur v = Some c" and sc: "script v c = Some sc"
    by (auto simp: execute_slot_def split: Option.bind_splits)
  have cok: "context_ok (vkinds v) (length (vm_scs v)) c" and sok: "script_ok (vkinds v) (length (vm_stacks v)) sc"
    using cur_ok [OF c v] script_of_ok [OF sc v] by simp_all
  have get: "vm_ok (PushItem it v)" if "slot_get s i = Some it" "s \<in> {sc_static sc, cx_local c, cx_arguments c}" for s i it
    using that cok sok v by (intro PushItem_ok) (auto simp: context_ok_def script_ok_def intro: slot_get_ok)
  have init: "vm_ok (set_script (cx_sc c) (sc\<lparr>sc_static := s\<rparr>) w)" if "slot_init (sc_static sc) (unat b) v = Some (s, w)" for b :: byte and s w
  proof -
    have "unat b \<le> 255" using unat_byte_less [of b] by linarith
    moreover have "length (vm_stacks w) = length (vm_stacks v)" using that by (auto simp: slot_init_def split: option.splits)
    ultimately show ?thesis using slot_init_ok [OF that v] sok by (intro set_script_ok) (auto simp: script_ok_def)
  qed
  have static: "vm_ok (set_script (cx_sc c) (sc\<lparr>sc_static := s\<rparr>) w)"
    if "Pop v = Some (it, u)" "slot_set (sc_static sc) i it u = Some (s, w)" for it u i s w
    using store_ok [OF that v] sok by (intro set_script_ok) (auto simp: script_ok_def)
  have local: "vm_ok (set_cur (c\<lparr>cx_local := s\<rparr>) w)"
    if "Pop v = Some (it, u)" "slot_set (cx_local c) i it u = Some (s, w)" for it u i s w
    using store_ok [OF that v] cok by (intro set_cur_ok) (auto simp: context_ok_def)
  have args: "vm_ok (set_cur (c\<lparr>cx_arguments := s\<rparr>) w)"
    if "Pop v = Some (it, u)" "slot_set (cx_arguments c) i it u = Some (s, w)" for it u i s w
    using store_ok [OF that v] cok by (intro set_cur_ok) (auto simp: context_ok_def)
  from assms(1) show ?thesis
    by (auto simp: execute_slot_def c sc intro: get init static local args execute_initslot_ok [OF _ v]
        split: if_splits Option.bind_splits)
qed

lemma raw_ok: "vm_ok v \<Longrightarrow> int (length bs) \<le> MaxSize \<Longrightarrow> vm_ok (pushNew BufferItem (Raw bs) v)"
  by (rule pushNew_ok) simp_all

lemma execute_splice_ok: "execute_splice op v = Some v' \<Longrightarrow> vm_ok v \<Longrightarrow> vm_ok v'"
  by (auto simp: execute_splice_def split: if_splits Option.bind_splits stackitem.splits
      dest!: pops_ok popBytes_ok Pop_ok intro!: raw_ok put_ok)
    (auto simp: min_def dest: get_raw_ok vm_ok_heap)

section \<open>Numbers, comparisons and types\<close>

lemma arith_ok:
  "unInt f v = Some v' \<Longrightarrow> vm_ok v \<Longrightarrow> vm_ok v'" "binInt g v = Some v' \<Longrightarrow> vm_ok v \<Longrightarrow> vm_ok v'"
  "cmpInt p v = Some v' \<Longrightarrow> vm_ok v \<Longrightarrow> vm_ok v'" "cmpNull p v = Some v' \<Longrightarrow> vm_ok v \<Longrightarrow> vm_ok v'"
  by (auto simp: unInt_def binInt_def cmpInt_def cmpNull_def intro!: PushItem_ok dest!: pops_ok pushInt_ok Pop_ok
      split: if_splits Option.bind_splits)

lemma execute_bitwise_ok: "execute_bitwise op v = Some v' \<Longrightarrow> vm_ok v \<Longrightarrow> vm_ok v'"
  by (auto simp: execute_bitwise_def intro!: PushItem_ok dest!: arith_ok Pop_ok split: if_splits Option.bind_splits)

lemma execute_arith_ok: "execute_arith op v = Some v' \<Longrightarrow> vm_ok v \<Longrightarrow> vm_ok v'"
  by (auto simp: execute_arith_def dest!: arith_ok pops_ok pushInt_ok split: if_splits Option.bind_splits)

lemma execute_compare_ok: "execute_compare op v = Some v' \<Longrightarrow> vm_ok v \<Longrightarrow> vm_ok v'"
  by (auto simp: execute_compare_def intro!: PushItem_ok dest!: arith_ok pops_ok split: if_splits Option.bind_splits)

lemma execute_type_ok: "execute_type op param v = Some v' \<Longrightarrow> vm_ok v \<Longrightarrow> vm_ok v'"
  by (auto simp: execute_type_def intro!: PushItem_ok extends_vm dest!: Pop_ok pops_ok popBytes_ok split: if_splits Option.bind_splits)
    (auto dest: Convert_ok vm_ok_heap)

section \<open>Collections\<close>

lemma pop_n_ok: "pop_n n v = Some (its, v') \<Longrightarrow> vm_ok v \<Longrightarrow> vm_ok v' \<and> vkinds v' = vkinds v \<and> items_ok (vkinds v) its"
proof (induction n arbitrary: v its)
  case (Suc n)
  then obtain it u xs where "Pop v = Some (it, u)" "pop_n n u = Some (xs, v')" "its = it # xs"
    by (auto split: Option.bind_splits)
  with Suc.IH [of u xs] Pop_ok [of v it u] Suc.prems(2) show ?case by auto
qed simp

lemma pop_pairs_ok:
  "pop_pairs n v = Some (ps, v') \<Longrightarrow> vm_ok v \<Longrightarrow> vm_ok v' \<and> vkinds v' = vkinds v \<and> content_ok (vkinds v) (Pairs ps)"
proof (induction n arbitrary: v ps)
  case (Suc n)
  then obtain k u x w qs where "Pop v = Some (k, u)" "IsValidMapKey k" "Pop u = Some (x, w)" "pop_pairs n w = Some (qs, v')"
    "ps = (k, x) # qs" by (auto split: Option.bind_splits if_splits)
  with Suc.IH [of w qs] Pop_ok [of v k u] Pop_ok [of u x w] Suc.prems(2) show ?case by auto
qed simp

lemma makeArrayOfType_ok: "makeArrayOfType n t = Some its \<Longrightarrow> items_ok ks its"
  by (auto simp: makeArrayOfType_def MaxSize_def split: if_splits)

lemma elems_ok:
  "vm_ok v \<Longrightarrow> items_ok (vkinds v) xs \<Longrightarrow> vm_ok (pushNew ArrayItem (Elems xs) v)"
  "vm_ok v \<Longrightarrow> items_ok (vkinds v) xs \<Longrightarrow> vm_ok (pushNew StructItem (Elems xs) v)"
  "vm_ok v \<Longrightarrow> content_ok (vkinds v) (Pairs ps) \<Longrightarrow> vm_ok (pushNew MapItem (Pairs ps) v)"
  by (rule pushNew_ok; simp)+

lemma execute_create_ok: "execute_create op param v = Some v' \<Longrightarrow> vm_ok v \<Longrightarrow> vm_ok v'"
  by (auto simp: execute_create_def intro!: elems_ok dest!: pops_ok pop_n_ok pop_pairs_ok split: if_splits Option.bind_splits)
    (auto dest: makeArrayOfType_ok)

lemma push_all_ok: "vm_ok v \<Longrightarrow> items_ok (vkinds v) its \<Longrightarrow> vm_ok (push_all its v) \<and> vkinds (push_all its v) = vkinds v"
  by (induction its arbitrary: v) (auto simp: push_all_def PushItem_ok)

lemma execute_unpack_ok: "execute_unpack v = Some v' \<Longrightarrow> vm_ok v \<Longrightarrow> vm_ok v'"
proof -
  assume ex: "execute_unpack v = Some v'" and v: "vm_ok v"
  have all: "pushInt i (push_all its u) = Some v' \<Longrightarrow> vm_ok v'" if "vm_ok u" "items_ok (vkinds u) its" for i its u
    using push_all_ok [OF that] pushInt_ok by blast
  have el: "vm_ok u \<Longrightarrow> get_elems (vm_heap u) a = Some xs \<Longrightarrow> items_ok (vkinds u) (rev xs)" for u a xs
    using get_elems_ok vm_ok_heap by (auto dest!: get_elems_ok)
  have pr: "vm_ok u \<Longrightarrow> get_pairs (vm_heap u) a = Some ps \<Longrightarrow> items_ok (vkinds u) (concat (map (\<lambda>(k, x). [x, k]) (rev ps)))" for u a ps
    using get_pairs_ok [of "vm_heap u" a ps] vm_ok_heap [of u] by auto
  have "vm_ok u \<Longrightarrow> get_elems (vm_heap u) a = Some xs \<Longrightarrow> pushInt i (push_all (rev xs) u) = Some v' \<Longrightarrow> vm_ok v'" for u a xs i
    using all el by blast
  moreover have "vm_ok u \<Longrightarrow> get_pairs (vm_heap u) a = Some ps \<Longrightarrow>
      pushInt i (push_all (concat (map (\<lambda>(k, x). [x, k]) (rev ps))) u) = Some v' \<Longrightarrow> vm_ok v'" for u a ps i
    using all pr by blast
  ultimately show ?thesis using ex v
    by (auto simp: execute_unpack_def dest!: Pop_ok split: Option.bind_splits stackitem.splits)
qed

subsection \<open>Exceptions for indices out of range\<close>

lemma length_show_nat: "n < 10 ^ k \<Longrightarrow> 1 \<le> k \<Longrightarrow> length (show_nat n) \<le> k"
proof (induction n arbitrary: k rule: show_nat.induct)
  case (1 n)
  show ?case
  proof (cases "n < 10")
    case False
    with "1.prems" obtain j where k: "k = Suc j" "1 \<le> j" by (cases k; cases "k - 1") auto
    then have "n div 10 < 10 ^ j" using "1.prems" by (simp add: less_mult_imp_div_less)
    with "1.IH" [OF False] k False show ?thesis by (simp add: show_nat.simps [of n])
  qed (use "1.prems" in \<open>simp add: show_nat.simps [of n]\<close>)
qed

lemma key_index_range: "key_index key = Some i \<Longrightarrow> - (2 ^ 31) \<le> i \<and> i < 2 ^ 31"
  by (auto simp: key_index_def toInt_def split: Option.bind_splits if_splits)

lemma out_of_range_ok: "key_index key = Some i \<Longrightarrow> item_ok ks (out_of_range i)"
proof -
  assume "key_index key = Some i"
  then have "nat i < 10 ^ 10" "nat (- i) < 10 ^ 10" using key_index_range [of key i] by auto
  then have "length (show_nat (nat i)) \<le> 10" "length (show_nat (nat (- i))) \<le> 10" by (auto intro: length_show_nat)
  then show ?thesis by (simp add: out_of_range_def string_bytes_def show_int_def MaxSize_def)
qed

lemma pick_elem_ok:
  "pick_elem H key xs v = Some v' \<Longrightarrow> vm_ok v \<Longrightarrow> items_ok (vkinds v) xs \<Longrightarrow> wf_host H \<Longrightarrow> vm_ok v'"
  by (auto simp: pick_elem_def intro: PushItem_ok throw_ok out_of_range_ok split: if_splits Option.bind_splits)

lemma Map_Index_less: "Map_Index ps key = Some (Some i) \<Longrightarrow> i < length ps"
  by (induction ps key arbitrary: i rule: Map_Index.induct) (auto split: if_splits Option.bind_splits)

lemma pick_array_ok:
  "do { xs \<leftarrow> get_elems (vm_heap u) a; pick_elem H key xs u } = Some v' \<Longrightarrow> vm_ok u \<Longrightarrow> wf_host H \<Longrightarrow> vm_ok v'"
  using get_elems_ok [OF _ vm_ok_heap [of u]] pick_elem_ok by (auto split: Option.bind_splits)

lemma byte_item_ok: "item_ok ks (BigInteger (int (unat (b :: byte))))"
proof -
  have "int (unat b) < 256" using unat_byte_less [of b] by linarith
  moreover have "- (2 ^ 255) \<le> (0::int)" "(256::int) \<le> 2 ^ 255" "0 \<le> int (unat b)" by simp_all
  ultimately show ?thesis unfolding item_ok.simps by (meson less_le_trans order_trans)
qed

lemma pick_bytes_ok:
  assumes "do { arr \<leftarrow> TryBytes (vm_heap u) ob; pick_elem H key (map (\<lambda>b. BigInteger (int (unat b))) arr) u } = Some v'"
    and "vm_ok u" and "wf_host H"
  shows "vm_ok v'"
proof -
  have items: "items_ok ks (map (\<lambda>b. BigInteger (int (unat b))) arr)" for ks and arr :: bytes
    using byte_item_ok [of ks] by (simp del: item_ok.simps)
  show ?thesis using assms pick_elem_ok [OF _ _ items] by (cases "TryBytes (vm_heap u) ob") simp_all
qed

lemma pick_pair_ok:
  assumes "do { ps \<leftarrow> get_pairs (vm_heap u) a; r \<leftarrow> Map_Index ps key;
         case r of None \<Rightarrow> throw H (ByteArray (string_bytes ''Key not found in Map'')) u
         | Some i \<Rightarrow> Some (PushItem (snd (ps ! i)) u) } = Some v'"
    and u: "vm_ok u" and "wf_host H"
  shows "vm_ok v'"
proof -
  have pr: "vm_ok (PushItem (snd (ps ! i)) u)"
    if "get_pairs (vm_heap u) a = Some ps" "Map_Index ps key = Some (Some i)" for ps i
    using get_pairs_ok [OF that(1) vm_ok_heap [OF u]] Map_Index_less [OF that(2)] u
    by (intro PushItem_ok) (auto simp: case_prod_beta dest: nth_mem)
  have "throw H (ByteArray (string_bytes ''Key not found in Map'')) u = Some v' \<Longrightarrow> vm_ok v'"
    by (erule throw_ok [OF _ _ _ assms(3)]) (simp_all add: u string_bytes_def MaxSize_def)
  then show ?thesis using assms(1) pr by (auto split: Option.bind_splits option.splits)
qed

lemma execute_pickitem_ok: "execute_pickitem H v = Some v' \<Longrightarrow> vm_ok v \<Longrightarrow> wf_host H \<Longrightarrow> vm_ok v'"
proof -
  assume ex: "execute_pickitem H v = Some v'" and v: "vm_ok v" and H: "wf_host H"
  from ex obtain key u ob w where "Pop v = Some (key, u)" and "Pop u = Some (ob, w)" and
    body: "(case ob of
       ArrayItem a \<Rightarrow> do { xs \<leftarrow> get_elems (vm_heap w) a; pick_elem H key xs w }
     | StructItem a \<Rightarrow> do { xs \<leftarrow> get_elems (vm_heap w) a; pick_elem H key xs w }
     | MapItem a \<Rightarrow> do {
         ps \<leftarrow> get_pairs (vm_heap w) a; r \<leftarrow> Map_Index ps key;
         case r of
           None \<Rightarrow> throw H (ByteArray (string_bytes ''Key not found in Map'')) w
         | Some i \<Rightarrow> Some (PushItem (snd (ps ! i)) w) }
     | _ \<Rightarrow> do {
         arr \<leftarrow> TryBytes (vm_heap w) ob;
         pick_elem H key (map (\<lambda>b. BigInteger (int (unat b))) arr) w }) = Some v'"
    unfolding execute_pickitem_def by (elim bind_eq_Some_conv [THEN iffD1, THEN exE] exE conjE) (auto split: if_splits Option.bind_splits)
  then have w: "vm_ok w" using v by (auto dest!: Pop_ok)
  show ?thesis
    using body by (cases ob) (simp_all only: stackitem.case pick_array_ok [OF _ w H] pick_bytes_ok [OF _ w H] pick_pair_ok [OF _ w H])
qed

subsection \<open>Changes\<close>

lemma Map_Add_ok:
  assumes "Map_Add key it ps = Some ps'" and "content_ok ks (Pairs ps)" and "item_ok ks key" and "item_ok ks it"
  shows "content_ok ks (Pairs ps')"
proof -
  have upd: "content_ok ks (Pairs (ps[i := (fst (ps ! i), it)]))" if "i < length ps" for i
  proof -
    have "ps ! i \<in> set ps" using that by simp
    then show ?thesis using assms(2,4) by (auto simp: case_prod_beta dest!: set_update_subset_insert [THEN subsetD])
  qed
  from assms(1) consider i where "i < length ps" "ps' = ps[i := (fst (ps ! i), it)]"
    | "IsValidMapKey key" "ps' = ps @ [(key, it)]"
    by (auto simp: Map_Add_def split: if_splits Option.bind_splits option.splits dest: Map_Index_less)
  then show ?thesis using assms(2-4) upd by cases auto
qed

lemma put_elems_ok:
  "vm_ok v \<Longrightarrow> get_elems (vm_heap v) a = Some xs \<Longrightarrow> items_ok (vkinds v) ys \<Longrightarrow> vm_ok u \<Longrightarrow> vkinds u = vkinds v \<Longrightarrow>
    vm_ok (u\<lparr>vm_heap := set_value a (Elems ys) (vm_heap u)\<rparr>)"
  using get_elems_ok [of "vm_heap v" a xs] by (intro put_ok) (auto dest: vm_ok_heap)

lemma put_pairs_ok:
  "vm_ok v \<Longrightarrow> get_pairs (vm_heap v) a = Some xs \<Longrightarrow> content_ok (vkinds v) (Pairs ys) \<Longrightarrow> vm_ok u \<Longrightarrow> vkinds u = vkinds v \<Longrightarrow>
    vm_ok (u\<lparr>vm_heap := set_value a (Pairs ys) (vm_heap u)\<rparr>)"
  using get_pairs_ok [of "vm_heap v" a xs] by (intro put_ok) (auto dest: vm_ok_heap)

lemma put_raw_ok:
  "vm_ok v \<Longrightarrow> get_raw (vm_heap v) a = Some xs \<Longrightarrow> length ys = length xs \<Longrightarrow> vm_ok (v\<lparr>vm_heap := set_value a (Raw ys) (vm_heap v)\<rparr>)"
  using get_raw_ok [of "vm_heap v" a xs] by (intro put_ok) (auto dest: vm_ok_heap)

lemma elems_items: "vm_ok v \<Longrightarrow> get_elems (vm_heap v) a = Some xs \<Longrightarrow> items_ok (vkinds v) xs"
  using get_elems_ok [OF _ vm_ok_heap] by blast

lemma pairs_items: "vm_ok v \<Longrightarrow> get_pairs (vm_heap v) a = Some ps \<Longrightarrow> content_ok (vkinds v) (Pairs ps)"
  using get_pairs_ok [OF _ vm_ok_heap] by blast

lemma set_elem_ok:
  assumes "set_elem H a key it v = Some v'" and v: "vm_ok v" and "item_ok (vkinds v) it" and "wf_host H"
  shows "vm_ok v'"
proof -
  from assms(1) obtain xs i where xs: "get_elems (vm_heap v) a = Some xs" and i: "key_index key = Some i"
    by (auto simp: set_elem_def split: Option.bind_splits)
  have "items_ok (vkinds v) (xs[n := it])" for n
    using elems_items [OF v xs] assms(3) by (auto dest!: set_update_subset_insert [THEN subsetD])
  then have "vm_ok (u\<lparr>vm_heap := set_value a (Elems (xs[n := it])) (vm_heap u)\<rparr>)" if "u = count_out ys v" for n u ys
    using that v by (intro put_elems_ok [OF v xs]) simp_all
  then show ?thesis using assms(1) v throw_ok [OF _ v out_of_range_ok [OF i] assms(4)]
    by (auto simp: set_elem_def xs i Let_def split: if_splits)
qed

lemma set_pair_ok:
  assumes "set_pair a key it v = Some v'" and v: "vm_ok v" and "item_ok (vkinds v) it" and "item_ok (vkinds v) key"
  shows "vm_ok v'"
proof -
  from assms(1) obtain ps where ps: "get_pairs (vm_heap v) a = Some ps" by (auto simp: set_pair_def split: Option.bind_splits)
  have "Map_Add key it ps = Some ps' \<Longrightarrow> vm_ok u \<Longrightarrow> vkinds u = vkinds v \<Longrightarrow>
      vm_ok (u\<lparr>vm_heap := set_value a (Pairs ps') (vm_heap u)\<rparr>)" for ps' u
    using Map_Add_ok [OF _ pairs_items [OF v ps] assms(4,3)] by (intro put_pairs_ok [OF v ps]) simp_all
  then show ?thesis using assms by (auto simp: set_pair_def ps Let_def split: if_splits Option.bind_splits option.splits)
qed

lemma set_byte_ok: "set_byte H a key it v = Some v' \<Longrightarrow> vm_ok v \<Longrightarrow> wf_host H \<Longrightarrow> vm_ok v'"
  by (auto simp: set_byte_def intro: throw_ok out_of_range_ok put_raw_ok split: if_splits Option.bind_splits)

lemma execute_setitem_ok: "execute_setitem H v = Some v' \<Longrightarrow> vm_ok v \<Longrightarrow> wf_host H \<Longrightarrow> vm_ok v'"
  by (auto simp: execute_setitem_def dest!: Pop_ok set_elem_ok set_pair_ok set_byte_ok
      split: if_splits Option.bind_splits stackitem.splits)

lemma append_elem_ok:
  assumes "append_elem a it v = Some v'" and v: "vm_ok v" and "item_ok (vkinds v) it"
  shows "vm_ok v'"
proof -
  from assms(1) obtain val h xs where cl: "cloneIfStruct it (vm_heap v) = Some (val, h)" and xs: "get_elems h a = Some xs"
    and v': "v' = count_in [val] (v\<lparr>vm_heap := set_value a (Elems (xs @ [val])) h\<rparr>)"
    by (auto simp: append_elem_def split: Option.bind_splits if_splits)
  have e: "extends (vm_heap v) h \<and> item_ok (kinds h) val" by (rule cloneIfStruct_ok [OF cl vm_ok_heap [OF v] assms(3)])
  define u where "u = v\<lparr>vm_heap := h\<rparr>"
  have u: "vm_ok u" using extends_vm [OF v] e by (simp add: u_def)
  have xs': "get_elems (vm_heap u) a = Some xs" using xs by (simp add: u_def)
  have "vm_ok (u\<lparr>vm_heap := set_value a (Elems (xs @ [val])) (vm_heap u)\<rparr>)"
    using elems_items [OF u xs'] e by (intro put_elems_ok [OF u xs' _ u]) (auto simp: u_def)
  then show ?thesis by (simp add: v' u_def)
qed

lemma reverse_elems_ok: "reverse_elems a v = Some v' \<Longrightarrow> vm_ok v \<Longrightarrow> vm_ok v'"
  by (auto simp: reverse_elems_def intro!: put_elems_ok [of v a] dest: elems_items split: if_splits Option.bind_splits)

lemma remove_elem_ok: "remove_elem a key v = Some v' \<Longrightarrow> vm_ok v \<Longrightarrow> vm_ok v'"
proof -
  assume ex: "remove_elem a key v = Some v'" and v: "vm_ok v"
  then obtain xs where xs: "get_elems (vm_heap v) a = Some xs" by (auto simp: remove_elem_def split: Option.bind_splits)
  have "items_ok (vkinds v) (take i xs @ drop (i + 1) xs)" for i
    using elems_items [OF v xs] by (auto dest!: in_set_takeD in_set_dropD)
  then have "vm_ok (v\<lparr>vm_heap := set_value a (Elems (take i xs @ drop (i + 1) xs)) (vm_heap v)\<rparr>)" for i
    by (intro put_elems_ok [OF v xs _ v]) simp_all
  then show ?thesis using ex v by (auto simp: remove_elem_def xs split: if_splits Option.bind_splits)
qed

lemma remove_pair_ok: "remove_pair a key v = Some v' \<Longrightarrow> vm_ok v \<Longrightarrow> vm_ok v'"
proof -
  assume ex: "remove_pair a key v = Some v'" and v: "vm_ok v"
  then obtain ps where ps: "get_pairs (vm_heap v) a = Some ps" by (auto simp: remove_pair_def split: Option.bind_splits)
  have "content_ok (vkinds v) (Pairs (take i ps @ drop (i + 1) ps))" for i
    using pairs_items [OF v ps] by (auto dest!: in_set_takeD in_set_dropD)
  then have "vm_ok (v\<lparr>vm_heap := set_value a (Pairs (take i ps @ drop (i + 1) ps)) (vm_heap v)\<rparr>)" for i
    by (intro put_pairs_ok [OF v ps _ v]) simp_all
  then show ?thesis using ex v by (auto simp: remove_pair_def ps split: if_splits Option.bind_splits option.splits)
qed

lemma clear_items_ok:
  "clear_items ob a c v = Some v' \<Longrightarrow> vm_ok v \<Longrightarrow> has_kind (vkinds v) a (kind_of c) \<Longrightarrow> content_ok (vkinds v) c \<Longrightarrow> vm_ok v'"
  by (auto simp: clear_items_def Let_def intro!: put_ok split: if_splits)

lemma pop_elem_ok: "pop_elem a v = Some v' \<Longrightarrow> vm_ok v \<Longrightarrow> vm_ok v'"
proof -
  assume ex: "pop_elem a v = Some v'" and v: "vm_ok v"
  then obtain xs where xs: "get_elems (vm_heap v) a = Some xs" and ne: "xs \<noteq> []"
    by (auto simp: pop_elem_def split: Option.bind_splits if_splits)
  have it: "items_ok (vkinds v) xs" by (rule elems_items [OF v xs])
  have p: "vm_ok (PushItem (last xs) v)" using it ne v by (intro PushItem_ok) auto
  have "vm_ok ((PushItem (last xs) v)\<lparr>vm_heap := set_value a (Elems (butlast xs)) (vm_heap (PushItem (last xs) v))\<rparr>)"
    using it by (intro put_elems_ok [OF v xs _ p]) (auto dest: in_set_butlastD)
  then show ?thesis using ex by (auto simp: pop_elem_def xs ne Let_def split: if_splits)
qed

lemma push_values_ok: "push_values its v = Some v' \<Longrightarrow> vm_ok v \<Longrightarrow> items_ok (vkinds v) its \<Longrightarrow> vm_ok v'"
proof -
  assume ex: "push_values its v = Some v'" and v: "vm_ok v" and its: "items_ok (vkinds v) its"
  then obtain ys h where ys: "clone_all its (vm_heap v) = Some (ys, h)" and v': "v' = pushNew ArrayItem (Elems ys) (v\<lparr>vm_heap := h\<rparr>)"
    by (auto simp: push_values_def split: Option.bind_splits)
  have e: "extends (vm_heap v) h \<and> items_ok (kinds h) ys" by (rule clone_all_ok [OF ys vm_ok_heap [OF v] its])
  then have "vm_ok (v\<lparr>vm_heap := h\<rparr>)" using extends_vm [OF v] by blast
  then show ?thesis using e unfolding v' by (intro elems_ok) simp_all
qed

lemma collection_reads_ok:
  "execute_size v = Some v' \<Longrightarrow> vm_ok v \<Longrightarrow> vm_ok v'"
  "execute_haskey v = Some v' \<Longrightarrow> vm_ok v \<Longrightarrow> vm_ok v'"
  by (auto simp: execute_size_def execute_haskey_def intro!: PushItem_ok dest!: Pop_ok pushInt_ok
      split: if_splits Option.bind_splits)

lemma execute_keys_ok: "execute_keys v = Some v' \<Longrightarrow> vm_ok v \<Longrightarrow> vm_ok v'"
  by (auto simp: execute_keys_def intro!: elems_ok dest!: Pop_ok split: Option.bind_splits stackitem.splits)
    (auto dest!: pairs_items)

lemma execute_values_ok: "execute_values v = Some v' \<Longrightarrow> vm_ok v \<Longrightarrow> vm_ok v'"
proof -
  assume ex: "execute_values v = Some v'" and v: "vm_ok v"
  have "vm_ok u \<Longrightarrow> get_elems (vm_heap u) a = Some xs \<Longrightarrow> push_values xs u = Some v' \<Longrightarrow> vm_ok v'" for u a xs
    using push_values_ok elems_items by blast
  moreover have "vm_ok u \<Longrightarrow> get_pairs (vm_heap u) a = Some ps \<Longrightarrow> push_values (map snd ps) u = Some v' \<Longrightarrow> vm_ok v'" for u a ps
    using push_values_ok [of "map snd ps" u v'] pairs_items [of u a ps] by (auto simp: case_prod_beta)
  ultimately show ?thesis
    using ex v by (auto simp: execute_values_def dest!: Pop_ok split: Option.bind_splits stackitem.splits)
qed

lemma execute_append_ok: "execute_append v = Some v' \<Longrightarrow> vm_ok v \<Longrightarrow> vm_ok v'"
  by (auto simp: execute_append_def dest!: Pop_ok append_elem_ok split: Option.bind_splits stackitem.splits)

lemma execute_reverseitems_ok: "execute_reverseitems v = Some v' \<Longrightarrow> vm_ok v \<Longrightarrow> vm_ok v'"
  by (auto simp: execute_reverseitems_def dest!: Pop_ok reverse_elems_ok split: Option.bind_splits stackitem.splits)
    (rule put_raw_ok, assumption+, simp)

lemma execute_remove_ok: "execute_remove v = Some v' \<Longrightarrow> vm_ok v \<Longrightarrow> vm_ok v'"
  by (auto simp: execute_remove_def dest!: Pop_ok remove_elem_ok remove_pair_ok split: if_splits Option.bind_splits stackitem.splits)

lemma execute_clearitems_ok: "execute_clearitems v = Some v' \<Longrightarrow> vm_ok v \<Longrightarrow> vm_ok v'"
  by (auto simp: execute_clearitems_def dest!: Pop_ok clear_items_ok split: Option.bind_splits stackitem.splits)

lemma execute_popitem_ok: "execute_popitem v = Some v' \<Longrightarrow> vm_ok v \<Longrightarrow> vm_ok v'"
  by (auto simp: execute_popitem_def dest!: Pop_ok pop_elem_ok split: Option.bind_splits stackitem.splits)

lemma execute_collection_ok: "execute_collection H op v = Some v' \<Longrightarrow> vm_ok v \<Longrightarrow> wf_host H \<Longrightarrow> vm_ok v'"
  by (auto simp: execute_collection_def split: if_splits
      dest: execute_unpack_ok collection_reads_ok execute_keys_ok execute_values_ok execute_pickitem_ok execute_append_ok
        execute_setitem_ok execute_reverseitems_ok execute_remove_ok execute_clearitems_ok execute_popitem_ok)

end
