(* ===== verification/Vm_Refs.thy ===== *)
theory Vm_Refs
  imports Vm_Wf_Exec "HOL-Library.Multiset"
begin

text \<open>
  The reference counter. It is exact for a multiset of roots when every object counts the references
  to it from the roots and from the objects that are alive, and the total is the number of roots
  and of items held by living objects. \<^verbatim>\<open>Add\<close> and \<^verbatim>\<open>Remove\<close> keep it exact, and so do the instructions, as
  long as a collection that is changed in place is still held by a root.
\<close>

section \<open>Exact counts\<close>

definition refs_to :: "addr \<Rightarrow> stackitem multiset \<Rightarrow> int" where
  "refs_to a M = int (size (filter_mset (\<lambda>it. counted_addr it = Some a) M))"

fun holds :: "content \<Rightarrow> stackitem multiset" where
  "holds (Elems xs) = mset xs"
| "holds (Pairs ps) = mset (concat (map (\<lambda>(k, x). [k, x]) ps))"
| "holds (Raw bs) = {#}"

definition obj_items :: "heap \<Rightarrow> addr \<Rightarrow> stackitem multiset" where
  "obj_items h a = (if a < length h then holds (ob_value (h ! a)) else {#})"

definition live :: "heap \<Rightarrow> addr set" where
  "live h = {a. a < length h \<and> 0 < rc_of h a}"

text \<open>
  The counts for the roots \<open>M\<close> with the items of \<open>P\<close> still to be added, when the objects hold what
  \<open>items\<close> says; \<open>items\<close> differs from the heap while an object is being changed.
\<close>

definition balance ::
  "(addr \<Rightarrow> stackitem multiset) \<Rightarrow> heap \<Rightarrow> int \<Rightarrow> stackitem multiset \<Rightarrow> stackitem multiset \<Rightarrow> bool" where
  "balance items h r P M \<longleftrightarrow>
     (\<forall>a<length h. 0 \<le> rc_of h a \<and> rc_of h a + refs_to a P = refs_to a M + (\<Sum>b\<in>live h. refs_to a (items b))) \<and>
     r + int (size P) = int (size M) + (\<Sum>b\<in>live h. int (size (items b)))"

definition exact :: "heap \<Rightarrow> int \<Rightarrow> stackitem multiset \<Rightarrow> bool" where
  "exact h r M \<longleftrightarrow> balance (obj_items h) h r {#} M"

lemma refs_to_simps [simp]:
  "refs_to a {#} = 0" "refs_to a (M + N) = refs_to a M + refs_to a N"
  "refs_to a (add_mset it M) = (if counted_addr it = Some a then 1 else 0) + refs_to a M" "0 \<le> refs_to a M"
  by (simp_all add: refs_to_def)

lemma finite_live [simp]: "finite (live h)"
  by (simp add: live_def)

lemma obj_items_add_rc [simp]: "obj_items (add_rc a d h) = obj_items h"
  by (auto simp: obj_items_def add_rc_def nth_list_update)

lemma live_add_rc: "a < length h \<Longrightarrow> live (add_rc a d h) = (if 0 < rc_of h a + d then insert a (live h) else live h - {a})"
  by (auto simp: live_def rc_of_add_rc)

subsection \<open>One item\<close>

lemma balance_plain: "counted_addr it = None \<Longrightarrow> balance items h r (add_mset it P) M \<longleftrightarrow> balance items h (r + 1) P M"
  by (auto simp: balance_def)

lemma balance_plain_out: "counted_addr it = None \<Longrightarrow> balance items h r P (add_mset it M) \<longleftrightarrow> balance items h (r - 1) P M"
  by (auto simp: balance_def)

lemma balance_inc:
  assumes "counted_addr it = Some a" and "a < length h" and "rc_of h a \<noteq> 0" and b: "balance items h r (add_mset it P) M"
  shows "balance items (add_rc a 1 h) (r + 1) P M"
proof -
  have "0 < rc_of h a" using b assms(2,3) by (force simp: balance_def)
  then have "live (add_rc a 1 h) = live h" using assms(2) by (auto simp: live_def rc_of_add_rc split: if_splits)
  with b assms(1,2) show ?thesis by (auto simp: balance_def rc_of_add_rc)
qed

lemma balance_new:
  assumes "counted_addr it = Some a" and "a < length h" and "rc_of h a = 0" and b: "balance items h r (add_mset it P) M"
  shows "balance items (add_rc a 1 h) (r + 1) (items a + P) M"
proof -
  have "a \<notin> live h" using assms(3) by (simp add: live_def)
  moreover have "live (add_rc a 1 h) = insert a (live h)" using assms(2,3) by (simp add: live_add_rc)
  ultimately have s: "(\<Sum>b\<in>live (add_rc a 1 h). f b) = f a + (\<Sum>b\<in>live h. f b)" for f :: "addr \<Rightarrow> int" by simp
  show ?thesis using b assms(1,2) by (auto simp: balance_def rc_of_add_rc s)
qed

lemma balance_dec:
  assumes "counted_addr it = Some a" and "a < length h" and "rc_of h a \<noteq> 1" and b: "balance items h r {#} (add_mset it M)"
  shows "balance items (add_rc a (-1) h) (r - 1) {#} M"
proof -
  have "rc_of h a = 1 + refs_to a M + (\<Sum>b\<in>live h. refs_to a (items b))" using b assms(1,2) by (simp add: balance_def)
  moreover have "0 \<le> (\<Sum>b\<in>live h. refs_to a (items b))" by (rule sum_nonneg) simp
  ultimately have pos: "1 < rc_of h a" using assms(3) refs_to_simps(4) [of a M] by linarith
  then have "live (add_rc a (-1) h) = live h" using assms(2) by (auto simp: live_def rc_of_add_rc split: if_splits)
  with b assms(1,2) pos show ?thesis by (auto simp: balance_def rc_of_add_rc)
qed

lemma balance_die:
  assumes "counted_addr it = Some a" and "a < length h" and "rc_of h a = 1" and b: "balance items h r {#} (add_mset it M)"
  shows "balance items (add_rc a (-1) h) (r - 1) {#} (items a + M)"
proof -
  have l: "live h = insert a (live (add_rc a (-1) h))" "a \<notin> live (add_rc a (-1) h)"
    using assms(2,3) by (auto simp: live_def rc_of_add_rc)
  have s: "(\<Sum>b\<in>live h. f b) = f a + (\<Sum>b\<in>live (add_rc a (-1) h). f b)" for f :: "addr \<Rightarrow> int"
    using l by (metis finite_live sum.insert)
  show ?thesis using b assms(1,2,3) by (auto simp: balance_def rc_of_add_rc s)
qed

subsection \<open>Lists of items\<close>

lemma kinds_add_rc [simp]: "kinds (add_rc a d h) = kinds h" "heap_ok (add_rc a d h) = heap_ok h"
  using heap_cong [OF contents_add_rc [of a d h]] by simp_all

lemma counted_typed: "counted_addr it = Some a \<Longrightarrow> item_ok (kinds h) it \<Longrightarrow> a < length h \<and> mset (children h it) = obj_items h a"
  by (cases it) (auto simp: has_kind_def kinds_def obj_items_def get_elems_def get_pairs_def obj_def elim!: kind_of.elims)

lemma children_ok: "item_ok (kinds h) it \<Longrightarrow> heap_ok h \<Longrightarrow> items_ok (kinds h) (children h it)"
  by (cases it) (auto split: option.splits dest!: get_elems_ok [OF sym] get_pairs_ok [OF sym])

lemma add_items_balance:
  "balance (obj_items h) h r (mset its) M \<Longrightarrow> heap_ok h \<Longrightarrow> items_ok (kinds h) its \<Longrightarrow> add_items its (h, r) = (h', r') \<Longrightarrow>
    exact h' r' M"
proof (induction its "(h, r)" arbitrary: h r rule: add_items.induct)
  case (2 it its h r)
  show ?case
  proof (cases "counted_addr it")
    case None
    with 2 show ?thesis by (simp add: add_items.simps balance_plain)
  next
    case (Some a)
    note typed = counted_typed [OF Some, of h]
    show ?thesis
    proof (cases "rc_of h a = 0")
      case True
      have "balance (obj_items h) (add_rc a 1 h) (r + 1) (mset (children (add_rc a 1 h) it @ its)) M"
        using balance_new [OF Some _ True, of "obj_items h" r "mset its" M] typed
          counted_typed [OF Some, of "add_rc a 1 h"] "2.prems" by simp
      with 2(2) [OF Some] True typed "2.prems" children_ok [of "add_rc a 1 h" it] Some show ?thesis
        by (auto simp: add_items.simps rc_of_add_rc Let_def)
    next
      case False
      have "balance (obj_items h) (add_rc a 1 h) (r + 1) (mset its) M"
        using balance_inc [OF Some _ False, of "obj_items h" r "mset its" M] typed "2.prems" by simp
      with 2(3) [OF Some] False typed "2.prems" Some show ?thesis by (auto simp: add_items.simps rc_of_add_rc Let_def)
    qed
  qed
qed (simp add: exact_def)

text \<open>An object held by a root that stays never dies, so its items do not matter.\<close>

lemma remove_items_balance:
  "balance items h r {#} (mset its + M) \<Longrightarrow> heap_ok h \<Longrightarrow> items_ok (kinds h) its \<Longrightarrow>
    \<forall>b<length h. items b = obj_items h b \<or> 0 < refs_to b M \<Longrightarrow> remove_items its (h, r) = (h', r') \<Longrightarrow>
    balance items h' r' {#} M \<and> obj_items h' = obj_items h \<and> length h' = length h"
proof (induction its "(h, r)" arbitrary: h r rule: remove_items.induct)
  case (2 it its h r)
  show ?case
  proof (cases "counted_addr it")
    case None
    with 2 show ?thesis by (simp add: remove_items.simps balance_plain_out)
  next
    case (Some a)
    note typed = counted_typed [OF Some, of h]
    show ?thesis
    proof (cases "rc_of h a = 1")
      case True
      have "rc_of h a = 1 + refs_to a (mset its) + refs_to a M + (\<Sum>b\<in>live h. refs_to a (items b))"
        using "2.prems"(1,3) Some typed by (simp add: balance_def)
      moreover have "0 \<le> (\<Sum>b\<in>live h. refs_to a (items b))" by (rule sum_nonneg) simp
      ultimately have "\<not> 0 < refs_to a M" using True refs_to_simps(4) [of a "mset its"] by linarith
      then have "items a = obj_items h a" using "2.prems"(3,4) typed by auto
      then have "balance items (add_rc a (-1) h) (r - 1) {#} (mset (children (add_rc a (-1) h) it @ its) + M)"
        using balance_die [OF Some _ True, of items r "mset its + M"] typed counted_typed [OF Some, of "add_rc a (-1) h"] "2.prems"
        by (simp add: add.assoc)
      with 2(2) [OF Some] True typed "2.prems" children_ok [of "add_rc a (-1) h" it] Some show ?thesis
        by (auto simp: remove_items.simps rc_of_add_rc Let_def)
    next
      case False
      have "balance items (add_rc a (-1) h) (r - 1) {#} (mset its + M)"
        using balance_dec [OF Some _ False, of items r "mset its + M"] typed "2.prems" by simp
      with 2(3) [OF Some] False typed "2.prems" Some show ?thesis by (auto simp: remove_items.simps rc_of_add_rc Let_def)
    qed
  qed
qed simp

lemma exact_remove:
  "exact h r (mset its + M) \<Longrightarrow> heap_ok h \<Longrightarrow> items_ok (kinds h) its \<Longrightarrow> remove_items its (h, r) = (h', r') \<Longrightarrow> exact h' r' M"
  unfolding exact_def using remove_items_balance [of "obj_items h" h r its M h' r'] by simp

lemma exact_add:
  "exact h r M \<Longrightarrow> heap_ok h \<Longrightarrow> items_ok (kinds h) its \<Longrightarrow> add_items its (h, r) = (h', r') \<Longrightarrow> exact h' r' (mset its + M)"
  by (rule add_items_balance [of h r its "mset its + M"]) (auto simp: exact_def balance_def refs_to_def)

section \<open>Changing an object\<close>

lemma rc_of_set_value [simp]: "rc_of (set_value a c h) b = rc_of h b" "length (set_value a c h) = length h"
  by (auto simp: rc_of_def set_value_def nth_list_update)

lemma live_set_value [simp]: "live (set_value a c h) = live h"
  by (auto simp: live_def)

lemma obj_items_set_value: "a < length h \<Longrightarrow> obj_items (set_value a c h) = (obj_items h)(a := holds c)"
  by (auto simp: obj_items_def set_value_def nth_list_update)

lemma balance_set_value [simp]: "balance items (set_value a c h) r P M = balance items h r P M"
  by (simp add: balance_def)

lemma sum_fun_upd:
  "finite A \<Longrightarrow> a \<in> A \<Longrightarrow> (\<Sum>b\<in>A. f ((g(a := x)) b)) = (\<Sum>b\<in>A. f (g b)) - f (g a) + (f x :: int)"
  by (simp add: sum.remove [of A a])

lemmas sum_upd = sum_fun_upd [where f = "refs_to c" for c] sum_fun_upd [where f = "\<lambda>M. int (size M)"]

text \<open>A living object that gets items has them to be counted; one that loses items has them counted once too often.\<close>

lemma balance_grow:
  assumes "a \<in> live h" and "balance items h r P M"
  shows "balance (items(a := N + items a)) h r (N + P) M"
  using assms by (auto simp: balance_def sum_upd simp del: fun_upd_apply)

lemma balance_shrink:
  assumes "a \<in> live h" and "balance items h r P M" and "items a = N + N'"
  shows "balance (items(a := N')) h r P (N + M)"
  using assms by (auto simp: balance_def sum_upd simp del: fun_upd_apply)

lemma held_live: "balance items h r {#} M \<Longrightarrow> 0 < refs_to a M \<Longrightarrow> a < length h \<Longrightarrow> a \<in> live h"
proof -
  assume b: "balance items h r {#} M" and pos: "0 < refs_to a M" and a: "a < length h"
  have "rc_of h a = refs_to a M + (\<Sum>b\<in>live h. refs_to a (items b))" using b a by (simp add: balance_def)
  moreover have "0 \<le> (\<Sum>b\<in>live h. refs_to a (items b))" by (rule sum_nonneg) simp
  ultimately show ?thesis using pos a by (simp add: live_def)
qed

end
