(* ===== verification/Vm_Termination.thy ===== *)
theory Vm_Termination
  imports Vm_Frame
begin

text \<open>
  When execution under a gas limit ends. Every instruction that is not free raises the gas consumed;
  the free ones are \<^verbatim>\<open>RET\<close>, which leaves a context, \<^verbatim>\<open>ABORT\<close> and \<^verbatim>\<open>ABORTMSG\<close>, which fault, and
  \<^verbatim>\<open>SYSCALL\<close>. So the gas left and the code left in the loaded contexts decrease lexicographically, unless a
  call of the host evades the meter: it leaves the gas counter lower than before, or as it was with other code loaded.
\<close>

section \<open>Prices\<close>

definition free_ops :: "byte list" where
  "free_ops = [opABORT, opABORTMSG, opRET, opSYSCALL]"

lemma opcodes_priced: "map fst coefficient_table = opcodes"
  unfolding opcodes_def coefficient_table_def by simp

lemma coefficient_bounds: "list_all (\<lambda>(op, n). n \<le> 32768 \<and> (n = 0) = (op \<in> set free_ops)) coefficient_table"
  unfolding coefficient_table_def free_ops_def by simp

lemma coefficients_bounds: "opcode_IsValid op \<Longrightarrow> coefficients op \<le> 32768 \<and> (coefficients op = 0) = (op \<in> set free_ops)"
proof -
  assume "opcode_IsValid op"
  then obtain n where n: "map_of coefficient_table op = Some n"
    unfolding opcode_IsValid_def opcodes_priced [symmetric] by (auto simp: map_of_eq_None_iff dest: weak_map_of_SomeI)
  then have "(op, n) \<in> set coefficient_table" by (rule map_of_SomeD)
  with coefficient_bounds n show ?thesis unfolding list_all_iff coefficients_def by auto
qed

lemma fee_Opcode_single: "fee_Opcode base [op] = word_of_nat (coefficients op) * base"
  by (simp add: fee_Opcode_def)

lemma sint_add_small:
  fixes a b :: int64
  assumes "0 \<le> sint a + sint b" and "sint a + sint b < 9223372036854775808"
  shows "sint (a + b) = sint a + sint b"
proof -
  have "sint (a + b) = signed_take_bit 63 (sint a + sint b)" by (simp add: sint_word_ariths)
  also have "\<dots> = sint a + sint b" using assms by (intro signed_take_bit_int_eq_self) simp_all
  finally show ?thesis .
qed

lemma sint_fee_Opcode:
  assumes "opcode_IsValid op" and "0 < sint base" and "32768 * sint base < 2 ^ 63"
  shows "sint (fee_Opcode base [op]) = int (coefficients op) * sint base"
proof -
  have c: "int (coefficients op) \<le> 32768" using coefficients_bounds [OF assms(1)] by simp
  then have le: "int (coefficients op) * sint base \<le> 32768 * sint base" using assms(2) by (intro mult_right_mono) simp_all
  define p where "p = int (coefficients op) * sint base"
  have "32768 * sint base < 9223372036854775808" using assms(3) by simp
  with le assms(2) have p: "0 \<le> p" "p < 9223372036854775808" unfolding p_def by (simp, linarith)
  have "fee_Opcode base [op] = word_of_int p" by (simp add: fee_Opcode_single p_def)
  then have "sint (fee_Opcode base [op]) = signed_take_bit 63 p" by (simp add: sint_sbintrunc')
  also have "\<dots> = p" using p by (intro signed_take_bit_int_eq_self) simp_all
  finally show ?thesis by (simp add: p_def)
qed

section \<open>What is asked of the host\<close>

text \<open>
  A machine within its limit, with room for one more instruction below the range of \<^verbatim>\<open>int64\<close>; and what a call of the host may do to it:
  the limit stays and the gas consumed does not pass it, as \<^verbatim>\<open>AddGas\<close> is checked at every charge.
\<close>

definition within_limit :: "vm \<Rightarrow> bool" where
  "within_limit v \<longleftrightarrow> 0 \<le> sint (vm_gasConsumed v) \<and> sint (vm_gasConsumed v) \<le> sint (vm_GasLimit v)"

definition running :: "int64 \<Rightarrow> vm \<Rightarrow> bool" where
  "running base v \<longleftrightarrow> within_limit v \<and> sint (vm_GasLimit v) + 32768 * sint base < 2 ^ 63"

definition obeys :: "vm \<Rightarrow> vm \<Rightarrow> bool" where
  "obeys v v' \<longleftrightarrow> vm_GasLimit v' = vm_GasLimit v \<and> sint (vm_gasConsumed v') \<le> sint (vm_GasLimit v)"

definition pays :: "vm \<Rightarrow> vm \<Rightarrow> bool" where
  "pays v v' \<longleftrightarrow> obeys v v' \<and> sint (vm_gasConsumed v) \<le> sint (vm_gasConsumed v')"

definition progs :: "vm \<Rightarrow> bytes list" where
  "progs v = map sc_prog (vm_scs v)"

definition same_code :: "vm \<Rightarrow> vm \<Rightarrow> bool" where
  "same_code v v' \<longleftrightarrow> vm_istack v' = vm_istack v \<and> progs v' = progs v"

text \<open>
  The prices are those of \<^verbatim>\<open>Context.GetPrice\<close>; the callback of an unloaded context touches neither the gas nor the contexts.
\<close>

definition metered_host :: "int64 \<Rightarrow> host \<Rightarrow> bool" where
  "metered_host base H \<longleftrightarrow>
     ho_getPrice H = Some (\<lambda>op param. fee_Opcode base [op]) \<and>
     (\<forall>handler n v v'. ho_SyscallHandler H = Some handler \<longrightarrow> running base v \<longrightarrow> handler n v = Some v' \<longrightarrow> obeys v v') \<and>
     (\<forall>load n v v'. ho_LoadToken H = Some load \<longrightarrow> running base v \<longrightarrow> load n v = Some v' \<longrightarrow> obeys v v') \<and>
     (\<forall>n c b v v'. ho_onUnload H n c b v = Some v' \<longrightarrow>
        vm_gasConsumed v' = vm_gasConsumed v \<and> vm_GasLimit v' = vm_GasLimit v \<and> same_code v v')"

text \<open>
  A call of the host that evades the meter: the next instruction is \<^verbatim>\<open>SYSCALL\<close> or \<^verbatim>\<open>CALLT\<close>, and it leaves the gas counter lower than it was,
  or just as it was although the contexts or their scripts are others.
\<close>

definition evades_meter :: "host \<Rightarrow> vm \<Rightarrow> bool" where
  "evades_meter H v \<longleftrightarrow> (\<exists>op param u. Next v = Some (op, param, u) \<and> op \<in> {opSYSCALL, opCALLT} \<and>
     (sint (vm_gasConsumed (step H v)) < sint (vm_gasConsumed v) \<or>
      vm_gasConsumed (step H v) = vm_gasConsumed v \<and> \<not> same_code u (step H v)))"

interpretation meter: control_frame "\<lambda>v. (vm_gasConsumed v, vm_GasLimit v)"
  by unfold_locales simp_all

lemma metered_host_unload: "metered_host base H \<Longrightarrow> meter.unload_keeps H"
  unfolding metered_host_def meter.unload_keeps_def by blast

section \<open>The code left\<close>

definition ctx_left :: "bytes list \<Rightarrow> vm_context \<Rightarrow> nat" where
  "ctx_left ps c = Suc (if cx_sc c < length ps then length (ps ! cx_sc c) - cx_nextip c else 0)"

definition code_left :: "vm \<Rightarrow> nat" where
  "code_left v = sum_list (map (ctx_left (progs v)) (vm_istack v))"

definition gas_left :: "vm \<Rightarrow> nat" where
  "gas_left v = nat (sint (vm_GasLimit v) - sint (vm_gasConsumed v))"

lemma code_left_cong: "same_code v v' \<Longrightarrow> code_left v' = code_left v"
  by (simp add: same_code_def code_left_def)

lemma same_code_refl [simp]: "same_code v v"
  by (simp add: same_code_def)

lemma same_code_trans: "same_code u v \<Longrightarrow> same_code v w \<Longrightarrow> same_code u w"
  by (simp add: same_code_def)

lemma same_codeI: "vm_istack v' = vm_istack v \<Longrightarrow> vm_scs v' = vm_scs v \<Longrightarrow> same_code v v'"
  by (simp add: same_code_def progs_def)

lemma script_progs: "script v c = Some sc \<Longrightarrow> cx_sc c < length (progs v) \<and> progs v ! cx_sc c = sc_prog sc"
  by (auto simp: script_def progs_def split: if_splits)

lemma progs_set_cur [simp]: "progs (set_cur c v) = progs v"
  by (simp add: progs_def set_cur_def)

lemma priced_cong: "vm_istack v' = vm_istack v \<Longrightarrow> vm_scs v' = vm_scs v \<Longrightarrow> priced H v' = priced H v"
  by (cases "vm_istack v") (simp_all add: priced_def cur_def script_def)

text \<open>Fetching an instruction: a paid one shortens the code left; the free end of a script does not lengthen it.\<close>

lemma Next_cases:
  assumes "Next v = Some (op, param, v1)"
  obtains "op = opRET" and "\<not> priced H v1" and "code_left v1 = code_left v"
  | "opcode_IsValid op" and "priced H v1 = (ho_getPrice H \<noteq> None)" and "code_left v1 < code_left v"
proof -
  from assms obtain c cs sc where v: "vm_istack v = c # cs" and sc: "script v c = Some sc"
    unfolding Next_def cur_def by (auto split: Option.bind_splits list.splits)
  note pr = script_progs [OF sc]
  have cl: "code_left (set_cur c' v) = ctx_left (progs v) c' + sum_list (map (ctx_left (progs v)) cs)" for c'
    by (simp add: code_left_def) (simp add: set_cur_def v)
  have cl0: "code_left v = ctx_left (progs v) c + sum_list (map (ctx_left (progs v)) cs)" by (simp add: code_left_def v)
  have prc: "priced H (set_cur c' v) \<longleftrightarrow> ho_getPrice H \<noteq> None \<and> cx_ip c' < length (sc_prog sc)" if "cx_sc c' = cx_sc c" for c'
    using sc that by (simp add: priced_def cur_def set_cur_def v script_def split: if_splits)
  show ?thesis
  proof (cases "cx_nextip c \<ge> length (sc_prog sc)")
    case True
    with assms v sc have "op = opRET" and v1: "v1 = set_cur (c\<lparr>cx_ip := cx_nextip c\<rparr>) v"
      by (auto simp: Next_def cur_def)
    moreover have "\<not> priced H v1" using True by (simp add: v1 prc)
    moreover have "code_left v1 = code_left v" by (simp add: v1 cl cl0 ctx_left_def)
    ultimately show ?thesis by (intro that(1))
  next
    case False
    with assms v sc obtain n start where valid: "opcode_IsValid op"
      and ps: "param_size (sc_prog sc) op (cx_nextip c + 1) = Some (n, start)"
      and v1: "v1 = set_cur (c\<lparr>cx_ip := cx_nextip c, cx_nextip := start + n\<rparr>) v"
      by (auto simp: Next_def cur_def Let_def split: if_splits Option.bind_splits)
    have "cx_nextip c < start"
      using ps by (auto simp: param_size_def Let_def split: if_splits)
    with False pr have "code_left v1 < code_left v" by (simp add: v1 cl cl0 ctx_left_def)
    moreover have "priced H v1 = (ho_getPrice H \<noteq> None)" using False by (simp add: v1 prc)
    ultimately show ?thesis using valid that(2) by blast
  qed
qed

section \<open>Steps\<close>

lemma unloadContext_code:
  assumes "metered_host base H" and "unloadContext H c v = Some v'"
  shows "same_code v v'"
proof -
  have dyn: "runDynamicOnUnload c b u = Some v' \<Longrightarrow> same_code u v'" for b u
    using code.view_runDynamicOnUnload [of c b u v'] by (simp add: same_codeI)
  have clr: "vm_istack (ClearRefs s u) = vm_istack u" "vm_scs (ClearRefs s u) = vm_scs u" for s u
    using code.view_ClearRefs [of s u] by simp_all
  have host: "ho_onUnload H n c b u = Some v' \<Longrightarrow> same_code u v'" for n b u
    using assms(1) unfolding metered_host_def by blast
  from assms(2) show ?thesis
    by (auto simp: unloadContext_def Let_def same_code_def progs_def clr
        split: if_splits Option.bind_splits unload_callback.splits dest!: dyn host)
qed

lemma execute_ret_code:
  assumes "metered_host base H" and "execute_ret H v = Some v'"
  shows "code_left v' < code_left v"
proof -
  from assms(2) obtain c cs u where v: "vm_istack v = c # cs"
    and u: "unloadContext H c (v\<lparr>vm_istack := cs\<rparr>) = Some u"
    and v': "vm_istack v' = vm_istack u \<and> vm_scs v' = vm_scs u"
    by (auto simp: execute_ret_def Let_def dest!: code.view_move_results split: list.splits Option.bind_splits if_splits)
  have "same_code u v'" using v' by (simp add: same_codeI)
  with unloadContext_code [OF assms(1) u] have "code_left v' = code_left (v\<lparr>vm_istack := cs\<rparr>)"
    by (metis code_left_cong)
  also have "\<dots> < code_left v" by (simp add: code_left_def v progs_def ctx_left_def)
  finally show ?thesis .
qed

text \<open>The measure of the machine, and that an instruction that does not fault lowers it.\<close>

definition progress :: "(vm \<times> vm) set" where
  "progress = measures [gas_left, code_left]"

lemma wf_progress: "wf progress"
  unfolding progress_def by (rule wf_measures)

lemma pays_running: "pays v v' \<Longrightarrow> running base v \<Longrightarrow> running base v'"
  by (auto simp: pays_def obeys_def running_def within_limit_def)

lemma pays_gas_left: "pays v v' \<Longrightarrow> running base v \<Longrightarrow> gas_left v' \<le> gas_left v \<and> (vm_gasConsumed v' \<noteq> vm_gasConsumed v \<longrightarrow> gas_left v' < gas_left v)"
proof -
  assume "pays v v'" and "running base v"
  moreover have "vm_gasConsumed v' \<noteq> vm_gasConsumed v \<Longrightarrow> sint (vm_gasConsumed v') \<noteq> sint (vm_gasConsumed v)"
    by (metis signed_word_eqI)
  ultimately show ?thesis by (auto simp: pays_def obeys_def running_def within_limit_def gas_left_def)
qed

lemma charge_positive:
  assumes H: "metered_host base H" and "0 < sint base" and r: "running base v" and pr: "priced H v"
    and valid: "opcode_IsValid op" and "op \<notin> set free_ops" and "\<not> out_of_gas H (charge H op param v)"
  shows "pays v (charge H op param v) \<and> vm_gasConsumed (charge H op param v) \<noteq> vm_gasConsumed v"
proof -
  let ?p = "int (coefficients op) * sint base"
  have c: "1 \<le> coefficients op \<and> coefficients op \<le> 32768" using coefficients_bounds [OF valid] assms(6) by linarith
  have p: "sint base \<le> ?p" "?p \<le> 32768 * sint base" using c assms(2) by (simp_all add: mult_right_mono)
  have lim: "0 \<le> sint (vm_gasConsumed v)" "sint (vm_gasConsumed v) \<le> sint (vm_GasLimit v)"
    "sint (vm_GasLimit v) + 32768 * sint base < 9223372036854775808"
    using r by (simp_all add: running_def within_limit_def)
  have g: "vm_gasConsumed (charge H op param v) = vm_gasConsumed v + fee_Opcode base [op]"
    and v': "charge H op param v = v\<lparr>vm_gasConsumed := vm_gasConsumed v + fee_Opcode base [op]\<rparr>"
    using H pr by (simp_all add: charge_def metered_host_def)
  have fee: "sint (fee_Opcode base [op]) = ?p" by (rule sint_fee_Opcode) (use valid assms(2) lim in simp_all)
  have sum: "sint (vm_gasConsumed v + fee_Opcode base [op]) = sint (vm_gasConsumed v) + ?p"
    unfolding fee [symmetric] by (rule sint_add_small) (use fee p lim assms(2) in linarith)+
  have "sint (vm_gasConsumed v) + ?p \<le> sint (vm_GasLimit v)"
    using assms(7) lim pr priced_cong [of "charge H op param v" v H] by (simp add: out_of_gas_def v' sum)
  then show ?thesis using p lim assms(2) sum by (auto simp: pays_def obeys_def v')
qed

lemma charge_free:
  assumes "metered_host base H" and "op \<in> set free_ops"
  shows "charge H op param v = v"
proof -
  have "coefficients op = 0"
    using assms(2) by (rule list_all_iff [THEN iffD1, rule_format, rotated]) (unfold free_ops_def, simp add: coefficients_def coefficient_table_def)
  with assms(1) show ?thesis by (simp add: charge_def metered_host_def fee_Opcode_single)
qed

lemma execute_op_free:
  "execute_op H opRET param v = execute_ret H v"
  "execute_op H opSYSCALL param v = do { handler \<leftarrow> ho_SyscallHandler H; handler (get_le param) v }"
  "execute_op H opCALLT param v = do { c \<leftarrow> cur v; load \<leftarrow> ho_LoadToken H; load (int (le_nat param)) v }"
  "execute_op H opABORT param v = None" "execute_op H opABORTMSG param v = None"
  by (simp_all add: execute_op_def execute_control_def execute_call_def execute_type_def)

lemma execute_op_pays:
  assumes H: "metered_host base H" and v: "within_limit v" and op: "op \<notin> {opSYSCALL, opCALLT}" and ex: "execute_op H op param v = Some v'"
  shows "pays v v'"
  using meter.view_execute_op [OF metered_host_unload [OF H] _ ex] op v by (simp add: pays_def obeys_def within_limit_def)

text \<open>Calls of the host.\<close>

lemma execute_op_host:
  assumes H: "metered_host base H" and r: "running base v" and op: "op \<in> {opSYSCALL, opCALLT}" and ex: "execute_op H op param v = Some v'"
  shows "obeys v v'"
proof (cases "op = opSYSCALL")
  case True
  with ex obtain handler n where "ho_SyscallHandler H = Some handler" "handler n v = Some v'"
    by (auto simp: execute_op_free split: Option.bind_splits)
  with H r show ?thesis unfolding metered_host_def by blast
next
  case False
  with op ex obtain load n where "ho_LoadToken H = Some load" "load n v = Some v'"
    by (auto simp: execute_op_free split: Option.bind_splits)
  with H r show ?thesis unfolding metered_host_def by blast
qed

lemma execute_ret_progress:
  assumes H: "metered_host base H" and r: "running base v" and ex: "execute_op H opRET param v = Some v'"
  shows "pays v v' \<and> code_left v' < code_left v"
proof -
  have "execute_ret H v = Some v'" using ex by (simp add: execute_op_free)
  with execute_ret_code [OF H] have "code_left v' < code_left v" by blast
  moreover have "pays v v'" using execute_op_pays [OF H _ _ ex] r by (simp add: running_def)
  ultimately show ?thesis by blast
qed

text \<open>An instruction that is charged, or free, before it is executed.\<close>

lemma execute_charged:
  assumes H: "metered_host base H" and base: "0 < sint base" and r: "running base v1"
    and ok: "opcode_IsValid op" "priced H v1" and nf: "vm_state (execute H op param v1) \<noteq> Fault"
  shows "execute_op H op param (charge H op param v1) = Some (execute H op param v1)" and "pays v1 (charge H op param v1)"
    and "op \<notin> set free_ops \<Longrightarrow> vm_gasConsumed (charge H op param v1) \<noteq> vm_gasConsumed v1"
    and "op \<in> set free_ops \<Longrightarrow> charge H op param v1 = v1"
proof -
  let ?v = "charge H op param v1"
  have ng: "\<not> out_of_gas H ?v" using nf by (auto simp: execute_def Let_def split: if_splits)
  show "execute_op H op param ?v = Some (execute H op param v1)"
    using nf by (auto simp: execute_def Let_def split: if_splits option.splits)
  show free: "?v = v1" if "op \<in> set free_ops" using that by (rule charge_free [OF H])
  show "vm_gasConsumed ?v \<noteq> vm_gasConsumed v1" if "op \<notin> set free_ops"
    using charge_positive [OF H base r ok(2,1) that ng] by blast
  show "pays v1 ?v"
    using charge_positive [OF H base r ok(2,1) _ ng] free r
    by (cases "op \<in> set free_ops") (auto simp: pays_def obeys_def running_def within_limit_def)
qed

lemma execute_progress:
  assumes H: "metered_host base H" and base: "0 < sint base" and r: "running base v1"
    and ok: "opcode_IsValid op" "priced H v1" and op: "op \<notin> {opSYSCALL, opCALLT}" and nf: "vm_state (execute H op param v1) \<noteq> Fault"
  shows "pays v1 (execute H op param v1) \<and>
    (gas_left (execute H op param v1) < gas_left v1 \<or> code_left (execute H op param v1) \<le> code_left v1)"
proof -
  let ?v = "charge H op param v1" and ?v' = "execute H op param v1"
  note ch = execute_charged [OF H base r ok nf]
  have r': "running base ?v" by (rule pays_running [OF ch(2) r])
  show ?thesis
  proof (cases "op \<in> set free_ops")
    case False
    have p': "pays ?v ?v'" using execute_op_pays [OF H _ op ch(1)] r' by (simp add: running_def)
    then have "pays v1 ?v'" using ch(2) by (simp add: pays_def obeys_def)
    moreover have "gas_left ?v' < gas_left v1" using pays_gas_left [OF ch(2) r] pays_gas_left [OF p' r'] ch(3) [OF False] by simp
    ultimately show ?thesis by blast
  next
    case True
    with ch(1,4) op have "op = opRET" by (auto simp: free_ops_def execute_op_free)
    with execute_ret_progress [OF H r] ch(1,4) True show ?thesis by fastforce
  qed
qed

lemma execute_host:
  assumes H: "metered_host base H" and base: "0 < sint base" and r: "running base v1"
    and ok: "opcode_IsValid op" "priced H v1" and op: "op \<in> {opSYSCALL, opCALLT}" and nf: "vm_state (execute H op param v1) \<noteq> Fault"
  shows "obeys v1 (execute H op param v1)"
proof -
  note ch = execute_charged [OF H base r ok nf]
  have "obeys (charge H op param v1) (execute H op param v1)"
    by (rule execute_op_host [OF H pays_running [OF ch(2) r] op ch(1)])
  then show ?thesis using ch(2) by (simp add: obeys_def pays_def)
qed

lemma Next_meter: "Next v = Some (op, param, v1) \<Longrightarrow> vm_gasConsumed v1 = vm_gasConsumed v \<and> vm_GasLimit v1 = vm_GasLimit v"
  by (auto simp: Next_def Let_def set_cur_def split: Option.bind_splits if_splits)

lemma step_progress:
  assumes H: "metered_host base H" and base: "0 < sint base" and r: "running base v" and nf: "vm_state (step H v) \<noteq> Fault"
    and ne: "\<not> evades_meter H v"
  shows "running base (step H v) \<and> (step H v, v) \<in> progress"
proof -
  from nf obtain op param v1 where nx: "Next v = Some (op, param, v1)" and st: "step H v = execute H op param v1"
    by (auto simp: step_def split: option.splits)
  have g: "vm_gasConsumed v1 = vm_gasConsumed v" "vm_GasLimit v1 = vm_GasLimit v" using Next_meter [OF nx] by simp_all
  have r1: "running base v1" using r g by (simp add: running_def within_limit_def)
  have gl: "gas_left v1 = gas_left v" by (simp add: gas_left_def g)
  note nf1 = nf [unfolded st]
  have "pays v1 (execute H op param v1) \<and>
    (gas_left (execute H op param v1) < gas_left v1 \<or> code_left (execute H op param v1) < code_left v)"
  proof (rule Next_cases [OF nx, of H])
    assume ret: "op = opRET" and np: "\<not> priced H v1" and cl: "code_left v1 = code_left v"
    have "charge H op param v1 = v1" using np by (simp add: charge_def split: option.split)
    then have ex: "execute_op H op param v1 = Some (execute H op param v1)"
      using nf1 by (auto simp: execute_def Let_def split: if_splits option.splits)
    show ?thesis using execute_ret_progress [OF H r1] ex ret cl by auto
  next
    assume valid: "opcode_IsValid op" and pr: "priced H v1 = (ho_getPrice H \<noteq> None)" and cl: "code_left v1 < code_left v"
    have pr': "priced H v1" using pr H by (simp add: metered_host_def)
    show ?thesis
    proof (cases "op \<in> {opSYSCALL, opCALLT}")
      case False
      with execute_progress [OF H base r1 valid pr' _ nf1] cl show ?thesis by force
    next
      case True
      have ob: "obeys v1 (execute H op param v1)" by (rule execute_host [OF H base r1 valid pr' True nf1])
      have "\<not> (sint (vm_gasConsumed (step H v)) < sint (vm_gasConsumed v) \<or>
          vm_gasConsumed (step H v) = vm_gasConsumed v \<and> \<not> same_code v1 (step H v))"
        using ne nx True unfolding evades_meter_def by blast
      then have pay: "pays v1 (execute H op param v1)" and
        same: "vm_gasConsumed (execute H op param v1) = vm_gasConsumed v1 \<longrightarrow> same_code v1 (execute H op param v1)"
        using ob g unfolding st by (auto simp: pays_def)
      then show ?thesis using pays_gas_left [OF pay r1] code_left_cong [of v1 "execute H op param v1"] cl by fastforce
    qed
  qed
  moreover from this have "gas_left (execute H op param v1) \<le> gas_left v1" using pays_gas_left [OF _ r1] by blast
  ultimately show ?thesis using gl st pays_running [OF _ r1] by (auto simp: progress_def)
qed

section \<open>Termination\<close>

text \<open>More fuel than needed does not matter.\<close>

lemma run_loop_mono: "run_loop H n v = Some v' \<Longrightarrow> n \<le> m \<Longrightarrow> run_loop H m v = Some v'"
proof (induction n arbitrary: v m)
  case (Suc n)
  then obtain k where "m = Suc k" "n \<le> k" by (cases m) auto
  with Suc show ?case by (auto simp: Let_def split: if_splits)
qed simp

lemma run_loop_state: "run_loop H n v = Some v' \<Longrightarrow> vm_state v' \<noteq> NoneState"
  by (induction n arbitrary: v) (auto simp: Let_def split: if_splits)

lemma run_loop_ends:
  assumes H: "metered_host base H" and base: "0 < sint base"
  shows "running base v \<Longrightarrow> (\<exists>n v'. run_loop H n v = Some v') \<or>
    (\<exists>k. (\<forall>j\<le>k. vm_state ((step H ^^ j) v) = NoneState) \<and> evades_meter H ((step H ^^ k) v))"
proof (induction v rule: wf_induct_rule [OF wf_progress])
  case (1 v)
  show ?case
  proof (cases "vm_state v = NoneState \<and> vm_state (step H v) \<noteq> Fault \<and> \<not> atBreakPoint (step H v)")
    case go: True
    show ?thesis
    proof (cases "evades_meter H v")
      case True
      with go show ?thesis by (intro disjI2 exI [of _ 0]) simp
    next
      case False
      with step_progress [OF H base 1(2)] 1(1) [of "step H v"] go
      consider n v' where "run_loop H n (step H v) = Some v'"
        | k where "\<forall>j\<le>k. vm_state ((step H ^^ j) (step H v)) = NoneState" "evades_meter H ((step H ^^ k) (step H v))" by blast
      then show ?thesis
      proof cases
        case 1
        with go have "run_loop H (Suc n) v = Some v'" by (simp add: Let_def)
        then show ?thesis by blast
      next
        case 2
        have "vm_state ((step H ^^ j) v) = NoneState" if "j \<le> Suc k" for j
          using that go 2(1) by (cases j) (simp_all add: funpow_swap1)
        moreover have "evades_meter H ((step H ^^ Suc k) v)" using 2(2) by (simp add: funpow_swap1)
        ultimately show ?thesis by blast
      qed
    qed
  next
    case False
    then have "run_loop H (Suc (Suc 0)) v \<noteq> None" by (auto simp: Let_def)
    then show ?thesis by blast
  qed
qed

lemma Run_ends:
  assumes "metered_host base H" and "0 < sint base" and "running base v"
  shows "(\<exists>n v'. vm_state v' \<in> {Halt, Fault, Break} \<and> (\<forall>m\<ge>n. Run H m v = Some v')) \<or>
    (\<exists>k. (\<forall>j\<le>k. vm_state ((step H ^^ j) (v\<lparr>vm_state := NoneState\<rparr>)) = NoneState) \<and>
      evades_meter H ((step H ^^ k) (v\<lparr>vm_state := NoneState\<rparr>)))"
proof (cases "vm_istack v = [] \<or> vm_state v = Fault")
  case True
  then have "Run H m v = Some (v\<lparr>vm_state := Fault\<rparr>)" for m by (cases v) (auto simp: Run_def)
  then show ?thesis by (intro disjI1 exI [of _ 0] exI [of _ "v\<lparr>vm_state := Fault\<rparr>"]) simp
next
  case False
  have "running base (v\<lparr>vm_state := NoneState\<rparr>)" using assms(3) by (simp add: running_def within_limit_def)
  from run_loop_ends [OF assms(1,2) this] show ?thesis
  proof
    assume "\<exists>n v'. run_loop H n (v\<lparr>vm_state := NoneState\<rparr>) = Some v'"
    then obtain n v' where run: "run_loop H n (v\<lparr>vm_state := NoneState\<rparr>) = Some v'" by blast
    have "vm_state v' \<in> {Halt, Fault, Break}" using run_loop_state [OF run] by (cases "vm_state v'") auto
    moreover have "\<forall>m\<ge>n. Run H m v = Some v'" using run_loop_mono [OF run] False by (simp add: Run_def)
    ultimately show ?thesis by blast
  qed blast
qed

text \<open>A host for examples, with a free system call and a charged one.\<close>

definition sample_host :: host where
  "sample_host = \<lparr>ho_hash160 = (\<lambda>prog. word_of_nat (length prog)), ho_getPrice = Some (\<lambda>op param. fee_Opcode 30 [op]),
     ho_SyscallHandler = Some (\<lambda>n v. if n = 0 then Some (PushItem Null v)
       else if sint (vm_gasConsumed v) < sint (vm_GasLimit v) then Some (v\<lparr>vm_gasConsumed := vm_GasLimit v\<rparr>) else None),
     ho_LoadToken = Some (\<lambda>n v. Jump n v), ho_onUnload = (\<lambda>n c b v. if b then Some v else None)\<rparr>"

end
