(* ===== verification/Vm_Safety.thy ===== *)
theory Vm_Safety
  imports Vm_Wf_Exec Vm_Termination
begin

text \<open>
  The states a loaded script reaches are well formed, whatever the script does; further, what unloading contexts
  and looking for a handler leave alone.
\<close>

section \<open>Loading scripts\<close>

lemma loadScriptWithCallingHash_ok:
  assumes "loadScriptWithCallingHash b caller hsh f rv off cb v = Some v'" and v: "vm_ok v"
  shows "vm_ok v'"
proof -
  define u where "u = (case cur v of None \<Rightarrow> v | Some p \<Rightarrow> (case script v p of None \<Rightarrow> v
    | Some sc \<Rightarrow> set_script (cx_sc p) (sc\<lparr>sc_estack := vm_estack v\<rparr>) v))"
  define w where "w = (if rv \<noteq> -1 \<or> length (estack u) \<noteq> 0
    then u\<lparr>vm_stacks := vm_stacks u @ [[]], vm_estack := length (vm_stacks u)\<rparr> else u)"
  have "vm_ok (set_script i (sc\<lparr>sc_estack := vm_estack v\<rparr>) v)" if "script v p = Some sc" for i sc p
    using script_of_ok [OF that v] v by (intro set_script_ok) (auto simp: script_ok_def vm_ok_def)
  then have u: "vm_ok u" and iu: "vm_istack u = vm_istack v"
    using v by (auto simp: u_def set_script_def split: option.split)
  then have w: "vm_ok w" by (auto simp: w_def vm_ok_def script_ok_def intro: less_SucI)
  have iw: "vm_istack w = vm_istack v" by (simp add: w_def iu)
  obtain sc where v': "v' = w\<lparr>vm_scs := vm_scs w @ [sc], vm_istack := \<lparr>cx_ip = 0, cx_nextip = off, cx_sc = length (vm_scs w),
      cx_local = None, cx_arguments = None, cx_tryStack = [], cx_retCount = rv\<rparr> # vm_istack w\<rparr>"
    and sc: "sc_estack sc = vm_estack w" "sc_static sc = None" and chk: "checkInvocationStackSize v"
    using assms(1) unfolding loadScriptWithCallingHash_def Let_def u_def [symmetric] w_def [symmetric]
    by (auto split: if_splits)
  have lim: "int (length (vm_istack w)) < MaxInvocationStackSize" using chk iw by (simp add: checkInvocationStackSize_def)
  show ?thesis using w lim sc unfolding v'
    by (auto simp: vm_ok_def context_ok_def script_ok_def MaxTryNestingDepth_def intro: less_SucI)
qed

lemma New_vm_ok: "vm_ok New_vm"
  by (simp add: vm_ok_def New_vm_def heap_ok_def MaxInvocationStackSize_def)

lemma LoadWithFlags_ok: "LoadWithFlags H prog f v = Some v' \<Longrightarrow> vm_ok v \<Longrightarrow> vm_ok v'"
proof -
  assume load: "LoadWithFlags H prog f v = Some v'" and v: "vm_ok v"
  have "vm_ok (v\<lparr>vm_istack := []\<rparr>)" using v by (simp add: vm_ok_def MaxInvocationStackSize_def)
  then have "vm_ok (Clear (v\<lparr>vm_istack := []\<rparr>))" by (rule Clear_ok)
  with load show ?thesis
    by (auto simp: LoadWithFlags_def LoadScriptWithFlags_def Let_def intro: loadScriptWithCallingHash_ok)
qed

section \<open>Steps\<close>

lemma execute_op_ok: "execute_op H op param v = Some v' \<Longrightarrow> vm_ok v \<Longrightarrow> param_ok op param \<Longrightarrow> wf_host H \<Longrightarrow> vm_ok v'"
  unfolding execute_op_def
  by (auto split: if_splits
      dest: pushInt_ok execute_push_ok execute_control_ok execute_stack_ok execute_slot_ok execute_splice_ok
        execute_bitwise_ok execute_arith_ok execute_compare_ok execute_create_ok execute_collection_ok execute_type_ok)

lemma charge_ok: "vm_ok v \<Longrightarrow> vm_ok (charge H op param v)"
  by (simp add: charge_def split: option.split)

lemma step_ok: "vm_ok v \<Longrightarrow> wf_host H \<Longrightarrow> vm_ok (step H v)"
  by (auto simp: step_def execute_def Let_def charge_ok intro: execute_op_ok [OF _ charge_ok] dest!: Next_ok split: option.split)

inductive vm_reach :: "host \<Rightarrow> vm \<Rightarrow> vm \<Rightarrow> bool" for H v0 where
  reach_start: "vm_reach H v0 v0"
| reach_step: "vm_reach H v0 v \<Longrightarrow> vm_state v = NoneState \<Longrightarrow> vm_reach H v0 (step H v)"
| reach_break: "vm_reach H v0 v \<Longrightarrow> atBreakPoint v \<Longrightarrow> vm_reach H v0 (v\<lparr>vm_state := Break\<rparr>)"
| reach_resume: "vm_reach H v0 v \<Longrightarrow> vm_state v \<noteq> Fault \<Longrightarrow> vm_reach H v0 (v\<lparr>vm_state := NoneState\<rparr>)"

lemma vm_reach_ok: "vm_reach H v0 v \<Longrightarrow> vm_ok v0 \<Longrightarrow> wf_host H \<Longrightarrow> vm_ok v"
  by (induction rule: vm_reach.induct) (simp_all add: step_ok)

text \<open>The states of \<^verbatim>\<open>Run\<close> are reachable.\<close>

lemma run_loop_reach: "run_loop H n v = Some v' \<Longrightarrow> vm_reach H v0 v \<Longrightarrow> vm_reach H v0 v'"
proof (induction n arbitrary: v)
  case (Suc n)
  show ?case
  proof (cases "vm_state v = NoneState")
    case True
    have s: "vm_reach H v0 (step H v)" by (rule reach_step [OF Suc.prems(2) True])
    then have "vm_reach H v0 (if atBreakPoint (step H v) then (step H v)\<lparr>vm_state := Break\<rparr> else step H v)"
      by (simp add: reach_break)
    with Suc.IH Suc.prems(1) True s show ?thesis by (auto simp: Let_def split: if_splits)
  qed (use Suc.prems in simp)
qed simp

text \<open>
  C28. In every state that a script loaded into a new machine reaches, the integers have 256 bits,
  byte strings and buffers stay within \<^verbatim>\<open>MaxSize\<close>, references point to objects of their kind, map keys
  are valid keys, at most 1024 contexts are loaded, with at most 16 nested handlers and 255 slots each,
  and every context has its script and its evaluation stack. The handlers of the host are assumed to keep that.
\<close>

theorem vm_states_bounded:
  assumes "wf_host H" and "LoadWithFlags H prog f New_vm = Some v" and "vm_reach H v v'"
  shows "vm_ok v'"
  by (rule vm_reach_ok [OF assms(3) LoadWithFlags_ok [OF assms(2) New_vm_ok] assms(1)])

lemma sample_host_wf: "wf_host sample_host"
  unfolding wf_host_def sample_host_def by (auto simp: PushItem_ok dest: Jump_ok split: if_splits)

definition loaded :: vm where
  "loaded = (case LoadWithFlags sample_host [opPUSH1, opINC] 15 New_vm of None \<Rightarrow> New_vm | Some v \<Rightarrow> v)"

lemma loaded_load: "LoadWithFlags sample_host [opPUSH1, opINC] 15 New_vm = Some loaded" "vm_state loaded = NoneState"
  by (simp_all add: loaded_def LoadWithFlags_def LoadScriptWithFlags_def loadScriptWithCallingHash_def Clear_def
      count_out_def New_vm_def estack_def set_estack_def checkInvocationStackSize_def MaxInvocationStackSize_def Let_def cur_def)

theorem vm_states_bounded_witness: "vm_ok (step sample_host loaded)"
  by (rule vm_states_bounded [OF sample_host_wf loaded_load(1)]) (intro vm_reach.intros loaded_load)

section \<open>Exceptions\<close>

text \<open>\<open>find_handler\<close> finds the innermost context with a handler left.\<close>

lemma find_handler_Some:
  "find_handler cs = Some n \<longleftrightarrow> n < length cs \<and> dropWhile spent (cx_tryStack (cs ! n)) \<noteq> [] \<and>
    (\<forall>m<n. list_all spent (cx_tryStack (cs ! m)))"
proof (induction cs arbitrary: n)
  case (Cons c cs)
  then show ?case by (cases n) (auto simp: list_all_iff All_less_Suc2 dropWhile_eq_Nil_conv)
qed simp

lemma find_handler_None: "find_handler cs = None \<longleftrightarrow> (\<forall>c\<in>set cs. list_all spent (cx_tryStack c))"
  by (induction cs) (auto simp: list_all_iff dropWhile_eq_Nil_conv)

definition unload_keeps_code :: "host \<Rightarrow> bool" where
  "unload_keeps_code H \<longleftrightarrow>
     (\<forall>n c b v v'. ho_onUnload H n c b v = Some v' \<longrightarrow> vm_istack v' = vm_istack v \<and> vm_scs v' = vm_scs v)"

lemma unloadContext_keeps:
  assumes "unloadContext H c v = Some v'" and "unload_keeps_code H"
  shows "vm_istack v' = vm_istack v \<and> vm_scs v' = vm_scs v"
proof -
  have "vm_istack (ClearRefs s u) = vm_istack u" "vm_scs (ClearRefs s u) = vm_scs u" for s u
    using code.view_ClearRefs [of s u] by simp_all
  with assms show ?thesis
    by (auto simp: unloadContext_def Let_def unload_keeps_code_def dest!: code.view_runDynamicOnUnload
        split: if_splits Option.bind_splits unload_callback.splits)
qed

lemma unload_top_keeps:
  "unload_top H n v = Some v' \<Longrightarrow> unload_keeps_code H \<Longrightarrow> vm_istack v' = drop n (vm_istack v) \<and> vm_scs v' = vm_scs v"
  by (induction n arbitrary: v) (auto dest!: unloadContext_keeps split: list.splits Option.bind_splits)

text \<open>The operations on collections that throw no exception leave the code alone.\<close>

lemma data_collection_view:
  assumes "execute_collection H op v = Some v'" and "op \<notin> {opPICKITEM, opSETITEM}"
  shows "vm_istack v' = vm_istack v \<and> vm_scs v' = vm_scs v"
proof -
  have pop: "Pop u = Some (it, w) \<Longrightarrow> vm_istack w = vm_istack u \<and> vm_scs w = vm_scs u" for u it w
    using code.view_Pop [of u it w] by simp
  show ?thesis
    using assms code.view_push(1,3) code.view_push_all code.view_count
    by (auto simp: execute_collection_def execute_unpack_def execute_size_def execute_haskey_def execute_keys_def
      execute_values_def execute_append_def execute_reverseitems_def execute_remove_def execute_clearitems_def
      execute_popitem_def
      dest!: pop code.view_pushInt code.view_append_elem code.view_mutate
      split: if_splits Option.bind_splits stackitem.splits option.splits)
qed

lemma estack_PushItem: "vm_estack v < length (vm_stacks v) \<Longrightarrow> estack (PushItem it v) = it # estack v"
  by (simp add: PushItem_def estack_def set_estack_def count_in_def split: prod.split)

lemma code_PushItem [simp]: "vm_istack (PushItem it v) = vm_istack v" "vm_scs (PushItem it v) = vm_scs v"
  using code.view_push(1) [of it v] by simp_all

lemma estack_set_cur [simp]: "estack (set_cur c v) = estack v" "vm_estack (set_cur c v) = vm_estack v"
  "vm_istack (set_cur c v) = c # tl (vm_istack v)" "vm_uncaughtException (set_cur c v) = vm_uncaughtException v"
  by (simp_all add: estack_def set_cur_def)

end
