(* ===== verification/Vm_Counted.thy ===== *)
theory Vm_Counted
  imports Vm_Refs Vm_Safety
begin

text \<open>
  The machine's reference counter against its stacks, with any other roots (the slots of the
  contexts) given as a multiset. The instructions that leave the contexts alone keep the count exact; those
  that change a collection in place do so when the collection is held by another root.
\<close>

definition counted :: "vm \<Rightarrow> stackitem multiset \<Rightarrow> bool" where
  "counted v R \<longleftrightarrow> vm_ok v \<and> (\<forall>it\<in>#R. item_ok (vkinds v) it) \<and> exact (vm_heap v) (vm_refs v) (mset (concat (vm_stacks v)) + R)"

lemma counted_ok: "counted v R \<Longrightarrow> vm_ok v"
  by (simp add: counted_def)

section \<open>Stacks\<close>

lemma mset_concat_update:
  "i < length ss \<Longrightarrow> mset (concat (ss[i := xs])) + mset (ss ! i) = mset (concat ss) + mset xs"
  by (induction ss arbitrary: i) (auto simp: nth_Cons split: nat.split)

lemma mset_set_estack:
  "vm_ok v \<Longrightarrow> mset (concat (vm_stacks (set_estack xs v))) + mset (estack v) = mset (concat (vm_stacks v)) + mset xs"
  by (simp add: set_estack_def estack_def vm_ok_def mset_concat_update)

lemma count_parts [simp]:
  "vm_stacks (count_in its v) = vm_stacks v" "vm_stacks (count_out its v) = vm_stacks v"
  "vm_heap (set_estack xs v) = vm_heap v" "vm_refs (set_estack xs v) = vm_refs v"
  "estack (count_in its v) = estack v" "estack (count_out its v) = estack v"
  by (simp_all add: count_in_def count_out_def set_estack_def estack_def split: prod.split)

lemma exact_count_in:
  assumes "exact (vm_heap v) (vm_refs v) M" and "heap_ok (vm_heap v)" and "items_ok (vkinds v) its"
  shows "exact (vm_heap (count_in its v)) (vm_refs (count_in its v)) (mset its + M)"
  using exact_add [OF assms] by (simp add: count_in_def split: prod.split)

lemma exact_count_out:
  assumes "exact (vm_heap v) (vm_refs v) (mset its + M)" and "heap_ok (vm_heap v)" and "items_ok (vkinds v) its"
  shows "exact (vm_heap (count_out its v)) (vm_refs (count_out its v)) M"
  using exact_remove [OF assms] by (simp add: count_out_def split: prod.split)

section \<open>New objects\<close>

definition fresh :: "heap \<Rightarrow> heap \<Rightarrow> bool" where
  "fresh h h' \<longleftrightarrow> (\<exists>os. h' = h @ os \<and> (\<forall>ob\<in>set os. ob_rc ob = 0))"

lemma fresh_refl [simp]: "fresh h h"
  by (simp add: fresh_def)

lemma fresh_trans: "fresh h h' \<Longrightarrow> fresh h' h'' \<Longrightarrow> fresh h h''"
  unfolding fresh_def by force

lemma fresh_alloc: "alloc c h = (a, h') \<Longrightarrow> fresh h h'"
  by (auto simp: fresh_def alloc_def)

lemma refs_to_zero: "(\<And>it. it \<in># M \<Longrightarrow> counted_addr it \<noteq> Some a) \<Longrightarrow> refs_to a M = 0"
  by (auto simp: refs_to_def filter_mset_eq_conv)

lemma obj_items_ok: "heap_ok h \<Longrightarrow> it \<in># obj_items h b \<Longrightarrow> item_ok (kinds h) it"
  using content_of [of h b] by (cases "ob_value (h ! b)") (auto simp: obj_items_def split: if_splits)

lemma rc_of_append: "rc_of (h @ os) a = (if a < length h then rc_of h a else if a < length (h @ os) then ob_rc (os ! (a - length h)) else 0)"
  by (auto simp: rc_of_def nth_append)

lemma exact_fresh:
  assumes "exact h r M" and f: "fresh h h'" and "heap_ok h" and M: "\<forall>it\<in>#M. item_ok (kinds h) it"
  shows "exact h' r M"
proof -
  from f obtain os where h': "h' = h @ os" and z: "\<forall>ob\<in>set os. ob_rc ob = 0" by (auto simp: fresh_def)
  have rc: "rc_of h' a = (if a < length h then rc_of h a else 0)" for a
    using z unfolding h' rc_of_append by (auto simp: nth_mem)
  then have live: "live h' = live h" using h' by (auto simp: live_def split: if_splits)
  have items: "obj_items h' b = obj_items h b" if "b \<in> live h" for b
    using that by (simp add: h' obj_items_def live_def nth_append)
  have no: "refs_to a M = 0" "refs_to a (obj_items h b) = 0" if "\<not> a < length h" for a b
    using that M obj_items_ok [OF assms(3)] by (auto intro!: refs_to_zero dest: counted_typed)
  have sums: "(\<Sum>b\<in>live h'. refs_to a (obj_items h' b)) = (\<Sum>b\<in>live h. refs_to a (obj_items h b))"
    "(\<Sum>b\<in>live h'. int (size (obj_items h' b))) = (\<Sum>b\<in>live h. int (size (obj_items h b)))" for a
    unfolding live by (rule sum.cong; simp add: items)+
  show ?thesis using assms(1) no unfolding exact_def balance_def sums rc by (auto simp: h')
qed

lemma convertPrimitive_fresh: "convertPrimitive it t h = Some (it', h') \<Longrightarrow> fresh h h'"
  by (auto simp: convertPrimitive_def split: if_splits Option.bind_splits prod.splits dest: fresh_alloc)

lemma Convert_fresh: "Convert it t h = Some (it', h') \<Longrightarrow> fresh h h'"
  by (cases it) (auto split: if_splits Option.bind_splits prod.splits dest: fresh_alloc convertPrimitive_fresh)

lemma clone_fields_fresh:
  assumes "\<And>a l h b l' h'. rec a l h = Some (b, l', h') \<Longrightarrow> fresh h h'"
  shows "clone_fields rec xs l h = Some (ys, l', h') \<Longrightarrow> fresh h h'"
proof (induction xs arbitrary: l h ys)
  case (Cons x xs)
  from Cons.prems show ?case
    by (auto split: if_splits Option.bind_splits stackitem.splits dest!: Cons.IH dest: assms intro: fresh_trans)
qed simp

lemma clone_fresh: "clone n a l h = Some (b, l', h') \<Longrightarrow> fresh h h'"
proof (induction n arbitrary: a l h b l' h')
  case (Suc n)
  from Suc.prems obtain xs ys g where ys: "clone_fields (clone n) xs l h = Some (ys, l', g)"
    and al: "alloc (Elems ys) g = (b, h')" by (auto split: Option.bind_splits prod.splits)
  have "fresh h g" by (rule clone_fields_fresh [OF _ ys]) (rule Suc.IH)
  with fresh_alloc [OF al] show ?case by (rule fresh_trans [rotated])
qed simp

lemma cloneIfStruct_fresh: "cloneIfStruct it h = Some (it', h') \<Longrightarrow> fresh h h'"
  by (auto simp: cloneIfStruct_def Struct_Clone_def dest: clone_fresh split: stackitem.splits Option.bind_splits)

lemma clone_all_fresh: "clone_all its h = Some (its', h') \<Longrightarrow> fresh h h'"
proof (induction its arbitrary: h its')
  case (Cons it its)
  then obtain x g xs where "cloneIfStruct it h = Some (x, g)" and "clone_all its g = Some (xs, h')"
    by (auto split: Option.bind_splits)
  then show ?case using Cons.IH cloneIfStruct_fresh by (blast intro: fresh_trans)
qed simp

section \<open>The roots beside the stacks\<close>

text \<open>
  The laws of the counter are the same whatever roots there are beside the stacks; the instructions
  below leave them alone.
\<close>

abbreviation pair_items :: "(stackitem \<times> stackitem) list \<Rightarrow> stackitem multiset" where
  "pair_items ps \<equiv> mset (concat (map (\<lambda>(k, x). [k, x]) ps))"

text \<open>An object held by a root of the machine.\<close>

definition held :: "stackitem multiset \<Rightarrow> addr \<Rightarrow> vm \<Rightarrow> bool" where
  "held R a v \<longleftrightarrow> 0 < refs_to a (mset (concat (vm_stacks v)) + R)"

locale other_roots =
  fixes R :: "stackitem multiset"
begin

lemma counted_in:
  assumes c: "counted v R" and xs: "mset xs = mset its + mset (estack v)" and its: "items_ok (vkinds v) its"
  shows "counted (count_in its (set_estack xs v)) R"
proof -
  have v: "vm_ok v" using c by (rule counted_ok)
  have "items_ok (vkinds v) xs" using xs its estack_ok [OF v] by (metis UnE set_mset_mset set_mset_union)
  then have ok: "vm_ok (set_estack xs v)" by (rule set_estack_ok [OF v])
  have m: "mset (concat (vm_stacks (set_estack xs v))) = mset its + mset (concat (vm_stacks v))"
    using mset_set_estack [OF v, of xs] xs by (metis add.assoc add.commute add_right_cancel)
  have "exact (vm_heap (set_estack xs v)) (vm_refs (set_estack xs v)) (mset (concat (vm_stacks v)) + R)"
    using c by (simp add: counted_def)
  from exact_count_in [OF this vm_ok_heap [OF ok]] its c ok m show ?thesis
    by (simp add: counted_def add.assoc)
qed

lemma counted_out:
  assumes c: "counted v R" and xs: "mset (estack v) = mset its + mset xs"
  shows "counted (count_out its (set_estack xs v)) R"
proof -
  have v: "vm_ok v" using c by (rule counted_ok)
  have "set (estack v) = set its \<union> set xs" using xs by (metis set_mset_mset set_mset_union)
  then have items: "items_ok (vkinds v) xs" "items_ok (vkinds v) its" using estack_ok [OF v] by auto
  have ok: "vm_ok (set_estack xs v)" by (rule set_estack_ok [OF v items(1)])
  have m: "mset (concat (vm_stacks v)) = mset its + mset (concat (vm_stacks (set_estack xs v)))"
    using mset_set_estack [OF v, of xs] xs by (metis add.assoc add.commute add_right_cancel)
  have "exact (vm_heap (set_estack xs v)) (vm_refs (set_estack xs v)) (mset its + (mset (concat (vm_stacks (set_estack xs v))) + R))"
    using c m by (simp add: counted_def add.assoc)
  from exact_count_out [OF this vm_ok_heap [OF ok]] items c ok show ?thesis by (simp add: counted_def)
qed

lemma count_in_Nil [simp]: "count_in [] v = v"
  by (cases v) (simp add: count_in_def)

lemma counted_same: "counted v R \<Longrightarrow> mset xs = mset (estack v) \<Longrightarrow> counted (set_estack xs v) R"
  using counted_in [of v xs "[]"] by simp

lemma PushItem_counted: "counted v R \<Longrightarrow> item_ok (vkinds v) it \<Longrightarrow> counted (PushItem it v) R"
  unfolding PushItem_def by (rule counted_in) simp_all

lemma Pop_counted: "Pop v = Some (it, v') \<Longrightarrow> counted v R \<Longrightarrow> counted v' R \<and> vkinds v' = vkinds v \<and> item_ok (vkinds v) it"
  using Pop_ok [of v it v'] counted_ok [of v R] by (auto simp: Pop_def intro!: counted_out split: list.splits)

lemma Clear_counted: "counted v R \<Longrightarrow> counted (Clear v) R"
proof -
  assume c: "counted v R"
  have "Clear v = count_out (rev (estack v)) (set_estack [] v)"
    by (simp add: Clear_def set_estack_def count_out_def split: prod.split)
  with counted_out [OF c, of "rev (estack v)" "[]"] show ?thesis by simp
qed

lemma InsertAt_counted: "InsertAt it n v = Some v' \<Longrightarrow> counted v R \<Longrightarrow> item_ok (vkinds v) it \<Longrightarrow> counted v' R"
proof -
  assume "InsertAt it n v = Some v'" and c: "counted v R" and it: "item_ok (vkinds v) it"
  then have v': "v' = count_in [it] (set_estack (take n (estack v) @ [it] @ drop n (estack v)) v)"
    by (auto simp: InsertAt_def split: if_splits)
  have "mset (take n (estack v)) + mset (drop n (estack v)) = mset (estack v)" by (metis append_take_drop_id mset_append)
  then show ?thesis unfolding v' using it by (intro counted_in [OF c]) simp_all
qed

lemma mset_remove_nth: "n < length xs \<Longrightarrow> mset xs = add_mset (xs ! n) (mset (take n xs @ drop (Suc n) xs))"
  by (metis id_take_nth_drop mset_append mset.simps(2) union_mset_add_mset_right)

lemma RemoveAt_counted: "RemoveAt n v = Some (it, v') \<Longrightarrow> counted v R \<Longrightarrow> counted v' R \<and> vkinds v' = vkinds v \<and> item_ok (vkinds v) it"
  using RemoveAt_ok [of n v it v'] counted_ok [of v R] mset_remove_nth [of n "estack v"]
  by (auto simp: RemoveAt_def intro!: counted_out split: if_splits)

lemma Swap_counted: "Swap n m v = Some v' \<Longrightarrow> counted v R \<Longrightarrow> counted v' R"
  by (auto simp: Swap_def mset_swap intro!: counted_same split: if_splits)

lemma ReverseTop_counted: "ReverseTop n v = Some v' \<Longrightarrow> counted v R \<Longrightarrow> counted v' R"
  by (auto simp: ReverseTop_def intro!: counted_same split: if_splits) (metis append_take_drop_id mset_append)

lemma Roll_counted: "Roll n v = Some v' \<Longrightarrow> counted v R \<Longrightarrow> counted v' R"
  using mset_remove_nth [of "nat n" "estack v"] by (auto simp: Roll_def intro!: counted_same split: if_splits)

lemma pops_counted:
  "popInt v = Some (i, v') \<Longrightarrow> counted v R \<Longrightarrow> counted v' R \<and> vkinds v' = vkinds v"
  "popBool v = Some (b, v') \<Longrightarrow> counted v R \<Longrightarrow> counted v' R \<and> vkinds v' = vkinds v"
  "popInt32 v = Some (j, v') \<Longrightarrow> counted v R \<Longrightarrow> counted v' R \<and> vkinds v' = vkinds v"
  by (auto simp: popInt_def popBool_def popInt32_def dest!: Pop_counted split: Option.bind_splits)

lemma popBytes_counted:
  "popBytes v = Some (bs, v') \<Longrightarrow> counted v R \<Longrightarrow> counted v' R \<and> vkinds v' = vkinds v \<and> int (length bs) \<le> MaxSize"
  using popBytes_ok [of v bs v'] counted_ok [of v R]
  by (auto simp: popBytes_def dest!: Pop_counted split: Option.bind_splits)

lemma pushInt_counted: "pushInt i v = Some v' \<Longrightarrow> counted v R \<Longrightarrow> counted v' R"
  by (auto simp: pushInt_def intro!: PushItem_counted dest: NewBigInteger_ok split: Option.bind_splits)

lemma counted_fresh:
  assumes c: "counted v R" and f: "fresh (vm_heap v) h" and e: "extends (vm_heap v) h"
  shows "counted (v\<lparr>vm_heap := h\<rparr>) R"
proof -
  have v: "vm_ok v" using c by (rule counted_ok)
  have "\<forall>it\<in>#mset (concat (vm_stacks v)) + R. item_ok (vkinds v) it" using c by (auto simp: counted_def vm_ok_def)
  with exact_fresh [OF _ f vm_ok_heap [OF v]] c have "exact h (vm_refs v) (mset (concat (vm_stacks v)) + R)"
    by (simp add: counted_def)
  with extends_vm [OF v e] extends_item [OF e] c show ?thesis by (simp add: counted_def)
qed

lemma pushNew_counted:
  assumes c: "counted v R" and "content_ok (vkinds v) cn" and "\<And>ks a. has_kind ks a (kind_of cn) \<Longrightarrow> item_ok ks (mk a)"
  shows "counted (pushNew mk cn v) R"
proof -
  obtain a h where al: "alloc cn (vm_heap v) = (a, h)" by force
  have e: "extends (vm_heap v) h \<and> has_kind (kinds h) a (kind_of cn)"
    by (rule alloc_extends [OF al vm_ok_heap [OF counted_ok [OF c]] assms(2)])
  then have "counted (v\<lparr>vm_heap := h\<rparr>) R" using counted_fresh [OF c fresh_alloc [OF al]] by blast
  then show ?thesis using e assms(3) al by (auto simp: pushNew_def intro!: PushItem_counted)
qed

section \<open>Instructions that read\<close>

lemma counted_push_elems:
  "counted v R \<Longrightarrow> items_ok (vkinds v) xs \<Longrightarrow> counted (pushNew ArrayItem (Elems xs) v) R"
  "counted v R \<Longrightarrow> items_ok (vkinds v) xs \<Longrightarrow> counted (pushNew StructItem (Elems xs) v) R"
  "counted v R \<Longrightarrow> content_ok (vkinds v) (Pairs ps) \<Longrightarrow> counted (pushNew MapItem (Pairs ps) v) R"
  "counted v R \<Longrightarrow> int (length bs) \<le> MaxSize \<Longrightarrow> counted (pushNew BufferItem (Raw bs) v) R"
  by (rule pushNew_counted; simp)+

lemma execute_push_counted: "execute_push H op param v = Some v' \<Longrightarrow> counted v R \<Longrightarrow> param_ok op param \<Longrightarrow> counted v' R"
  by (auto simp: execute_push_def param_ok_def intro!: PushItem_counted dest: pushInt_counted split: if_splits Option.bind_splits)

lemma Peek_push_counted: "Peek n v = Some it \<Longrightarrow> counted v R \<Longrightarrow> counted (PushItem it v) R"
  by (intro PushItem_counted) (auto dest: Peek_ok counted_ok)

lemma TUCK_counted: "Peek 0 v = Some it \<Longrightarrow> InsertAt it 2 v = Some v' \<Longrightarrow> counted v R \<Longrightarrow> counted v' R"
  using InsertAt_counted [of it 2 v v'] Peek_ok [of 0 v it] counted_ok [of v R] by blast

lemma execute_stack_counted: "execute_stack op v = Some v' \<Longrightarrow> counted v R \<Longrightarrow> counted v' R"
  by (auto simp: execute_stack_def split: if_splits Option.bind_splits
      dest!: pushInt_counted Pop_counted RemoveAt_counted pops_counted Swap_counted Roll_counted ReverseTop_counted
      intro: Clear_counted Peek_push_counted TUCK_counted)

lemma arith_counted:
  "unInt f v = Some v' \<Longrightarrow> counted v R \<Longrightarrow> counted v' R" "binInt g v = Some v' \<Longrightarrow> counted v R \<Longrightarrow> counted v' R"
  "cmpInt p v = Some v' \<Longrightarrow> counted v R \<Longrightarrow> counted v' R" "cmpNull p v = Some v' \<Longrightarrow> counted v R \<Longrightarrow> counted v' R"
  by (auto simp: unInt_def binInt_def cmpInt_def cmpNull_def intro!: PushItem_counted dest!: pops_counted pushInt_counted Pop_counted
      split: if_splits Option.bind_splits)

lemma execute_bitwise_counted: "execute_bitwise op v = Some v' \<Longrightarrow> counted v R \<Longrightarrow> counted v' R"
  by (auto simp: execute_bitwise_def intro!: PushItem_counted dest!: arith_counted Pop_counted split: if_splits Option.bind_splits)

lemma execute_arith_counted: "execute_arith op v = Some v' \<Longrightarrow> counted v R \<Longrightarrow> counted v' R"
  by (auto simp: execute_arith_def dest!: arith_counted pops_counted pushInt_counted split: if_splits Option.bind_splits)

lemma execute_compare_counted: "execute_compare op v = Some v' \<Longrightarrow> counted v R \<Longrightarrow> counted v' R"
  by (auto simp: execute_compare_def intro!: PushItem_counted dest!: arith_counted pops_counted split: if_splits Option.bind_splits)

lemma Convert_counted:
  assumes "Convert it t (vm_heap v) = Some (it', h)" and c: "counted v R" and it: "item_ok (vkinds v) it"
  shows "counted (PushItem it' (v\<lparr>vm_heap := h\<rparr>)) R"
  using Convert_ok [OF assms(1) vm_ok_heap [OF counted_ok [OF c]] it] counted_fresh [OF c Convert_fresh [OF assms(1)]]
  by (intro PushItem_counted) auto

lemma BoolItem_counted: "counted v R \<Longrightarrow> counted (PushItem (BoolItem b) v) R"
  by (rule PushItem_counted) simp_all

lemma execute_type_counted: "execute_type op param v = Some v' \<Longrightarrow> counted v R \<Longrightarrow> counted v' R"
  by (auto simp: execute_type_def intro!: BoolItem_counted Convert_counted dest!: Pop_counted pops_counted popBytes_counted
      split: if_splits Option.bind_splits)

lemma pop_n_counted: "pop_n n v = Some (its, v') \<Longrightarrow> counted v R \<Longrightarrow> counted v' R"
  by (induction n arbitrary: v its) (auto dest!: Pop_counted split: Option.bind_splits)

lemma pop_pairs_counted: "pop_pairs n v = Some (ps, v') \<Longrightarrow> counted v R \<Longrightarrow> counted v' R"
  by (induction n arbitrary: v ps) (auto dest!: Pop_counted split: Option.bind_splits if_splits)

lemma pop_n_all: "pop_n n v = Some (its, v') \<Longrightarrow> counted v R \<Longrightarrow> counted v' R \<and> vkinds v' = vkinds v \<and> items_ok (vkinds v) its"
  using pop_n_ok [of n v its v'] pop_n_counted [of n v its v'] counted_ok [of v R] by blast

lemma pop_pairs_all:
  "pop_pairs n v = Some (ps, v') \<Longrightarrow> counted v R \<Longrightarrow> counted v' R \<and> vkinds v' = vkinds v \<and> content_ok (vkinds v) (Pairs ps)"
  using pop_pairs_ok [of n v ps v'] pop_pairs_counted [of n v ps v'] counted_ok [of v R] by blast

lemma execute_create_counted: "execute_create op param v = Some v' \<Longrightarrow> counted v R \<Longrightarrow> counted v' R"
  by (auto simp: execute_create_def intro!: counted_push_elems dest!: pops_counted pop_n_all pop_pairs_all split: if_splits Option.bind_splits)
    (auto dest: makeArrayOfType_ok)

lemma push_all_counted: "counted v R \<Longrightarrow> items_ok (vkinds v) its \<Longrightarrow> counted (push_all its v) R"
  by (induction its arbitrary: v) (auto simp: push_all_def PushItem_counted)

lemma execute_unpack_counted: "execute_unpack v = Some v' \<Longrightarrow> counted v R \<Longrightarrow> counted v' R"
proof -
  assume ex: "execute_unpack v = Some v'" and v: "counted v R"
  have "counted v' R" if u: "counted u R" and "get_elems (vm_heap u) a = Some xs" "pushInt i (push_all (rev xs) u) = Some v'" for u a xs i
    using push_all_counted [OF u, of "rev xs"] elems_items [OF counted_ok [OF u] that(2)] pushInt_counted [OF that(3)] by simp
  moreover have "counted v' R" if u: "counted u R" and "get_pairs (vm_heap u) a = Some ps"
      "pushInt i (push_all (concat (map (\<lambda>(k, x). [x, k]) (rev ps))) u) = Some v'" for u a ps i
    using push_all_counted [OF u, of "concat (map (\<lambda>(k, x). [x, k]) (rev ps))"] pairs_items [OF counted_ok [OF u] that(2)]
      pushInt_counted [OF that(3)] by fastforce
  ultimately show ?thesis using ex v
    by (auto simp: execute_unpack_def dest!: Pop_counted split: Option.bind_splits stackitem.splits)
qed

lemma execute_splice_counted: "execute_splice op v = Some v' \<Longrightarrow> op \<noteq> opMEMCPY \<Longrightarrow> counted v R \<Longrightarrow> counted v' R"
  by (auto simp: execute_splice_def split: if_splits Option.bind_splits
      dest!: pops_counted popBytes_counted intro!: counted_push_elems)
    linarith+

lemma collection_reads_counted:
  "execute_size v = Some v' \<Longrightarrow> counted v R \<Longrightarrow> counted v' R"
  "execute_haskey v = Some v' \<Longrightarrow> counted v R \<Longrightarrow> counted v' R"
  by (auto simp: execute_size_def execute_haskey_def intro!: BoolItem_counted dest!: Pop_counted pushInt_counted
      split: if_splits Option.bind_splits)

lemma execute_keys_counted: "execute_keys v = Some v' \<Longrightarrow> counted v R \<Longrightarrow> counted v' R"
  by (auto simp: execute_keys_def intro!: counted_push_elems dest!: Pop_counted split: Option.bind_splits stackitem.splits)
    (auto dest!: pairs_items [OF counted_ok])

lemma push_values_counted:
  assumes "push_values its v = Some v'" and v: "counted v R" and its: "items_ok (vkinds v) its"
  shows "counted v' R"
proof -
  from assms(1) obtain ys h where ys: "clone_all its (vm_heap v) = Some (ys, h)"
    and v': "v' = pushNew ArrayItem (Elems ys) (v\<lparr>vm_heap := h\<rparr>)"
    by (auto simp: push_values_def split: Option.bind_splits)
  have e: "extends (vm_heap v) h \<and> items_ok (kinds h) ys"
    by (rule clone_all_ok [OF ys vm_ok_heap [OF counted_ok [OF v]] its])
  then have "counted (v\<lparr>vm_heap := h\<rparr>) R" using counted_fresh [OF v clone_all_fresh [OF ys]] by blast
  then show ?thesis using e unfolding v' by (intro counted_push_elems) simp_all
qed

lemma execute_values_counted: "execute_values v = Some v' \<Longrightarrow> counted v R \<Longrightarrow> counted v' R"
proof -
  assume ex: "execute_values v = Some v'" and v: "counted v R"
  have "counted v' R" if u: "counted u R" and "get_elems (vm_heap u) a = Some xs" "push_values xs u = Some v'" for u a xs
    using push_values_counted [OF that(3) u elems_items [OF counted_ok [OF u] that(2)]] .
  moreover have "counted v' R" if u: "counted u R" and "get_pairs (vm_heap u) a = Some ps" "push_values (map snd ps) u = Some v'" for u a ps
    using push_values_counted [OF that(3) u] pairs_items [OF counted_ok [OF u] that(2)] by (auto simp: case_prod_beta)
  ultimately show ?thesis
    using ex v by (auto simp: execute_values_def dest!: Pop_counted split: Option.bind_splits stackitem.splits)
qed

section \<open>Changes that keep the items\<close>

lemma put_same_counted:
  assumes v: "counted v R" and "holds c = obj_items (vm_heap v) a" and "content_ok (vkinds v) c" and k: "has_kind (vkinds v) a (kind_of c)"
  shows "counted (v\<lparr>vm_heap := set_value a c (vm_heap v)\<rparr>) R"
proof -
  have "a < length (vm_heap v)" using k by (simp add: has_kind_def kinds_def)
  then have "obj_items (set_value a c (vm_heap v)) = obj_items (vm_heap v)" using assms(2) by (simp add: obj_items_set_value)
  then show ?thesis
    using v put_ok [OF counted_ok [OF v] assms(3) k] by (simp add: counted_def exact_def kinds_set_value [OF k])
qed

lemma reverse_elems_counted: "reverse_elems a v = Some v' \<Longrightarrow> counted v R \<Longrightarrow> counted v' R"
proof -
  assume ex: "reverse_elems a v = Some v'" and v: "counted v R"
  then obtain xs where xs: "get_elems (vm_heap v) a = Some xs" and v': "v' = v\<lparr>vm_heap := set_value a (Elems (rev xs)) (vm_heap v)\<rparr>"
    by (auto simp: reverse_elems_def split: Option.bind_splits if_splits)
  have "mset xs = obj_items (vm_heap v) a" using xs by (auto simp: get_elems_iff obj_items_def)
  then show ?thesis unfolding v'
    using get_elems_ok [OF xs vm_ok_heap [OF counted_ok [OF v]]] by (intro put_same_counted [OF v]) simp_all
qed

lemma put_raw_counted:
  assumes v: "counted v R" and bs: "get_raw (vm_heap v) a = Some bs" and "length cs = length bs"
  shows "counted (v\<lparr>vm_heap := set_value a (Raw cs) (vm_heap v)\<rparr>) R"
  using get_raw_ok [OF bs vm_ok_heap [OF counted_ok [OF v]]] bs assms(3)
  by (intro put_same_counted [OF v]) (auto simp: get_raw_iff obj_items_def)

lemma execute_reverseitems_counted: "execute_reverseitems v = Some v' \<Longrightarrow> counted v R \<Longrightarrow> counted v' R"
  by (auto simp: execute_reverseitems_def dest!: Pop_counted reverse_elems_counted split: Option.bind_splits stackitem.splits)
    (rule put_raw_counted, assumption+, simp)

lemma execute_MEMCPY_counted: "execute_splice opMEMCPY v = Some v' \<Longrightarrow> counted v R \<Longrightarrow> counted v' R"
  by (auto simp: execute_splice_def split: if_splits Option.bind_splits stackitem.splits dest!: pops_counted popBytes_counted Pop_counted)
    (rule put_raw_counted, assumption+, simp)

section \<open>Changes of the items\<close>

lemma counted_held: "counted v R \<Longrightarrow> held R a v \<Longrightarrow> a < length (vm_heap v) \<Longrightarrow> a \<in> live (vm_heap v)"
  unfolding counted_def exact_def held_def by (blast intro: held_live)

lemma pending_counted:
  assumes ok: "vm_ok u" and "\<forall>it\<in>#R. item_ok (vkinds u) it" and its: "items_ok (vkinds u) its"
    and b: "balance (obj_items (vm_heap u)) (vm_heap u) (vm_refs u) (mset its) (mset (concat (vm_stacks u)) + R)"
  shows "counted (count_in its u) R"
proof -
  obtain h r where hr: "add_items its (vm_heap u, vm_refs u) = (h, r)" by force
  have "exact h r (mset (concat (vm_stacks u)) + R)" by (rule add_items_balance [OF b vm_ok_heap [OF ok] its hr])
  then have "exact (vm_heap (count_in its u)) (vm_refs (count_in its u)) (mset (concat (vm_stacks u)) + R)"
    by (simp add: count_in_def hr)
  with assms(1,2) show ?thesis by (simp add: counted_def)
qed

text \<open>New items in an object, counted afterwards.\<close>

lemma grow_counted:
  assumes v: "counted v R" and h: "held R a v" and k: "has_kind (vkinds v) a (kind_of c)" and c: "content_ok (vkinds v) c"
    and new: "holds c = mset its + obj_items (vm_heap v) a" and its: "items_ok (vkinds v) its"
  shows "counted (count_in its (v\<lparr>vm_heap := set_value a c (vm_heap v)\<rparr>)) R"
proof -
  let ?h = "set_value a c (vm_heap v)" and ?M = "mset (concat (vm_stacks v)) + R"
  have a: "a < length (vm_heap v)" using k by (simp add: has_kind_def kinds_def)
  have ok: "vm_ok (v\<lparr>vm_heap := ?h\<rparr>)" by (rule put_ok [OF counted_ok [OF v] c k])
  have kd: "kinds ?h = vkinds v" by (rule kinds_set_value [OF k])
  have "balance (obj_items ?h) ?h (vm_refs v) (mset its) ?M"
    using balance_grow [OF counted_held [OF v h a], of "obj_items (vm_heap v)" "vm_refs v" "{#}" ?M "mset its"] v a new
    by (simp add: counted_def exact_def obj_items_set_value)
  with ok kd its v show ?thesis by (intro pending_counted) (simp_all add: counted_def)
qed

text \<open>Items taken out of an object and counted off afterwards.\<close>

lemma shrink_counted:
  assumes v: "counted v R" and h: "held R a v" and k: "has_kind (vkinds v) a (kind_of c)" and c: "content_ok (vkinds v) c"
    and old: "obj_items (vm_heap v) a = mset its + holds c" and its: "items_ok (vkinds v) its"
  shows "counted (count_out its (v\<lparr>vm_heap := set_value a c (vm_heap v)\<rparr>)) R"
proof -
  let ?h = "set_value a c (vm_heap v)" and ?M = "mset (concat (vm_stacks v)) + R"
  have a: "a < length (vm_heap v)" using k by (simp add: has_kind_def kinds_def)
  have ok: "vm_ok (v\<lparr>vm_heap := ?h\<rparr>)" by (rule put_ok [OF counted_ok [OF v] c k])
  have kd: "kinds ?h = vkinds v" by (rule kinds_set_value [OF k])
  have "exact ?h (vm_refs v) (mset its + ?M)"
    using balance_shrink [OF counted_held [OF v h a], of "obj_items (vm_heap v)" "vm_refs v" "{#}" ?M, OF _ old] v a
    by (simp add: counted_def exact_def obj_items_set_value)
  with exact_count_out [of "v\<lparr>vm_heap := ?h\<rparr>" its ?M] vm_ok_heap [OF ok] ok kd its v show ?thesis by (simp add: counted_def)
qed

text \<open>Items counted off before they are replaced.\<close>

lemma replace_counted:
  assumes v: "counted v R" and h: "held R a v" and k: "has_kind (vkinds v) a (kind_of c)" and c: "content_ok (vkinds v) c"
    and old: "obj_items (vm_heap v) a = mset its + N" and its: "items_ok (vkinds v) its"
    and new: "holds c = mset its' + N" and its': "items_ok (vkinds v) its'"
  shows "counted (count_in its' ((count_out its v)\<lparr>vm_heap := set_value a c (vm_heap (count_out its v))\<rparr>)) R"
proof -
  let ?M = "mset (concat (vm_stacks v)) + R" and ?items = "(obj_items (vm_heap v))(a := N)" and ?u = "count_out its v"
  have a: "a < length (vm_heap v)" using k by (simp add: has_kind_def kinds_def)
  have pos: "0 < refs_to a ?M" using h by (simp add: held_def)
  have bal: "balance ?items (vm_heap v) (vm_refs v) {#} (mset its + ?M)"
    using balance_shrink [OF counted_held [OF v h a], of "obj_items (vm_heap v)" "vm_refs v" "{#}" ?M, OF _ old] v
    by (simp add: counted_def exact_def)
  obtain g r where hr: "remove_items its (vm_heap v, vm_refs v) = (g, r)" by force
  have virt: "\<forall>b<length (vm_heap v). ?items b = obj_items (vm_heap v) b \<or> 0 < refs_to b ?M" using pos by simp
  have "balance ?items g r {#} ?M \<and> obj_items g = obj_items (vm_heap v) \<and> length g = length (vm_heap v)"
    by (rule remove_items_balance [OF bal vm_ok_heap [OF counted_ok [OF v]] its virt hr])
  then have b: "balance ?items (vm_heap ?u) (vm_refs ?u) {#} ?M \<and> obj_items (vm_heap ?u) = obj_items (vm_heap v) \<and>
      length (vm_heap ?u) = length (vm_heap v)" by (simp add: count_out_def hr)
  then have la: "a \<in> live (vm_heap ?u)" using held_live [OF _ pos] a by metis
  let ?h = "set_value a c (vm_heap ?u)"
  have ok: "vm_ok (?u\<lparr>vm_heap := ?h\<rparr>)" using counted_ok [OF v] c k by (intro put_ok) simp_all
  have kd: "kinds ?h = vkinds v" using k by (simp add: kinds_set_value)
  have "balance (obj_items ?h) ?h (vm_refs ?u) (mset its') ?M"
    using balance_grow [OF la, of ?items "vm_refs ?u" "{#}" ?M "mset its'"] b new a by (simp add: obj_items_set_value)
  with ok kd its' v show ?thesis by (intro pending_counted) (simp_all add: counted_def)
qed

section \<open>Instructions that change collections\<close>

lemma append_elem_counted:
  assumes "append_elem a it v = Some v'" and v: "counted v R" and it: "item_ok (vkinds v) it" and h: "held R a v"
  shows "counted v' R"
proof -
  from assms(1) obtain val g xs where cl: "cloneIfStruct it (vm_heap v) = Some (val, g)" and xs: "get_elems g a = Some xs"
    and v': "v' = count_in [val] (v\<lparr>vm_heap := set_value a (Elems (xs @ [val])) g\<rparr>)"
    by (auto simp: append_elem_def split: Option.bind_splits if_splits)
  define u where "u = v\<lparr>vm_heap := g\<rparr>"
  have e: "extends (vm_heap v) g \<and> item_ok (kinds g) val" by (rule cloneIfStruct_ok [OF cl vm_ok_heap [OF counted_ok [OF v]] it])
  then have u: "counted u R" unfolding u_def using counted_fresh [OF v cloneIfStruct_fresh [OF cl]] by blast
  have xs': "get_elems (vm_heap u) a = Some xs" using xs by (simp add: u_def)
  have "counted (count_in [val] (u\<lparr>vm_heap := set_value a (Elems (xs @ [val])) (vm_heap u)\<rparr>)) R"
    using get_elems_ok [OF xs' vm_ok_heap [OF counted_ok [OF u]]] e h xs'
    by (intro grow_counted [OF u]) (auto simp: u_def held_def get_elems_iff obj_items_def)
  then show ?thesis by (simp add: v' u_def)
qed

lemma mset_update_nth: "i < length xs \<Longrightarrow> mset (xs[i := y]) = add_mset y (mset (take i xs @ drop (Suc i) xs))"
  by (simp add: upd_conv_take_nth_drop)

lemma remove_elem_counted:
  assumes "remove_elem a key v = Some v'" and v: "counted v R" and h: "held R a v"
  shows "counted v' R"
proof -
  from assms(1) obtain xs k where xs: "get_elems (vm_heap v) a = Some xs" and k: "\<not> k < 0" "\<not> int (length xs) \<le> k"
    and v': "v' = count_out [xs ! nat k] (v\<lparr>vm_heap := set_value a (Elems (take (nat k) xs @ drop (Suc (nat k)) xs)) (vm_heap v)\<rparr>)"
    by (auto simp: remove_elem_def split: Option.bind_splits if_splits)
  have i: "nat k < length xs" using k by linarith
  have "items_ok (vkinds v) xs \<and> has_kind (vkinds v) a KElems" by (rule get_elems_ok [OF xs vm_ok_heap [OF counted_ok [OF v]]])
  then show ?thesis unfolding v' using xs i mset_remove_nth [OF i]
    by (intro shrink_counted [OF v h]) (auto simp: get_elems_iff obj_items_def dest!: in_set_takeD in_set_dropD)
qed

lemma obj_items_count [simp]:
  "obj_items (vm_heap (count_in its v)) = obj_items (vm_heap v)" "obj_items (vm_heap (count_out its v)) = obj_items (vm_heap v)"
proof -
  have cong: "map ob_value h' = map ob_value h \<Longrightarrow> obj_items h' = obj_items h" for h h' :: heap
    by (rule ext) (metis length_map nth_map obj_items_def)
  show "obj_items (vm_heap (count_in its v)) = obj_items (vm_heap v)"
    using contents_add_items [of its "(vm_heap v, vm_refs v)"] by (intro cong) (auto simp: count_in_def split: prod.splits)
  show "obj_items (vm_heap (count_out its v)) = obj_items (vm_heap v)"
    using contents_remove_items [of its "(vm_heap v, vm_refs v)"] by (intro cong) (auto simp: count_out_def split: prod.splits)
qed

lemma pop_elem_counted:
  assumes "pop_elem a v = Some v'" and v: "counted v R" and h: "held R a v"
  shows "counted v' R"
proof -
  from assms(1) obtain xs where xs: "get_elems (vm_heap v) a = Some xs" and ne: "xs \<noteq> []"
    and v': "v' = count_out [last xs] ((PushItem (last xs) v)\<lparr>vm_heap := set_value a (Elems (butlast xs)) (vm_heap (PushItem (last xs) v))\<rparr>)"
    by (auto simp: pop_elem_def Let_def split: Option.bind_splits if_splits)
  have typed: "items_ok (vkinds v) xs \<and> has_kind (vkinds v) a KElems" by (rule get_elems_ok [OF xs vm_ok_heap [OF counted_ok [OF v]]])
  have p: "counted (PushItem (last xs) v) R" using typed ne by (intro PushItem_counted [OF v]) simp
  have "mset (concat (vm_stacks (PushItem (last xs) v))) = add_mset (last xs) (mset (concat (vm_stacks v)))"
    using mset_set_estack [OF counted_ok [OF v], of "last xs # estack v"] by (simp add: PushItem_def)
  then have hp: "held R a (PushItem (last xs) v)" using h by (simp add: held_def)
  have "mset xs = add_mset (last xs) (mset (butlast xs))" using ne by (cases xs rule: rev_cases) simp_all
  then show ?thesis unfolding v' using typed xs ne
    by (intro shrink_counted [OF p hp]) (auto simp: PushItem_def get_elems_iff obj_items_def dest: in_set_butlastD)
qed

lemma set_elem_counted:
  assumes "set_elem H a key it v = Some v'" and v: "counted v R" and h: "held R a v" and it: "item_ok (vkinds v) it"
    and i: "key_index key = Some i" "0 \<le> i" and xs: "get_elems (vm_heap v) a = Some xs" "i < int (length xs)"
  shows "counted v' R"
proof -
  have n: "nat i < length xs" using i xs by linarith
  have v': "v' = count_in [it] ((count_out [xs ! nat i] v)\<lparr>vm_heap := set_value a (Elems (xs[nat i := it])) (vm_heap (count_out [xs ! nat i] v))\<rparr>)"
    using assms by (auto simp: set_elem_def Let_def split: if_splits)
  have "items_ok (vkinds v) xs \<and> has_kind (vkinds v) a KElems" by (rule get_elems_ok [OF xs(1) vm_ok_heap [OF counted_ok [OF v]]])
  then show ?thesis unfolding v' using xs n it mset_remove_nth [OF n]
    by (intro replace_counted [OF v h, where N = "mset (take (nat i) xs @ drop (Suc (nat i)) xs)"])
      (auto simp: get_elems_iff obj_items_def mset_update_nth dest!: set_update_subset_insert [THEN subsetD])
qed

lemma pair_items_nth:
  "i < length ps \<Longrightarrow> pair_items ps = {#fst (ps ! i), snd (ps ! i)#} + pair_items (take i ps @ drop (Suc i) ps)"
  by (subst id_take_nth_drop [of i ps]) (auto simp: case_prod_beta)

lemma pair_items_update:
  "i < length ps \<Longrightarrow> pair_items (ps[i := (k, x)]) = {#k, x#} + pair_items (take i ps @ drop (Suc i) ps)"
  by (auto simp: upd_conv_take_nth_drop)

lemma pairs_of: "get_pairs h a = Some ps \<Longrightarrow> obj_items h a = pair_items ps"
  by (auto simp: get_pairs_iff obj_items_def)

lemma remove_pair_counted:
  assumes "remove_pair a key v = Some v'" and v: "counted v R" and h: "held R a v"
  shows "counted v' R"
proof -
  from assms(1) obtain ps r where ps: "get_pairs (vm_heap v) a = Some ps" and r: "Map_Index ps key = Some r"
    by (auto simp: remove_pair_def split: Option.bind_splits)
  have typed: "content_ok (vkinds v) (Pairs ps) \<and> has_kind (vkinds v) a KPairs"
    by (rule get_pairs_ok [OF ps vm_ok_heap [OF counted_ok [OF v]]])
  show ?thesis
  proof (cases r)
    case (Some i)
    then have i: "i < length ps" using r Map_Index_less by simp
    then have "ps ! i \<in> set ps" by simp
    moreover have v': "v' = count_out [fst (ps ! i), snd (ps ! i)] (v\<lparr>vm_heap := set_value a (Pairs (take i ps @ drop (Suc i) ps)) (vm_heap v)\<rparr>)"
      using assms(1) ps r Some by (auto simp: remove_pair_def split: if_splits)
    ultimately show ?thesis unfolding v' using typed pairs_of [OF ps] pair_items_nth [OF i]
      by (intro shrink_counted [OF v h]) (auto simp: case_prod_beta dest!: in_set_takeD in_set_dropD)
  qed (use assms(1) ps r v in \<open>simp add: remove_pair_def\<close>)
qed

lemma clear_items_counted:
  assumes "clear_items ob a c v = Some v'" and v: "counted v R" and h: "held R a v" and ob: "counted_addr ob = Some a" "item_ok (vkinds v) ob"
    and c: "holds c = {#}" "has_kind (vkinds v) a (kind_of c)" "content_ok (vkinds v) c"
  shows "counted v' R"
proof -
  have v': "v' = (count_out (children (vm_heap v) ob) v)\<lparr>vm_heap := set_value a c (vm_heap (count_out (children (vm_heap v) ob) v))\<rparr>"
    using assms(1) by (auto simp: clear_items_def Let_def split: if_splits)
  have "counted (count_in [] v') R" unfolding v'
    using counted_typed [OF ob] children_ok [OF ob(2) vm_ok_heap [OF counted_ok [OF v]]] c
    by (intro replace_counted [OF v h, where N = "{#}"]) simp_all
  then show ?thesis by simp
qed

lemma valid_key_plain: "IsValidMapKey key \<Longrightarrow> counted_addr key = None"
  by (cases key) simp_all

lemma set_pair_new:
  assumes v: "counted v R" and h: "held R a v" and it: "item_ok (vkinds v) it" "item_ok (vkinds v) key" "IsValidMapKey key"
    and ps: "get_pairs (vm_heap v) a = Some ps"
  shows "counted (count_in [it] ((count_in [key] v)\<lparr>vm_heap := set_value a (Pairs (ps @ [(key, it)])) (vm_heap (count_in [key] v))\<rparr>)) R"
proof -
  have typed: "content_ok (vkinds v) (Pairs ps) \<and> has_kind (vkinds v) a KPairs"
    by (rule get_pairs_ok [OF ps vm_ok_heap [OF counted_ok [OF v]]])
  have "counted (count_in [key, it] (v\<lparr>vm_heap := set_value a (Pairs (ps @ [(key, it)])) (vm_heap v)\<rparr>)) R"
    using typed it pairs_of [OF ps] by (intro grow_counted [OF v h]) auto
  moreover have "count_in [key, it] (v\<lparr>vm_heap := set_value a c (vm_heap v)\<rparr>) =
      count_in [it] ((count_in [key] v)\<lparr>vm_heap := set_value a c (vm_heap (count_in [key] v))\<rparr>)" for c
    using valid_key_plain [OF it(3)] by (simp add: count_in_def add_items.simps split: prod.split)
  ultimately show ?thesis by simp
qed

lemma set_pair_old:
  assumes v: "counted v R" and h: "held R a v" and it: "item_ok (vkinds v) it"
    and ps: "get_pairs (vm_heap v) a = Some ps" and i: "i < length ps"
  shows "counted (count_in [it] ((count_out [snd (ps ! i)] v)\<lparr>vm_heap :=
    set_value a (Pairs (ps[i := (fst (ps ! i), it)])) (vm_heap (count_out [snd (ps ! i)] v))\<rparr>)) R"
proof -
  have typed: "content_ok (vkinds v) (Pairs ps) \<and> has_kind (vkinds v) a KPairs"
    by (rule get_pairs_ok [OF ps vm_ok_heap [OF counted_ok [OF v]]])
  have nth: "ps ! i \<in> set ps" using i by simp
  then have c: "content_ok (vkinds v) (Pairs (ps[i := (fst (ps ! i), it)]))"
    using typed it by (auto simp: case_prod_beta dest!: set_update_subset_insert [THEN subsetD])
  show ?thesis
    by (rule replace_counted [OF v h _ c, where N = "add_mset (fst (ps ! i)) (pair_items (take i ps @ drop (Suc i) ps))"])
      (use typed it nth pairs_of [OF ps] pair_items_nth [OF i] pair_items_update [OF i] in \<open>auto simp: case_prod_beta\<close>)
qed

lemma set_pair_counted:
  assumes "set_pair a key it v = Some v'" and v: "counted v R" and h: "held R a v" and it: "item_ok (vkinds v) it" "item_ok (vkinds v) key"
  shows "counted v' R"
proof -
  from assms(1) obtain ps r ps' where ps: "get_pairs (vm_heap v) a = Some ps" and r: "Map_Index ps key = Some r"
    and a: "Map_Add key it ps = Some ps'" by (auto simp: set_pair_def Let_def split: Option.bind_splits if_splits)
  have key: "IsValidMapKey key" using a by (auto simp: Map_Add_def split: if_splits)
  show ?thesis
  proof (cases r)
    case None
    then have "ps' = ps @ [(key, it)]" using a r key by (simp add: Map_Add_def)
    then show ?thesis using assms(1) ps r a None set_pair_new [OF v h it key ps] by (auto simp: set_pair_def Let_def split: if_splits)
  next
    case (Some i)
    then have "i < length ps" using r Map_Index_less by simp
    moreover have "ps' = ps[i := (fst (ps ! i), it)]" using Some a r key by (simp add: Map_Add_def)
    ultimately show ?thesis
      using assms(1) ps r a Some set_pair_old [OF v h it(1) ps] by (auto simp: set_pair_def Let_def split: if_splits)
  qed
qed

end

end
