(* ===== verification/Vm_Refs_Api.thy ===== *)
theory Vm_Refs_Api
  imports Vm_Counted
begin

text \<open>
  The reference counter of the machine is exact for its stacks and slots and stays so under the
  instructions that leave the contexts alone, provided that a collection changed in place is held elsewhere
  too; and what happens when it is not.
\<close>

section \<open>The operand that is changed\<close>

definition target_depth :: "byte \<Rightarrow> nat option" where
  "target_depth op = map_of [(opAPPEND, 1), (opSETITEM, 2), (opREMOVE, 1), (opCLEARITEMS, 0), (opPOPITEM, 0)] op"

text \<open>The collection that the instruction changes is held by a root below its operands.\<close>

definition target_held :: "byte \<Rightarrow> stackitem multiset \<Rightarrow> vm \<Rightarrow> bool" where
  "target_held op R v = (case target_depth op of
     None \<Rightarrow> True
   | Some d \<Rightarrow> (case counted_addr (estack v ! d) of
       None \<Rightarrow> True
     | Some a \<Rightarrow> held R a (set_estack (drop (Suc d) (estack v)) v)))"

lemma Pop_stacks:
  assumes "Pop v = Some (it, u)" and "vm_ok v"
  shows "estack v = it # estack u \<and> vm_stacks u = vm_stacks (set_estack (estack u) v) \<and>
    vm_stacks (set_estack xs u) = vm_stacks (set_estack xs v)"
proof -
  from assms(1) obtain xs where xs: "estack v = it # xs" and u: "u = count_out [it] (set_estack xs v)"
    by (auto simp: Pop_def split: list.splits)
  have e: "estack (set_estack ys v) = ys" for ys using assms(2) by (simp add: estack_def set_estack_def vm_ok_def)
  have "vm_estack u = vm_estack v" by (simp add: u count_out_def set_estack_def split: prod.split)
  then show ?thesis using xs by (simp add: u e) (simp add: set_estack_def)
qed

lemma set_estack_estack: "vm_ok v \<Longrightarrow> vm_stacks (set_estack (estack v) v) = vm_stacks v"
  by (simp add: set_estack_def estack_def vm_ok_def)

lemma pop_n_stacks:
  "pop_n n v = Some (its, w) \<Longrightarrow> vm_ok v \<Longrightarrow>
    estack v = its @ estack w \<and> length its = n \<and> vm_stacks w = vm_stacks (set_estack (estack w) v)"
proof (induction n arbitrary: v its)
  case (Suc n)
  then obtain it u xs where p: "Pop v = Some (it, u)" and ps: "pop_n n u = Some (xs, w)" and its: "its = it # xs"
    by (auto split: Option.bind_splits)
  have "vm_ok u" using Pop_ok [OF p Suc.prems(2)] by simp
  note ih = Suc.IH [OF ps this] and st = Pop_stacks [OF p Suc.prems(2), of "estack w"]
  from ih st its show ?case by simp
qed (simp add: set_estack_estack)

lemma target_held_after:
  assumes "target_held op R v" and "target_depth op = Some d" and p: "pop_n (Suc d) v = Some (its, w)" and v: "vm_ok v"
    and a: "counted_addr (its ! d) = Some a"
  shows "held R a w"
proof -
  note st = pop_n_stacks [OF p v]
  then have "estack v ! d = its ! d" "drop (Suc d) (estack v) = estack w" by (simp_all add: nth_append)
  with assms(1,2) a have "held R a (set_estack (estack w) v)" by (simp add: target_held_def)
  with st show ?thesis by (simp add: held_def)
qed

section \<open>Exceptions show\<close>

text \<open>A handler that takes an exception changes its state, so the contexts differ afterwards.\<close>

lemma enter_handler_changes:
  assumes "enter_handler ex v = Some v'" and c: "vm_istack v = c # cs"
  shows "\<exists>c'. vm_istack v' = c' # cs \<and> cx_tryStack c' \<noteq> cx_tryStack c"
proof -
  from assms(1) obtain sc e es where sc: "script v c = Some sc" and es: "dropWhile spent (cx_tryStack c) = e # es"
    by (auto simp: enter_handler_def cur_def c split: Option.bind_splits list.splits)
  have ns: "\<not> spent e" using es by (metis hd_dropWhile list.discI list.sel(1))
  have len: "Suc (length es) \<le> length (cx_tryStack c)" using length_dropWhile_le [of spent "cx_tryStack c"] es by simp
  have ne: "e\<lparr>eh_State := st\<rparr> # es \<noteq> cx_tryStack c" if "st \<noteq> eh_State e" for st
  proof
    assume eq: "e\<lparr>eh_State := st\<rparr> # es = cx_tryStack c"
    have "length (dropWhile spent (cx_tryStack c)) = length (cx_tryStack c)" using es eq [symmetric] by simp
    then have "dropWhile spent (cx_tryStack c) = cx_tryStack c" by (metis append_eq_conv_conj dropWhile_eq_drop drop_0 length_dropWhile_le takeWhile_dropWhile_id length_0_conv add_cancel_left_left length_append append_Nil)
    then have "e\<lparr>eh_State := st\<rparr> = e" using es eq by (metis list.inject)
    then show False using that by (metis eh_context.select_convs(4) eh_context.surjective eh_context.update_convs(4))
  qed
  have jump: "Jump p u = Some v' \<Longrightarrow> vm_istack u = c1 # cs \<Longrightarrow> \<exists>q. vm_istack v' = c1\<lparr>cx_nextip := q\<rparr> # cs" for p u c1
    by (auto simp: Jump_def cur_def set_cur_def split: Option.bind_splits if_splits)
  have st: "eh_State e \<noteq> EFinally" using ns by (simp add: spent_def)
  from assms(1) sc es c show ?thesis
    by (auto simp: enter_handler_def cur_def Let_def dest!: jump split: if_splits)
      (use ne st in \<open>auto\<close>)
qed

lemma throw_changes:
  assumes "throw H ex v = Some v'" and "unload_keeps_code H"
  shows "vm_istack v' \<noteq> vm_istack v"
proof -
  let ?v = "v\<lparr>vm_uncaughtException := Some ex\<rparr>"
  from assms(1) obtain n u where n: "find_handler (vm_istack v) = Some n" and u: "unload_top H n ?v = Some u"
    and e: "enter_handler ex u = Some v'" by (auto simp: throw_def handleException_def split: Option.bind_splits)
  have "n < length (vm_istack v)" using n by (simp add: find_handler_Some)
  then have st: "vm_istack u = vm_istack v ! n # drop (Suc n) (vm_istack v)"
    using unload_top_keeps [OF u assms(2)] by (simp add: Cons_nth_drop_Suc)
  from enter_handler_changes [OF e st] obtain c' where c': "vm_istack v' = c' # drop (Suc n) (vm_istack v)"
    "cx_tryStack c' \<noteq> cx_tryStack (vm_istack v ! n)" by blast
  show ?thesis
  proof
    assume eq: "vm_istack v' = vm_istack v"
    have "length (vm_istack v') = length (vm_istack v) - n" using c'(1) \<open>n < length (vm_istack v)\<close> by simp
    then have "n = 0" using eq \<open>n < length (vm_istack v)\<close> by simp
    then show False using c' eq by (cases "vm_istack v") auto
  qed
qed

text \<open>
  The instructions that work on data: constants, jumps, assertions, \<^verbatim>\<open>TRY\<close>, the stack, loads from slots,
  byte strings, numbers, types and collections.
\<close>

definition slot_load_op :: "byte \<Rightarrow> bool" where
  "slot_load_op op \<longleftrightarrow>
     opLDSFLD0 \<le> op \<and> op \<le> opLDSFLD \<or> opLDLOC0 \<le> op \<and> op \<le> opLDLOC \<or> opLDARG0 \<le> op \<and> op \<le> opLDARG"

definition data_op :: "byte \<Rightarrow> bool" where
  "data_op op \<longleftrightarrow> op \<le> opJMPLEL \<or> op \<in> {opASSERT, opTRY, opTRYL} \<or> opDEPTH \<le> op \<and> op \<le> opREVERSEN \<or>
     slot_load_op op \<or> opNEWBUFFER \<le> op"

context other_roots
begin

lemma execute_append_counted:
  assumes "execute_append v = Some v'" and v: "counted v R" and h: "target_held opAPPEND R v"
  shows "counted v' R"
proof -
  from assms(1) obtain it arr w a where p: "pop_n (Suc 1) v = Some ([it, arr], w)"
    and ap: "append_elem a it w = Some v'" and arr: "counted_addr ([it, arr] ! 1) = Some a"
    by (auto simp: execute_append_def split: Option.bind_splits stackitem.splits)
  have w: "counted w R \<and> vkinds w = vkinds v \<and> items_ok (vkinds v) [it, arr]" by (rule pop_n_all [OF p v])
  have "held R a w" by (rule target_held_after [OF h _ p counted_ok [OF v] arr]) (simp add: target_depth_def)
  then show ?thesis using append_elem_counted [OF ap] w by simp
qed

lemma execute_remove_counted:
  assumes "execute_remove v = Some v'" and v: "counted v R" and h: "target_held opREMOVE R v"
  shows "counted v' R"
proof -
  from assms(1) obtain key ob w a where p: "pop_n (Suc 1) v = Some ([key, ob], w)"
    and rm: "remove_elem a key w = Some v' \<or> remove_pair a key w = Some v'" and ob: "counted_addr ([key, ob] ! 1) = Some a"
    by (auto simp: execute_remove_def split: Option.bind_splits stackitem.splits if_splits) blast+
  have w: "counted w R" using pop_n_all [OF p v] by simp
  have "held R a w" by (rule target_held_after [OF h _ p counted_ok [OF v] ob]) (simp add: target_depth_def)
  then show ?thesis using remove_elem_counted remove_pair_counted rm w by blast
qed

lemma execute_popitem_counted:
  assumes "execute_popitem v = Some v'" and v: "counted v R" and h: "target_held opPOPITEM R v"
  shows "counted v' R"
proof -
  from assms(1) obtain arr w a where p: "pop_n (Suc 0) v = Some ([arr], w)"
    and pe: "pop_elem a w = Some v'" and arr: "counted_addr ([arr] ! 0) = Some a"
    by (auto simp: execute_popitem_def split: Option.bind_splits stackitem.splits)
  have w: "counted w R" using pop_n_all [OF p v] by simp
  have "held R a w" by (rule target_held_after [OF h _ p counted_ok [OF v] arr]) (simp add: target_depth_def)
  then show ?thesis by (rule pop_elem_counted [OF pe w])
qed

lemma execute_clearitems_counted:
  assumes "execute_clearitems v = Some v'" and v: "counted v R" and h: "target_held opCLEARITEMS R v"
  shows "counted v' R"
proof -
  from assms(1) obtain ob w a c where p: "pop_n (Suc 0) v = Some ([ob], w)" and cl: "clear_items ob a c w = Some v'"
    and ob: "counted_addr ([ob] ! 0) = Some a" and c: "c = (case ob of MapItem a \<Rightarrow> Pairs [] | _ \<Rightarrow> Elems [])"
    by (auto simp: execute_clearitems_def split: Option.bind_splits stackitem.splits)
  have w: "counted w R \<and> vkinds w = vkinds v \<and> item_ok (vkinds v) ob" using pop_n_all [OF p v] by simp
  have "held R a w" by (rule target_held_after [OF h _ p counted_ok [OF v] ob]) (simp add: target_depth_def)
  then show ?thesis using w ob c by (intro clear_items_counted [OF cl]) (auto split: stackitem.splits)
qed

lemma pick_elem_counted:
  assumes "pick_elem H key xs v = Some v'" and v: "counted v R" and xs: "items_ok (vkinds v) xs"
    and "unload_keeps_code H" and "vm_istack v' = vm_istack v"
  shows "counted v' R"
  using assms throw_changes [of H _ v v']
  by (auto simp: pick_elem_def intro: PushItem_counted split: if_splits Option.bind_splits)

lemma Pop_istack: "Pop v = Some (it, u) \<Longrightarrow> vm_istack u = vm_istack v"
  using code.view_Pop [of v it u] by simp

lemma execute_pickitem_counted:
  assumes ex: "execute_pickitem H v = Some v'" and v: "counted v R" and H: "unload_keeps_code H" and nt: "vm_istack v' = vm_istack v"
  shows "counted v' R"
proof -
  from ex obtain key u ob w where p1: "Pop v = Some (key, u)" and p2: "Pop u = Some (ob, w)" and
    body: "(case ob of
       ArrayItem a \<Rightarrow> do { xs \<leftarrow> get_elems (vm_heap w) a; pick_elem H key xs w }
     | StructItem a \<Rightarrow> do { xs \<leftarrow> get_elems (vm_heap w) a; pick_elem H key xs w }
     | MapItem a \<Rightarrow> do {
         ps \<leftarrow> get_pairs (vm_heap w) a; r \<leftarrow> Map_Index ps key;
         case r of
           None \<Rightarrow> throw H (ByteArray (string_bytes ''Key not found in Map'')) w
         | Some i \<Rightarrow> Some (PushItem (snd (ps ! i)) w) }
     | _ \<Rightarrow> do {
         arr \<leftarrow> TryBytes (vm_heap w) ob;
         pick_elem H key (map (\<lambda>b. BigInteger (int (unat b))) arr) w }) = Some v'"
    unfolding execute_pickitem_def by (auto split: if_splits Option.bind_splits)
  have w: "counted w R" using Pop_counted [OF p1 v] Pop_counted [OF p2] by simp
  have st: "vm_istack v' = vm_istack w" using nt Pop_istack [OF p1] Pop_istack [OF p2] by simp
  note pick = pick_elem_counted [OF _ w _ H st]
  have arr: "do { xs \<leftarrow> get_elems (vm_heap w) a; pick_elem H key xs w } = Some v' \<Longrightarrow> counted v' R" for a
    using pick elems_items [OF counted_ok [OF w]] by (auto split: Option.bind_splits)
  have bytes: "do { arr \<leftarrow> TryBytes (vm_heap w) ob; pick_elem H key (map (\<lambda>b. BigInteger (int (unat b))) arr) w } = Some v' \<Longrightarrow> counted v' R"
    using pick byte_item_ok [of "vkinds w"] by (cases "TryBytes (vm_heap w) ob") (auto simp del: item_ok.simps)
  have pair: "do { ps \<leftarrow> get_pairs (vm_heap w) a; r \<leftarrow> Map_Index ps key;
         case r of None \<Rightarrow> throw H (ByteArray (string_bytes ''Key not found in Map'')) w
         | Some i \<Rightarrow> Some (PushItem (snd (ps ! i)) w) } = Some v' \<Longrightarrow> counted v' R" for a
    using throw_changes [OF _ H, of _ w v'] st
    by (auto intro!: PushItem_counted [OF w] dest!: pairs_items [OF counted_ok [OF w]] Map_Index_less nth_mem
        simp: case_prod_beta split: Option.bind_splits option.splits)
  show ?thesis using body by (cases ob) (simp_all only: stackitem.case arr bytes pair)
qed

lemma set_elem_held:
  assumes "set_elem H a key it v = Some v'" and v: "counted v R" and h: "held R a v" and it: "item_ok (vkinds v) it"
    and H: "unload_keeps_code H" and nt: "vm_istack v' = vm_istack v"
  shows "counted v' R"
proof -
  from assms(1) obtain xs i where xs: "get_elems (vm_heap v) a = Some xs" and i: "key_index key = Some i"
    by (auto simp: set_elem_def split: Option.bind_splits)
  then have "0 \<le> i" "i < int (length xs)"
    using assms(1) throw_changes [OF _ H, of _ v v'] nt by (auto simp: set_elem_def split: if_splits)
  then show ?thesis using set_elem_counted [OF assms(1) v h it i] xs by simp
qed

lemma set_byte_counted:
  assumes "set_byte H a key it v = Some v'" and v: "counted v R" and H: "unload_keeps_code H" and nt: "vm_istack v' = vm_istack v"
  shows "counted v' R"
  using assms throw_changes [OF _ H, of _ v v']
  by (auto simp: set_byte_def intro!: put_raw_counted split: if_splits Option.bind_splits)

lemma execute_setitem_counted:
  assumes "execute_setitem H v = Some v'" and v: "counted v R" and h: "target_held opSETITEM R v"
    and H: "unload_keeps_code H" and nt: "vm_istack v' = vm_istack v"
  shows "counted v' R"
proof -
  from assms(1) obtain it key ob w where p: "pop_n (Suc 2) v = Some ([it, key, ob], w)"
    and body: "(case ob of
       ArrayItem a \<Rightarrow> set_elem H a key it w
     | StructItem a \<Rightarrow> set_elem H a key it w
     | MapItem a \<Rightarrow> set_pair a key it w
     | BufferItem a \<Rightarrow> set_byte H a key it w
     | _ \<Rightarrow> None) = Some v'"
    by (auto simp: execute_setitem_def numeral_2_eq_2 split: Option.bind_splits if_splits)
  have w: "counted w R \<and> vkinds w = vkinds v \<and> items_ok (vkinds v) [it, key, ob]" by (rule pop_n_all [OF p v])
  have st: "vm_istack v' = vm_istack w" using nt code.view_pop_n [OF p] by simp
  have held: "counted_addr ob = Some a \<Longrightarrow> held R a w" for a
    by (rule target_held_after [OF h _ p counted_ok [OF v]]) (simp_all add: target_depth_def)
  show ?thesis
    using body w st held H
    by (cases ob) (auto intro: set_elem_held set_pair_counted set_byte_counted)
qed

text \<open>Jumps, calls and handlers do not touch the data.\<close>

lemma counted_cong:
  "vm_heap v' = vm_heap v \<Longrightarrow> vm_refs v' = vm_refs v \<Longrightarrow> vm_stacks v' = vm_stacks v \<Longrightarrow> vm_ok v' \<Longrightarrow> counted v R \<Longrightarrow> counted v' R"
  by (simp add: counted_def)

lemma set_cur_parts: "vm_heap (set_cur c v) = vm_heap v" "vm_refs (set_cur c v) = vm_refs v" "vm_stacks (set_cur c v) = vm_stacks v"
  by (simp_all add: set_cur_def)

lemma Jump_counted: "Jump p v = Some v' \<Longrightarrow> counted v R \<Longrightarrow> counted v' R"
  using Jump_ok [of p v v'] counted_ok [of v R]
  by (auto simp: Jump_def set_cur_parts intro!: counted_cong [of "set_cur _ v" v] split: Option.bind_splits if_splits)

lemma execute_jump_counted: "execute_jump op param v = Some v' \<Longrightarrow> counted v R \<Longrightarrow> counted v' R"
  by (auto simp: execute_jump_def jump_taken_def dest!: pops_counted Jump_counted split: if_splits Option.bind_splits)

lemma execute_try_counted: "execute_try op param v = Some v' \<Longrightarrow> counted v R \<Longrightarrow> counted v' R"
  using execute_try_ok [of op param v v'] counted_ok [of v R]
  by (auto simp: execute_try_def Let_def set_cur_parts intro!: counted_cong [of "set_cur _ v" v]
      split: if_splits Option.bind_splits prod.splits)

lemma slot_load:
  assumes "execute_slot op param v = Some v'" and "slot_load_op op"
  shows "\<exists>c sc s i it. cur v = Some c \<and> script v c = Some sc \<and> s \<in> {sc_static sc, cx_local c, cx_arguments c} \<and>
    slot_get s i = Some it \<and> v' = PushItem it v"
proof -
  have "op \<noteq> opINITSSLOT" "op \<noteq> opINITSLOT" and r: "op \<le> opLDSFLD \<or> \<not> op \<le> opSTSFLD"
    "op \<le> opLDLOC \<or> \<not> op \<le> opSTLOC" "op \<le> opLDARG"
    using assms(2) by (auto simp: slot_load_op_def word_le_nat_alt)
  with assms(1) show ?thesis
    by (fastforce simp: execute_slot_def split: if_splits Option.bind_splits)
qed

lemma execute_load_counted:
  assumes "execute_slot op param v = Some v'" and "slot_load_op op" and v: "counted v R"
  shows "counted v' R"
proof -
  from slot_load [OF assms(1,2)] obtain c sc s i it where c: "cur v = Some c" and sc: "script v c = Some sc"
    and s: "s \<in> {sc_static sc, cx_local c, cx_arguments c}" and it: "slot_get s i = Some it" and v': "v' = PushItem it v" by blast
  have "slot_ok (vkinds v) s" using s cur_ok [OF c counted_ok [OF v]] script_of_ok [OF sc counted_ok [OF v]]
    by (auto simp: context_ok_def script_ok_def)
  then show ?thesis unfolding v' using slot_get_ok [OF it] by (intro PushItem_counted [OF v])
qed

lemma execute_control_counted:
  assumes "execute_control H op param v = Some v'" and "op \<le> opJMPLEL \<or> op \<in> {opASSERT, opTRY, opTRYL}" and v: "counted v R"
  shows "counted v' R"
proof (cases "op \<le> opJMPLEL")
  case True
  then show ?thesis using assms(1) execute_jump_counted [OF _ v] by (simp add: execute_control_def)
next
  case False
  then have "op \<in> {opASSERT, opTRY, opTRYL}" using assms(2) by blast
  then show ?thesis using assms(1) v
    by (auto simp: execute_control_def dest!: pops_counted execute_try_counted split: if_splits Option.bind_splits)
qed

lemma execute_collection_counted:
  assumes "execute_collection H op v = Some v'" and v: "counted v R" and h: "target_held op R v"
    and "unload_keeps_code H" and "op \<in> {opPICKITEM, opSETITEM} \<longrightarrow> vm_istack v' = vm_istack v"
  shows "counted v' R"
  using assms
  by (auto simp: execute_collection_def split: if_splits
      intro: execute_unpack_counted collection_reads_counted execute_keys_counted execute_values_counted
        execute_pickitem_counted execute_append_counted execute_setitem_counted execute_reverseitems_counted
        execute_remove_counted execute_clearitems_counted execute_popitem_counted)

lemma execute_op_counted:
  assumes ex: "execute_op H op param v = Some v'" and v: "counted v R" and op: "data_op op" and p: "param_ok op param"
    and h: "target_held op R v" and H: "unload_keeps_code H"
    and nt: "op \<in> {opPICKITEM, opSETITEM} \<longrightarrow> vm_istack v' = vm_istack v"
  shows "counted v' R"
proof -
  have splice: "execute_splice op v = Some v' \<Longrightarrow> counted v' R"
    using execute_splice_counted [OF _ _ v] execute_MEMCPY_counted [OF _ v] by blast
  have dop: "op \<le> opJMPLEL \<or> op \<in> {opASSERT, opTRY, opTRYL}" if "op \<le> opSYSCALL"
    using that op by (auto simp: data_op_def slot_load_op_def word_le_nat_alt)
  have sop: "slot_load_op op" if "op \<le> opSTARG" "\<not> op \<le> opREVERSEN"
    using that op by (auto simp: data_op_def word_le_nat_alt)
  show ?thesis
    using ex unfolding execute_op_def
    by (auto split: if_splits simp del: insert_iff intro: pushInt_counted [OF _ v] execute_push_counted [OF _ v p]
        execute_control_counted [OF _ dop v] execute_stack_counted [OF _ v] execute_load_counted [OF _ sop v] splice
        execute_bitwise_counted [OF _ v] execute_arith_counted [OF _ v] execute_compare_counted [OF _ v]
        execute_create_counted [OF _ v] execute_collection_counted [OF _ v h H nt] execute_type_counted [OF _ v])
qed

end

end
