(* ===== verification/Vm_Stack_Limit.thy ===== *)
theory Vm_Stack_Limit
  imports Vm_Refs_Api
begin

text \<open>
  \<^verbatim>\<open>POPITEM\<close> on a collection that nothing else holds: the items are counted off when the collection is
  popped and the last one a second time when it is removed, so that the item pushed on the stack is
  not counted. A script can put any number of items on the stack that way.
\<close>

section \<open>A script that evades the limit\<close>

definition block :: bytes where
  "block = [opPUSH1, opPUSH1, opPACK, opPOPITEM]"

definition free_host :: host where
  "free_host = \<lparr>ho_hash160 = (\<lambda>prog. word_of_nat (length prog)), ho_getPrice = None, ho_SyscallHandler = None,
     ho_LoadToken = None, ho_onUnload = (\<lambda>n c b v. Some v)\<rparr>"

text \<open>A machine that runs one script.\<close>

definition mk :: "bytes \<Rightarrow> nat \<Rightarrow> nat \<Rightarrow> stackitem list \<Rightarrow> heap \<Rightarrow> int \<Rightarrow> vm" where
  "mk prog ip nip xs h r =
    \<lparr>vm_state = NoneState,
     vm_istack = [\<lparr>cx_ip = ip, cx_nextip = nip, cx_sc = 0, cx_local = None, cx_arguments = None, cx_tryStack = [], cx_retCount = -1\<rparr>],
     vm_scs = [\<lparr>sc_prog = prog, sc_breakPoints = [], sc_estack = 0, sc_static = None, sc_scriptHash = 0, sc_callingScriptHash = 0,
       sc_callingContext = None, sc_callFlag = 15, sc_onUnload = NoCallback\<rparr>],
     vm_estack = 0, vm_stacks = [xs], vm_uncaughtException = None, vm_heap = h, vm_refs = r, vm_gasConsumed = 0, vm_GasLimit = 0\<rparr>"

lemma mk_Next:
  assumes "nip < length prog" and "prog ! nip \<in> {opPUSH1, opPACK, opPOPITEM}"
  shows "Next (mk prog ip nip xs h r) = Some (prog ! nip, [], mk prog nip (nip + 1) xs h r)"
proof -
  have "opcode_IsValid opPUSH1" "opcode_IsValid opPACK" "opcode_IsValid opPOPITEM"
    unfolding opcode_IsValid_def opcodes_def by (simp_all only: list.set insert_iff simp_thms)
  then have "opcode_IsValid (prog ! nip)" using assms(2) by auto
  moreover have "param_size prog (prog ! nip) (nip + 1) = Some (0, nip + 1)"
    using assms(2) by (auto simp: param_size_def one_byte_ops_def four_byte_ops_def)
  ultimately show ?thesis using assms(1) by (simp add: Next_def mk_def cur_def script_def set_cur_def Let_def)
qed

lemma free_charge: "charge free_host op param v = v" "\<not> out_of_gas free_host v"
  by (simp_all add: charge_def out_of_gas_def priced_def free_host_def)

lemma mk_step:
  assumes "nip < length prog" and "prog ! nip = op" and "op \<in> {opPUSH1, opPACK, opPOPITEM}"
    and ex: "execute_op free_host op [] (mk prog nip (nip + 1) xs h r) = Some (mk prog nip (nip + 1) ys g s)" and "s \<le> MaxStackSize"
  shows "step free_host (mk prog ip nip xs h r) = mk prog nip (nip + 1) ys g s"
proof -
  have "Next (mk prog ip nip xs h r) = Some (op, [], mk prog nip (nip + 1) xs h r)" using mk_Next [OF assms(1)] assms(2,3) by simp
  with ex assms(5) show ?thesis by (simp add: step_def execute_def free_charge) (simp add: mk_def)
qed

lemma mk_run:
  assumes "step free_host (mk prog ip nip xs h r) = mk prog nip (nip + 1) ys g s"
  shows "run_loop free_host (Suc n) (mk prog ip nip xs h r) = run_loop free_host n (mk prog nip (nip + 1) ys g s)"
  by (simp add: assms Let_def) (simp add: mk_def atBreakPoint_def cur_def script_def)

lemma mk_estack [simp]: "estack (mk prog ip nip xs h r) = xs" "set_estack ys (mk prog ip nip xs h r) = mk prog ip nip ys h r"
  "vm_heap (mk prog ip nip xs h r) = h" "(mk prog ip nip xs h r)\<lparr>vm_heap := g\<rparr> = mk prog ip nip xs g r"
  by (simp_all add: mk_def estack_def set_estack_def)

lemma mk_count: "count_in its (mk prog ip nip xs h r) = (case add_items its (h, r) of (g, s) \<Rightarrow> mk prog ip nip xs g s)"
  "count_out its (mk prog ip nip xs h r) = (case remove_items its (h, r) of (g, s) \<Rightarrow> mk prog ip nip xs g s)"
  by (simp_all add: count_in_def count_out_def mk_def split: prod.split)

text \<open>The three instructions.\<close>

lemma exec_PUSH1: "execute_op free_host opPUSH1 [] (mk prog ip nip xs h r) = Some (mk prog ip nip (BigInteger 1 # xs) h (r + 1))"
  by (simp add: execute_op_def execute_push_def pushInt_def NewBigInteger_def CheckIntegerSize_iff PushItem_def mk_count add_items.simps)

lemma exec_PACK:
  "execute_op free_host opPACK [] (mk prog ip nip (BigInteger 1 # BigInteger 1 # xs) h r) =
    Some (mk prog ip nip (ArrayItem (length h) # xs) (h @ [\<lparr>ob_value = Elems [BigInteger 1], ob_rc = 1, ob_ro = False\<rparr>]) r)"
  by (simp add: execute_op_def execute_create_def popInt32_def popInt_def Pop_def toInt_def pushNew_def alloc_def PushItem_def
      mk_count add_items.simps remove_items.simps rc_of_def add_rc_def get_elems_def obj_def)

lemma exec_POPITEM:
  "execute_op free_host opPOPITEM [] (mk prog ip nip (ArrayItem (length h) # xs)
      (h @ [\<lparr>ob_value = Elems [BigInteger 1], ob_rc = 1, ob_ro = False\<rparr>]) r) =
    Some (mk prog ip nip (BigInteger 1 # xs) (h @ [\<lparr>ob_value = Elems [], ob_rc = 0, ob_ro = False\<rparr>]) (r - 2))"
  by (simp add: execute_op_def execute_collection_def execute_popitem_def pop_elem_def Pop_def PushItem_def IsReadOnly_def
      mk_count add_items.simps remove_items.simps rc_of_def add_rc_def get_elems_def obj_def set_value_def Let_def)

section \<open>The run\<close>

definition script_of :: "nat \<Rightarrow> bytes" where
  "script_of n = concat (replicate n block)"

lemma script_of_nth: "k < n \<Longrightarrow> i < 4 \<Longrightarrow> script_of n ! (4 * k + i) = block ! i"
proof (induction n arbitrary: k)
  case (Suc n)
  have "length block = 4" by (simp add: block_def)
  with Suc show ?case by (cases k) (simp_all add: script_of_def nth_append)
qed simp

lemma length_script_of: "length (script_of n) = 4 * n"
  by (induction n) (simp_all add: script_of_def block_def)

lemma run_block:
  assumes "k < n"
  shows "\<exists>g. run_loop free_host (m + 4) (mk (script_of n) ip (4 * k) xs h 0) =
    run_loop free_host m (mk (script_of n) (4 * k + 3) (4 * (k + 1)) (BigInteger 1 # xs) g 0)"
proof -
  let ?p = "script_of n" and ?o = "\<lambda>xs c. h @ [\<lparr>ob_value = Elems xs, ob_rc = c, ob_ro = False\<rparr>]"
  have e: "4 * k + 1 + 1 = 4 * k + 2" "4 * k + 1 + 1 + 1 = 4 * k + 3" by simp_all
  have nth: "?p ! (4 * k) = opPUSH1" "?p ! (4 * k + 1) = opPUSH1" "?p ! (4 * k + 1 + 1) = opPACK" "?p ! (4 * k + 1 + 1 + 1) = opPOPITEM"
    using script_of_nth [OF assms, of 0] script_of_nth [OF assms, of 1] script_of_nth [OF assms, of 2] script_of_nth [OF assms, of 3]
    unfolding e by (simp_all add: block_def numeral_2_eq_2 numeral_3_eq_3)
  have len: "4 * k < length ?p" "4 * k + 1 < length ?p" "4 * k + 1 + 1 < length ?p" "4 * k + 1 + 1 + 1 < length ?p"
    using assms by (simp_all add: length_script_of)
  have s1: "step free_host (mk ?p ip (4 * k) xs h 0) = mk ?p (4 * k) (4 * k + 1) (BigInteger 1 # xs) h 1"
    by (rule mk_step [where op = opPUSH1])
      (use nth len exec_PUSH1 [of ?p "4 * k" "4 * k + 1" xs h 0] in \<open>simp_all add: MaxStackSize_def\<close>)
  have s2: "step free_host (mk ?p (4 * k) (4 * k + 1) (BigInteger 1 # xs) h 1) =
      mk ?p (4 * k + 1) (4 * k + 1 + 1) (BigInteger 1 # BigInteger 1 # xs) h 2"
    by (rule mk_step [where op = opPUSH1])
      (use nth len exec_PUSH1 [of ?p "4 * k + 1" "4 * k + 1 + 1" "BigInteger 1 # xs" h 1] in \<open>simp_all add: MaxStackSize_def\<close>)
  have s3: "step free_host (mk ?p (4 * k + 1) (4 * k + 1 + 1) (BigInteger 1 # BigInteger 1 # xs) h 2) =
      mk ?p (4 * k + 1 + 1) (4 * k + 1 + 1 + 1) (ArrayItem (length h) # xs) (?o [BigInteger 1] 1) 2"
    by (rule mk_step [where op = opPACK])
      (use nth len exec_PACK [of ?p "4 * k + 1 + 1" "4 * k + 1 + 1 + 1" xs h 2] in \<open>simp_all add: MaxStackSize_def\<close>)
  have s4: "step free_host (mk ?p (4 * k + 1 + 1) (4 * k + 1 + 1 + 1) (ArrayItem (length h) # xs) (?o [BigInteger 1] 1) 2) =
      mk ?p (4 * k + 1 + 1 + 1) (4 * k + 1 + 1 + 1 + 1) (BigInteger 1 # xs) (?o [] 0) 0"
    by (rule mk_step [where op = opPOPITEM])
      (use nth len exec_POPITEM [of ?p "4 * k + 1 + 1 + 1" "4 * k + 1 + 1 + 1 + 1" h xs 2] in \<open>simp_all add: MaxStackSize_def\<close>)
  have four: "m + 4 = Suc (Suc (Suc (Suc m)))" by simp
  have ends: "4 * k + 3 = 4 * k + 1 + 1 + 1" "4 * (k + 1) = 4 * k + 1 + 1 + 1 + 1" by simp_all
  show ?thesis unfolding four ends mk_run [OF s1] mk_run [OF s2] mk_run [OF s3] mk_run [OF s4]
    by (intro exI) (rule refl)
qed

lemma run_end:
  "\<exists>w. run_loop free_host 2 (mk (script_of n) ip (4 * n) xs h r) = Some w \<and> vm_state w = Halt \<and> estack w = xs \<and> vm_refs w = r"
  if "r \<le> MaxStackSize"
proof -
  let ?v = "mk (script_of n) ip (4 * n) xs h r"
  have nx: "Next ?v = Some (opRET, [], mk (script_of n) (4 * n) (4 * n) xs h r)"
    by (simp add: Next_def mk_def cur_def script_def set_cur_def Let_def length_script_of)
  have ret: "execute_op free_host opRET [] (mk (script_of n) (4 * n) (4 * n) xs h r) =
      Some ((mk (script_of n) (4 * n) (4 * n) xs h r)\<lparr>vm_istack := [], vm_state := Halt\<rparr>)"
    by (simp add: execute_op_free execute_ret_def mk_def unloadContext_def ClearRefs_def cur_def script_def Let_def)
  have st: "step free_host ?v = (mk (script_of n) (4 * n) (4 * n) xs h r)\<lparr>vm_istack := [], vm_state := Halt\<rparr>"
    using that by (simp add: step_def nx execute_def ret free_charge)
      (simp add: mk_def)
  show ?thesis
    by (simp add: numeral_2_eq_2 Let_def st) (simp add: mk_def atBreakPoint_def cur_def estack_def)
qed

lemma run_blocks:
  "k \<le> n \<Longrightarrow> \<exists>ip' h'. run_loop free_host (m + 4 * k) (mk (script_of n) 0 0 [] [] 0) =
    run_loop free_host m (mk (script_of n) ip' (4 * k) (replicate k (BigInteger 1)) h' 0)"
proof (induction k arbitrary: m)
  case (Suc k)
  from Suc.IH [of "m + 4"] Suc.prems obtain ip h where
    "run_loop free_host (m + 4 + 4 * k) (mk (script_of n) 0 0 [] [] 0) =
     run_loop free_host (m + 4) (mk (script_of n) ip (4 * k) (replicate k (BigInteger 1)) h 0)" by auto
  moreover obtain g where "run_loop free_host (m + 4) (mk (script_of n) ip (4 * k) (replicate k (BigInteger 1)) h 0) =
    run_loop free_host m (mk (script_of n) (4 * k + 3) (4 * (k + 1)) (BigInteger 1 # replicate k (BigInteger 1)) g 0)"
    using run_block [of k n m ip "replicate k (BigInteger 1)" h] Suc.prems by auto
  moreover have "m + 4 * Suc k = m + 4 + 4 * k" by simp
  ultimately show ?case by (metis Suc_eq_plus1 replicate_Suc)
qed auto

lemma load_script: "LoadWithFlags free_host prog 15 New_vm = Some (mk prog 0 0 [] [] 0)"
  by (simp add: LoadWithFlags_def LoadScriptWithFlags_def loadScriptWithCallingHash_def Clear_def count_out_def New_vm_def
      estack_def set_estack_def checkInvocationStackSize_def MaxInvocationStackSize_def Let_def cur_def mk_def
      GetCurrentScriptHash_def getContextScriptHash_def)

text \<open>
  C31. The limit of 2048 items on the stacks is not enforced: for every \<open>n\<close> the script that repeats
  \<^verbatim>\<open>PUSH1 PUSH1 PACK POPITEM\<close> \<open>n\<close> times halts with \<open>n\<close> items on the stack and a reference counter of zero.
\<close>

theorem stack_limit_evaded:
  "\<exists>v w. LoadWithFlags free_host (concat (replicate n [opPUSH1, opPUSH1, opPACK, opPOPITEM])) 15 New_vm = Some v \<and>
    Run free_host (2 + 4 * n) v = Some w \<and> vm_state w = Halt \<and> length (estack w) = n \<and> vm_refs w = 0"
proof -
  have load: "LoadWithFlags free_host (concat (replicate n [opPUSH1, opPUSH1, opPACK, opPOPITEM])) 15 New_vm =
      Some (mk (script_of n) 0 0 [] [] 0)"
    using load_script [of "script_of n"] by (simp add: script_of_def block_def)
  obtain ip h where "run_loop free_host (2 + 4 * n) (mk (script_of n) 0 0 [] [] 0) =
      run_loop free_host 2 (mk (script_of n) ip (4 * n) (replicate n (BigInteger 1)) h 0)"
    using run_blocks [of n n 2] by blast
  with run_end [of 0 n ip "replicate n (BigInteger 1)" h] obtain w where
    "run_loop free_host (2 + 4 * n) (mk (script_of n) 0 0 [] [] 0) = Some w" "vm_state w = Halt"
    "estack w = replicate n (BigInteger 1)" "vm_refs w = 0"
    by (auto simp: MaxStackSize_def)
  moreover have "Run free_host m (mk (script_of n) 0 0 [] [] 0) = run_loop free_host m (mk (script_of n) 0 0 [] [] 0)" for m
    by (simp add: Run_def mk_def)
  ultimately show ?thesis using load by (intro exI [of _ "mk (script_of n) 0 0 [] [] 0"] exI [of _ w]) simp
qed

end
