(* ===== verification/Vm_Slots.thy ===== *)
theory Vm_Slots
  imports Vm_Stack_Limit
begin

text \<open>
  The roots of the reference counter besides the stacks: the local and argument slots of the
  contexts and the static slots of the scripts they run. With them the counter is exact, under loads
  from and stores into slots too.
\<close>

section \<open>The items in slots\<close>

definition slot_item :: "stackitem option \<Rightarrow> stackitem" where
  "slot_item x = (case x of None \<Rightarrow> Null | Some it \<Rightarrow> it)"

definition slot_items :: "slot \<Rightarrow> stackitem multiset" where
  "slot_items s = (case s of None \<Rightarrow> {#} | Some xs \<Rightarrow> mset (map slot_item xs))"

definition own_items :: "vm_context \<Rightarrow> stackitem multiset" where
  "own_items c = slot_items (cx_local c) + slot_items (cx_arguments c)"

definition scripts_used :: "vm \<Rightarrow> nat set" where
  "scripts_used v = cx_sc ` set (vm_istack v) \<inter> {..<length (vm_scs v)}"

definition static_items :: "vm \<Rightarrow> nat \<Rightarrow> stackitem multiset" where
  "static_items v i = slot_items (sc_static (vm_scs v ! i))"

definition slot_roots :: "vm \<Rightarrow> stackitem multiset" where
  "slot_roots v = sum_list (map own_items (vm_istack v)) + (\<Sum>i\<in>scripts_used v. static_items v i)"

interpretation slots: other_roots "slot_roots u" for u .

text \<open>What the roots depend on, and how the current context and its script contribute.\<close>

lemma slot_roots_cong: "vm_istack u = vm_istack v \<Longrightarrow> vm_scs u = vm_scs v \<Longrightarrow> slot_roots u = slot_roots v"
  by (simp add: slot_roots_def scripts_used_def static_items_def)

definition roots_below :: "vm \<Rightarrow> stackitem multiset" where
  "roots_below v = sum_list (map own_items (tl (vm_istack v))) + (\<Sum>i\<in>scripts_used v. static_items v i)"

lemma slot_roots_cur:
  assumes "cur v = Some c" and "cx_sc c' = cx_sc c"
  shows "slot_roots v = own_items c + roots_below v \<and> slot_roots (set_cur c' v) = own_items c' + roots_below v"
proof -
  from assms(1) obtain cs where "vm_istack v = c # cs" by (cases "vm_istack v") (auto simp: cur_def)
  with assms(2) show ?thesis
    by (simp add: slot_roots_def roots_below_def scripts_used_def static_items_def set_cur_def)
qed

definition roots_beside :: "nat \<Rightarrow> vm \<Rightarrow> stackitem multiset" where
  "roots_beside i v = sum_list (map own_items (vm_istack v)) + (\<Sum>j\<in>scripts_used v - {i}. static_items v j)"

lemma slot_roots_script:
  assumes "i \<in> scripts_used v"
  shows "slot_roots v = slot_items (sc_static (vm_scs v ! i)) + roots_beside i v \<and>
    slot_roots (set_script i sc v) = slot_items (sc_static sc) + roots_beside i v"
proof -
  have fin: "finite (scripts_used u)" for u by (simp add: scripts_used_def)
  have used: "scripts_used (set_script i sc v) = scripts_used v" by (simp add: scripts_used_def set_script_def)
  have i: "i < length (vm_scs v)" using assms by (simp add: scripts_used_def)
  then have st: "static_items (set_script i sc v) i = slot_items (sc_static sc)" by (simp add: static_items_def set_script_def)
  have others: "(\<Sum>j\<in>scripts_used v - {i}. static_items (set_script i sc v) j) = (\<Sum>j\<in>scripts_used v - {i}. static_items v j)"
    by (rule sum.cong) (auto simp: static_items_def set_script_def)
  show ?thesis
    using sum.remove [OF fin [of v] assms, of "static_items v"] sum.remove [OF fin [of v] assms, of "static_items (set_script i sc v)"]
    unfolding slot_roots_def roots_beside_def used st others
    by (simp add: static_items_def set_script_def)
qed

lemma slot_items_ok: "slot_ok ks s \<Longrightarrow> it \<in># slot_items s \<Longrightarrow> item_ok ks it"
  by (auto simp: slot_ok_def slot_items_def slot_item_def split: option.splits)

lemma in_sum_list_mset: "x \<in># sum_list Ms \<longleftrightarrow> (\<exists>M\<in>set Ms. x \<in># M)"
  by (induction Ms) auto

lemma slot_roots_ok: "vm_ok v \<Longrightarrow> it \<in># slot_roots v \<Longrightarrow> item_ok (vkinds v) it"
  by (auto simp: slot_roots_def in_sum_list_mset scripts_used_def static_items_def own_items_def set_mset_sum
      vm_ok_def context_ok_def script_ok_def dest: slot_items_ok)

lemma counted_slots: "counted v (slot_roots v) \<longleftrightarrow> vm_ok v \<and> exact (vm_heap v) (vm_refs v) (mset (concat (vm_stacks v)) + slot_roots v)"
  by (auto simp: counted_def dest: slot_roots_ok)

section \<open>Stores\<close>

context other_roots
begin

lemma count_out_opt_counted:
  assumes "counted v (add_mset (slot_item x) R)"
  shows "counted (count_out_opt x v) R \<and> vkinds (count_out_opt x v) = vkinds v"
proof (cases x)
  case None
  with assms show ?thesis by (simp add: count_out_opt_def slot_item_def counted_def exact_def balance_plain_out vm_ok_def)
next
  case (Some it)
  have "exact (vm_heap v) (vm_refs v) (mset [it] + (mset (concat (vm_stacks v)) + R))"
    using assms by (simp add: Some slot_item_def counted_def)
  with exact_count_out [of v "[it]"] assms show ?thesis
    by (simp add: Some count_out_opt_def slot_item_def counted_def vm_ok_heap)
qed

lemma count_in_counted:
  assumes "counted v R" and "item_ok (vkinds v) it"
  shows "counted (count_in [it] v) (add_mset it R) \<and> vkinds (count_in [it] v) = vkinds v"
  using exact_count_in [of v _ "[it]"] assms by (auto simp: counted_def vm_ok_heap)

lemma slot_set_counted:
  assumes "slot_set s i it v = Some (s', v')" and v: "counted v (slot_items s + R)" and it: "item_ok (vkinds v) it"
  shows "counted v' (slot_items s' + R)"
proof -
  from assms(1) obtain xs where s: "s = Some xs" and i: "i < length xs"
    by (auto simp: slot_set_def not_le split: option.splits if_splits)
  show ?thesis
  proof (cases "xs ! i = Some it")
    case True
    with assms s i show ?thesis by (simp add: slot_set_def)
  next
    case False
    let ?rest = "mset (map slot_item xs) - {#slot_item (xs ! i)#}"
    have old: "slot_items s + R = add_mset (slot_item (xs ! i)) (?rest + R)"
      using i by (simp add: s slot_items_def)
    have new: "slot_items s' + R = add_mset it (?rest + R)"
      and v': "v' = count_in [it] (count_out_opt (xs ! i) v)"
      using assms(1) False i by (auto simp: slot_set_def s slot_items_def map_update mset_update slot_item_def)
    show ?thesis
      using other_roots.count_out_opt_counted [OF v [unfolded old]] other_roots.count_in_counted it unfolding new v' by simp
  qed
qed

lemma slot_init_counted:
  assumes "slot_init s n v = Some (s', v')" and v: "counted v R"
  shows "counted v' (slot_items s' + R) \<and> s = None"
proof -
  have s': "s = None" "s' = Some (replicate n None)" "v' = v\<lparr>vm_refs := vm_refs v + int n\<rparr>"
    using assms(1) by (auto simp: slot_init_def split: option.splits)
  have "balance items h (r + int n) P (replicate_mset n Null + M) = balance items h r P M" for items h r P M
    by (induction n arbitrary: M) (simp_all add: balance_plain_out algebra_simps)
  note nulls = this [of "obj_items (vm_heap v)"]
  have items: "slot_items s' = replicate_mset n Null" by (simp add: s' slot_items_def slot_item_def)
  have "vm_ok v'" using v by (simp add: s' counted_def vm_ok_def)
  with v show ?thesis unfolding items
    by (auto simp: s'(1,3) counted_def exact_def nulls union_lcomm [of _ "replicate_mset n Null"] in_replicate_mset)
qed

lemma fill_arguments_counted:
  "fill_arguments i n s v = Some (s', v') \<Longrightarrow> counted v (slot_items s + R) \<Longrightarrow> counted v' (slot_items s' + R)"
proof (induction n arbitrary: i s v)
  case (Suc n)
  from Suc.prems(1) obtain it u s1 w where p: "Pop v = Some (it, u)" and st: "slot_set s i it u = Some (s1, w)"
    and f: "fill_arguments (i + 1) n s1 w = Some (s', v')" by (auto split: Option.bind_splits)
  have "counted u (slot_items s + R) \<and> item_ok (vkinds u) it" using other_roots.Pop_counted [OF p Suc.prems(2)] by simp
  with slot_set_counted [OF st] Suc.IH [OF f] show ?case by blast
qed simp

end

lemma counted_as:
  assumes "counted w M" and "vm_ok v'" and "slot_roots v' = M"
    and "vm_heap v' = vm_heap w" "vm_refs v' = vm_refs w" "vm_stacks v' = vm_stacks w"
  shows "counted v' (slot_roots v')"
  using assms unfolding counted_slots by (simp add: counted_def)

lemma set_cur_counted:
  assumes "cur v = Some c" and "cx_sc c' = cx_sc c" and "counted w (own_items c' + roots_below v)"
    and "vm_istack w = vm_istack v" "vm_scs w = vm_scs v" and "vm_ok (set_cur c' w)"
  shows "counted (set_cur c' w) (slot_roots (set_cur c' w))"
proof -
  have "slot_roots (set_cur c' w) = slot_roots (set_cur c' v)" using assms(4,5) by (intro slot_roots_cong) (simp_all add: set_cur_def)
  also have "\<dots> = own_items c' + roots_below v" using slot_roots_cur [OF assms(1,2)] by simp
  finally show ?thesis by (intro counted_as [OF assms(3,6)]) (simp_all add: set_cur_def)
qed

lemma set_script_counted:
  assumes "i \<in> scripts_used v" and "counted w (slot_items (sc_static sc) + roots_beside i v)"
    and "vm_istack w = vm_istack v" "vm_scs w = vm_scs v" and "vm_ok (set_script i sc w)"
  shows "counted (set_script i sc w) (slot_roots (set_script i sc w))"
proof -
  have "slot_roots (set_script i sc w) = slot_roots (set_script i sc v)"
    using assms(3,4) by (intro slot_roots_cong) (simp_all add: set_script_def)
  also have "\<dots> = slot_items (sc_static sc) + roots_beside i v" using slot_roots_script [OF assms(1)] by simp
  finally show ?thesis by (intro counted_as [OF assms(2,5)]) (simp_all add: set_script_def)
qed

text \<open>A value popped from the stack and stored into a slot.\<close>

lemma store_counted:
  assumes p: "Pop v = Some (it, u)" and st: "slot_set s i it u = Some (s', w)" and v: "counted v (slot_items s + M)"
  shows "counted w (slot_items s' + M) \<and> vm_istack w = vm_istack v \<and> vm_scs w = vm_scs v"
  using other_roots.Pop_counted [OF p v] other_roots.slot_set_counted [OF st] code.view_Pop [OF p] code.view_slot_set [OF st] by auto

lemma script_used: "cur v = Some c \<Longrightarrow> script v c = Some sc \<Longrightarrow> cx_sc c \<in> scripts_used v \<and> vm_scs v ! cx_sc c = sc"
  by (auto simp: cur_def script_def scripts_used_def split: list.splits if_splits)

lemma execute_initslot_counted:
  assumes "execute_initslot param v = Some v'" and v: "counted v (slot_roots v)"
  shows "counted v' (slot_roots v')"
proof -
  from assms(1) obtain c loc u args w where c: "cur v = Some c" and none: "cx_local c = None" "cx_arguments c = None"
    and l: "(if unat (param ! 0) > 0 then slot_init None (unat (param ! 0)) v else Some (None, v)) = Some (loc, u)"
    and a: "(if unat (param ! 1) > 0 then do { (s, v) \<leftarrow> slot_init None (unat (param ! 1)) u; fill_arguments 0 (unat (param ! 1)) s v }
        else Some (None, u)) = Some (args, w)"
    and v': "v' = set_cur (c\<lparr>cx_local := loc, cx_arguments := args\<rparr>) w"
    by (auto simp: execute_initslot_def Let_def split: if_splits Option.bind_splits)
  let ?R = "roots_below v"
  have "slot_roots v = ?R" using slot_roots_cur [OF c refl] none by (simp add: own_items_def slot_items_def)
  then have u: "counted u (slot_items loc + ?R) \<and> vm_istack u = vm_istack v \<and> vm_scs u = vm_scs v"
    using l v other_roots.slot_init_counted [of None _ v loc u ?R] code.view_slot_init [of None _ v loc u]
    by (auto simp: slot_items_def split: if_splits)
  have w: "counted w (slot_items args + (slot_items loc + ?R)) \<and> vm_istack w = vm_istack u \<and> vm_scs w = vm_scs u"
  proof (cases "unat (param ! 1) > 0")
    case True
    with a obtain s x where s: "slot_init None (unat (param ! 1)) u = Some (s, x)" and f: "fill_arguments 0 (unat (param ! 1)) s x = Some (args, w)"
      by (auto split: Option.bind_splits)
    show ?thesis
      using other_roots.slot_init_counted [OF s] other_roots.fill_arguments_counted [OF f] u
        code.view_slot_init [OF s] code.view_fill_arguments [OF f] by auto
  qed (use a u in \<open>simp add: slot_items_def [of None]\<close>)
  show ?thesis unfolding v'
    by (rule set_cur_counted [OF c]) (use w u v' execute_initslot_ok [OF assms(1) counted_ok [OF v]] in \<open>simp_all add: own_items_def ac_simps\<close>)
qed

lemma execute_slot_counted:
  assumes ex: "execute_slot op param v = Some v'" and v: "counted v (slot_roots v)"
  shows "counted v' (slot_roots v')"
proof -
  from ex obtain c sc where c: "cur v = Some c" and sc: "script v c = Some sc"
    by (auto simp: execute_slot_def split: Option.bind_splits)
  have v'ok: "vm_ok v'" by (rule execute_slot_ok [OF ex counted_ok [OF v]])
  have cok: "context_ok (vkinds v) (length (vm_scs v)) c" and sok: "script_ok (vkinds v) (length (vm_stacks v)) sc"
    using cur_ok [OF c counted_ok [OF v]] script_of_ok [OF sc counted_ok [OF v]] by simp_all
  have get: "counted (PushItem it v) (slot_roots (PushItem it v))"
    if "slot_get s i = Some it" "s \<in> {sc_static sc, cx_local c, cx_arguments c}" for s i it
    using other_roots.PushItem_counted [OF v, of it] slot_roots_cong [of "PushItem it v" v] slot_get_ok [OF that(1), of "vkinds v"] that(2) cok sok
    by (auto simp: context_ok_def script_ok_def)
  have own: "slot_roots v = own_items c + roots_below v" using slot_roots_cur [OF c refl] by simp
  have static: "slot_roots v = slot_items (sc_static sc) + roots_beside (cx_sc c) v"
    using slot_roots_script [of "cx_sc c" v] script_used [OF c sc] by simp
  have set_static: "counted v' (slot_roots v')"
    if "Pop v = Some (it, u)" "slot_set (sc_static sc) i it u = Some (s, w)" "v' = set_script (cx_sc c) (sc\<lparr>sc_static := s\<rparr>) w" for i it u s w
    using set_script_counted [of "cx_sc c" v w "sc\<lparr>sc_static := s\<rparr>"] store_counted [OF that(1,2) v [unfolded static]] that(3)
      script_used [OF c sc] v'ok by simp
  have init_static: "counted v' (slot_roots v')"
    if st: "slot_init (sc_static sc) n v = Some (s, w)" and v': "v' = set_script (cx_sc c) (sc\<lparr>sc_static := s\<rparr>) w" for n s w
  proof -
    have "sc_static sc = None" using other_roots.slot_init_counted [OF st v] by simp
    then have "counted v (roots_beside (cx_sc c) v)" using v static by (simp add: slot_items_def [of None])
    with other_roots.slot_init_counted [OF st this] show ?thesis unfolding v'
      by (intro set_script_counted) (use code.view_slot_init [OF st] script_used [OF c sc] v'ok v' in \<open>simp_all\<close>)
  qed
  have set_local: "counted v' (slot_roots v')"
    if "Pop v = Some (it, u)" "slot_set (cx_local c) i it u = Some (s, w)" "v' = set_cur (c\<lparr>cx_local := s\<rparr>) w" for i it u s w
    using set_cur_counted [OF c, of "c\<lparr>cx_local := s\<rparr>" w] store_counted [OF that(1,2) v [unfolded own own_items_def add.assoc]] that(3) v'ok
    by (simp add: own_items_def add.assoc)
  have set_arg: "counted v' (slot_roots v')"
    if "Pop v = Some (it, u)" "slot_set (cx_arguments c) i it u = Some (s, w)" "v' = set_cur (c\<lparr>cx_arguments := s\<rparr>) w" for i it u s w
    using set_cur_counted [OF c, of "c\<lparr>cx_arguments := s\<rparr>" w]
      store_counted [OF that(1,2), of "slot_items (cx_local c) + roots_below v"] v that(3) v'ok
    by (simp add: own own_items_def ac_simps)
  from ex c sc execute_initslot_counted [OF _ v] show ?thesis
    by (auto simp: execute_slot_def split: if_splits Option.bind_splits intro: get)
      (metis init_static set_static set_local set_arg)+
qed

section \<open>The other instructions\<close>

lemma slot_roots_data: "(vm_istack v', vm_scs v') = (vm_istack v, vm_scs v) \<Longrightarrow> slot_roots v' = slot_roots v"
  by (intro slot_roots_cong) simp_all

lemma slot_roots_set_cur:
  "cur v = Some c \<Longrightarrow> cx_sc c' = cx_sc c \<Longrightarrow> own_items c' = own_items c \<Longrightarrow> slot_roots (set_cur c' v) = slot_roots v"
  using slot_roots_cur [of v c c'] by simp

lemma own_items_updates [simp]:
  "own_items (c\<lparr>cx_nextip := p\<rparr>) = own_items c" "own_items (c\<lparr>cx_tryStack := es\<rparr>) = own_items c"
  by (simp_all add: own_items_def)

lemma slot_roots_Jump: "Jump p v = Some v' \<Longrightarrow> slot_roots v' = slot_roots v"
  by (auto simp: Jump_def slot_roots_set_cur split: Option.bind_splits if_splits)

lemma slot_roots_jump: "execute_jump op param v = Some v' \<Longrightarrow> slot_roots v' = slot_roots v"
  by (auto simp: execute_jump_def dest!: slot_roots_Jump slot_roots_data [OF code.view_jump_taken]
      split: if_splits Option.bind_splits)

lemma slot_roots_try: "execute_try op param v = Some v' \<Longrightarrow> slot_roots v' = slot_roots v"
  by (auto simp: execute_try_def Let_def slot_roots_set_cur split: if_splits Option.bind_splits prod.splits)

lemma slot_roots_endtry: "execute_endtry param v = Some v' \<Longrightarrow> slot_roots v' = slot_roots v"
  by (auto simp: execute_endtry_def slot_roots_set_cur dest!: slot_roots_Jump split: if_splits Option.bind_splits list.splits)

lemma slot_roots_call:
  assumes "call c p v = Some v'" and "c \<in> set (vm_istack v)"
  shows "slot_roots v' = slot_roots v"
proof -
  let ?c = "\<lparr>cx_ip = 0, cx_nextip = 0, cx_sc = cx_sc c, cx_local = None, cx_arguments = None, cx_tryStack = [], cx_retCount = -1\<rparr>"
  have "scripts_used (v\<lparr>vm_istack := ?c # vm_istack v\<rparr>) = scripts_used v" using assms(2) by (auto simp: scripts_used_def)
  then have "slot_roots (v\<lparr>vm_istack := ?c # vm_istack v\<rparr>) = slot_roots v"
    by (simp add: slot_roots_def own_items_def slot_items_def static_items_def)
  then show ?thesis using assms(1) by (auto simp: call_def dest!: slot_roots_Jump split: if_splits)
qed

lemma slot_roots_calls:
  assumes "execute_call H op param v = Some v'" and "op \<in> {opCALL, opCALLL, opCALLA}"
  shows "slot_roots v' = slot_roots v"
proof -
  from assms obtain c u p where c: "cur v = Some c" and u: "(vm_istack u, vm_scs u) = (vm_istack v, vm_scs v)" and "call c p u = Some v'"
    by (auto simp: execute_call_def split: if_splits Option.bind_splits stackitem.splits dest!: code.view_Pop)
  moreover have "c \<in> set (vm_istack u)" using c u by (auto simp: cur_def split: list.splits)
  ultimately show ?thesis using slot_roots_call slot_roots_data [OF u] by simp
qed

lemma throw_scs:
  assumes "throw H ex v = Some v'" and "unload_keeps_code H"
  shows "vm_scs v' = vm_scs v"
proof -
  have jump: "Jump p u = Some w \<Longrightarrow> vm_scs w = vm_scs u" for p u w
    by (auto simp: Jump_def set_cur_def split: Option.bind_splits if_splits)
  have enter: "enter_handler ex u = Some w \<Longrightarrow> vm_scs w = vm_scs u" for u w
    by (auto simp: enter_handler_def Let_def set_cur_def dest!: jump split: Option.bind_splits list.splits if_splits)
  show ?thesis using assms by (auto simp: throw_def handleException_def dest!: enter unload_top_keeps split: Option.bind_splits)
qed

lemma scs_collection:
  assumes "execute_collection H op v = Some v'" and "unload_keeps_code H"
  shows "vm_scs v' = vm_scs v" and "op \<notin> {opPICKITEM, opSETITEM} \<Longrightarrow> vm_istack v' = vm_istack v"
proof -
  have pop: "Pop u = Some (it, w) \<Longrightarrow> vm_istack w = vm_istack u \<and> vm_scs w = vm_scs u" for u it w
    using code.view_Pop [of u it w] by simp
  have pick: "pick_elem H key xs u = Some w \<Longrightarrow> vm_scs w = vm_scs u" for key xs u w
    using assms(2) by (auto simp: pick_elem_def dest: throw_scs split: if_splits Option.bind_splits)
  have pickitem: "execute_pickitem H v = Some w \<Longrightarrow> vm_scs w = vm_scs v" for w
    using assms(2)
    by (auto simp: execute_pickitem_def dest!: pick pop throw_scs split: if_splits Option.bind_splits stackitem.splits option.splits)
  have setitem: "execute_setitem H v = Some w \<Longrightarrow> vm_scs w = vm_scs v" for w
    using assms(2) code.view_count
    by (auto simp: execute_setitem_def set_elem_def set_pair_def set_byte_def Let_def dest!: pop throw_scs
      split: if_splits Option.bind_splits stackitem.splits option.splits)
  note others = data_collection_view [OF assms(1)]
  show "vm_scs v' = vm_scs v" using assms(1) others pickitem setitem by (auto simp: execute_collection_def split: if_splits)
  show "op \<notin> {opPICKITEM, opSETITEM} \<Longrightarrow> vm_istack v' = vm_istack v" using others by simp
qed

text \<open>The instructions for which the counter is shown exact: all but those that leave a context or call the host.\<close>

definition counted_op :: "byte \<Rightarrow> bool" where
  "counted_op op \<longleftrightarrow> op \<le> opCALLA \<or> op \<in> {opASSERT, opTRY, opTRYL, opENDTRY, opENDTRYL} \<or> opDEPTH \<le> op"

lemma data_op_roots:
  assumes ex: "execute_op H op param v = Some v'" and op: "data_op op" "\<not> slot_load_op op" and H: "unload_keeps_code H"
    and nt: "op \<in> {opPICKITEM, opSETITEM} \<longrightarrow> vm_istack v' = vm_istack v"
  shows "slot_roots v' = slot_roots v"
proof -
  have control: "slot_roots v' = slot_roots v" if "execute_control H op param v = Some v'" "op \<le> opSYSCALL"
  proof -
    have "op \<le> opJMPLEL \<or> op \<in> {opASSERT, opTRY, opTRYL}"
      using that(2) op by (auto simp: data_op_def word_le_nat_alt)
    then show ?thesis using that(1) slot_roots_data [OF code.view_pops(2)]
      by (auto simp: execute_control_def intro: slot_roots_jump slot_roots_try split: if_splits Option.bind_splits)
  qed
  have noslot: "op \<le> opREVERSEN \<or> \<not> op \<le> opSTARG" using op by (auto simp: data_op_def word_le_nat_alt)
  have coll: "slot_roots v' = slot_roots v" if "execute_collection H op v = Some v'"
    using slot_roots_cong scs_collection [OF that H] nt by blast
  show ?thesis using ex noslot unfolding execute_op_def
    by (auto split: if_splits simp del: insert_iff intro: control coll slot_roots_data [OF code.view_pushInt]
        slot_roots_data [OF code.view_execute_push] slot_roots_data [OF code.view_execute_stack] slot_roots_data [OF code.view_execute_splice]
        slot_roots_data [OF code.view_execute_bitwise] slot_roots_data [OF code.view_execute_arith] slot_roots_data [OF code.view_execute_compare]
        slot_roots_data [OF code.view_execute_create] slot_roots_data [OF code.view_execute_type])
qed

lemma call_counted:
  assumes "execute_call H op param v = Some v'" and op: "op \<in> {opCALL, opCALLL, opCALLA}" and v: "counted v R" and H: "wf_host H"
  shows "counted v' R"
proof -
  have call: "call c p u = Some w \<Longrightarrow> vm_heap w = vm_heap u \<and> vm_refs w = vm_refs u \<and> vm_stacks w = vm_stacks u" for c p u w
    by (auto simp: call_def Jump_def set_cur_def split: if_splits Option.bind_splits)
  from assms(1) op obtain c u p where u: "counted u R" and c: "call c p u = Some v'"
    by (auto simp: execute_call_def split: if_splits Option.bind_splits stackitem.splits dest!: other_roots.Pop_counted [OF _ v] intro: v)
  from other_roots.counted_cong [of v' u] call [OF c] u execute_call_ok [OF assms(1) counted_ok [OF v] H] show ?thesis by simp
qed

lemma endtry_counted: "execute_endtry param v = Some v' \<Longrightarrow> counted v R \<Longrightarrow> counted v' R"
  using execute_endtry_ok [of param v v'] counted_ok [of v R]
  by (auto simp: execute_endtry_def Jump_def other_roots.set_cur_parts intro!: other_roots.counted_cong [of "set_cur _ _" v]
      split: if_splits Option.bind_splits list.splits)

lemma execute_op_range:
  "\<not> op \<le> opREVERSEN \<Longrightarrow> op \<le> opSTARG \<Longrightarrow> execute_op H op param v = execute_slot op param v"
  "op \<in> {opCALL, opCALLL, opCALLA} \<Longrightarrow> execute_op H op param v = execute_call H op param v"
  "op \<in> {opENDTRY, opENDTRYL} \<Longrightarrow> execute_op H op param v = execute_endtry param v"
  by (auto simp: execute_op_def execute_control_def word_le_nat_alt)

lemma counted_op_cases:
  "counted_op op \<Longrightarrow> \<not> (\<not> op \<le> opREVERSEN \<and> op \<le> opSTARG) \<Longrightarrow> op \<notin> {opCALL, opCALLL, opCALLA} \<Longrightarrow>
    op \<notin> {opENDTRY, opENDTRYL} \<Longrightarrow> data_op op \<and> \<not> slot_load_op op"
  using call_ops [of op] by (auto simp: counted_op_def data_op_def slot_load_op_def word_le_nat_alt word_unat_eq_iff)

lemma exact_lower: "exact h r M \<Longrightarrow> int (size M) \<le> r"
  unfolding exact_def balance_def by (simp add: sum_nonneg)

text \<open>
  C30. The reference counter is exact. Take a well-formed machine in which every array, struct and map counts
  the references to it from the stacks, from the slots of the contexts and their scripts and from living
  objects, and the counter is the number of items on the stacks, in the slots and in living objects.
  Every instruction that returns keeps this, stores into slots and calls included, provided that a
  collection it changes in place (\<^verbatim>\<open>APPEND\<close>, \<^verbatim>\<open>SETITEM\<close>, \<^verbatim>\<open>REMOVE\<close>, \<^verbatim>\<open>CLEARITEMS\<close>, \<^verbatim>\<open>POPITEM\<close>) is held by a
  root below the operands and that it throws no exception; \<^verbatim>\<open>RET\<close>, \<^verbatim>\<open>THROW\<close>, \<^verbatim>\<open>ENDFINALLY\<close> and the calls of the host
  are not covered. So the counter bounds the number of items on the stacks and in the slots.
\<close>

theorem refs_exact_kept:
  assumes v: "counted v (slot_roots v)" and op: "counted_op op" and p: "param_ok op param"
    and ex: "execute_op H op param v = Some v'" and h: "target_held op (slot_roots v) v"
    and H: "wf_host H" "unload_keeps_code H" and nt: "op \<in> {opPICKITEM, opSETITEM} \<longrightarrow> vm_istack v' = vm_istack v"
  shows "counted v' (slot_roots v') \<and> int (length (concat (vm_stacks v'))) + int (size (slot_roots v')) \<le> vm_refs v'"
proof -
  have data: "counted v' (slot_roots v')" if d: "data_op op" "\<not> slot_load_op op"
    using slots.execute_op_counted [OF ex v d(1) p h H(2) nt] data_op_roots [OF ex d H(2) nt] by simp
  have call: "counted v' (slot_roots v')" if "op \<in> {opCALL, opCALLL, opCALLA}"
    using ex call_counted [OF _ that v H(1)] slot_roots_calls [OF _ that] by (simp add: execute_op_range(2) [OF that])
  have endtry: "counted v' (slot_roots v')" if "op \<in> {opENDTRY, opENDTRYL}"
    using ex endtry_counted [OF _ v] slot_roots_endtry by (simp add: execute_op_range(3) [OF that])
  have slot: "counted v' (slot_roots v')" if "\<not> op \<le> opREVERSEN" "op \<le> opSTARG"
    using ex execute_slot_counted [OF _ v] by (simp add: execute_op_range(1) [OF that])
  have "counted v' (slot_roots v')" using counted_op_cases [OF op] data call endtry slot by blast
  moreover from this have "int (size (mset (concat (vm_stacks v')) + slot_roots v')) \<le> vm_refs v'"
    by (intro exact_lower [of "vm_heap v'"]) (simp add: counted_slots)
  ultimately show ?thesis by simp
qed

text \<open>An integer appended to an array that is on the stack twice.\<close>

definition shared_array :: "stackitem list \<Rightarrow> int \<Rightarrow> stackitem list \<Rightarrow> int \<Rightarrow> vm" where
  "shared_array xs n es r = mk [opAPPEND] 0 1 xs [\<lparr>ob_value = Elems es, ob_rc = n, ob_ro = False\<rparr>] r"

lemma shared_array_counted: "counted (shared_array [BigInteger 1, ArrayItem 0, ArrayItem 0] 2 [] 3) (slot_roots (shared_array [BigInteger 1, ArrayItem 0, ArrayItem 0] 2 [] 3))"
proof -
  have live: "live [\<lparr>ob_value = Elems [], ob_rc = 2, ob_ro = False\<rparr>] = {0}" by (auto simp: live_def rc_of_def)
  have roots: "slot_roots (shared_array [BigInteger 1, ArrayItem 0, ArrayItem 0] 2 [] 3) = {#}"
    by (simp add: slot_roots_def shared_array_def mk_def own_items_def slot_items_def scripts_used_def static_items_def)
  show ?thesis unfolding roots counted_def
    by (simp add: shared_array_def mk_def vm_ok_def heap_ok_def kinds_def has_kind_def context_ok_def script_ok_def
        MaxInvocationStackSize_def MaxTryNestingDepth_def exact_def balance_def live rc_of_def obj_items_def)
qed

lemma free_host_ok: "wf_host free_host" "unload_keeps_code free_host"
  by (auto simp: wf_host_def unload_keeps_code_def free_host_def grows_def extends_def)

theorem refs_exact_kept_witness:
  "counted (shared_array [ArrayItem 0] 1 [BigInteger 1] 2) (slot_roots (shared_array [ArrayItem 0] 1 [BigInteger 1] 2))"
proof -
  let ?v = "shared_array [BigInteger 1, ArrayItem 0, ArrayItem 0] 2 [] 3"
  have ex: "execute_op free_host opAPPEND [] ?v = Some (shared_array [ArrayItem 0] 1 [BigInteger 1] 2)"
    by (simp add: shared_array_def execute_op_def execute_collection_def execute_append_def append_elem_def Pop_def IsReadOnly_def
      cloneIfStruct_def mk_count add_items.simps remove_items.simps rc_of_def add_rc_def get_elems_def obj_def set_value_def
      MaxStackSize_def Let_def)
  have held: "target_held opAPPEND (slot_roots ?v) ?v"
    by (simp add: target_held_def target_depth_def held_def shared_array_def refs_to_def mk_def estack_def set_estack_def)
  show ?thesis
    using refs_exact_kept [OF shared_array_counted _ _ ex held free_host_ok] by (simp add: counted_op_def param_ok_def)
qed

end
