(* ===== verification/Vm_Emit.thy ===== *)
theory Vm_Emit
  imports Vm_Wf Keys
begin

text \<open>
  \<^verbatim>\<open>pkg/vm/emit/emit.go\<close>: the instructions for literals, system calls and jumps that the node writes
  into scripts. What \<^verbatim>\<open>Context.Next\<close> decodes from such an instruction and what the machine does with it is the
  literal again. \<^verbatim>\<open>Any\<close>, \<^verbatim>\<open>Array\<close> and \<^verbatim>\<open>StackItem\<close>, which dispatch on Go types, are not modelled.
\<close>

section \<open>Decoding at an offset\<close>

text \<open>\<^verbatim>\<open>Context.Next\<close> of a context that is not in a machine: the instruction, its parameter and the next offset.\<close>

definition decode_instr :: "bytes \<Rightarrow> nat \<Rightarrow> (byte \<times> bytes \<times> nat) option" where
  "decode_instr prog ip =
    (if ip \<ge> length prog then Some (opRET, [], ip)
     else let instr = prog ! ip in
       if \<not> opcode_IsValid instr then None
       else do {
         (n, start) \<leftarrow> param_size prog instr (ip + 1);
         if start + n > length prog then None else Some (instr, take n (drop start prog), start + n) })"

lemma Next_decode:
  "Next v = do {
     c \<leftarrow> cur v; sc \<leftarrow> script v c;
     (op, param, nip) \<leftarrow> decode_instr (sc_prog sc) (cx_nextip c);
     Some (op, param, set_cur (c\<lparr>cx_ip := cx_nextip c, cx_nextip := nip\<rparr>) v) }"
  by (auto simp: Next_def decode_instr_def Let_def split: Option.bind_split)

lemma param_size_start: "param_size prog instr nip = Some (n, start) \<Longrightarrow> nip \<le> start"
  by (auto simp: param_size_def Let_def split: if_splits)

lemma decode_instr_after: "decode_instr prog ip = Some (op, param, nip) \<Longrightarrow> ip < length prog \<Longrightarrow> ip < nip \<and> nip \<le> length prog"
  by (auto simp: decode_instr_def Let_def dest: param_size_start split: if_splits Option.bind_splits)

section \<open>Instructions\<close>

definition Instruction :: "byte \<Rightarrow> bytes \<Rightarrow> bin_writer \<Rightarrow> bin_writer" where
  "Instruction op b w = WriteBytes b (WriteB op w)"

definition Opcodes :: "byte list \<Rightarrow> bin_writer \<Rightarrow> bin_writer" where
  "Opcodes ops w = fold WriteB ops w"

definition InitSlot :: "byte \<Rightarrow> byte \<Rightarrow> bin_writer \<Rightarrow> bin_writer" where
  "InitSlot locals args w = Instruction opINITSLOT [locals, args] w"

definition emit_Bool :: "bool \<Rightarrow> bin_writer \<Rightarrow> bin_writer" where
  "emit_Bool ok w = Opcodes [if ok then opPUSHT else opPUSHF] w"

text \<open>The buffer has room for 32 bytes, and those past its length are zero.\<close>

definition padRight :: "nat \<Rightarrow> bytes \<Rightarrow> bytes" where
  "padRight s buf = buf @ replicate (s - length buf) (if last buf AND 0x80 \<noteq> 0 then 0xFF else 0)"

definition smallInt :: "int \<Rightarrow> bin_writer \<Rightarrow> bin_writer option" where
  "smallInt i w =
    (if i = -1 then Some (Opcodes [opPUSHM1] w)
     else if 0 \<le> i \<and> i < 16 then Some (Opcodes [opPUSH0 + word_of_int i] w)
     else None)"

definition bigInt :: "int \<Rightarrow> bool \<Rightarrow> bin_writer \<Rightarrow> bin_writer" where
  "bigInt n trySmall w =
    (if w_err w \<noteq> None then w
     else case (if trySmall \<and> - (2 ^ 63) \<le> n \<and> n < 2 ^ 63 then smallInt n w else None) of
       Some w \<Rightarrow> w
     | None \<Rightarrow>
         if \<not> CheckIntegerSize n then w\<lparr>w_err := Some (ErrFormat ''too big integer'')\<rparr>
         else let buf = ToBytes n in
           if buf = [] then Opcodes [opPUSH0] w
           else let padSize = bit_len (length buf - 1) in
             WriteBytes (padRight (2 ^ padSize) buf) (Opcodes [opPUSHINT8 + word_of_nat padSize] w))"

definition emit_Int :: "int64 \<Rightarrow> bin_writer \<Rightarrow> bin_writer" where
  "emit_Int i w = (case smallInt (sint i) w of Some w \<Rightarrow> w | None \<Rightarrow> bigInt (sint i) False w)"

definition emit_BigInt :: "int \<Rightarrow> bin_writer \<Rightarrow> bin_writer" where
  "emit_BigInt n w = bigInt n True w"

definition emit_Bytes :: "bytes \<Rightarrow> bin_writer \<Rightarrow> bin_writer" where
  "emit_Bytes b w =
    (let n = length b in
     WriteBytes b
       (if n < 0x100 then Instruction opPUSHDATA1 [word_of_nat n] w
        else if n < 0x10000 then Instruction opPUSHDATA2 (put_le 2 (word_of_nat n :: uint16)) w
        else Instruction opPUSHDATA4 (put_le 4 (word_of_nat n :: uint32)) w))"

definition emit_String :: "string \<Rightarrow> bin_writer \<Rightarrow> bin_writer" where
  "emit_String s w = emit_Bytes (string_bytes s) w"

text \<open>\<^verbatim>\<open>interopnames.ToID\<close>\<close>

definition ToID :: "(bytes \<Rightarrow> uint256) \<Rightarrow> bytes \<Rightarrow> uint32" where
  "ToID sha name = get_le (take 4 (BytesBE (sha name)))"

definition Syscall :: "(bytes \<Rightarrow> uint256) \<Rightarrow> string \<Rightarrow> bin_writer \<Rightarrow> bin_writer" where
  "Syscall sha api w =
    (if w_err w \<noteq> None then w
     else if api = [] then w\<lparr>w_err := Some (ErrFormat ''syscall api cannot be of length 0'')\<rparr>
     else Instruction opSYSCALL (put_le 4 (ToID sha (string_bytes api))) w)"

definition isInstructionJmp :: "byte \<Rightarrow> bool" where
  "isInstructionJmp op \<longleftrightarrow> opJMP \<le> op \<and> op \<le> opCALLL \<or> op = opENDTRYL"

definition emit_Jmp :: "byte \<Rightarrow> uint16 \<Rightarrow> bin_writer \<Rightarrow> bin_writer" where
  "emit_Jmp op label w =
    (if w_err w \<noteq> None then w
     else if \<not> isInstructionJmp op then w\<lparr>w_err := Some (ErrFormat ''opcode is not a jump or call type'')\<rparr>
     else Instruction op (put_le 2 label @ [0, 0]) w)"

definition emit_Call :: "byte \<Rightarrow> uint16 \<Rightarrow> bin_writer \<Rightarrow> bin_writer" where
  "emit_Call op label w = emit_Jmp op label w"

definition AppCallNoArgs :: "(bytes \<Rightarrow> uint256) \<Rightarrow> uint160 \<Rightarrow> string \<Rightarrow> byte \<Rightarrow> bin_writer \<Rightarrow> bin_writer" where
  "AppCallNoArgs sha scriptHash operation f w =
    Syscall sha ''System.Contract.Call'' (emit_Bytes (Uint160_BytesBE scriptHash) (emit_String operation (emit_Int (ucast f) w)))"

definition CheckSig :: "(bytes \<Rightarrow> uint256) \<Rightarrow> bytes \<Rightarrow> bin_writer \<Rightarrow> bin_writer" where
  "CheckSig sha key w = Syscall sha ''System.Crypto.CheckSig'' (emit_Bytes key w)"

section \<open>The bytes written\<close>

definition int_code :: "int \<Rightarrow> bytes" where
  "int_code n =
    (if n = -1 then [opPUSHM1] else if 0 \<le> n \<and> n < 16 then [opPUSH0 + word_of_int n]
     else let padSize = bit_len (length (ToBytes n) - 1) in (opPUSHINT8 + word_of_nat padSize) # padRight (2 ^ padSize) (ToBytes n))"

definition bytes_code :: "bytes \<Rightarrow> bytes" where
  "bytes_code b =
    (if length b < 0x100 then [opPUSHDATA1, word_of_nat (length b)]
     else if length b < 0x10000 then opPUSHDATA2 # put_le 2 (word_of_nat (length b) :: uint16)
     else opPUSHDATA4 # put_le 4 (word_of_nat (length b) :: uint32)) @ b"

lemma emit_instr [simp]:
  "Instruction op b (writer_of a) = writer_of (a @ op # b)" "Opcodes [op] (writer_of a) = writer_of (a @ [op])"
  by (simp_all add: Instruction_def Opcodes_def)

lemma ToBytes_Nil: "ToBytes n = [] \<longleftrightarrow> n = 0"
  using length_ToBytes [of n] by (cases "n = 0") (auto simp: ToBytes_def)

lemma emit_BigInt_code: "CheckIntegerSize n \<Longrightarrow> emit_BigInt n (writer_of a) = writer_of (a @ int_code n)"
  by (auto simp: emit_BigInt_def bigInt_def int_code_def smallInt_def Let_def ToBytes_Nil)

lemma sint_int64: "- (2 ^ 63) \<le> sint i \<and> sint i < 2 ^ 63" for i :: int64
  using sint_greater_eq [of i] sint_less [of i] by simp

lemma emit_Int_code: "emit_Int i (writer_of a) = writer_of (a @ int_code (sint i))"
proof -
  have "CheckIntegerSize (sint i)" using sint_int64 [of i] unfolding CheckIntegerSize_iff by simp
  then show ?thesis by (auto simp: emit_Int_def bigInt_def int_code_def smallInt_def Let_def ToBytes_Nil)
qed

lemma emit_Bytes_code: "emit_Bytes b (writer_of a) = writer_of (a @ bytes_code b)"
  by (simp add: emit_Bytes_def bytes_code_def Let_def)

lemma Syscall_code: "api \<noteq> [] \<Longrightarrow> Syscall sha api (writer_of a) = writer_of (a @ opSYSCALL # put_le 4 (ToID sha (string_bytes api)))"
  by (simp add: Syscall_def)

section \<open>Decoding what was written\<close>

text \<open>An instruction inside a script.\<close>

lemma decode_instr_at:
  assumes "decode_instr (code @ rest) 0 = Some (op, param, n)" and "code @ rest \<noteq> []"
  shows "decode_instr (pre @ code @ rest) (length pre) = Some (op, param, length pre + n)"
proof -
  have shift: "param_size (pre @ prog) instr (length pre + k) = map_option (\<lambda>(n, s). (n, length pre + s)) (param_size prog instr k)" for prog instr k
    by (auto simp: param_size_def Let_def nth_append)
  have ne: "0 < length (code @ rest)" using assms(2) by simp
  show ?thesis using assms(1) ne shift [of "code @ rest" _ 1]
    by (auto simp: decode_instr_def Let_def nth_append split: if_splits Option.bind_splits)
qed

lemma opcode_valid:
  "opcode_IsValid opPUSHM1" "opcode_IsValid opPUSH0" "opcode_IsValid opPUSHDATA1" "opcode_IsValid opPUSHDATA2"
  "opcode_IsValid opPUSHDATA4" "opcode_IsValid opSYSCALL" "opcode_IsValid opPUSHT" "opcode_IsValid opPUSHF"
  unfolding opcode_IsValid_def opcodes_def by (simp_all only: list.set insert_iff simp_thms)

lemma decode_bytes_code:
  assumes "int (length b) \<le> MaxSize"
  shows "\<exists>op. op \<in> {opPUSHDATA1, opPUSHDATA2, opPUSHDATA4} \<and>
    decode_instr (bytes_code b @ rest) 0 = Some (op, b, length (bytes_code b)) \<and> (length b < 0x100 \<longrightarrow> op = opPUSHDATA1)"
proof -
  have len: "length b \<le> 131070" using assms by (simp add: MaxSize_def)
  consider "length b < 0x100" | "\<not> length b < 0x100" "length b < 0x10000" | "\<not> length b < 0x10000" by blast
  then show ?thesis
  proof cases
    case 1
    then have "unat (word_of_nat (length b) :: byte) = length b" by (simp add: unat_of_nat take_bit_eq_mod)
    with 1 show ?thesis
      by (intro exI [of _ opPUSHDATA1]) (simp add: bytes_code_def decode_instr_def param_size_def opcode_valid)
  next
    case 2
    then have "le_nat (put_le 2 (word_of_nat (length b) :: uint16)) = length b"
      by (simp add: put_le_def le_nat_le_bytes unat_of_nat take_bit_eq_mod)
    with 2 show ?thesis
      by (intro exI [of _ opPUSHDATA2]) (simp add: bytes_code_def decode_instr_def param_size_def opcode_valid)
  next
    case 3
    then have "le_nat (put_le 4 (word_of_nat (length b) :: uint32)) = length b"
      using len by (simp add: put_le_def le_nat_le_bytes unat_of_nat take_bit_eq_mod)
    with 3 assms show ?thesis
      by (intro exI [of _ opPUSHDATA4]) (simp add: bytes_code_def decode_instr_def param_size_def opcode_valid)
  qed
qed

lemma twos_complement_pad:
  assumes "buf \<noteq> []" and "length buf \<le> s"
  shows "twos_complement (padRight s buf) = twos_complement buf"
proof -
  define neg where "neg \<longleftrightarrow> last buf AND 0x80 \<noteq> 0"
  define b :: byte where "b = (if neg then 0xFF else 0)"
  define k where "k = s - length buf"
  have pad: "padRight s buf = buf @ replicate k b" by (simp only: padRight_def b_def neg_def k_def)
  have "b AND 0x80 \<noteq> 0 \<longleftrightarrow> neg" by (simp add: b_def)
  then have last: "last (padRight s buf) AND 0x80 \<noteq> 0 \<longleftrightarrow> neg"
    using assms(1) by (cases k) (simp_all add: pad neg_def last_append)
  have val: "int (le_nat (padRight s buf)) = int (le_nat buf) + 256 ^ length buf * int (le_nat (replicate k b))"
    by (simp add: pad le_nat_append)
  have len: "length (padRight s buf) = length buf + k" by (simp add: pad)
  show ?thesis
  proof (cases neg)
    case True
    have r: "int (le_nat (replicate k b)) = 256 ^ k - 1"
      using True le_nat_replicate(1) [of k, THEN arg_cong [of _ _ int]] unfolding b_def
      by (simp only: if_True of_nat_add of_nat_power of_nat_1 of_nat_numeral)
    have "twos_complement (padRight s buf) = int (le_nat (padRight s buf)) - 256 ^ (length buf + k)"
      using True last assms(1) by (simp add: twos_complement_def len) (simp add: pad)
    also have "\<dots> = int (le_nat buf) - 256 ^ length buf" unfolding val r by (simp add: power_add algebra_simps)
    finally show ?thesis using True assms(1) by (simp add: twos_complement_def neg_def)
  next
    case False
    then have "le_nat (replicate k b) = 0" using le_nat_replicate(2) [of k] by (simp only: b_def if_False)
    then show ?thesis using False last assms(1) val unfolding twos_complement_def by (simp add: pad neg_def)
  qed
qed

lemma valid_PUSHINT: "k \<le> 5 \<Longrightarrow> opcode_IsValid (word_of_nat k) \<and> param_size prog (word_of_nat k) ip = Some (2 ^ k, ip) \<and>
    (word_of_nat k :: byte) \<le> opPUSHINT256"
proof -
  assume "k \<le> 5"
  then have k: "k \<in> {0, 1, 2, 3, 4, 5}" by auto
  have v: "opcode_IsValid opPUSHINT8" "opcode_IsValid opPUSHINT16" "opcode_IsValid opPUSHINT32" "opcode_IsValid opPUSHINT64"
    "opcode_IsValid opPUSHINT128" "opcode_IsValid opPUSHINT256"
    unfolding opcode_IsValid_def opcodes_def by (simp_all only: list.set insert_iff simp_thms)
  show ?thesis using k v by (auto simp: param_size_def one_byte_ops_def four_byte_ops_def)
qed

lemma param_size_plain:
  assumes "15 \<le> unat op" and "unat op \<le> 32"
  shows "param_size prog op ip = Some (0, ip)"
proof -
  have "op \<notin> set one_byte_ops" "op \<notin> set four_byte_ops" "op \<notin> {opPUSHDATA1, opPUSHDATA2, opPUSHDATA4, opTRYL, opINITSLOT, opTRY, opCALLT}"
    "\<not> op \<le> opPUSHINT256"
    using assms by (auto simp: one_byte_ops_def four_byte_ops_def word_le_nat_alt)
  then show ?thesis by (simp add: param_size_def)
qed

lemma small_valid: "list_all (\<lambda>i. opcode_IsValid (opPUSHM1 + word_of_nat i)) [0, 1, 2, 3, 4, 5, 6, 7, 8, 9, 10, 11, 12, 13, 14, 15, 16]"
proof -
  have v: "opcode_IsValid opPUSHM1" "opcode_IsValid opPUSH0" "opcode_IsValid opPUSH1" "opcode_IsValid opPUSH2" "opcode_IsValid opPUSH3"
    "opcode_IsValid opPUSH4" "opcode_IsValid opPUSH5" "opcode_IsValid opPUSH6" "opcode_IsValid opPUSH7" "opcode_IsValid opPUSH8"
    "opcode_IsValid opPUSH9" "opcode_IsValid opPUSH10" "opcode_IsValid opPUSH11" "opcode_IsValid opPUSH12" "opcode_IsValid opPUSH13"
    "opcode_IsValid opPUSH14" "opcode_IsValid opPUSH15"
    unfolding opcode_IsValid_def opcodes_def by (simp_all only: list.set insert_iff simp_thms)
  then show ?thesis by simp
qed

lemma valid_small:
  assumes "i < 17"
  shows "opcode_IsValid (opPUSHM1 + word_of_nat i) \<and> param_size prog (opPUSHM1 + word_of_nat i) ip = Some (0, ip) \<and>
   \<not> opPUSHM1 + word_of_nat i \<le> opPUSHINT256 \<and> opPUSHM1 \<le> opPUSHM1 + (word_of_nat i :: byte) \<and> opPUSHM1 + (word_of_nat i :: byte) \<le> opPUSH15 \<and>
   unat (opPUSHM1 + (word_of_nat i :: byte)) = unat opPUSHM1 + i"
proof -
  have "i \<in> set [0, 1, 2, 3, 4, 5, 6, 7, 8, 9, 10, 11, 12, 13, 14, 15, 16]"
    using assms by (simp only: list.set insert_iff empty_iff) presburger
  then have v: "opcode_IsValid (opPUSHM1 + word_of_nat i)" using small_valid unfolding list_all_iff by blast
  have u: "unat (opPUSHM1 + (word_of_nat i :: byte)) = 15 + i"
    using assms by (simp add: unat_word_ariths unat_of_nat take_bit_eq_mod)
  with assms v param_size_plain [of "opPUSHM1 + word_of_nat i" prog ip] show ?thesis by (simp add: word_le_nat_alt)
qed

lemma bit_len_5: "n \<le> 32 \<Longrightarrow> bit_len (n - 1) \<le> 5" "n \<le> 2 ^ bit_len (n - 1)"
  using bit_len_iff [of "n - 1" 5] bit_len_less [of "n - 1"] by auto

text \<open>What the machine takes an instruction for: the integer it pushes.\<close>

definition pushes_int :: "byte \<Rightarrow> bytes \<Rightarrow> int \<Rightarrow> bool" where
  "pushes_int op param n \<longleftrightarrow> op \<le> opPUSHINT256 \<and> FromBytes param = n \<or>
     opPUSHM1 \<le> op \<and> op \<le> opPUSH15 \<and> \<not> op \<le> opPUSHINT256 \<and> int (unat op) - int (unat opPUSH0) = n"

lemma decode_int_code:
  assumes "CheckIntegerSize n"
  shows "\<exists>op param. decode_instr (int_code n @ rest) 0 = Some (op, param, length (int_code n)) \<and> pushes_int op param n"
proof (cases "-1 \<le> n \<and> n < 16")
  case True
  define i where "i = nat (n + 1)"
  have i: "i < 17" "n = int i - 1" using True by (auto simp: i_def)
  have "int_code n = [opPUSHM1 + word_of_nat i]"
    using True i by (auto simp: int_code_def)
  with valid_small [OF i(1)] i(2) show ?thesis
    by (intro exI [of _ "opPUSHM1 + word_of_nat i"]) (simp add: decode_instr_def pushes_int_def)
next
  case False
  let ?k = "bit_len (length (ToBytes n) - 1)"
  have "length (ToBytes n) \<le> 32" using assms length_ToBytes_32 [of n] unfolding CheckIntegerSize_iff by simp
  note k = bit_len_5(1) [OF this] bit_len_5(2) [of "length (ToBytes n)"]
  have ne: "ToBytes n \<noteq> []" using False by (auto simp: ToBytes_Nil)
  have code: "int_code n = word_of_nat ?k # padRight (2 ^ ?k) (ToBytes n)" using False by (auto simp: int_code_def Let_def)
  have len: "length (padRight (2 ^ ?k) (ToBytes n)) = 2 ^ ?k" using k(2) by (simp add: padRight_def)
  have "FromBytes (padRight (2 ^ ?k) (ToBytes n)) = n"
    by (simp only: FromBytes_twos_complement twos_complement_pad [OF ne k(2)] twos_complement_ToBytes)
  with valid_PUSHINT [OF k(1)] len show ?thesis unfolding code
    by (intro exI [of _ "word_of_nat ?k"]) (simp add: decode_instr_def pushes_int_def)
qed

section \<open>Running what was written\<close>

datatype literal = LInt int64 | LBigInt int | LBytes bytes | LBool bool

fun emit_literal :: "literal \<Rightarrow> bin_writer \<Rightarrow> bin_writer" where
  "emit_literal (LInt i) = emit_Int i"
| "emit_literal (LBigInt n) = emit_BigInt n"
| "emit_literal (LBytes b) = emit_Bytes b"
| "emit_literal (LBool b) = emit_Bool b"

fun literal_item :: "literal \<Rightarrow> stackitem" where
  "literal_item (LInt i) = BigInteger (sint i)"
| "literal_item (LBigInt n) = BigInteger n"
| "literal_item (LBytes b) = ByteArray b"
| "literal_item (LBool b) = BoolItem b"

lemma execute_pushes_int:
  assumes "pushes_int op param n" and "CheckIntegerSize n"
  shows "execute_op H op param v = Some (PushItem (BigInteger n) v)"
proof -
  have "\<not> op \<le> opPUSHINT256 \<Longrightarrow> opPUSHM1 \<le> op \<Longrightarrow> op \<le> opPUSH15 \<Longrightarrow>
      execute_op H op param v = pushInt (int (unat op) - int (unat opPUSH0)) v"
    by (auto simp: execute_op_def execute_push_def word_le_nat_alt)
  moreover have "op \<le> opPUSHINT256 \<Longrightarrow> execute_op H op param v = pushInt (FromBytes param) v" by (simp add: execute_op_def)
  ultimately show ?thesis using assms by (auto simp: pushes_int_def pushInt_def NewBigInteger_def)
qed

lemma execute_pushdata:
  "op \<in> {opPUSHDATA1, opPUSHDATA2, opPUSHDATA4} \<Longrightarrow> execute_op H op b v = Some (PushItem (ByteArray b) v)"
proof -
  assume op: "op \<in> {opPUSHDATA1, opPUSHDATA2, opPUSHDATA4}"
  then have "\<not> op \<le> opPUSHINT256" "op \<le> opNOP" "op \<notin> {opPUSHT, opPUSHF, opPUSHA, opPUSHNULL}" by auto
  with op show ?thesis by (simp add: execute_op_def execute_push_def)
qed

lemma execute_pushbool: "execute_op H (if t then opPUSHT else opPUSHF) [] v = Some (PushItem (BoolItem t) v)"
  by (cases t) (simp_all add: execute_op_def execute_push_def)

text \<open>The code of a literal, and that it decodes to an instruction that pushes it.\<close>

lemma literal_code:
  assumes "emit_literal l NewBufBinWriter = w" and "w_err w = None" and "\<forall>b. l = LBytes b \<longrightarrow> int (length b) \<le> MaxSize"
  shows "w_buf w \<noteq> [] \<and> (\<exists>op param. decode_instr (w_buf w @ rest) 0 = Some (op, param, length (w_buf w)) \<and>
    (\<forall>H v. execute_op H op param v = Some (PushItem (literal_item l) v)))"
proof -
  have int_code_ne: "int_code n \<noteq> []" for n by (simp add: int_code_def Let_def)
  have int: "int_code n \<noteq> [] \<and> (\<exists>op param. decode_instr (int_code n @ rest) 0 = Some (op, param, length (int_code n)) \<and>
      (\<forall>H v. execute_op H op param v = Some (PushItem (BigInteger n) v)))" if "CheckIntegerSize n" for n
    using decode_int_code [OF that, of rest] execute_pushes_int [OF _ that] int_code_ne by metis
  have bytes_code_ne: "bytes_code b \<noteq> []" for b by (simp add: bytes_code_def)
  note new = NewBufBinWriter_def
  show ?thesis
  proof (cases l)
    case (LInt i)
    have "CheckIntegerSize (sint i)" using sint_int64 [of i] unfolding CheckIntegerSize_iff by simp
    with int LInt assms(1) show ?thesis by (auto simp: emit_Int_code new)
  next
    case (LBigInt n)
    have ok: "CheckIntegerSize n"
    proof (rule ccontr)
      assume no: "\<not> CheckIntegerSize n"
      then have "\<not> (- (2 ^ 63) \<le> n \<and> n < 2 ^ 63)" unfolding CheckIntegerSize_iff by auto
      with no assms(1,2) LBigInt show False by (auto simp: emit_BigInt_def bigInt_def new)
    qed
    then have "w_buf w = int_code n" using LBigInt assms(1) by (auto simp: new emit_BigInt_code)
    with int [OF ok] LBigInt show ?thesis by simp
  next
    case (LBytes b)
    then have "w_buf w = bytes_code b" using assms(1) by (auto simp: new emit_Bytes_code)
    with LBytes assms(3) decode_bytes_code [of b rest] execute_pushdata show ?thesis by (simp add: bytes_code_ne) blast
  next
    case (LBool b)
    then have "w_buf w = [if b then opPUSHT else opPUSHF]" using assms(1) by (auto simp: new emit_Bool_def)
    with LBool opcode_valid execute_pushbool [of _ b] show ?thesis
      by (intro conjI exI [of _ "if b then opPUSHT else opPUSHF"] exI [of _ "[]"])
        (auto simp: decode_instr_def param_size_def one_byte_ops_def four_byte_ops_def)
  qed
qed

text \<open>
  The literals that \<^verbatim>\<open>emit\<close> writes run as meant: when the code of an integer, a byte string or a boolean stands anywhere
  in a script and the machine reaches it, the next instruction is exactly that code, and executing it pushes the
  literal. For integers this covers the one-byte forms and the padded two's complement of every length; an
  integer out of range makes the writer fail, and a byte string must be within the limit of the machine.
\<close>

theorem emitted_literal_pushes:
  assumes "emit_literal l NewBufBinWriter = w" and "w_err w = None" and "\<forall>b. l = LBytes b \<longrightarrow> int (length b) \<le> MaxSize"
    and c: "cur v = Some c" and sc: "script v c = Some sc" and "sc_prog sc = pre @ w_buf w @ rest" and "cx_nextip c = length pre"
  shows "\<exists>op param u. Next v = Some (op, param, u) \<and> execute_op H op param u = Some (PushItem (literal_item l) u) \<and>
    u = set_cur (c\<lparr>cx_ip := length pre, cx_nextip := length pre + length (w_buf w)\<rparr>) v"
proof -
  from literal_code [OF assms(1-3), of rest] obtain op param where ne: "w_buf w \<noteq> []"
    and dec: "decode_instr (w_buf w @ rest) 0 = Some (op, param, length (w_buf w))"
    and ex: "execute_op H op param u = Some (PushItem (literal_item l) u)" for u by blast
  have "w_buf w @ rest \<noteq> []" using ne by simp
  from decode_instr_at [OF dec this, of pre] show ?thesis using c sc assms(6,7) ex by (simp add: Next_decode)
qed

definition idle_host :: host where
  "idle_host = \<lparr>ho_hash160 = (\<lambda>prog. 0), ho_getPrice = None, ho_SyscallHandler = None, ho_LoadToken = None,
     ho_onUnload = (\<lambda>n c b v. Some v)\<rparr>"

theorem emitted_literal_pushes_witness:
  "\<exists>v op param u. Next v = Some (op, param, u) \<and> execute_op idle_host op param u = Some (PushItem (BigInteger (-200)) u)"
proof -
  define w where "w = emit_literal (LBigInt (-200)) NewBufBinWriter"
  have ok: "w_err w = None" by (simp add: w_def NewBufBinWriter_def emit_BigInt_code CheckIntegerSize_iff)
  define sc where "sc = \<lparr>sc_prog = [opNOP] @ w_buf w @ [], sc_breakPoints = [], sc_estack = 0, sc_static = None, sc_scriptHash = 0,
    sc_callingScriptHash = 0, sc_callingContext = None, sc_callFlag = 15, sc_onUnload = NoCallback\<rparr>"
  define c where "c = \<lparr>cx_ip = 0, cx_nextip = 1, cx_sc = 0, cx_local = None, cx_arguments = None, cx_tryStack = [], cx_retCount = -1\<rparr>"
  define v where "v = New_vm\<lparr>vm_istack := [c], vm_scs := [sc]\<rparr>"
  show ?thesis
    using emitted_literal_pushes [OF w_def [symmetric] ok, of v c sc "[opNOP]" "[]" idle_host]
    by (fastforce simp: v_def sc_def c_def cur_def script_def)
qed

end
