(* ===== verification/Vm_Contract.thy ===== *)
theory Vm_Contract
  imports Vm_Emit "HOL-Library.Multiset"
begin

text \<open>
  Standard verification scripts: \<^verbatim>\<open>pkg/smartcontract/contract.go\<close> and \<^verbatim>\<open>PublicKey.GetVerificationScript\<close> make them,
  \<^verbatim>\<open>pkg/vm/contract_checks.go\<close> recognises them. What the node makes it recognises, with the keys and the threshold
  that went in.
\<close>

section \<open>Making scripts\<close>

datatype multisig_err = ErrThresholdTooSmall | ErrThresholdTooBig | ErrTooManyKeys | SortPanic

text \<open>
  \<^verbatim>\<open>sort.Sort\<close> with \<^verbatim>\<open>Less\<close> of \<^verbatim>\<open>PublicKeys\<close>; keys that compare as equal are equal, so the algorithm does not matter. \<open>None\<close> is
  the panic of a comparison with the point at infinity.
\<close>

fun insert_key :: "public_key \<Rightarrow> public_key list \<Rightarrow> public_key list option" where
  "insert_key k [] = Some [k]"
| "insert_key k (k' # ks) = do {
     c \<leftarrow> Key_Cmp k' k;
     if c = -1 then do { ks \<leftarrow> insert_key k ks; Some (k' # ks) } else Some (k # k' # ks) }"

fun sort_keys :: "public_key list \<Rightarrow> public_key list option" where
  "sort_keys [] = Some []"
| "sort_keys (k # ks) = do { ks \<leftarrow> sort_keys ks; insert_key k ks }"

definition CreateMultiSigRedeemScript ::
  "(bytes \<Rightarrow> uint256) \<Rightarrow> int \<Rightarrow> public_key list \<Rightarrow> multisig_err + bytes" where
  "CreateMultiSigRedeemScript sha m publicKeys =
    (if m < 1 then Inl ErrThresholdTooSmall
     else if m > int (length publicKeys) then Inl ErrThresholdTooBig
     else if m > 1024 then Inl ErrTooManyKeys
     else case sort_keys publicKeys of
       None \<Rightarrow> Inl SortPanic
     | Some keys \<Rightarrow>
         let w = emit_Int (word_of_int m) NewBufBinWriter;
             w = fold (\<lambda>k. emit_Bytes (Key_Bytes k)) keys w;
             w = emit_Int (word_of_nat (length keys)) w;
             w = Syscall sha ''System.Crypto.CheckMultisig'' w
         in case fst (Writer_Bytes w) of None \<Rightarrow> Inr [] | Some b \<Rightarrow> Inr b)"

text \<open>Go divides towards zero.\<close>

definition GetDefaultHonestNodeCount :: "int \<Rightarrow> int" where
  "GetDefaultHonestNodeCount n = n - (n - 1) sdiv 3"

definition GetMajorityHonestNodeCount :: "int \<Rightarrow> int" where
  "GetMajorityHonestNodeCount n = n - (n - 1) sdiv 2"

definition CreateDefaultMultiSigRedeemScript :: "(bytes \<Rightarrow> uint256) \<Rightarrow> public_key list \<Rightarrow> multisig_err + bytes" where
  "CreateDefaultMultiSigRedeemScript sha publicKeys =
     CreateMultiSigRedeemScript sha (GetDefaultHonestNodeCount (int (length publicKeys))) publicKeys"

definition CreateMajorityMultiSigRedeemScript :: "(bytes \<Rightarrow> uint256) \<Rightarrow> public_key list \<Rightarrow> multisig_err + bytes" where
  "CreateMajorityMultiSigRedeemScript sha publicKeys =
     CreateMultiSigRedeemScript sha (GetMajorityHonestNodeCount (int (length publicKeys))) publicKeys"

text \<open>\<^verbatim>\<open>GetVerificationScript\<close> with the address prefix of the current protocol; the branch for the old one is not modelled.\<close>

definition GetVerificationScript :: "(bytes \<Rightarrow> uint256) \<Rightarrow> public_key \<Rightarrow> bytes option" where
  "GetVerificationScript sha p = fst (Writer_Bytes (CheckSig sha (Key_Bytes p) NewBufBinWriter))"

section \<open>Recognising scripts\<close>

definition MaxMultisigKeys :: nat where "MaxMultisigKeys = 1024"

definition verifyInteropID :: "(bytes \<Rightarrow> uint256) \<Rightarrow> uint32" where
  "verifyInteropID sha = ToID sha (string_bytes ''System.Crypto.CheckSig'')"

definition multisigInteropID :: "(bytes \<Rightarrow> uint256) \<Rightarrow> uint32" where
  "multisigInteropID sha = ToID sha (string_bytes ''System.Crypto.CheckMultisig'')"

definition getNumOfThingsFromInstr :: "byte \<Rightarrow> bytes \<Rightarrow> nat option" where
  "getNumOfThingsFromInstr instr param = do {
     nthings \<leftarrow> (if opPUSH1 \<le> instr \<and> instr \<le> opPUSH16 then Some (unat (instr - opPUSH1) + 1)
       else if instr \<le> opPUSHINT256 then
         let n = FromBytes param in
         if n < 0 \<or> n > int MaxMultisigKeys then None else Some (nat n)
       else None);
     if nthings < 1 \<or> nthings > MaxMultisigKeys then None else Some nthings }"

text \<open>
  The loop over the keys: the number of keys still allowed counts down from one more than the limit. It returns the
  first instruction that is not \<^verbatim>\<open>PUSHDATA1\<close>.
\<close>

fun parse_keys :: "nat \<Rightarrow> bytes \<Rightarrow> nat \<Rightarrow> bytes list \<Rightarrow> (byte \<times> bytes \<times> nat \<times> bytes list) option" where
  "parse_keys 0 prog ip pubs = None"
| "parse_keys (Suc k) prog ip pubs = do {
     (instr, param, nip) \<leftarrow> decode_instr prog ip;
     if instr \<noteq> opPUSHDATA1 then Some (instr, param, nip, pubs)
     else if length param < 33 then None
     else parse_keys k prog nip (pubs @ [param]) }"

definition ParseMultiSigContract :: "(bytes \<Rightarrow> uint256) \<Rightarrow> bytes \<Rightarrow> (nat \<times> bytes list) option" where
  "ParseMultiSigContract sha prog =
    (if length prog < 42 then None
     else do {
       (instr, param, ip) \<leftarrow> decode_instr prog 0;
       nsigs \<leftarrow> getNumOfThingsFromInstr instr param;
       (instr, param, ip, pubs) \<leftarrow> parse_keys (MaxMultisigKeys + 1) prog ip [];
       if length pubs < nsigs then None
       else do {
         nkeys2 \<leftarrow> getNumOfThingsFromInstr instr param;
         if nkeys2 \<noteq> length pubs then None
         else do {
           (instr, param, ip) \<leftarrow> decode_instr prog ip;
           if instr \<noteq> opSYSCALL \<or> get_le param \<noteq> multisigInteropID sha then None
           else do {
             (instr, param, nip) \<leftarrow> decode_instr prog ip;
             if instr \<noteq> opRET \<or> ip \<noteq> length prog then None else Some (nsigs, pubs) } } } })"

definition IsMultiSigContract :: "(bytes \<Rightarrow> uint256) \<Rightarrow> bytes \<Rightarrow> bool" where
  "IsMultiSigContract sha prog \<longleftrightarrow> ParseMultiSigContract sha prog \<noteq> None"

definition ParseSignatureContract :: "(bytes \<Rightarrow> uint256) \<Rightarrow> bytes \<Rightarrow> bytes option" where
  "ParseSignatureContract sha prog =
    (if length prog \<noteq> 40 then None
     else if prog ! 0 = opPUSHDATA1 \<and> prog ! 1 = 33 \<and> prog ! 35 = opSYSCALL \<and>
       get_le (drop 36 prog) = verifyInteropID sha
     then Some (take 33 (drop 2 prog))
     else None)"

definition IsSignatureContract :: "(bytes \<Rightarrow> uint256) \<Rightarrow> bytes \<Rightarrow> bool" where
  "IsSignatureContract sha prog \<longleftrightarrow> ParseSignatureContract sha prog \<noteq> None"

definition IsStandardContract :: "(bytes \<Rightarrow> uint256) \<Rightarrow> bytes \<Rightarrow> bool" where
  "IsStandardContract sha prog \<longleftrightarrow> IsSignatureContract sha prog \<or> IsMultiSigContract sha prog"

section \<open>Sorting keys\<close>

fun finite_key :: "public_key \<Rightarrow> bool" where
  "finite_key Infinity = False"
| "finite_key (Point x y) = True"

lemma Key_Cmp_finite: "finite_key a \<Longrightarrow> finite_key b \<Longrightarrow> \<exists>c. Key_Cmp a b = Some c"
  by (cases a; cases b) auto

definition key_le :: "public_key \<Rightarrow> public_key \<Rightarrow> bool" where
  "key_le a b \<longleftrightarrow> Key_Cmp a b \<noteq> Some 1"

lemma key_le_trans: "finite_key b \<Longrightarrow> key_le a b \<Longrightarrow> key_le b c \<Longrightarrow> key_le a c"
  by (cases a; cases b; cases c) (auto simp: key_le_def split: if_splits)

lemma key_le_cases: "Key_Cmp a b = Some r \<Longrightarrow> if r = -1 then key_le a b else key_le b a"
  by (cases a; cases b) (auto simp: key_le_def split: if_splits)

lemma insert_key_sorts:
  "list_all finite_key (k # ks) \<Longrightarrow> sorted_wrt key_le ks \<Longrightarrow>
    \<exists>ks'. insert_key k ks = Some ks' \<and> mset ks' = add_mset k (mset ks) \<and> sorted_wrt key_le ks'"
proof (induction ks)
  case (Cons k' ks)
  then obtain ks' where ks': "insert_key k ks = Some ks'" "mset ks' = add_mset k (mset ks)" "sorted_wrt key_le ks'" by auto
  have set: "set ks' = insert k (set ks)" using ks'(2) by (metis set_mset_add_mset_insert set_mset_mset)
  obtain c where c: "Key_Cmp k' k = Some c" using Key_Cmp_finite [of k' k] Cons.prems(1) by auto
  show ?case
  proof (cases "c = -1")
    case True
    with key_le_cases [OF c] Cons.prems(2) set have "sorted_wrt key_le (k' # ks')" using ks'(3) by auto
    with True c ks' show ?thesis by auto
  next
    case False
    then have "key_le k k'" using key_le_cases [OF c] by simp
    with Cons.prems have "sorted_wrt key_le (k # k' # ks)" using key_le_trans [of k' k] by auto
    with False c show ?thesis by auto
  qed
qed simp

lemma sort_keys_sorts:
  "list_all finite_key ks \<Longrightarrow> \<exists>ks'. sort_keys ks = Some ks' \<and> mset ks' = mset ks \<and> sorted_wrt key_le ks'"
proof (induction ks)
  case (Cons k ks)
  then obtain s where s: "sort_keys ks = Some s" "mset s = mset ks" "sorted_wrt key_le s" by auto
  have "set s = set ks" using s(2) by (rule mset_eq_setD)
  then have "list_all finite_key (k # s)" using Cons.prems by (auto simp: list_all_iff)
  from insert_key_sorts [OF this s(3)] s show ?case by auto
qed simp

section \<open>Parsing what was made\<close>

text \<open>A script read instruction by instruction.\<close>

lemma decode_int_at:
  assumes "CheckIntegerSize n"
  shows "\<exists>op param. decode_instr (pre @ int_code n @ rest) (length pre) = Some (op, param, length pre + length (int_code n)) \<and>
    pushes_int op param n"
proof -
  have "int_code n @ rest \<noteq> []" by (simp add: int_code_def Let_def)
  with decode_int_code [OF assms, of rest] decode_instr_at [of "int_code n" rest _ _ _ pre] show ?thesis by fast
qed

lemma length_Key_Bytes: "finite_key k \<Longrightarrow> length (Key_Bytes k) = 33"
  by (cases k) (simp_all add: Key_Bytes_def coordLen_def be_bytes_def)

lemma decode_key_at:
  assumes "finite_key k"
  shows "decode_instr (pre @ bytes_code (Key_Bytes k) @ rest) (length pre) =
    Some (opPUSHDATA1, Key_Bytes k, length pre + length (bytes_code (Key_Bytes k)))"
proof -
  have len: "length (Key_Bytes k) = 33" by (rule length_Key_Bytes [OF assms])
  then have "decode_instr (bytes_code (Key_Bytes k) @ rest) 0 = Some (opPUSHDATA1, Key_Bytes k, length (bytes_code (Key_Bytes k)))"
    using decode_bytes_code [of "Key_Bytes k" rest] by (auto simp: MaxSize_def)
  then show ?thesis by (rule decode_instr_at) (simp add: bytes_code_def)
qed

lemma parse_keys_made:
  assumes "list_all finite_key ks" and "length ks < k"
    and "decode_instr (pre @ concat (map (\<lambda>k. bytes_code (Key_Bytes k)) ks) @ rest) (length pre + length (concat (map (\<lambda>k. bytes_code (Key_Bytes k)) ks))) =
      Some (op, param, nip)" and "op \<noteq> opPUSHDATA1"
  shows "parse_keys k (pre @ concat (map (\<lambda>k. bytes_code (Key_Bytes k)) ks) @ rest) (length pre) acc = Some (op, param, nip, acc @ map Key_Bytes ks)"
  using assms
proof (induction ks arbitrary: k pre acc)
  case Nil
  then obtain j where "k = Suc j" by (cases k) auto
  with Nil show ?case by simp
next
  case (Cons x ks)
  then obtain j where j: "k = Suc j" by (cases k) auto
  let ?x = "bytes_code (Key_Bytes x)" and ?tail = "concat (map (\<lambda>k. bytes_code (Key_Bytes k)) ks) @ rest"
  have "parse_keys j ((pre @ ?x) @ ?tail) (length (pre @ ?x)) (acc @ [Key_Bytes x]) =
      Some (op, param, nip, (acc @ [Key_Bytes x]) @ map Key_Bytes ks)"
    using Cons.prems j by (intro Cons.IH) (simp_all add: add.assoc)
  moreover have "decode_instr (pre @ ?x @ ?tail) (length pre) = Some (opPUSHDATA1, Key_Bytes x, length pre + length ?x)"
    using Cons.prems(1) by (intro decode_key_at) simp
  ultimately show ?case using j length_Key_Bytes [of x] Cons.prems(1) by simp
qed

lemma num_of_pushes:
  assumes "pushes_int op param (int n)" and "1 \<le> n" and "n \<le> MaxMultisigKeys"
  shows "getNumOfThingsFromInstr op param = Some n \<and> op \<noteq> opPUSHDATA1"
proof (cases "op \<le> opPUSHINT256")
  case True
  with assms show ?thesis
    by (auto simp: pushes_int_def getNumOfThingsFromInstr_def MaxMultisigKeys_def Let_def word_le_nat_alt)
next
  case False
  with assms(1) have "int (unat op) = int (16 + n)" "unat op \<le> 31" by (auto simp: pushes_int_def word_le_nat_alt)
  then have op: "unat op = 16 + n" "unat op \<le> 31" by (simp_all only: of_nat_eq_iff)
  with assms(2) have "opPUSH1 \<le> op" "op \<le> opPUSH16" by (simp_all add: word_le_nat_alt)
  moreover from this have "unat (op - opPUSH1) + 1 = n" using op assms(2) by (simp add: unat_sub word_le_nat_alt)
  ultimately show ?thesis using assms(2,3) op by (auto simp: getNumOfThingsFromInstr_def)
qed

definition multisig_code :: "(bytes \<Rightarrow> uint256) \<Rightarrow> nat \<Rightarrow> public_key list \<Rightarrow> bytes" where
  "multisig_code sha m ks = int_code (int m) @ concat (map (\<lambda>k. bytes_code (Key_Bytes k)) ks) @ int_code (int (length ks)) @
     opSYSCALL # put_le 4 (multisigInteropID sha)"

lemma fold_emit_keys:
  "fold (\<lambda>k. emit_Bytes (Key_Bytes k)) ks (writer_of a) = writer_of (a @ concat (map (\<lambda>k. bytes_code (Key_Bytes k)) ks))"
  by (induction ks arbitrary: a) (simp_all add: emit_Bytes_code)

lemma sint_small: "n < 2 ^ 63 \<Longrightarrow> sint (word_of_nat n :: int64) = int n"
proof -
  assume "n < 2 ^ 63"
  have "(word_of_nat n :: int64) = word_of_int (int n)" by simp
  then have "sint (word_of_nat n :: int64) = signed_take_bit 63 (int n)" by (simp only: sint_sbintrunc') simp
  also have "\<dots> = int n" using \<open>n < 2 ^ 63\<close> by (intro signed_take_bit_int_eq_self) simp_all
  finally show ?thesis .
qed

lemma Create_code:
  assumes "sort_keys keys = Some ks" and "1 \<le> m" and "m \<le> length keys" and "m \<le> 1024" and "length ks = length keys" and "length keys < 2 ^ 63"
  shows "CreateMultiSigRedeemScript sha (int m) keys = Inr (multisig_code sha m ks)"
proof -
  have "sint (word_of_int (int m) :: int64) = int m" "sint (word_of_nat (length ks) :: int64) = int (length ks)"
    using sint_small [of m] sint_small [of "length ks"] assms by simp_all
  with assms show ?thesis
    by (simp add: CreateMultiSigRedeemScript_def NewBufBinWriter_def emit_Int_code fold_emit_keys Syscall_code Writer_Bytes_def
        multisig_code_def multisigInteropID_def)
qed

lemma decode_syscall_at:
  "decode_instr (pre @ opSYSCALL # put_le 4 (x :: uint32)) (length pre) = Some (opSYSCALL, put_le 4 x, length pre + 5)"
proof -
  have "decode_instr ((opSYSCALL # put_le 4 x) @ []) 0 = Some (opSYSCALL, put_le 4 x, 5)"
    by (simp add: decode_instr_def opcode_valid param_size_def one_byte_ops_def four_byte_ops_def)
  from decode_instr_at [OF this, of pre] show ?thesis by simp
qed

lemma length_keys_code: "list_all finite_key ks \<Longrightarrow> length (concat (map (\<lambda>k. bytes_code (Key_Bytes k)) ks)) = 35 * length ks"
  by (induction ks) (simp_all add: bytes_code_def length_Key_Bytes)

lemma small_size: "n \<le> MaxMultisigKeys \<Longrightarrow> CheckIntegerSize (int n)"
  by (simp add: CheckIntegerSize_iff MaxMultisigKeys_def)

lemma length_int_code: "1 \<le> length (int_code n)"
  by (simp add: int_code_def Let_def)

lemma Parse_made:
  assumes ks: "list_all finite_key ks" and "1 \<le> m" and "m \<le> length ks" and "length ks \<le> MaxMultisigKeys"
  shows "ParseMultiSigContract sha (multisig_code sha m ks) = Some (m, map Key_Bytes ks)"
proof -
  define A where "A = int_code (int m)"
  define B where "B = concat (map (\<lambda>k. bytes_code (Key_Bytes k)) ks)"
  define C where "C = int_code (int (length ks))"
  define D where "D = opSYSCALL # put_le 4 (multisigInteropID sha)"
  have code: "multisig_code sha m ks = A @ B @ C @ D" by (simp add: multisig_code_def A_def B_def C_def D_def)
  have "35 \<le> length B" using length_keys_code [OF ks] assms(2,3) by (simp add: B_def)
  then have len: "\<not> length (A @ B @ C @ D) < 42"
    using length_int_code [of "int m"] length_int_code [of "int (length ks)"] by (simp add: A_def C_def D_def)
  obtain op1 p1 where d1: "decode_instr (A @ B @ C @ D) 0 = Some (op1, p1, length A)" "pushes_int op1 p1 (int m)"
    using decode_int_at [OF small_size, of m "[]" "B @ C @ D"] assms by (auto simp: A_def)
  obtain op2 p2 where d2: "decode_instr (A @ B @ C @ D) (length A + length B) = Some (op2, p2, length A + length B + length C)"
    "pushes_int op2 p2 (int (length ks))"
    using decode_int_at [OF small_size, of "length ks" "A @ B" D] assms by (auto simp: C_def)
  have n1: "getNumOfThingsFromInstr op1 p1 = Some m" using num_of_pushes [OF d1(2)] assms by simp
  have n2: "getNumOfThingsFromInstr op2 p2 = Some (length ks)" "op2 \<noteq> opPUSHDATA1" using num_of_pushes [OF d2(2)] assms by simp_all
  have keys: "parse_keys (MaxMultisigKeys + 1) (A @ B @ C @ D) (length A) [] =
      Some (op2, p2, length A + length B + length C, map Key_Bytes ks)"
    using parse_keys_made [OF ks, of "MaxMultisigKeys + 1" A "C @ D" op2 p2 _ "[]"] d2(1) n2(2) assms(4) by (simp add: B_def)
  have d3: "decode_instr (A @ B @ C @ D) (length A + length B + length C) =
      Some (opSYSCALL, put_le 4 (multisigInteropID sha), length (A @ B @ C @ D))"
    using decode_syscall_at [of "A @ B @ C"] by (simp add: D_def add.assoc)
  have d4: "decode_instr (A @ B @ C @ D) (length (A @ B @ C @ D)) = Some (opRET, [], length (A @ B @ C @ D))"
    by (simp add: decode_instr_def)
  have id: "get_le (put_le 4 (multisigInteropID sha)) = multisigInteropID sha" by (rule get_le_put_le) simp
  show ?thesis unfolding code ParseMultiSigContract_def
    using len d1(1) n1 keys n2(1) d3 d4 id assms(3) by (simp del: length_append append_assoc parse_keys.simps)
qed

lemma parse_keys_too_many:
  "list_all finite_key ks \<Longrightarrow> k \<le> length ks \<Longrightarrow>
    parse_keys k (pre @ concat (map (\<lambda>k. bytes_code (Key_Bytes k)) ks) @ rest) (length pre) acc = None"
proof (induction ks arbitrary: k pre acc)
  case (Cons x ks)
  let ?x = "bytes_code (Key_Bytes x)" and ?tail = "concat (map (\<lambda>k. bytes_code (Key_Bytes k)) ks) @ rest"
  show ?case
  proof (cases k)
    case (Suc j)
    have "parse_keys j ((pre @ ?x) @ ?tail) (length (pre @ ?x)) (acc @ [Key_Bytes x]) = None"
      using Cons.prems Suc by (intro Cons.IH) simp_all
    moreover have "decode_instr (pre @ ?x @ ?tail) (length pre) = Some (opPUSHDATA1, Key_Bytes x, length pre + length ?x)"
      using Cons.prems(1) by (intro decode_key_at) simp
    ultimately show ?thesis using Suc length_Key_Bytes [of x] Cons.prems(1) by simp
  qed simp
qed simp

lemma Parse_too_many:
  assumes "list_all finite_key ks" and "1 \<le> m" and "m \<le> 1024" and "MaxMultisigKeys < length ks"
  shows "ParseMultiSigContract sha (multisig_code sha m ks) = None"
proof -
  define rest where "rest = int_code (int (length ks)) @ opSYSCALL # put_le 4 (multisigInteropID sha)"
  let ?keys = "concat (map (\<lambda>k. bytes_code (Key_Bytes k)) ks)"
  have code: "multisig_code sha m ks = int_code (int m) @ ?keys @ rest" by (simp add: multisig_code_def rest_def)
  obtain op param where "decode_instr (int_code (int m) @ ?keys @ rest) 0 = Some (op, param, length (int_code (int m)))"
    using decode_int_at [OF small_size, of m "[]" "?keys @ rest"] assms(3) by (auto simp: MaxMultisigKeys_def)
  then show ?thesis
    using parse_keys_too_many [OF assms(1), of "MaxMultisigKeys + 1" "int_code (int m)" rest "[]"] assms(4)
    unfolding code ParseMultiSigContract_def by (simp del: parse_keys.simps split: Option.bind_split)
qed

text \<open>
  C36. Multi-signature scripts come back: for a threshold \<open>m\<close> and up to 1024 finite keys, \<^verbatim>\<open>CreateMultiSigRedeemScript\<close> makes a script from
  which \<^verbatim>\<open>ParseMultiSigContract\<close>, decoding it with the machine's \<^verbatim>\<open>Context.Next\<close>, reads \<open>m\<close> and the keys in sorted
  order. With more than 1024 keys the script is made as well, since the code limits the threshold instead of the number of
  keys, and is then not recognised as a multi-signature contract.
\<close>

theorem multisig_roundtrip:
  assumes "list_all finite_key keys" and "1 \<le> m" and "m \<le> length keys" and "m \<le> 1024" and "length keys < 2 ^ 63"
  shows "\<exists>ks code. mset ks = mset keys \<and> sorted_wrt key_le ks \<and> CreateMultiSigRedeemScript sha (int m) keys = Inr code \<and>
    ParseMultiSigContract sha code = (if length keys \<le> MaxMultisigKeys then Some (m, map Key_Bytes ks) else None)"
proof -
  obtain ks where ks: "sort_keys keys = Some ks" "mset ks = mset keys" "sorted_wrt key_le ks"
    using sort_keys_sorts [OF assms(1)] by blast
  have len: "length ks = length keys" and fin: "list_all finite_key ks"
    using mset_eq_length [OF ks(2)] mset_eq_setD [OF ks(2)] assms(1) by (auto simp: list_all_iff)
  have "CreateMultiSigRedeemScript sha (int m) keys = Inr (multisig_code sha m ks)"
    using assms len by (intro Create_code [OF ks(1)]) simp_all
  moreover have "ParseMultiSigContract sha (multisig_code sha m ks) =
      (if length keys \<le> MaxMultisigKeys then Some (m, map Key_Bytes ks) else None)"
    using Parse_made [OF fin assms(2), of sha] Parse_too_many [OF fin assms(2,4), of sha] assms(3) len by (auto simp: not_le)
  ultimately show ?thesis using ks by blast
qed

theorem multisig_roundtrip_witness:
  "\<exists>ks code. mset ks = mset [Point 7 1, Point 5 2] \<and> CreateMultiSigRedeemScript (\<lambda>_. 9) 2 [Point 7 1, Point 5 2] = Inr code \<and>
    ParseMultiSigContract (\<lambda>_. 9) code = Some (2, map Key_Bytes ks)"
  using multisig_roundtrip [of "[Point 7 1, Point 5 2]" 2 "\<lambda>_. 9"] by (simp add: MaxMultisigKeys_def) blast

text \<open>Single-signature scripts are recognised exactly, and so are those made for a key.\<close>

lemma ParseSignatureContract_exact:
  "ParseSignatureContract sha prog = Some kb \<longleftrightarrow>
    length kb = 33 \<and> prog = bytes_code kb @ opSYSCALL # put_le 4 (verifyInteropID sha)"
proof
  assume p: "ParseSignatureContract sha prog = Some kb"
  then have len: "length prog = 40" and b: "prog ! 0 = opPUSHDATA1" "prog ! 1 = 33" "prog ! 35 = opSYSCALL"
    and id: "get_le (drop 36 prog) = verifyInteropID sha" and kb: "kb = take 33 (drop 2 prog)"
    by (auto simp: ParseSignatureContract_def split: if_splits)
  have "drop 36 prog = put_le 4 (verifyInteropID sha)"
    unfolding id [symmetric] by (rule put_le_get_le [symmetric]) (simp_all add: len)
  moreover have "drop 35 prog = prog ! 35 # drop 36 prog"
    using id_take_nth_drop [of 35 prog] Cons_nth_drop_Suc [of 35 prog] len by (simp add: eval_nat_numeral)
  moreover have "drop 2 prog = kb @ drop 35 prog"
    unfolding kb using append_take_drop_id [of 33 "drop 2 prog"] by simp
  moreover have "prog = prog ! 0 # prog ! 1 # drop 2 prog"
    using Cons_nth_drop_Suc [of 0 prog] Cons_nth_drop_Suc [of 1 prog] len by (simp add: numeral_2_eq_2)
  ultimately have "prog = opPUSHDATA1 # 33 # kb @ opSYSCALL # put_le 4 (verifyInteropID sha)" using b by simp
  then show "length kb = 33 \<and> prog = bytes_code kb @ opSYSCALL # put_le 4 (verifyInteropID sha)" using len by (simp add: bytes_code_def kb)
next
  assume a: "length kb = 33 \<and> prog = bytes_code kb @ opSYSCALL # put_le 4 (verifyInteropID sha)"
  then have prog: "prog = opPUSHDATA1 # 33 # kb @ opSYSCALL # put_le 4 (verifyInteropID sha)" by (simp add: bytes_code_def)
  have id: "get_le (put_le 4 (verifyInteropID sha)) = verifyInteropID sha" by (rule get_le_put_le) simp
  show "ParseSignatureContract sha prog = Some kb"
    using a id by (simp add: ParseSignatureContract_def prog nth_append numeral_eq_Suc)
qed

lemma signature_script: "finite_key k \<Longrightarrow>
    \<exists>code. GetVerificationScript sha k = Some code \<and> ParseSignatureContract sha code = Some (Key_Bytes k)"
  using ParseSignatureContract_exact [of sha _ "Key_Bytes k"] length_Key_Bytes [of k]
  by (simp add: GetVerificationScript_def CheckSig_def NewBufBinWriter_def emit_Bytes_code Syscall_code Writer_Bytes_def verifyInteropID_def)

end
