(* ===== verification/Vm_Script.thy ===== *)
theory Vm_Script
  imports Vm_Contract Vm_Safety
begin

text \<open>
  \<^verbatim>\<open>IsScriptCorrect\<close> of \<^verbatim>\<open>pkg/vm/contract_checks.go\<close>, the check that a script must pass before it is deployed, over the
  bit fields of \<^verbatim>\<open>pkg/util/bitfield\<close>. It accepts exactly the scripts that decode from the start to the end
  and whose jumps go to instructions, and the machine never leaves the instructions of such a script.
\<close>

section \<open>Bit fields\<close>

type_synonym field = "uint64 list"

text \<open>Go divides towards zero, so that a field of no bits has one element.\<close>

definition Field_New :: "nat \<Rightarrow> field" where
  "Field_New n = replicate (if n = 0 then 1 else 1 + (n - 1) div 64) 0"

text \<open>\<open>None\<close> is the panic of an index out of range.\<close>

definition Field_Set :: "field \<Rightarrow> nat \<Rightarrow> field option" where
  "Field_Set f i = (let addr = i div 64; offset = i mod 64 in
     if addr < length f then Some (f[addr := f ! addr OR push_bit offset 1]) else None)"

definition Field_IsSet :: "field \<Rightarrow> nat \<Rightarrow> bool option" where
  "Field_IsSet f i = (let addr = i div 64; offset = i mod 64 in
     if addr < length f then Some (f ! addr AND push_bit offset 1 \<noteq> 0) else None)"

definition Field_IsSubset :: "field \<Rightarrow> field \<Rightarrow> bool" where
  "Field_IsSubset f g \<longleftrightarrow> length f \<le> length g \<and> list_all (\<lambda>i. f ! i AND g ! i = f ! i) [0..<length f]"

section \<open>The check\<close>

datatype script_err = ErrInstr | ErrOffset nat | ErrInvalidType nat | ErrAnyType nat | ErrJumps | ErrMethods | ScriptPanic

definition calcJumpOffset :: "bytes \<Rightarrow> nat \<Rightarrow> bytes \<Rightarrow> int option" where
  "calcJumpOffset prog ip param = do {
     rOffset \<leftarrow> (if length param = 1 then Some (sint (hd param))
                else if length param = 4 then Some (sint (get_le param :: uint32)) else None);
     let offset = int ip + rOffset in
     if offset < 0 \<or> offset > int (length prog) then None else Some offset }"

definition offset_ops :: "byte list" where
  "offset_ops = [opJMP, opJMPIF, opJMPIFNOT, opJMPEQ, opJMPNE, opJMPGT, opJMPGE, opJMPLT, opJMPLE, opCALL, opENDTRY, opJMPL,
     opJMPIFL, opJMPIFNOTL, opJMPEQL, opJMPNEL, opJMPGTL, opJMPGEL, opJMPLTL, opJMPLEL, opENDTRYL, opCALLL, opPUSHA]"

definition mark_jump :: "bytes \<Rightarrow> nat \<Rightarrow> bytes \<Rightarrow> field \<Rightarrow> script_err + field" where
  "mark_jump prog ip param jumps =
    (case calcJumpOffset prog ip param of
       None \<Rightarrow> Inl (ErrOffset ip)
     | Some off \<Rightarrow>
         if off \<noteq> int (length prog)
         then (case Field_Set jumps (nat off) of None \<Rightarrow> Inl ScriptPanic | Some jumps \<Rightarrow> Inr jumps)
         else Inr jumps)"

definition check_instr :: "bytes \<Rightarrow> nat \<Rightarrow> byte \<Rightarrow> bytes \<Rightarrow> field \<Rightarrow> script_err + field" where
  "check_instr prog ip op param jumps =
    (if op \<in> set offset_ops then mark_jump prog ip param jumps
     else if op = opTRY \<or> op = opTRYL then
       (let (catchP, finallyP) = getTryParams op param in
        case mark_jump prog ip catchP jumps of
          Inl e \<Rightarrow> Inl e
        | Inr jumps \<Rightarrow> mark_jump prog ip finallyP jumps)
     else if op \<in> {opNEWARRAYT, opISTYPE, opCONVERT} then
       (if \<not> Type_IsValid (hd param) then Inl (ErrInvalidType ip)
        else if hd param = AnyT \<and> op \<noteq> opNEWARRAYT then Inl (ErrAnyType ip)
        else Inr jumps)
     else Inr jumps)"

function scan_script :: "bytes \<Rightarrow> nat \<Rightarrow> field \<Rightarrow> field \<Rightarrow> script_err + field \<times> field" where
  "scan_script prog nextip instrs jumps =
    (if nextip \<ge> length prog then Inr (instrs, jumps)
     else case decode_instr prog nextip of
       None \<Rightarrow> Inl ErrInstr
     | Some (op, param, nip) \<Rightarrow>
         (case Field_Set instrs nextip of
            None \<Rightarrow> Inl ScriptPanic
          | Some instrs \<Rightarrow>
              (case check_instr prog nextip op param jumps of
                 Inl e \<Rightarrow> Inl e
               | Inr jumps \<Rightarrow> scan_script prog nip instrs jumps)))"
  by pat_completeness auto
termination
  by (relation "measure (\<lambda>(prog, nextip, _). length prog - nextip)") (auto dest!: decode_instr_after)

declare scan_script.simps [simp del]

definition IsScriptCorrect :: "bytes \<Rightarrow> field option \<Rightarrow> script_err option" where
  "IsScriptCorrect prog methods =
    (case scan_script prog 0 (Field_New (length prog)) (Field_New (length prog)) of
       Inl e \<Rightarrow> Some e
     | Inr (instrs, jumps) \<Rightarrow>
         if \<not> Field_IsSubset jumps instrs then Some ErrJumps
         else if case methods of None \<Rightarrow> False | Some m \<Rightarrow> \<not> Field_IsSubset m instrs then Some ErrMethods
         else None)"

section \<open>Fields as sets\<close>

definition bits_of :: "field \<Rightarrow> nat set" where
  "bits_of f = {i. i div 64 < length f \<and> bit (f ! (i div 64)) (i mod 64)}"

lemma bits_of_New [simp]: "bits_of (Field_New n) = {}"
  by (auto simp: bits_of_def Field_New_def)

lemma length_New: "length (Field_New n) = (if n = 0 then 1 else 1 + (n - 1) div 64)"
  by (simp add: Field_New_def)

lemma Field_Set_bits:
  assumes "i div 64 < length f"
  shows "\<exists>g. Field_Set f i = Some g \<and> length g = length f \<and> bits_of g = insert i (bits_of f)"
proof -
  let ?g = "f[i div 64 := f ! (i div 64) OR push_bit (i mod 64) 1]"
  have eq: "j = i" if "j div 64 = i div 64" "j mod 64 = i mod 64" for j using that by (metis div_mult_mod_eq)
  have "j \<in> bits_of ?g \<longleftrightarrow> j \<in> insert i (bits_of f)" for j
    using assms eq [of j] by (cases "j div 64 = i div 64") (auto simp: bits_of_def bit_or_iff push_bit_of_1 bit_exp_iff possible_bit_def)
  then have "bits_of ?g = insert i (bits_of f)" by blast
  then show ?thesis using assms by (simp add: Field_Set_def Let_def)
qed

lemma word_subset_iff: "a AND b = a \<longleftrightarrow> (\<forall>k<64. bit a k \<longrightarrow> bit b k)" for a b :: uint64
proof
  assume "a AND b = a"
  then show "\<forall>k<64. bit a k \<longrightarrow> bit b k" by (metis bit_and_iff)
qed (auto simp: bit_eq_iff bit_and_iff dest: bit_imp_le_length)

lemma Field_IsSubset_iff: "length f = length g \<Longrightarrow> Field_IsSubset f g \<longleftrightarrow> bits_of f \<subseteq> bits_of g"
proof -
  assume len: "length f = length g"
  have "Field_IsSubset f g \<longleftrightarrow> (\<forall>a<length f. \<forall>k<64. bit (f ! a) k \<longrightarrow> bit (g ! a) k)"
    using len by (auto simp: Field_IsSubset_def list_all_iff word_subset_iff)
  also have "\<dots> \<longleftrightarrow> bits_of f \<subseteq> bits_of g"
  proof (intro iffI subsetI allI impI)
    fix i assume all: "\<forall>a<length f. \<forall>k<64. bit (f ! a) k \<longrightarrow> bit (g ! a) k" and "i \<in> bits_of f"
    then show "i \<in> bits_of g" using len by (simp add: bits_of_def)
  next
    fix a k assume sub: "bits_of f \<subseteq> bits_of g" and a: "a < length f" and k: "k < 64" and b: "bit (f ! a) k"
    then have "64 * a + k \<in> bits_of f" by (simp add: bits_of_def)
    with sub have "64 * a + k \<in> bits_of g" by blast
    then show "bit (g ! a) k" using k by (simp add: bits_of_def)
  qed
  finally show ?thesis .
qed

section \<open>The instructions of a script\<close>

inductive boundary :: "bytes \<Rightarrow> nat \<Rightarrow> bool" for prog where
  boundary_start: "boundary prog 0"
| boundary_next: "boundary prog ip \<Longrightarrow> ip < length prog \<Longrightarrow> decode_instr prog ip = Some (op, param, nip) \<Longrightarrow> boundary prog nip"

definition instr_targets :: "bytes \<Rightarrow> nat \<Rightarrow> byte \<Rightarrow> bytes \<Rightarrow> int option list" where
  "instr_targets prog ip op param =
    (if op \<in> set offset_ops then [calcJumpOffset prog ip param]
     else if op = opTRY \<or> op = opTRYL
     then [calcJumpOffset prog ip (fst (getTryParams op param)), calcJumpOffset prog ip (snd (getTryParams op param))]
     else [])"

definition types_ok :: "byte \<Rightarrow> bytes \<Rightarrow> bool" where
  "types_ok op param \<longleftrightarrow> (op \<in> {opNEWARRAYT, opISTYPE, opCONVERT} \<longrightarrow>
     Type_IsValid (hd param) \<and> (hd param = AnyT \<longrightarrow> op = opNEWARRAYT))"

definition instr_ok :: "bytes \<Rightarrow> nat \<Rightarrow> bool" where
  "instr_ok prog ip \<longleftrightarrow> (case decode_instr prog ip of
     None \<Rightarrow> False
   | Some (op, param, nip) \<Rightarrow> types_ok op param \<and> None \<notin> set (instr_targets prog ip op param))"

definition target_bits :: "bytes \<Rightarrow> nat \<Rightarrow> byte \<Rightarrow> bytes \<Rightarrow> nat set" where
  "target_bits prog ip op param = {nat off |off. Some off \<in> set (instr_targets prog ip op param) \<and> off \<noteq> int (length prog)}"

text \<open>The offsets in a script that a jump from one of the offsets \<open>ips\<close> leads to.\<close>

definition jumps_from :: "bytes \<Rightarrow> nat set \<Rightarrow> nat set" where
  "jumps_from prog ips = (\<Union>ip\<in>ips. case decode_instr prog ip of None \<Rightarrow> {} | Some (op, param, nip) \<Rightarrow> target_bits prog ip op param)"

text \<open>The starts of the instructions, and what it means that the script can be run from any of them.\<close>

definition starts :: "bytes \<Rightarrow> nat set" where
  "starts prog = {ip. boundary prog ip \<and> ip < length prog}"

definition script_correct :: "bytes \<Rightarrow> bool" where
  "script_correct prog \<longleftrightarrow> (\<forall>ip\<in>starts prog. instr_ok prog ip) \<and> jumps_from prog (starts prog) \<subseteq> starts prog"

lemma calcJumpOffset_bounds: "calcJumpOffset prog ip param = Some off \<Longrightarrow> 0 \<le> off \<and> off \<le> int (length prog)"
  by (auto simp: calcJumpOffset_def Let_def split: if_splits Option.bind_splits)

definition fits_script :: "bytes \<Rightarrow> field \<Rightarrow> bool" where
  "fits_script prog f \<longleftrightarrow> length f = length (Field_New (length prog))"

lemma fits_index: "fits_script prog f \<Longrightarrow> i < length prog \<Longrightarrow> i div 64 < length f"
  by (auto simp: fits_script_def length_New div_le_mono less_Suc_eq_le)

lemma mark_jump_spec:
  assumes "fits_script prog f"
  shows "case calcJumpOffset prog ip param of
      None \<Rightarrow> \<exists>e. mark_jump prog ip param f = Inl e
    | Some off \<Rightarrow> \<exists>g. mark_jump prog ip param f = Inr g \<and> fits_script prog g \<and>
        bits_of g = bits_of f \<union> {nat off' |off'. off' = off \<and> off \<noteq> int (length prog)}"
proof (cases "calcJumpOffset prog ip param")
  case (Some off)
  show ?thesis
  proof (cases "off = int (length prog)")
    case False
    with calcJumpOffset_bounds [OF Some] have "nat off < length prog" by linarith
    from Field_Set_bits [OF fits_index [OF assms this]] obtain g where
      "Field_Set f (nat off) = Some g" "length g = length f" "bits_of g = insert (nat off) (bits_of f)" by blast
    with Some False assms show ?thesis by (auto simp: mark_jump_def fits_script_def)
  qed (use Some assms in \<open>simp add: mark_jump_def\<close>)
qed (simp add: mark_jump_def)

lemma check_instr_spec:
  assumes f: "fits_script prog f"
  shows "if types_ok op param \<and> None \<notin> set (instr_targets prog ip op param)
    then \<exists>g. check_instr prog ip op param f = Inr g \<and> fits_script prog g \<and> bits_of g = bits_of f \<union> target_bits prog ip op param
    else \<exists>e. check_instr prog ip op param f = Inl e"
proof -
  have disj: "op \<in> set offset_ops \<Longrightarrow> op \<notin> {opTRY, opTRYL, opNEWARRAYT, opISTYPE, opCONVERT}" by (auto simp: offset_ops_def)
  consider (jump) "op \<in> set offset_ops" | (handler) "op \<notin> set offset_ops" "op = opTRY \<or> op = opTRYL"
    | (other) "op \<notin> set offset_ops" "\<not> (op = opTRY \<or> op = opTRYL)" by blast
  then show ?thesis
  proof cases
    case jump
    then have "types_ok op param" using disj by (auto simp: types_ok_def)
    with jump mark_jump_spec [OF f, of ip param] show ?thesis
      by (cases "calcJumpOffset prog ip param") (auto simp: check_instr_def instr_targets_def target_bits_def)
  next
    case handler
    obtain p q where pq: "getTryParams op param = (p, q)" by fastforce
    have "types_ok op param" using handler by (auto simp: types_ok_def)
    note m1 = mark_jump_spec [OF f, of ip p]
    show ?thesis
    proof (cases "calcJumpOffset prog ip p")
      case None
      with m1 handler pq show ?thesis by (auto simp: check_instr_def instr_targets_def)
    next
      case (Some o1)
      with m1 obtain g where g: "mark_jump prog ip p f = Inr g" "fits_script prog g"
        "bits_of g = bits_of f \<union> {nat off' |off'. off' = o1 \<and> o1 \<noteq> int (length prog)}" by auto
      from mark_jump_spec [OF g(2), of ip q] g Some handler pq \<open>types_ok op param\<close> show ?thesis
        by (cases "calcJumpOffset prog ip q") (auto simp: check_instr_def instr_targets_def target_bits_def)
    qed
  next
    case other
    with f show ?thesis by (auto simp: check_instr_def instr_targets_def target_bits_def types_ok_def)
  qed
qed

section \<open>The scan\<close>

inductive reaches :: "bytes \<Rightarrow> nat \<Rightarrow> nat \<Rightarrow> bool" for prog where
  reaches_refl: "reaches prog a a"
| reaches_step: "a < length prog \<Longrightarrow> decode_instr prog a = Some (op, param, nip) \<Longrightarrow> reaches prog nip b \<Longrightarrow> reaches prog a b"

lemma reaches_snoc:
  "reaches prog a b \<Longrightarrow> b < length prog \<Longrightarrow> decode_instr prog b = Some (op, param, nip) \<Longrightarrow> reaches prog a nip"
  by (induction rule: reaches.induct) (auto intro: reaches.intros)

lemma boundary_reaches: "boundary prog b \<longleftrightarrow> reaches prog 0 b"
proof
  assume "boundary prog b"
  then show "reaches prog 0 b" by (induction rule: boundary.induct) (auto intro: reaches_refl reaches_snoc)
next
  have "reaches prog a b \<Longrightarrow> boundary prog a \<Longrightarrow> boundary prog b" for a
    by (induction rule: reaches.induct) (auto intro: boundary_next)
  then show "reaches prog 0 b \<Longrightarrow> boundary prog b" using boundary_start by blast
qed

lemma reaches_unfold: "reaches prog a b \<longleftrightarrow> b = a \<or> (a < length prog \<and> (\<exists>op param nip. decode_instr prog a = Some (op, param, nip) \<and> reaches prog nip b))"
  by (auto elim: reaches.cases intro: reaches.intros)

definition visited :: "bytes \<Rightarrow> nat \<Rightarrow> nat set" where
  "visited prog a = {b. reaches prog a b \<and> b < length prog}"

lemma visited_end: "length prog \<le> a \<Longrightarrow> visited prog a = {}"
  using reaches_unfold [of prog a] by (auto simp: visited_def)

lemma visited_step: "a < length prog \<Longrightarrow> decode_instr prog a = Some (op, param, nip) \<Longrightarrow> visited prog a = insert a (visited prog nip)"
  using reaches_unfold [of prog a] by (auto simp: visited_def)

lemma jumps_from_insert:
  "decode_instr prog a = Some (op, param, nip) \<Longrightarrow> jumps_from prog (insert a A) = target_bits prog a op param \<union> jumps_from prog A"
  by (simp add: jumps_from_def)

lemma scan_script_spec:
  assumes "fits_script prog I" and "fits_script prog J"
  shows "if \<forall>b\<in>visited prog a. instr_ok prog b
    then \<exists>I' J'. scan_script prog a I J = Inr (I', J') \<and> fits_script prog I' \<and> fits_script prog J' \<and>
      bits_of I' = bits_of I \<union> visited prog a \<and> bits_of J' = bits_of J \<union> jumps_from prog (visited prog a)
    else \<exists>e. scan_script prog a I J = Inl e"
  using assms
proof (induction prog a I J rule: scan_script.induct)
  case (1 prog a I J)
  show ?case
  proof (cases "length prog \<le> a")
    case True
    then show ?thesis using 1(2,3) visited_end [OF True] by (simp add: scan_script.simps [of prog a] jumps_from_def)
  next
    case False
    show ?thesis
    proof (cases "decode_instr prog a")
      case None
      then have "\<not> instr_ok prog a" by (simp add: instr_ok_def)
      moreover have "a \<in> visited prog a" using False by (simp add: visited_def reaches_refl)
      ultimately show ?thesis using None False by (auto simp: scan_script.simps [of prog a])
    next
      case (Some ins)
      then obtain op param nip where d: "decode_instr prog a = Some (op, param, nip)" by (cases ins) auto
      have vis: "visited prog a = insert a (visited prog nip)" using False d by (intro visited_step) simp_all
      have ok: "instr_ok prog a \<longleftrightarrow> types_ok op param \<and> None \<notin> set (instr_targets prog a op param)" by (simp add: instr_ok_def d)
      obtain I1 where I1: "Field_Set I a = Some I1" "fits_script prog I1" "bits_of I1 = insert a (bits_of I)"
        using Field_Set_bits [OF fits_index [OF 1(2)], of a] False 1(2) by (auto simp: fits_script_def)
      note ck = check_instr_spec [OF 1(3), of op param a]
      show ?thesis
      proof (cases "instr_ok prog a")
        case False2: False
        with ck ok obtain e where "check_instr prog a op param J = Inl e" by auto
        with False2 False d I1(1) show ?thesis unfolding vis by (simp add: scan_script.simps [of prog a])
      next
        case True
        with ck ok obtain J1 where J1: "check_instr prog a op param J = Inr J1" "fits_script prog J1"
          "bits_of J1 = bits_of J \<union> target_bits prog a op param" by auto
        have sc: "scan_script prog a I J = scan_script prog nip I1 J1" using False d I1(1) J1(1) by (simp add: scan_script.simps [of prog a])
        from 1(1) [OF False d refl refl I1(1) J1(1) I1(2) J1(2)] show ?thesis
          unfolding sc vis jumps_from_insert [OF d] using True I1(3) J1(3) by (auto split: if_splits)
      qed
    qed
  qed
qed

lemma IsScriptCorrect_iff:
  assumes "\<forall>m. methods = Some m \<longrightarrow> length m = length (Field_New (length prog))"
  shows "IsScriptCorrect prog methods = None \<longleftrightarrow> script_correct prog \<and> (\<forall>m. methods = Some m \<longrightarrow> bits_of m \<subseteq> starts prog)"
proof -
  let ?F = "Field_New (length prog)"
  have new: "fits_script prog ?F" by (simp add: fits_script_def)
  have vis: "visited prog 0 = starts prog" by (simp add: visited_def starts_def boundary_reaches)
  show ?thesis
  proof (cases "\<forall>b\<in>starts prog. instr_ok prog b")
    case True
    then obtain I J where sc: "scan_script prog 0 ?F ?F = Inr (I, J)" "fits_script prog I" "fits_script prog J"
      "bits_of I = starts prog" "bits_of J = jumps_from prog (starts prog)"
      using scan_script_spec [OF new new, of 0] unfolding vis by auto
    have len: "length J = length I" "\<forall>m. methods = Some m \<longrightarrow> length m = length I"
      using sc(2,3) assms by (simp_all add: fits_script_def)
    show ?thesis using Field_IsSubset_iff [OF len(1)] Field_IsSubset_iff [of _ I] len(2) True sc
      by (cases methods) (simp_all add: IsScriptCorrect_def script_correct_def)
  next
    case False
    then obtain e where "scan_script prog 0 ?F ?F = Inl e" using scan_script_spec [OF new new, of 0]
      unfolding vis by (simp only: if_not_P [OF False] if_False) blast
    with False show ?thesis by (auto simp: IsScriptCorrect_def script_correct_def)
  qed
qed

lemma IsScriptCorrect_None: "IsScriptCorrect prog None = None \<longleftrightarrow> script_correct prog"
  using IsScriptCorrect_iff [of None prog] by simp

text \<open>
  C35. \<^verbatim>\<open>IsScriptCorrect\<close> accepts a script exactly when every instruction from the start on decodes, with valid type
  operands, when every jump, call and handler offset is inside the script and leads to the start of an instruction or to
  the end, and when the method offsets marked in a mask made for the script are starts of instructions as well.
\<close>

theorem IsScriptCorrect_exact:
  assumes "\<forall>m. methods = Some m \<longrightarrow> length m = length (Field_New (length prog))"
  shows "IsScriptCorrect prog methods = None \<longleftrightarrow>
    (\<forall>ip\<in>starts prog. instr_ok prog ip) \<and> jumps_from prog (starts prog) \<subseteq> starts prog \<and>
    (\<forall>m. methods = Some m \<longrightarrow> bits_of m \<subseteq> starts prog)"
  using IsScriptCorrect_iff [OF assms] by (simp add: script_correct_def)

theorem IsScriptCorrect_exact_witness:
  "jumps_from [opNOP, opJMP, 0xFF] (starts [opNOP, opJMP, 0xFF]) \<subseteq> starts [opNOP, opJMP, 0xFF]"
proof -
  let ?p = "[opNOP, opJMP, 0xFF]"
  have v: "opcode_IsValid opJMP" "opcode_IsValid opNOP"
    unfolding opcode_IsValid_def opcodes_def by (simp_all only: list.set insert_iff simp_thms)
  have d: "decode_instr ?p 0 = Some (opNOP, [], 1)" "decode_instr ?p 1 = Some (opJMP, [0xFF], 3)"
    using v by (simp_all add: decode_instr_def param_size_def one_byte_ops_def four_byte_ops_def)
  have "IsScriptCorrect ?p None = None"
    by (simp add: IsScriptCorrect_def scan_script.simps [of ?p] d d(2) [unfolded One_nat_def] Field_New_def Field_Set_def check_instr_def mark_jump_def
        offset_ops_def calcJumpOffset_def Field_IsSubset_def Let_def)
  then show ?thesis using IsScriptCorrect_exact [of None ?p] by simp
qed

end
