(* ===== verification/Vm_Flow.thy ===== *)
theory Vm_Flow
  imports Vm_Script
begin

text \<open>
  Control flow of checked scripts: a context that runs a script accepted by \<^verbatim>\<open>IsScriptCorrect\<close> is always at the start of one
  of its instructions or at its end, and so are its handlers. Jumps, calls, handlers, exceptions and returns
  keep this; calls through pointers and of the host are left out.
\<close>

section \<open>Landing places\<close>

definition landing :: "bytes \<Rightarrow> nat \<Rightarrow> bool" where
  "landing prog n \<longleftrightarrow> n \<in> starts prog \<or> n = length prog"

definition flow_ctx :: "bytes list \<Rightarrow> vm_context \<Rightarrow> bool" where
  "flow_ctx ps c \<longleftrightarrow> (cx_sc c < length ps \<and> script_correct (ps ! cx_sc c) \<longrightarrow>
     landing (ps ! cx_sc c) (cx_nextip c) \<and>
     (\<forall>e\<in>set (cx_tryStack c). \<forall>off\<in>{eh_CatchOffset e, eh_FinallyOffset e, eh_EndOffset e}.
       0 \<le> off \<longrightarrow> landing (ps ! cx_sc c) (nat off)))"

definition flow_ok :: "vm \<Rightarrow> bool" where
  "flow_ok v \<longleftrightarrow> (\<forall>c\<in>set (vm_istack v). flow_ctx (progs v) c)"

text \<open>An offset the current context may continue at.\<close>

definition good :: "vm \<Rightarrow> int \<Rightarrow> bool" where
  "good u p \<longleftrightarrow> (\<forall>c. cur u = Some c \<longrightarrow> cx_sc c < length (progs u) \<longrightarrow> script_correct (progs u ! cx_sc c) \<longrightarrow> 0 \<le> p \<longrightarrow>
     landing (progs u ! cx_sc c) (nat p))"

lemma flow_cong: "vm_istack u = vm_istack v \<Longrightarrow> progs u = progs v \<Longrightarrow> flow_ok v \<Longrightarrow> flow_ok u"
  by (simp add: flow_ok_def)

lemma flow_view: "(vm_istack u, vm_scs u) = (vm_istack v, vm_scs v) \<Longrightarrow> flow_ok v \<Longrightarrow> flow_ok u"
  by (rule flow_cong) (simp_all add: progs_def)

lemma good_view: "(vm_istack u, vm_scs u) = (vm_istack v, vm_scs v) \<Longrightarrow> good v p \<Longrightarrow> good u p"
  by (simp add: good_def cur_def progs_def)

lemma script_progs_flow: "script v c = Some sc \<Longrightarrow> cx_sc c < length (progs v) \<and> sc_prog sc = progs v ! cx_sc c"
  by (auto simp: script_def progs_def split: if_splits)

lemma cur_in: "cur v = Some c \<Longrightarrow> c \<in> set (vm_istack v) \<and> vm_istack v = c # tl (vm_istack v)"
  by (auto simp: cur_def split: list.splits)

lemma getJumpOffset_view: "(vm_istack u, vm_scs u) = (vm_istack v, vm_scs v) \<Longrightarrow> getJumpOffset u p = getJumpOffset v p"
proof -
  assume "(vm_istack u, vm_scs u) = (vm_istack v, vm_scs v)"
  then have "cur u = cur v" "script u = script v" by (simp_all add: cur_def script_def fun_eq_iff)
  then show ?thesis by (simp only: getJumpOffset_def)
qed

lemma flow_set_cur:
  assumes "flow_ok v" and "cur v = Some c" and "flow_ctx (progs v) c \<Longrightarrow> flow_ctx (progs v) c'"
  shows "flow_ok (set_cur c' v)"
proof -
  have "progs (set_cur c' v) = progs v" by (simp add: progs_def set_cur_def)
  moreover have "set (tl (vm_istack v)) \<subseteq> set (vm_istack v)" by (cases "vm_istack v") auto
  ultimately show ?thesis using assms cur_in [OF assms(2)] by (auto simp: flow_ok_def set_cur_def)
qed

section \<open>Decoding\<close>

lemma landing_next:
  assumes "landing prog ip" and "decode_instr prog ip = Some (op, param, nip)"
  shows "landing prog nip"
proof (cases "ip < length prog")
  case True
  with assms have "boundary prog ip" by (auto simp: landing_def starts_def)
  then have "boundary prog nip" using True assms(2) by (rule boundary_next)
  with decode_instr_after [OF assms(2) True] show ?thesis by (auto simp: landing_def starts_def)
next
  case False
  with assms show ?thesis by (simp add: decode_instr_def landing_def)
qed

lemma landing_target:
  assumes "script_correct prog" and "landing prog ip" and "ip < length prog" and d: "decode_instr prog ip = Some (op, param, nip)"
    and "Some off \<in> set (instr_targets prog ip op param)"
  shows "landing prog (nat off)"
proof (cases "off = int (length prog)")
  case False
  have ip: "ip \<in> starts prog" using assms(2,3) by (simp add: landing_def)
  have "nat off \<in> target_bits prog ip op param" using assms(5) False by (auto simp: target_bits_def)
  then have "nat off \<in> jumps_from prog (starts prog)" using ip d by (auto simp: jumps_from_def intro!: bexI [of _ ip])
  with assms(1) show ?thesis by (auto simp: script_correct_def landing_def)
qed (simp add: landing_def)

text \<open>The parameters from which an instruction computes offsets.\<close>

definition offset_params :: "byte \<Rightarrow> bytes \<Rightarrow> bytes set" where
  "offset_params op param =
    (if op \<in> set offset_ops then {param}
     else if op = opTRY \<or> op = opTRYL then {fst (getTryParams op param), snd (getTryParams op param)} else {})"

lemma Next_flow:
  assumes "Next v = Some (op, param, u)" and "flow_ok v"
  shows "flow_ok u" and "p \<in> offset_params op param \<Longrightarrow> getJumpOffset u p = Some off \<Longrightarrow> good u off"
proof -
  from assms(1) obtain c sc nip where c: "cur v = Some c" and sc: "script v c = Some sc"
    and d: "decode_instr (sc_prog sc) (cx_nextip c) = Some (op, param, nip)"
    and u: "u = set_cur (c\<lparr>cx_ip := cx_nextip c, cx_nextip := nip\<rparr>) v"
    by (auto simp: Next_decode split: Option.bind_splits)
  note pr = script_progs_flow [OF sc]
  show "flow_ok u" unfolding u
    by (rule flow_set_cur [OF assms(2) c]) (use d pr landing_next in \<open>auto simp: flow_ctx_def\<close>)
  assume p: "p \<in> offset_params op param" and off: "getJumpOffset u p = Some off"
  have cu: "cur u = Some (c\<lparr>cx_ip := cx_nextip c, cx_nextip := nip\<rparr>)" "progs u = progs v" "vm_scs u = vm_scs v"
    by (simp_all add: u cur_def set_cur_def progs_def)
  have calc: "calcJumpOffset (sc_prog sc) (cx_nextip c) p = Some off"
    using off cu sc by (simp add: getJumpOffset_def calcJumpOffset_def script_def Let_def split: if_splits)
  have lt: "cx_nextip c < length (sc_prog sc)"
  proof (rule ccontr)
    assume "\<not> ?thesis"
    with d have "op = opRET" by (simp add: decode_instr_def)
    with p show False by (simp add: offset_params_def offset_ops_def)
  qed
  have "Some off \<in> set (instr_targets (sc_prog sc) (cx_nextip c) op param)"
    using p calc by (auto simp: offset_params_def instr_targets_def split: if_splits)
  moreover have "flow_ctx (progs v) c" using assms(2) cur_in [OF c] by (simp add: flow_ok_def)
  ultimately show "good u off" unfolding good_def using cu pr d lt landing_target by (auto simp: flow_ctx_def)
qed

section \<open>Jumps and handlers\<close>

lemma Jump_flow: "Jump p v = Some v' \<Longrightarrow> flow_ok v \<Longrightarrow> good v p \<Longrightarrow> flow_ok v'"
  by (auto simp: Jump_def good_def flow_ctx_def intro!: flow_set_cur dest!: script_progs_flow split: Option.bind_splits if_splits)

lemma jump_flow:
  assumes "execute_jump op param u = Some v'" and "flow_ok u" and "\<And>off. getJumpOffset u param = Some off \<Longrightarrow> good u off"
  shows "flow_ok v'"
proof -
  from assms(1) obtain off b w where off: "getJumpOffset u param = Some off" and w: "jump_taken op u = Some (b, w)"
    and v': "(if b then Jump off w else Some w) = Some v'" by (auto simp: execute_jump_def split: Option.bind_splits)
  note view = code.view_jump_taken [OF w]
  show ?thesis using v' Jump_flow [of off w v'] flow_view [OF view assms(2)] good_view [OF view assms(3) [OF off]] by (auto split: if_splits)
qed

lemma call_flow:
  assumes "call c p u = Some v'" and "flow_ok u" and "cur u = Some c" and "good u p"
  shows "flow_ok v'"
proof -
  let ?c = "\<lparr>cx_ip = 0, cx_nextip = 0, cx_sc = cx_sc c, cx_local = None, cx_arguments = None, cx_tryStack = [], cx_retCount = -1\<rparr>"
  have sc: "0 \<le> p \<and> v' = u\<lparr>vm_istack := ?c\<lparr>cx_nextip := nat p\<rparr> # vm_istack u\<rparr>"
    using assms(1) by (auto simp: call_def Jump_def cur_def set_cur_def split: if_splits Option.bind_splits)
  have "progs v' = progs u" using sc by (simp add: progs_def)
  then show ?thesis using sc assms(2-4) by (auto simp: flow_ok_def flow_ctx_def good_def)
qed

lemma calls_flow:
  assumes "execute_call H op param u = Some v'" and "op = opCALL \<or> op = opCALLL" and "flow_ok u"
    and "\<And>off. getJumpOffset u param = Some off \<Longrightarrow> good u off"
  shows "flow_ok v'"
  using assms call_flow by (auto simp: execute_call_def split: Option.bind_splits if_splits)

lemma good_minus [simp]: "good u (-1)"
  by (simp add: good_def)

lemma try_flow:
  assumes ex: "execute_try op param u = Some v'" and "flow_ok u"
    and good: "\<And>p off. p \<in> {fst (getTryParams op param), snd (getTryParams op param)} \<Longrightarrow> getJumpOffset u p = Some off \<Longrightarrow> good u off"
  shows "flow_ok v'"
proof -
  obtain p q where pq: "getTryParams op param = (p, q)" by fastforce
  from ex pq obtain c co fo where c: "cur u = Some c" and co: "getJumpOffset u p = Some co" and fo: "getJumpOffset u q = Some fo"
    and "Some v' = (let ip = int (cx_ip c) in if co = ip \<and> fo = ip then None else
      let (cOffset, fOffset) = (if co = ip then (-1, fo) else if fo = ip then (co, -1) else (co, fo));
          e = \<lparr>eh_CatchOffset = cOffset, eh_FinallyOffset = fOffset, eh_EndOffset = -1, eh_State = ETry\<rparr>
      in Some (set_cur (c\<lparr>cx_tryStack := e # cx_tryStack c\<rparr>) u))"
    by (auto simp: execute_try_def split: if_splits Option.bind_splits)
  then obtain a b where ab: "a \<in> {co, -1}" "b \<in> {fo, -1}" and
    v': "v' = set_cur (c\<lparr>cx_tryStack := \<lparr>eh_CatchOffset = a, eh_FinallyOffset = b, eh_EndOffset = -1, eh_State = ETry\<rparr> # cx_tryStack c\<rparr>) u"
    by (auto simp: Let_def split: if_splits)
  have g: "good u a" "good u b" using ab good [of p, OF _ co] good [of q, OF _ fo] pq by auto
  show ?thesis unfolding v'
    by (rule flow_set_cur [OF assms(2) c]) (use g c in \<open>auto simp: flow_ctx_def good_def\<close>)
qed

text \<open>The offsets of a handler of the current context are good.\<close>

lemma handler_good:
  assumes "flow_ok v" and "cur v = Some c" and "e \<in> set (cx_tryStack c)" and "off \<in> {eh_CatchOffset e, eh_FinallyOffset e, eh_EndOffset e}"
  shows "good v off"
proof -
  have "flow_ctx (progs v) c" using assms(1) cur_in [OF assms(2)] by (simp add: flow_ok_def)
  with assms(2-4) show ?thesis by (auto simp: good_def flow_ctx_def)
qed

lemma good_set_cur: "cur v = Some c \<Longrightarrow> cx_sc c' = cx_sc c \<Longrightarrow> good v p \<Longrightarrow> good (set_cur c' v) p"
  by (simp add: good_def cur_def set_cur_def progs_def)

lemma endtry_flow:
  assumes ex: "execute_endtry param u = Some v'" and u: "flow_ok u" and good: "\<And>off. getJumpOffset u param = Some off \<Longrightarrow> good u off"
  shows "flow_ok v'"
proof -
  from ex obtain c e es off where c: "cur u = Some c" and es: "cx_tryStack c = e # es" and off: "getJumpOffset u param = Some off"
    and v': "(if HasFinally e then Jump (eh_FinallyOffset e) (set_cur (c\<lparr>cx_tryStack := e\<lparr>eh_State := EFinally, eh_EndOffset := off\<rparr> # es\<rparr>) u)
       else Jump off (set_cur (c\<lparr>cx_tryStack := es\<rparr>) u)) = Some v'"
    by (auto simp: execute_endtry_def split: Option.bind_splits list.splits if_splits)
  have g: "good u off" by (rule good [OF off])
  have f: "good u (eh_FinallyOffset e)" using handler_good [OF u c] es by auto
  have "flow_ok (set_cur (c\<lparr>cx_tryStack := e\<lparr>eh_State := EFinally, eh_EndOffset := off\<rparr> # es\<rparr>) u)"
    by (rule flow_set_cur [OF u c]) (use g c es in \<open>auto simp: flow_ctx_def good_def\<close>)
  moreover have "flow_ok (set_cur (c\<lparr>cx_tryStack := es\<rparr>) u)"
    by (rule flow_set_cur [OF u c]) (use es in \<open>auto simp: flow_ctx_def\<close>)
  ultimately show ?thesis using v' f g good_set_cur [OF c] by (auto dest: Jump_flow split: if_splits)
qed

lemma flow_drop: "flow_ok v \<Longrightarrow> vm_istack u = drop n (vm_istack v) \<Longrightarrow> vm_scs u = vm_scs v \<Longrightarrow> flow_ok u"
  by (auto simp: flow_ok_def progs_def dest: in_set_dropD)

lemma enter_handler_flow:
  assumes "enter_handler ex v = Some v'" and v: "flow_ok v"
  shows "flow_ok v'"
proof -
  from assms(1) obtain c sc e es where c: "cur v = Some c" and sc: "script v c = Some sc" and es: "dropWhile spent (cx_tryStack c) = e # es"
    by (auto simp: enter_handler_def split: Option.bind_splits list.splits)
  have mem: "set (e # es) \<subseteq> set (cx_tryStack c)" by (metis es set_dropWhileD subsetI)
  let ?c = "\<lambda>st. c\<lparr>cx_tryStack := e\<lparr>eh_State := st\<rparr> # es\<rparr>" and ?v = "v\<lparr>vm_estack := sc_estack sc\<rparr>"
  have v2: "flow_ok ?v" "cur ?v = Some c" using flow_view [of ?v v] v c by (simp_all add: cur_def)
  have set: "flow_ok (set_cur (?c st) ?v)" for st
    by (rule flow_set_cur [OF v2]) (use mem in \<open>auto simp: flow_ctx_def\<close>)
  have good: "good (set_cur (?c st) ?v) off" if "off \<in> {eh_CatchOffset e, eh_FinallyOffset e}" for st off
    using that mem by (intro good_set_cur [OF v2(2)] handler_good [OF v2, of e]) auto
  let ?w = "(PushItem ex (set_cur (?c ECatch) ?v))\<lparr>vm_uncaughtException := None\<rparr>"
  have view: "(vm_istack ?w, vm_scs ?w) = (vm_istack (set_cur (?c ECatch) ?v), vm_scs (set_cur (?c ECatch) ?v))" by simp
  show ?thesis
  proof (cases "eh_State e = ETry \<and> HasCatch e")
    case True
    then have "enter_handler ex v = Jump (eh_CatchOffset e) ?w" using c sc es by (simp add: enter_handler_def Let_def)
    with assms(1) have "Jump (eh_CatchOffset e) ?w = Some v'" by simp
    then show ?thesis by (rule Jump_flow [OF _ flow_view [OF view set] good_view [OF view good]]) simp
  next
    case False
    then have "enter_handler ex v = Jump (eh_FinallyOffset e) (set_cur (?c EFinally) ?v)" using c sc es by (auto simp: enter_handler_def Let_def)
    with assms(1) have "Jump (eh_FinallyOffset e) (set_cur (?c EFinally) ?v) = Some v'" by simp
    then show ?thesis by (rule Jump_flow [OF _ set good]) simp
  qed
qed

lemma throw_flow:
  assumes "unload_keeps_code H" and "flow_ok v"
  shows "handleException H v = Some v' \<Longrightarrow> flow_ok v'" and "throw H ex v = Some v' \<Longrightarrow> flow_ok v'"
proof -
  have handle: "flow_ok v'" if h: "handleException H u = Some v'" and u: "flow_ok u" for u
  proof -
    from h obtain ex n w where w: "unload_top H n u = Some w" and e: "enter_handler ex w = Some v'"
      by (auto simp: handleException_def split: Option.bind_splits)
    have "flow_ok w" using unload_top_keeps [OF w assms(1)] by (intro flow_drop [OF u, of w n]) simp_all
    then show ?thesis by (rule enter_handler_flow [OF e])
  qed
  show "handleException H v = Some v' \<Longrightarrow> flow_ok v'" using handle assms(2) by blast
  have "flow_ok (v\<lparr>vm_uncaughtException := Some ex\<rparr>)" by (rule flow_view [OF _ assms(2)]) simp
  with handle show "throw H ex v = Some v' \<Longrightarrow> flow_ok v'" by (simp add: throw_def)
qed

lemma endfinally_flow:
  assumes "execute_endfinally H v = Some v'" and "unload_keeps_code H" and v: "flow_ok v"
  shows "flow_ok v'"
proof (cases "vm_uncaughtException v = None")
  case True
  with assms(1) obtain c e es where c: "cur v = Some c" and es: "cx_tryStack c = e # es"
    and j: "Jump (eh_EndOffset e) (set_cur (c\<lparr>cx_tryStack := es\<rparr>) v) = Some v'"
    by (auto simp: execute_endfinally_def split: Option.bind_splits list.splits)
  have "flow_ok (set_cur (c\<lparr>cx_tryStack := es\<rparr>) v)" by (rule flow_set_cur [OF v c]) (use es in \<open>auto simp: flow_ctx_def\<close>)
  moreover have "good (set_cur (c\<lparr>cx_tryStack := es\<rparr>) v) (eh_EndOffset e)"
    using es by (intro good_set_cur [OF c] handler_good [OF v c, of e]) auto
  ultimately show ?thesis by (rule Jump_flow [OF j])
next
  case False
  with assms show ?thesis by (auto simp: execute_endfinally_def intro: throw_flow(1))
qed

lemma ret_flow:
  assumes "execute_ret H v = Some v'" and H: "unload_keeps_code H" and v: "flow_ok v"
  shows "flow_ok v'"
proof -
  from assms(1) obtain c cs u where cs: "vm_istack v = c # cs" and u: "unloadContext H c (v\<lparr>vm_istack := cs\<rparr>) = Some u"
    and view: "(vm_istack v', vm_scs v') = (vm_istack u, vm_scs u)"
    by (auto simp: execute_ret_def Let_def split: list.splits Option.bind_splits if_splits dest!: code.view_move_results)
  have "flow_ok u" using unloadContext_keeps [OF u H] cs by (intro flow_drop [OF v, of u 1]) simp_all
  then show ?thesis by (rule flow_view [OF view])
qed

section \<open>All instructions\<close>

lemma flow_set_slots:
  assumes "cur v = Some c" and "flow_ok v" and view: "(vm_istack w, vm_scs w) = (vm_istack v, vm_scs v)"
    and "cx_sc c' = cx_sc c" "cx_nextip c' = cx_nextip c" "cx_tryStack c' = cx_tryStack c"
  shows "flow_ok (set_cur c' w)"
  using assms by (intro flow_set_cur [OF flow_view [OF view]]) (auto simp: cur_def flow_ctx_def)

lemma flow_set_static:
  assumes "script v c = Some sc" and v: "flow_ok v" and view: "(vm_istack w, vm_scs w) = (vm_istack v, vm_scs v)"
  shows "flow_ok (set_script (cx_sc c) (sc\<lparr>sc_static := s\<rparr>) w)"
proof -
  have "progs (set_script (cx_sc c) (sc\<lparr>sc_static := s\<rparr>) w) = progs v"
    using assms(1) view by (auto simp: progs_def set_script_def script_def map_update split: if_splits)
      (metis length_map list_update_id map_update nth_map)
  with v view show ?thesis by (simp add: flow_ok_def set_script_def)
qed

lemma initslot_flow:
  assumes "execute_initslot param v = Some v'" and "flow_ok v"
  shows "flow_ok v'"
proof -
  from assms(1) obtain c loc u args w where c: "cur v = Some c" and v': "v' = set_cur (c\<lparr>cx_local := loc, cx_arguments := args\<rparr>) w"
    and l: "(if unat (param ! 0) > 0 then slot_init None (unat (param ! 0)) v else Some (None, v)) = Some (loc, u)"
    and a: "(if unat (param ! 1) > 0 then do { (s, v) \<leftarrow> slot_init None (unat (param ! 1)) u; fill_arguments 0 (unat (param ! 1)) s v }
        else Some (None, u)) = Some (args, w)"
    by (auto simp: execute_initslot_def Let_def split: if_splits Option.bind_splits)
  have u: "(vm_istack u, vm_scs u) = (vm_istack v, vm_scs v)"
    using l code.view_slot_init [of None _ v loc u] by (auto split: if_splits)
  have w: "(vm_istack w, vm_scs w) = (vm_istack u, vm_scs u)"
    using a code.view_slot_init code.view_fill_arguments by (fastforce split: if_splits Option.bind_splits)
  show ?thesis unfolding v' using u w by (intro flow_set_slots [OF c assms(2)]) simp_all
qed

lemma store_view:
  "Pop v = Some (it, u) \<Longrightarrow> slot_set s i it u = Some (s', w) \<Longrightarrow> (vm_istack w, vm_scs w) = (vm_istack v, vm_scs v)"
  using code.view_Pop [of v it u] code.view_slot_set [of s i it u s' w] by simp

lemma slot_flow:
  assumes ex: "execute_slot op param v = Some v'" and v: "flow_ok v"
  shows "flow_ok v'"
proof -
  from ex obtain c sc where c: "cur v = Some c" and sc: "script v c = Some sc"
    by (auto simp: execute_slot_def split: Option.bind_splits)
  have get: "flow_ok (PushItem it v)" for it by (rule flow_view [OF code.view_push(1) v])
  have own: "Pop v = Some (it, u) \<Longrightarrow> slot_set t i it u = Some (s, w) \<Longrightarrow> flow_ok (set_cur (c\<lparr>cx_local := s\<rparr>) w)"
    "Pop v = Some (it, u) \<Longrightarrow> slot_set t i it u = Some (s, w) \<Longrightarrow> flow_ok (set_cur (c\<lparr>cx_arguments := s\<rparr>) w)" for it u t i s w
    by (rule flow_set_slots [OF c v store_view], assumption+, simp_all)+
  note static = flow_set_static [OF sc v]
  from ex c sc initslot_flow [OF _ v] show ?thesis
    by (auto simp: execute_slot_def split: if_splits Option.bind_splits
        intro: get own static [OF store_view] static [OF code.view_slot_init])
qed

lemma collection_flow:
  assumes "execute_collection H op v = Some v'" and H: "unload_keeps_code H" and v: "flow_ok v"
  shows "flow_ok v'"
proof -
  have pop: "Pop u = Some (it, w) \<Longrightarrow> flow_ok u \<Longrightarrow> flow_ok w" for u it w by (rule flow_view [OF code.view_Pop])
  have push: "flow_ok u \<Longrightarrow> flow_ok (PushItem it u)" for u it by (rule flow_view [OF code.view_push(1)])
  have pick: "pick_elem H key xs u = Some w \<Longrightarrow> flow_ok u \<Longrightarrow> flow_ok w" for key xs u w
    using throw_flow(2) [OF H, of u] push by (auto simp: pick_elem_def split: if_splits Option.bind_splits)
  have thr: "throw H ex u = Some w \<Longrightarrow> flow_ok u \<Longrightarrow> flow_ok w" for ex u w by (rule throw_flow(2) [OF H])
  have pickitem: "flow_ok w" if ex: "execute_pickitem H v = Some w" for w
  proof -
    from ex obtain key u ob x where p1: "Pop v = Some (key, u)" and p2: "Pop u = Some (ob, x)" and
      body: "(case ob of
         ArrayItem a \<Rightarrow> do { xs \<leftarrow> get_elems (vm_heap x) a; pick_elem H key xs x }
       | StructItem a \<Rightarrow> do { xs \<leftarrow> get_elems (vm_heap x) a; pick_elem H key xs x }
       | MapItem a \<Rightarrow> do {
           ps \<leftarrow> get_pairs (vm_heap x) a; r \<leftarrow> Map_Index ps key;
           case r of
             None \<Rightarrow> throw H (ByteArray (string_bytes ''Key not found in Map'')) x
           | Some i \<Rightarrow> Some (PushItem (snd (ps ! i)) x) }
       | _ \<Rightarrow> do {
           arr \<leftarrow> TryBytes (vm_heap x) ob;
           pick_elem H key (map (\<lambda>b. BigInteger (int (unat b))) arr) x }) = Some w"
      unfolding execute_pickitem_def by (auto split: if_splits Option.bind_splits)
    have x: "flow_ok x" by (rule pop [OF p2 pop [OF p1 v]])
    show ?thesis using body pick [OF _ x] thr [OF _ x] push [OF x]
      by (cases ob) (auto split: Option.bind_splits option.splits simp del: TryBytes.simps)
  qed
  have upd: "flow_ok u \<Longrightarrow> flow_ok (u\<lparr>vm_heap := h\<rparr>)" "flow_ok u \<Longrightarrow> flow_ok (count_in its u)" "flow_ok u \<Longrightarrow> flow_ok (count_out its u)" for u h its
    by (rule flow_view [OF code.view_heap], assumption) (rule flow_view [OF code.view_count(1)], assumption, rule flow_view [OF code.view_count(2)], assumption)
  have set: "set_elem H a key it u = Some w \<Longrightarrow> flow_ok u \<Longrightarrow> flow_ok w" "set_pair a key it u = Some w \<Longrightarrow> flow_ok u \<Longrightarrow> flow_ok w"
    "set_byte H a key it u = Some w \<Longrightarrow> flow_ok u \<Longrightarrow> flow_ok w" for a key it u w
    using throw_flow(2) [OF H, of u] upd
    by (auto simp: set_elem_def set_pair_def set_byte_def Let_def split: if_splits Option.bind_splits option.splits)
  have setitem: "execute_setitem H v = Some w \<Longrightarrow> flow_ok w" for w
    using v by (auto simp: execute_setitem_def dest!: pop split: if_splits Option.bind_splits stackitem.splits)
      (blast dest: set)+
  have others: "op \<notin> {opPICKITEM, opSETITEM} \<Longrightarrow> vm_istack v' = vm_istack v \<and> vm_scs v' = vm_scs v"
    by (rule data_collection_view [OF assms(1)])
  show ?thesis using assms(1) flow_view [of v' v] others v pickitem setitem by (auto simp: execute_collection_def split: if_splits)
qed

lemma control_flow:
  assumes ex: "execute_control H op param u = Some v'" and op: "op \<notin> {opCALLA, opCALLT, opSYSCALL}" "opNOP < op"
    and u: "flow_ok u" and H: "unload_keeps_code H"
    and good: "\<And>p off. p \<in> offset_params op param \<Longrightarrow> getJumpOffset u p = Some off \<Longrightarrow> good u off"
  shows "flow_ok v'"
proof -
  have jumps: "op \<le> opJMPLEL \<Longrightarrow> op \<in> set offset_ops"
    using op(2) by (simp add: offset_ops_def word_le_nat_alt word_less_nat_alt word_unat_eq_iff) presburger
  have calls: "op \<le> opCALLT \<Longrightarrow> \<not> op \<le> opJMPLEL \<Longrightarrow> op = opCALL \<or> op = opCALLL" using call_ops [of op] op(1) by auto
  have par: "op \<in> set offset_ops \<Longrightarrow> offset_params op param = {param}" by (simp add: offset_params_def)
  have mem: "opCALL \<in> set offset_ops" "opCALLL \<in> set offset_ops" "opENDTRY \<in> set offset_ops" "opENDTRYL \<in> set offset_ops"
    "opTRY \<notin> set offset_ops" "opTRYL \<notin> set offset_ops" by (simp_all add: offset_ops_def)
  have pop: "popBool u = Some (b, w) \<Longrightarrow> flow_ok w" "Pop u = Some (it, w) \<Longrightarrow> flow_ok w" for b it w
    using flow_view [OF code.view_pops(2) u] flow_view [OF code.view_Pop u] by blast+
  consider "op \<le> opJMPLEL" | "\<not> op \<le> opJMPLEL" "op \<le> opCALLT" | "op = opASSERT" | "op = opTHROW" | "op = opTRY \<or> op = opTRYL"
    | "op = opENDTRY \<or> op = opENDTRYL" | "op = opENDFINALLY" | "op = opRET"
    using ex op(1) by (auto simp: execute_control_def split: if_splits)
  then show ?thesis
  proof cases
    case 1
    with ex have "execute_jump op param u = Some v'" by (simp add: execute_control_def)
    then show ?thesis using good par [OF jumps [OF 1]] by (intro jump_flow [OF _ u]) auto
  next
    case 2
    with ex have "execute_call H op param u = Some v'" by (simp add: execute_control_def)
    then show ?thesis using calls [OF 2(2,1)] good par mem by (intro calls_flow [OF _ _ u]) auto
  next
    case 3
    with ex pop show ?thesis by (auto simp: execute_control_def split: Option.bind_splits if_splits)
  next
    case 4
    with ex pop throw_flow(2) [OF H] show ?thesis by (auto simp: execute_control_def split: Option.bind_splits)
  next
    case 5
    with ex have "execute_try op param u = Some v'" by (auto simp: execute_control_def)
    moreover have "offset_params op param = {fst (getTryParams op param), snd (getTryParams op param)}"
      using 5 mem by (auto simp: offset_params_def)
    ultimately show ?thesis using good by (intro try_flow [OF _ u]) simp_all
  next
    case 6
    with ex have "execute_endtry param u = Some v'" by (auto simp: execute_control_def)
    then show ?thesis by (rule endtry_flow [OF _ u]) (use 6 mem par good in \<open>auto\<close>)
  next
    case 7
    with ex endfinally_flow [OF _ H u] show ?thesis by (simp add: execute_control_def)
  next
    case 8
    with ex ret_flow [OF _ H u] show ?thesis by (simp add: execute_control_def)
  qed
qed

lemma execute_op_flow:
  assumes ex: "execute_op H op param u = Some v'" and op: "op \<notin> {opCALLA, opCALLT, opSYSCALL}" and u: "flow_ok u" and H: "unload_keeps_code H"
    and good: "\<And>p off. p \<in> offset_params op param \<Longrightarrow> getJumpOffset u p = Some off \<Longrightarrow> good u off"
  shows "flow_ok v'"
proof -
  have control: "execute_control H op param u = Some v' \<Longrightarrow> \<not> op \<le> opNOP \<Longrightarrow> flow_ok v'"
    using control_flow [OF _ op _ u H good] by (simp add: not_le)
  show ?thesis using ex unfolding execute_op_def
    by (auto split: if_splits simp del: insert_iff intro: control slot_flow [OF _ u] collection_flow [OF _ H u]
        flow_view [OF code.view_pushInt u] flow_view [OF code.view_execute_push u] flow_view [OF code.view_execute_stack u]
        flow_view [OF code.view_execute_splice u] flow_view [OF code.view_execute_bitwise u] flow_view [OF code.view_execute_arith u]
        flow_view [OF code.view_execute_compare u] flow_view [OF code.view_execute_create u] flow_view [OF code.view_execute_type u])
qed

text \<open>
  C34. Control flow stays inside checked scripts: let every loaded context whose script \<^verbatim>\<open>IsScriptCorrect\<close> accepts be at the
  start of an instruction of its script or at its end, with handlers whose offsets are such places too. Then one step of
  the machine, whatever it does (a jump, a call, an exception that leaves contexts, a return, a fault), leads to a
  state where this holds again. Steps that call through a pointer or call the host are excluded.
\<close>

theorem checked_scripts_stay_aligned:
  assumes "flow_ok v" and H: "unload_keeps_code H"
    and "\<forall>op param u. Next v = Some (op, param, u) \<longrightarrow> op \<notin> {opCALLA, opCALLT, opSYSCALL}"
  shows "flow_ok (step H v) \<and>
    (\<forall>c\<in>set (vm_istack (step H v)). \<forall>sc. script (step H v) c = Some sc \<and> IsScriptCorrect (sc_prog sc) None = None \<longrightarrow>
      cx_nextip c \<in> starts (sc_prog sc) \<or> cx_nextip c = length (sc_prog sc))"
proof -
  have ok: "flow_ok (step H v)"
  proof (cases "Next v")
    case None
    then show ?thesis using flow_view [of "v\<lparr>vm_state := Fault\<rparr>" v] assms(1) by (simp add: step_def)
  next
    case (Some x)
    then obtain op param u where x: "Next v = Some (op, param, u)" by (cases x) auto
    note nx = Next_flow [OF x assms(1)]
    have ch: "(vm_istack (charge H op param u), vm_scs (charge H op param u)) = (vm_istack u, vm_scs u)"
      by (simp add: charge_def split: option.split)
    note off = getJumpOffset_view [OF ch]
    have "execute_op H op param (charge H op param u) = Some w \<Longrightarrow> flow_ok w" for w
      using execute_op_flow [OF _ _ flow_view [OF ch nx(1)] H good_view [OF ch nx(2)]] assms(3) x off by auto
    moreover have "flow_ok (w\<lparr>vm_state := s\<rparr>) = flow_ok w" for w s by (simp add: flow_ok_def progs_def)
    ultimately show ?thesis using x nx(1) flow_view [OF ch nx(1)]
      by (auto simp: step_def execute_def Let_def split: option.splits if_splits)
  qed
  have "cx_nextip c \<in> starts (sc_prog sc) \<or> cx_nextip c = length (sc_prog sc)"
    if "c \<in> set (vm_istack (step H v))" "script (step H v) c = Some sc" "IsScriptCorrect (sc_prog sc) None = None" for c sc
    using ok that script_progs_flow [OF that(2)] by (auto simp: flow_ok_def flow_ctx_def landing_def IsScriptCorrect_None)
  with ok show ?thesis by blast
qed

text \<open>A machine that has just loaded a script is aligned.\<close>

lemma load_flow:
  assumes "LoadWithFlags H prog f v = Some v'"
  shows "flow_ok v'"
proof -
  have landing0: "landing p 0" for p by (cases p) (auto simp: landing_def starts_def boundary_start)
  from assms obtain c where "vm_istack v' = [c]" "cx_nextip c = 0" "cx_tryStack c = []"
    by (auto simp: LoadWithFlags_def LoadScriptWithFlags_def loadScriptWithCallingHash_def Clear_def count_out_def set_estack_def
        Let_def cur_def split: if_splits prod.splits)
  then show ?thesis using landing0 by (simp add: flow_ok_def flow_ctx_def)
qed

theorem checked_scripts_stay_aligned_witness: "flow_ok (step sample_host loaded)"
proof -
  have "flow_ok loaded" by (rule load_flow [OF loaded_load(1)])
  moreover have "unload_keeps_code sample_host" by (auto simp: unload_keeps_code_def sample_host_def split: if_splits)
  moreover have "op \<notin> {opCALLA, opCALLT, opSYSCALL}" if "Next loaded = Some (op, param, u)" for op param u
  proof -
    have "opcode_IsValid opPUSH1" unfolding opcode_IsValid_def opcodes_def by (simp_all only: list.set insert_iff simp_thms)
    then have "op = opPUSH1" using that
      by (auto simp: loaded_def LoadWithFlags_def LoadScriptWithFlags_def loadScriptWithCallingHash_def Clear_def
        count_out_def New_vm_def estack_def set_estack_def checkInvocationStackSize_def MaxInvocationStackSize_def Let_def cur_def
        Next_decode script_def decode_instr_def split: Option.bind_splits if_splits)
    then show ?thesis by simp
  qed
  ultimately show ?thesis using checked_scripts_stay_aligned [of loaded sample_host] by blast
qed

end
