(* ===== verification/Vm_Throw.thy ===== *)
theory Vm_Throw
  imports Vm_Safety
begin

text \<open>
  Exceptions. A handler is past when it runs its finally block, or its catch block without a finally block to follow. An
  exception goes to the innermost handler that is not past; the contexts called from there are unloaded.
\<close>

section \<open>The handler that is found\<close>

definition past_handler :: "eh_context \<Rightarrow> bool" where
  "past_handler h \<longleftrightarrow> eh_State h = EFinally \<or> (eh_State h = ECatch \<and> eh_FinallyOffset h < 0)"

lemma spent_past: "spent h = past_handler h"
  by (auto simp: spent_def past_handler_def HasFinally_def)

lemma handler_found:
  assumes "\<forall>d \<in> set inner. \<forall>h \<in> set (cx_tryStack d). past_handler h"
    and "cx_tryStack c = dead @ e # es" and "\<forall>h \<in> set dead. past_handler h" and "\<not> past_handler e"
  shows "find_handler (inner @ c # outer) = Some (length inner)" and "dropWhile spent (cx_tryStack c) = e # es"
proof -
  show d: "dropWhile spent (cx_tryStack c) = e # es"
    using assms(2-4) by (simp add: dropWhile_append spent_past dropWhile_eq_Nil_conv)
  show "find_handler (inner @ c # outer) = Some (length inner)"
    using assms(1) d by (auto simp: find_handler_Some nth_append list_all_iff spent_past)
qed

section \<open>Leaving the contexts called from there\<close>

text \<open>
  What is asked of the host: with an exception pending, its callbacks for unloaded contexts leave the contexts, the stacks and the
  exception alone; and those of the contexts to be left succeed.
\<close>

definition quiet_unload :: "host \<Rightarrow> bool" where
  "quiet_unload H \<longleftrightarrow> (\<forall>n c v v'. ho_onUnload H n c False v = Some v' \<longrightarrow> vm_istack v' = vm_istack v \<and> vm_scs v' = vm_scs v \<and>
     vm_stacks v' = vm_stacks v \<and> vm_uncaughtException v' = vm_uncaughtException v)"

definition can_leave :: "host \<Rightarrow> vm \<Rightarrow> vm_context list \<Rightarrow> bool" where
  "can_leave H v cs \<longleftrightarrow> (\<forall>d \<in> set cs. \<forall>sc n u. script v d = Some sc \<longrightarrow> sc_onUnload sc = HostCallback n \<longrightarrow>
     ho_onUnload H n d False u \<noteq> None)"

definition same_frame :: "vm \<Rightarrow> vm \<Rightarrow> bool" where
  "same_frame v v' \<longleftrightarrow> vm_istack v' = vm_istack v \<and> vm_scs v' = vm_scs v \<and> vm_stacks v' = vm_stacks v \<and>
     vm_uncaughtException v' = vm_uncaughtException v"

lemma same_frame_ClearRefs: "same_frame v (ClearRefs s v)"
proof -
  have "same_frame v (count_out_opt x v)" for x v
    by (simp add: same_frame_def count_out_opt_def count_out_def split: option.split prod.split)
  then have "same_frame v (fold count_out_opt xs v)" for xs
    by (induction xs arbitrary: v) (auto simp: same_frame_def)
  then show ?thesis by (simp add: ClearRefs_def same_frame_def split: option.split)
qed

lemma same_frame_trans: "same_frame u v \<Longrightarrow> same_frame v w \<Longrightarrow> same_frame u w"
  by (simp add: same_frame_def)

lemma unloadContext_leaves:
  assumes H: "quiet_unload H" and ex: "vm_uncaughtException v \<noteq> None" and sc: "cx_sc d < length (vm_scs v)" and ok: "can_leave H v [d]"
  shows "\<exists>u. unloadContext H d v = Some u \<and> same_frame v u"
proof -
  define w where "w = ClearRefs (cx_arguments d) (ClearRefs (cx_local d) v)"
  have w: "same_frame v w" unfolding w_def by (rule same_frame_trans [OF same_frame_ClearRefs same_frame_ClearRefs])
  obtain s where s: "script v d = Some s" using sc by (simp add: script_def)
  define x where "x = ClearRefs (sc_static s) w"
  have x: "same_frame v x" unfolding x_def by (rule same_frame_trans [OF w same_frame_ClearRefs])
  have sw: "script w d = Some s" using w s by (auto simp: same_frame_def script_def split: if_splits)
  have pend: "(vm_uncaughtException x = None) = False" using x ex by (simp add: same_frame_def)
  have host: "\<exists>u. ho_onUnload H n d False x = Some u \<and> same_frame v u" if "sc_onUnload s = HostCallback n" for n
  proof -
    have "ho_onUnload H n d False x \<noteq> None" using ok s that by (simp add: can_leave_def)
    then obtain u where u: "ho_onUnload H n d False x = Some u" by blast
    then have "same_frame x u" using H unfolding quiet_unload_def same_frame_def by blast
    with u same_frame_trans [OF x] show ?thesis by blast
  qed
  show ?thesis
  proof (cases "map_option cx_sc (cur w) = Some (cx_sc d)")
    case True
    with w show ?thesis by (simp add: unloadContext_def w_def [symmetric] Let_def)
  next
    case False
    then have "unloadContext H d v = (case sc_onUnload s of NoCallback \<Rightarrow> Some x
        | DynamicOnUnload \<Rightarrow> runDynamicOnUnload d False x | HostCallback n \<Rightarrow> ho_onUnload H n d False x)"
      using sw pend unfolding unloadContext_def w_def [symmetric] Let_def
      by (simp only: if_False bind.bind_lunit x_def [symmetric])
    with x host show ?thesis by (cases "sc_onUnload s") (simp_all add: runDynamicOnUnload_def)
  qed
qed

lemma unload_top_leaves:
  assumes "quiet_unload H" and "vm_istack v = inner @ outer" and "vm_uncaughtException v \<noteq> None"
    and "\<forall>d \<in> set inner. cx_sc d < length (vm_scs v)" and "can_leave H v inner"
  shows "\<exists>u. unload_top H (length inner) v = Some u \<and> same_frame (v\<lparr>vm_istack := outer\<rparr>) u"
  using assms(2-)
proof (induction inner arbitrary: v)
  case (Cons d inner)
  let ?v = "v\<lparr>vm_istack := inner @ outer\<rparr>"
  have "can_leave H ?v [d]" using Cons.prems(4) by (simp add: can_leave_def script_def)
  then obtain u where u: "unloadContext H d ?v = Some u" "same_frame ?v u"
    using unloadContext_leaves [OF assms(1), of ?v d] Cons.prems by auto
  moreover have "can_leave H u inner" using Cons.prems(4) u(2) by (simp add: can_leave_def same_frame_def script_def)
  ultimately obtain x where "unload_top H (length inner) u = Some x" "same_frame (u\<lparr>vm_istack := outer\<rparr>) x"
    using Cons.IH [of u] Cons.prems by (auto simp: same_frame_def)
  with u Cons.prems(1) show ?case by (simp add: same_frame_def)
qed (cases v, simp add: same_frame_def)

section \<open>Entering the handler\<close>

text \<open>A handler with a catch block: the exception is on its stack, and execution goes on at the catch block.\<close>

lemma enter_catch:
  assumes v: "vm_ok v" and c: "vm_istack v = c # cs" and sc: "script v c = Some sc"
    and es: "dropWhile spent (cx_tryStack c) = e # es" and e: "eh_State e = ETry" "HasCatch e"
    and off: "eh_CatchOffset e < int (length (sc_prog sc))"
  shows "\<exists>v'. enter_handler ex v = Some v' \<and>
    vm_istack v' = c\<lparr>cx_tryStack := e\<lparr>eh_State := ECatch\<rparr> # es, cx_nextip := nat (eh_CatchOffset e)\<rparr> # cs \<and>
    vm_uncaughtException v' = None \<and> vm_estack v' = sc_estack sc \<and> estack v' = ex # estack (v\<lparr>vm_estack := sc_estack sc\<rparr>)"
proof -
  define u where "u = (PushItem ex (set_cur (c\<lparr>cx_tryStack := e\<lparr>eh_State := ECatch\<rparr> # es\<rparr>) (v\<lparr>vm_estack := sc_estack sc\<rparr>)))
    \<lparr>vm_uncaughtException := None\<rparr>"
  have len: "sc_estack sc < length (vm_stacks v)" using script_of_ok [OF sc v] by (simp add: script_ok_def)
  have u: "vm_istack u = c\<lparr>cx_tryStack := e\<lparr>eh_State := ECatch\<rparr> # es\<rparr> # cs" "vm_scs u = vm_scs v"
    by (simp_all add: u_def set_cur_def c)
  have "enter_handler ex v = Jump (eh_CatchOffset e) u"
    using c sc es e by (simp add: enter_handler_def cur_def Let_def u_def)
  moreover have "Jump (eh_CatchOffset e) u =
    Some (set_cur (c\<lparr>cx_tryStack := e\<lparr>eh_State := ECatch\<rparr> # es, cx_nextip := nat (eh_CatchOffset e)\<rparr>) u)"
    using u sc off e(2) by (auto simp: Jump_def cur_def script_def HasCatch_def split: if_splits)
  moreover have "estack u = ex # estack (v\<lparr>vm_estack := sc_estack sc\<rparr>)" "vm_estack u = sc_estack sc" "vm_uncaughtException u = None"
    using len estack_PushItem [of "set_cur (c\<lparr>cx_tryStack := e\<lparr>eh_State := ECatch\<rparr> # es\<rparr>) (v\<lparr>vm_estack := sc_estack sc\<rparr>)" ex]
    by (simp_all add: u_def estack_def)
  ultimately show ?thesis using u by simp
qed

text \<open>A handler without one, or past its catch block: execution goes on at the finally block, with the exception pending.\<close>

lemma enter_finally:
  assumes c: "vm_istack v = c # cs" and sc: "script v c = Some sc"
    and es: "dropWhile spent (cx_tryStack c) = e # es" and e: "\<not> (eh_State e = ETry \<and> HasCatch e)"
    and off: "0 \<le> eh_FinallyOffset e" "eh_FinallyOffset e < int (length (sc_prog sc))"
  shows "\<exists>v'. enter_handler ex v = Some v' \<and>
    vm_istack v' = c\<lparr>cx_tryStack := e\<lparr>eh_State := EFinally\<rparr> # es, cx_nextip := nat (eh_FinallyOffset e)\<rparr> # cs \<and>
    vm_uncaughtException v' = vm_uncaughtException v \<and> vm_estack v' = sc_estack sc \<and> estack v' = estack (v\<lparr>vm_estack := sc_estack sc\<rparr>)"
proof -
  define u where "u = set_cur (c\<lparr>cx_tryStack := e\<lparr>eh_State := EFinally\<rparr> # es\<rparr>) (v\<lparr>vm_estack := sc_estack sc\<rparr>)"
  have u: "vm_istack u = c\<lparr>cx_tryStack := e\<lparr>eh_State := EFinally\<rparr> # es\<rparr> # cs" "vm_scs u = vm_scs v"
    by (simp_all add: u_def set_cur_def c)
  have "enter_handler ex v = Jump (eh_FinallyOffset e) u"
    using c sc es e by (auto simp: enter_handler_def cur_def Let_def u_def)
  moreover have "Jump (eh_FinallyOffset e) u =
    Some (set_cur (c\<lparr>cx_tryStack := e\<lparr>eh_State := EFinally\<rparr> # es, cx_nextip := nat (eh_FinallyOffset e)\<rparr>) u)"
    using u sc off by (auto simp: Jump_def cur_def script_def split: if_splits)
  ultimately show ?thesis using u by (simp add: u_def)
qed

section \<open>Properties\<close>

text \<open>
  C29. An exception goes to the innermost handler that is not past. Let the handlers of all contexts called from some context (\<open>inner\<close>) be past, and in that context those
  inside a handler \<open>e\<close> that is not. When \<open>e\<close> is in its try block and has a catch block, the inner contexts
  are left, the exception is pushed on the evaluation stack of its script and execution goes on at the catch
  block, with no exception pending; otherwise execution goes on at the finally block, the stack as it was and the exception still pending.
  In both cases the past handlers are dropped and \<open>e\<close> is marked. When every handler of every context is past, the machine faults.
  A handler is past in its finally block, and in its catch block when it has no finally block. The callbacks that run when the inner contexts are left
  have to succeed (\<open>can_leave\<close>) and to leave contexts, scripts, stacks and the pending exception alone (\<open>quiet_unload\<close>), and the offset taken has to lie
  in the script.
\<close>

theorem throw_correct:
  assumes v: "vm_ok v" and H: "wf_host H" "quiet_unload H" and ex: "item_ok (kinds (vm_heap v)) ex"
  shows "((\<forall>d \<in> set (vm_istack v). \<forall>h \<in> set (cx_tryStack d). past_handler h) \<longrightarrow> throw H ex v = None) \<and>
    (\<forall>inner c outer dead e es sc. vm_istack v = inner @ c # outer \<and> cx_tryStack c = dead @ e # es \<and>
        (\<forall>d \<in> set inner. \<forall>h \<in> set (cx_tryStack d). past_handler h) \<and> (\<forall>h \<in> set dead. past_handler h) \<and> \<not> past_handler e \<and>
        script v c = Some sc \<and> can_leave H v inner \<longrightarrow>
      (eh_State e = ETry \<and> 0 \<le> eh_CatchOffset e \<and> eh_CatchOffset e < int (length (sc_prog sc)) \<longrightarrow>
        (\<exists>v'. throw H ex v = Some v' \<and> vm_uncaughtException v' = None \<and> vm_estack v' = sc_estack sc \<and>
          estack v' = ex # vm_stacks v ! sc_estack sc \<and>
          vm_istack v' = c\<lparr>cx_tryStack := e\<lparr>eh_State := ECatch\<rparr> # es, cx_nextip := nat (eh_CatchOffset e)\<rparr> # outer)) \<and>
      (\<not> (eh_State e = ETry \<and> 0 \<le> eh_CatchOffset e) \<and> 0 \<le> eh_FinallyOffset e \<and> eh_FinallyOffset e < int (length (sc_prog sc)) \<longrightarrow>
        (\<exists>v'. throw H ex v = Some v' \<and> vm_uncaughtException v' = Some ex \<and> vm_estack v' = sc_estack sc \<and>
          estack v' = vm_stacks v ! sc_estack sc \<and>
          vm_istack v' = c\<lparr>cx_tryStack := e\<lparr>eh_State := EFinally\<rparr> # es, cx_nextip := nat (eh_FinallyOffset e)\<rparr> # outer)))"
proof (intro conjI allI impI)
  assume "\<forall>d \<in> set (vm_istack v). \<forall>h \<in> set (cx_tryStack d). past_handler h"
  then have "find_handler (vm_istack v) = None" by (simp add: find_handler_None list_all_iff spent_past)
  then show "throw H ex v = None" by (simp add: throw_def handleException_def)
next
  fix inner c outer dead e es sc
  let ?v = "v\<lparr>vm_uncaughtException := Some ex\<rparr>"
  assume a: "vm_istack v = inner @ c # outer \<and> cx_tryStack c = dead @ e # es \<and>
        (\<forall>d \<in> set inner. \<forall>h \<in> set (cx_tryStack d). past_handler h) \<and> (\<forall>h \<in> set dead. past_handler h) \<and> \<not> past_handler e \<and>
        script v c = Some sc \<and> can_leave H v inner"
  have found: "find_handler (vm_istack v) = Some (length inner)" "dropWhile spent (cx_tryStack c) = e # es"
    using a handler_found [of inner c dead e es] by metis+
  have sc: "script v c = Some sc" and es: "dropWhile spent (cx_tryStack c) = e # es" using a found(2) by simp_all
  have len: "sc_estack sc < length (vm_stacks v)" using script_of_ok [OF sc v] by (simp add: script_ok_def)
  have "\<forall>d \<in> set inner. cx_sc d < length (vm_scs v)" using v a by (simp add: vm_ok_def context_ok_def)
  then obtain u where u: "unload_top H (length inner) ?v = Some u" "same_frame (?v\<lparr>vm_istack := c # outer\<rparr>) u"
    using unload_top_leaves [OF H(2), of ?v inner "c # outer"] a by (auto simp: can_leave_def script_def)
  have uok: "vm_ok u" using unload_top_ok [OF u(1) _ H(1)] exception_ok(2) [OF v ex] by simp
  have st: "vm_istack u = c # outer" "script u c = Some sc" "vm_uncaughtException u = Some ex"
    "estack (u\<lparr>vm_estack := sc_estack sc\<rparr>) = vm_stacks v ! sc_estack sc"
    using u(2) sc len by (auto simp: same_frame_def script_def estack_def split: if_splits)
  have t: "throw H ex v = enter_handler ex u" using found(1) u(1) by (simp add: throw_def handleException_def)
  show "\<exists>v'. throw H ex v = Some v' \<and> vm_uncaughtException v' = None \<and> vm_estack v' = sc_estack sc \<and>
      estack v' = ex # vm_stacks v ! sc_estack sc \<and>
      vm_istack v' = c\<lparr>cx_tryStack := e\<lparr>eh_State := ECatch\<rparr> # es, cx_nextip := nat (eh_CatchOffset e)\<rparr> # outer"
    if "eh_State e = ETry \<and> 0 \<le> eh_CatchOffset e \<and> eh_CatchOffset e < int (length (sc_prog sc))"
    using enter_catch [OF uok st(1,2) es, of ex] that t st by (auto simp: HasCatch_def)
  show "\<exists>v'. throw H ex v = Some v' \<and> vm_uncaughtException v' = Some ex \<and> vm_estack v' = sc_estack sc \<and>
      estack v' = vm_stacks v ! sc_estack sc \<and>
      vm_istack v' = c\<lparr>cx_tryStack := e\<lparr>eh_State := EFinally\<rparr> # es, cx_nextip := nat (eh_FinallyOffset e)\<rparr> # outer"
    if "\<not> (eh_State e = ETry \<and> 0 \<le> eh_CatchOffset e) \<and> 0 \<le> eh_FinallyOffset e \<and> eh_FinallyOffset e < int (length (sc_prog sc))"
    using enter_finally [OF st(1,2) es, of ex] that t st by (auto simp: HasCatch_def)
qed

text \<open>A function called inside a catch block within two try blocks.\<close>

definition guarded :: vm where
  "guarded = New_vm\<lparr>
     vm_scs := [\<lparr>sc_prog = replicate 8 opNOP, sc_breakPoints = [], sc_estack = 0, sc_static = None, sc_scriptHash = 1,
       sc_callingScriptHash = 0, sc_callingContext = None, sc_callFlag = 15, sc_onUnload = NoCallback\<rparr>],
     vm_istack := [
       \<lparr>cx_ip = 6, cx_nextip = 7, cx_sc = 0, cx_local = None, cx_arguments = None, cx_tryStack = [], cx_retCount = -1\<rparr>,
       \<lparr>cx_ip = 1, cx_nextip = 2, cx_sc = 0, cx_local = None, cx_arguments = None,
         cx_tryStack = [\<lparr>eh_CatchOffset = 2, eh_FinallyOffset = -1, eh_EndOffset = -1, eh_State = ECatch\<rparr>,
           \<lparr>eh_CatchOffset = 4, eh_FinallyOffset = -1, eh_EndOffset = -1, eh_State = ETry\<rparr>,
           \<lparr>eh_CatchOffset = 6, eh_FinallyOffset = -1, eh_EndOffset = -1, eh_State = ETry\<rparr>], cx_retCount = -1\<rparr>]\<rparr>"

theorem throw_correct_witness:
  "\<exists>v'. throw sample_host Null guarded = Some v' \<and> vm_uncaughtException v' = None \<and> estack v' = [Null] \<and>
    length (vm_istack v') = 1 \<and> cx_nextip (hd (vm_istack v')) = 4 \<and> length (cx_tryStack (hd (vm_istack v'))) = 2"
proof -
  have ok: "vm_ok guarded"
    by (simp add: guarded_def New_vm_def vm_ok_def heap_ok_def context_ok_def script_ok_def MaxInvocationStackSize_def MaxTryNestingDepth_def)
  have quiet: "quiet_unload sample_host" by (auto simp: quiet_unload_def sample_host_def split: if_splits)
  have leave: "can_leave sample_host guarded [hd (vm_istack guarded)]" by (simp add: can_leave_def guarded_def script_def)
  define c where "c = hd (tl (vm_istack guarded))"
  define hs where "hs = cx_tryStack c"
  have "vm_istack guarded = [hd (vm_istack guarded)] @ c # [] \<and> cx_tryStack c = [hs ! 0] @ hs ! 1 # [hs ! 2] \<and>
      (\<forall>d \<in> set [hd (vm_istack guarded)]. \<forall>h \<in> set (cx_tryStack d). past_handler h) \<and> (\<forall>h \<in> set [hs ! 0]. past_handler h) \<and>
      \<not> past_handler (hs ! 1) \<and> script guarded c = Some (hd (vm_scs guarded)) \<and> can_leave sample_host guarded [hd (vm_istack guarded)]"
    using leave by (simp add: c_def hs_def guarded_def past_handler_def script_def)
  moreover have "eh_State (hs ! 1) = ETry \<and> 0 \<le> eh_CatchOffset (hs ! 1) \<and> eh_CatchOffset (hs ! 1) < int (length (sc_prog (hd (vm_scs guarded))))"
    by (simp add: hs_def c_def guarded_def)
  ultimately obtain v' where v': "throw sample_host Null guarded = Some v'" "vm_uncaughtException v' = None"
      "estack v' = Null # vm_stacks guarded ! sc_estack (hd (vm_scs guarded))"
      "vm_istack v' = c\<lparr>cx_tryStack := (hs ! 1)\<lparr>eh_State := ECatch\<rparr> # [hs ! 2], cx_nextip := nat (eh_CatchOffset (hs ! 1))\<rparr> # []"
    using throw_correct [OF ok sample_host_wf quiet, of Null] unfolding item_ok.simps by blast
  moreover have "vm_stacks guarded ! sc_estack (hd (vm_scs guarded)) = []" "nat (eh_CatchOffset (hs ! 1)) = 4"
    by (simp_all add: guarded_def New_vm_def hs_def c_def)
  ultimately show ?thesis by simp
qed

end
