(* ===== verification/Vm_Multisig.thy ===== *)
theory Vm_Multisig
  imports Vm_Contract
begin

text \<open>
  Signature checks: \<^verbatim>\<open>CheckMultisigPar\<close> of \<^verbatim>\<open>pkg/vm/vm.go\<close>, \<^verbatim>\<open>PopSigElements\<close> of \<^verbatim>\<open>stack.go\<close>, \<^verbatim>\<open>PublicKey.Verify\<close> and
  the system calls of \<^verbatim>\<open>pkg/core/interop/crypto/ecdsa.go\<close>. Three workers check signatures concurrently, from both
  ends of the lists; the order in which their results arrive is a schedule, an argument of the model.
  With keys that decode every schedule gives the same answer, that of matching in order;
  with a key that does not, a schedule may fault where another accepts.
\<close>

section \<open>Keys and signatures\<close>

text \<open>
  \<^verbatim>\<open>NewPublicKeyFromBytes\<close> caches decoded keys by their bytes and curve, which is not visible from outside.
  \<^verbatim>\<open>bytesToPublicKey\<close> panics where it fails.
\<close>

definition NewPublicKeyFromBytes :: "curve \<Rightarrow> bytes \<Rightarrow> io_error + public_key" where
  "NewPublicKeyFromBytes cv b = Key_DecodeBytes cv b"

definition bytesToPublicKey :: "curve \<Rightarrow> bytes \<Rightarrow> public_key option" where
  "bytesToPublicKey cv b = (case NewPublicKeyFromBytes cv b of Inl _ \<Rightarrow> None | Inr p \<Rightarrow> Some p)"

definition SignatureLen :: nat where
  "SignatureLen = 64"

text \<open>\<^verbatim>\<open>ecdsa.Verify\<close> is an argument: of the coordinates of the key, the hash and the two halves of the signature.\<close>

type_synonym ecdsa = "nat \<Rightarrow> nat \<Rightarrow> bytes \<Rightarrow> nat \<Rightarrow> nat \<Rightarrow> bool"

fun Key_Verify :: "ecdsa \<Rightarrow> bytes \<Rightarrow> public_key \<Rightarrow> bytes \<Rightarrow> bool" where
  "Key_Verify ec h Infinity sig = False"
| "Key_Verify ec h (Point x y) sig =
    (length sig = SignatureLen \<and> ec x y h (be_nat (take 32 sig)) (be_nat (take 32 (drop 32 sig))))"

section \<open>The concurrent check\<close>

text \<open>
  What becomes of a call: a verdict, a panic of the calling goroutine (a key that does not
  decode, an index out of range), or waiting for a result that never comes.
\<close>

datatype par_result = Verdict bool | Panicked | Stuck

text \<open>
  The variables of the collecting loop, and the tasks that have been sent and whose results have not been
  received. At most two are outstanding, the workers are three and the channels hold two, so no
  send blocks and any of the outstanding results can be the next one received.
\<close>

record par_state =
  pa_k1 :: int
  pa_k2 :: int
  pa_s1 :: int
  pa_s2 :: int
  pa_sigok :: bool
  pa_taskCount :: int
  pa_tasks :: "(public_key \<times> int) list"

definition par_send :: "curve \<Rightarrow> bytes list \<Rightarrow> int \<Rightarrow> int \<Rightarrow> par_state \<Rightarrow> par_state option" where
  "par_send cv pkeys key signum st =
    (if key < 0 \<or> key \<ge> int (length pkeys) then None
     else case bytesToPublicKey cv (pkeys ! nat key) of
       None \<Rightarrow> None
     | Some pub \<Rightarrow> Some (st\<lparr>pa_tasks := pa_tasks st @ [(pub, signum)]\<rparr>))"

text \<open>The loop body for a received result; \<open>Inl\<close> is leaving the loop or a panic.\<close>

definition par_receive :: "curve \<Rightarrow> bytes list \<Rightarrow> bool \<Rightarrow> int \<Rightarrow> par_state \<Rightarrow> par_result + par_state" where
  "par_receive cv pkeys r_ok r_signum st =
    (let goingForward = (r_signum \<noteq> pa_s2 st);
         st = st\<lparr>pa_taskCount := pa_taskCount st - 1\<rparr>;
         next_task = (\<lambda>st.
           let st = (if goingForward then st\<lparr>pa_k1 := pa_k1 st + 1\<rparr> else st\<lparr>pa_k2 := pa_k2 st - 1\<rparr>);
               nextSig = (if goingForward then pa_s1 st else pa_s2 st);
               nextKey = (if goingForward then pa_k1 st else pa_k2 st);
               st = st\<lparr>pa_taskCount := pa_taskCount st + 1\<rparr>
           in case par_send cv pkeys nextKey nextSig st of None \<Rightarrow> Inl Panicked | Some st \<Rightarrow> Inr st)
     in
       if pa_k1 st + 1 = pa_k2 st then
         (let st = st\<lparr>pa_sigok := r_ok \<and> pa_s1 st + 1 = pa_s2 st\<rparr> in
          if pa_taskCount st \<noteq> 0 \<and> pa_sigok st then Inr st else Inl (Verdict (pa_sigok st)))
       else if r_ok then
         (if pa_s1 st + 1 = pa_s2 st then
            (if pa_taskCount st \<noteq> 0 \<and> pa_sigok st then Inr st else Inl (Verdict (pa_sigok st)))
          else next_task (if goingForward then st\<lparr>pa_s1 := pa_s1 st + 1\<rparr> else st\<lparr>pa_s2 := pa_s2 st - 1\<rparr>))
       else next_task st)"

text \<open>
  The loop. At its step \<open>t\<close> the schedule chooses among the outstanding tasks; a worker has checked
  the task against its signature. Every round takes a task away or moves the keys closer.
\<close>

definition par_measure :: "nat \<Rightarrow> par_state \<Rightarrow> nat" where
  "par_measure n st = 2 * (nat (int n - pa_k1 st) + nat (pa_k2 st + 1)) + length (pa_tasks st)"

lemma par_receive_measure:
  assumes "par_receive cv pkeys ok s st = Inr st'"
  shows "par_measure (length pkeys) st' < 1 + par_measure (length pkeys) st"
  using assms
  by (auto simp: par_receive_def par_send_def par_measure_def Let_def split: if_splits option.splits)

definition drop_nth :: "nat \<Rightarrow> 'a list \<Rightarrow> 'a list" where
  "drop_nth i xs = take i xs @ drop (i + 1) xs"

lemma length_drop_nth: "i < length xs \<Longrightarrow> length (drop_nth i xs) = length xs - 1"
  by (simp add: drop_nth_def)

function par_loop ::
  "ecdsa \<Rightarrow> bytes \<Rightarrow> curve \<Rightarrow> bytes list \<Rightarrow> bytes list \<Rightarrow> (nat \<Rightarrow> nat) \<Rightarrow> nat \<Rightarrow> par_state \<Rightarrow> par_result" where
  "par_loop ec h cv pkeys sigs sched t st =
    (if pa_tasks st = [] then Stuck
     else
       let i = sched t mod length (pa_tasks st);
           (pub, signum) = pa_tasks st ! i;
           st' = st\<lparr>pa_tasks := drop_nth i (pa_tasks st)\<rparr>
       in if signum < 0 \<or> signum \<ge> int (length sigs) then Panicked
          else case par_receive cv pkeys (Key_Verify ec h pub (sigs ! nat signum)) signum st' of
            Inl res \<Rightarrow> res
          | Inr st'' \<Rightarrow> par_loop ec h cv pkeys sigs sched (t + 1) st'')"
  by pat_completeness auto

termination par_loop
proof (relation "measure (\<lambda>(ec, h, cv, pkeys, sigs, sched, t, st). par_measure (length pkeys) st)", goal_cases)
  case (2 ec h cv pkeys sigs sched t st i p pub signum st' st'')
  then have "i < length (pa_tasks st)" by simp
  then have "1 + par_measure (length pkeys) st' = par_measure (length pkeys) st"
    using 2 by (simp add: par_measure_def length_drop_nth)
  moreover have "par_measure (length pkeys) st'' < 1 + par_measure (length pkeys) st'"
    by (rule par_receive_measure) (rule 2)
  ultimately show ?case by simp
qed simp

declare par_loop.simps [simp del]

fun checkMultisig1 :: "ecdsa \<Rightarrow> bytes \<Rightarrow> curve \<Rightarrow> bytes list \<Rightarrow> bytes \<Rightarrow> par_result" where
  "checkMultisig1 ec h cv [] sig = Verdict False"
| "checkMultisig1 ec h cv (k # ks) sig = (case bytesToPublicKey cv k of
     None \<Rightarrow> Panicked
   | Some pkey \<Rightarrow> if Key_Verify ec h pkey sig then Verdict True else checkMultisig1 ec h cv ks sig)"

definition CheckMultisigPar ::
  "ecdsa \<Rightarrow> (nat \<Rightarrow> nat) \<Rightarrow> curve \<Rightarrow> bytes \<Rightarrow> bytes list \<Rightarrow> bytes list \<Rightarrow> par_result" where
  "CheckMultisigPar ec sched cv h pkeys sigs =
    (if length sigs = 1 then checkMultisig1 ec h cv pkeys (sigs ! 0)
     else
       let k1 = 0; k2 = int (length pkeys) - 1; s1 = 0; s2 = int (length sigs) - 1;
           st = \<lparr>pa_k1 = k1, pa_k2 = k2, pa_s1 = s1, pa_s2 = s2, pa_sigok = True, pa_taskCount = 2, pa_tasks = []\<rparr>
       in case par_send cv pkeys k1 s1 st of
            None \<Rightarrow> Panicked
          | Some st \<Rightarrow> (case par_send cv pkeys k2 s2 st of
              None \<Rightarrow> Panicked
            | Some st \<Rightarrow> par_loop ec h cv pkeys sigs sched 0 st))"

section \<open>Matching in order\<close>

text \<open>
  The contract of the check: the signatures match a subsequence of the keys, in order. It does not matter
  from which end one looks.
\<close>

definition checks :: "ecdsa \<Rightarrow> bytes \<Rightarrow> curve \<Rightarrow> bytes \<Rightarrow> bytes \<Rightarrow> bool" where
  "checks ec h cv sig key = (case bytesToPublicKey cv key of None \<Rightarrow> False | Some p \<Rightarrow> Key_Verify ec h p sig)"

definition signed_by :: "ecdsa \<Rightarrow> bytes \<Rightarrow> curve \<Rightarrow> bytes list \<Rightarrow> bytes list \<Rightarrow> bool" where
  "signed_by ec h cv = list_emb (checks ec h cv)"

lemma list_emb_rev1: "list_emb P xs ys \<Longrightarrow> list_emb P (rev xs) (rev ys)"
  by (induction rule: list_emb.induct) (auto intro: list_emb_append_mono list_emb_prefix)

lemma list_emb_rev: "list_emb P (rev xs) (rev ys) \<longleftrightarrow> list_emb P xs ys"
  using list_emb_rev1 [of P xs ys] list_emb_rev1 [of P "rev xs" "rev ys"] by auto

lemma list_emb_snoc:
  "list_emb P (xs @ [x]) (ys @ [y]) \<longleftrightarrow> (if P x y then list_emb P xs ys else list_emb P (xs @ [x]) ys)"
  using list_emb_rev [of P "xs @ [x]" "ys @ [y]"] list_emb_rev [of P xs ys] list_emb_rev [of P "xs @ [x]" ys]
  by (cases "P x y") simp_all

lemma list_emb_pairs: "list_emb P [a, b] [c, d] \<longleftrightarrow> P a c \<and> P b d"
  by (cases "P a c"; cases "P b d"; cases "P a d") simp_all

definition part :: "'a list \<Rightarrow> int \<Rightarrow> int \<Rightarrow> 'a list" where
  "part xs i j = map (\<lambda>n. xs ! nat n) [i..j]"

lemma part_Cons: "i \<le> j \<Longrightarrow> part xs i j = xs ! nat i # part xs (i + 1) j"
  by (simp add: part_def upto_rec1)

lemma part_snoc: "i \<le> j \<Longrightarrow> part xs i j = part xs i (j - 1) @ [xs ! nat j]"
  by (simp add: part_def upto_rec2)

lemma length_part: "length (part xs i j) = nat (j - i + 1)"
  by (simp add: part_def)

lemma part_all: "part xs 0 (int (length xs) - 1) = xs"
  by (rule nth_equalityI) (auto simp: part_def nth_upto)

text \<open>Looking at the first key, or at the last one.\<close>

lemma emb_part_front:
  assumes "s1 \<le> s2" and "k1 \<le> k2"
  shows "list_emb P (part xs s1 s2) (part ys k1 k2) \<longleftrightarrow>
    (if P (xs ! nat s1) (ys ! nat k1) then list_emb P (part xs (s1 + 1) s2) (part ys (k1 + 1) k2)
     else list_emb P (part xs s1 s2) (part ys (k1 + 1) k2))"
  using assms by (simp add: part_Cons)

lemma emb_part_back:
  assumes "s1 \<le> s2" and "k1 \<le> k2"
  shows "list_emb P (part xs s1 s2) (part ys k1 k2) \<longleftrightarrow>
    (if P (xs ! nat s2) (ys ! nat k2) then list_emb P (part xs s1 (s2 - 1)) (part ys k1 (k2 - 1))
     else list_emb P (part xs s1 s2) (part ys k1 (k2 - 1)))"
  unfolding part_snoc [OF assms(1)] part_snoc [OF assms(2)] by (rule list_emb_snoc)

lemma emb_too_long: "k2 - k1 < s2 - s1 \<Longrightarrow> s1 \<le> s2 \<Longrightarrow> \<not> list_emb P (part xs s1 s2) (part ys k1 k2)"
  using list_emb_length [of P "part xs s1 s2" "part ys k1 k2"] by (auto simp: length_part)

section \<open>Every schedule gives the same answer\<close>

text \<open>
  The invariant of the loop. Either both ends are being checked, or one of them has matched the last
  signature but one and the other end is looking for the last.
\<close>

definition ends_ok :: "bytes list \<Rightarrow> bytes list \<Rightarrow> par_state \<Rightarrow> bool" where
  "ends_ok pkeys sigs st \<longleftrightarrow>
     0 \<le> pa_k1 st \<and> pa_k1 st < pa_k2 st \<and> pa_k2 st < int (length pkeys) \<and>
     0 \<le> pa_s1 st \<and> pa_s1 st < pa_s2 st \<and> pa_s2 st < int (length sigs) \<and> pa_sigok st"

definition key_at :: "curve \<Rightarrow> bytes list \<Rightarrow> int \<Rightarrow> public_key" where
  "key_at cv pkeys k = (case bytesToPublicKey cv (pkeys ! nat k) of None \<Rightarrow> Infinity | Some p \<Rightarrow> p)"

definition tasks_ok :: "ecdsa \<Rightarrow> bytes \<Rightarrow> curve \<Rightarrow> bytes list \<Rightarrow> bytes list \<Rightarrow> par_state \<Rightarrow> bool" where
  "tasks_ok ec h cv pkeys sigs st \<longleftrightarrow>
     (let front = (key_at cv pkeys (pa_k1 st), pa_s1 st); back = (key_at cv pkeys (pa_k2 st), pa_s2 st);
          matched = (\<lambda>(k, s). pa_s1 st + 1 = pa_s2 st \<and> Key_Verify ec h k (sigs ! nat s)) in
      pa_tasks st \<in> {[front, back], [back, front]} \<and> pa_taskCount st = 2 \<or>
      pa_tasks st = [back] \<and> pa_taskCount st = 1 \<and> matched front \<or>
      pa_tasks st = [front] \<and> pa_taskCount st = 1 \<and> matched back)"

definition answer :: "ecdsa \<Rightarrow> bytes \<Rightarrow> curve \<Rightarrow> bytes list \<Rightarrow> bytes list \<Rightarrow> par_state \<Rightarrow> bool" where
  "answer ec h cv pkeys sigs st =
     signed_by ec h cv (part sigs (pa_s1 st) (pa_s2 st)) (part pkeys (pa_k1 st) (pa_k2 st))"

text \<open>What a round leaves, for the answer \<open>g\<close>.\<close>

definition round_ok ::
  "ecdsa \<Rightarrow> bytes \<Rightarrow> curve \<Rightarrow> bytes list \<Rightarrow> bytes list \<Rightarrow> bool \<Rightarrow> par_result + par_state \<Rightarrow> bool" where
  "round_ok ec h cv pkeys sigs g res = (case res of
     Inl r \<Rightarrow> r = Verdict g
   | Inr st \<Rightarrow> ends_ok pkeys sigs st \<and> tasks_ok ec h cv pkeys sigs st \<and> answer ec h cv pkeys sigs st = g)"

definition keys_decode :: "curve \<Rightarrow> bytes list \<Rightarrow> bool" where
  "keys_decode cv pkeys \<longleftrightarrow> (\<forall>k \<in> set pkeys. bytesToPublicKey cv k \<noteq> None)"

lemma decoded_key_at:
  assumes "keys_decode cv pkeys" and "0 \<le> k" and "k < int (length pkeys)"
  shows "bytesToPublicKey cv (pkeys ! nat k) = Some (key_at cv pkeys k)"
  using assms by (auto simp: keys_decode_def key_at_def split: option.splits)

lemma par_send_ok:
  assumes "keys_decode cv pkeys" and "0 \<le> k" and "k < int (length pkeys)"
  shows "par_send cv pkeys k s st = Some (st\<lparr>pa_tasks := pa_tasks st @ [(key_at cv pkeys k, s)]\<rparr>)"
  using assms decoded_key_at [OF assms] by (simp add: par_send_def)

lemma checks_key_at:
  assumes "keys_decode cv pkeys" and "0 \<le> k" and "k < int (length pkeys)"
  shows "checks ec h cv sig (pkeys ! nat k) = Key_Verify ec h (key_at cv pkeys k) sig"
  using decoded_key_at [OF assms] by (simp add: checks_def)

text \<open>The answer from the front key and from the back key.\<close>

lemma answer_front:
  assumes "keys_decode cv pkeys" and "ends_ok pkeys sigs st"
  shows "answer ec h cv pkeys sigs st =
    signed_by ec h cv (part sigs (if Key_Verify ec h (key_at cv pkeys (pa_k1 st)) (sigs ! nat (pa_s1 st))
        then pa_s1 st + 1 else pa_s1 st) (pa_s2 st)) (part pkeys (pa_k1 st + 1) (pa_k2 st))"
  using assms checks_key_at [OF assms(1), of "pa_k1 st"]
  by (simp add: answer_def signed_by_def ends_ok_def emb_part_front)

lemma answer_back:
  assumes "keys_decode cv pkeys" and "ends_ok pkeys sigs st"
  shows "answer ec h cv pkeys sigs st =
    signed_by ec h cv (part sigs (pa_s1 st) (if Key_Verify ec h (key_at cv pkeys (pa_k2 st)) (sigs ! nat (pa_s2 st))
        then pa_s2 st - 1 else pa_s2 st)) (part pkeys (pa_k1 st) (pa_k2 st - 1))"
  using assms checks_key_at [OF assms(1), of "pa_k2 st"]
  by (simp add: answer_def signed_by_def ends_ok_def emb_part_back)

text \<open>With two keys left both ends have to match the two signatures left.\<close>

lemma answer_last:
  assumes "keys_decode cv pkeys" and "ends_ok pkeys sigs st" and "pa_k1 st + 1 = pa_k2 st"
  shows "answer ec h cv pkeys sigs st \<longleftrightarrow> pa_s1 st + 1 = pa_s2 st \<and>
    Key_Verify ec h (key_at cv pkeys (pa_k1 st)) (sigs ! nat (pa_s1 st)) \<and>
    Key_Verify ec h (key_at cv pkeys (pa_k2 st)) (sigs ! nat (pa_s2 st))"
proof (cases "pa_s1 st + 1 = pa_s2 st")
  case True
  have "part xs i i = [xs ! nat i]" for xs :: "bytes list" and i by (simp add: part_def)
  with True assms checks_key_at [OF assms(1), of "pa_k1 st"] checks_key_at [OF assms(1), of "pa_k2 st"]
  show ?thesis by (auto simp: answer_def signed_by_def ends_ok_def part_Cons [of "pa_s1 st"] part_Cons [of "pa_k1 st"]
      list_emb_pairs)
next
  case False
  with assms emb_too_long [of "pa_k2 st" "pa_k1 st" "pa_s2 st" "pa_s1 st" "checks ec h cv" sigs pkeys] show ?thesis
    by (auto simp: answer_def signed_by_def ends_ok_def)
qed

lemma answer_both:
  assumes "keys_decode cv pkeys" and "ends_ok pkeys sigs st" and "pa_s1 st + 1 = pa_s2 st"
    and "Key_Verify ec h (key_at cv pkeys (pa_k1 st)) (sigs ! nat (pa_s1 st))"
    and "Key_Verify ec h (key_at cv pkeys (pa_k2 st)) (sigs ! nat (pa_s2 st))"
  shows "answer ec h cv pkeys sigs st"
proof -
  have "list_emb (checks ec h cv) (part sigs (pa_s2 st) (pa_s2 st)) (part pkeys (pa_k1 st + 1) (pa_k2 st))"
    using assms(2,5) checks_key_at [OF assms(1), of "pa_k2 st"]
    by (subst emb_part_back) (auto simp: ends_ok_def part_def)
  with assms answer_front [OF assms(1,2), of ec h] show ?thesis by (simp add: signed_by_def)
qed

lemmas round_defs = par_receive_def Let_def round_ok_def ends_ok_def tasks_ok_def answer_def

text \<open>A round on the result of the front task, with or without the back task outstanding; and the other way round.\<close>

lemma round_front:
  assumes dec: "keys_decode cv pkeys" and ends: "ends_ok pkeys sigs st"
    and tasks: "pa_tasks st = [] \<and> pa_taskCount st = 1 \<and> pa_s1 st + 1 = pa_s2 st \<and>
          Key_Verify ec h (key_at cv pkeys (pa_k2 st)) (sigs ! nat (pa_s2 st)) \<or>
        pa_tasks st = [(key_at cv pkeys (pa_k2 st), pa_s2 st)] \<and> pa_taskCount st = 2"
  shows "round_ok ec h cv pkeys sigs (answer ec h cv pkeys sigs st)
    (par_receive cv pkeys (Key_Verify ec h (key_at cv pkeys (pa_k1 st)) (sigs ! nat (pa_s1 st))) (pa_s1 st) st)"
proof (cases "pa_k1 st + 1 = pa_k2 st")
  case True
  with answer_last [OF dec ends, of ec h] ends tasks show ?thesis by (auto simp: round_defs)
next
  case False
  with answer_front [OF dec ends, of ec h] answer_both [OF dec ends, of ec h] ends tasks show ?thesis
    by (auto simp: round_defs par_send_ok [OF dec])
qed

lemma round_back:
  assumes dec: "keys_decode cv pkeys" and ends: "ends_ok pkeys sigs st"
    and tasks: "pa_tasks st = [] \<and> pa_taskCount st = 1 \<and> pa_s1 st + 1 = pa_s2 st \<and>
          Key_Verify ec h (key_at cv pkeys (pa_k1 st)) (sigs ! nat (pa_s1 st)) \<or>
        pa_tasks st = [(key_at cv pkeys (pa_k1 st), pa_s1 st)] \<and> pa_taskCount st = 2"
  shows "round_ok ec h cv pkeys sigs (answer ec h cv pkeys sigs st)
    (par_receive cv pkeys (Key_Verify ec h (key_at cv pkeys (pa_k2 st)) (sigs ! nat (pa_s2 st))) (pa_s2 st) st)"
proof (cases "pa_k1 st + 1 = pa_k2 st")
  case True
  with answer_last [OF dec ends, of ec h] ends tasks show ?thesis by (auto simp: round_defs)
next
  case False
  with answer_back [OF dec ends, of ec h] answer_both [OF dec ends, of ec h] ends tasks show ?thesis
    by (auto simp: round_defs par_send_ok [OF dec])
qed

text \<open>Whichever task the schedule picks.\<close>

lemma round_any:
  assumes dec: "keys_decode cv pkeys" and ends: "ends_ok pkeys sigs st" and tasks: "tasks_ok ec h cv pkeys sigs st"
    and i: "i < length (pa_tasks st)" and task: "pa_tasks st ! i = (pub, signum)"
  shows "0 \<le> signum \<and> signum < int (length sigs) \<and>
    round_ok ec h cv pkeys sigs (answer ec h cv pkeys sigs st)
      (par_receive cv pkeys (Key_Verify ec h pub (sigs ! nat signum)) signum (st\<lparr>pa_tasks := drop_nth i (pa_tasks st)\<rparr>))"
proof -
  let ?st = "st\<lparr>pa_tasks := drop_nth i (pa_tasks st)\<rparr>"
  have same: "ends_ok pkeys sigs ?st" "answer ec h cv pkeys sigs ?st = answer ec h cv pkeys sigs st"
    using ends by (simp_all add: ends_ok_def answer_def)
  have "i = 0 \<or> i = 1" using i tasks by (auto simp: tasks_ok_def Let_def)
  then consider
      (at_front) "pub = key_at cv pkeys (pa_k1 ?st)" "signum = pa_s1 ?st"
        "pa_tasks ?st = [] \<and> pa_taskCount ?st = 1 \<and> pa_s1 ?st + 1 = pa_s2 ?st \<and>
          Key_Verify ec h (key_at cv pkeys (pa_k2 ?st)) (sigs ! nat (pa_s2 ?st)) \<or>
        pa_tasks ?st = [(key_at cv pkeys (pa_k2 ?st), pa_s2 ?st)] \<and> pa_taskCount ?st = 2"
    | (at_back) "pub = key_at cv pkeys (pa_k2 ?st)" "signum = pa_s2 ?st"
        "pa_tasks ?st = [] \<and> pa_taskCount ?st = 1 \<and> pa_s1 ?st + 1 = pa_s2 ?st \<and>
          Key_Verify ec h (key_at cv pkeys (pa_k1 ?st)) (sigs ! nat (pa_s1 ?st)) \<or>
        pa_tasks ?st = [(key_at cv pkeys (pa_k1 ?st), pa_s1 ?st)] \<and> pa_taskCount ?st = 2"
    using tasks i task by (auto simp: tasks_ok_def Let_def drop_nth_def)
  then show ?thesis
  proof cases
    case at_front
    with round_front [OF dec same(1) at_front(3)] same ends show ?thesis by (auto simp: ends_ok_def)
  next
    case at_back
    with round_back [OF dec same(1) at_back(3)] same ends show ?thesis by (auto simp: ends_ok_def)
  qed
qed

lemma par_loop_answer:
  assumes "keys_decode cv pkeys" and "ends_ok pkeys sigs st" and "tasks_ok ec h cv pkeys sigs st"
  shows "par_loop ec h cv pkeys sigs sched t st = Verdict (answer ec h cv pkeys sigs st)"
  using assms
proof (induction ec h cv pkeys sigs sched t st rule: par_loop.induct)
  case (1 ec h cv pkeys sigs sched t st)
  let ?i = "sched t mod length (pa_tasks st)"
  obtain pub signum where task: "pa_tasks st ! ?i = (pub, signum)" by (cases "pa_tasks st ! ?i")
  have ne: "pa_tasks st \<noteq> []" using "1.prems"(3) by (auto simp: tasks_ok_def Let_def)
  then have "?i < length (pa_tasks st)" by simp
  from round_any [OF "1.prems" this task] have sig: "0 \<le> signum" "signum < int (length sigs)"
    and round: "round_ok ec h cv pkeys sigs (answer ec h cv pkeys sigs st)
      (par_receive cv pkeys (Key_Verify ec h pub (sigs ! nat signum)) signum (st\<lparr>pa_tasks := drop_nth ?i (pa_tasks st)\<rparr>))"
    by auto
  show ?case
  proof (cases "par_receive cv pkeys (Key_Verify ec h pub (sigs ! nat signum)) signum (st\<lparr>pa_tasks := drop_nth ?i (pa_tasks st)\<rparr>)")
    case (Inl r)
    with round ne sig task show ?thesis by (subst par_loop.simps) (simp add: round_ok_def)
  next
    case (Inr st')
    with round have st': "ends_ok pkeys sigs st'" "tasks_ok ec h cv pkeys sigs st'"
      "answer ec h cv pkeys sigs st' = answer ec h cv pkeys sigs st"
      by (simp_all add: round_ok_def)
    have "par_loop ec h cv pkeys sigs sched (t + 1) st' = Verdict (answer ec h cv pkeys sigs st')"
      using "1.IH" [OF ne refl refl task [symmetric] refl _ _ "1.prems"(1) st'(1,2)] Inr sig by auto
    with Inr ne sig task st'(3) show ?thesis by (subst par_loop.simps) simp
  qed
qed

lemma checkMultisig1_answer:
  "keys_decode cv pkeys \<Longrightarrow> checkMultisig1 ec h cv pkeys sig = Verdict (signed_by ec h cv [sig] pkeys)"
proof (induction pkeys)
  case (Cons k ks)
  then obtain p where p: "bytesToPublicKey cv k = Some p" by (auto simp: keys_decode_def)
  with Cons show ?case
    by (cases "Key_Verify ec h p sig") (simp_all add: keys_decode_def signed_by_def checks_def)
qed (simp add: signed_by_def)

lemma CheckMultisigPar_verdict:
  assumes "1 \<le> length sigs" and "length sigs \<le> length pkeys" and "\<forall>k \<in> set pkeys. bytesToPublicKey cv k \<noteq> None"
  shows "CheckMultisigPar ec sched cv h pkeys sigs = Verdict (signed_by ec h cv sigs pkeys)"
proof (cases "length sigs = 1")
  case True
  then have "sigs = [sigs ! 0]" by (cases sigs) auto
  with True assms checkMultisig1_answer [of cv pkeys ec h "sigs ! 0"] show ?thesis
    by (simp add: CheckMultisigPar_def keys_decode_def)
next
  case False
  have dec: "keys_decode cv pkeys" using assms(3) by (simp add: keys_decode_def)
  let ?st = "\<lparr>pa_k1 = 0, pa_k2 = int (length pkeys) - 1, pa_s1 = 0, pa_s2 = int (length sigs) - 1, pa_sigok = True, pa_taskCount = 2,
    pa_tasks = [(key_at cv pkeys 0, 0), (key_at cv pkeys (int (length pkeys) - 1), int (length sigs) - 1)]\<rparr>"
  have "ends_ok pkeys sigs ?st" "tasks_ok ec h cv pkeys sigs ?st" "answer ec h cv pkeys sigs ?st = signed_by ec h cv sigs pkeys"
    using assms(1,2) False by (simp_all add: ends_ok_def tasks_ok_def answer_def part_all Let_def)
  moreover have "0 < int (length pkeys)" using assms(1,2) by linarith
  ultimately show ?thesis
    using par_loop_answer [OF dec, of sigs ?st ec h sched 0] False par_send_ok [OF dec, of 0]
      par_send_ok [OF dec, of "int (length pkeys) - 1"]
    by (simp add: CheckMultisigPar_def Let_def)
qed

text \<open>
  C39. However the workers are scheduled, the concurrent check of several signatures against keys that
  decode returns, and its verdict is that of the sequential reference: the signatures match a
  subsequence of the keys in order.
\<close>

theorem CheckMultisigPar_any_schedule:
  assumes "1 \<le> length sigs" and "length sigs \<le> length pkeys" and "\<forall>k \<in> set pkeys. bytesToPublicKey cv k \<noteq> None"
  shows "CheckMultisigPar ec sched cv h pkeys sigs = Verdict (list_emb (checks ec h cv) sigs pkeys)"
  using CheckMultisigPar_verdict [OF assms] by (simp only: signed_by_def)

text \<open>Keys are read in uncompressed form too; the generator of the curve serves as an example.\<close>

lemma uncompressed_decodes:
  assumes "IsOnCurve cv x y" and "cv_P cv \<le> 256 ^ coordLen"
  shows "bytesToPublicKey cv (UncompressedBytes (Point x y)) = Some (Point x y)"
proof -
  have x: "x < 256 ^ coordLen" "x < cv_P cv" and y: "y < 256 ^ coordLen" "y < cv_P cv"
    using assms by (auto simp: IsOnCurve_def)
  have "ReadBytes (replicate coordLen 0) (reader_of (be_bytes coordLen y)) = (be_bytes coordLen y, reader_of [])"
    using ReadBytes_append [of "replicate coordLen 0" "be_bytes coordLen y" "[]"] by simp
  with x y assms(1) show ?thesis
    by (simp add: bytesToPublicKey_def NewPublicKeyFromBytes_def Key_DecodeBytes_def Key_DecodeBinary_def
        UncompressedBytes_def NewBinReaderFromBuf_def be_nat_be_bytes check_coords_def Reader_Len_def)
qed

definition sample_key :: bytes where
  "sample_key = UncompressedBytes (Point
     0x6b17d1f2e12c4247f8bce6e563a440f277037d812deb33a0f4a13945d898c296
     0x4fe342e2fe1a7f9b8ee7eb4a7c0f9e162bce33576b315ececbb6406837bf51f5)"

lemma sample_key_decodes: "bytesToPublicKey P256 sample_key = Some (Point
    0x6b17d1f2e12c4247f8bce6e563a440f277037d812deb33a0f4a13945d898c296
    0x4fe342e2fe1a7f9b8ee7eb4a7c0f9e162bce33576b315ececbb6406837bf51f5)"
  unfolding sample_key_def
  by (rule uncompressed_decodes) (simp_all add: IsOnCurve_def y_squared_def exp_mod_eq P256_def coordLen_def)

lemma other_keys:
  "bytesToPublicKey cv [0x00] = Some Infinity" "bytesToPublicKey cv [] = None"
  by (simp_all add: bytesToPublicKey_def NewPublicKeyFromBytes_def Key_DecodeBytes_def Key_DecodeBinary_def
        NewBinReaderFromBuf_def Reader_Len_def ReadB_def ReadBytes_def)

theorem CheckMultisigPar_any_schedule_witness:
  "CheckMultisigPar (\<lambda>x y h r s. r = s) (\<lambda>t. t) P256 [] [sample_key, [0x00], sample_key] [replicate 64 1, replicate 64 2] = Verdict True \<and>
   CheckMultisigPar (\<lambda>x y h r s. r = s) (\<lambda>t. t) P256 [] [sample_key, [0x00], sample_key] [replicate 64 1, replicate 63 2] = Verdict False"
proof -
  have half: "take 32 (replicate 64 (b :: byte)) = take 32 (drop 32 (replicate 64 b))" for b by simp
  have ok: "\<forall>k \<in> set [sample_key, [0x00], sample_key]. bytesToPublicKey P256 k \<noteq> None"
    using other_keys sample_key_decodes by simp
  show ?thesis
    using CheckMultisigPar_any_schedule [OF _ _ ok, of "[replicate 64 1, replicate 64 2]"]
      CheckMultisigPar_any_schedule [OF _ _ ok, of "[replicate 64 1, replicate 63 2]"]
    by (simp add: checks_def other_keys sample_key_decodes half SignatureLen_def)
qed

text \<open>
  C40. A key that does not decode makes the outcome depend on the schedule: with three signatures
  that match the other three keys, the call panics, and faults the machine, when the first result to
  arrive is that of the first signature, and accepts when the results of the last one come first.
\<close>

theorem CheckMultisigPar_schedule_matters:
  assumes "bytesToPublicKey cv x = None"
    and "checks ec h cv sa a" and "checks ec h cv sb b" and "checks ec h cv sc c"
  shows "CheckMultisigPar ec (\<lambda>t. 0) cv h [a, x, b, c] [sa, sb, sc] = Panicked \<and>
    CheckMultisigPar ec (\<lambda>t. 1) cv h [a, x, b, c] [sa, sb, sc] = Verdict True"
proof -
  from assms obtain pa pb pc where "bytesToPublicKey cv a = Some pa" "Key_Verify ec h pa sa"
    "bytesToPublicKey cv b = Some pb" "Key_Verify ec h pb sb" "bytesToPublicKey cv c = Some pc" "Key_Verify ec h pc sc"
    by (auto simp: checks_def split: option.splits)
  with assms(1) show ?thesis
    by (simp add: CheckMultisigPar_def par_send_def par_loop.simps par_receive_def drop_nth_def Let_def numeral_2_eq_2)
qed

theorem CheckMultisigPar_schedule_matters_witness:
  "CheckMultisigPar (\<lambda>x y h r s. True) (\<lambda>t. 0) P256 [] [sample_key, [], sample_key, sample_key] (replicate 3 (replicate 64 0)) = Panicked \<and>
   CheckMultisigPar (\<lambda>x y h r s. True) (\<lambda>t. 1) P256 [] [sample_key, [], sample_key, sample_key] (replicate 3 (replicate 64 0)) = Verdict True"
proof -
  have "checks (\<lambda>x y h r s. True) [] P256 (replicate 64 0) sample_key"
    by (simp add: checks_def sample_key_decodes SignatureLen_def)
  then show ?thesis
    using CheckMultisigPar_schedule_matters [OF other_keys(2) [of P256], of "\<lambda>x y h r s. True" "[]" "replicate 64 0" sample_key
        "replicate 64 0" sample_key "replicate 64 0" sample_key]
    by (simp add: numeral_3_eq_3)
qed

end
