(* ===== verification/Interop.thy ===== *)
theory Interop
  imports Vm_Multisig Go_Search
begin

text \<open>
  System calls: the table of \<^verbatim>\<open>pkg/core/interops.go\<close>, its lookup and the handler of \<^verbatim>\<open>pkg/core/interop/context.go\<close>, the
  signature checks of \<^verbatim>\<open>pkg/core/interop/crypto/ecdsa.go\<close>, the burning of gas, and the fee that \<^verbatim>\<open>pkg/core/fee/calculate.go\<close> foresees for
  standard witnesses. The functions of the other system calls are an argument.
\<close>

section \<open>Popping keys and signatures\<close>

fun value_bytes :: "heap \<Rightarrow> stackitem \<Rightarrow> bytes option" where
  "value_bytes h (ByteArray b) = Some b"
| "value_bytes h (BufferItem a) = get_raw h a"
| "value_bytes h _ = None"

fun pop_bytes :: "nat \<Rightarrow> vm \<Rightarrow> (bytes list \<times> vm) option" where
  "pop_bytes 0 v = Some ([], v)"
| "pop_bytes (Suc n) v = do { (b, v) \<leftarrow> popBytes v; (bs, v) \<leftarrow> pop_bytes n v; Some (b # bs, v) }"

definition PopSigElements :: "vm \<Rightarrow> (bytes list \<times> vm) option" where
  "PopSigElements v =
    (if length (estack v) = 0 then None
     else do {
       (item, v) \<leftarrow> Pop v;
       case item of
         ArrayItem a \<Rightarrow> do {
           xs \<leftarrow> get_elems (vm_heap v) a;
           if length xs < 1 then None
           else do { elems \<leftarrow> those (map (value_bytes (vm_heap v)) xs); Some (elems, v) } }
       | _ \<Rightarrow> do {
           i \<leftarrow> TryInteger item;
           let num = sint (word_of_int i :: int64) in
           if num < 1 \<or> num > int (length (estack v)) then None else pop_bytes (nat num) v } })"

section \<open>The interop context\<close>

text \<open>
  The parts of \<^verbatim>\<open>interop.Context\<close> that the calls read, what stands for the elliptic curve and hash primitives, and the
  schedule of the workers in a given state of the machine.
\<close>

record interop_context =
  ic_baseExecFee :: int64
  ic_Network :: uint32
  ic_Container :: uint256
  ic_sha :: "bytes \<Rightarrow> uint256"
  ic_ecdsa :: ecdsa
  ic_sched :: "vm \<Rightarrow> nat \<Rightarrow> nat"

definition ECDSAVerifyPrice :: int64 where
  "ECDSAVerifyPrice = 32768"

definition signed_hash :: "interop_context \<Rightarrow> bytes" where
  "signed_hash ic = BytesBE (NetSha256 (ic_sha ic) (ic_Network ic) (ic_Container ic))"

definition ECDSASecp256r1CheckMultisig :: "interop_context \<Rightarrow> vm \<Rightarrow> vm option" where
  "ECDSASecp256r1CheckMultisig ic v = do {
     (pkeys, v) \<leftarrow> PopSigElements v;
     let (ok, v) = AddGas (ic_baseExecFee ic * ECDSAVerifyPrice * word_of_nat (length pkeys)) v in
     if \<not> ok then None
     else do {
       (sigs, v) \<leftarrow> PopSigElements v;
       if length pkeys < length sigs then None
       else case CheckMultisigPar (ic_ecdsa ic) (ic_sched ic v) P256 (signed_hash ic) pkeys sigs of
         Verdict sigok \<Rightarrow> Some (PushItem (BoolItem sigok) v)
       | _ \<Rightarrow> None } }"

definition ECDSASecp256r1CheckSig :: "interop_context \<Rightarrow> vm \<Rightarrow> vm option" where
  "ECDSASecp256r1CheckSig ic v = do {
     (keyb, v) \<leftarrow> popBytes v;
     (signature, v) \<leftarrow> popBytes v;
     case NewPublicKeyFromBytes P256 keyb of
       Inl _ \<Rightarrow> None
     | Inr pkey \<Rightarrow> Some (PushItem (BoolItem (Key_Verify (ic_ecdsa ic) (signed_hash ic) pkey signature)) v) }"

text \<open>\<^verbatim>\<open>BurnGas\<close> of \<^verbatim>\<open>pkg/core/interop/runtime/engine.go\<close>: any positive \<^verbatim>\<open>int64\<close> is charged.\<close>

definition BurnGas :: "vm \<Rightarrow> vm option" where
  "BurnGas v = do {
     (gas, v) \<leftarrow> popInt v;
     if \<not> (- (2 ^ 63) \<le> gas \<and> gas < 2 ^ 63) then None
     else
       let g = word_of_int gas in
       if sint g \<le> 0 then None
       else let (ok, v) = AddGas g v in
         if \<not> ok then None else Some v }"

section \<open>The table of system calls\<close>

definition ReadStates :: byte where "ReadStates = 1"
definition WriteStates :: byte where "WriteStates = 2"
definition AllowCall :: byte where "AllowCall = 4"
definition AllowNotify :: byte where "AllowNotify = 8"
definition NoneFlag :: byte where "NoneFlag = 0"
definition ReadOnly :: byte where "ReadOnly = ReadStates OR AllowCall"
definition States :: byte where "States = ReadStates OR WriteStates"

definition CallFlag_Has :: "byte \<Rightarrow> byte \<Rightarrow> bool" where
  "CallFlag_Has f cf \<longleftrightarrow> f AND cf = cf"

record interop_function =
  fn_ID :: uint32
  fn_Name :: string
  fn_Func :: "vm \<Rightarrow> vm option"
  fn_Price :: int64
  fn_RequiredFlags :: byte

text \<open>Names, prices and required flags.\<close>

definition interop_table :: "(string \<times> int64 \<times> byte) list" where
  "interop_table = [
     (''System.Contract.Call'', 32768, ReadStates OR AllowCall),
     (''System.Contract.CallNative'', 0, NoneFlag),
     (''System.Contract.CreateMultisigAccount'', 0, NoneFlag),
     (''System.Contract.CreateStandardAccount'', 0, NoneFlag),
     (''System.Contract.GetCallFlags'', 1024, NoneFlag),
     (''System.Contract.NativeOnPersist'', 0, States),
     (''System.Contract.NativePostPersist'', 0, States),
     (''System.Crypto.CheckMultisig'', 0, NoneFlag),
     (''System.Crypto.CheckSig'', ECDSAVerifyPrice, NoneFlag),
     (''System.Iterator.Next'', 32768, NoneFlag),
     (''System.Iterator.Value'', 16, NoneFlag),
     (''System.Runtime.BurnGas'', 16, NoneFlag),
     (''System.Runtime.CheckWitness'', 1024, NoneFlag),
     (''System.Runtime.CurrentSigners'', 16, NoneFlag),
     (''System.Runtime.GasLeft'', 16, NoneFlag),
     (''System.Runtime.GetAddressVersion'', 8, NoneFlag),
     (''System.Runtime.GetCallingScriptHash'', 16, NoneFlag),
     (''System.Runtime.GetEntryScriptHash'', 16, NoneFlag),
     (''System.Runtime.GetExecutingScriptHash'', 16, NoneFlag),
     (''System.Runtime.GetInvocationCounter'', 16, NoneFlag),
     (''System.Runtime.GetNetwork'', 8, NoneFlag),
     (''System.Runtime.GetNotifications'', 4096, NoneFlag),
     (''System.Runtime.GetRandom'', 0, NoneFlag),
     (''System.Runtime.GetScriptContainer'', 8, NoneFlag),
     (''System.Runtime.GetTime'', 8, ReadStates),
     (''System.Runtime.GetTrigger'', 8, NoneFlag),
     (''System.Runtime.LoadScript'', 32768, AllowCall),
     (''System.Runtime.Log'', 32768, AllowNotify),
     (''System.Runtime.Notify'', 32768, AllowNotify),
     (''System.Runtime.Platform'', 8, NoneFlag),
     (''System.Storage.Delete'', 32768, WriteStates),
     (''System.Storage.Find'', 32768, ReadStates),
     (''System.Storage.Get'', 32768, ReadStates),
     (''System.Storage.GetContext'', 16, ReadStates),
     (''System.Storage.GetReadOnlyContext'', 16, ReadStates),
     (''System.Storage.Put'', 32768, WriteStates),
     (''System.Storage.AsReadOnly'', 16, ReadStates)]"

definition interop_func :: "interop_context \<Rightarrow> (string \<Rightarrow> vm \<Rightarrow> vm option) \<Rightarrow> string \<Rightarrow> vm \<Rightarrow> vm option" where
  "interop_func ic others name =
    (if name = ''System.Crypto.CheckMultisig'' then ECDSASecp256r1CheckMultisig ic
     else if name = ''System.Crypto.CheckSig'' then ECDSASecp256r1CheckSig ic
     else if name = ''System.Runtime.BurnGas'' then BurnGas
     else others name)"

text \<open>\<^verbatim>\<open>interop.Sort\<close>, and the table as \<^verbatim>\<open>init\<close> leaves it.\<close>

definition interop_Sort :: "interop_function list \<Rightarrow> interop_function list" where
  "interop_Sort fs = sort_key fn_ID fs"

definition systemInterops :: "interop_context \<Rightarrow> (string \<Rightarrow> vm \<Rightarrow> vm option) \<Rightarrow> interop_function list" where
  "systemInterops ic others = interop_Sort (map (\<lambda>(name, price, flags).
     \<lparr>fn_ID = ToID (ic_sha ic) (string_bytes name), fn_Name = name, fn_Func = interop_func ic others name,
      fn_Price = price, fn_RequiredFlags = flags\<rparr>) interop_table)"

definition GetFunction :: "interop_function list \<Rightarrow> uint32 \<Rightarrow> interop_function option" where
  "GetFunction fs fid =
    (let n = Search (length fs) (\<lambda>i. fn_ID (fs ! i) \<ge> fid) in
     if n < length fs \<and> fn_ID (fs ! n) = fid then Some (fs ! n) else None)"

definition SyscallHandler :: "interop_context \<Rightarrow> interop_function list \<Rightarrow> uint32 \<Rightarrow> vm \<Rightarrow> vm option" where
  "SyscallHandler ic fs fid v = do {
     f \<leftarrow> GetFunction fs fid;
     c \<leftarrow> cur v; sc \<leftarrow> script v c;
     if \<not> CallFlag_Has (sc_callFlag sc) (fn_RequiredFlags f) then None
     else let (ok, v) = AddGas (fn_Price f * ic_baseExecFee ic) v in
       if \<not> ok then None else fn_Func f v }"

definition GetPrice :: "interop_context \<Rightarrow> byte \<Rightarrow> bytes \<Rightarrow> int64" where
  "GetPrice ic op param = fee_Opcode (ic_baseExecFee ic) [op]"

section \<open>The fee of a standard witness\<close>

definition calculateMultisig :: "int64 \<Rightarrow> nat \<Rightarrow> int64" where
  "calculateMultisig base n =
    (let result = fee_Opcode base [opPUSHDATA1] * word_of_nat n;
         bw = emit_Int (word_of_nat n) NewBufBinWriter
     in result + fee_Opcode base [hd (w_buf bw)])"

text \<open>\<^verbatim>\<open>Calculate\<close>: the network fee and the size of a witness with the given verification script.\<close>

definition Calculate :: "(bytes \<Rightarrow> uint256) \<Rightarrow> int64 \<Rightarrow> bytes \<Rightarrow> int64 \<times> nat" where
  "Calculate sha base prog =
    (if IsSignatureContract sha prog then
       (fee_Opcode base [opPUSHDATA1, opPUSHDATA1] + base * ECDSAVerifyPrice,
        67 + getVarIntSize (int (length prog)) + length prog)
     else case ParseMultiSigContract sha prog of
       Some (m, pubs) \<Rightarrow>
         (let n = length pubs; sizeInv = 66 * m in
          (calculateMultisig base m + calculateMultisig base n + base * ECDSAVerifyPrice * word_of_nat n,
           getVarIntSize (int sizeInv) + sizeInv + getVarIntSize (int (length prog)) + length prog))
     | None \<Rightarrow> (0, 0))"

section \<open>The lookup\<close>

text \<open>The handler finds the function with a given identifier, when the table is sorted and they differ.\<close>

lemma GetFunction_found:
  assumes "sorted (map fn_ID fs)" and "distinct (map fn_ID fs)" and "f \<in> set fs"
  shows "GetFunction fs (fn_ID f) = Some f"
proof -
  from assms(3) obtain k where k: "k < length fs" "fs ! k = f" by (auto simp: in_set_conv_nth)
  define n where "n = Search (length fs) (\<lambda>i. fn_ID (fs ! i) \<ge> fn_ID f)"
  have mono: "fn_ID (fs ! b) \<ge> fn_ID (fs ! a)" if "a \<le> b" "b < length fs" for a b
    using that sorted_nth_mono [OF assms(1), of a b] by simp
  have "\<forall>a b. a \<le> b \<longrightarrow> b < length fs \<longrightarrow> fn_ID (fs ! a) \<ge> fn_ID f \<longrightarrow> fn_ID (fs ! b) \<ge> fn_ID f"
    by (blast intro: order.trans mono)
  note found = Search_splits [OF this, folded n_def]
  then have s: "\<And>k. k < n \<Longrightarrow> \<not> fn_ID (fs ! k) \<ge> fn_ID f"
    "\<And>k. n \<le> k \<Longrightarrow> k < length fs \<Longrightarrow> fn_ID (fs ! k) \<ge> fn_ID f" by blast+
  have le: "n \<le> k" using s(1) [of k] k by (cases "n \<le> k") auto
  then have n: "n < length fs" using k by simp
  have eq: "fn_ID (fs ! n) = fn_ID f" using s(2) [of n] n mono [OF le k(1)] k(2) by simp
  then have "n = k" using nth_eq_iff_index_eq [OF assms(2), of n k] n k by simp
  with k eq n show ?thesis by (simp add: GetFunction_def Let_def n_def [symmetric])
qed

text \<open>The identifiers are the first bytes of hashes; the node relies on them being distinct.\<close>

definition interop_ids :: "(bytes \<Rightarrow> uint256) \<Rightarrow> uint32 list" where
  "interop_ids sha = map (\<lambda>(name, _). ToID sha (string_bytes name)) interop_table"

lemma system_call:
  assumes "distinct (interop_ids (ic_sha ic))" and "(name, price, flags) \<in> set interop_table"
  shows "GetFunction (systemInterops ic others) (ToID (ic_sha ic) (string_bytes name)) =
    Some \<lparr>fn_ID = ToID (ic_sha ic) (string_bytes name), fn_Name = name, fn_Func = interop_func ic others name,
      fn_Price = price, fn_RequiredFlags = flags\<rparr>"
proof -
  define mk_fn where "mk_fn = (\<lambda>(name, price, flags). \<lparr>fn_ID = ToID (ic_sha ic) (string_bytes name), fn_Name = name,
      fn_Func = interop_func ic others name, fn_Price = price, fn_RequiredFlags = flags\<rparr>)"
  have tab: "systemInterops ic others = sort_key fn_ID (map mk_fn interop_table)"
    by (simp add: systemInterops_def interop_Sort_def mk_fn_def)
  have "map fn_ID (map mk_fn interop_table) = interop_ids (ic_sha ic)"
    by (simp add: interop_ids_def mk_fn_def case_prod_unfold comp_def)
  moreover have "mset (map fn_ID (sort_key fn_ID (map mk_fn interop_table))) = mset (map fn_ID (map mk_fn interop_table))"
    by (simp only: mset_map mset_sort)
  ultimately have "distinct (map fn_ID (systemInterops ic others))"
    using assms(1) mset_eq_imp_distinct_iff unfolding tab by metis
  moreover have "mk_fn (name, price, flags) \<in> set (systemInterops ic others)"
    using assms(2) unfolding tab set_sort set_map by (rule imageI)
  moreover have "sorted (map fn_ID (systemInterops ic others))" unfolding tab by (rule sorted_sort_key)
  ultimately show ?thesis using GetFunction_found [of _ "mk_fn (name, price, flags)"] by (simp add: mk_fn_def)
qed

end
