(* ===== verification/Vm_Pushes.thy ===== *)
theory Vm_Pushes
  imports Vm_Script
begin

text \<open>
  Scripts that only push items and make a system call, as witnesses of standard accounts do: they pass
  \<^verbatim>\<open>IsScriptCorrect\<close>, and a host with the node's prices (the locale \<open>priced_host\<close>) runs them to the stack and the gas one expects.
\<close>

section \<open>Scripts of pushes\<close>

text \<open>An instruction that neither jumps nor names a type, and one that pushes an item, wherever it stands.\<close>

definition plain :: "bytes \<Rightarrow> bool" where
  "plain code \<longleftrightarrow> code \<noteq> [] \<and> hd code \<notin> set offset_ops \<union> {opTRY, opTRYL, opNEWARRAYT, opISTYPE, opCONVERT} \<and>
     (\<forall>rest. \<exists>param. decode_instr (code @ rest) 0 = Some (hd code, param, length code))"

definition pushes :: "bytes \<Rightarrow> stackitem \<Rightarrow> bool" where
  "pushes code it \<longleftrightarrow> code \<noteq> [] \<and> counted_addr it = None \<and>
     hd code \<notin> set offset_ops \<union> {opTRY, opTRYL, opNEWARRAYT, opISTYPE, opCONVERT} \<and>
     (\<forall>rest. \<exists>param. decode_instr (code @ rest) 0 = Some (hd code, param, length code) \<and>
        (\<forall>H v. execute_op H (hd code) param v = Some (PushItem it v)))"

lemma pushes_plain: "pushes code it \<Longrightarrow> plain code"
  by (auto simp: pushes_def plain_def)

lemma decode_instr_hd: "decode_instr prog 0 = Some (op, param, n) \<Longrightarrow> prog \<noteq> [] \<Longrightarrow> op = hd prog"
  by (cases prog) (auto simp: decode_instr_def Let_def split: if_splits Option.bind_splits)

lemma pushes_bytes:
  assumes "int (length b) \<le> MaxSize"
  shows "pushes (bytes_code b) (ByteArray b)"
proof -
  have ne: "bytes_code b \<noteq> []" by (simp add: bytes_code_def)
  have hd: "hd (bytes_code b) \<in> {opPUSHDATA1, opPUSHDATA2, opPUSHDATA4}" by (simp add: bytes_code_def)
  have "\<exists>param. decode_instr (bytes_code b @ rest) 0 = Some (hd (bytes_code b), param, length (bytes_code b)) \<and>
      (\<forall>H v. execute_op H (hd (bytes_code b)) param v = Some (PushItem (ByteArray b) v))" for rest
  proof -
    from decode_bytes_code [OF assms, of rest] obtain op where
      op: "op \<in> {opPUSHDATA1, opPUSHDATA2, opPUSHDATA4}" "decode_instr (bytes_code b @ rest) 0 = Some (op, b, length (bytes_code b))"
      by blast
    with decode_instr_hd [OF op(2)] ne have "op = hd (bytes_code b)" by simp
    with op execute_pushdata [OF op(1)] show ?thesis by (intro exI [of _ b]) simp
  qed
  with ne hd show ?thesis by (auto simp: pushes_def offset_ops_def)
qed

lemma pushes_integer:
  assumes "CheckIntegerSize n"
  shows "pushes (int_code n) (BigInteger n)"
proof -
  have ne: "int_code n \<noteq> []" by (simp add: int_code_def Let_def)
  have dec: "\<exists>param. decode_instr (int_code n @ rest) 0 = Some (hd (int_code n), param, length (int_code n)) \<and>
      pushes_int (hd (int_code n)) param n" for rest
  proof -
    from decode_int_code [OF assms, of rest] obtain op param where
      op: "decode_instr (int_code n @ rest) 0 = Some (op, param, length (int_code n))" "pushes_int op param n" by blast
    with decode_instr_hd [OF op(1)] ne have "op = hd (int_code n)" by simp
    with op show ?thesis by blast
  qed
  from dec [of "[]"] have "hd (int_code n) \<le> opPUSHINT256 \<or> opPUSHM1 \<le> hd (int_code n) \<and> hd (int_code n) \<le> opPUSH15"
    by (auto simp: pushes_int_def)
  then have "hd (int_code n) \<notin> set offset_ops \<union> {opTRY, opTRYL, opNEWARRAYT, opISTYPE, opCONVERT}"
    by (auto simp: offset_ops_def word_le_nat_alt)
  with ne dec execute_pushes_int [OF _ assms] show ?thesis unfolding pushes_def by (metis counted_addr.simps)
qed

lemma decode_syscall: "decode_instr ((opSYSCALL # put_le 4 (x :: uint32)) @ rest) 0 = Some (opSYSCALL, put_le 4 x, 5)"
  by (simp add: decode_instr_def opcode_valid param_size_def one_byte_ops_def four_byte_ops_def)

lemma plain_syscall: "plain (opSYSCALL # put_le 4 (x :: uint32))"
  using decode_syscall [of x] by (auto simp: plain_def offset_ops_def)

text \<open>Scripts of plain instructions pass the check.\<close>

lemma plain_instr:
  assumes "plain code"
  shows "\<exists>param. decode_instr (pre @ code @ rest) (length pre) = Some (hd code, param, length pre + length code)"
proof -
  obtain param where "decode_instr (code @ rest) 0 = Some (hd code, param, length code)" using assms by (auto simp: plain_def)
  then show ?thesis using decode_instr_at [of code rest] assms by (auto simp: plain_def)
qed

lemma plain_visited:
  "list_all plain cs \<Longrightarrow> b \<in> visited (pre @ concat cs) (length pre) \<Longrightarrow>
    \<exists>op param nip. decode_instr (pre @ concat cs) b = Some (op, param, nip) \<and>
      op \<notin> set offset_ops \<union> {opTRY, opTRYL, opNEWARRAYT, opISTYPE, opCONVERT}"
proof (induction cs arbitrary: pre)
  case Nil
  then show ?case using visited_end [of "pre @ concat []" "length pre"] by simp
next
  case (Cons c cs)
  then obtain param where d: "decode_instr (pre @ concat (c # cs)) (length pre) = Some (hd c, param, length (pre @ c))"
    using plain_instr [of c pre "concat cs"] by auto
  have "length pre < length (pre @ concat (c # cs))" using Cons.prems(1) by (auto simp: plain_def)
  from visited_step [OF this d] Cons.prems(2) consider "b = length pre" | "b \<in> visited ((pre @ c) @ concat cs) (length (pre @ c))" by auto
  then show ?case
  proof cases
    case 1
    with d Cons.prems(1) show ?thesis by (auto simp: plain_def)
  next
    case 2
    with Cons.IH [of "pre @ c"] Cons.prems(1) show ?thesis by simp
  qed
qed

lemma plain_script_correct:
  assumes "list_all plain cs"
  shows "IsScriptCorrect (concat cs) None = None"
proof -
  have starts: "starts (concat cs) = visited (concat cs) 0" by (auto simp: starts_def visited_def boundary_reaches)
  have "instr_ok (concat cs) b \<and> jumps_from (concat cs) {b} = {}" if "b \<in> visited (concat cs) 0" for b
    using plain_visited [OF assms, of b "[]"] that
    by (auto simp: instr_ok_def types_ok_def instr_targets_def jumps_from_def target_bits_def)
  then have "script_correct (concat cs)" unfolding script_correct_def starts by (fastforce simp: jumps_from_def)
  then show ?thesis by (simp add: IsScriptCorrect_None)
qed

section \<open>Running pushes\<close>

text \<open>A machine in the state of a verification: the root stack is empty, the second one is in use.\<close>

definition ctx :: "nat \<Rightarrow> nat \<Rightarrow> nat \<Rightarrow> int \<Rightarrow> vm_context" where
  "ctx ip nip s rc = \<lparr>cx_ip = ip, cx_nextip = nip, cx_sc = s, cx_local = None, cx_arguments = None, cx_tryStack = [], cx_retCount = rc\<rparr>"

definition mach :: "vm_context list \<Rightarrow> script_context list \<Rightarrow> stackitem list \<Rightarrow> int \<Rightarrow> nat \<Rightarrow> nat \<Rightarrow> vm" where
  "mach cs scs xs r g L =
    \<lparr>vm_state = NoneState, vm_istack = cs, vm_scs = scs, vm_estack = 1, vm_stacks = [[], xs], vm_uncaughtException = None,
     vm_heap = [], vm_refs = r, vm_gasConsumed = word_of_nat g, vm_GasLimit = word_of_nat L\<rparr>"

lemma mach_simps [simp]:
  "estack (mach cs scs xs r g L) = xs" "set_estack ys (mach cs scs xs r g L) = mach cs scs ys r g L"
  "vm_heap (mach cs scs xs r g L) = []" "vm_refs (mach cs scs xs r g L) = r" "vm_state (mach cs scs xs r g L) = NoneState"
  "vm_istack (mach cs scs xs r g L) = cs" "vm_gasConsumed (mach cs scs xs r g L) = word_of_nat g"
  "vm_GasLimit (mach cs scs xs r g L) = word_of_nat L" "cur (mach (c # cs) scs xs r g L) = Some c"
  "set_cur c' (mach (c # cs) scs xs r g L) = mach (c' # cs) scs xs r g L"
  "(mach cs scs xs r g L)\<lparr>vm_gasConsumed := word_of_nat g'\<rparr> = mach cs scs xs r g' L"
  "(mach cs scs xs r g L)\<lparr>vm_istack := cs'\<rparr> = mach cs' scs xs r g L"
  "script (mach cs scs xs r g L) c = (if cx_sc c < length scs then Some (scs ! cx_sc c) else None)"
  by (simp_all add: mach_def estack_def set_estack_def cur_def set_cur_def script_def)

lemma mach_PushItem: "counted_addr it = None \<Longrightarrow> PushItem it (mach cs scs xs r g L) = mach cs scs (it # xs) (r + 1) g L"
  by (simp add: PushItem_def count_in_def add_items.simps) (simp add: mach_def)

lemma mach_Pop: "counted_addr it = None \<Longrightarrow> Pop (mach cs scs (it # xs) r g L) = Some (it, mach cs scs xs (r - 1) g L)"
  by (simp add: Pop_def count_out_def remove_items.simps) (simp add: mach_def)

lemma ctx_simps [simp]:
  "cx_ip (ctx ip nip s rc) = ip" "cx_nextip (ctx ip nip s rc) = nip" "cx_sc (ctx ip nip s rc) = s"
  "(ctx ip nip s rc)\<lparr>cx_ip := ip'\<rparr> = ctx ip' nip s rc" "(ctx ip nip s rc)\<lparr>cx_nextip := nip'\<rparr> = ctx ip nip' s rc"
  "cx_retCount (ctx ip nip s rc) = rc" "cx_local (ctx ip nip s rc) = None" "cx_arguments (ctx ip nip s rc) = None"
  by (simp_all add: ctx_def)

text \<open>The cost of code, in units of the base fee.\<close>

definition code_cost :: "nat \<Rightarrow> bytes \<Rightarrow> nat" where
  "code_cost b code = coefficients (hd code) * b"

fun total_cost :: "nat \<Rightarrow> bytes list \<Rightarrow> nat" where
  "total_cost b [] = 0"
| "total_cost b (code # codes) = code_cost b code + total_cost b codes"

text \<open>A host with the node's prices.\<close>

locale priced_host =
  fixes H :: host and b :: nat
  assumes price: "ho_getPrice H = Some (\<lambda>op param. fee_Opcode (word_of_nat b) [op])"
begin

lemma fee_word: "fee_Opcode (word_of_nat b) [op] = word_of_nat (coefficients op * b)"
  by (simp add: fee_Opcode_def)

text \<open>A push, with the gas counter at any value that the machine accepts; and with room for it.\<close>

lemma mach_step_push:
  assumes prog: "s < length scs" "sc_prog (scs ! s) = pre @ code @ rest"
    and push: "pushes code it" and gas: "sint (word_of_nat (g + code_cost b code) :: int64) \<le> int L" "L < 2 ^ 63"
  shows "step H (mach (ctx ip (length pre) s rc # cs) scs xs r g L) =
    (let v = mach (ctx (length pre) (length pre + length code) s rc # cs) scs (it # xs) (r + 1) (g + code_cost b code) L
     in if r + 1 > MaxStackSize then v\<lparr>vm_state := Fault\<rparr> else v)"
proof -
  obtain param where d: "decode_instr (code @ rest) 0 = Some (hd code, param, length code)"
    and ex: "\<And>v. execute_op H (hd code) param v = Some (PushItem it v)" using push unfolding pushes_def by blast
  have ne: "code \<noteq> []" and it: "counted_addr it = None" using push by (simp_all add: pushes_def)
  let ?v = "mach (ctx ip (length pre) s rc # cs) scs xs r g L"
  let ?u = "\<lambda>g. mach (ctx (length pre) (length pre + length code) s rc # cs) scs xs r g L"
  have nx: "Next ?v = Some (hd code, param, ?u g)"
    using prog decode_instr_at [OF d, of pre] ne by (simp add: Next_decode)
  have pr: "priced H (?u k)" for k
    using prog price ne by (simp add: priced_def)
  have ch: "charge H (hd code) param (?u g) = ?u (g + code_cost b code)"
    using price pr by (simp add: charge_def fee_word code_cost_def) (simp add: mach_def)
  have "\<not> out_of_gas H (?u (g + code_cost b code))"
    using gas by (simp add: out_of_gas_def sint_small del: of_nat_add)
  then show ?thesis by (simp add: step_def nx execute_def ch Let_def ex mach_PushItem [OF it])
qed

lemma mach_run:
  assumes prog: "s < length scs" "sc_prog (scs ! s) = pre @ code @ rest" "sc_breakPoints (scs ! s) = []"
    and push: "pushes code it" and gas: "g + code_cost b code \<le> L" "L < 2 ^ 63" and refs: "r + 1 \<le> MaxStackSize"
  shows "run_loop H (Suc n) (mach (ctx ip (length pre) s rc # cs) scs xs r g L) =
    run_loop H n (mach (ctx (length pre) (length pre + length code) s rc # cs) scs (it # xs) (r + 1) (g + code_cost b code) L)"
proof -
  have "sint (word_of_nat (g + code_cost b code) :: int64) \<le> int L" using gas sint_small [of "g + code_cost b code"] by simp
  from mach_step_push [OF prog(1,2) push this gas(2), of ip rc cs xs r] show ?thesis
    using prog(1,3) refs by (simp add: Let_def atBreakPoint_def)
qed

text \<open>A push on a full stack faults.\<close>

lemma mach_run_full:
  assumes prog: "s < length scs" "sc_prog (scs ! s) = pre @ code @ rest"
    and push: "pushes code it" and gas: "g + code_cost b code \<le> L" "L < 2 ^ 63" and refs: "r + 1 > MaxStackSize"
  shows "\<exists>v. run_loop H (Suc n) (mach (ctx ip (length pre) s rc # cs) scs xs r g L) = Some v \<and> vm_state v = Fault"
proof -
  have "sint (word_of_nat (g + code_cost b code) :: int64) \<le> int L" using gas sint_small [of "g + code_cost b code"] by simp
  from mach_step_push [OF prog push this gas(2), of ip rc cs xs r] show ?thesis using refs by (simp add: Let_def)
qed

lemma mach_run_all:
  assumes "s < length scs" and "sc_breakPoints (scs ! s) = []" and "L < 2 ^ 63"
  shows "list_all (\<lambda>(code, it). pushes code it) ps \<Longrightarrow> sc_prog (scs ! s) = pre @ concat (map fst ps) @ rest \<Longrightarrow>
    g + total_cost b (map fst ps) \<le> L \<Longrightarrow> r + int (length ps) \<le> MaxStackSize \<Longrightarrow>
    \<exists>ip'. run_loop H (length ps + n) (mach (ctx ip (length pre) s rc # cs) scs xs r g L) =
      run_loop H n (mach (ctx ip' (length pre + length (concat (map fst ps))) s rc # cs) scs (rev (map snd ps) @ xs)
        (r + int (length ps)) (g + total_cost b (map fst ps)) L)"
proof (induction ps arbitrary: pre ip xs r g)
  case (Cons p ps)
  obtain code it where p: "p = (code, it)" by (cases p)
  have "run_loop H (Suc (length ps + n)) (mach (ctx ip (length pre) s rc # cs) scs xs r g L) =
    run_loop H (length ps + n) (mach (ctx (length pre) (length (pre @ code)) s rc # cs) scs (it # xs) (r + 1) (g + code_cost b code) L)"
    using mach_run [of s scs pre code "concat (map fst ps) @ rest" it g L r "length ps + n"] assms Cons.prems p by simp
  moreover have "\<exists>ip'. run_loop H (length ps + n)
        (mach (ctx (length pre) (length (pre @ code)) s rc # cs) scs (it # xs) (r + 1) (g + code_cost b code) L) =
      run_loop H n (mach (ctx ip' (length (pre @ code) + length (concat (map fst ps))) s rc # cs) scs (rev (map snd ps) @ it # xs)
        (r + 1 + int (length ps)) (g + code_cost b code + total_cost b (map fst ps)) L)"
    by (rule Cons.IH) (use Cons.prems p in simp_all)
  ultimately show ?case using p by (auto simp: add.assoc add.commute add.left_commute)
qed auto

text \<open>The end of a script: back to the script that was loaded before it, or to the host.\<close>

lemma mach_step_ret:
  assumes "s < length scs" and "nip = length (sc_prog (scs ! s))" and "ho_getPrice H \<noteq> None"
  shows "step H (mach (ctx ip nip s rc # cs) scs xs r g L) =
    (case execute_ret H (mach (ctx nip nip s rc # cs) scs xs r g L) of
       None \<Rightarrow> (mach (ctx nip nip s rc # cs) scs xs r g L)\<lparr>vm_state := Fault\<rparr>
     | Some v \<Rightarrow> if vm_refs v > MaxStackSize then v\<lparr>vm_state := Fault\<rparr> else v)"
proof -
  have nx: "Next (mach (ctx ip nip s rc # cs) scs xs r g L) = Some (opRET, [], mach (ctx nip nip s rc # cs) scs xs r g L)"
    using assms by (simp add: Next_def Let_def)
  have "\<not> priced H (mach (ctx nip nip s rc # cs) scs xs r g L)" using assms by (simp add: priced_def)
  then show ?thesis using assms(3)
    by (auto simp: step_def nx execute_def charge_def out_of_gas_def Let_def execute_op_free split: option.splits)
qed

lemma mach_ret_inner:
  assumes "s < length scs" and "sc_static (scs ! s) = None" and "sc_onUnload (scs ! s) = NoCallback"
    and "nip = length (sc_prog (scs ! s))" and "s' < length scs" and "s' \<noteq> s" and "sc_estack (scs ! s') = 1"
    and "sc_breakPoints (scs ! s') = []" and "r \<le> MaxStackSize"
  shows "run_loop H (Suc n) (mach (ctx ip nip s rc # ctx ip' nip' s' rc' # cs) scs xs r g L) =
    run_loop H n (mach (ctx ip' nip' s' rc' # cs) scs xs r g L)"
proof -
  have es: "vm_estack (mach cs scs xs r g L) = 1" for cs xs r by (simp add: mach_def)
  have "execute_ret H (mach (ctx nip nip s rc # ctx ip' nip' s' rc' # cs) scs xs r g L) = Some (mach (ctx ip' nip' s' rc' # cs) scs xs r g L)"
    using assms by (simp add: execute_ret_def unloadContext_def ClearRefs_def es Let_def)
  then have "step H (mach (ctx ip nip s rc # ctx ip' nip' s' rc' # cs) scs xs r g L) = mach (ctx ip' nip' s' rc' # cs) scs xs r g L"
    using mach_step_ret [OF assms(1,4)] price assms(9) by simp
  then show ?thesis using assms(5,8) by (simp add: Let_def atBreakPoint_def)
qed

lemma mach_ret_last:
  assumes "s < length scs" and "sc_static (scs ! s) = None" and "sc_onUnload (scs ! s) = NoCallback"
    and "nip = length (sc_prog (scs ! s))" and "r \<le> MaxStackSize"
  shows "run_loop H (Suc (Suc n)) (mach [ctx ip nip s rc] scs xs r g L) = Some ((mach [] scs xs r g L)\<lparr>vm_state := Halt\<rparr>)"
proof -
  have none: "cur (mach [] scs xs r g L) = None" by (simp add: mach_def cur_def)
  have "execute_ret H (mach [ctx nip nip s rc] scs xs r g L) = Some ((mach [] scs xs r g L)\<lparr>vm_state := Halt\<rparr>)"
    using assms by (simp add: execute_ret_def unloadContext_def ClearRefs_def none Let_def)
  then have "step H (mach [ctx ip nip s rc] scs xs r g L) = (mach [] scs xs r g L)\<lparr>vm_state := Halt\<rparr>"
    using mach_step_ret [OF assms(1,4)] price assms(5) by simp
  then show ?thesis by (simp add: Let_def atBreakPoint_def) (simp add: cur_def)
qed

lemma mach_step_syscall:
  assumes prog: "s < length scs" "sc_prog (scs ! s) = pre @ opSYSCALL # put_le 4 fid @ rest"
    and handler: "ho_SyscallHandler H = Some handler"
      "handler (fid :: uint32) (mach (ctx (length pre) (length pre + 5) s rc # cs) scs xs r g L) =
        Some (mach (ctx (length pre) (length pre + 5) s rc # cs) scs ys r' g' L)"
    and gas: "sint (word_of_nat g :: int64) \<le> int L" "L < 2 ^ 63" and refs: "r' \<le> MaxStackSize"
  shows "step H (mach (ctx ip (length pre) s rc # cs) scs xs r g L) =
    mach (ctx (length pre) (length pre + 5) s rc # cs) scs ys r' g' L"
proof -
  let ?v = "mach (ctx ip (length pre) s rc # cs) scs xs r g L"
  let ?u = "mach (ctx (length pre) (length pre + 5) s rc # cs) scs xs r g L"
  have nx: "Next ?v = Some (opSYSCALL, put_le 4 fid, ?u)"
    using prog decode_instr_at [OF decode_syscall [of fid rest], of pre] by (simp add: Next_decode)
  have "coefficients opSYSCALL = 0" by (simp add: coefficients_def coefficient_table_def)
  then have ch: "charge H opSYSCALL (put_le 4 fid) ?u = ?u"
    using price fee_word [of opSYSCALL] by (simp add: charge_def)
  have og: "\<not> out_of_gas H ?u" using gas by (simp add: out_of_gas_def sint_small)
  have "get_le (put_le 4 fid) = fid" by (rule get_le_put_le) simp
  then show ?thesis
    using refs handler by (simp add: step_def nx execute_def ch og Let_def execute_op_free)
qed

lemma mach_syscall:
  assumes prog: "s < length scs" "sc_prog (scs ! s) = pre @ opSYSCALL # put_le 4 fid" "sc_breakPoints (scs ! s) = []"
    and handler: "ho_SyscallHandler H = Some handler"
      "handler (fid :: uint32) (mach (ctx (length pre) (length pre + 5) s rc # cs) scs xs r g L) =
        Some (mach (ctx (length pre) (length pre + 5) s rc # cs) scs ys r' g' L)"
    and gas: "g \<le> L" "L < 2 ^ 63" and refs: "r' \<le> MaxStackSize"
  shows "run_loop H (Suc n) (mach (ctx ip (length pre) s rc # cs) scs xs r g L) =
    run_loop H n (mach (ctx (length pre) (length pre + 5) s rc # cs) scs ys r' g' L)"
proof -
  have "sint (word_of_nat g :: int64) \<le> int L" using gas sint_small [of g] by simp
  from mach_step_syscall [OF prog(1) _ handler this gas(2) refs, of "[]" ip] show ?thesis
    using prog by (simp add: Let_def atBreakPoint_def)
qed

end

end
