(* ===== verification/Witness_Check.thy ===== *)
theory Witness_Check
  imports Interop Vm_Pushes
begin

text \<open>
  The verification of witnesses: \<^verbatim>\<open>InitVerificationContext\<close> and \<^verbatim>\<open>verifyHashAgainstScript\<close> of \<^verbatim>\<open>pkg/core/blockchain.go\<close>, over the virtual
  machine and the system calls. For the standard accounts the outcome of running the two scripts is
  worked out: they are accepted exactly when the signatures match, for exactly the gas that
  \<^verbatim>\<open>fee.Calculate\<close> foresees.
\<close>

section \<open>Contracts and witnesses\<close>

text \<open>
  What the verification reads of a deployed contract (\<^verbatim>\<open>state.Contract\<close>), and of the chain: which hashes
  belong to native contracts, the deployed contracts, the limit that the policy contract sets; further the hash of scripts, the functions of the other
  system calls, and what they leave behind for calls of tokens and for contexts that are unloaded.
\<close>

record abi_method =
  md_Name :: string
  md_Parameters :: "byte list"
  md_Offset :: nat
  md_ReturnType :: byte

record contract_state =
  cs_Hash :: uint160
  cs_Script :: bytes
  cs_Methods :: "abi_method list"

definition BoolType :: byte where "BoolType = 0x10"

fun GetMethod :: "abi_method list \<Rightarrow> string \<Rightarrow> int \<Rightarrow> abi_method option" where
  "GetMethod [] name paramCount = None"
| "GetMethod (m # ms) name paramCount =
    (if md_Name m = name \<and> (paramCount = -1 \<or> int (length (md_Parameters m)) = paramCount) then Some m
     else GetMethod ms name paramCount)"

record chain_view =
  ch_isNative :: "uint160 \<Rightarrow> bool"
  ch_getContract :: "uint160 \<Rightarrow> contract_state option"
  ch_MaxVerificationGas :: int64
  ch_hash160 :: "bytes \<Rightarrow> uint160"
  ch_others :: "string \<Rightarrow> vm \<Rightarrow> vm option"
  ch_loadToken :: "int \<Rightarrow> vm \<Rightarrow> vm option"
  ch_onUnload :: "nat \<Rightarrow> vm_context \<Rightarrow> bool \<Rightarrow> vm \<Rightarrow> vm option"

datatype verify_err = ErrWitnessHashMismatch | ErrNativeContractWitness | ErrInvalidVerificationScript script_err
  | ErrUnknownVerificationContract | ErrInvalidVerificationContract | ErrInvalidInvocationScript script_err
  | ErrVerificationFailed | ErrInvalidSignature int64 | VerifyPanic | VerifyOutOfFuel

text \<open>\<^verbatim>\<open>initVM\<close>: a new machine, and what it calls.\<close>

definition spawn_host :: "chain_view \<Rightarrow> interop_context \<Rightarrow> host" where
  "spawn_host ch ic = \<lparr>ho_hash160 = ch_hash160 ch, ho_getPrice = Some (GetPrice ic),
     ho_SyscallHandler = Some (SyscallHandler ic (systemInterops ic (ch_others ch))),
     ho_LoadToken = Some (ch_loadToken ch), ho_onUnload = ch_onUnload ch\<rparr>"

definition SpawnVM :: vm where
  "SpawnVM = New_vm\<lparr>vm_GasLimit := -1\<rparr>"

text \<open>
  \<^verbatim>\<open>InitVerificationContext\<close> loads the verification script, or the \<^verbatim>\<open>verify\<close> method of a contract, and the invocation
  script. The counter of invocations of the contract, which only other system calls read, is left out.
\<close>

definition load_verify_method :: "contract_state \<Rightarrow> uint160 \<Rightarrow> vm \<Rightarrow> verify_err + vm" where
  "load_verify_method cs hsh v = (case GetMethod (cs_Methods cs) ''verify'' (-1) of
     None \<Rightarrow> Inl ErrInvalidVerificationContract
   | Some md \<Rightarrow>
       if md_ReturnType md \<noteq> BoolType then Inl ErrInvalidVerificationContract
       else
         let initOffset = (case GetMethod (cs_Methods cs) ''_initialize'' 0 of None \<Rightarrow> -1 | Some m \<Rightarrow> int (md_Offset m)) in
         case LoadNEFMethod (cs_Script cs) 0 hsh ReadOnly True (md_Offset md) initOffset NoCallback v of
           None \<Rightarrow> Inl VerifyPanic
         | Some v \<Rightarrow> Inr v)"

definition load_verification :: "chain_view \<Rightarrow> host \<Rightarrow> uint160 \<Rightarrow> bytes \<Rightarrow> vm \<Rightarrow> verify_err + vm" where
  "load_verification ch H hsh verif v =
    (if length verif \<noteq> 0 then
       if ch_hash160 ch verif \<noteq> hsh then Inl ErrWitnessHashMismatch
       else if ch_isNative ch hsh then Inl ErrNativeContractWitness
       else case IsScriptCorrect verif None of
         Some e \<Rightarrow> Inl (ErrInvalidVerificationScript e)
       | None \<Rightarrow> (case LoadScriptWithHash H verif hsh ReadOnly v of None \<Rightarrow> Inl VerifyPanic | Some v \<Rightarrow> Inr v)
     else case ch_getContract ch hsh of
       None \<Rightarrow> Inl ErrUnknownVerificationContract
     | Some cs \<Rightarrow> load_verify_method cs hsh v)"

definition InitVerificationContext :: "chain_view \<Rightarrow> host \<Rightarrow> uint160 \<Rightarrow> bytes \<Rightarrow> bytes \<Rightarrow> vm \<Rightarrow> verify_err + vm" where
  "InitVerificationContext ch H hsh invoc verif v = (case load_verification ch H hsh verif v of
     Inl e \<Rightarrow> Inl e
   | Inr v \<Rightarrow>
       if length invoc \<noteq> 0 then
         (case IsScriptCorrect invoc None of
            Some e \<Rightarrow> Inl (ErrInvalidInvocationScript e)
          | None \<Rightarrow> (case LoadScriptWithFlags H invoc NoneFlag v of None \<Rightarrow> Inl VerifyPanic | Some v \<Rightarrow> Inr v))
       else Inr v)"

text \<open>\<^verbatim>\<open>verifyHashAgainstScript\<close>, with fuel for the machine: the gas consumed, or an error.\<close>

definition verify_result :: "vm \<Rightarrow> verify_err + int64" where
  "verify_result v =
    (if vm_state v = Fault then Inl ErrVerificationFailed
     else if length (estack v) > 0 then
       (case Pop v of
          None \<Rightarrow> Inl VerifyPanic
        | Some (resEl, v) \<Rightarrow> (case TryBool resEl of
            None \<Rightarrow> Inl ErrVerificationFailed
          | Some res \<Rightarrow>
              if length (estack v) \<noteq> 0 then Inl ErrVerificationFailed
              else if \<not> res then Inl (ErrInvalidSignature (vm_gasConsumed v))
              else Inr (vm_gasConsumed v)))
     else Inl ErrVerificationFailed)"

definition verifyHashAgainstScript ::
  "nat \<Rightarrow> chain_view \<Rightarrow> interop_context \<Rightarrow> uint160 \<Rightarrow> bytes \<Rightarrow> bytes \<Rightarrow> int64 \<Rightarrow> verify_err + int64" where
  "verifyHashAgainstScript fuel ch ic hsh invoc verif gas =
    (let gasPolicy = ch_MaxVerificationGas ch;
         gas = (if sint gas > sint gasPolicy then gasPolicy else gas);
         H = spawn_host ch ic
     in case InitVerificationContext ch H hsh invoc verif (SpawnVM\<lparr>vm_GasLimit := gas\<rparr>) of
          Inl e \<Rightarrow> Inl e
        | Inr v \<Rightarrow> (case Run H fuel v of None \<Rightarrow> Inl VerifyOutOfFuel | Some v \<Rightarrow> verify_result v))"

section \<open>The system calls on a machine of the node\<close>

text \<open>The machines that the node spawns are hosts with its prices.\<close>

interpretation spawned: priced_host "spawn_host ch (ic\<lparr>ic_baseExecFee := word_of_nat b\<rparr>)" b for ch ic b
  by unfold_locales (simp add: spawn_host_def GetPrice_def fun_eq_iff)

lemma mach_popBytes: "popBytes (mach cs scs (ByteArray b # xs) r g L) = Some (b, mach cs scs xs (r - 1) g L)"
  by (simp add: popBytes_def mach_Pop)

lemma mach_pop_bytes:
  "pop_bytes (length bs) (mach cs scs (map ByteArray bs @ xs) r g L) = Some (bs, mach cs scs xs (r - int (length bs)) g L)"
  by (induction bs arbitrary: r) (simp_all add: mach_popBytes algebra_simps)

lemma mach_PopSigElements:
  assumes "1 \<le> length bs" and "length bs < 2 ^ 63"
  shows "PopSigElements (mach cs scs (BigInteger (int (length bs)) # map ByteArray bs @ xs) r g L) =
    Some (bs, mach cs scs xs (r - 1 - int (length bs)) g L)"
proof -
  have "sint (word_of_int (int (length bs)) :: int64) = int (length bs)" using sint_small [OF assms(2)] by simp
  moreover have "bs \<noteq> []" using assms(1) by auto
  ultimately show ?thesis by (simp add: PopSigElements_def mach_Pop mach_pop_bytes Let_def)
qed

text \<open>Charging, as long as the counter, read as a signed number, does not pass the limit; and without a wrap-around.\<close>

lemma mach_AddGas_fits:
  assumes "sint (word_of_nat (g + k) :: int64) \<le> int L" and "L < 2 ^ 63"
  shows "AddGas (word_of_nat k) (mach cs scs xs r g L) = (True, mach cs scs xs r (g + k) L)"
  using assms sint_small [of L] by (simp add: AddGas_def mach_def)

lemma fits_small: "g \<le> L \<Longrightarrow> L < 2 ^ 63 \<Longrightarrow> sint (word_of_nat g :: int64) \<le> int L"
  using sint_small [of g] by simp

lemmas mach_AddGas = mach_AddGas_fits [OF fits_small]

lemma mach_CheckMultisig:
  assumes base: "ic_baseExecFee ic = word_of_nat b"
    and keys: "1 \<le> length pkeys" "length pkeys < 2 ^ 63" "\<forall>k \<in> set pkeys. bytesToPublicKey P256 k \<noteq> None"
    and sigs: "1 \<le> length sigs" "length sigs \<le> length pkeys"
    and gas: "g + 32768 * b * length pkeys \<le> L" "L < 2 ^ 63"
  shows "ECDSASecp256r1CheckMultisig ic (mach cs scs (BigInteger (int (length pkeys)) # map ByteArray pkeys @
      BigInteger (int (length sigs)) # map ByteArray sigs @ xs) r g L) =
    Some (mach cs scs (BoolItem (signed_by (ic_ecdsa ic) (signed_hash ic) P256 sigs pkeys) # xs)
      (r - 1 - int (length pkeys) - int (length sigs)) (g + 32768 * b * length pkeys) L)"
proof -
  have price: "ic_baseExecFee ic * ECDSAVerifyPrice * word_of_nat (length pkeys) = word_of_nat (32768 * b * length pkeys)"
    by (simp add: base ECDSAVerifyPrice_def)
  have len: "length sigs < 2 ^ 63" using sigs keys by simp
  have ok: "CheckMultisigPar (ic_ecdsa ic) sched P256 (signed_hash ic) pkeys sigs =
      Verdict (signed_by (ic_ecdsa ic) (signed_hash ic) P256 sigs pkeys)" for sched
    by (rule CheckMultisigPar_verdict [OF sigs keys(3)])
  show ?thesis
    unfolding ECDSASecp256r1CheckMultisig_def mach_PopSigElements [OF keys(1,2)] bind.bind_lunit prod.case price
      mach_AddGas [OF gas gas(2)] Let_def if_False not_True_eq_False mach_PopSigElements [OF sigs(1) len] ok par_result.case
    using sigs(2) by (simp add: mach_PushItem algebra_simps)
qed

lemma mach_CheckSig:
  assumes "bytesToPublicKey P256 key = Some p"
  shows "ECDSASecp256r1CheckSig ic (mach cs scs (ByteArray key # ByteArray sig # xs) r g L) =
    Some (mach cs scs (BoolItem (Key_Verify (ic_ecdsa ic) (signed_hash ic) p sig) # xs) (r - 1) g L)"
  using assms by (simp add: ECDSASecp256r1CheckSig_def mach_popBytes mach_PushItem bytesToPublicKey_def split: sum.splits)

lemma mach_SyscallHandler_fits:
  assumes ids: "distinct (interop_ids (ic_sha ic))" and tab: "(name, price, NoneFlag) \<in> set interop_table"
    and base: "ic_baseExecFee ic = word_of_nat b" and price: "price = word_of_nat k"
    and gas: "sint (word_of_nat (g + k * b) :: int64) \<le> int L" "L < 2 ^ 63" and s: "s < length scs"
    and func: "interop_func ic others name (mach (ctx ip nip s rc # cs) scs xs r (g + k * b) L) = Some v"
  shows "SyscallHandler ic (systemInterops ic others) (ToID (ic_sha ic) (string_bytes name)) (mach (ctx ip nip s rc # cs) scs xs r g L) = Some v"
proof -
  have "price * ic_baseExecFee ic = word_of_nat (k * b)" by (simp add: base price)
  then show ?thesis
    using s func mach_AddGas_fits [OF gas, of "ctx ip nip s rc # cs" scs xs r]
    by (simp add: SyscallHandler_def system_call [OF ids tab] CallFlag_Has_def NoneFlag_def Let_def)
qed

lemma mach_SyscallHandler:
  assumes ids: "distinct (interop_ids (ic_sha ic))" and tab: "(name, price, NoneFlag) \<in> set interop_table"
    and base: "ic_baseExecFee ic = word_of_nat b" and price: "price = word_of_nat k"
    and gas: "g + k * b \<le> L" "L < 2 ^ 63" and s: "s < length scs"
    and func: "interop_func ic others name (mach (ctx ip nip s rc # cs) scs xs r (g + k * b) L) = Some v"
  shows "SyscallHandler ic (systemInterops ic others) (ToID (ic_sha ic) (string_bytes name)) (mach (ctx ip nip s rc # cs) scs xs r g L) = Some v"
  by (rule mach_SyscallHandler_fits [OF ids tab base price fits_small [OF gas] gas(2) s func])

section \<open>Running a witness\<close>

definition verif_context :: "bytes \<Rightarrow> uint160 \<Rightarrow> script_context" where
  "verif_context verif hsh = \<lparr>sc_prog = verif, sc_breakPoints = [], sc_estack = 1, sc_static = None, sc_scriptHash = hsh,
     sc_callingScriptHash = 0, sc_callingContext = None, sc_callFlag = ReadOnly, sc_onUnload = NoCallback\<rparr>"

definition invoc_context :: "bytes \<Rightarrow> uint160 \<Rightarrow> script_context" where
  "invoc_context invoc caller = \<lparr>sc_prog = invoc, sc_breakPoints = [], sc_estack = 1, sc_static = None, sc_scriptHash = 0,
     sc_callingScriptHash = caller, sc_callingContext = Some 0, sc_callFlag = NoneFlag, sc_onUnload = NoCallback\<rparr>"

lemma verification_loaded:
  "LoadScriptWithHash H verif hsh ReadOnly (SpawnVM\<lparr>vm_GasLimit := word_of_nat L\<rparr>) =
    Some (mach [ctx 0 0 0 1] [verif_context verif hsh] [] 0 0 L)"
  by (simp add: LoadScriptWithHash_def loadScriptWithCallingHash_def SpawnVM_def New_vm_def checkInvocationStackSize_def
      MaxInvocationStackSize_def cur_def GetCurrentScriptHash_def getContextScriptHash_def mach_def ctx_def verif_context_def estack_def Let_def)

lemma witness_loaded:
  assumes "verif \<noteq> []" and "invoc \<noteq> []" and "ch_hash160 ch verif = hsh" and "\<not> ch_isNative ch hsh"
    and "IsScriptCorrect verif None = None" and "IsScriptCorrect invoc None = None"
  shows "\<exists>caller. InitVerificationContext ch H hsh invoc verif (SpawnVM\<lparr>vm_GasLimit := word_of_nat L\<rparr>) =
    Inr (mach [ctx 0 0 1 (-1), ctx 0 0 0 1] [verif_context verif hsh, invoc_context invoc caller] [] 0 0 L)"
proof -
  have size: "checkInvocationStackSize (mach cs scs xs r g L)" if "length cs \<le> 1" for cs scs xs r g
    using that by (simp add: checkInvocationStackSize_def MaxInvocationStackSize_def)
  have i: "LoadScriptWithFlags H invoc NoneFlag (mach [ctx 0 0 0 1] [verif_context verif hsh] [] 0 0 L) =
      Some (mach [ctx 0 0 1 (-1), ctx 0 0 0 1] [verif_context verif hsh, invoc_context invoc (GetCurrentScriptHash H (mach [ctx 0 0 0 1] [verif_context verif hsh] [] 0 0 L))] [] 0 0 L)"
    by (simp add: LoadScriptWithFlags_def loadScriptWithCallingHash_def size Let_def)
      (simp add: mach_def ctx_def verif_context_def invoc_context_def set_script_def estack_def)
  show ?thesis
    using assms verification_loaded i by (auto simp: InitVerificationContext_def load_verification_def)
qed

lemma total_cost_append: "total_cost b (xs @ ys) = total_cost b xs + total_cost b ys"
  by (induction xs) simp_all

lemma witness_run:
  assumes base: "ic_baseExecFee ic = word_of_nat b" and H: "H = spawn_host ch ic"
    and ps: "list_all (\<lambda>(code, it). pushes code it) ps" and qs: "list_all (\<lambda>(code, it). pushes code it) qs"
    and invoc: "invoc = concat (map fst ps)" and verif: "verif = concat (map fst qs) @ opSYSCALL # put_le 4 (fid :: uint32)"
    and gas: "total_cost b (map fst ps) + total_cost b (map fst qs) \<le> L" "L < 2 ^ 63"
    and refs: "int (length ps) + int (length qs) \<le> MaxStackSize"
    and call: "\<And>ip nip. SyscallHandler ic (systemInterops ic (ch_others ch)) fid (mach [ctx ip nip 0 1] [verif_context verif hsh, invoc_context invoc caller]
        (rev (map snd qs) @ rev (map snd ps)) (int (length ps) + int (length qs)) (total_cost b (map fst ps) + total_cost b (map fst qs)) L) =
      Some (mach [ctx ip nip 0 1] [verif_context verif hsh, invoc_context invoc caller] [BoolItem ok] 1 F L)"
  shows "run_loop H (length ps + (1 + (length qs + (3 + n))))
      (mach [ctx 0 0 1 (-1), ctx 0 0 0 1] [verif_context verif hsh, invoc_context invoc caller] [] 0 0 L) =
    Some ((mach [] [verif_context verif hsh, invoc_context invoc caller] [BoolItem ok] 1 F L)\<lparr>vm_state := Halt\<rparr>)"
proof -
  have same: "ic\<lparr>ic_baseExecFee := word_of_nat b\<rparr> = ic" using base by simp
  note run_all = spawned.mach_run_all [where ch = ch and ic = ic and b = b, unfolded same, folded H]
    and ret_inner = spawned.mach_ret_inner [where ch = ch and ic = ic and b = b, unfolded same, folded H]
    and ret_last = spawned.mach_ret_last [where ch = ch and ic = ic and b = b, unfolded same, folded H]
    and syscall = spawned.mach_syscall [where ch = ch and ic = ic and b = b, unfolded same, folded H]
  have handler: "ho_SyscallHandler H = Some (SyscallHandler ic (systemInterops ic (ch_others ch)))" by (simp add: H spawn_host_def)
  let ?scs = "[verif_context verif hsh, invoc_context invoc caller]" and ?P = "total_cost b (map fst ps)"
  have lim: "?P \<le> L" "int (length ps) \<le> MaxStackSize" using gas(1) refs by simp_all
  obtain ip1 where r1: "run_loop H (length ps + (1 + (length qs + (3 + n)))) (mach [ctx 0 0 1 (-1), ctx 0 0 0 1] ?scs [] 0 0 L) =
      run_loop H (1 + (length qs + (3 + n))) (mach [ctx ip1 (length invoc) 1 (-1), ctx 0 0 0 1] ?scs (rev (map snd ps)) (int (length ps)) ?P L)"
    using run_all [of 1 ?scs L ps "[]" "[]" 0 0 "1 + (length qs + (3 + n))" 0 "-1" "[ctx 0 0 0 1]" "[]"]
      ps gas(2) lim invoc by (auto simp: invoc_context_def)
  have r2: "run_loop H (1 + (length qs + (3 + n))) (mach [ctx ip1 (length invoc) 1 (-1), ctx 0 0 0 1] ?scs (rev (map snd ps)) (int (length ps)) ?P L) =
      run_loop H (length qs + (3 + n)) (mach [ctx 0 0 0 1] ?scs (rev (map snd ps)) (int (length ps)) ?P L)"
    using ret_inner [of 1 ?scs "length invoc" 0 "int (length ps)" "length qs + (3 + n)"] lim
    by (simp add: invoc_context_def verif_context_def)
  obtain ip3 where r3: "run_loop H (length qs + (3 + n)) (mach [ctx 0 0 0 1] ?scs (rev (map snd ps)) (int (length ps)) ?P L) =
      run_loop H (3 + n) (mach [ctx ip3 (length (concat (map fst qs))) 0 1] ?scs (rev (map snd qs) @ rev (map snd ps))
        (int (length ps) + int (length qs)) (?P + total_cost b (map fst qs)) L)"
    using run_all [of 0 ?scs L qs "[]" "opSYSCALL # put_le 4 fid" ?P "int (length ps)" "3 + n" 0 1 "[]" "rev (map snd ps)"]
      qs gas refs verif by (auto simp: verif_context_def)
  have r4: "run_loop H (3 + n) (mach [ctx ip3 (length (concat (map fst qs))) 0 1] ?scs (rev (map snd qs) @ rev (map snd ps))
        (int (length ps) + int (length qs)) (?P + total_cost b (map fst qs)) L) =
      run_loop H (2 + n) (mach [ctx (length (concat (map fst qs))) (length (concat (map fst qs)) + 5) 0 1] ?scs [BoolItem ok] 1 F L)"
    using syscall [of 0 ?scs "concat (map fst qs)" fid _ 1 "[]", OF _ _ _ handler call gas] verif
    by (simp add: verif_context_def MaxStackSize_def numeral_3_eq_3 numeral_2_eq_2)
  have r5: "run_loop H (2 + n) (mach [ctx (length (concat (map fst qs))) (length (concat (map fst qs)) + 5) 0 1] ?scs [BoolItem ok] 1 F L) =
      Some ((mach [] ?scs [BoolItem ok] 1 F L)\<lparr>vm_state := Halt\<rparr>)"
    using ret_last [of 0 ?scs "length (concat (map fst qs)) + 5" 1 n] verif
    by (simp add: verif_context_def MaxStackSize_def)
  show ?thesis by (simp only: r1 r2 r3 r4 r5)
qed

text \<open>With more pushes than the stack has room for, the machine faults.\<close>

lemma witness_run_full:
  assumes base: "ic_baseExecFee ic = word_of_nat b" and H: "H = spawn_host ch ic"
    and ps: "list_all (\<lambda>(code, it). pushes code it) ps" and qs: "list_all (\<lambda>(code, it). pushes code it) qs"
    and invoc: "invoc = concat (map fst ps)" and verif: "verif = concat (map fst qs) @ rest"
    and gas: "total_cost b (map fst ps) + total_cost b (map fst qs) \<le> L" "L < 2 ^ 63"
    and refs: "int (length ps) \<le> MaxStackSize" "int (length ps) + int (length qs) > MaxStackSize"
  shows "\<exists>v. run_loop H (length ps + (1 + (length qs + n)))
      (mach [ctx 0 0 1 (-1), ctx 0 0 0 1] [verif_context verif hsh, invoc_context invoc caller] [] 0 0 L) = Some v \<and> vm_state v = Fault"
proof -
  have same: "ic\<lparr>ic_baseExecFee := word_of_nat b\<rparr> = ic" using base by simp
  note run_all = spawned.mach_run_all [where ch = ch and ic = ic and b = b, unfolded same, folded H]
    and full = spawned.mach_run_full [where ch = ch and ic = ic and b = b, unfolded same, folded H]
    and ret_inner = spawned.mach_ret_inner [where ch = ch and ic = ic and b = b, unfolded same, folded H]
  let ?scs = "[verif_context verif hsh, invoc_context invoc caller]" and ?P = "total_cost b (map fst ps)"
  define j where "j = nat MaxStackSize - length ps"
  have j: "int (length ps) + int j = MaxStackSize" "j < length qs" using refs by (simp_all add: j_def)
  obtain code it where q: "qs ! j = (code, it)" by (cases "qs ! j")
  define qs1 where "qs1 = take j qs"
  define qs2 where "qs2 = drop (Suc j) qs"
  have qq: "qs = qs1 @ (code, it) # qs2" using j(2) q id_take_nth_drop [of j qs] by (simp add: qs1_def qs2_def)
  have len: "length qs1 = j" using j(2) by (simp add: qs1_def)
  define n' where "n' = length qs2 + n"
  have n': "length qs + n = length qs1 + Suc n'" using qq by (simp add: n'_def)
  have cost: "?P + total_cost b (map fst qs1) + code_cost b code \<le> L" using gas(1) by (simp add: qq total_cost_append)
  obtain ip1 where r1: "run_loop H (length ps + (1 + (length qs + n))) (mach [ctx 0 0 1 (-1), ctx 0 0 0 1] ?scs [] 0 0 L) =
      run_loop H (1 + (length qs + n)) (mach [ctx ip1 (length invoc) 1 (-1), ctx 0 0 0 1] ?scs (rev (map snd ps)) (int (length ps)) ?P L)"
    using run_all [of 1 ?scs L ps "[]" "[]" 0 0 "1 + (length qs + n)" 0 "-1" "[ctx 0 0 0 1]" "[]"]
      ps gas refs(1) invoc by (auto simp: invoc_context_def)
  have r2: "run_loop H (1 + (length qs + n)) (mach [ctx ip1 (length invoc) 1 (-1), ctx 0 0 0 1] ?scs (rev (map snd ps)) (int (length ps)) ?P L) =
      run_loop H (length qs + n) (mach [ctx 0 0 0 1] ?scs (rev (map snd ps)) (int (length ps)) ?P L)"
    using ret_inner [of 1 ?scs "length invoc" 0 "int (length ps)" "length qs + n"] refs(1)
    by (simp add: invoc_context_def verif_context_def)
  obtain ip3 where r3: "run_loop H (length qs + n) (mach [ctx 0 0 0 1] ?scs (rev (map snd ps)) (int (length ps)) ?P L) =
      run_loop H (Suc n') (mach [ctx ip3 (length (concat (map fst qs1))) 0 1] ?scs (rev (map snd qs1) @ rev (map snd ps))
        MaxStackSize (?P + total_cost b (map fst qs1)) L)"
    using run_all [of 0 ?scs L qs1 "[]" "code @ concat (map fst qs2) @ rest" ?P "int (length ps)" "Suc n'" 0 1 "[]" "rev (map snd ps)"]
      qs gas(2) cost j(1) len verif qq unfolding n' by (auto simp: verif_context_def simp del: run_loop.simps)
  have "\<exists>v. run_loop H (Suc n') (mach [ctx ip3 (length (concat (map fst qs1))) 0 1] ?scs (rev (map snd qs1) @ rev (map snd ps))
        MaxStackSize (?P + total_cost b (map fst qs1)) L) = Some v \<and> vm_state v = Fault"
    using full [of 0 ?scs "concat (map fst qs1)" code "concat (map fst qs2) @ rest" it "?P + total_cost b (map fst qs1)" L MaxStackSize n' ip3 1 "[]"]
      qs cost gas(2) verif by (simp add: verif_context_def qq del: run_loop.simps)
  then show ?thesis by (simp only: r1 r2 r3)
qed

section \<open>Standard accounts\<close>

lemma verify_result_halted:
  "verify_result ((mach [] scs [BoolItem ok] r F L)\<lparr>vm_state := Halt\<rparr>) =
    (if ok then Inr (word_of_nat F) else Inl (ErrInvalidSignature (word_of_nat F)))"
  by (simp add: verify_result_def Pop_def estack_def set_estack_def count_out_def remove_items.simps mach_def)

lemma cost_data: "list_all (\<lambda>d. length d < 256) ds \<Longrightarrow> total_cost b (map bytes_code ds) = 8 * b * length ds"
proof (induction ds)
  case (Cons d ds)
  have "coefficients opPUSHDATA1 = 8" by (simp add: coefficients_def coefficient_table_def)
  with Cons show ?case by (simp add: code_cost_def bytes_code_def algebra_simps)
qed simp

lemma word_of_nat_sint: "0 \<le> sint w \<Longrightarrow> word_of_nat (nat (sint w)) = w" for w :: int64
  by (simp only: of_nat_nat of_int_sint scast_id)

lemma code_cost_bound: "code_cost b code \<le> 32768 * b"
proof -
  have "coefficients op \<le> 32768" for op
    using coefficient_bounds map_of_SomeD [of coefficient_table op] by (fastforce simp: coefficients_def list_all_iff split: option.split)
  then show ?thesis by (simp add: code_cost_def)
qed

text \<open>What runs a witness of pushes and a system call.\<close>

lemma witness_started:
  assumes ps: "list_all (\<lambda>(code, it). pushes code it) ps" "ps \<noteq> []" and qs: "list_all (\<lambda>(code, it). pushes code it) qs"
    and invoc: "invoc = concat (map fst ps)" and verif: "verif = concat (map fst qs) @ opSYSCALL # put_le 4 (fid :: uint32)"
    and gas: "int F \<le> sint gas" "int F \<le> sint (ch_MaxVerificationGas ch)"
    and hash: "ch_hash160 ch verif = hsh" "\<not> ch_isNative ch hsh"
  obtains L caller where "F \<le> L" and "L < 2 ^ 63"
    and "verifyHashAgainstScript fuel ch ic hsh invoc verif gas = (case run_loop (spawn_host ch ic) fuel
        (mach [ctx 0 0 1 (-1), ctx 0 0 0 1] [verif_context verif hsh, invoc_context invoc caller] [] 0 0 L) of
      None \<Rightarrow> Inl VerifyOutOfFuel | Some v \<Rightarrow> verify_result v)"
proof -
  define gas' where "gas' = (if sint gas > sint (ch_MaxVerificationGas ch) then ch_MaxVerificationGas ch else gas)"
  define L where "L = nat (sint gas')"
  have g: "int F \<le> sint gas'" using gas by (simp add: gas'_def)
  have gas': "gas' = word_of_nat L" using word_of_nat_sint [of gas'] g by (simp add: L_def)
  have L: "F \<le> L" "L < 2 ^ 63" using g sint_int64 [of gas'] by (auto simp: L_def)
  have plain: "list_all plain (map fst xs)" if "list_all (\<lambda>(code, it). pushes code it) xs" for xs
    using that by (induction xs) (auto intro: pushes_plain)
  have "invoc \<noteq> []" using ps by (cases ps) (auto simp: invoc pushes_def)
  moreover have "IsScriptCorrect invoc None = None" unfolding invoc by (rule plain_script_correct [OF plain [OF ps(1)]])
  moreover have "IsScriptCorrect verif None = None"
    using plain_script_correct [of "map fst qs @ [opSYSCALL # put_le 4 fid]"] plain [OF qs] plain_syscall [of fid] by (simp add: verif)
  ultimately obtain caller where init: "InitVerificationContext ch (spawn_host ch ic) hsh invoc verif (SpawnVM\<lparr>vm_GasLimit := gas'\<rparr>) =
      Inr (mach [ctx 0 0 1 (-1), ctx 0 0 0 1] [verif_context verif hsh, invoc_context invoc caller] [] 0 0 L)" (is "_ = Inr ?v")
    using witness_loaded [OF _ _ hash, of invoc "spawn_host ch ic" L] verif unfolding gas' by auto
  have "Run (spawn_host ch ic) fuel ?v = run_loop (spawn_host ch ic) fuel ?v" by (simp add: Run_def) (simp add: mach_def)
  with init have "verifyHashAgainstScript fuel ch ic hsh invoc verif gas =
      (case run_loop (spawn_host ch ic) fuel ?v of None \<Rightarrow> Inl VerifyOutOfFuel | Some v \<Rightarrow> verify_result v)"
    by (simp add: verifyHashAgainstScript_def gas'_def [symmetric] Let_def)
  with L that show ?thesis by blast
qed

text \<open>A witness is accepted when the machine halts with true, for the gas it has used.\<close>

lemma witness_verified:
  assumes base: "ic_baseExecFee ic = word_of_nat b"
    and ps: "list_all (\<lambda>(code, it). pushes code it) ps" "ps \<noteq> []" and qs: "list_all (\<lambda>(code, it). pushes code it) qs"
    and invoc: "invoc = concat (map fst ps)" and verif: "verif = concat (map fst qs) @ opSYSCALL # put_le 4 (fid :: uint32)"
    and cost: "total_cost b (map fst ps) + total_cost b (map fst qs) = G" "G \<le> F"
    and gas: "int F \<le> sint gas" "int F \<le> sint (ch_MaxVerificationGas ch)"
    and refs: "int (length ps) + int (length qs) \<le> MaxStackSize"
    and hash: "ch_hash160 ch verif = hsh" "\<not> ch_isNative ch hsh"
    and call: "\<And>L ip nip scs. F \<le> L \<Longrightarrow> L < 2 ^ 63 \<Longrightarrow> scs \<noteq> [] \<Longrightarrow>
      SyscallHandler ic (systemInterops ic (ch_others ch)) fid (mach [ctx ip nip 0 1] scs
        (rev (map snd qs) @ rev (map snd ps)) (int (length ps) + int (length qs)) G L) =
      Some (mach [ctx ip nip 0 1] scs [BoolItem ok] 1 F L)"
    and fuel: "length ps + length qs + 4 \<le> fuel"
  shows "verifyHashAgainstScript fuel ch ic hsh invoc verif gas =
    (if ok then Inr (word_of_nat F) else Inl (ErrInvalidSignature (word_of_nat F)))"
proof (rule witness_started [OF ps qs invoc verif gas hash, of fuel ic])
  fix L caller
  assume L: "F \<le> L" "L < 2 ^ 63" and verify: "verifyHashAgainstScript fuel ch ic hsh invoc verif gas =
      (case run_loop (spawn_host ch ic) fuel (mach [ctx 0 0 1 (-1), ctx 0 0 0 1] [verif_context verif hsh, invoc_context invoc caller] [] 0 0 L) of
        None \<Rightarrow> Inl VerifyOutOfFuel | Some v \<Rightarrow> verify_result v)"
  define n where "n = fuel - (length ps + length qs + 4)"
  have n: "fuel = length ps + (1 + (length qs + (3 + n)))" using fuel by (simp add: n_def)
  have "run_loop (spawn_host ch ic) fuel (mach [ctx 0 0 1 (-1), ctx 0 0 0 1] [verif_context verif hsh, invoc_context invoc caller] [] 0 0 L) =
      Some ((mach [] [verif_context verif hsh, invoc_context invoc caller] [BoolItem ok] 1 F L)\<lparr>vm_state := Halt\<rparr>)"
    unfolding n
  proof (rule witness_run [OF base refl ps(1) qs invoc verif _ L(2) refs])
    show "total_cost b (map fst ps) + total_cost b (map fst qs) \<le> L" using cost L(1) by simp
    show "SyscallHandler ic (systemInterops ic (ch_others ch)) fid (mach [ctx ip nip 0 1]
        [verif_context verif hsh, invoc_context invoc caller] (rev (map snd qs) @ rev (map snd ps))
        (int (length ps) + int (length qs)) (total_cost b (map fst ps) + total_cost b (map fst qs)) L) =
      Some (mach [ctx ip nip 0 1] [verif_context verif hsh, invoc_context invoc caller] [BoolItem ok] 1 F L)" for ip nip
      unfolding cost(1) by (rule call [OF L]) simp
  qed
  then show ?thesis by (simp add: verify verify_result_halted)
qed

lemma witness_overflows:
  assumes base: "ic_baseExecFee ic = word_of_nat b"
    and ps: "list_all (\<lambda>(code, it). pushes code it) ps" "ps \<noteq> []" and qs: "list_all (\<lambda>(code, it). pushes code it) qs"
    and invoc: "invoc = concat (map fst ps)" and verif: "verif = concat (map fst qs) @ opSYSCALL # put_le 4 (fid :: uint32)"
    and cost: "total_cost b (map fst ps) + total_cost b (map fst qs) \<le> F"
    and gas: "int F \<le> sint gas" "int F \<le> sint (ch_MaxVerificationGas ch)"
    and refs: "int (length ps) \<le> MaxStackSize" "int (length ps) + int (length qs) > MaxStackSize"
    and hash: "ch_hash160 ch verif = hsh" "\<not> ch_isNative ch hsh"
    and fuel: "length ps + length qs + 1 \<le> fuel"
  shows "verifyHashAgainstScript fuel ch ic hsh invoc verif gas = Inl ErrVerificationFailed"
proof (rule witness_started [OF ps qs invoc verif gas hash, of fuel ic])
  fix L caller
  assume L: "F \<le> L" "L < 2 ^ 63" and verify: "verifyHashAgainstScript fuel ch ic hsh invoc verif gas =
      (case run_loop (spawn_host ch ic) fuel (mach [ctx 0 0 1 (-1), ctx 0 0 0 1] [verif_context verif hsh, invoc_context invoc caller] [] 0 0 L) of
        None \<Rightarrow> Inl VerifyOutOfFuel | Some v \<Rightarrow> verify_result v)"
  define n where "n = fuel - (length ps + length qs + 1)"
  have n: "fuel = length ps + (1 + (length qs + n))" using fuel by (simp add: n_def)
  have "total_cost b (map fst ps) + total_cost b (map fst qs) \<le> L" using cost L(1) by simp
  from witness_run_full [OF base refl ps(1) qs invoc verif this L(2) refs, of ch n hsh caller, folded n]
  show ?thesis unfolding verify by (auto simp: verify_result_def simp del: run_loop.simps)
qed

lemma key_decodes: "valid_key P256 k \<Longrightarrow> bytesToPublicKey P256 (Key_Bytes k) = Some k"
  using key_dec_out [of P256 k "[]"]
  by (simp add: bytesToPublicKey_def NewPublicKeyFromBytes_def Key_DecodeBytes_def NewBinReaderFromBuf_def Reader_Len_def)

lemma hd_int_code: "CheckIntegerSize n \<Longrightarrow> hd (int_code n) \<noteq> opPUSHDATA1 \<and> hd (int_code n @ rest) = hd (int_code n)"
proof -
  assume n: "CheckIntegerSize n"
  have ne: "int_code n \<noteq> []" by (simp add: int_code_def Let_def)
  from decode_int_code [OF n, of "[]"] obtain op param where
    "decode_instr (int_code n) 0 = Some (op, param, length (int_code n))" "pushes_int op param n" by auto
  with ne decode_instr_hd [OF this(1)] show ?thesis by (auto simp: pushes_int_def word_le_nat_alt)
qed

lemma Calculate_multisig:
  assumes "list_all finite_key ks" and "1 \<le> m" and "m \<le> length ks" and "length ks \<le> MaxMultisigKeys"
  shows "fst (Calculate sha (word_of_nat b) (multisig_code sha m ks)) =
    word_of_nat (8 * b * m + code_cost b (int_code (int m)) + (8 * b * length ks + code_cost b (int_code (int (length ks)))) + 32768 * b * length ks)"
proof -
  have "hd (multisig_code sha m ks) \<noteq> opPUSHDATA1"
    using hd_int_code [OF small_size, of m] assms by (simp add: multisig_code_def)
  then have "\<not> IsSignatureContract sha (multisig_code sha m ks)"
    using ParseSignatureContract_exact [of sha "multisig_code sha m ks"] by (auto simp: IsSignatureContract_def bytes_code_def)
  moreover have "calculateMultisig (word_of_nat b) n = word_of_nat (8 * b * n + code_cost b (int_code (int n)))" if "n \<le> MaxMultisigKeys" for n
  proof -
    have "coefficients opPUSHDATA1 = 8" by (simp add: coefficients_def coefficient_table_def)
    moreover have "sint (word_of_nat n :: int64) = int n" using that by (intro sint_small) (simp add: MaxMultisigKeys_def)
    ultimately show ?thesis
      by (simp add: calculateMultisig_def NewBufBinWriter_def emit_Int_code fee_Opcode_def code_cost_def)
  qed
  ultimately show ?thesis
    using Parse_made [OF assms, of sha] assms by (simp add: Calculate_def ECDSAVerifyPrice_def Let_def)
qed

text \<open>
  C37. Multi-signature accounts are verified as they should be, as long as their witnesses fit on the stack. For a script that
  \<^verbatim>\<open>CreateMultiSigRedeemScript\<close> makes from up to 1024 valid keys, with an invocation script that pushes as many signatures as the
  threshold asks for: when the threshold and the number of keys sum up to at most 2046, running the witness on the
  machine accepts it exactly when the signatures belong, in order, to some of the sorted keys; it consumes exactly the fee
  that \<^verbatim>\<open>fee.Calculate\<close> foresees for the script, whatever the schedule of the workers. Beyond that sum (1023 or 1024
  signatures of 1024 keys) the pushes exceed \<^verbatim>\<open>MaxStackSize\<close> and verification fails whatever the signatures. The gas limits must allow the fee.
\<close>

theorem multisig_account_verified:
  assumes keys: "list_all finite_key keys" "\<forall>k \<in> set keys. valid_key P256 k" "length keys \<le> 1024"
    and m: "1 \<le> m" "m \<le> length keys" and sigs: "length sigs = m" "\<forall>s \<in> set sigs. length s = SignatureLen"
    and verif: "CreateMultiSigRedeemScript (ic_sha ic) (int m) keys = Inr verif"
    and hash: "ch_hash160 ch verif = hsh" "\<not> ch_isNative ch hsh" and ids: "distinct (interop_ids (ic_sha ic))"
    and base: "0 \<le> sint (ic_baseExecFee ic)" "sint (ic_baseExecFee ic) < 2 ^ 32"
    and fee: "fee = fst (Calculate (ic_sha ic) (ic_baseExecFee ic) verif)"
      "sint fee \<le> sint gas" "sint fee \<le> sint (ch_MaxVerificationGas ch)"
    and fuel: "m + length keys + 6 \<le> fuel"
  shows "\<exists>ks. sort_keys keys = Some ks \<and>
    verifyHashAgainstScript fuel ch ic hsh (concat (map bytes_code sigs)) verif gas =
      (if m + length keys > 2046 then Inl ErrVerificationFailed
       else if list_emb (checks (ic_ecdsa ic) (signed_hash ic) P256) sigs (map Key_Bytes ks) then Inr fee
       else Inl (ErrInvalidSignature fee))"
proof -
  obtain ks where ks: "sort_keys keys = Some ks" "mset ks = mset keys" using sort_keys_sorts [OF keys(1)] by blast
  have len: "length ks = length keys" and fin: "list_all finite_key ks" and val: "\<forall>k \<in> set ks. valid_key P256 k"
    using mset_eq_length [OF ks(2)] mset_eq_setD [OF ks(2)] keys by (auto simp: list_all_iff)
  have code: "verif = multisig_code (ic_sha ic) m ks"
    using Create_code [OF ks(1) m(1,2), of "ic_sha ic"] m keys(3) len verif by simp
  define b where "b = nat (sint (ic_baseExecFee ic))"
  have b: "ic_baseExecFee ic = word_of_nat b" "b < 2 ^ 32"
    using base word_of_nat_sint [of "ic_baseExecFee ic"] by (simp_all add: b_def nat_less_iff)
  define kb where "kb = map Key_Bytes ks"
  define ps where "ps = map (\<lambda>s. (bytes_code s, ByteArray s)) sigs"
  define qs where "qs = (int_code (int m), BigInteger (int m)) # map (\<lambda>k. (bytes_code k, ByteArray k)) kb @
    [(int_code (int (length kb)), BigInteger (int (length kb)))]"
  define G where "G = total_cost b (map fst ps) + total_cost b (map fst qs)"
  define F where "F = G + 32768 * b * length kb"
  have small: "CheckIntegerSize (int m)" "CheckIntegerSize (int (length kb))"
    using m keys(3) len by (simp_all add: kb_def small_size MaxMultisigKeys_def)
  have klen: "length kb = length keys" "\<forall>k \<in> set kb. length k = 33" "\<forall>k \<in> set kb. bytesToPublicKey P256 k \<noteq> None"
    using len fin val key_decodes by (auto simp: kb_def list_all_iff length_Key_Bytes)
  have data: "pushes (bytes_code d) (ByteArray d)" if "length d < 256" for d
    using that by (intro pushes_bytes) (simp add: MaxSize_def)
  have ps: "list_all (\<lambda>(code, it). pushes code it) ps" "ps \<noteq> []" "map fst ps = map bytes_code sigs" "map snd ps = map ByteArray sigs"
    using sigs m data by (auto simp: ps_def list_all_iff SignatureLen_def)
  have qs: "list_all (\<lambda>(code, it). pushes code it) qs"
    "map fst qs = int_code (int m) # map bytes_code kb @ [int_code (int (length kb))]"
    "map snd qs = BigInteger (int m) # map ByteArray kb @ [BigInteger (int (length kb))]"
    using klen(2) data pushes_integer [OF small(1)] pushes_integer [OF small(2)] by (auto simp: qs_def list_all_iff)
  have lens: "length ps = m" "length qs = length keys + 2" using sigs(1) klen(1) by (simp_all add: ps_def qs_def)
  have G: "G = 8 * b * m + code_cost b (int_code (int m)) + (8 * b * length kb + code_cost b (int_code (int (length kb))))"
    using cost_data [of sigs b] cost_data [of kb b] sigs klen(2)
    by (simp add: G_def ps(3) qs(2) total_cost_append list_all_iff SignatureLen_def)
  have feeF: "fee = word_of_nat F"
    using Calculate_multisig [OF fin m(1), of "ic_sha ic" b] m(2) keys(3) len
    by (simp add: fee(1) code b(1) F_def G kb_def MaxMultisigKeys_def)
  have "8 * b * m \<le> 8 * b * 1024" "8 * b * length kb \<le> 8 * b * 1024" "32768 * b * length kb \<le> 32768 * b * 1024"
    using m(2) keys(3) klen(1) by (simp_all only: mult_le_mono2)
  then have "F \<le> 33636352 * b"
    using code_cost_bound [of b "int_code (int m)"] code_cost_bound [of b "int_code (int (length kb))"] unfolding F_def G by linarith
  then have "F < 2 ^ 63" using b(2) by simp
  then have F: "int F \<le> sint gas" "int F \<le> sint (ch_MaxVerificationGas ch)" using fee(2,3) by (simp_all add: feeF sint_small)
  let ?ok = "signed_by (ic_ecdsa ic) (signed_hash ic) P256 (rev sigs) (rev kb)"
  have invoc: "concat (map bytes_code sigs) = concat (map fst ps)" by (simp only: ps(3))
  have verif': "verif = concat (map fst qs) @ opSYSCALL # put_le 4 (multisigInteropID (ic_sha ic))"
    by (simp add: code multisig_code_def qs(2) kb_def comp_def)
  have full: "verifyHashAgainstScript fuel ch ic hsh (concat (map bytes_code sigs)) verif gas = Inl ErrVerificationFailed" if "m + length keys > 2046"
  proof (rule witness_overflows [OF b(1) ps(1,2) qs(1) invoc verif' _ F _ _ hash])
    show "total_cost b (map fst ps) + total_cost b (map fst qs) \<le> F" unfolding G_def [symmetric] F_def by simp
  qed (use that m keys(3) fuel in \<open>simp_all add: lens MaxStackSize_def\<close>)
  have "verifyHashAgainstScript fuel ch ic hsh (concat (map bytes_code sigs)) verif gas =
      (if ?ok then Inr (word_of_nat F) else Inl (ErrInvalidSignature (word_of_nat F)))" if room: "\<not> m + length keys > 2046"
  proof (rule witness_verified [OF b(1) ps(1,2) qs(1) invoc verif' G_def [symmetric] _ F _ hash])
    show "G \<le> F" by (simp add: F_def)
    show "int (length ps) + int (length qs) \<le> MaxStackSize" using room by (simp add: lens MaxStackSize_def)
    show "length ps + length qs + 4 \<le> fuel" using fuel by (simp add: lens)
    show "SyscallHandler ic (systemInterops ic (ch_others ch)) (multisigInteropID (ic_sha ic)) (mach [ctx ip nip 0 1] scs
          (rev (map snd qs) @ rev (map snd ps)) (int (length ps) + int (length qs)) G L) =
        Some (mach [ctx ip nip 0 1] scs [BoolItem ?ok] 1 F L)" if "F \<le> L" "L < 2 ^ 63" "scs \<noteq> []" for L ip nip scs
      unfolding multisigInteropID_def
    proof (rule mach_SyscallHandler [OF ids _ b(1), where k = 0])
      have "interop_func ic others ''System.Crypto.CheckMultisig'' = ECDSASecp256r1CheckMultisig ic" for others
        by (simp add: interop_func_def)
      moreover have "ECDSASecp256r1CheckMultisig ic (mach [ctx ip nip 0 1] scs (BigInteger (int (length (rev kb))) # map ByteArray (rev kb) @
            BigInteger (int (length (rev sigs))) # map ByteArray (rev sigs) @ []) (int (length ps) + int (length qs)) G L) =
          Some (mach [ctx ip nip 0 1] scs [BoolItem ?ok] (int (length ps) + int (length qs) - 1 - int (length (rev kb)) - int (length (rev sigs)))
            (G + 32768 * b * length (rev kb)) L)"
        by (rule mach_CheckMultisig [OF b(1)]) (use that m klen keys(3) sigs(1) in \<open>simp_all add: F_def\<close>)
      ultimately show "interop_func ic (ch_others ch) ''System.Crypto.CheckMultisig'' (mach [ctx ip nip 0 1] scs
            (rev (map snd qs) @ rev (map snd ps)) (int (length ps) + int (length qs)) (G + 0 * b) L) =
          Some (mach [ctx ip nip 0 1] scs [BoolItem ?ok] 1 F L)"
        using sigs(1) klen(1) by (simp add: qs(3) ps(4) rev_map F_def lens)
    qed (use that in \<open>simp_all add: interop_table_def F_def\<close>)
  qed
  moreover have "?ok = list_emb (checks (ic_ecdsa ic) (signed_hash ic) P256) sigs (map Key_Bytes ks)"
    by (simp add: signed_by_def list_emb_rev kb_def)
  ultimately show ?thesis using ks(1) full by (simp add: feeF)
qed

text \<open>
  C38. Single-signature accounts are verified as they should be: with an invocation script that pushes one signature, the
  witness of the script \<^verbatim>\<open>GetVerificationScript\<close> makes for a valid key is accepted exactly when the signature
  verifies under that key, for exactly the fee that \<^verbatim>\<open>fee.Calculate\<close> foresees.
\<close>

theorem signature_account_verified:
  assumes key: "finite_key k" "valid_key P256 k" and sig: "length sig = SignatureLen"
    and verif: "GetVerificationScript (ic_sha ic) k = Some verif"
    and hash: "ch_hash160 ch verif = hsh" "\<not> ch_isNative ch hsh" and ids: "distinct (interop_ids (ic_sha ic))"
    and base: "0 \<le> sint (ic_baseExecFee ic)" "sint (ic_baseExecFee ic) < 2 ^ 32"
    and fee: "fee = fst (Calculate (ic_sha ic) (ic_baseExecFee ic) verif)"
      "sint fee \<le> sint gas" "sint fee \<le> sint (ch_MaxVerificationGas ch)"
    and fuel: "6 \<le> fuel"
  shows "verifyHashAgainstScript fuel ch ic hsh (bytes_code sig) verif gas =
    (if Key_Verify (ic_ecdsa ic) (signed_hash ic) k sig then Inr fee else Inl (ErrInvalidSignature fee))"
proof -
  let ?kb = "Key_Bytes k" and ?ok = "Key_Verify (ic_ecdsa ic) (signed_hash ic) k sig"
  have len: "length ?kb = 33" by (rule length_Key_Bytes [OF key(1)])
  have code: "verif = bytes_code ?kb @ opSYSCALL # put_le 4 (verifyInteropID (ic_sha ic))"
    using verif by (simp add: GetVerificationScript_def CheckSig_def NewBufBinWriter_def emit_Bytes_code Syscall_code Writer_Bytes_def verifyInteropID_def)
  define b where "b = nat (sint (ic_baseExecFee ic))"
  have b: "ic_baseExecFee ic = word_of_nat b" "b < 2 ^ 32"
    using base word_of_nat_sint [of "ic_baseExecFee ic"] by (simp_all add: b_def nat_less_iff)
  have "coefficients opPUSHDATA1 = 8" by (simp add: coefficients_def coefficient_table_def)
  moreover have "IsSignatureContract (ic_sha ic) verif"
    using ParseSignatureContract_exact [of "ic_sha ic" verif ?kb] len code by (simp add: IsSignatureContract_def)
  ultimately have feeF: "fee = word_of_nat (16 * b + 32768 * b)"
    by (simp add: fee(1) Calculate_def fee_Opcode_def ECDSAVerifyPrice_def b(1))
  have F: "int (16 * b + 32768 * b) \<le> sint gas" "int (16 * b + 32768 * b) \<le> sint (ch_MaxVerificationGas ch)"
    using fee(2,3) b(2) sint_small [of "16 * b + 32768 * b"] by (simp_all add: feeF)
  have data: "pushes (bytes_code d) (ByteArray d)" if "length d < 256" for d
    using that by (intro pushes_bytes) (simp add: MaxSize_def)
  have "verifyHashAgainstScript fuel ch ic hsh (bytes_code sig) verif gas =
      (if ?ok then Inr (word_of_nat (16 * b + 32768 * b)) else Inl (ErrInvalidSignature (word_of_nat (16 * b + 32768 * b))))"
  proof (rule witness_verified [OF b(1) _ _ _ _ _ _ _ F _ hash, where fid = "verifyInteropID (ic_sha ic)"
        and ps = "[(bytes_code sig, ByteArray sig)]" and qs = "[(bytes_code ?kb, ByteArray ?kb)]" and G = "16 * b"])
    show "total_cost b (map fst [(bytes_code sig, ByteArray sig)]) + total_cost b (map fst [(bytes_code ?kb, ByteArray ?kb)]) = 16 * b"
      using cost_data [of "[sig, ?kb]" b] sig len by (simp add: SignatureLen_def)
    show "SyscallHandler ic (systemInterops ic (ch_others ch)) (verifyInteropID (ic_sha ic)) (mach [ctx ip nip 0 1] scs
          (rev (map snd [(bytes_code ?kb, ByteArray ?kb)]) @ rev (map snd [(bytes_code sig, ByteArray sig)]))
          (int (length [(bytes_code sig, ByteArray sig)]) + int (length [(bytes_code ?kb, ByteArray ?kb)])) (16 * b) L) =
        Some (mach [ctx ip nip 0 1] scs [BoolItem ?ok] 1 (16 * b + 32768 * b) L)"
      if "16 * b + 32768 * b \<le> L" "L < 2 ^ 63" "scs \<noteq> []" for L ip nip scs
      unfolding verifyInteropID_def
      by (rule mach_SyscallHandler [OF ids _ b(1), where k = 32768 and price = ECDSAVerifyPrice])
        (use that mach_CheckSig [OF key_decodes [OF key(2)]] in \<open>simp_all add: interop_table_def interop_func_def ECDSAVerifyPrice_def\<close>)
  qed (use data sig len code fuel in \<open>simp_all add: SignatureLen_def MaxStackSize_def\<close>)
  then show ?thesis by (simp add: feeF)
qed

section \<open>An example\<close>

text \<open>Two points of the curve with ordinate 1, whose square root is easy, and a hash that tells the system calls apart.\<close>

definition key_a :: public_key where
  "key_a = Point 0x9e78d4ef60d05f750f6636209092bc43cbdd6b47e11a9de20a9feb2a50bb96c 1"

definition key_b :: public_key where
  "key_b = Point 0x6916fac45e568b6b9e2e2ecd611b282e5fcc40a3067d601057f879ce5a8a73cc 1"

lemma sample_keys_valid: "valid_key P256 key_a" "valid_key P256 key_b"
  by (simp_all add: key_a_def key_b_def P256_def coordLen_def decodeCompressedY_def y_squared_def ModSqrt_def exp_mod_eq Let_def)

definition interop_names :: "bytes list" where
  "interop_names = map (string_bytes \<circ> fst) interop_table"

definition sample_sha :: "bytes \<Rightarrow> uint256" where
  "sample_sha b = word_of_nat (length (takeWhile (\<lambda>n. n \<noteq> b) interop_names) * 256 ^ 31)"

lemma le_bytes_top: "le_bytes (Suc k) (i * 256 ^ k) = replicate k 0 @ [word_of_nat i]"
proof (induction k)
  case (Suc k)
  have "i * 256 ^ Suc k = 256 * (i * 256 ^ k)" by simp
  moreover have "(word_of_nat (256 * (i * 256 ^ k)) :: byte) = 0"
    by (simp only: word_of_nat_eq_0_iff) simp
  ultimately show ?case using Suc by (simp only: le_bytes.simps(2) [of "Suc k"]) simp
qed simp

lemma unat_uint256: "n < 2 ^ 256 \<Longrightarrow> unat (word_of_nat n :: uint256) = n"
  by (simp add: unat_of_nat)

lemma ToID_top:
  assumes "sha b = word_of_nat (i * 256 ^ 31)" and "i < 256"
  shows "ToID sha b = word_of_nat i"
proof -
  have "i * 256 ^ 31 < 2 ^ 256" using assms(2) by simp
  then have "unat (word_of_nat (i * 256 ^ 31) :: uint256) = i * 256 ^ 31"
    by (rule unat_uint256)
  then have "BytesBE (sha b) = word_of_nat i # replicate 31 0"
    using le_bytes_top [of 31 i] by (simp add: BytesBE_def be_bytes_def assms(1))
  moreover have "unat (word_of_nat i :: byte) = i" using assms(2) by (simp add: unat_of_nat)
  ultimately show ?thesis by (simp add: ToID_def get_le_def numeral_eq_Suc)
qed

lemma interop_names_distinct: "distinct interop_names"
  by (simp add: interop_names_def interop_table_def string_bytes_def)

lemma sample_ids: "distinct (interop_ids sample_sha)"
proof -
  have len: "length interop_names < 256" by (simp add: interop_names_def interop_table_def)
  have "ToID sample_sha (interop_names ! i) = word_of_nat i" if "i < length interop_names" for i
  proof -
    have "takeWhile (\<lambda>n. n \<noteq> interop_names ! i) interop_names = take i interop_names"
      using that nth_eq_iff_index_eq [OF interop_names_distinct] by (intro takeWhile_eq_take_P_nth) auto
    with that len show ?thesis by (intro ToID_top) (simp_all add: sample_sha_def)
  qed
  then have "interop_ids sample_sha = map word_of_nat [0..<length interop_names]"
    by (intro nth_equalityI) (auto simp: interop_ids_def interop_names_def case_prod_unfold)
  moreover have "inj_on (word_of_nat :: nat \<Rightarrow> uint32) {0..<256}"
  proof (rule inj_onI)
    fix x y :: nat
    assume "x \<in> {0..<256}" "y \<in> {0..<256}" "(word_of_nat x :: uint32) = word_of_nat y"
    moreover have "unat (word_of_nat z :: uint32) = z" if "z \<in> {0..<256}" for z
      using that by (simp add: unat_of_nat take_bit_eq_mod)
    ultimately show "x = y" by metis
  qed
  ultimately show ?thesis using len by (auto simp: distinct_map inj_on_def)
qed

definition sample_ic :: interop_context where
  "sample_ic = \<lparr>ic_baseExecFee = 30, ic_Network = 1, ic_Container = 0, ic_sha = sample_sha,
     ic_ecdsa = (\<lambda>x y h r s. r = s), ic_sched = (\<lambda>v t. t)\<rparr>"

definition sample_chain :: chain_view where
  "sample_chain = \<lparr>ch_isNative = (\<lambda>h. h = 0), ch_getContract = (\<lambda>h. None), ch_MaxVerificationGas = 150000000,
     ch_hash160 = (\<lambda>b. 7), ch_others = (\<lambda>n v. None), ch_loadToken = (\<lambda>n v. None),
     ch_onUnload = (\<lambda>n c b v. None)\<rparr>"

lemma sample_fields [simp]:
  "ic_sha sample_ic = sample_sha" "ic_baseExecFee sample_ic = 30" "ic_ecdsa sample_ic = (\<lambda>x y h r s. r = s)"
  "ch_isNative sample_chain h \<longleftrightarrow> h = 0" "ch_hash160 sample_chain prog = 7" "ch_MaxVerificationGas sample_chain = 150000000"
  by (simp_all add: sample_ic_def sample_chain_def)

theorem signature_account_verified_witness:
  "\<exists>verif. GetVerificationScript sample_sha key_a = Some verif \<and>
    verifyHashAgainstScript 6 sample_chain sample_ic 7 (bytes_code (replicate 64 1)) verif 1000000 = Inr 983520"
proof -
  obtain verif where verif: "GetVerificationScript sample_sha key_a = Some verif" "ParseSignatureContract sample_sha verif = Some (Key_Bytes key_a)"
    using signature_script [of key_a sample_sha] by (auto simp: key_a_def)
  have "coefficients opPUSHDATA1 = 8" by (simp add: coefficients_def coefficient_table_def)
  then have fee: "fst (Calculate sample_sha 30 verif) = 983520"
    using verif(2) by (simp add: Calculate_def IsSignatureContract_def fee_Opcode_def ECDSAVerifyPrice_def)
  have "Key_Verify (\<lambda>x y h r s. r = s) h key_a (replicate 64 1)" for h by (simp add: key_a_def SignatureLen_def)
  with signature_account_verified [of key_a "replicate 64 1" sample_ic verif sample_chain 7 983520 1000000 6]
    verif(1) fee sample_ids sample_keys_valid(1) show ?thesis
    by (intro exI [of _ verif]) (simp add: key_a_def SignatureLen_def)
qed

theorem multisig_account_verified_witness:
  "\<exists>verif. CreateMultiSigRedeemScript sample_sha 2 [key_a, key_b] = Inr verif \<and>
    verifyHashAgainstScript 10 sample_chain sample_ic 7 (concat (map bytes_code [replicate 64 1, replicate 64 2])) verif 2000000 =
      Inr (fst (Calculate sample_sha 30 verif)) \<and> fst (Calculate sample_sha 30 verif) = 1967100"
proof -
  have fin: "list_all finite_key [key_a, key_b]" by (simp add: key_a_def key_b_def)
  obtain ks where ks: "sort_keys [key_a, key_b] = Some ks" "mset ks = mset [key_a, key_b]" using sort_keys_sorts [OF fin] by blast
  have len: "length ks = 2" and fin': "list_all finite_key ks"
    using mset_eq_length [OF ks(2)] mset_eq_setD [OF ks(2)] fin by (auto simp: list_all_iff)
  let ?v = "multisig_code sample_sha 2 ks"
  have create: "CreateMultiSigRedeemScript sample_sha 2 [key_a, key_b] = Inr ?v"
    using Create_code [OF ks(1), of 2 sample_sha] len by simp
  have "int_code 2 = [opPUSH2]" "coefficients opPUSH2 = 1" by (simp_all add: int_code_def coefficients_def coefficient_table_def)
  then have fee: "fst (Calculate sample_sha 30 ?v) = 1967100"
    using Calculate_multisig [OF fin', of 2 sample_sha 30] len by (simp add: MaxMultisigKeys_def code_cost_def)
  have key: "k \<in> set ks \<Longrightarrow> k = key_a \<or> k = key_b" for k using mset_eq_setD [OF ks(2)] by auto
  obtain k1 k2 where k12: "ks = [k1, k2]" using len by (cases ks; cases "tl ks") auto
  have chk: "checks (\<lambda>x y h r s. r = s) h P256 (replicate 64 c) (Key_Bytes k)" if "k \<in> set ks" for h c k
    using key [OF that] key_decodes [OF sample_keys_valid(1)] key_decodes [OF sample_keys_valid(2)]
    by (auto simp: checks_def key_a_def key_b_def SignatureLen_def)
  have "list_emb (checks (\<lambda>x y h r s. r = s) h P256) [replicate 64 1, replicate 64 2] (map Key_Bytes ks)" for h
    using chk by (simp add: k12)
  with multisig_account_verified [of "[key_a, key_b]" 2 "[replicate 64 1, replicate 64 2]" sample_ic ?v sample_chain 7 1967100 2000000 10]
    fin create fee sample_ids sample_keys_valid ks(1) show ?thesis
    by (intro exI [of _ ?v]) (auto simp: SignatureLen_def)
qed

end
