(* ===== verification/Vm_Gas.thy ===== *)
theory Vm_Gas
  imports Witness_Check
begin

text \<open>
  The gas limit of the machines that the node spawns: execution under it ends, unless a call of the host evades the meter.
  \<^verbatim>\<open>System.Runtime.BurnGas\<close> can do that, since it charges any positive \<^verbatim>\<open>int64\<close> and the counter wraps around: a witness that burns gas in a loop is never done.
\<close>

section \<open>The node's host\<close>

text \<open>
  What is asked of the code that is an argument of the model: every charge is checked against the limit, which stays; and unloading a context
  touches neither the gas nor the contexts.
\<close>

definition keeps_limit :: "chain_view \<Rightarrow> bool" where
  "keeps_limit ch \<longleftrightarrow>
     (\<forall>name v v'. within_limit v \<longrightarrow> ch_others ch name v = Some v' \<longrightarrow> obeys v v') \<and>
     (\<forall>n v v'. within_limit v \<longrightarrow> ch_loadToken ch n v = Some v' \<longrightarrow> obeys v v') \<and>
     (\<forall>n c b v v'. ch_onUnload ch n c b v = Some v' \<longrightarrow>
        vm_gasConsumed v' = vm_gasConsumed v \<and> vm_GasLimit v' = vm_GasLimit v \<and> same_code v v')"

lemma meter_fields:
  "Pop v = Some (it, v') \<Longrightarrow> vm_gasConsumed v' = vm_gasConsumed v \<and> vm_GasLimit v' = vm_GasLimit v"
  "popBytes v = Some (b, v') \<Longrightarrow> vm_gasConsumed v' = vm_gasConsumed v \<and> vm_GasLimit v' = vm_GasLimit v"
  "popInt v = Some (i, v') \<Longrightarrow> vm_gasConsumed v' = vm_gasConsumed v \<and> vm_GasLimit v' = vm_GasLimit v"
  "vm_gasConsumed (PushItem x v) = vm_gasConsumed v" "vm_GasLimit (PushItem x v) = vm_GasLimit v"
  using meter.view_Pop [of v it v'] meter.view_pops(1,3) [of v _ v'] meter.view_push(1) [of x v] by auto

lemma pop_bytes_meter: "pop_bytes n v = Some (bs, v') \<Longrightarrow> vm_gasConsumed v' = vm_gasConsumed v \<and> vm_GasLimit v' = vm_GasLimit v"
  by (induction n arbitrary: v bs) (auto dest!: meter_fields(2) split: Option.bind_splits)

lemma PopSigElements_meter:
  "PopSigElements v = Some (bs, v') \<Longrightarrow> vm_gasConsumed v' = vm_gasConsumed v \<and> vm_GasLimit v' = vm_GasLimit v"
  by (auto simp: PopSigElements_def Let_def dest!: meter_fields(1,2) pop_bytes_meter
      split: if_splits Option.bind_splits stackitem.splits)

lemma AddGas_ok:
  assumes "AddGas g v = (True, v')" and "within_limit v"
  shows "vm_gasConsumed v' = vm_gasConsumed v + g \<and> obeys v v'"
  using assms by (auto simp: AddGas_def Let_def obeys_def within_limit_def)

lemma AddGas_code: "AddGas g v = (ok, v') \<Longrightarrow> v' = v\<lparr>vm_gasConsumed := vm_gasConsumed v + g\<rparr>"
  by (auto simp: AddGas_def Let_def)

lemma obeys_refl: "within_limit v \<Longrightarrow> obeys v v"
  by (simp add: obeys_def within_limit_def)

lemma obeys_cong:
  assumes "vm_gasConsumed u = vm_gasConsumed v \<and> vm_GasLimit u = vm_GasLimit v"
  shows "obeys u w = obeys v w" and "obeys w u = obeys w v" and "within_limit u = within_limit v"
  using assms by (auto simp: obeys_def within_limit_def)

lemma interop_func_obeys:
  assumes ch: "keeps_limit ch" and v: "within_limit v" and call: "interop_func ic (ch_others ch) name v = Some v'"
  shows "obeys v v'"
proof -
  have multi: "obeys v v'" if run: "ECDSASecp256r1CheckMultisig ic v = Some v'"
  proof -
    from run obtain pkeys v1 v2 where p: "PopSigElements v = Some (pkeys, v1)"
      and g: "AddGas (ic_baseExecFee ic * ECDSAVerifyPrice * word_of_nat (length pkeys)) v1 = (True, v2)"
      and rest: "do { (sigs, v) \<leftarrow> PopSigElements v2;
         if length pkeys < length sigs then None
         else case CheckMultisigPar (ic_ecdsa ic) (ic_sched ic v) P256 (signed_hash ic) pkeys sigs of
           Verdict sigok \<Rightarrow> Some (PushItem (BoolItem sigok) v) | _ \<Rightarrow> None } = Some v'"
      by (auto simp: ECDSASecp256r1CheckMultisig_def Let_def split: Option.bind_splits prod.splits if_splits)
    note m1 = PopSigElements_meter [OF p]
    have "obeys v1 v2" using AddGas_ok [OF g] obeys_cong(3) [OF m1] v by blast
    moreover from rest obtain sigs v3 b where "PopSigElements v2 = Some (sigs, v3)" "v' = PushItem (BoolItem b) v3"
      by (auto split: Option.bind_splits prod.splits if_splits par_result.splits)
    then have "vm_gasConsumed v' = vm_gasConsumed v2 \<and> vm_GasLimit v' = vm_GasLimit v2"
      using PopSigElements_meter [of v2 sigs v3] by (simp add: meter_fields)
    ultimately show ?thesis using obeys_cong(1) [OF m1] obeys_cong(2) by blast
  qed
  have single: "obeys v v'" if run: "ECDSASecp256r1CheckSig ic v = Some v'"
  proof -
    from run have "vm_gasConsumed v' = vm_gasConsumed v \<and> vm_GasLimit v' = vm_GasLimit v"
      by (auto simp: ECDSASecp256r1CheckSig_def meter_fields dest!: meter_fields(2) split: Option.bind_splits sum.splits)
    then show ?thesis using obeys_refl [OF v] obeys_cong(2) by blast
  qed
  have burn: "obeys v v'" if run: "BurnGas v = Some v'"
  proof -
    from run obtain g v1 where p: "popInt v = Some (g, v1)" and a: "AddGas (word_of_int g) v1 = (True, v')"
      by (auto simp: BurnGas_def Let_def split: Option.bind_splits prod.splits if_splits)
    show ?thesis using AddGas_ok [OF a] obeys_cong(1,3) [OF meter_fields(3) [OF p]] v by blast
  qed
  show ?thesis
    using call ch v multi single burn unfolding interop_func_def keeps_limit_def by (auto split: if_splits)
qed

lemma table_prices: "list_all (\<lambda>(name, price, flags). 0 \<le> sint price \<and> sint price \<le> 32768) interop_table"
  unfolding interop_table_def ECDSAVerifyPrice_def by simp

lemma GetFunction_table:
  assumes "GetFunction (systemInterops ic others) fid = Some f"
  obtains name where "fn_Func f = interop_func ic others name" and "0 \<le> sint (fn_Price f)" and "sint (fn_Price f) \<le> 32768"
proof -
  from assms obtain n where "n < length (systemInterops ic others)" "systemInterops ic others ! n = f"
    by (auto simp: GetFunction_def Let_def split: if_splits)
  then have "f \<in> set (systemInterops ic others)" using nth_mem by blast
  then obtain name price flags where "(name, price, flags) \<in> set interop_table"
      "fn_Func f = interop_func ic others name" "fn_Price f = price"
    by (auto simp: systemInterops_def interop_Sort_def)
  with table_prices that show ?thesis by (fastforce simp: list_all_iff)
qed

lemma sint_mult_small:
  fixes a b :: int64
  assumes "0 \<le> sint a * sint b" and "sint a * sint b < 9223372036854775808"
  shows "sint (a * b) = sint a * sint b"
proof -
  have "sint (a * b) = signed_take_bit 63 (sint a * sint b)" by (simp add: sint_word_ariths)
  also have "\<dots> = sint a * sint b" using assms by (intro signed_take_bit_int_eq_self) simp_all
  finally show ?thesis .
qed

lemma SyscallHandler_obeys:
  assumes ch: "keeps_limit ch" and base: "0 < sint (ic_baseExecFee ic)" and r: "running (ic_baseExecFee ic) v"
    and call: "SyscallHandler ic (systemInterops ic (ch_others ch)) fid v = Some v'"
  shows "obeys v v'"
proof -
  from call obtain f v1 where f: "GetFunction (systemInterops ic (ch_others ch)) fid = Some f"
    and a: "AddGas (fn_Price f * ic_baseExecFee ic) v = (True, v1)" and func: "fn_Func f v1 = Some v'"
    by (auto simp: SyscallHandler_def Let_def split: Option.bind_splits prod.splits if_splits)
  obtain name where fn: "fn_Func f = interop_func ic (ch_others ch) name" and p: "0 \<le> sint (fn_Price f)" "sint (fn_Price f) \<le> 32768"
    using GetFunction_table [OF f] by blast
  have v: "within_limit v" using r by (simp add: running_def)
  have lim: "0 \<le> sint (vm_gasConsumed v)" "sint (vm_gasConsumed v) \<le> sint (vm_GasLimit v)"
    "sint (vm_GasLimit v) + 32768 * sint (ic_baseExecFee ic) < 9223372036854775808" using r by (simp_all add: running_def within_limit_def)
  have q: "0 \<le> sint (fn_Price f) * sint (ic_baseExecFee ic)" "sint (fn_Price f) * sint (ic_baseExecFee ic) \<le> 32768 * sint (ic_baseExecFee ic)"
    using p base by (simp_all add: mult_right_mono)
  have "sint (fn_Price f * ic_baseExecFee ic) = sint (fn_Price f) * sint (ic_baseExecFee ic)"
    by (rule sint_mult_small) (use q lim in linarith)+
  then have "sint (vm_gasConsumed v + fn_Price f * ic_baseExecFee ic) = sint (vm_gasConsumed v) + sint (fn_Price f) * sint (ic_baseExecFee ic)"
    using sint_add_small [of "vm_gasConsumed v" "fn_Price f * ic_baseExecFee ic"] q lim by simp
  moreover note g = AddGas_ok [OF a v]
  ultimately have w: "within_limit v1" using q(1) lim(1) by (auto simp: within_limit_def obeys_def)
  have "obeys v1 v'" by (rule interop_func_obeys [OF ch w]) (use func fn in simp)
  then show ?thesis using g by (simp add: obeys_def)
qed

lemma node_metered:
  assumes "keeps_limit ch" and "0 < sint (ic_baseExecFee ic)"
  shows "metered_host (ic_baseExecFee ic) (spawn_host ch ic)"
  using assms SyscallHandler_obeys [OF assms] unfolding metered_host_def keeps_limit_def running_def
  by (auto simp: spawn_host_def GetPrice_def fun_eq_iff)

section \<open>Termination\<close>

text \<open>
  C27. A machine of the node with a gas limit stops: there is a number of steps after which the loop of \<^verbatim>\<open>Run\<close> has left it
  halted, faulted or at a breakpoint, whatever the script does; or else the run comes to a call of the host that evades the meter,
  a \<^verbatim>\<open>SYSCALL\<close> or \<^verbatim>\<open>CALLT\<close> that leaves the gas counter lower than it was, or as it was with other code loaded. The counter starts
  within the limit, the limit leaves room for one more charge of the price list below \<open>2 ^ 63\<close>, the base fee is positive, and the calls that are arguments of the
  model check what they charge against the limit (\<open>keeps_limit\<close>). Nothing is asked of the sums: \<open>burn_gas_endless\<close> below is a run of the second kind.
\<close>

theorem vm_terminates:
  assumes "keeps_limit ch" and "0 < sint (ic_baseExecFee ic)"
    and "0 \<le> sint (vm_gasConsumed v)" and "sint (vm_gasConsumed v) \<le> sint (vm_GasLimit v)"
    and "sint (vm_GasLimit v) + 32768 * sint (ic_baseExecFee ic) < 2 ^ 63"
  shows "(\<exists>n v'. vm_state v' \<in> {Halt, Fault, Break} \<and> (\<forall>m\<ge>n. Run (spawn_host ch ic) m v = Some v')) \<or>
    (\<exists>k. (\<forall>j\<le>k. vm_state ((step (spawn_host ch ic) ^^ j) (v\<lparr>vm_state := NoneState\<rparr>)) = NoneState) \<and>
      evades_meter (spawn_host ch ic) ((step (spawn_host ch ic) ^^ k) (v\<lparr>vm_state := NoneState\<rparr>)))"
  by (rule Run_ends [OF node_metered [OF assms(1,2)] assms(2)]) (use assms(3-5) in \<open>simp add: running_def within_limit_def\<close>)

section \<open>Jumps\<close>

lemma decode_jmp: "decode_instr ([opJMP, off] @ rest) 0 = Some (opJMP, [off], 2)"
proof -
  have "opcode_IsValid opJMP" unfolding opcode_IsValid_def opcodes_def by (simp only: list.set insert_iff simp_thms)
  then show ?thesis by (simp add: decode_instr_def param_size_def one_byte_ops_def)
qed

context priced_host
begin

lemma mach_step_jmp:
  assumes prog: "s < length scs" "sc_prog (scs ! s) = pre @ [opJMP, off] @ rest"
    and target: "int (length pre) + sint off = int t" "t < length (sc_prog (scs ! s))" and L: "L < 2 ^ 63" and r: "r \<le> MaxStackSize"
  shows "step H (mach (ctx ip (length pre) s rc # cs) scs xs r g L) =
    (if sint (word_of_nat (g + 2 * b) :: int64) \<le> int L then mach (ctx (length pre) t s rc # cs) scs xs r (g + 2 * b) L
     else (mach (ctx (length pre) (length pre + 2) s rc # cs) scs xs r (g + 2 * b) L)\<lparr>vm_state := Fault\<rparr>)"
proof -
  let ?v = "mach (ctx ip (length pre) s rc # cs) scs xs r g L"
  let ?u = "\<lambda>g. mach (ctx (length pre) (length pre + 2) s rc # cs) scs xs r g L"
  from decode_instr_at [OF decode_jmp, of off rest pre] have nx: "Next ?v = Some (opJMP, [off], ?u g)"
    using prog by (simp add: Next_decode)
  have "coefficients opJMP = 2" by (simp add: coefficients_def coefficient_table_def)
  then have ch: "charge H opJMP [off] (?u g) = ?u (g + 2 * b)"
    using price prog by (simp add: charge_def fee_word priced_def) (simp add: mach_def)
  have og: "out_of_gas H (?u (g + 2 * b)) \<longleftrightarrow> \<not> sint (word_of_nat (g + 2 * b) :: int64) \<le> int L"
    using price prog L sint_small [of L] by (simp add: out_of_gas_def priced_def not_le del: of_nat_add)
  have ex: "execute_op H opJMP [off] (?u (g + 2 * b)) = Some (mach (ctx (length pre) t s rc # cs) scs xs r (g + 2 * b) L)"
    using prog target by (simp add: execute_op_def execute_control_def execute_jump_def jump_taken_def getJumpOffset_def Jump_def Let_def)
  show ?thesis unfolding step_def nx option.case prod.case execute_def Let_def ch og ex using r by simp
qed

end

text \<open>A witness whose script jumps to its own start, on a machine of a node whose further calls push a null.\<close>

definition null_chain :: chain_view where
  "null_chain = sample_chain\<lparr>ch_others := (\<lambda>name v. Some (PushItem Null v))\<rparr>"

lemma null_chain_keeps: "keeps_limit null_chain"
  by (auto simp: keeps_limit_def null_chain_def sample_chain_def obeys_def within_limit_def meter_fields)

definition endless :: vm where
  "endless = mach [ctx 0 0 0 1] [verif_context [opJMP, 0] 7] [] 0 0 1000"

lemma endless_steps:
  "(\<forall>j\<le>k. vm_state ((step (spawn_host null_chain sample_ic) ^^ j) endless) = NoneState) \<Longrightarrow>
    (step (spawn_host null_chain sample_ic) ^^ k) endless = mach [ctx 0 0 0 1] [verif_context [opJMP, 0] 7] [] 0 (60 * k) 1000"
proof (induction k)
  case 0
  then show ?case by (simp add: endless_def)
next
  case (Suc k)
  have base: "sample_ic\<lparr>ic_baseExecFee := word_of_nat 30\<rparr> = sample_ic" by (simp add: sample_ic_def)
  have k: "(step (spawn_host null_chain sample_ic) ^^ k) endless = mach [ctx 0 0 0 1] [verif_context [opJMP, 0] 7] [] 0 (60 * k) 1000"
    using Suc by simp
  have "vm_state ((step (spawn_host null_chain sample_ic) ^^ Suc k) endless) = NoneState" using Suc.prems by blast
  then show ?case
    using spawned.mach_step_jmp [where ch = null_chain and ic = sample_ic and b = 30, unfolded base,
        of 0 "[verif_context [opJMP, 0] 7]" "[]" 0 "[]" 0 1000 0 0 1 "[]" "[]" "60 * k"]
    by (simp add: k verif_context_def MaxStackSize_def add.commute split: if_splits)
qed

theorem vm_terminates_witness:
  "\<exists>n v'. vm_state v' \<in> {Halt, Fault, Break} \<and> Run (spawn_host null_chain sample_ic) n endless = Some v'"
proof -
  let ?H = "spawn_host null_chain sample_ic"
  have "\<not> evades_meter ?H ((step ?H ^^ k) endless)" if "\<forall>j\<le>k. vm_state ((step ?H ^^ j) endless) = NoneState" for k
  proof -
    have "Next (mach [ctx 0 0 0 1] [verif_context [opJMP, 0] 7] [] 0 (60 * k) 1000) =
        Some (opJMP, [0], mach [ctx 0 2 0 1] [verif_context [opJMP, 0] 7] [] 0 (60 * k) 1000)"
      using decode_jmp [of 0 "[]"] by (simp add: Next_decode verif_context_def)
    then show ?thesis unfolding endless_steps [OF that] evades_meter_def by simp
  qed
  moreover have "endless\<lparr>vm_state := NoneState\<rparr> = endless" by (simp add: endless_def mach_def)
  moreover have "vm_gasConsumed endless = 0" "vm_GasLimit endless = 1000" by (simp_all add: endless_def)
  ultimately show ?thesis
    using vm_terminates [OF null_chain_keeps, of sample_ic endless] by auto
qed

section \<open>Burning gas in a loop\<close>

text \<open>
  The counter of gas is an \<^verbatim>\<open>int64\<close> and \<^verbatim>\<open>AddGas\<close> does not mind a wrap-around. The following script burns two amounts which together with
  the prices of its instructions, at the default fee, make \<open>2^64\<close>, and jumps back to its start: the counter
  goes below zero, never passes the limit and is back where it was after every round.
\<close>

definition burn1 :: nat where "burn1 = 2 ^ 63 - 1"
definition burn2 :: nat where "burn2 = 2 ^ 63 - 1079"

definition burn_id :: "(bytes \<Rightarrow> uint256) \<Rightarrow> uint32" where
  "burn_id sha = ToID sha (string_bytes ''System.Runtime.BurnGas'')"

definition burn_push :: "nat \<Rightarrow> bytes" where
  "burn_push n = opPUSHINT64 # le_bytes 8 n"

definition burn_script :: "(bytes \<Rightarrow> uint256) \<Rightarrow> bytes" where
  "burn_script sha = burn_push burn1 @ (opSYSCALL # put_le 4 (burn_id sha)) @ burn_push burn2 @ (opSYSCALL # put_le 4 (burn_id sha)) @ [opJMP, 0xe4]"

lemma pushes_burn:
  assumes "n < 2 ^ 63"
  shows "pushes (burn_push n) (BigInteger (int n))"
proof -
  have "opcode_IsValid opPUSHINT64" unfolding opcode_IsValid_def opcodes_def by (simp only: list.set insert_iff simp_thms)
  then have d: "decode_instr (burn_push n @ rest) 0 = Some (opPUSHINT64, le_bytes 8 n, 9)" for rest
    by (simp add: burn_push_def decode_instr_def param_size_def one_byte_ops_def four_byte_ops_def)
  have "le_nat (le_bytes 8 n) = n" using assms by (simp add: le_nat_le_bytes)
  moreover have "last (le_bytes 8 n) AND 0x80 = 0" "le_bytes 8 n \<noteq> []"
    using top_bit_clear [of n 7] assms length_le_bytes [of 8 n] by auto
  ultimately have "FromBytes (le_bytes 8 n) = int n" by (simp add: FromBytes_twos_complement twos_complement_def)
  then have "pushes_int opPUSHINT64 (le_bytes 8 n) (int n)" by (simp add: pushes_int_def)
  moreover have "CheckIntegerSize (int n)" using assms by (simp add: CheckIntegerSize_iff)
  ultimately have "execute_op H opPUSHINT64 (le_bytes 8 n) v = Some (PushItem (BigInteger (int n)) v)" for H v
    by (rule execute_pushes_int)
  with d show ?thesis by (auto simp: pushes_def burn_push_def offset_ops_def)
qed

lemma burn_values: "burn1 < 2 ^ 63" "burn2 < 2 ^ 63" "0 < burn1" "0 < burn2" "2 ^ 63 \<le> 509 + burn1" "1020 + burn1 + burn2 + 60 = 2 ^ 64"
  by (simp_all add: burn1_def burn2_def)

lemma length_burn_push [simp]: "length (burn_push n) = 9"
  by (simp add: burn_push_def)

lemma sint_wrapped:
  assumes "2 ^ 63 \<le> m" and "m < 2 ^ 64"
  shows "sint (word_of_nat m :: int64) < 0"
proof -
  have "(word_of_nat m :: int64) = word_of_int (int m - 2 ^ 64)" by (simp add: word_of_int_eq_iff take_bit_diff [symmetric])
  moreover have "sint (word_of_int (int m - 2 ^ 64) :: int64) = int m - 2 ^ 64"
  proof -
    have "signed_take_bit 63 (int m - 2 ^ 64) = int m - 2 ^ 64" using assms by (intro signed_take_bit_int_eq_self) simp_all
    then show ?thesis unfolding sint_sbintrunc' by simp
  qed
  ultimately show ?thesis using assms(2) by (simp del: of_int_diff)
qed

lemma mach_BurnGas:
  assumes "0 < n" and "n < 2 ^ 63" and "sint (word_of_nat (g + n) :: int64) \<le> int L" and "L < 2 ^ 63"
  shows "BurnGas (mach cs scs (BigInteger (int n) # xs) r g L) = Some (mach cs scs xs (r - 1) (g + n) L)"
proof -
  have "sint (word_of_nat n :: int64) = int n" by (rule sint_small [OF assms(2)])
  with assms mach_AddGas_fits [OF assms(3,4), of cs scs xs "r - 1"] show ?thesis
    by (simp add: BurnGas_def popInt_def mach_Pop Let_def)
qed

text \<open>One round of the loop: five steps from any state at its start.\<close>

lemma burn_steps:
  fixes ch ic hsh L
  defines "H \<equiv> spawn_host ch ic" and "scs \<equiv> [verif_context (burn_script (ic_sha ic)) hsh]"
  assumes base: "ic_baseExecFee ic = 30" and ids: "distinct (interop_ids (ic_sha ic))" and L: "510 \<le> L" "L < 2 ^ 63"
  shows "step H (mach [ctx ip 0 0 1] scs [] 0 0 L) = mach [ctx 0 9 0 1] scs [BigInteger (int burn1)] 1 30 L"
    and "step H (mach [ctx 0 9 0 1] scs [BigInteger (int burn1)] 1 30 L) = mach [ctx 9 14 0 1] scs [] 0 (510 + burn1) L"
    and "step H (mach [ctx 9 14 0 1] scs [] 0 (510 + burn1) L) = mach [ctx 14 23 0 1] scs [BigInteger (int burn2)] 1 (540 + burn1) L"
    and "step H (mach [ctx 14 23 0 1] scs [BigInteger (int burn2)] 1 (540 + burn1) L) = mach [ctx 23 28 0 1] scs [] 0 (1020 + burn1 + burn2) L"
    and "step H (mach [ctx 23 28 0 1] scs [] 0 (1020 + burn1 + burn2) L) = mach [ctx 28 0 0 1] scs [] 0 0 L"
proof -
  let ?id = "burn_id (ic_sha ic)" and ?call = "opSYSCALL # put_le 4 (burn_id (ic_sha ic))"
  have same: "ic\<lparr>ic_baseExecFee := word_of_nat 30\<rparr> = ic" using base by simp
  note push = spawned.mach_step_push [where ch = ch and ic = ic and b = 30 and s = 0 and scs = scs, unfolded same, folded H_def]
    and call = spawned.mach_step_syscall [where ch = ch and ic = ic and b = 30 and s = 0 and scs = scs, unfolded same, folded H_def]
    and jmp = spawned.mach_step_jmp [where ch = ch and ic = ic and b = 30 and s = 0 and scs = scs, unfolded same, folded H_def]
  have scs: "0 < length scs" and prog: "sc_prog (scs ! 0) = burn_script (ic_sha ic)" by (simp_all add: scs_def verif_context_def)
  have cost: "code_cost 30 (burn_push n) = 30" for n
    by (simp add: code_cost_def burn_push_def coefficients_def coefficient_table_def)
  have neg: "sint (word_of_nat m :: int64) \<le> int L" if "509 + burn1 \<le> m" "m < 2 ^ 64" for m
    using sint_wrapped [of m] that burn_values(5) by linarith
  have pos: "sint (word_of_nat m :: int64) \<le> int L" if "m \<le> 510" for m
    by (rule fits_small) (use that L in simp_all)
  have handler: "ho_SyscallHandler H = Some (SyscallHandler ic (systemInterops ic (ch_others ch)))" by (simp add: H_def spawn_host_def)
  have burn: "SyscallHandler ic (systemInterops ic (ch_others ch)) ?id (mach [ctx ip nip 0 1] scs [BigInteger (int n)] 1 g L) =
      Some (mach [ctx ip nip 0 1] scs [] 0 (g + 480 + n) L)"
    if "0 < n" "n < 2 ^ 63" "sint (word_of_nat (g + 480) :: int64) \<le> int L" "sint (word_of_nat (g + 480 + n) :: int64) \<le> int L" for ip nip n g
    unfolding burn_id_def
  proof (rule mach_SyscallHandler_fits [OF ids, where price = 16 and k = 16 and b = 30])
    have "interop_func ic (ch_others ch) ''System.Runtime.BurnGas'' = BurnGas" by (simp add: interop_func_def)
    then show "interop_func ic (ch_others ch) ''System.Runtime.BurnGas'' (mach [ctx ip nip 0 1] scs [BigInteger (int n)] 1 (g + 16 * 30) L) =
        Some (mach [ctx ip nip 0 1] scs [] 0 (g + 480 + n) L)"
      using mach_BurnGas [OF that(1,2,4) L(2), of "[ctx ip nip 0 1]" scs "[]" 1] by simp
  qed (use that base L scs in \<open>simp_all add: interop_table_def\<close>)
  have call': "step H (mach [ctx ip (length pre) 0 1] scs [BigInteger (int n)] 1 g L) = mach [ctx (length pre) (length pre + 5) 0 1] scs [] 0 (g + 480 + n) L"
    if "sc_prog (scs ! 0) = pre @ opSYSCALL # put_le 4 ?id @ rest" "0 < n" "n < 2 ^ 63" "sint (word_of_nat g :: int64) \<le> int L"
      "sint (word_of_nat (g + 480) :: int64) \<le> int L" "sint (word_of_nat (g + 480 + n) :: int64) \<le> int L" for ip pre rest n g
    by (rule call [OF scs that(1) handler burn [OF that(2,3,5,6)] that(4) L(2)]) (simp add: MaxStackSize_def)
  have push': "step H (mach [ctx ip (length pre) 0 1] scs [] 0 g L) = mach [ctx (length pre) (length pre + 9) 0 1] scs [BigInteger (int n)] 1 (g + 30) L"
    if "sc_prog (scs ! 0) = pre @ burn_push n @ rest" "n < 2 ^ 63" "sint (word_of_nat (g + 30) :: int64) \<le> int L" for ip pre rest n g
    using push [OF scs that(1) pushes_burn [OF that(2)], of g L ip 1 "[]" "[]" 0] that(3) L(2) by (simp add: cost MaxStackSize_def)
  have jmp': "step H (mach [ctx ip 28 0 1] scs [] 0 g L) = mach [ctx 28 0 0 1] scs [] 0 (g + 60) L"
    if "sint (word_of_nat (g + 60) :: int64) \<le> int L" for ip g
  proof -
    define pre where "pre = burn_push burn1 @ ?call @ burn_push burn2 @ ?call"
    have pre: "length pre = 28" "sc_prog (scs ! 0) = pre @ [opJMP, 0xe4] @ []" by (simp_all add: pre_def prog burn_script_def)
    show ?thesis
      using jmp [OF scs pre(2), of 0 L 0 ip 1 "[]" "[]" g] pre that L(2) by (simp add: MaxStackSize_def)
  qed
  have p1: "sc_prog (scs ! 0) = [] @ burn_push burn1 @ (?call @ burn_push burn2 @ ?call @ [opJMP, 0xe4])"
    and p2: "sc_prog (scs ! 0) = burn_push burn1 @ opSYSCALL # put_le 4 ?id @ (burn_push burn2 @ ?call @ [opJMP, 0xe4])"
    and p3: "sc_prog (scs ! 0) = (burn_push burn1 @ ?call) @ burn_push burn2 @ (?call @ [opJMP, 0xe4])"
    and p4: "sc_prog (scs ! 0) = (burn_push burn1 @ ?call @ burn_push burn2) @ opSYSCALL # put_le 4 ?id @ [opJMP, 0xe4]"
    by (simp_all add: prog burn_script_def)
  show "step H (mach [ctx ip 0 0 1] scs [] 0 0 L) = mach [ctx 0 9 0 1] scs [BigInteger (int burn1)] 1 30 L"
    using push' [OF p1 burn_values(1), of 0 ip] pos [of 30] by simp
  show "step H (mach [ctx 0 9 0 1] scs [BigInteger (int burn1)] 1 30 L) = mach [ctx 9 14 0 1] scs [] 0 (510 + burn1) L"
    using call' [OF p2 burn_values(3,1), of 30 0] pos [of 30] pos [of 510] neg [of "510 + burn1"] burn_values by simp
  show "step H (mach [ctx 9 14 0 1] scs [] 0 (510 + burn1) L) = mach [ctx 14 23 0 1] scs [BigInteger (int burn2)] 1 (540 + burn1) L"
    using push' [OF p3 burn_values(2), of "510 + burn1" 9] neg [of "540 + burn1"] burn_values by (simp add: add.commute)
  show "step H (mach [ctx 14 23 0 1] scs [BigInteger (int burn2)] 1 (540 + burn1) L) = mach [ctx 23 28 0 1] scs [] 0 (1020 + burn1 + burn2) L"
    using call' [OF p4 burn_values(4,2), of "540 + burn1" 14] neg [of "540 + burn1"] neg [of "1020 + burn1"] neg [of "1020 + burn1 + burn2"] burn_values
    by (simp add: add.commute add.left_commute)
  have "mach [ctx 28 0 0 1] scs [] 0 (2 ^ 64) L = mach [ctx 28 0 0 1] scs [] 0 0 L" by (simp add: mach_def)
  moreover have "sint (word_of_nat (2 ^ 64) :: int64) \<le> int L" by simp
  ultimately show "step H (mach [ctx 23 28 0 1] scs [] 0 (1020 + burn1 + burn2) L) = mach [ctx 28 0 0 1] scs [] 0 0 L"
    using jmp' [of "1020 + burn1 + burn2" 23] unfolding burn_values(6) by simp
qed

lemma run_loop_step:
  assumes "step H v = v'" and "vm_state v = NoneState" and "vm_state v' = NoneState" and "\<not> atBreakPoint v'"
  shows "run_loop H (Suc n) v = run_loop H n v'"
  using assms by (simp add: Let_def)

lemma burn_never_ends:
  assumes "ic_baseExecFee ic = 30" and "distinct (interop_ids (ic_sha ic))" and "510 \<le> L" and "L < 2 ^ 63"
  shows "run_loop (spawn_host ch ic) n (mach [ctx ip 0 0 1] [verif_context (burn_script (ic_sha ic)) hsh] [] 0 0 L) = None"
proof -
  let ?H = "spawn_host ch ic" and ?scs = "[verif_context (burn_script (ic_sha ic)) hsh]"
  let ?s0 = "\<lambda>ip. mach [ctx ip 0 0 1] ?scs [] 0 0 L" and ?s1 = "mach [ctx 0 9 0 1] ?scs [BigInteger (int burn1)] 1 30 L"
    and ?s2 = "mach [ctx 9 14 0 1] ?scs [] 0 (510 + burn1) L" and ?s3 = "mach [ctx 14 23 0 1] ?scs [BigInteger (int burn2)] 1 (540 + burn1) L"
    and ?s4 = "mach [ctx 23 28 0 1] ?scs [] 0 (1020 + burn1 + burn2) L"
  have nb: "\<not> atBreakPoint (mach [ctx ip nip 0 1] ?scs xs r g L)" for ip nip xs r g by (simp add: atBreakPoint_def verif_context_def)
  have go: "run_loop ?H (Suc n) (?s0 ip) = run_loop ?H n ?s1" "run_loop ?H (Suc n) ?s1 = run_loop ?H n ?s2"
    "run_loop ?H (Suc n) ?s2 = run_loop ?H n ?s3" "run_loop ?H (Suc n) ?s3 = run_loop ?H n ?s4" "run_loop ?H (Suc n) ?s4 = run_loop ?H n (?s0 28)" for n ip
    by (rule run_loop_step [OF burn_steps(1) [OF assms]] run_loop_step [OF burn_steps(2) [OF assms]] run_loop_step [OF burn_steps(3) [OF assms]]
        run_loop_step [OF burn_steps(4) [OF assms]] run_loop_step [OF burn_steps(5) [OF assms]]; simp add: nb)+
  have "(\<forall>ip. run_loop ?H n (?s0 ip) = None) \<and> run_loop ?H n ?s1 = None \<and> run_loop ?H n ?s2 = None \<and>
      run_loop ?H n ?s3 = None \<and> run_loop ?H n ?s4 = None"
  proof (induction n)
    case (Suc n)
    then show ?case by (simp only: go simp_thms)
  qed simp
  then show ?thesis by blast
qed

lemma burn_script_correct: "IsScriptCorrect (burn_script sha) None = None"
proof -
  let ?call = "opSYSCALL # put_le 4 (burn_id sha)" and ?prog = "burn_script sha"
  have pl: "plain (burn_push burn1)" "plain (burn_push burn2)" "plain ?call"
    using pushes_plain pushes_burn burn_values(1,2) plain_syscall by blast+
  obtain a1 where d0: "decode_instr ?prog 0 = Some (opPUSHINT64, a1, 9)"
    using plain_instr [OF pl(1), of "[]" "?call @ burn_push burn2 @ ?call @ [opJMP, 0xe4]"] by (auto simp: burn_script_def burn_push_def)
  obtain a2 where d1: "decode_instr ?prog 9 = Some (opSYSCALL, a2, 14)"
    using plain_instr [OF pl(3), of "burn_push burn1" "burn_push burn2 @ ?call @ [opJMP, 0xe4]"] by (auto simp: burn_script_def)
  obtain a3 where d2: "decode_instr ?prog 14 = Some (opPUSHINT64, a3, 23)"
    using plain_instr [OF pl(2), of "burn_push burn1 @ ?call" "?call @ [opJMP, 0xe4]"] by (auto simp: burn_script_def burn_push_def)
  obtain a4 where d3: "decode_instr ?prog 23 = Some (opSYSCALL, a4, 28)"
    using plain_instr [OF pl(3), of "burn_push burn1 @ ?call @ burn_push burn2" "[opJMP, 0xe4]"] by (auto simp: burn_script_def)
  have d4: "decode_instr ?prog 28 = Some (opJMP, [0xe4], 30)"
    using decode_instr_at [OF decode_jmp, of "0xe4" "[]" "burn_push burn1 @ ?call @ burn_push burn2 @ ?call"] by (simp add: burn_script_def)
  have len: "length ?prog = 30" by (simp add: burn_script_def)
  have "visited ?prog 0 = {0, 9, 14, 23, 28}"
    using visited_step [OF _ d0] visited_step [OF _ d1] visited_step [OF _ d2] visited_step [OF _ d3] visited_step [OF _ d4] visited_end [of ?prog 30] len
    by auto
  then have st: "starts ?prog = {0, 9, 14, 23, 28}" by (auto simp: starts_def visited_def boundary_reaches)
  have "calcJumpOffset ?prog 28 [0xe4] = Some 0" by (simp add: calcJumpOffset_def len)
  then have "script_correct ?prog"
    unfolding script_correct_def st
    by (auto simp: instr_ok_def d0 d1 d2 d3 d4 types_ok_def instr_targets_def offset_ops_def jumps_from_def target_bits_def)
  then show ?thesis by (simp add: IsScriptCorrect_None)
qed

text \<open>
  Such a witness is never done, whatever gas it is allowed beyond the price of its first instructions: with any number of steps as fuel, the
  verification has not come to an end. It is a correct script and needs no signature.
\<close>

theorem burn_gas_endless:
  assumes "ic_baseExecFee ic = 30" and "distinct (interop_ids (ic_sha ic))"
    and "ch_hash160 ch (burn_script (ic_sha ic)) = hsh" and "\<not> ch_isNative ch hsh"
    and "510 \<le> sint gas" and "510 \<le> sint (ch_MaxVerificationGas ch)"
  shows "verifyHashAgainstScript fuel ch ic hsh [] (burn_script (ic_sha ic)) gas = Inl VerifyOutOfFuel"
proof -
  define gas' where "gas' = (if sint gas > sint (ch_MaxVerificationGas ch) then ch_MaxVerificationGas ch else gas)"
  define L where "L = nat (sint gas')"
  have g: "510 \<le> sint gas'" using assms(5,6) by (simp add: gas'_def)
  have gas': "gas' = word_of_nat L" using word_of_nat_sint [of gas'] g by (simp add: L_def)
  have L: "510 \<le> L" "L < 2 ^ 63" using g sint_int64 [of gas'] by (auto simp: L_def)
  let ?v = "mach [ctx 0 0 0 1] [verif_context (burn_script (ic_sha ic)) hsh] [] 0 0 L"
  have "burn_script (ic_sha ic) \<noteq> []" by (simp add: burn_script_def burn_push_def)
  then have init: "InitVerificationContext ch (spawn_host ch ic) hsh [] (burn_script (ic_sha ic)) (SpawnVM\<lparr>vm_GasLimit := gas'\<rparr>) = Inr ?v"
    using assms(3,4) verification_loaded burn_script_correct
    by (simp add: InitVerificationContext_def load_verification_def gas')
  have "Run (spawn_host ch ic) fuel ?v = run_loop (spawn_host ch ic) fuel ?v" by (simp add: Run_def) (simp add: mach_def)
  then show ?thesis
    using burn_never_ends [OF assms(1,2) L, of ch fuel 0 hsh] init
    by (simp add: verifyHashAgainstScript_def gas'_def [symmetric] Let_def)
qed

end
