(* ===== verification/Spec2Isabelle.thy ===== *)
theory Spec2Isabelle
  imports Mpt_Batch Mpt_Proof Storage_Api Witness_Scope Mempool_Safety Vm_Slots Vm_Flow Vm_Throw Vm_Gas
begin

text \<open>
  A verification library for the core of the EpicChain node (\<^verbatim>\<open>src/pkg\<close>): the code that every node has to run
  with the same result. It covers the bytes that are hashed and signed, the authenticated state,
  the storage below it, the admission of transactions, and the virtual machine with the checks of witnesses.

  \<^bold>\<open>How the parts fit together.\<close> Structures travel and are hashed as bytes written by \<^verbatim>\<open>pkg/io\<close>. Blocks commit to their
  transactions by a Merkle root and to the state by the root of a Merkle-Patricia trie, whose nodes are kept in a layered
  key-value store. Transactions carry signers with scopes and witnesses, pairs of scripts; those that
  pass the checks wait in the memory pool. The virtual machine runs scripts under a gas limit and a limit on the
  items it holds; system calls connect it with the node.

  \<^bold>\<open>Theories and sources.\<close> A theory models the files it names, in their order; \<open>_Spec\<close>, \<open>_Api\<close> and the like hold specifications and proofs.

    \<^item> \<open>Epic_Prelude\<close>, \<open>Go_Search\<close>: bytes, Go's integers and maps, byte order, \<^verbatim>\<open>sort.Search\<close>.
    \<^item> \<open>Bin_IO\<close> (\<^verbatim>\<open>io\<close>): readers and writers with their sticky error, array and size helpers. The locale \<open>codec\<close> is the contract of a
      pair of \<^verbatim>\<open>EncodeBinary\<close> and \<^verbatim>\<open>DecodeBinary\<close>; keys, signers, conditions, attributes and witnesses interpret it.
    \<^item> \<open>Merkle\<close> (\<^verbatim>\<open>crypto/hash\<close>, \<^verbatim>\<open>util/uint256.go\<close>): hashes and Merkle trees. SHA-256 is an argument throughout; what needs collision
      resistance states the collision.
    \<^item> \<open>Mpt_Node\<close>, \<open>Mpt_Trie\<close>, \<open>Mpt_Batch\<close>, \<open>Mpt_Proof\<close> (\<^verbatim>\<open>core/mpt\<close>): nodes and their bytes, \<^verbatim>\<open>Get\<close>, \<^verbatim>\<open>Put\<close>, \<^verbatim>\<open>Delete\<close>, \<^verbatim>\<open>Flush\<close>, \<^verbatim>\<open>Collapse\<close>, batches, proofs. \<open>Mpt_Spec\<close>
      says which map a node stands for and that a map has one well-formed node; \<open>Mpt_Refine\<close>, \<open>Mpt_Update\<close>, \<open>Mpt_Delete\<close> show that the
      operations refine those of the map and move the reference counters exactly; \<open>Mpt_Api\<close> has the locale \<open>authenticated_map\<close>, the
      independence of the root from history and its binding; \<open>Mpt_Flush\<close> what a flush leaves in the store.
    \<^item> \<open>Storage\<close>, \<open>Storage_Spec\<close>, \<open>Storage_Db\<close>, \<open>Storage_Api\<close> (\<^verbatim>\<open>core/storage\<close>): memory stores, cached layers and their persistence as a step relation whose
      steps are the critical sections of the locks. What is asked of a database is the locale \<open>kv_backend\<close> (get and put) and \<open>kv_seek\<close>, which adds
      seeks with the keys the database offers. The memory store and the LevelDB store, the latter on the documented contract of its library
      (\<open>leveldb_lib\<close>), provide both.
    \<^item> \<open>Keys\<close>, \<open>Transaction\<close>, \<open>Transaction_Spec\<close>, \<open>Transaction_Api\<close>, \<open>Witness_Scope\<close> (\<^verbatim>\<open>crypto/keys\<close>, \<^verbatim>\<open>core/transaction\<close>, \<^verbatim>\<open>core/interop/runtime/witness.go\<close>): public keys,
      transactions with their limits, round trip and hash, and what scopes and rules allow.
    \<^item> \<open>Mempool\<close>, \<open>Mempool_Spec\<close>, \<open>Mempool_Api\<close>, \<open>Mempool_Safety\<close> (\<^verbatim>\<open>core/mempool\<close>): the pool with its order, fees, conflicts and oracle
      responses; its invariant over all sequences of operations.
    \<^item> \<open>Bigint\<close>, \<open>Vm_Item\<close>, \<open>Vm_State\<close>, \<open>Vm_Opcode\<close>, \<open>Vm_Exec\<close> (\<^verbatim>\<open>encoding/bigint\<close>, \<^verbatim>\<open>vm/stackitem\<close>, \<^verbatim>\<open>vm\<close>, \<^verbatim>\<open>vm/opcode\<close>, \<^verbatim>\<open>core/fee\<close>): the machine. Compound items are
      references into a heap of objects with reference counts; evaluation stacks and script contexts live in tables. Every opcode is
      modelled. \<open>None\<close> is a panic, which makes the machine fault; the faulted machine is the one before the instruction.
    \<^item> \<open>Vm_Frame\<close>, \<open>Vm_Wf\<close>, \<open>Vm_Wf_Prim\<close>, \<open>Vm_Wf_Exec\<close>, \<open>Vm_Termination\<close>, \<open>Vm_Safety\<close>, \<open>Vm_Throw\<close>: what instructions leave alone (locales over a view of the machine), well-formed
      states, termination under a gas limit for any host, exceptions. \<open>Vm_Refs\<close>, \<open>Vm_Counted\<close>, \<open>Vm_Refs_Api\<close>, \<open>Vm_Stack_Limit\<close>, \<open>Vm_Slots\<close>: when the reference counter is
      exact, and when not.
    \<^item> \<open>Vm_Emit\<close>, \<open>Vm_Contract\<close>, \<open>Vm_Script\<close>, \<open>Vm_Flow\<close> (\<^verbatim>\<open>vm/emit\<close>, \<^verbatim>\<open>smartcontract/contract.go\<close>, \<^verbatim>\<open>vm/contract_checks.go\<close>, \<^verbatim>\<open>util/bitfield\<close>): writing scripts,
      standard accounts, the check of scripts and what it means for the machine.
    \<^item> \<open>Vm_Multisig\<close>, \<open>Interop\<close>, \<open>Vm_Pushes\<close>, \<open>Witness_Check\<close>, \<open>Vm_Gas\<close> (\<^verbatim>\<open>CheckMultisigPar\<close>, \<^verbatim>\<open>core/interop/crypto\<close>, \<^verbatim>\<open>BurnGas\<close>, \<^verbatim>\<open>core/interops.go\<close>, \<^verbatim>\<open>core/fee/calculate.go\<close>,
      \<^verbatim>\<open>verifyHashAgainstScript\<close>): signature checks by concurrent workers, the table of system calls, fees, and the verification of
      witnesses, where emission, script check, machine, system calls and fees meet; the gas limit of the machines the node spawns.

  \<^bold>\<open>What is shown.\<close> The trie: \<^verbatim>\<open>Put\<close>, \<^verbatim>\<open>Delete\<close> and \<^verbatim>\<open>PutBatch\<close> refine map updates with exact reference counts, the root depends on the contents only
  and binds them, flushing and collapsing lose nothing, proofs are accepted exactly when they are right. The store: operations
  through any layers are those of a map, seeks over LevelDB offer the entries of that map and, backwards from a start, the stale ones
  the theorem names; flushing is invisible to clients under every interleaving and failure of the database, and always comes to its end. Transactions: round trip, validity of whatever decodes, binding hash, witness scopes. The pool:
  invariant, no conflicts, payers that can pay after a cleaning, acceptance. The machine: it ends under a gas limit unless a call of the host evades the meter, keeps to its
  bounds, handles exceptions at the innermost handler that is not past, counts references exactly under the stated provisos and stays on the
  instructions of checked scripts. Witnesses: the concurrent check agrees with matching in order under every schedule, and
  standard accounts are verified exactly when the signatures match, for the fee that is foreseen, as long as the witness fits on the stack
  (not so for 1023 or 1024 signatures of 1024 keys). Where the code goes wrong, theorems and lemmas
  run the case: the limit on stack items, the schedule of the signature check, fees and oracle entries of the pool, cut keys and backwards starts in a seek, gas that is burnt for ever.

  \<^bold>\<open>Fuel.\<close> Trie operations take fuel because nothing in the code bounds a chain of stored hash nodes; four units per byte of the key and
  four more suffice (\<open>fuel_enough\<close>), and theorems about them say that the operation succeeds. Decoding of nodes and conditions
  recurses on the bytes or on the nesting limit. Equality and cloning of structs recurse at most 2047 times, their limit on
  compared or copied items. \<^verbatim>\<open>Run\<close> takes fuel for the number of instructions; \<open>vm_terminates\<close> shows that some fuel suffices under a gas limit that is not evaded, and the
  theorems on witnesses name the fuel. The loop over keys of a script stops after 1025.

  \<^bold>\<open>What is left out of the models.\<close> Memoised hashes and bytes are recomputed: a hash node that is read from the store keeps its own hash, where the code caches
  the one it was asked for, and proofs hold the encoding of a node, where the code returns the bytes it was read from; neither differs on stores that
  hold encoded nodes. Two keys at infinity do not compare in the model (the code finds them equal), and \<^verbatim>\<open>FromBytes\<close> has no nil slice to panic on. Storage errors in the middle of a trie operation return
  the error and no node. Stacks that share a backing array after \<^verbatim>\<open>subStack\<close> are separate lists. The exactness of the
  reference counter is not shown for returns, exceptions and system calls, the alignment of control flow not for calls through pointers and of the
  host. The signature theorems are about keys of the curve that decode. Metrics, logs and the invocation counters are left out.

  \<^bold>\<open>Not modelled.\<close> The chain around these parts (\<^verbatim>\<open>core/blockchain.go\<close> but for witnesses, \<^verbatim>\<open>core/block\<close>, \<^verbatim>\<open>core/dao\<close>, \<^verbatim>\<open>core/state\<close>, state roots and
  synchronisation) and the native contracts, which act on the whole interop context with its notifications and calls into other
  contracts; the system calls other than signature checks and \<^verbatim>\<open>BurnGas\<close>, which are a parameter; serialisation of stack items and all JSON; the compiler, which works on syntax
  trees of the Go tool chain; consensus, which is glue to a third-party library; network, RPC, services, wallets,
  configuration and command line, which are input and output, goroutines and files; the BoltDB store, and \<^verbatim>\<open>SeekGC\<close> of the LevelDB store.
\<close>

end
